(* ===== verification/Prelude.thy ===== *)
theory Prelude
  imports Main "HOL-Library.Word" "HOL-Library.Signed_Division" "HOL-Library.Monad_Syntax"
begin

text \<open>
  What every component shares: the names of the C types, the byte-level encoding of
  machine words (little endian, as on the x86-64 target), reads and writes of a region
  of a byte buffer (\<open>memcpy\<close>), and the collections of facts the proofs use.

  A C function is a HOL function that takes the state and returns an
  \<open>option\<close>: \<open>None\<close> is \<^emph>\<open>the process does not get past this call\<close>: a failed
  \<open>assert\<close>, \<open>abort()\<close>, or behaviour the C standard leaves undefined (the use of a
  buffer that was never filled, an index outside an array).  Error returns are values, as
  in the source.  C's signed \<open>long\<close> and \<open>off_t\<close> values are \<open>int\<close> where they are
  computed with and 64-bit words where they are stored on the disk.
\<close>

unbundle bit_operations_syntax

type_synonym byte = "8 word"
type_synonym u32 = "32 word"
type_synonym u64 = "64 word"
type_synonym blockno = "64 word"  \<comment> \<open>\<open>blockno_t\<close>: a signed long, read with \<open>sint\<close>\<close>
type_synonym ino = "64 word"      \<comment> \<open>\<open>ino_t\<close>: an unsigned long\<close>

named_theorems disk_simps "what a read of the disk returns after a write"
named_theorems codec_simps "round trips and sizes of the on-disk structures"
named_theorems frame_simps "what an operation leaves as it was"

section \<open>Regions of a buffer\<close>

definition slice :: "nat \<Rightarrow> nat \<Rightarrow> 'a list \<Rightarrow> 'a list" where
  "slice off n xs = take n (drop off xs)"

text \<open>\<open>patch off ys xs\<close>: the buffer \<open>xs\<close> after \<open>memcpy(xs + off, ys, length ys)\<close>.\<close>

definition patch :: "nat \<Rightarrow> 'a list \<Rightarrow> 'a list \<Rightarrow> 'a list" where
  "patch off ys xs = take off xs @ ys @ drop (off + length ys) xs"

lemma length_slice [simp]: "length (slice off n xs) = min n (length xs - off)"
  by (simp add: slice_def)

lemma nth_slice: "i < n \<Longrightarrow> off + i < length xs \<Longrightarrow> slice off n xs ! i = xs ! (off + i)"
  by (simp add: slice_def)

lemma length_patch [simp]: "off + length ys \<le> length xs \<Longrightarrow> length (patch off ys xs) = length xs"
  by (simp add: patch_def)

lemma nth_patch:
  assumes "off + length ys \<le> length xs" and "i < length xs"
  shows "patch off ys xs ! i = (if off \<le> i \<and> i < off + length ys then ys ! (i - off) else xs ! i)"
  using assms by (auto simp: patch_def nth_append)

lemma slice_patch_same:
  assumes "off + length ys \<le> length xs"
  shows "slice off (length ys) (patch off ys xs) = ys"
  using assms by (simp add: slice_def patch_def)

lemma slice_append_left: "off + n \<le> length xs \<Longrightarrow> slice off n (xs @ ys) = slice off n xs"
  by (simp add: slice_def)

lemma slice_append_right:
  "length xs \<le> off \<Longrightarrow> slice off n (xs @ ys) = slice (off - length xs) n ys"
  by (simp add: slice_def)

lemma slice_all [simp]: "n = length xs \<Longrightarrow> slice 0 n xs = xs"
  by (simp add: slice_def)

text \<open>
  \<open>memcpy(dst + doff, src + soff, n)\<close> and \<open>memset(dst + doff, 0, n)\<close> with C's signed
  offsets: a copy outside either buffer is undefined.
\<close>

definition memcpy :: "'a list \<Rightarrow> int \<Rightarrow> 'a list \<Rightarrow> int \<Rightarrow> int \<Rightarrow> 'a list option" where
  "memcpy dst doff src soff n =
    (if 0 \<le> n \<and> 0 \<le> doff \<and> 0 \<le> soff \<and> doff + n \<le> int (length dst) \<and> soff + n \<le> int (length src)
     then Some (patch (nat doff) (slice (nat soff) (nat n) src) dst) else None)"

definition memzero :: "'a::zero list \<Rightarrow> int \<Rightarrow> int \<Rightarrow> 'a list option" where
  "memzero dst doff n = memcpy dst doff (replicate (nat n) 0) 0 n"

lemma memcpy_Some:
  assumes "0 \<le> n" "0 \<le> doff" "0 \<le> soff" "doff + n \<le> int (length dst)" "soff + n \<le> int (length src)"
  shows "\<exists>xs. memcpy dst doff src soff n = Some xs \<and> length xs = length dst \<and>
    (\<forall>i < length dst. xs ! i = (if doff \<le> int i \<and> int i < doff + n
       then src ! nat (soff + int i - doff) else dst ! i))"
proof -
  let ?ys = "slice (nat soff) (nat n) src"
  have len: "length ?ys = nat n"
    using assms by simp
  then have fit: "nat doff + length ?ys \<le> length dst"
    using assms by linarith
  have "patch (nat doff) ?ys dst ! i = (if doff \<le> int i \<and> int i < doff + n
       then src ! nat (soff + int i - doff) else dst ! i)" if i: "i < length dst" for i
  proof (cases "doff \<le> int i \<and> int i < doff + n")
    case True
    then have "i - nat doff < nat n" "nat soff + (i - nat doff) < length src"
        "nat soff + (i - nat doff) = nat (soff + int i - doff)" "nat doff \<le> i" "i < nat doff + nat n"
      using assms by linarith+
    then show ?thesis
      using True nth_patch [OF fit i] len nth_slice [of "i - nat doff" "nat n" "nat soff" src] by simp
  next
    case False
    then have "\<not> (nat doff \<le> i \<and> i < nat doff + nat n)"
      using assms by linarith
    then show ?thesis
      using False nth_patch [OF fit i] len by auto
  qed
  then show ?thesis
    using assms fit by (auto simp: memcpy_def)
qed

lemma memzero_Some:
  assumes "0 \<le> n" "0 \<le> doff" "doff + n \<le> int (length dst)"
  shows "\<exists>xs. memzero dst doff n = Some xs \<and> length xs = length dst \<and>
    (\<forall>i < length dst. xs ! i = (if doff \<le> int i \<and> int i < doff + n then 0 else dst ! i))"
proof -
  obtain xs where xs: "memzero dst doff n = Some xs" "length xs = length dst"
    "\<forall>i < length dst. xs ! i = (if doff \<le> int i \<and> int i < doff + n
       then replicate (nat n) 0 ! nat (0 + int i - doff) else dst ! i)"
    using memcpy_Some [of n doff 0 dst "replicate (nat n) 0"] assms by (auto simp: memzero_def)
  have "replicate (nat n) 0 ! nat (0 + int i - doff) = (0 :: 'a)" if "doff \<le> int i" "int i < doff + n" for i
    using that by (intro nth_replicate) linarith
  then show ?thesis
    using xs by (intro exI [of _ xs]) auto
qed

section \<open>Words as little-endian bytes\<close>

definition bytes_of :: "nat \<Rightarrow> 'a::len word \<Rightarrow> byte list" where
  "bytes_of n w = map (\<lambda>i. ucast (drop_bit (8 * i) w)) [0..<n]"

fun of_bytes :: "byte list \<Rightarrow> 'a::len word" where
  "of_bytes [] = 0"
| "of_bytes (b # bs) = ucast b OR push_bit 8 (of_bytes bs)"

lemma length_bytes_of [simp, codec_simps]: "length (bytes_of n w) = n"
  by (simp add: bytes_of_def)

lemma bytes_of_Suc: "bytes_of (Suc n) w = ucast w # bytes_of n (drop_bit 8 w)"
  by (simp add: bytes_of_def map_upt_Suc add.commute del: upt_Suc)

lemma of_bytes_bytes_of: "of_bytes (bytes_of n w) = take_bit (8 * n) w"
proof (induction n arbitrary: w)
  case 0
  then show ?case by (simp add: bytes_of_def)
next
  case (Suc n)
  have "ucast (ucast w :: byte) OR push_bit 8 (take_bit (8 * n) (drop_bit 8 w)) = take_bit (8 * Suc n) w"
    by (rule bit_word_eqI)
      (auto simp: bit_or_iff bit_push_bit_iff bit_take_bit_iff bit_drop_bit_eq bit_ucast_iff
        dest: bit_imp_le_length)
  then show ?case
    by (simp add: bytes_of_Suc Suc)
qed

lemma of_bytes_8 [simp, codec_simps]: "of_bytes (bytes_of 8 w) = (w :: u64)"
  by (simp add: of_bytes_bytes_of take_bit_word_eq_self)

lemma of_bytes_4 [simp, codec_simps]: "of_bytes (bytes_of 4 w) = (w :: u32)"
  by (simp add: of_bytes_bytes_of take_bit_word_eq_self)

text \<open>An array of 64-bit words, as the bytes of memory it occupies.\<close>

definition bytes_of_words :: "u64 list \<Rightarrow> byte list" where
  "bytes_of_words ws = concat (map (bytes_of 8) ws)"

fun words_of_bytes :: "nat \<Rightarrow> byte list \<Rightarrow> u64 list" where
  "words_of_bytes 0 bs = []"
| "words_of_bytes (Suc n) bs = of_bytes (take 8 bs) # words_of_bytes n (drop 8 bs)"

lemma length_bytes_of_words [simp, codec_simps]: "length (bytes_of_words ws) = 8 * length ws"
  by (induction ws) (simp_all add: bytes_of_words_def)

lemma length_words_of_bytes [simp, codec_simps]: "length (words_of_bytes n bs) = n"
  by (induction n arbitrary: bs) simp_all

lemma words_of_bytes_of_words_append:
  "words_of_bytes (length ws) (bytes_of_words ws @ bs) = ws"
  by (induction ws) (simp_all add: bytes_of_words_def)

lemma words_of_bytes_of_words [simp, codec_simps]:
  "n = length ws \<Longrightarrow> words_of_bytes n (bytes_of_words ws) = ws"
  using words_of_bytes_of_words_append [of ws "[]"] by simp

section \<open>Counted loops and searches\<close>

text \<open>\<open>for (i in is) s = f(i, s);\<close> where the body may stop the process.\<close>

primrec for_each :: "'i list \<Rightarrow> ('i \<Rightarrow> 's \<Rightarrow> 's option) \<Rightarrow> 's \<Rightarrow> 's option" where
  "for_each [] f s = Some s"
| "for_each (i # is) f s = do { s \<leftarrow> f i s; for_each is f s }"

lemma for_each_append:
  "for_each (is @ js) f s = do { s \<leftarrow> for_each is f s; for_each js f s }"
  by (induction "is" arbitrary: s) (auto split: Option.bind_split)

lemma for_each_upt_invariant:
  assumes "I 0 s"
    and "\<And>i s. i < n \<Longrightarrow> I i s \<Longrightarrow> \<exists>s'. f i s = Some s' \<and> I (Suc i) s'"
  shows "\<exists>s'. for_each [0..<n] f s = Some s' \<and> I n s'"
  using assms
proof (induction n)
  case (Suc n)
  then obtain s' where "for_each [0..<n] f s = Some s'" "I n s'"
    by (metis less_SucI)
  with Suc.prems(2) [of n s'] show ?case
    by (auto simp: for_each_append)
qed simp

lemma upto_map_int: "[int a..int b] = map int [a..<Suc b]"
  by (rule nth_equalityI) (auto simp: nth_append nth_upto simp del: upt_Suc)

definition first_index :: "('a \<Rightarrow> bool) \<Rightarrow> 'a list \<Rightarrow> nat option" where
  "first_index P xs = find (\<lambda>i. P (xs ! i)) [0..<length xs]"

definition last_index :: "('a \<Rightarrow> bool) \<Rightarrow> 'a list \<Rightarrow> nat option" where
  "last_index P xs = find (\<lambda>i. P (xs ! i)) (rev [0..<length xs])"

lemma first_index_Nil [simp]: "first_index P [] = None"
  by (simp add: first_index_def)

lemma first_index_Cons [simp]: "first_index P (x # xs) = (if P x then Some 0 else map_option Suc (first_index P xs))"
proof -
  have "find (\<lambda>i. P ((x # xs) ! i)) (map Suc is) = map_option Suc (find (\<lambda>i. P (xs ! i)) is)" for "is"
    by (induction "is") simp_all
  then show ?thesis
    unfolding first_index_def length_Cons upt_conv_Cons [OF zero_less_Suc] by (simp add: map_Suc_upt [symmetric] del: upt_Suc)
qed

lemma first_index_at: "\<forall>x \<in> set xs. \<not> P x \<Longrightarrow> P y \<Longrightarrow> first_index P (xs @ y # ys) = Some (length xs)"
  by (induction xs) simp_all

lemma replicate_join: "a + b = c \<Longrightarrow> replicate a x @ replicate b x = replicate c x"
  by (simp add: replicate_add [symmetric])

lemma first_index_SomeD: "first_index P xs = Some i \<Longrightarrow> i < length xs \<and> P (xs ! i)"
  by (auto simp: first_index_def find_Some_iff)

lemma first_index_Some_before: "first_index P xs = Some i \<Longrightarrow> j < i \<Longrightarrow> \<not> P (xs ! j)"
  by (auto simp: first_index_def find_Some_iff)

lemma last_index_SomeD: "last_index P xs = Some i \<Longrightarrow> i < length xs \<and> P (xs ! i)"
  by (auto simp: last_index_def find_Some_iff rev_nth)

lemma index_None_iff:
  "first_index P xs = None \<longleftrightarrow> (\<forall>x \<in> set xs. \<not> P x)"
  "last_index P xs = None \<longleftrightarrow> (\<forall>x \<in> set xs. \<not> P x)"
  by (simp_all add: first_index_def last_index_def find_None_iff all_set_conv_all_nth)

text \<open>A slot of an array that is filled or emptied, seen through a filter.\<close>

lemma filter_slot:
  "i < length xs \<Longrightarrow>
    filter P (xs[i := x]) = filter P (take i xs) @ (if P x then [x] else []) @ filter P (drop (Suc i) xs)"
  by (simp add: upd_conv_take_nth_drop)

lemma filter_slot_self:
  "i < length xs \<Longrightarrow>
    filter P xs = filter P (take i xs) @ (if P (xs ! i) then [xs ! i] else []) @ filter P (drop (Suc i) xs)"
  by (metis filter_slot list_update_id)

section \<open>Signed words\<close>

text \<open>\<open>BLOCKNO_EOF\<close> and \<open>INO_EOF\<close>: \<open>LONG_MIN\<close>, the word \<open>2^63\<close>.\<close>

definition EOF :: u64 where
  "EOF = 0x8000000000000000"

lemma sint_EOF [simp]: "sint EOF < 0"
  by (simp add: EOF_def)

lemma uminus_EOF [simp]: "- EOF = EOF"
  by (simp add: EOF_def)

lemma unat_less_uint_iff: "unat (w :: u64) < n \<longleftrightarrow> uint w < int n"
proof -
  have "int (unat w) = uint w" by simp
  then show ?thesis by linarith
qed

lemma sint_eq_unat:
  assumes "unat (w :: u64) < 2 ^ 63"
  shows "sint w = int (unat w)"
proof -
  have "uint w < 2 ^ 63"
    using assms unfolding unat_less_uint_iff by simp
  moreover have "0 \<le> uint w" by simp
  ultimately have "signed_take_bit 63 (uint w) = uint w"
    unfolding signed_take_bit_int_eq_self_iff by linarith
  then have "sint w = uint w"
    unfolding sint_uint by simp
  then show ?thesis by simp
qed

lemma sint_nonneg_iff: "0 \<le> sint (w :: u64) \<longleftrightarrow> unat w < 2 ^ 63"
proof
  assume nonneg: "0 \<le> sint w"
  have "sint w = uint w - 2 ^ 64 * of_bool (bit (uint w) 63)"
    unfolding sint_uint signed_take_bit_eq_take_bit_minus
    using uint_lt2p [of w] by (simp add: take_bit_int_eq_self)
  moreover have "uint w < 2 ^ 64"
    using uint_lt2p [of w] by simp
  ultimately have "sint w = uint w"
    using nonneg by (cases "bit (uint w) 63") simp_all
  moreover have "sint w < 2 ^ 63"
    using sint_lt [of w] by simp
  ultimately show "unat w < 2 ^ 63"
    unfolding unat_less_uint_iff by simp
qed (simp add: sint_eq_unat)

lemma sint_neg_iff: "sint (w :: u64) < 0 \<longleftrightarrow> 2 ^ 63 \<le> unat w"
  using sint_nonneg_iff [of w] by linarith

end
