(* ===== verification/Disk.thy ===== *)
theory Disk
  imports Prelude
begin

text \<open>
  The disk module (\<open>disk.h\<close>, \<open>disk.c\<close>): an array of blocks, in memory (\<open>fd = -1\<close>) or
  on a device.  The bytes behind \<open>data[]\<close> or behind the file descriptor are the field
  \<open>disk_data\<close>; \<open>malloc\<close>, \<open>open\<close> and the two \<open>ioctl\<close>s are parameters, and \<open>io_ok\<close>
  says at which offsets the kernel completes a seek and a whole-block transfer.  The last
  part gives the view the other modules use: the bytes of block \<open>n\<close>, \<open>blk d n\<close>, and
  the disk after block \<open>n\<close> is overwritten, \<open>upd_blk d n b\<close>.
\<close>

abbreviation BLOCKSIZE :: "'a::numeral" where
  "BLOCKSIZE \<equiv> 4096"

record disk_t =
  nblocks :: u64
  blocksize :: u32
  fd :: int
  disk_data :: "nat \<Rightarrow> byte"
  io_ok :: "nat \<Rightarrow> bool"

section \<open>Opening\<close>

text \<open>\<open>malloc n\<close> is the content of the fresh memory, or \<open>None\<close> for a null pointer.\<close>

definition disk_create :: "(u64 \<Rightarrow> (nat \<Rightarrow> byte) option) \<Rightarrow> u64 \<Rightarrow> u32 \<Rightarrow> disk_t option" where
  "disk_create malloc nblks bsize =
    (let fullsize = nblks * scast bsize in
     case malloc (16 + fullsize) of
       None \<Rightarrow> None
     | Some mem \<Rightarrow> Some \<lparr>nblocks = nblks, blocksize = bsize, fd = -1,
         disk_data = mem, io_ok = (\<lambda>_. True)\<rparr>)"

text \<open>
  What the kernel answers for a path: the descriptor, the two \<open>ioctl\<close>s (\<open>None\<close> for a
  negative result), the bytes of the device and where its transfers succeed.
\<close>

record device =
  dev_open :: int
  dev_BLKBSZGET :: "u32 option"
  dev_BLKGETSIZE64 :: "u64 option"
  dev_data :: "nat \<Rightarrow> byte"
  dev_io_ok :: "nat \<Rightarrow> bool"

text \<open>The inner \<open>None\<close> is the null pointer; the outer one the trap of a division by zero.\<close>

definition disk_open :: "bool \<Rightarrow> device \<Rightarrow> u32 \<Rightarrow> disk_t option option" where
  "disk_open malloc_ok dev bsize =
    (if \<not> malloc_ok then Some None
     else if dev_open dev < 0 then Some None
     else case (if bsize = -1 then dev_BLKBSZGET dev else Some bsize) of
       None \<Rightarrow> Some None
     | Some bs \<Rightarrow>
        (case dev_BLKGETSIZE64 dev of
           None \<Rightarrow> Some None
         | Some bytes \<Rightarrow>
             if bs = 0 then None
             else Some (Some \<lparr>nblocks = bytes div ucast bs, blocksize = bs, fd = dev_open dev,
                    disk_data = dev_data dev, io_ok = dev_io_ok dev\<rparr>)))"

section \<open>Reading and writing a block\<close>

definition block_offset :: "'x disk_t_scheme \<Rightarrow> u64 \<Rightarrow> nat" where
  "block_offset d blockno = unat (blockno * ucast (blocksize d))"

text \<open>
  \<open>disk_read d n buf\<close> is the content of the caller's buffer afterwards, where
  \<open>None\<close> is a buffer nobody has written to: a block number past the end leaves the
  buffer as it was.  The outer \<open>None\<close> is \<open>abort()\<close>.
\<close>

definition disk_read :: "'x disk_t_scheme \<Rightarrow> u64 \<Rightarrow> byte list option \<Rightarrow> byte list option option" where
  "disk_read d blockno block =
    (if nblocks d \<le> blockno then Some block
     else let off = block_offset d blockno; n = unat (blocksize d) in
       if fd d = -1 then Some (Some (map (disk_data d) [off..<off + n]))
       else if \<not> io_ok d off then None
       else Some (Some (map (disk_data d) [off..<off + n])))"

definition disk_write :: "'x disk_t_scheme \<Rightarrow> u64 \<Rightarrow> byte list \<Rightarrow> 'x disk_t_scheme option" where
  "disk_write d blockno block =
    (if nblocks d \<le> blockno then Some d
     else let off = block_offset d blockno; n = unat (blocksize d);
              d' = d\<lparr>disk_data := (\<lambda>a. if off \<le> a \<and> a < off + n then block ! (a - off)
                                     else disk_data d a)\<rparr> in
       if length block < n then None
       else if fd d = -1 then Some d'
       else if \<not> io_ok d off then None
       else Some d')"

text \<open>
  The pattern \<open>T block; disk_read(disk, n, &block);\<close> of every caller, where \<open>block\<close>
  has \<open>BLOCKSIZE\<close> bytes and is used afterwards: a buffer left unfilled, or of another
  size than the disk's blocks, is undefined behaviour.
\<close>

definition read_block :: "'x disk_t_scheme \<Rightarrow> u64 \<Rightarrow> byte list option" where
  "read_block d blockno =
    do { buf \<leftarrow> disk_read d blockno None;
         block \<leftarrow> buf;
         if length block = BLOCKSIZE then Some block else None }"

section \<open>The disk as a map from block numbers to blocks\<close>

definition wf_disk :: "'x disk_t_scheme \<Rightarrow> bool" where
  "wf_disk d \<longleftrightarrow> blocksize d = BLOCKSIZE \<and> unat (nblocks d) * BLOCKSIZE < 2 ^ 63 \<and>
     (fd d = -1 \<or> (\<forall>n < unat (nblocks d). io_ok d (n * BLOCKSIZE)))"

definition blk :: "'x disk_t_scheme \<Rightarrow> u64 \<Rightarrow> byte list" where
  "blk d n = map (disk_data d) [unat n * BLOCKSIZE..<unat n * BLOCKSIZE + BLOCKSIZE]"

definition upd_blk :: "'x disk_t_scheme \<Rightarrow> u64 \<Rightarrow> byte list \<Rightarrow> 'x disk_t_scheme" where
  "upd_blk d n b = d\<lparr>disk_data := (\<lambda>a. if unat n * BLOCKSIZE \<le> a \<and> a < unat n * BLOCKSIZE + BLOCKSIZE
     then b ! (a - unat n * BLOCKSIZE) else disk_data d a)\<rparr>"

lemma length_blk [simp]: "length (blk d n) = BLOCKSIZE"
  by (simp add: blk_def)

lemma block_offset_wf:
  assumes "wf_disk d" and "n < nblocks d"
  shows "block_offset d n = unat n * BLOCKSIZE"
proof -
  have "unat n * BLOCKSIZE < 2 ^ 63"
    using assms unfolding wf_disk_def word_less_nat_alt
    by (meson less_imp_le mult_le_mono1 order_le_less_trans)
  then have "unat (n * 4096) = unat n * unat (4096 :: u64)"
    by (subst unat_mult_lem [symmetric]) simp
  then show ?thesis
    using assms(1) by (simp add: block_offset_def wf_disk_def)
qed

lemma io_ok_wf:
  "wf_disk d \<Longrightarrow> n < nblocks d \<Longrightarrow> fd d \<noteq> -1 \<Longrightarrow> io_ok d (unat n * BLOCKSIZE)"
  by (auto simp: wf_disk_def word_less_nat_alt)

lemma disk_read_wf:
  "wf_disk d \<Longrightarrow> disk_read d n buf = Some (if n < nblocks d then Some (blk d n) else buf)"
  using block_offset_wf [of d n] io_ok_wf [of d n]
  by (auto simp: disk_read_def Let_def blk_def wf_disk_def not_le)

lemma read_block_wf [disk_simps]:
  "wf_disk d \<Longrightarrow> read_block d n = (if n < nblocks d then Some (blk d n) else None)"
  by (simp add: read_block_def disk_read_wf)

lemma disk_write_wf [disk_simps]:
  "wf_disk d \<Longrightarrow> length b = BLOCKSIZE \<Longrightarrow>
    disk_write d n b = Some (if n < nblocks d then upd_blk d n b else d)"
  using block_offset_wf [of d n] io_ok_wf [of d n]
  by (auto simp: disk_write_def Let_def upd_blk_def wf_disk_def not_le)

text \<open>Blocks do not overlap: writing one changes no byte of another.\<close>

lemma blk_upd_blk [simp, disk_simps]:
  assumes "length b = BLOCKSIZE"
  shows "blk (upd_blk d n b) m = (if m = n then b else blk d m)"
proof (cases "m = n")
  case True
  with assms show ?thesis
    by (auto simp: blk_def upd_blk_def intro!: nth_equalityI)
next
  case False
  then have "unat m < unat n \<or> unat n < unat m"
    by (metis linorder_neqE_nat word_unat_eq_iff)
  then have "\<not> (unat n * BLOCKSIZE \<le> a \<and> a < unat n * BLOCKSIZE + BLOCKSIZE)"
    if "unat m * BLOCKSIZE \<le> a" "a < unat m * BLOCKSIZE + BLOCKSIZE" for a
    using that by auto
  then show ?thesis
    using False by (auto simp: blk_def upd_blk_def)
qed

lemma nblocks_upd_blk [simp, frame_simps]: "nblocks (upd_blk d n b) = nblocks d"
  and blocksize_upd_blk [simp, frame_simps]: "blocksize (upd_blk d n b) = blocksize d"
  and fd_upd_blk [simp, frame_simps]: "fd (upd_blk d n b) = fd d"
  and wf_disk_upd_blk [simp, frame_simps]: "wf_disk (upd_blk d n b) = wf_disk d"
  and more_upd_blk [simp, frame_simps]: "disk_t.more (upd_blk d n b) = disk_t.more d"
  by (simp_all add: upd_blk_def wf_disk_def)

lemma blk_ext: "disk_data d = disk_data d' \<Longrightarrow> blk d n = blk d' n"
  by (simp add: blk_def)

text \<open>
  \<open>same_dev d d'\<close>: the two states have the same device and the same state above the disk;
  only bytes of the disk may differ.
\<close>

definition same_dev :: "'x disk_t_scheme \<Rightarrow> 'x disk_t_scheme \<Rightarrow> bool" where
  "same_dev d d' \<longleftrightarrow> d' = d\<lparr>disk_data := disk_data d'\<rparr>"

lemma same_dev_refl [simp]: "same_dev d d"
  by (simp add: same_dev_def)

lemma same_dev_upd_blk [simp]: "same_dev d (upd_blk d n b)"
  by (simp add: same_dev_def upd_blk_def)

lemma same_dev_trans: "same_dev d d' \<Longrightarrow> same_dev d' d'' \<Longrightarrow> same_dev d d''"
  unfolding same_dev_def by (metis disk_t.surjective disk_t.update_convs(4))

lemma same_dev_fields:
  assumes "same_dev d d'"
  shows "nblocks d' = nblocks d" "blocksize d' = blocksize d" "fd d' = fd d"
    "wf_disk d' = wf_disk d" "disk_t.more d' = disk_t.more d"
proof -
  obtain f where d': "d' = d\<lparr>disk_data := f\<rparr>"
    using assms unfolding same_dev_def by blast
  show "nblocks d' = nblocks d" "blocksize d' = blocksize d" "fd d' = fd d"
    "wf_disk d' = wf_disk d" "disk_t.more d' = disk_t.more d"
    unfolding d' by (simp_all add: wf_disk_def)
qed

end
