(* ===== verification/Layout.thy ===== *)
theory Layout
  imports Disk
begin

text \<open>
  The structures that live in disk blocks, as C lays them out on x86-64 Linux, and the
  laws a client of any of them relies on (locale \<open>block_codec\<close>): a stored structure
  fills one block exactly, which is what the \<open>_Static_assert\<close>s of the source say, and
  reads back as it was written.  Padding bytes are written as zeros (the source leaves
  them as they were; nothing reads them).
\<close>

section \<open>The contract of an on-disk structure\<close>

locale block_codec =
  fixes enc :: "'s \<Rightarrow> byte list"
    and dec :: "byte list \<Rightarrow> 's"
    and ok :: "'s \<Rightarrow> bool"
  assumes length_enc: "ok s \<Longrightarrow> length (enc s) = BLOCKSIZE"
    and dec_enc: "ok s \<Longrightarrow> dec (enc s) = s"
    and ok_dec: "length b = BLOCKSIZE \<Longrightarrow> ok (dec b)"
begin

lemma write_wf:
  "wf_disk d \<Longrightarrow> ok s \<Longrightarrow>
    disk_write d n (enc s) = Some (if n < nblocks d then upd_blk d n (enc s) else d)"
  by (simp add: disk_write_wf length_enc)

lemma read_back:
  assumes "wf_disk d" and "n < nblocks d" and "ok s"
    and "disk_write d n (enc s) = Some d'"
  shows "map_option dec (read_block d' n) = Some s"
  using assms by (auto simp: write_wf read_block_wf length_enc dec_enc)

lemma dec_upd_blk: "ok s \<Longrightarrow> dec (blk (upd_blk d n (enc s)) m) = (if m = n then s else dec (blk d m))"
  by (simp add: length_enc dec_enc)

lemma ok_blk: "ok (dec (blk d n))"
  by (simp add: ok_dec)

lemma enc_inject: "ok s \<Longrightarrow> ok t \<Longrightarrow> enc s = enc t \<longleftrightarrow> s = t"
  by (metis dec_enc)

end

section \<open>The superblock\<close>

record superblock =
  sb_magic :: u32
  ilist_size :: u64
  freelist_start :: blockno
  ino_freelist_start :: ino
  free_blocks :: u64
  free_inodes :: u64

definition CANDYFS_MAGIC :: u32 where
  "CANDYFS_MAGIC = 0xCA4D11F5"

definition enc_super :: "superblock \<Rightarrow> byte list" where
  "enc_super s = bytes_of 4 (sb_magic s) @ replicate 4 0 @
     bytes_of_words [ilist_size s, freelist_start s, ino_freelist_start s, free_blocks s, free_inodes s] @
     replicate 4048 0"

definition dec_super :: "byte list \<Rightarrow> superblock" where
  "dec_super b =
    \<lparr>sb_magic = of_bytes (slice 0 4 b), ilist_size = of_bytes (slice 8 8 b),
     freelist_start = of_bytes (slice 16 8 b), ino_freelist_start = of_bytes (slice 24 8 b),
     free_blocks = of_bytes (slice 32 8 b), free_inodes = of_bytes (slice 40 8 b)\<rparr>"

section \<open>Blocks of the two free lists\<close>

abbreviation BLOCKNUMS_PER_FREELIST_BLOCK :: "'a::numeral" where
  "BLOCKNUMS_PER_FREELIST_BLOCK \<equiv> 511"

abbreviation INUMS_PER_ILIST_BLOCK :: "'a::numeral" where
  "INUMS_PER_ILIST_BLOCK \<equiv> 512"

record freelist_block =
  fl_next :: blockno
  fl_blocks :: "blockno list"

definition freelist_ok :: "freelist_block \<Rightarrow> bool" where
  "freelist_ok f \<longleftrightarrow> length (fl_blocks f) = BLOCKNUMS_PER_FREELIST_BLOCK"

definition enc_freelist :: "freelist_block \<Rightarrow> byte list" where
  "enc_freelist f = bytes_of_words (fl_next f # fl_blocks f)"

definition dec_freelist :: "byte list \<Rightarrow> freelist_block" where
  "dec_freelist b = (let ws = words_of_bytes 512 b in \<lparr>fl_next = hd ws, fl_blocks = tl ws\<rparr>)"

text \<open>\<open>ilist_block_t\<close> and \<open>indirect_block_t\<close> are both arrays of 512 block numbers.\<close>

definition words_ok :: "u64 list \<Rightarrow> bool" where
  "words_ok ws \<longleftrightarrow> length ws = 512"

definition enc_words :: "u64 list \<Rightarrow> byte list" where
  "enc_words ws = bytes_of_words ws"

definition dec_words :: "byte list \<Rightarrow> u64 list" where
  "dec_words b = words_of_bytes 512 b"

section \<open>The inode\<close>

record timespec =
  tv_sec :: u64
  tv_nsec :: u64

record inode_info =
  imode :: u32
  iowner :: u32
  igroup :: u32
  inlinks :: u64
  isize :: u64  \<comment> \<open>\<open>off_t\<close>, read with \<open>sint\<close>\<close>
  created :: timespec
  last_access :: timespec
  last_change :: timespec
  last_statchange :: timespec

record inode_t = inode_info +
  imagic :: u32
  iblocks :: "blockno list"

definition INODE_MAGIC :: u32 where
  "INODE_MAGIC = 0xCA4140DE"

abbreviation NUM_BLOCK_SLOTS :: "'a::numeral" where
  "NUM_BLOCK_SLOTS \<equiv> 499"

definition inode_ok :: "inode_t \<Rightarrow> bool" where
  "inode_ok i \<longleftrightarrow> length (iblocks i) = NUM_BLOCK_SLOTS"

definition timespec_words :: "timespec \<Rightarrow> u64 list" where
  "timespec_words t = [tv_sec t, tv_nsec t]"

definition dec_timespec :: "byte list \<Rightarrow> timespec" where
  "dec_timespec b = \<lparr>tv_sec = of_bytes (slice 0 8 b), tv_nsec = of_bytes (slice 8 8 b)\<rparr>"

text \<open>
  Offsets: \<open>mode\<close> 0, \<open>owner\<close> 4, \<open>group\<close> 8, \<open>nlinks\<close> 16, \<open>size\<close> 24, the four times
  from 32, \<open>magic\<close> 96, the block slots from 104.
\<close>

definition enc_inode :: "inode_t \<Rightarrow> byte list" where
  "enc_inode i = bytes_of 4 (imode i) @ bytes_of 4 (iowner i) @ bytes_of 4 (igroup i) @ replicate 4 0 @
     bytes_of_words ([inlinks i, isize i] @ timespec_words (created i) @ timespec_words (last_access i) @
       timespec_words (last_change i) @ timespec_words (last_statchange i)) @
     bytes_of 4 (imagic i) @ replicate 4 0 @ bytes_of_words (iblocks i)"

definition dec_inode :: "byte list \<Rightarrow> inode_t" where
  "dec_inode b =
    \<lparr>imode = of_bytes (slice 0 4 b), iowner = of_bytes (slice 4 4 b), igroup = of_bytes (slice 8 4 b),
     inlinks = of_bytes (slice 16 8 b), isize = of_bytes (slice 24 8 b),
     created = dec_timespec (slice 32 16 b), last_access = dec_timespec (slice 48 16 b),
     last_change = dec_timespec (slice 64 16 b), last_statchange = dec_timespec (slice 80 16 b),
     imagic = of_bytes (slice 96 4 b), iblocks = words_of_bytes NUM_BLOCK_SLOTS (slice 104 3992 b)\<rparr>"

section \<open>Every structure meets the contract\<close>

lemmas slice_layout = slice_append_left slice_append_right bytes_of_words_def

interpretation super_codec: block_codec enc_super dec_super "\<lambda>_. True"
  by unfold_locales (simp_all add: enc_super_def dec_super_def slice_layout)

interpretation freelist_codec: block_codec enc_freelist dec_freelist freelist_ok
proof unfold_locales
  fix s :: freelist_block
  assume ok: "freelist_ok s"
  then show "length (enc_freelist s) = BLOCKSIZE"
    by (simp add: enc_freelist_def freelist_ok_def)
  show "dec_freelist (enc_freelist s) = s"
    using ok by (simp add: enc_freelist_def dec_freelist_def freelist_ok_def Let_def)
next
  fix b :: "byte list"
  show "freelist_ok (dec_freelist b)"
    by (simp add: dec_freelist_def freelist_ok_def Let_def)
qed

interpretation words_codec: block_codec enc_words dec_words words_ok
  by unfold_locales (simp_all add: enc_words_def dec_words_def words_ok_def)

lemma slice_slice: "off' + n \<le> m \<Longrightarrow> slice off' n (slice off m xs) = slice (off + off') n xs"
  by (simp add: slice_def take_drop add.commute min_def)

interpretation inode_codec: block_codec enc_inode dec_inode inode_ok
proof unfold_locales
  fix s :: inode_t
  assume ok: "inode_ok s"
  then show "length (enc_inode s) = BLOCKSIZE"
    by (simp add: enc_inode_def inode_ok_def timespec_words_def)
  let ?bl = "bytes_of_words (iblocks s)"
  have len: "length ?bl = 3992" and words: "words_of_bytes 499 ?bl = iblocks s"
    using ok by (simp_all add: inode_ok_def)
  show "dec_inode (enc_inode s) = s"
    using len words
    by (simp add: dec_inode_def enc_inode_def timespec_words_def dec_timespec_def slice_slice slice_append_left
        slice_append_right bytes_of_words_def [of "_ # _"] bytes_of_words_def [of "[]"])
next
  fix b :: "byte list"
  show "inode_ok (dec_inode b)"
    by (simp add: dec_inode_def inode_ok_def)
qed

lemmas codec_lengths [simp, codec_simps] =
  super_codec.length_enc [OF TrueI] freelist_codec.length_enc words_codec.length_enc inode_codec.length_enc

lemmas codec_round_trips [simp, codec_simps] =
  super_codec.dec_enc [OF TrueI] freelist_codec.dec_enc words_codec.dec_enc inode_codec.dec_enc

end
