(* ===== verification/Block.thy ===== *)
theory Block
  imports Layout
begin

text \<open>
  The block module (\<open>block.c\<close>): the inode table (which block holds inode \<open>i\<close>), the two
  free lists threaded through the disk, and their creation by \<open>mkfs_storage\<close>.  Every
  function here is the C function of the same name over the disk's bytes; what they mean
  is in the theory \<open>Storage\<close>.
\<close>

section \<open>The inode table\<close>

definition ino_get :: "'x disk_t_scheme \<Rightarrow> ino \<Rightarrow> blockno option" where
  "ino_get d inumber =
    do { b \<leftarrow> read_block d (1 + inumber div INUMS_PER_ILIST_BLOCK);
         let myblock = dec_words b;
         Some (myblock ! unat (inumber mod INUMS_PER_ILIST_BLOCK)) }"

definition ino_set :: "'x disk_t_scheme \<Rightarrow> ino \<Rightarrow> blockno \<Rightarrow> 'x disk_t_scheme option" where
  "ino_set d inumber blocknumber =
    do { b \<leftarrow> read_block d (1 + inumber div INUMS_PER_ILIST_BLOCK);
         let myblock = (dec_words b)[unat (inumber mod INUMS_PER_ILIST_BLOCK) := blocknumber];
         disk_write d (1 + inumber div INUMS_PER_ILIST_BLOCK) (enc_words myblock) }"

definition ino_allocate :: "'x disk_t_scheme \<Rightarrow> (ino \<times> 'x disk_t_scheme) option" where
  "ino_allocate d =
    do { b \<leftarrow> read_block d 0;
         let superblock = dec_super b;
         let result = ino_freelist_start superblock;
         if result \<noteq> EOF then
           do { nxt \<leftarrow> ino_get d result;
                let superblock = superblock\<lparr>ino_freelist_start := - nxt,
                  free_inodes := free_inodes superblock - 1\<rparr>;
                d \<leftarrow> disk_write d 0 (enc_super superblock);
                Some (result, d) }
         else Some (result, d) }"

definition ino_free :: "'x disk_t_scheme \<Rightarrow> ino \<Rightarrow> 'x disk_t_scheme option" where
  "ino_free d inumber =
    do { b \<leftarrow> read_block d 0;
         let superblock = dec_super b;
         d \<leftarrow> ino_set d inumber (- ino_freelist_start superblock);
         let superblock = superblock\<lparr>ino_freelist_start := inumber,
           free_inodes := free_inodes superblock + 1\<rparr>;
         disk_write d 0 (enc_super superblock) }"

section \<open>Data blocks\<close>

definition block_allocate :: "'x disk_t_scheme \<Rightarrow> (blockno \<times> 'x disk_t_scheme) option" where
  "block_allocate d =
    do { b \<leftarrow> read_block d 0;
         let superblock = dec_super b;
         if freelist_start superblock = EOF then Some (EOF, d)
         else
           do { b \<leftarrow> read_block d (freelist_start superblock);
                let freelist_block = dec_freelist b;
                case first_index (\<lambda>candidate. candidate \<noteq> EOF) (fl_blocks freelist_block) of
                  Some i \<Rightarrow>
                    do { let candidate = fl_blocks freelist_block ! i;
                         let freelist_block = freelist_block\<lparr>fl_blocks := (fl_blocks freelist_block)[i := EOF]\<rparr>;
                         let superblock' = superblock\<lparr>free_blocks := free_blocks superblock - 1\<rparr>;
                         d \<leftarrow> disk_write d 0 (enc_super superblock');
                         d \<leftarrow> disk_write d (freelist_start superblock) (enc_freelist freelist_block);
                         Some (candidate, d) }
                | None \<Rightarrow>
                    do { let vagabond = freelist_start superblock;
                         let superblock = superblock\<lparr>freelist_start := fl_next freelist_block,
                           free_blocks := free_blocks superblock - 1\<rparr>;
                         d \<leftarrow> disk_write d 0 (enc_super superblock);
                         Some (vagabond, d) } } }"

text \<open>The end of \<open>block_free\<close>: the freed block itself becomes the head of the list.\<close>

definition block_free_vagabond :: "'x disk_t_scheme \<Rightarrow> superblock \<Rightarrow> blockno \<Rightarrow> 'x disk_t_scheme option" where
  "block_free_vagabond d superblock blockno =
    do { let vagabond_block = \<lparr>fl_next = freelist_start superblock,
           fl_blocks = replicate BLOCKNUMS_PER_FREELIST_BLOCK EOF\<rparr>;
         let superblock = superblock\<lparr>freelist_start := blockno,
           free_blocks := free_blocks superblock + 1\<rparr>;
         d \<leftarrow> disk_write d 0 (enc_super superblock);
         disk_write d blockno (enc_freelist vagabond_block) }"

definition block_free :: "'x disk_t_scheme \<Rightarrow> blockno \<Rightarrow> 'x disk_t_scheme option" where
  "block_free d blockno =
    do { b \<leftarrow> read_block d 0;
         let superblock = dec_super b;
         if freelist_start superblock \<noteq> EOF then
           do { b \<leftarrow> read_block d (freelist_start superblock);
                let freelist_head = dec_freelist b;
                case last_index (\<lambda>slot. slot = EOF) (fl_blocks freelist_head) of
                  Some i \<Rightarrow>
                    do { let freelist_head = freelist_head\<lparr>fl_blocks := (fl_blocks freelist_head)[i := blockno]\<rparr>;
                         let superblock' = superblock\<lparr>free_blocks := free_blocks superblock + 1\<rparr>;
                         d \<leftarrow> disk_write d 0 (enc_super superblock');
                         disk_write d (freelist_start superblock) (enc_freelist freelist_head) }
                | None \<Rightarrow> block_free_vagabond d superblock blockno }
         else block_free_vagabond d superblock blockno }"

section \<open>Formatting\<close>

definition mkfs_iblock :: "u64 \<Rightarrow> nat \<Rightarrow> blockno list" where
  "mkfs_iblock isz i =
    (let iblock = map (\<lambda>j. - (of_nat j + INUMS_PER_ILIST_BLOCK * of_nat i + 1)) [0..<INUMS_PER_ILIST_BLOCK]
     in if of_nat i = isz - 1 then iblock[INUMS_PER_ILIST_BLOCK - 1 := EOF] else iblock)"

definition mkfs_freelist_entry :: "int \<Rightarrow> int \<Rightarrow> freelist_block" where
  "mkfs_freelist_entry nblks i =
    (let nxt = i + BLOCKNUMS_PER_FREELIST_BLOCK + 1 in
     \<lparr>fl_next = (if nblks \<le> nxt then EOF else of_int nxt),
      fl_blocks = map (\<lambda>j. let target_block = i + 1 + int j in
        if nblks \<le> target_block then EOF else of_int target_block) [0..<BLOCKNUMS_PER_FREELIST_BLOCK]\<rparr>)"

function mkfs_freelist :: "int \<Rightarrow> int \<Rightarrow> 'x disk_t_scheme \<Rightarrow> 'x disk_t_scheme option" where
  "mkfs_freelist nblks i d =
    (if i < nblks then
       do { d \<leftarrow> disk_write d (of_int i) (enc_freelist (mkfs_freelist_entry nblks i));
            mkfs_freelist nblks (i + (BLOCKNUMS_PER_FREELIST_BLOCK + 1)) d }
     else Some d)"
  by pat_completeness auto
termination
  by (relation "measure (\<lambda>(nblks, i, d). nat (nblks - i))") auto

declare mkfs_freelist.simps [simp del]

definition mkfs_storage :: "'x disk_t_scheme \<Rightarrow> u64 \<Rightarrow> 'x disk_t_scheme option" where
  "mkfs_storage d isz =
    do { let num_data_blocks = nblocks d - isz - 1;
         let first_data_block = isz + 1;
         if num_data_blocks > 0 then
           do { let superblock = \<lparr>sb_magic = CANDYFS_MAGIC, ilist_size = isz,
                  freelist_start = first_data_block, ino_freelist_start = 0,
                  free_blocks = nblocks d - first_data_block,
                  free_inodes = isz * INUMS_PER_ILIST_BLOCK\<rparr>;
                d \<leftarrow> disk_write d 0 (enc_super superblock);
                d \<leftarrow> for_each [0..<unat isz] (\<lambda>i d. disk_write d (of_nat i + 1) (enc_words (mkfs_iblock isz i))) d;
                mkfs_freelist (sint (nblocks d)) (sint first_data_block) d }
         else None }"

record statvfs =
  f_bsize :: u64
  f_frsize :: u64
  f_blocks :: u64
  f_bfree :: u64
  f_bavail :: u64
  f_files :: u64
  f_ffree :: u64
  f_favail :: u64

definition block_stat :: "'x disk_t_scheme \<Rightarrow> statvfs option" where
  "block_stat d =
    do { b \<leftarrow> read_block d 0;
         let superblock = dec_super b;
         Some \<lparr>f_bsize = ucast (blocksize d), f_frsize = ucast (blocksize d),
           f_blocks = nblocks d, f_bfree = free_blocks superblock, f_bavail = free_blocks superblock,
           f_files = ilist_size superblock * INUMS_PER_ILIST_BLOCK,
           f_ffree = free_inodes superblock, f_favail = free_inodes superblock\<rparr> }"

end
