(* ===== verification/Inode_Index.thy ===== *)
theory Inode_Index
  imports Layout
begin

text \<open>
  The conversions of \<open>inode.c\<close> between file offsets, block indexes, block slots and levels
  of indirection.  C's \<open>long\<close> is \<open>int\<close> here and its division, which truncates towards
  zero, is \<open>sdiv\<close>.  The facts at the end are what the tree operations use: every block
  index below the limit lies in exactly one slot, and the slots cover the indexes in order.
\<close>

section \<open>The geometry\<close>

definition SINGLE_INDIRECT_COUNT :: int where "SINGLE_INDIRECT_COUNT = BLOCKSIZE div 8"
definition DOUBLE_INDIRECT_COUNT :: int where "DOUBLE_INDIRECT_COUNT = SINGLE_INDIRECT_COUNT * SINGLE_INDIRECT_COUNT"
definition TRIPLE_INDIRECT_COUNT :: int where
  "TRIPLE_INDIRECT_COUNT = SINGLE_INDIRECT_COUNT * SINGLE_INDIRECT_COUNT * SINGLE_INDIRECT_COUNT"

definition NUM_DIRECT_SLOTS :: int where "NUM_DIRECT_SLOTS = NUM_BLOCK_SLOTS - 1 - 1 - 1"

definition FIRST_SINGLE_INDIRECT_SLOT :: int where "FIRST_SINGLE_INDIRECT_SLOT = NUM_DIRECT_SLOTS"
definition FIRST_DOUBLE_INDIRECT_SLOT :: int where "FIRST_DOUBLE_INDIRECT_SLOT = FIRST_SINGLE_INDIRECT_SLOT + 1"
definition FIRST_TRIPLE_INDIRECT_SLOT :: int where "FIRST_TRIPLE_INDIRECT_SLOT = FIRST_DOUBLE_INDIRECT_SLOT + 1"
definition FIRST_UNREACHABLE_SLOT :: int where "FIRST_UNREACHABLE_SLOT = FIRST_TRIPLE_INDIRECT_SLOT + 1"

definition FIRST_SINGLE_INDIRECT_BLOCK :: int where "FIRST_SINGLE_INDIRECT_BLOCK = NUM_DIRECT_SLOTS"
definition FIRST_DOUBLE_INDIRECT_BLOCK :: int where
  "FIRST_DOUBLE_INDIRECT_BLOCK = FIRST_SINGLE_INDIRECT_BLOCK + SINGLE_INDIRECT_COUNT"
definition FIRST_TRIPLE_INDIRECT_BLOCK :: int where
  "FIRST_TRIPLE_INDIRECT_BLOCK = FIRST_DOUBLE_INDIRECT_BLOCK + DOUBLE_INDIRECT_COUNT"
definition FIRST_UNREACHABLE_BLOCK :: int where
  "FIRST_UNREACHABLE_BLOCK = FIRST_TRIPLE_INDIRECT_BLOCK + TRIPLE_INDIRECT_COUNT"

definition MAX_FILESIZE :: int where "MAX_FILESIZE = FIRST_UNREACHABLE_BLOCK * BLOCKSIZE"

lemma slot_values [simp]:
  "NUM_DIRECT_SLOTS = 496" "FIRST_SINGLE_INDIRECT_SLOT = 496" "FIRST_DOUBLE_INDIRECT_SLOT = 497"
  "FIRST_TRIPLE_INDIRECT_SLOT = 498" "FIRST_UNREACHABLE_SLOT = NUM_BLOCK_SLOTS"
  by (simp_all add: NUM_DIRECT_SLOTS_def FIRST_SINGLE_INDIRECT_SLOT_def FIRST_DOUBLE_INDIRECT_SLOT_def
      FIRST_TRIPLE_INDIRECT_SLOT_def FIRST_UNREACHABLE_SLOT_def)

lemma block_values [simp]:
  "SINGLE_INDIRECT_COUNT = 512" "DOUBLE_INDIRECT_COUNT = 262144" "TRIPLE_INDIRECT_COUNT = 134217728"
  "FIRST_SINGLE_INDIRECT_BLOCK = 496" "FIRST_DOUBLE_INDIRECT_BLOCK = 1008"
  "FIRST_TRIPLE_INDIRECT_BLOCK = 263152" "FIRST_UNREACHABLE_BLOCK = 134480880"
  "MAX_FILESIZE = 550833684480"
  by (simp_all add: SINGLE_INDIRECT_COUNT_def DOUBLE_INDIRECT_COUNT_def TRIPLE_INDIRECT_COUNT_def
      FIRST_SINGLE_INDIRECT_BLOCK_def FIRST_DOUBLE_INDIRECT_BLOCK_def FIRST_TRIPLE_INDIRECT_BLOCK_def
      FIRST_UNREACHABLE_BLOCK_def MAX_FILESIZE_def)

section \<open>The conversions\<close>

definition offset2blockidx :: "int \<Rightarrow> int" where
  "offset2blockidx off = off sdiv BLOCKSIZE"

definition indirection_level :: "int \<Rightarrow> int" where
  "indirection_level blockidx =
    (if blockidx < FIRST_SINGLE_INDIRECT_BLOCK then 0
     else if blockidx < FIRST_DOUBLE_INDIRECT_BLOCK then 1
     else if blockidx < FIRST_TRIPLE_INDIRECT_BLOCK then 2
     else if blockidx < FIRST_UNREACHABLE_BLOCK then 3
     else -1)"

definition blockslot_indirection_level :: "int \<Rightarrow> int" where
  "blockslot_indirection_level blockslot =
    (if blockslot < FIRST_SINGLE_INDIRECT_SLOT then 0
     else if blockslot < FIRST_DOUBLE_INDIRECT_SLOT then 1
     else if blockslot < FIRST_TRIPLE_INDIRECT_SLOT then 2
     else if blockslot < FIRST_UNREACHABLE_SLOT then 3
     else -1)"

definition indirect_count :: "int \<Rightarrow> int" where
  "indirect_count level =
    (if level = 0 then 1
     else if level = 1 then SINGLE_INDIRECT_COUNT
     else if level = 2 then DOUBLE_INDIRECT_COUNT
     else if level = 3 then TRIPLE_INDIRECT_COUNT
     else 0)"

definition blockidx2blockslot :: "int \<Rightarrow> int" where
  "blockidx2blockslot blockidx =
    (let level = indirection_level blockidx in
     if level = 0 then blockidx
     else if level = 1 then FIRST_SINGLE_INDIRECT_SLOT + (blockidx - FIRST_SINGLE_INDIRECT_BLOCK) sdiv SINGLE_INDIRECT_COUNT
     else if level = 2 then FIRST_DOUBLE_INDIRECT_SLOT + (blockidx - FIRST_DOUBLE_INDIRECT_BLOCK) sdiv DOUBLE_INDIRECT_COUNT
     else if level = 3 then FIRST_TRIPLE_INDIRECT_SLOT + (blockidx - FIRST_TRIPLE_INDIRECT_BLOCK) sdiv TRIPLE_INDIRECT_COUNT
     else -1)"

definition blockslot2firstblockidx :: "int \<Rightarrow> int" where
  "blockslot2firstblockidx blockslot =
    (let level = blockslot_indirection_level blockslot in
     if level = 0 then blockslot
     else if level = 1 then FIRST_SINGLE_INDIRECT_BLOCK + (blockslot - FIRST_SINGLE_INDIRECT_SLOT) * SINGLE_INDIRECT_COUNT
     else if level = 2 then FIRST_DOUBLE_INDIRECT_BLOCK + (blockslot - FIRST_DOUBLE_INDIRECT_SLOT) * DOUBLE_INDIRECT_COUNT
     else if level = 3 then FIRST_TRIPLE_INDIRECT_BLOCK + (blockslot - FIRST_TRIPLE_INDIRECT_SLOT) * TRIPLE_INDIRECT_COUNT
     else -1)"

section \<open>Where a block index lies\<close>

lemma sdiv_nonneg: "0 \<le> a \<Longrightarrow> 0 < b \<Longrightarrow> a sdiv b = a div (b :: int)"
  by (cases "a = 0") (simp_all add: signed_divide_int_def)

lemma offset2blockidx_nonneg: "0 \<le> off \<Longrightarrow> offset2blockidx off = off div BLOCKSIZE"
  by (simp add: offset2blockidx_def sdiv_nonneg)

lemma indirect_count_power: "l \<le> 3 \<Longrightarrow> indirect_count (int l) = 512 ^ l"
proof -
  assume "l \<le> 3"
  then consider "l = 0" | "l = 1" | "l = 2" | "l = 3"
    by linarith
  then show ?thesis
    by cases (simp_all add: indirect_count_def)
qed

lemma slot_of_block:
  assumes "0 \<le> b" and "b < FIRST_UNREACHABLE_BLOCK"
  shows "blockidx2blockslot b =
    (if b < 496 then b else if b < 1008 then 496 else if b < 263152 then 497 else 498)"
  using assms
  by (auto simp: blockidx2blockslot_def indirection_level_def Let_def sdiv_nonneg div_pos_pos_trivial)

lemma first_of_slot:
  assumes "0 \<le> s" and "s < NUM_BLOCK_SLOTS"
  shows "blockslot2firstblockidx s =
    (if s < 496 then s else if s = 496 then 496 else if s = 497 then 1008 else 263152)"
  using assms by (auto simp: blockslot2firstblockidx_def blockslot_indirection_level_def Let_def)

lemma level_of_slot:
  assumes "0 \<le> s" and "s < NUM_BLOCK_SLOTS"
  shows "blockslot_indirection_level s = (if s < 496 then 0 else s - 495)"
  using assms by (auto simp: blockslot_indirection_level_def)

definition slot_level :: "nat \<Rightarrow> nat" where
  "slot_level s = (if s < 496 then 0 else s - 495)"

definition slot_first :: "nat \<Rightarrow> nat" where
  "slot_first s = (if s < 496 then s else if s = 496 then 496 else if s = 497 then 1008 else 263152)"

lemma slot_level_le [simp]: "s < 499 \<Longrightarrow> slot_level s \<le> 3"
  by (auto simp: slot_level_def)

lemma slot_facts:
  assumes "0 \<le> b" and "b < FIRST_UNREACHABLE_BLOCK"
  defines "s \<equiv> nat (blockidx2blockslot b)"
  shows "blockidx2blockslot b = int s" "s < 499"
    "indirection_level b = int (slot_level s)"
    "blockslot2firstblockidx (blockidx2blockslot b) = int (slot_first s)"
    "int (slot_first s) \<le> b" "b < int (slot_first s) + 512 ^ slot_level s"
proof -
  note slot = slot_of_block [OF assms(1,2)]
  show s: "blockidx2blockslot b = int s" and s499: "s < 499"
    using assms(1,2) slot by (auto simp: s_def)
  show "indirection_level b = int (slot_level s)"
    using assms(1,2) slot by (auto simp: s_def slot_level_def indirection_level_def)
  show "blockslot2firstblockidx (blockidx2blockslot b) = int (slot_first s)"
    using s s499 first_of_slot [of "int s"] by (auto simp: slot_first_def)
  show "int (slot_first s) \<le> b" "b < int (slot_first s) + 512 ^ slot_level s"
    using assms(1,2) slot by (auto simp: s_def slot_first_def slot_level_def)
qed

text \<open>The slots cover the block indexes in order, without gap or overlap.\<close>

lemma slot_first_Suc:
  assumes "Suc s < 499"
  shows "slot_first (Suc s) = slot_first s + 512 ^ slot_level s"
proof -
  from assms consider "s < 495" | "s = 495" | "s = 496" | "s = 497"
    by linarith
  then show ?thesis
    by cases (simp_all add: slot_first_def slot_level_def)
qed

lemma slot_first_mono: "s < t \<Longrightarrow> t < 499 \<Longrightarrow> slot_first s + 512 ^ slot_level s \<le> slot_first t"
proof (induction t)
  case (Suc t)
  show ?case
  proof (cases "s = t")
    case True
    then show ?thesis
      using slot_first_Suc [of s] Suc.prems by simp
  next
    case False
    then have "slot_first s + 512 ^ slot_level s \<le> slot_first t"
      using Suc by simp
    then show ?thesis
      using slot_first_Suc [of t] Suc.prems by simp
  qed
qed simp

lemma slot_first_last: "slot_first 498 + 512 ^ slot_level 498 = 134480880"
  by (simp add: slot_first_def slot_level_def)

lemma slot_unique:
  assumes "0 \<le> b" and "b < FIRST_UNREACHABLE_BLOCK" and "s < 499"
    and "int (slot_first s) \<le> b" and "b < int (slot_first s + 512 ^ slot_level s)"
  shows "blockidx2blockslot b = int s"
proof -
  let ?t = "nat (blockidx2blockslot b)"
  note facts = slot_facts [OF assms(1,2)]
  have "b < int (slot_first ?t + 512 ^ slot_level ?t)"
    using facts(6) by simp
  then have "\<not> s < ?t" "\<not> ?t < s"
    using slot_first_mono [of s ?t] slot_first_mono [of ?t s] facts(2,5) assms(3-5) by linarith+
  then show ?thesis
    using facts(1) by linarith
qed


text \<open>The same over the functions of the source.\<close>

lemma slot_partition:
  assumes "0 \<le> b" and "b < FIRST_UNREACHABLE_BLOCK"
  shows "let s = blockidx2blockslot b; l = nat (blockslot_indirection_level s) in
    0 \<le> s \<and> s < FIRST_UNREACHABLE_SLOT \<and> indirection_level b = int l \<and> l \<le> 3 \<and>
    blockslot2firstblockidx s \<le> b \<and> b < blockslot2firstblockidx s + indirect_count (int l) \<and>
    (\<forall>t. 0 \<le> t \<and> t < FIRST_UNREACHABLE_SLOT \<and> blockslot2firstblockidx t \<le> b \<and>
       b < blockslot2firstblockidx t + indirect_count (blockslot_indirection_level t) \<longrightarrow> t = s)"
proof -
  note facts = slot_facts [OF assms]
  define s where "s = nat (blockidx2blockslot b)"
  have s: "blockidx2blockslot b = int s" "s < 499"
    using facts(1,2) by (simp_all add: s_def)
  have lev: "nat (blockslot_indirection_level (int t)) = slot_level t" "blockslot_indirection_level (int t) = int (slot_level t)"
    "blockslot2firstblockidx (int t) = int (slot_first t)" "indirect_count (int (slot_level t)) = 512 ^ slot_level t" if "t < 499" for t
    using that level_of_slot [of "int t"] first_of_slot [of "int t"] indirect_count_power [of "slot_level t"]
    by (auto simp: slot_level_def slot_first_def)
  have only: "t = int s" if t: "0 \<le> t" "t < 499" "blockslot2firstblockidx t \<le> b"
      "b < blockslot2firstblockidx t + indirect_count (blockslot_indirection_level t)" for t
  proof -
    have n: "nat t < 499" "int (nat t) = t"
      using t(1,2) by simp_all
    have "blockidx2blockslot b = int (nat t)"
    proof (rule slot_unique [OF assms n(1)])
      show "int (slot_first (nat t)) \<le> b" "b < int (slot_first (nat t) + 512 ^ slot_level (nat t))"
        using t(3,4) lev [OF n(1)] unfolding n(2) by simp_all
    qed
    then show ?thesis
      using s(1) n(2) by simp
  qed
  show ?thesis
    using facts(3,5,6) s lev [OF s(2)] only by (simp add: Let_def s_def [symmetric])
qed

end
