(* ===== verification/Inode_Tree.thy ===== *)
theory Inode_Tree
  imports Block Inode_Index
begin

text \<open>
  The three recursive routines of \<open>inode.c\<close> that walk a block slot: \<open>inode_indirect_grow\<close>,
  \<open>inode_indirect_shrink\<close> and \<open>inode_indirect_readwrite\<close>.  Each recurses on the level of
  indirection, with the \<open>for\<close> loop over the 512 children as a function of its own that is
  given the recursive call.  An out parameter of the C code is a component of the result.
\<close>

section \<open>Growing\<close>

text \<open>\<open>for (i = start_idx; i <= end_idx && success; i++)\<close> over the pointers of one block.\<close>

primrec grow_loop ::
  "('d \<Rightarrow> blockno \<Rightarrow> int \<Rightarrow> (bool \<times> blockno \<times> int \<times> 'd) option) \<Rightarrow> int list \<Rightarrow>
    blockno list \<Rightarrow> int \<Rightarrow> 'd \<Rightarrow> (bool \<times> blockno list \<times> int \<times> 'd) option" where
  "grow_loop f [] indirect_data tally d = Some (True, indirect_data, tally, d)"
| "grow_loop f (i # is) indirect_data tally d =
    (if 0 \<le> i \<and> i < SINGLE_INDIRECT_COUNT then
       do { (success, p, added, d) \<leftarrow> f d (indirect_data ! nat i) i;
            let indirect_data = indirect_data[nat i := p];
            if success then grow_loop f is indirect_data (tally + added) d
            else Some (False, indirect_data, tally + added, d) }
     else None)"

text \<open>
  The result is the return value, \<open>*dest\<close>, \<open>*allocated\<close> and the disk.  The first part
  of the C function, which finds or allocates the block, is \<open>grow_block\<close>: the block
  number (\<open>None\<close> when the disk is full) and the pointers it holds.
\<close>

definition grow_block ::
  "'x disk_t_scheme \<Rightarrow> blockno \<Rightarrow> bool \<Rightarrow> ((blockno \<times> blockno list) option \<times> 'x disk_t_scheme) option" where
  "grow_block d dest indirect =
    (if dest = EOF then
       do { (blockno, d) \<leftarrow> block_allocate d;
            if sint blockno < 0 then Some (None, d)
            else Some (Some (blockno, replicate 512 EOF), d) }
     else if indirect then
       do { block \<leftarrow> read_block d dest; Some (Some (dest, dec_words block), d) }
     else None)"

primrec inode_indirect_grow ::
  "nat \<Rightarrow> 'x disk_t_scheme \<Rightarrow> blockno \<Rightarrow> int \<Rightarrow> int \<Rightarrow> int \<Rightarrow> (bool \<times> blockno \<times> int \<times> 'x disk_t_scheme) option" where
  "inode_indirect_grow 0 d dest curblock old_blockcount new_blockcount =
    do { (found, d) \<leftarrow> grow_block d dest False;
         case found of
           None \<Rightarrow> Some (False, dest, 0, d)
         | Some (blockno, _) \<Rightarrow> Some (True, blockno, 1, d) }"
| "inode_indirect_grow (Suc level) d dest curblock old_blockcount new_blockcount =
    do { (found, d) \<leftarrow> grow_block d dest True;
         case found of
           None \<Rightarrow> Some (False, dest, 0, d)
         | Some (blockno, indirect_data) \<Rightarrow>
             (let sub_count = indirect_count (int level);
                  endblock = curblock + SINGLE_INDIRECT_COUNT * sub_count;
                  start_idx = (if curblock < old_blockcount then (old_blockcount - curblock) sdiv sub_count else 0);
                  end_idx = SINGLE_INDIRECT_COUNT - 1 -
                    (if new_blockcount < endblock then (endblock - new_blockcount) sdiv sub_count else 0)
              in do { (success, indirect_data, tally, d) \<leftarrow>
                        grow_loop (\<lambda>d p i. inode_indirect_grow level d p (curblock + sub_count * i)
                            old_blockcount new_blockcount)
                          [start_idx..end_idx] indirect_data 0 d;
                      if \<not> success \<and> start_idx = 0 \<and> tally = 0 then
                        do { d \<leftarrow> block_free d blockno; Some (False, EOF, 0, d) }
                      else
                        do { d \<leftarrow> disk_write d blockno (enc_words indirect_data);
                             Some (success, blockno, tally, d) } }) }"

section \<open>Shrinking\<close>

primrec shrink_loop ::
  "('d \<Rightarrow> blockno \<Rightarrow> int \<Rightarrow> (blockno \<times> int \<times> 'd) option) \<Rightarrow> int list \<Rightarrow>
    blockno list \<Rightarrow> int \<Rightarrow> 'd \<Rightarrow> (blockno list \<times> int \<times> 'd) option" where
  "shrink_loop f [] indirect_data tally d = Some (indirect_data, tally, d)"
| "shrink_loop f (i # is) indirect_data tally d =
    (if 0 \<le> i \<and> i < SINGLE_INDIRECT_COUNT then
       do { (p, removed, d) \<leftarrow> f d (indirect_data ! nat i) i;
            shrink_loop f is (indirect_data[nat i := p]) (tally + removed) d }
     else None)"

text \<open>The result is \<open>*dest\<close>, \<open>*freed\<close> and the disk.\<close>

primrec inode_indirect_shrink ::
  "nat \<Rightarrow> 'x disk_t_scheme \<Rightarrow> blockno \<Rightarrow> int \<Rightarrow> int \<Rightarrow> int \<Rightarrow> (blockno \<times> int \<times> 'x disk_t_scheme) option" where
  "inode_indirect_shrink 0 d dest curblock old_blockcount new_blockcount =
    (if dest = EOF then None
     else do { d \<leftarrow> block_free d dest; Some (EOF, 1, d) })"
| "inode_indirect_shrink (Suc level) d dest curblock old_blockcount new_blockcount =
    (if dest = EOF then None
     else do { block \<leftarrow> read_block d dest;
       let indirect_data = dec_words block;
       let sub_count = indirect_count (int level);
       let endblock = curblock + SINGLE_INDIRECT_COUNT * sub_count;
       let start_idx = (if curblock < new_blockcount then (new_blockcount - curblock) sdiv sub_count else 0);
       let end_idx = SINGLE_INDIRECT_COUNT - 1 -
         (if old_blockcount < endblock then (endblock - old_blockcount) sdiv sub_count else 0);
       (indirect_data, tally, d) \<leftarrow>
         shrink_loop (\<lambda>d p i. inode_indirect_shrink level d p (curblock + i * sub_count)
             old_blockcount new_blockcount)
           [start_idx..end_idx] indirect_data 0 d;
       if list_all (\<lambda>p. p = EOF) indirect_data then
         do { d \<leftarrow> block_free d dest; Some (EOF, tally, d) }
       else
         do { d \<leftarrow> disk_write d dest (enc_words indirect_data); Some (dest, tally, d) } })"

section \<open>Reading and writing\<close>

text \<open>
  \<open>data\<close> is the caller's buffer, \<open>None\<close> for \<open>NULL\<close>; its byte 0 belongs to file offset
  \<open>pos\<close>.  The result is the byte count, the buffer (which a read fills) and the disk.
\<close>

primrec rw_loop ::
  "('d \<Rightarrow> blockno \<Rightarrow> int \<Rightarrow> byte list option \<Rightarrow> (int \<times> byte list option \<times> 'd) option) \<Rightarrow> int list \<Rightarrow>
    blockno list \<Rightarrow> int \<Rightarrow> byte list option \<Rightarrow> 'd \<Rightarrow> (int \<times> byte list option \<times> 'd) option" where
  "rw_loop f [] indirect_data result data d = Some (result, data, d)"
| "rw_loop f (i # is) indirect_data result data d =
    (if 0 \<le> i \<and> i < SINGLE_INDIRECT_COUNT then
       do { (n, data, d) \<leftarrow> f d (indirect_data ! nat i) i data;
            rw_loop f is indirect_data (result + n) data d }
     else None)"

text \<open>The part of a data block that lies in the range: where it starts in the caller's
  buffer and in the block, and how many bytes it has.\<close>

definition block_window :: "int \<Rightarrow> int \<Rightarrow> int \<Rightarrow> int \<times> int \<times> int" where
  "block_window blockpos pos endpos =
    (let (data_delta, block_delta, copy_size) =
           (if blockpos < pos then (0, pos - blockpos, BLOCKSIZE - (pos - blockpos))
            else (blockpos - pos, 0, BLOCKSIZE))
     in (data_delta, block_delta,
         if endpos < blockpos + BLOCKSIZE then copy_size - ((blockpos + BLOCKSIZE) - endpos) else copy_size))"

primrec inode_indirect_readwrite ::
  "nat \<Rightarrow> 'x disk_t_scheme \<Rightarrow> blockno \<Rightarrow> int \<Rightarrow> int \<Rightarrow> int \<Rightarrow> byte list option \<Rightarrow> bool \<Rightarrow>
    (int \<times> byte list option \<times> 'x disk_t_scheme) option" where
  "inode_indirect_readwrite 0 d blockno curblock pos endpos data writing =
    (if blockno = EOF then None
     else
       let (data_delta, block_delta, copy_size) = block_window (curblock * BLOCKSIZE) pos endpos in
       if \<not> writing then
         do { block \<leftarrow> read_block d blockno;
              buf \<leftarrow> data;
              buf \<leftarrow> memcpy buf data_delta block block_delta copy_size;
              Some (copy_size, Some buf, d) }
       else
         do { block \<leftarrow> (if copy_size \<noteq> BLOCKSIZE then read_block d blockno
                else Some (replicate BLOCKSIZE 0)); \<comment> \<open>not filled: every byte is overwritten\<close>
              block \<leftarrow> (case data of
                  Some buf \<Rightarrow> memcpy block block_delta buf data_delta copy_size
                | None \<Rightarrow> memzero block block_delta copy_size);
              d \<leftarrow> disk_write d blockno block;
              Some (copy_size, data, d) })"
| "inode_indirect_readwrite (Suc level) d blockno curblock pos endpos data writing =
    (if blockno = EOF then None
     else do { block \<leftarrow> read_block d blockno;
       let indirect_data = dec_words block;
       let sub_count = indirect_count (int level);
       let endblock = curblock + SINGLE_INDIRECT_COUNT * sub_count - 1;
       let first_block = pos sdiv BLOCKSIZE;
       let last_block = (endpos - 1) sdiv BLOCKSIZE;
       let start_idx = (if curblock < first_block then (first_block - curblock) sdiv sub_count else 0);
       let end_idx = SINGLE_INDIRECT_COUNT - 1 -
         (if last_block < endblock then (endblock - last_block) sdiv sub_count else 0);
       rw_loop (\<lambda>d p i data. inode_indirect_readwrite level d p (curblock + i * sub_count) pos endpos data writing)
         [start_idx..end_idx] indirect_data 0 data d })"

end
