(* ===== verification/Inode.thy ===== *)
theory Inode
  imports Inode_Tree
begin

text \<open>
  The operations of \<open>inode.c\<close> on whole inodes: allocation, metadata, size changes and byte
  access.  The state is the disk with the system clock added.  The loops over block slots check
  that each round touches the next slot; a failed check is \<open>None\<close>, like every
  \<open>assert\<close>, and so is an index outside \<open>inode.blocks\<close>.
\<close>

section \<open>The clock\<close>

text \<open>\<open>clock n\<close> is what the \<open>n\<close>-th \<open>clock_gettime\<close> gives, \<open>None\<close> for an error.\<close>

record inode_env = disk_t +
  clock :: "nat \<Rightarrow> timespec option"
  ticks :: nat

definition now :: "'x inode_env_scheme \<Rightarrow> timespec \<times> 'x inode_env_scheme" where
  "now d = ((case clock d (ticks d) of Some ts \<Rightarrow> ts | None \<Rightarrow> \<lparr>tv_sec = 0, tv_nsec = 0\<rparr>),
     d\<lparr>ticks := Suc (ticks d)\<rparr>)"

section \<open>Loading an inode\<close>

text \<open>
  The first lines of every exported function: look the inode up and check its magic number.  The
  inner \<open>None\<close> is the \<open>return -1\<close> of both checks.
\<close>

definition load_inode :: "'x disk_t_scheme \<Rightarrow> ino \<Rightarrow> (blockno \<times> inode_t) option option" where
  "load_inode d inumber =
    do { block \<leftarrow> ino_get d inumber;
         if sint block < 0 then Some None
         else
           do { b \<leftarrow> read_block d block;
                let inode = dec_inode b;
                if imagic inode \<noteq> INODE_MAGIC then Some None else Some (Some (block, inode)) } }"

section \<open>Setting the size\<close>

definition blockcount_of :: "int \<Rightarrow> int" where
  "blockcount_of sz = offset2blockidx sz + (if sz smod BLOCKSIZE \<noteq> 0 then 1 else 0)"

text \<open>
  The two loops of \<open>inode_setsize\<close>.  Their state is the slots of the in-memory inode, the
  number of blocks it has, the slot of the last round and the disk.  The check of the slot makes
  them terminate whatever the tree routines return.
\<close>

function grow_slots ::
  "int \<Rightarrow> int \<Rightarrow> blockno list \<Rightarrow> int \<Rightarrow> int \<Rightarrow> bool \<Rightarrow> 'x disk_t_scheme \<Rightarrow>
    (blockno list \<times> int \<times> int \<times> 'x disk_t_scheme) option" where
  "grow_slots old_blockcount new_blockcount blocks inode_blockcount last_slot success d =
    (if inode_blockcount < new_blockcount \<and> success then
       let indirection = indirection_level inode_blockcount;
           slot = blockidx2blockslot inode_blockcount;
           curblock = blockslot2firstblockidx slot in
       if \<not> (last_slot = -1 \<or> last_slot + 1 = slot) then None
       else if slot < 0 \<or> NUM_BLOCK_SLOTS \<le> slot then None
       else
         (case inode_indirect_grow (nat indirection) d (blocks ! nat slot) curblock old_blockcount new_blockcount of
            None \<Rightarrow> None
          | Some (success, p, added, d) \<Rightarrow>
              grow_slots old_blockcount new_blockcount (blocks[nat slot := p]) (inode_blockcount + added) slot success d)
     else Some (blocks, inode_blockcount, last_slot, d))"
  by pat_completeness auto
termination
  by (relation "measure (\<lambda>(_, _, _, _, last_slot, _, _). nat (NUM_BLOCK_SLOTS - last_slot))") auto

function shrink_slots ::
  "int \<Rightarrow> int \<Rightarrow> blockno list \<Rightarrow> int \<Rightarrow> int \<Rightarrow> 'x disk_t_scheme \<Rightarrow> (blockno list \<times> int \<times> 'x disk_t_scheme) option" where
  "shrink_slots old_blockcount new_blockcount blocks inode_blockcount last_slot d =
    (if new_blockcount < inode_blockcount then
       let final_blockidx = inode_blockcount - 1;
           indirection = indirection_level final_blockidx;
           slot = blockidx2blockslot final_blockidx;
           curblock = blockslot2firstblockidx slot in
       if \<not> (last_slot = -1 \<or> last_slot - 1 = slot) then None
       else if slot < 0 \<or> NUM_BLOCK_SLOTS \<le> slot then None
       else
         (case inode_indirect_shrink (nat indirection) d (blocks ! nat slot) curblock old_blockcount new_blockcount of
            None \<Rightarrow> None
          | Some (p, removed, d) \<Rightarrow>
              shrink_slots old_blockcount new_blockcount (blocks[nat slot := p]) (inode_blockcount - removed) slot d)
     else Some (blocks, inode_blockcount, d))"
  by pat_completeness auto
termination
  by (relation "measure (\<lambda>(_, _, _, _, last_slot, _). if last_slot = -1 then NUM_BLOCK_SLOTS else nat last_slot)") auto

declare grow_slots.simps [simp del] shrink_slots.simps [simp del]

definition inode_setsize :: "'x inode_env_scheme \<Rightarrow> ino \<Rightarrow> int \<Rightarrow> (int \<times> 'x inode_env_scheme) option" where
  "inode_setsize d inumber sz =
    do { loaded \<leftarrow> load_inode d inumber;
         case loaded of
           None \<Rightarrow> Some (-1, d)
         | Some (block, inode) \<Rightarrow>
             (let sz = (if MAX_FILESIZE < sz then MAX_FILESIZE else sz);
                  new_blockcount = blockcount_of sz;
                  old_blockcount = blockcount_of (sint (isize inode)) in
              if new_blockcount < 0 then Some (-1, d)
              else
                do { (blocks, inode_blockcount, last_slot, d) \<leftarrow>
                       grow_slots old_blockcount new_blockcount (iblocks inode) old_blockcount (-1) True d;
                     (blocks, inode_blockcount, d) \<leftarrow>
                       shrink_slots old_blockcount new_blockcount blocks inode_blockcount last_slot d;
                     let oldsize = sint (isize inode);
                     let newsize = (if inode_blockcount = new_blockcount then sz else inode_blockcount * BLOCKSIZE);
                     let inode = inode\<lparr>isize := of_int newsize, iblocks := blocks\<rparr>;
                     let (inode, d) = (if newsize \<noteq> oldsize
                       then let (ts, d) = now d in (inode\<lparr>last_statchange := ts, last_change := ts\<rparr>, d)
                       else (inode, d));
                     d \<leftarrow> disk_write d block (enc_inode inode);
                     Some (newsize, d) }) }"

section \<open>Allocating and freeing an inode\<close>

definition inode_allocate :: "'x inode_env_scheme \<Rightarrow> (ino \<times> 'x inode_env_scheme) option" where
  "inode_allocate d =
    do { let (ts, d) = now d;
         let inode = \<lparr>imode = 0x1FF, iowner = 0, igroup = 0, inlinks = 0, isize = 0, created = ts,
           last_access = ts, last_change = ts, last_statchange = ts, imagic = INODE_MAGIC,
           iblocks = replicate NUM_BLOCK_SLOTS EOF\<rparr>;
         (inumber, d) \<leftarrow> ino_allocate d;
         if sint inumber < 0 then Some (-1, d)
         else
           do { (block, d) \<leftarrow> block_allocate d;
                if sint block < 0 then do { d \<leftarrow> ino_free d inumber; Some (-1, d) }
                else
                  do { d \<leftarrow> ino_set d inumber block;
                       d \<leftarrow> disk_write d block (enc_inode inode);
                       Some (inumber, d) } } }"

definition inode_free :: "'x inode_env_scheme \<Rightarrow> ino \<Rightarrow> (int \<times> 'x inode_env_scheme) option" where
  "inode_free d inumber =
    do { loaded \<leftarrow> load_inode d inumber;
         case loaded of
           None \<Rightarrow> Some (-1, d)
         | Some (block, inode) \<Rightarrow>
             if inlinks inode \<noteq> 0 then Some (-1, d)
             else
               do { (_, d) \<leftarrow> inode_setsize d inumber 0;
                    d \<leftarrow> ino_free d inumber;
                    d \<leftarrow> block_free d block;
                    Some (0, d) } }"

section \<open>Metadata\<close>

text \<open>The result of \<open>inode_getinfo\<close> is \<open>*info\<close>; the inner \<open>None\<close> is \<open>-1\<close>.\<close>

definition inode_getinfo :: "'x disk_t_scheme \<Rightarrow> ino \<Rightarrow> inode_info option option" where
  "inode_getinfo d inumber =
    do { loaded \<leftarrow> load_inode d inumber;
         case loaded of None \<Rightarrow> Some None | Some (block, inode) \<Rightarrow> Some (Some (inode_info.truncate inode)) }"

definition inode_chmod :: "'x inode_env_scheme \<Rightarrow> ino \<Rightarrow> u32 \<Rightarrow> (int \<times> 'x inode_env_scheme) option" where
  "inode_chmod d inumber mode =
    do { loaded \<leftarrow> load_inode d inumber;
         case loaded of
           None \<Rightarrow> Some (-1, d)
         | Some (block, inode) \<Rightarrow>
             (let (ts, d) = now d;
                  inode = inode\<lparr>imode := mode, last_statchange := ts\<rparr> in
              do { d \<leftarrow> disk_write d block (enc_inode inode); Some (0, d) }) }"

text \<open>\<open>(unsigned int)~0\<close> leaves a field as it is.\<close>

definition inode_chown :: "'x inode_env_scheme \<Rightarrow> ino \<Rightarrow> u32 \<Rightarrow> u32 \<Rightarrow> (int \<times> 'x inode_env_scheme) option" where
  "inode_chown d inumber owner grp =
    do { loaded \<leftarrow> load_inode d inumber;
         case loaded of
           None \<Rightarrow> Some (-1, d)
         | Some (block, inode) \<Rightarrow>
             (let inode = (if owner \<noteq> -1 then inode\<lparr>iowner := owner\<rparr> else inode);
                  inode = (if grp \<noteq> -1 then inode\<lparr>igroup := grp\<rparr> else inode);
                  (ts, d) = now d;
                  inode = inode\<lparr>last_statchange := ts\<rparr> in
              do { d \<leftarrow> disk_write d block (enc_inode inode); Some (0, d) }) }"

definition UTIME_NOW :: u64 where "UTIME_NOW = 0x3fffffff"
definition UTIME_OMIT :: u64 where "UTIME_OMIT = 0x3ffffffe"

text \<open>A time argument is \<open>None\<close> for a null pointer; the last two arguments are the time
  that an update uses now and the one the inode has.\<close>

definition utime_field :: "timespec option \<Rightarrow> timespec \<Rightarrow> timespec \<Rightarrow> timespec" where
  "utime_field arg nowts old =
    (case arg of
       None \<Rightarrow> nowts
     | Some ts \<Rightarrow> if tv_nsec ts = UTIME_NOW then nowts else if tv_nsec ts \<noteq> UTIME_OMIT then ts else old)"

definition inode_utime ::
  "'x inode_env_scheme \<Rightarrow> ino \<Rightarrow> timespec option \<Rightarrow> timespec option \<Rightarrow> (int \<times> 'x inode_env_scheme) option" where
  "inode_utime d inumber access_time change_time =
    do { loaded \<leftarrow> load_inode d inumber;
         case loaded of
           None \<Rightarrow> Some (-1, d)
         | Some (block, inode) \<Rightarrow>
             (let (ts, d) = now d;
                  inode = inode\<lparr>last_statchange := ts, last_access := utime_field access_time ts (last_access inode),
                    last_change := utime_field change_time ts (last_change inode)\<rparr> in
              do { d \<leftarrow> disk_write d block (enc_inode inode); Some (0, d) }) }"

text \<open>\<open>nlink_t\<close> is unsigned: the error \<open>-1\<close> is the largest count.\<close>

definition inode_link :: "'x inode_env_scheme \<Rightarrow> ino \<Rightarrow> (u64 \<times> 'x inode_env_scheme) option" where
  "inode_link d inumber =
    do { loaded \<leftarrow> load_inode d inumber;
         case loaded of
           None \<Rightarrow> Some (-1, d)
         | Some (block, inode) \<Rightarrow>
             (let (ts, d) = now d;
                  inode = inode\<lparr>inlinks := inlinks inode + 1, last_statchange := ts\<rparr> in
              do { d \<leftarrow> disk_write d block (enc_inode inode); Some (inlinks inode, d) }) }"

definition inode_unlink :: "'x inode_env_scheme \<Rightarrow> ino \<Rightarrow> (u64 \<times> 'x inode_env_scheme) option" where
  "inode_unlink d inumber =
    do { loaded \<leftarrow> load_inode d inumber;
         case loaded of
           None \<Rightarrow> Some (-1, d)
         | Some (block, inode) \<Rightarrow>
             (let (ts, d) = now d;
                  inode = inode\<lparr>inlinks := inlinks inode - 1, last_statchange := ts\<rparr> in
              do { d \<leftarrow> disk_write d block (enc_inode inode); Some (inlinks inode, d) }) }"

section \<open>Writing\<close>

text \<open>
  The loop of \<open>inode_write\<close>: zeros up to \<open>zero_endpos\<close>, then the data.  Its result is the
  final position and the disk.
\<close>

partial_function (option) write_slots ::
  "blockno list \<Rightarrow> int \<Rightarrow> int \<Rightarrow> int \<Rightarrow> byte list option \<Rightarrow> int \<Rightarrow> int \<Rightarrow> 'x disk_t_scheme \<Rightarrow>
    (int \<times> 'x disk_t_scheme) option" where
  "write_slots blocks pos zero_endpos endpos data curpos last_slot d =
    (if curpos < endpos then
       let cur_blockidx = offset2blockidx curpos;
           indirection = indirection_level cur_blockidx;
           slot = blockidx2blockslot cur_blockidx;
           curblock = blockslot2firstblockidx slot in
       if \<not> (last_slot = -1 \<or> curpos = zero_endpos \<or> last_slot + 1 = slot) then None
       else if slot < 0 \<or> NUM_BLOCK_SLOTS \<le> slot then None
       else
         do { (n, _, d) \<leftarrow> inode_indirect_readwrite (nat indirection) d (blocks ! nat slot) curblock
                (if curpos < zero_endpos then pos else zero_endpos)
                (if curpos < zero_endpos then zero_endpos else endpos)
                (if curpos < zero_endpos then None else data) True;
              write_slots blocks pos zero_endpos endpos data (curpos + n) slot d }
     else Some (curpos, d))"

text \<open>The part of \<open>inode_write\<close> after the file has its size.\<close>

definition inode_write_data ::
  "blockno \<Rightarrow> inode_t \<Rightarrow> int \<Rightarrow> int \<Rightarrow> int \<Rightarrow> byte list option \<Rightarrow> 'x inode_env_scheme \<Rightarrow>
    (int \<times> 'x inode_env_scheme) option" where
  "inode_write_data block inode pos zero_endpos endpos data d =
    (if endpos \<le> pos then Some (0, d)
     else
       do { (curpos, d) \<leftarrow> write_slots (iblocks inode) pos zero_endpos endpos data pos (-1) d;
            let (ts, d) = now d;
            d \<leftarrow> disk_write d block (enc_inode (inode\<lparr>last_change := ts\<rparr>));
            if curpos = endpos \<and> 0 \<le> endpos - zero_endpos then Some (endpos - zero_endpos, d) else None })"

definition inode_write ::
  "'x inode_env_scheme \<Rightarrow> ino \<Rightarrow> int \<Rightarrow> byte list option \<Rightarrow> int \<Rightarrow> (int \<times> 'x inode_env_scheme) option" where
  "inode_write d inumber pos data sz =
    do { loaded \<leftarrow> load_inode d inumber;
         case loaded of
           None \<Rightarrow> Some (-1, d)
         | Some (block, inode) \<Rightarrow>
             (let filesize = sint (isize inode);
                  pos = (if pos = -1 then filesize else pos);
                  endpos = pos + sz;
                  zero_endpos = pos in
              if filesize < endpos then
                let pos = (if filesize < pos then filesize else pos) in
                do { (newsize, d) \<leftarrow> inode_setsize d inumber endpos;
                     if newsize < 0 then Some (-1, d)
                     else
                       do { b \<leftarrow> read_block d block;
                            let inode = dec_inode b;
                            let filesize = sint (isize inode);
                            if endpos < filesize then None
                            else
                              let zero_endpos' = (if zero_endpos < filesize then filesize else zero_endpos) in
                              if filesize < endpos
                              then inode_write_data block inode pos zero_endpos' filesize data d
                              else inode_write_data block inode pos zero_endpos endpos data d } }
              else inode_write_data block inode pos zero_endpos endpos data d) }"

section \<open>Reading\<close>

function read_slots ::
  "blockno list \<Rightarrow> int \<Rightarrow> int \<Rightarrow> byte list \<Rightarrow> int \<Rightarrow> int \<Rightarrow> 'x disk_t_scheme \<Rightarrow> (int \<times> byte list \<times> 'x disk_t_scheme) option" where
  "read_slots blocks pos endpos buf curpos last_slot d =
    (if curpos < endpos then
       let cur_blockidx = offset2blockidx curpos;
           indirection = indirection_level cur_blockidx;
           slot = blockidx2blockslot cur_blockidx;
           curblock = blockslot2firstblockidx slot in
       if \<not> (last_slot = -1 \<or> last_slot + 1 = slot) then None
       else if slot < 0 \<or> NUM_BLOCK_SLOTS \<le> slot then None
       else
         (case inode_indirect_readwrite (nat indirection) d (blocks ! nat slot) curblock pos endpos (Some buf) False of
            None \<Rightarrow> None
          | Some (n, None, d) \<Rightarrow> None
          | Some (n, Some buf, d) \<Rightarrow> read_slots blocks pos endpos buf (curpos + n) slot d)
     else Some (curpos, buf, d))"
  by pat_completeness auto
termination
  by (relation "measure (\<lambda>(_, _, _, _, _, last_slot, _). nat (NUM_BLOCK_SLOTS - last_slot))") auto

declare read_slots.simps [simp del]

text \<open>\<open>buf\<close> is what \<open>data\<close> points to; the result has its new content.\<close>

definition inode_read ::
  "'x inode_env_scheme \<Rightarrow> ino \<Rightarrow> int \<Rightarrow> byte list \<Rightarrow> int \<Rightarrow> (int \<times> byte list \<times> 'x inode_env_scheme) option" where
  "inode_read d inumber pos buf sz =
    do { loaded \<leftarrow> load_inode d inumber;
         case loaded of
           None \<Rightarrow> Some (-1, buf, d)
         | Some (block, inode) \<Rightarrow>
             (let filesize = sint (isize inode);
                  endpos = (if filesize < pos + sz then filesize else pos + sz) in
              if endpos \<le> pos then Some (0, buf, d)
              else
                do { (curpos, buf, d) \<leftarrow> read_slots (iblocks inode) pos endpos buf pos (-1) d;
                     let (ts, d) = now d;
                     d \<leftarrow> disk_write d block (enc_inode (inode\<lparr>last_access := ts\<rparr>));
                     if curpos = endpos then Some (endpos - pos, buf, d) else None }) }"

section \<open>Truncating\<close>

definition inode_truncate :: "'x inode_env_scheme \<Rightarrow> ino \<Rightarrow> int \<Rightarrow> (int \<times> 'x inode_env_scheme) option" where
  "inode_truncate d inumber sz =
    do { loaded \<leftarrow> load_inode d inumber;
         case loaded of
           None \<Rightarrow> Some (-1, d)
         | Some (block, inode) \<Rightarrow>
             do { (newsize, d) \<leftarrow> inode_setsize d inumber sz;
                  let filesize = sint (isize inode);
                  if filesize < newsize then
                    do { (_, d) \<leftarrow> inode_write d inumber filesize None (newsize - filesize);
                         Some (newsize, d) }
                  else Some (newsize, d) } }"

end
