(* ===== verification/Allocator.thy ===== *)
theory Allocator
  imports Prelude
begin

text \<open>
  What the rest of the filesystem relies on when it asks for a disk block or an inode
  number: the contract of an allocator, and what follows from the contract alone.  The
  block list and the inode list of \<open>block.c\<close> are two interpretations of it.
\<close>

primrec alloc_many :: "('s \<Rightarrow> ('r \<times> 's) option) \<Rightarrow> nat \<Rightarrow> 's \<Rightarrow> ('r list \<times> 's) option" where
  "alloc_many alloc 0 s = Some ([], s)"
| "alloc_many alloc (Suc n) s =
    do { (r, s) \<leftarrow> alloc s; (rs, s) \<leftarrow> alloc_many alloc n s; Some (r # rs, s) }"

primrec release_many :: "('s \<Rightarrow> 'r \<Rightarrow> 's option) \<Rightarrow> 'r list \<Rightarrow> 's \<Rightarrow> 's option" where
  "release_many release [] s = Some s"
| "release_many release (r # rs) s = do { s \<leftarrow> release s r; release_many release rs s }"

locale allocator =
  fixes alloc :: "'s \<Rightarrow> ('r \<times> 's) option"
    and release :: "'s \<Rightarrow> 'r \<Rightarrow> 's option"
    and free_set :: "'s \<Rightarrow> 'r set \<Rightarrow> bool"
    and managed :: "'s \<Rightarrow> 'r \<Rightarrow> bool"
    and eof :: 'r
  assumes alloc_empty: "free_set s {} \<Longrightarrow> alloc s = Some (eof, s)"
    and alloc_some: "free_set s F \<Longrightarrow> F \<noteq> {} \<Longrightarrow>
      \<exists>r s'. alloc s = Some (r, s') \<and> r \<in> F \<and> free_set s' (F - {r}) \<and> managed s' = managed s"
    and release_managed: "free_set s F \<Longrightarrow> managed s r \<Longrightarrow> r \<notin> F \<Longrightarrow>
      \<exists>s'. release s r = Some s' \<and> free_set s' (insert r F) \<and> managed s' = managed s"
    and free_managed: "free_set s F \<Longrightarrow> r \<in> F \<Longrightarrow> managed s r \<and> r \<noteq> eof"
    and finite_free: "free_set s F \<Longrightarrow> finite F"
begin

lemma alloc_eof_iff:
  assumes "free_set s F" and "alloc s = Some (r, s')"
  shows "r = eof \<longleftrightarrow> F = {}"
  using assms alloc_empty alloc_some [OF assms(1)] free_managed [OF assms(1)] by fastforce

lemma alloc_many_distinct:
  assumes "free_set s F" and "n \<le> card F"
  shows "\<exists>rs s'. alloc_many alloc n s = Some (rs, s') \<and> length rs = n \<and> distinct rs \<and> set rs \<subseteq> F \<and>
    free_set s' (F - set rs) \<and> managed s' = managed s"
  using assms
proof (induction n arbitrary: s F)
  case (Suc n)
  then have "F \<noteq> {}" by auto
  with Suc.prems(1) obtain r s' where r: "alloc s = Some (r, s')" "r \<in> F" "free_set s' (F - {r})"
      "managed s' = managed s"
    using alloc_some by blast
  have "n \<le> card (F - {r})"
    using Suc.prems r(2) finite_free by auto
  from Suc.IH [OF r(3) this] obtain rs s'' where rs: "alloc_many alloc n s' = Some (rs, s'')"
      "length rs = n" "distinct rs" "set rs \<subseteq> F - {r}" "free_set s'' (F - {r} - set rs)" "managed s'' = managed s'"
    by blast
  moreover have "F - {r} - set rs = F - set (r # rs)"
    by auto
  ultimately show ?case
    using r by (intro exI [of _ "r # rs"] exI [of _ s'']) auto
qed auto

lemma release_many_managed:
  assumes "free_set s F" and "distinct rs" and "set rs \<inter> F = {}" and "\<forall>r \<in> set rs. managed s r"
  shows "\<exists>s'. release_many release rs s = Some s' \<and> free_set s' (F \<union> set rs) \<and> managed s' = managed s"
  using assms
proof (induction rs arbitrary: s F)
  case (Cons r rs)
  then obtain s' where s': "release s r = Some s'" "free_set s' (insert r F)" "managed s' = managed s"
    using release_managed [of s F r] by auto
  then obtain s'' where "release_many release rs s' = Some s''" "free_set s'' (insert r F \<union> set rs)"
      "managed s'' = managed s'"
    using Cons.IH [of s' "insert r F"] Cons.prems by auto
  then show ?case
    using s' by simp
qed auto

text \<open>
  Resources are neither lost nor handed out twice: \<open>n\<close> allocations give \<open>n\<close> different
  resources as long as that many are free, the next one after the last fails, and giving
  everything back restores the free set.
\<close>

lemma alloc_all_then_eof:
  assumes "free_set s F"
  shows "\<exists>rs s'. alloc_many alloc (card F) s = Some (rs, s') \<and> distinct rs \<and> set rs = F \<and> alloc s' = Some (eof, s')"
proof -
  obtain rs s' where rs: "alloc_many alloc (card F) s = Some (rs, s')" "length rs = card F" "distinct rs"
      "set rs \<subseteq> F" "free_set s' (F - set rs)"
    using alloc_many_distinct [OF assms order_refl] by blast
  then have "set rs = F"
    using finite_free [OF assms] by (metis card_subset_eq distinct_card)
  then show ?thesis
    using rs alloc_empty by auto
qed

lemma alloc_release_restores:
  assumes "free_set s F" and "n \<le> card F"
  shows "\<exists>rs s' s''. alloc_many alloc n s = Some (rs, s') \<and> length rs = n \<and>
    release_many release rs s' = Some s'' \<and> free_set s'' F"
proof -
  obtain rs s' where rs: "alloc_many alloc n s = Some (rs, s')" "length rs = n" "distinct rs"
      "set rs \<subseteq> F" "free_set s' (F - set rs)" "managed s' = managed s"
    using alloc_many_distinct [OF assms] by blast
  moreover have "\<forall>r \<in> set rs. managed s' r"
    using rs free_managed [OF assms(1)] by auto
  ultimately obtain s'' where "release_many release rs s' = Some s''" "free_set s'' (F - set rs \<union> set rs)"
    using release_many_managed [of s' "F - set rs" rs] by auto
  then show ?thesis
    using rs by (auto simp: Un_absorb2)
qed

end

end
