(* ===== verification/Storage.thy ===== *)
theory Storage
  imports Block Allocator
begin

text \<open>
  What the two free lists of \<open>block.c\<close> mean.  \<open>store_inv d F Is\<close> relates the bytes of a
  disk to an abstract store: the set \<open>F\<close> of free data blocks and the list \<open>Is\<close> of free
  inode numbers in the order they will be handed out.  Every operation of the block
  module is then a small step on \<open>(F, Is)\<close>, and touches no other block.
\<close>

section \<open>Reading the structures of a disk\<close>

definition super :: "'x disk_t_scheme \<Rightarrow> superblock" where
  "super d = dec_super (blk d 0)"

definition fl_at :: "'x disk_t_scheme \<Rightarrow> blockno \<Rightarrow> freelist_block" where
  "fl_at d b = dec_freelist (blk d b)"

definition ilist_block :: "ino \<Rightarrow> u64" where
  "ilist_block i = 1 + i div INUMS_PER_ILIST_BLOCK"

definition ilist_at :: "'x disk_t_scheme \<Rightarrow> ino \<Rightarrow> blockno" where
  "ilist_at d i = dec_words (blk d (ilist_block i)) ! unat (i mod INUMS_PER_ILIST_BLOCK)"

primrec fl_chain :: "'x disk_t_scheme \<Rightarrow> blockno \<Rightarrow> blockno list \<Rightarrow> bool" where
  "fl_chain d p [] \<longleftrightarrow> p = EOF"
| "fl_chain d p (b # bs) \<longleftrightarrow> p = b \<and> b \<noteq> EOF \<and> fl_chain d (fl_next (fl_at d b)) bs"

text \<open>The free blocks in the order \<open>block_allocate\<close> finds them.\<close>

definition fl_entries :: "'x disk_t_scheme \<Rightarrow> blockno \<Rightarrow> blockno list" where
  "fl_entries d b = filter (\<lambda>x. x \<noteq> EOF) (fl_blocks (fl_at d b)) @ [b]"

definition free_list :: "'x disk_t_scheme \<Rightarrow> blockno list \<Rightarrow> blockno list" where
  "free_list d bs = concat (map (fl_entries d) bs)"

definition valid_ino :: "'x disk_t_scheme \<Rightarrow> ino \<Rightarrow> bool" where
  "valid_ino d i \<longleftrightarrow> unat i < unat (ilist_size (super d)) * 512"

definition data_block :: "'x disk_t_scheme \<Rightarrow> blockno \<Rightarrow> bool" where
  "data_block d b \<longleftrightarrow> unat (ilist_size (super d)) < unat b \<and> b < nblocks d"

primrec ino_chain :: "'x disk_t_scheme \<Rightarrow> ino \<Rightarrow> ino list \<Rightarrow> bool" where
  "ino_chain d p [] \<longleftrightarrow> p = EOF"
| "ino_chain d p (i # is) \<longleftrightarrow> p = i \<and> valid_ino d i \<and> ino_chain d (- ilist_at d i) is"

definition free_blocks_rep :: "'x disk_t_scheme \<Rightarrow> blockno set \<Rightarrow> bool" where
  "free_blocks_rep d F \<longleftrightarrow>
    (\<exists>bs. fl_chain d (freelist_start (super d)) bs \<and> distinct (free_list d bs) \<and>
       set (free_list d bs) = F) \<and>
    (\<forall>b \<in> F. data_block d b) \<and> unat (free_blocks (super d)) = card F"

definition free_inos_rep :: "'x disk_t_scheme \<Rightarrow> ino list \<Rightarrow> bool" where
  "free_inos_rep d Is \<longleftrightarrow> ino_chain d (ino_freelist_start (super d)) Is \<and> distinct Is \<and>
     unat (free_inodes (super d)) = length Is"

definition store_geometry :: "'x disk_t_scheme \<Rightarrow> bool" where
  "store_geometry d \<longleftrightarrow> wf_disk d \<and> sb_magic (super d) = CANDYFS_MAGIC \<and>
     unat (ilist_size (super d)) + 1 < unat (nblocks d)"

definition store_inv :: "'x disk_t_scheme \<Rightarrow> blockno set \<Rightarrow> ino list \<Rightarrow> bool" where
  "store_inv d F Is \<longleftrightarrow> store_geometry d \<and> free_blocks_rep d F \<and> free_inos_rep d Is"

text \<open>\<open>untouched S d d'\<close>: no block outside \<open>S\<close> differs.\<close>

definition untouched :: "u64 set \<Rightarrow> 'x disk_t_scheme \<Rightarrow> 'x disk_t_scheme \<Rightarrow> bool" where
  "untouched S d d' \<longleftrightarrow> same_dev d d' \<and> (\<forall>c. c \<notin> S \<longrightarrow> blk d' c = blk d c)"

lemma untouched_refl [simp]: "untouched S d d"
  by (simp add: untouched_def)

lemma untouched_trans: "untouched S d d' \<Longrightarrow> untouched T d' d'' \<Longrightarrow> untouched (S \<union> T) d d''"
  by (auto simp: untouched_def intro: same_dev_trans)

lemma untouched_mono: "untouched S d d' \<Longrightarrow> S \<subseteq> T \<Longrightarrow> untouched T d d'"
  by (auto simp: untouched_def)

lemma untouched_upd_blk [simp]: "length b = BLOCKSIZE \<Longrightarrow> n \<in> S \<Longrightarrow> untouched S d (upd_blk d n b)"
  by (auto simp: untouched_def)

lemma untouched_blk: "untouched S d d' \<Longrightarrow> c \<notin> S \<Longrightarrow> blk d' c = blk d c"
  by (simp add: untouched_def)

lemma untouched_dev:
  assumes "untouched S d d'"
  shows "nblocks d' = nblocks d" "wf_disk d' = wf_disk d" "blocksize d' = blocksize d"
    "disk_t.more d' = disk_t.more d" "same_dev d d'"
  using assms by (simp_all add: untouched_def same_dev_fields)

text \<open>\<open>framed S d d'\<close>: besides, the inode table is as large as it was.\<close>

definition framed :: "u64 set \<Rightarrow> 'x disk_t_scheme \<Rightarrow> 'x disk_t_scheme \<Rightarrow> bool" where
  "framed S d d' \<longleftrightarrow> untouched S d d' \<and> ilist_size (super d') = ilist_size (super d)"

lemma framed_refl [simp]: "framed S d d"
  by (simp add: framed_def)

lemma framed_trans: "framed S d d' \<Longrightarrow> framed T d' d'' \<Longrightarrow> framed (S \<union> T) d d''"
  by (auto simp: framed_def intro: untouched_trans)

lemma framed_mono: "framed S d d' \<Longrightarrow> S \<subseteq> T \<Longrightarrow> framed T d d'"
  by (auto simp: framed_def intro: untouched_mono)

lemma framed_blk: "framed S d d' \<Longrightarrow> c \<notin> S \<Longrightarrow> blk d' c = blk d c"
  by (auto simp: framed_def intro: untouched_blk)

lemma framed_dev:
  assumes "framed S d d'"
  shows "nblocks d' = nblocks d" "wf_disk d' = wf_disk d" "disk_t.more d' = disk_t.more d" "same_dev d d'"
    "data_block d' = data_block d" "valid_ino d' = valid_ino d"
  using assms by (auto simp: framed_def untouched_dev data_block_def valid_ino_def fun_eq_iff)

section \<open>Numbers of blocks\<close>

lemma data_block_unat:
  assumes "store_geometry d" and "data_block d b"
  shows "0 < unat b" "unat b < 2 ^ 51" "b \<noteq> EOF" "0 \<le> sint b" "b < nblocks d" "b \<noteq> 0"
proof -
  have "unat b < unat (nblocks d)" and "unat (nblocks d) * 4096 < 2 ^ 63"
    using assms by (simp_all add: store_geometry_def wf_disk_def data_block_def word_less_nat_alt)
  then show small: "unat b < 2 ^ 51" by simp
  then show "0 \<le> sint b" by (simp add: sint_nonneg_iff)
  then show "b \<noteq> EOF" using sint_EOF by fastforce
  show "0 < unat b" "b < nblocks d"
    using assms(2) by (simp_all add: data_block_def)
  then show "b \<noteq> 0" by auto
qed

lemma ilist_block_unat:
  assumes "store_geometry d" and "valid_ino d i"
  shows "unat (ilist_block i) = 1 + unat i div 512" "unat (ilist_block i) \<le> unat (ilist_size (super d))"
    "ilist_block i < nblocks d" "ilist_block i \<noteq> 0" "\<not> data_block d (ilist_block i)"
proof -
  have i: "unat i div 512 < unat (ilist_size (super d))"
    using assms(2) by (simp add: valid_ino_def less_mult_imp_div_less)
  have small: "unat (nblocks d) * 4096 < 2 ^ 63" and isz: "unat (ilist_size (super d)) + 1 < unat (nblocks d)"
    using assms(1) by (simp_all add: store_geometry_def wf_disk_def)
  have "unat i div 512 + 1 < 2 ^ 64" using i isz small by simp
  then show u: "unat (ilist_block i) = 1 + unat i div 512"
    unfolding ilist_block_def by (subst unat_add_lem [THEN iffD1]) (simp_all add: unat_div)
  then show "unat (ilist_block i) \<le> unat (ilist_size (super d))"
    using i by simp
  then show "ilist_block i < nblocks d" "\<not> data_block d (ilist_block i)"
    using isz by (simp_all add: word_less_nat_alt data_block_def)
  show "ilist_block i \<noteq> 0"
    using u by auto
qed

lemma zero_not_data_block: "\<not> data_block d 0"
  by (simp add: data_block_def)

lemma zero_lt_nblocks: "store_geometry d \<Longrightarrow> 0 < nblocks d"
  by (simp add: store_geometry_def word_less_nat_alt)

section \<open>What the abstraction depends on\<close>

lemma fl_chain_cong:
  "\<forall>c \<in> set bs. blk d' c = blk d c \<Longrightarrow> fl_chain d' p bs = fl_chain d p bs"
  by (induction bs arbitrary: p) (auto simp: fl_at_def)

lemma free_list_cong:
  "\<forall>c \<in> set bs. blk d' c = blk d c \<Longrightarrow> free_list d' bs = free_list d bs"
  by (auto simp: free_list_def fl_entries_def fl_at_def intro!: arg_cong [of _ _ concat] map_cong)

lemma chain_subset_free_list: "set bs \<subseteq> set (free_list d bs)"
  by (auto simp: free_list_def fl_entries_def)

lemma free_list_Cons [simp]: "free_list d (b # bs) = fl_entries d b @ free_list d bs"
  by (simp add: free_list_def)

lemma free_list_Nil [simp]: "free_list d [] = []"
  by (simp add: free_list_def)

lemma super_cong: "blk d' 0 = blk d 0 \<Longrightarrow> super d' = super d"
  by (simp add: super_def)

lemma valid_ino_cong: "ilist_size (super d') = ilist_size (super d) \<Longrightarrow> valid_ino d' i = valid_ino d i"
  by (simp add: valid_ino_def)

lemma data_block_cong:
  "ilist_size (super d') = ilist_size (super d) \<Longrightarrow> nblocks d' = nblocks d \<Longrightarrow>
    data_block d' b = data_block d b"
  by (simp add: data_block_def)

lemma ino_chain_cong:
  "\<forall>i \<in> set is. ilist_at d' i = ilist_at d i \<Longrightarrow> ilist_size (super d') = ilist_size (super d) \<Longrightarrow>
    ino_chain d' p is = ino_chain d p is"
  by (induction "is" arbitrary: p) (auto simp: valid_ino_def)

lemma ino_chain_valid: "ino_chain d p is \<Longrightarrow> i \<in> set is \<Longrightarrow> valid_ino d i"
  by (induction "is" arbitrary: p) auto

lemma store_geometry_cong:
  "wf_disk d' = wf_disk d \<Longrightarrow> nblocks d' = nblocks d \<Longrightarrow> sb_magic (super d') = sb_magic (super d) \<Longrightarrow>
    ilist_size (super d') = ilist_size (super d) \<Longrightarrow> store_geometry d' = store_geometry d"
  by (simp add: store_geometry_def)

end
