(* ===== verification/Store_Blocks.thy ===== *)
theory Store_Blocks
  imports Storage
begin

text \<open>
  \<open>block_allocate\<close> and \<open>block_free\<close> on a well-formed store: which block they pick, what
  they write, and that they implement the allocator contract.
\<close>

section \<open>Frames for the inode table\<close>

lemma ilist_at_frame:
  assumes "untouched S d d'" and "ilist_block i \<notin> S"
  shows "ilist_at d' i = ilist_at d i"
  using assms by (simp add: ilist_at_def untouched_blk)

lemma ilist_block_not_data:
  assumes "store_geometry d" and "valid_ino d i" and "\<forall>b \<in> F. data_block d b"
  shows "ilist_block i \<notin> insert 0 F"
  using ilist_block_unat [OF assms(1,2)] assms(3) by auto

lemma free_inos_rep_frame:
  assumes "store_geometry d" and "free_inos_rep d Is"
    and "untouched (insert 0 F) d d'" and "\<forall>b \<in> F. data_block d b"
    and "ilist_size (super d') = ilist_size (super d)"
    and "ino_freelist_start (super d') = ino_freelist_start (super d)"
    and "free_inodes (super d') = free_inodes (super d)"
  shows "free_inos_rep d' Is"
proof -
  let ?p = "ino_freelist_start (super d)"
  have chain: "ino_chain d ?p Is"
    using assms(2) by (simp add: free_inos_rep_def)
  have "ilist_at d' i = ilist_at d i" if "i \<in> set Is" for i
    using ilist_at_frame [OF assms(3)] ilist_block_not_data [OF assms(1) ino_chain_valid [OF chain that] assms(4)]
    by simp
  with chain have "ino_chain d' ?p Is"
    using assms(5) by (subst ino_chain_cong) auto
  then show ?thesis
    using assms(2,6,7) by (simp add: free_inos_rep_def)
qed

lemma store_inv_blocksI:
  assumes inv: "store_inv d F Is"
    and frame: "untouched (insert 0 G) d d'" and G: "\<forall>b \<in> G. data_block d b"
    and super: "super d' = (super d)\<lparr>freelist_start := s, free_blocks := n\<rparr>"
    and chain: "fl_chain d' s bs" and dist: "distinct (free_list d' bs)"
    and F': "set (free_list d' bs) = F'" and data: "\<forall>b \<in> F'. data_block d b" and n: "unat n = card F'"
  shows "store_inv d' F' Is"
proof -
  have geo: "store_geometry d" and inos: "free_inos_rep d Is"
    using inv by (simp_all add: store_inv_def)
  have "store_geometry d'"
    using geo untouched_dev [OF frame] super by (subst store_geometry_cong) auto
  moreover have "free_inos_rep d' Is"
    using free_inos_rep_frame [OF geo inos frame G] super by simp
  moreover have "free_blocks_rep d' F'"
    using chain dist F' data n super untouched_dev [OF frame]
    by (auto simp: free_blocks_rep_def data_block_def)
  ultimately show ?thesis
    by (simp add: store_inv_def)
qed

lemma store_inv_dest:
  assumes "store_inv d F Is"
  shows "wf_disk d" "store_geometry d" "0 < nblocks d" "free_inos_rep d Is"
    "b \<in> F \<Longrightarrow> data_block d b" "unat (free_blocks (super d)) = card F" "finite F"
  using assms by (auto simp: store_inv_def store_geometry_def free_blocks_rep_def word_less_nat_alt)

lemma store_inv_chain:
  assumes "store_inv d F Is"
  obtains bs where "fl_chain d (freelist_start (super d)) bs" "distinct (free_list d bs)"
    "set (free_list d bs) = F"
  using assms by (auto simp: store_inv_def free_blocks_rep_def)

lemma fl_chain_EOF: "fl_chain d p bs \<Longrightarrow> p = EOF \<longleftrightarrow> bs = []"
  by (cases bs) auto

lemma fl_at_upd: "freelist_ok f \<Longrightarrow> fl_at (upd_blk d n (enc_freelist f)) c = (if c = n then f else fl_at d c)"
  by (simp add: fl_at_def freelist_codec.dec_upd_blk)

lemma freelist_ok_fl_at: "length (fl_blocks (fl_at d b)) = 511"
  using freelist_codec.ok_blk [of d b] by (simp add: freelist_ok_def fl_at_def)

section \<open>Allocating a data block\<close>

lemma unat_minus_1_card:
  assumes "unat (n :: u64) = card F" and "b \<in> F" and "finite F"
  shows "unat (n - 1) = card (F - {b})"
proof -
  have "n \<noteq> 0"
    using assms by (metis card_gt_0_iff empty_iff unat_0 less_irrefl)
  then show ?thesis
    using assms by (simp add: unat_minus_one)
qed

lemma block_allocate_empty:
  assumes inv: "store_inv d {} Is"
  shows "block_allocate d = Some (EOF, d)"
proof -
  obtain bs where "fl_chain d (freelist_start (super d)) bs" "set (free_list d bs) = {}"
    using inv by (rule store_inv_chain)
  then have "freelist_start (super d) = EOF"
    by (cases bs) (auto simp: fl_entries_def)
  with store_inv_dest [OF inv] show ?thesis
    by (simp add: block_allocate_def read_block_wf super_def)
qed

text \<open>The write of the head block after its slot \<open>i\<close> changes to \<open>x\<close>, with the superblock.\<close>

definition set_slot :: "'x disk_t_scheme \<Rightarrow> superblock \<Rightarrow> blockno \<Rightarrow> nat \<Rightarrow> blockno \<Rightarrow> 'x disk_t_scheme" where
  "set_slot d sb p i x = upd_blk (upd_blk d 0 (enc_super sb)) p
     (enc_freelist ((fl_at d p)\<lparr>fl_blocks := (fl_blocks (fl_at d p))[i := x]\<rparr>))"

lemma set_slot_facts:
  assumes "p \<noteq> 0"
  shows "super (set_slot d sb p i x) = sb"
    and "fl_at (set_slot d sb p i x) p = (fl_at d p)\<lparr>fl_blocks := (fl_blocks (fl_at d p))[i := x]\<rparr>"
    and "untouched {0, p} d (set_slot d sb p i x)"
proof -
  have ok: "freelist_ok ((fl_at d p)\<lparr>fl_blocks := (fl_blocks (fl_at d p))[i := x]\<rparr>)"
    by (simp add: freelist_ok_def freelist_ok_fl_at)
  show "super (set_slot d sb p i x) = sb"
    using assms ok
    by (simp add: set_slot_def super_def)
  show "fl_at (set_slot d sb p i x) p = (fl_at d p)\<lparr>fl_blocks := (fl_blocks (fl_at d p))[i := x]\<rparr>"
    using ok by (simp add: set_slot_def fl_at_upd)
  show "untouched {0, p} d (set_slot d sb p i x)"
    unfolding set_slot_def
    by (rule untouched_mono [OF untouched_trans [OF untouched_upd_blk [of _ 0 "{0}"] untouched_upd_blk [of _ p "{p}"]]])
      (simp_all add: ok)
qed

lemma fl_entries_slot:
  assumes "fl_at d' p = (fl_at d p)\<lparr>fl_blocks := (fl_blocks (fl_at d p))[i := x]\<rparr>" and "i < 511"
  obtains us vs where
    "fl_entries d p = us @ (if fl_blocks (fl_at d p) ! i = EOF then [] else [fl_blocks (fl_at d p) ! i]) @ vs"
    "fl_entries d' p = us @ (if x = EOF then [] else [x]) @ vs"
proof
  let ?xs = "fl_blocks (fl_at d p)"
  let ?us = "filter (\<lambda>x. x \<noteq> EOF) (take i ?xs)"
  let ?vs = "filter (\<lambda>x. x \<noteq> EOF) (drop (Suc i) ?xs) @ [p]"
  have len: "i < length ?xs"
    using assms(2) by (simp add: freelist_ok_fl_at)
  show "fl_entries d p = ?us @ (if ?xs ! i = EOF then [] else [?xs ! i]) @ ?vs"
    using filter_slot_self [OF len, of "\<lambda>x. x \<noteq> EOF"] by (simp add: fl_entries_def)
  show "fl_entries d' p = ?us @ (if x = EOF then [] else [x]) @ ?vs"
    using filter_slot [OF len, of "\<lambda>x. x \<noteq> EOF" x] assms(1) by (simp add: fl_entries_def)
qed

text \<open>The head of a non-empty list, and what stays of the list when only the head changes.\<close>

lemma store_inv_head:
  assumes inv: "store_inv d F Is" and "freelist_start (super d) = p" and "p \<noteq> EOF"
  obtains bs where "fl_chain d (fl_next (fl_at d p)) bs" "distinct (free_list d (p # bs))"
    "set (free_list d (p # bs)) = F" "p \<in> F" "data_block d p" "p \<noteq> 0" "p < nblocks d" "p \<notin> set bs" "0 \<notin> set bs"
proof -
  obtain bs' where *: "fl_chain d p bs'" "distinct (free_list d bs')" "set (free_list d bs') = F"
    using store_inv_chain [OF inv] assms(2) by metis
  then obtain bs where bs: "bs' = p # bs"
    using assms(3) by (cases bs') auto
  have sub: "set bs \<subseteq> set (free_list d bs)"
    by (rule chain_subset_free_list)
  have p: "p \<in> set (fl_entries d p)"
    by (simp add: fl_entries_def)
  then have "p \<in> F" "p \<notin> set bs"
    using * sub by (auto simp: bs)
  moreover have "data_block d p"
    using store_inv_dest(5) [OF inv \<open>p \<in> F\<close>] .
  moreover have "0 \<notin> F"
    using store_inv_dest(5) [OF inv, of 0] zero_not_data_block by blast
  ultimately show thesis
    using that * sub by (auto simp: bs data_block_def)
qed

lemma free_list_head_frame:
  assumes "untouched {0, p} d d'" and "p \<notin> set bs" and "0 \<notin> set bs"
  shows "free_list d' bs = free_list d bs" "fl_chain d' q bs = fl_chain d q bs"
proof -
  have "blk d' c = blk d c" if "c \<in> set bs" for c
    using assms that by (intro untouched_blk [OF assms(1)]) auto
  then show "free_list d' bs = free_list d bs" "fl_chain d' q bs = fl_chain d q bs"
    by (simp_all add: free_list_cong fl_chain_cong)
qed

lemma block_allocate_eq:
  assumes "store_inv d F Is" and "freelist_start (super d) = p" and "p \<noteq> EOF" and "p < nblocks d"
  shows "block_allocate d =
    (case first_index (\<lambda>c. c \<noteq> EOF) (fl_blocks (fl_at d p)) of
       Some i \<Rightarrow> Some (fl_blocks (fl_at d p) ! i,
         set_slot d ((super d)\<lparr>free_blocks := free_blocks (super d) - 1\<rparr>) p i EOF)
     | None \<Rightarrow> Some (p, upd_blk d 0 (enc_super ((super d)\<lparr>freelist_start := fl_next (fl_at d p),
         free_blocks := free_blocks (super d) - 1\<rparr>))))"
proof -
  have ok: "freelist_ok ((dec_freelist (blk d p))\<lparr>fl_blocks := (fl_blocks (dec_freelist (blk d p)))[i := EOF]\<rparr>)" for i
    using freelist_ok_fl_at [of d p] by (simp add: freelist_ok_def fl_at_def)
  show ?thesis
    using assms store_inv_dest [OF assms(1)] ok
    by (auto simp: block_allocate_def read_block_wf disk_write_wf super_def fl_at_def set_slot_def Let_def
        split: option.splits)
qed

theorem block_allocate_some:
  assumes inv: "store_inv d F Is" and "F \<noteq> {}"
  shows "\<exists>b d'. block_allocate d = Some (b, d') \<and> b \<in> F \<and> store_inv d' (F - {b}) Is \<and>
    framed (insert 0 F) d d'"
proof -
  define p where "p = freelist_start (super d)"
  have "p \<noteq> EOF"
    using store_inv_chain [OF inv] assms(2) unfolding p_def
    by (metis fl_chain_EOF free_list_Nil list.set(1))
  with inv p_def [symmetric] obtain bs where
    chain: "fl_chain d (fl_next (fl_at d p)) bs" and dist: "distinct (free_list d (p # bs))"
    and F: "set (free_list d (p # bs)) = F" and p: "p \<in> F" "p \<noteq> 0" "p < nblocks d"
    and nin: "p \<notin> set bs" "0 \<notin> set bs"
    by (rule store_inv_head)
  note eq = block_allocate_eq [OF inv p_def [symmetric] \<open>p \<noteq> EOF\<close> p(3)]
  note dest = store_inv_dest [OF inv]
  have super_eta: "(super d)\<lparr>free_blocks := n\<rparr> = (super d)\<lparr>freelist_start := p, free_blocks := n\<rparr>" for n
    by (simp add: p_def)
  show ?thesis
  proof (cases "first_index (\<lambda>c. c \<noteq> EOF) (fl_blocks (fl_at d p))")
    case (Some i)
    let ?b = "fl_blocks (fl_at d p) ! i"
    let ?sb = "(super d)\<lparr>free_blocks := free_blocks (super d) - 1\<rparr>"
    let ?d = "set_slot d ?sb p i EOF"
    have i: "i < 511" "?b \<noteq> EOF"
      using first_index_SomeD [OF Some] by (simp_all add: freelist_ok_fl_at)
    note facts = set_slot_facts [OF p(2), of d ?sb i EOF]
    obtain us vs where ent: "fl_entries d p = us @ ?b # vs" "fl_entries ?d p = us @ vs"
      using fl_entries_slot [OF facts(2) i(1)] i(2) by auto
    note rest = free_list_head_frame [OF facts(3) nin]
    have fl: "set (free_list ?d (p # bs)) = F - {?b}" "distinct (free_list ?d (p # bs))" "?b \<in> F"
      using dist F by (auto simp: ent rest)
    have "untouched (insert 0 F) d ?d"
      using untouched_mono [OF facts(3)] p by auto
    moreover have "store_inv ?d (F - {?b}) Is"
    proof (rule store_inv_blocksI [OF inv \<open>untouched (insert 0 F) d ?d\<close>])
      show "fl_chain ?d p (p # bs)"
        using chain \<open>p \<noteq> EOF\<close> by (simp add: facts rest)
      show "super ?d = (super d)\<lparr>freelist_start := p, free_blocks := free_blocks (super d) - 1\<rparr>"
        using facts(1) super_eta by simp
      show "unat (free_blocks (super d) - 1) = card (F - {?b})"
        by (rule unat_minus_1_card [OF dest(6) fl(3) dest(7)])
    qed (use fl dest in auto)
    ultimately show ?thesis
      using eq Some fl(3) facts(1) by (auto simp: framed_def)
  next
    case None
    then have ent: "fl_entries d p = [p]"
      by (simp add: index_None_iff fl_entries_def filter_empty_conv)
    let ?sb = "(super d)\<lparr>freelist_start := fl_next (fl_at d p), free_blocks := free_blocks (super d) - 1\<rparr>"
    let ?d = "upd_blk d 0 (enc_super ?sb)"
    have u: "untouched (insert 0 F) d ?d" "untouched {0, p} d ?d"
      by simp_all
    note rest = free_list_head_frame [OF u(2) nin]
    have fl: "set (free_list ?d bs) = F - {p}" "distinct (free_list ?d bs)"
      using dist F by (auto simp: ent rest)
    have "store_inv ?d (F - {p}) Is"
    proof (rule store_inv_blocksI [OF inv u(1)])
      show "super ?d = ?sb"
        by (simp add: super_def)
      show "unat (free_blocks (super d) - 1) = card (F - {p})"
        by (rule unat_minus_1_card [OF dest(6) p(1) dest(7)])
    qed (use fl dest chain rest p in auto)
    then show ?thesis
      using eq None p u(1) by (auto simp: framed_def super_def)
  qed
qed

section \<open>Freeing a data block\<close>

text \<open>No more blocks can be free than the disk has, so the counter does not wrap.\<close>

lemma card_data_blocks:
  assumes "store_geometry d" and "\<forall>b \<in> F. data_block d b"
  shows "card F < 2 ^ 51" "finite F"
proof -
  have sub: "unat ` F \<subseteq> {0<..<2 ^ 51}"
    using data_block_unat(1,2) [OF assms(1)] assms(2) by auto
  moreover have inj: "inj_on unat F"
    by (simp add: inj_on_def word_unat_eq_iff)
  ultimately show "finite F"
    using finite_imageD [OF finite_subset] by blast
  have "card (unat ` F) \<le> card {0<..<2 ^ 51 :: nat}"
    using sub by (intro card_mono) auto
  then show "card F < 2 ^ 51"
    by (simp add: card_image [OF inj])
qed

lemma unat_plus_1_card:
  assumes "unat (n :: u64) = card F" and "b \<notin> F" and "finite F" and "card F < 2 ^ 51"
  shows "unat (n + 1) = card (insert b F)"
proof -
  have "unat n + unat (1 :: u64) < 2 ^ 64"
    using assms by simp
  then have "unat (n + 1) = unat n + unat (1 :: u64)"
    by (subst unat_add_lem [symmetric]) simp
  then show ?thesis
    using assms by simp
qed

lemma block_free_vagabond_eq:
  assumes "wf_disk d" and "0 < nblocks d" and "b < nblocks d"
  shows "block_free_vagabond d sb b = Some (upd_blk (upd_blk d 0 (enc_super
      (sb\<lparr>freelist_start := b, free_blocks := free_blocks sb + 1\<rparr>))) b
      (enc_freelist \<lparr>fl_next = freelist_start sb, fl_blocks = replicate 511 EOF\<rparr>))"
  using assms by (simp add: block_free_vagabond_def Let_def disk_write_wf freelist_ok_def)

lemma block_free_vagabond_spec:
  assumes inv: "store_inv d F Is" and b: "data_block d b" "b \<notin> F"
  shows "\<exists>d'. block_free_vagabond d (super d) b = Some d' \<and> store_inv d' (insert b F) Is \<and>
    framed (insert 0 (insert b F)) d d'"
proof -
  let ?sb = "(super d)\<lparr>freelist_start := b, free_blocks := free_blocks (super d) + 1\<rparr>"
  let ?f = "\<lparr>fl_next = freelist_start (super d), fl_blocks = replicate 511 EOF\<rparr>"
  let ?d = "upd_blk (upd_blk d 0 (enc_super ?sb)) b (enc_freelist ?f)"
  note dest = store_inv_dest [OF inv]
  have ok: "freelist_ok ?f"
    by (simp add: freelist_ok_def)
  have nz: "b \<noteq> 0" "b \<noteq> EOF" "b < nblocks d"
    using data_block_unat [OF dest(2) b(1)] by simp_all
  obtain bs where chain: "fl_chain d (freelist_start (super d)) bs" and dist: "distinct (free_list d bs)"
    and F: "set (free_list d bs) = F"
    using inv by (rule store_inv_chain)
  have nin: "b \<notin> set bs" "0 \<notin> set bs"
    using chain_subset_free_list [of bs d] F b dest(5) zero_not_data_block by auto
  have frame: "untouched {0, b} d ?d"
    by (rule untouched_mono [OF untouched_trans [OF untouched_upd_blk [of _ 0 "{0}"] untouched_upd_blk [of _ b "{b}"]]])
      (simp_all add: ok)
  note rest = free_list_head_frame [OF frame nin]
  have ent: "fl_at ?d b = ?f"
    using ok by (simp add: fl_at_upd)
  then have fl: "fl_entries ?d b = [b]"
    by (simp add: fl_entries_def)
  have all: "\<forall>c \<in> insert b F. data_block d c"
    using b dest(5) by auto
  have frame': "untouched (insert 0 (insert b F)) d ?d"
    by (rule untouched_mono [OF frame]) auto
  have "store_inv ?d (insert b F) Is"
  proof (rule store_inv_blocksI [OF inv frame' all])
    show "super ?d = ?sb"
      using nz ok by (simp add: super_def)
    show "fl_chain ?d b (b # bs)"
      using chain nz by (simp add: ent rest)
    show "unat (free_blocks (super d) + 1) = card (insert b F)"
      by (rule unat_plus_1_card [OF dest(6) b(2) dest(7)]) (use card_data_blocks [OF dest(2)] dest(5) in blast)
  qed (use all dist F b in \<open>auto simp: fl rest\<close>)
  moreover have "framed (insert 0 (insert b F)) d ?d"
    using frame' nz ok by (simp add: framed_def super_def)
  ultimately show ?thesis
    using block_free_vagabond_eq [OF dest(1,3) nz(3)] by blast
qed

lemma block_free_eq:
  assumes "store_inv d F Is" and "freelist_start (super d) = p"
    and "p \<noteq> EOF \<Longrightarrow> p < nblocks d"
  shows "block_free d b =
    (if p = EOF then block_free_vagabond d (super d) b
     else case last_index (\<lambda>s. s = EOF) (fl_blocks (fl_at d p)) of
       Some i \<Rightarrow> Some (set_slot d ((super d)\<lparr>free_blocks := free_blocks (super d) + 1\<rparr>) p i b)
     | None \<Rightarrow> block_free_vagabond d (super d) b)"
proof -
  have ok: "freelist_ok ((dec_freelist (blk d p))\<lparr>fl_blocks := (fl_blocks (dec_freelist (blk d p)))[i := b]\<rparr>)" for i
    using freelist_ok_fl_at [of d p] by (simp add: freelist_ok_def fl_at_def)
  show ?thesis
    using assms store_inv_dest [OF assms(1)] ok
    by (auto simp: block_free_def read_block_wf disk_write_wf super_def fl_at_def set_slot_def Let_def
        split: option.splits)
qed

theorem block_free_spec:
  assumes inv: "store_inv d F Is" and b: "data_block d b" "b \<notin> F"
  shows "\<exists>d'. block_free d b = Some d' \<and> store_inv d' (insert b F) Is \<and>
    framed (insert 0 (insert b F)) d d'"
proof -
  define p where "p = freelist_start (super d)"
  note dest = store_inv_dest [OF inv]
  show ?thesis
  proof (cases "p = EOF \<or> last_index (\<lambda>s. s = EOF) (fl_blocks (fl_at d p)) = None")
    case True
    have "p < nblocks d" if "p \<noteq> EOF"
      using store_inv_head [OF inv p_def [symmetric] that] by blast
    then have "block_free d b = block_free_vagabond d (super d) b"
      using True block_free_eq [OF inv p_def [symmetric]] by (auto split: option.splits)
    then show ?thesis
      using block_free_vagabond_spec [OF inv b] by simp
  next
    case False
    then obtain i where Some: "last_index (\<lambda>s. s = EOF) (fl_blocks (fl_at d p)) = Some i" and "p \<noteq> EOF"
      by auto
    from inv p_def [symmetric] \<open>p \<noteq> EOF\<close> obtain bs where
      chain: "fl_chain d (fl_next (fl_at d p)) bs" and dist: "distinct (free_list d (p # bs))"
      and F: "set (free_list d (p # bs)) = F" and p: "p \<in> F" "p \<noteq> 0" "p < nblocks d"
      and nin: "p \<notin> set bs" "0 \<notin> set bs"
      by (rule store_inv_head)
    let ?sb = "(super d)\<lparr>free_blocks := free_blocks (super d) + 1\<rparr>"
    let ?d = "set_slot d ?sb p i b"
    have i: "i < 511" "fl_blocks (fl_at d p) ! i = EOF"
      using last_index_SomeD [OF Some] by (simp_all add: freelist_ok_fl_at)
    note facts = set_slot_facts [OF p(2), of d ?sb i b]
    have bE: "b \<noteq> EOF"
      using data_block_unat [OF dest(2) b(1)] by simp
    obtain us vs where ent: "fl_entries d p = us @ vs" "fl_entries ?d p = us @ b # vs"
      using fl_entries_slot [OF facts(2) i(1)] i(2) bE by auto
    note rest = free_list_head_frame [OF facts(3) nin]
    have fl: "set (free_list ?d (p # bs)) = insert b F" "distinct (free_list ?d (p # bs))"
      using dist F b by (auto simp: ent rest)
    have all: "\<forall>c \<in> insert b F. data_block d c"
      using b dest(5) by auto
    have frame: "untouched (insert 0 (insert b F)) d ?d"
      using untouched_mono [OF facts(3)] p by auto
    have "store_inv ?d (insert b F) Is"
    proof (rule store_inv_blocksI [OF inv frame all])
      show "fl_chain ?d p (p # bs)"
        using chain \<open>p \<noteq> EOF\<close> by (simp add: facts rest)
      show "super ?d = (super d)\<lparr>freelist_start := p, free_blocks := free_blocks (super d) + 1\<rparr>"
        using facts(1) by (simp add: p_def)
      show "unat (free_blocks (super d) + 1) = card (insert b F)"
        by (rule unat_plus_1_card [OF dest(6) b(2) dest(7)]) (use card_data_blocks [OF dest(2)] dest(5) in blast)
    qed (use fl all in auto)
    then show ?thesis
      using block_free_eq [OF inv p_def [symmetric] p(3)] Some \<open>p \<noteq> EOF\<close> frame facts(1)
      by (auto simp: framed_def)
  qed
qed

section \<open>The allocator contract\<close>

interpretation blocks: allocator block_allocate block_free "\<lambda>d F. store_inv d F Is" data_block EOF
  for Is
proof unfold_locales
  fix s F r
  show "store_inv s {} Is \<Longrightarrow> block_allocate s = Some (EOF, s)"
    by (rule block_allocate_empty)
  show "store_inv s F Is \<Longrightarrow> F \<noteq> {} \<Longrightarrow>
      \<exists>r s'. block_allocate s = Some (r, s') \<and> r \<in> F \<and> store_inv s' (F - {r}) Is \<and> data_block s' = data_block s"
    using block_allocate_some framed_dev(5) by blast
  show "store_inv s F Is \<Longrightarrow> data_block s r \<Longrightarrow> r \<notin> F \<Longrightarrow>
      \<exists>s'. block_free s r = Some s' \<and> store_inv s' (insert r F) Is \<and> data_block s' = data_block s"
    using block_free_spec framed_dev(5) by blast
  show "store_inv s F Is \<Longrightarrow> r \<in> F \<Longrightarrow> data_block s r \<and> r \<noteq> EOF"
    using store_inv_dest(2,5) [of s F Is] data_block_unat(3) [of s r] by blast
  show "store_inv s F Is \<Longrightarrow> finite F"
    by (rule store_inv_dest(7))
qed

end
