(* ===== verification/Store_Inodes.thy ===== *)
theory Store_Inodes
  imports Store_Blocks
begin

text \<open>
  The inode table and the list of free inode numbers on a well-formed store:
  \<open>ino_get\<close>/\<open>ino_set\<close> are a map, \<open>ino_allocate\<close>/\<open>ino_free\<close> a stack of free numbers.
\<close>

section \<open>Numbers of inodes\<close>

lemma ilist_slot_inject: "ilist_block i = ilist_block j \<Longrightarrow> i mod 512 = j mod 512 \<Longrightarrow> i = j"
  by (metis add_left_imp_eq div_mult_mod_eq ilist_block_def)

lemma ilist_slot_bound: "unat (i mod 512 :: u64) < 512"
  by (simp add: unat_mod)

lemma valid_ino_unat:
  assumes "store_geometry d" and "valid_ino d i"
  shows "unat i < 2 ^ 60" "i \<noteq> EOF" "0 \<le> sint i"
proof -
  have "unat (nblocks d) * 4096 < 2 ^ 63" "unat (ilist_size (super d)) + 1 < unat (nblocks d)"
    using assms(1) by (simp_all add: store_geometry_def wf_disk_def)
  then show small: "unat i < 2 ^ 60"
    using assms(2) by (simp add: valid_ino_def)
  then show "0 \<le> sint i"
    by (simp add: sint_nonneg_iff)
  then show "i \<noteq> EOF"
    using sint_EOF by fastforce
qed

lemma valid_inos_length:
  assumes "store_geometry d" and "\<forall>i \<in> set Is. valid_ino d i" and "distinct Is"
  shows "length Is < 2 ^ 60"
proof -
  have sub: "unat ` set Is \<subseteq> {..<2 ^ 60}"
    using valid_ino_unat(1) [OF assms(1)] assms(2) by auto
  have inj: "inj_on unat (set Is)"
    by (simp add: inj_on_def word_unat_eq_iff)
  have bound: "unat (ilist_size (super d)) * 512 < 2 ^ 60"
    using assms(1) by (simp add: store_geometry_def wf_disk_def)
  have "unat ` set Is \<subseteq> {..<unat (ilist_size (super d)) * 512}"
    using assms(2) by (auto simp: valid_ino_def)
  then have "card (unat ` set Is) \<le> unat (ilist_size (super d)) * 512"
    using card_mono [of "{..<unat (ilist_size (super d)) * 512}"] by fastforce
  then show ?thesis
    using bound by (simp add: card_image [OF inj] distinct_card [OF assms(3)])
qed

section \<open>Reading and writing the inode table\<close>

lemma ino_get_eq: "store_geometry d \<Longrightarrow> valid_ino d i \<Longrightarrow> ino_get d i = Some (ilist_at d i)"
  using ilist_block_unat(3) [of d i]
  by (simp add: ino_get_def read_block_wf store_geometry_def ilist_at_def ilist_block_def)

definition set_ilist :: "'x disk_t_scheme \<Rightarrow> ino \<Rightarrow> blockno \<Rightarrow> 'x disk_t_scheme" where
  "set_ilist d i b = upd_blk d (ilist_block i)
     (enc_words ((dec_words (blk d (ilist_block i)))[unat (i mod INUMS_PER_ILIST_BLOCK) := b]))"

lemma words_ok_slot: "words_ok ((dec_words (blk d n))[k := b])"
  using words_codec.ok_blk [of d n] by (simp add: words_ok_def)

lemma ino_set_eq: "store_geometry d \<Longrightarrow> valid_ino d i \<Longrightarrow> ino_set d i b = Some (set_ilist d i b)"
  using ilist_block_unat(3) [of d i]
  by (simp add: ino_set_def read_block_wf disk_write_wf store_geometry_def set_ilist_def ilist_block_def
      words_ok_slot Let_def)

lemma set_ilist_at: "ilist_at (set_ilist d i b) j = (if j = i then b else ilist_at d j)"
proof (cases "ilist_block j = ilist_block i")
  case True
  have "length (dec_words (blk d (ilist_block i))) = 512"
    using words_codec.ok_blk [of d "ilist_block i"] by (simp add: words_ok_def)
  moreover have "unat (j mod 512) = unat (i mod 512) \<longleftrightarrow> j = i"
    using True ilist_slot_inject word_unat_eq_iff by blast
  ultimately show ?thesis
    using True ilist_slot_bound [of i] ilist_slot_bound [of j]
    by (auto simp: ilist_at_def set_ilist_def words_ok_slot nth_list_update)
next
  case False
  then show ?thesis
    by (auto simp: ilist_at_def set_ilist_def words_ok_slot)
qed

lemma set_ilist_untouched: "untouched {ilist_block i} d (set_ilist d i b)"
  by (simp add: set_ilist_def words_ok_slot)

lemma super_untouched: "untouched S d d' \<Longrightarrow> 0 \<notin> S \<Longrightarrow> super d' = super d"
  by (simp add: super_def untouched_blk)

section \<open>The store after the inode list changes\<close>

lemma free_blocks_rep_frame:
  assumes "free_blocks_rep d F" and "untouched S d d'" and "S \<inter> F = {}"
    and "ilist_size (super d') = ilist_size (super d)"
    and "freelist_start (super d') = freelist_start (super d)"
    and "free_blocks (super d') = free_blocks (super d)"
  shows "free_blocks_rep d' F"
proof -
  obtain bs where bs: "fl_chain d (freelist_start (super d)) bs" "distinct (free_list d bs)"
    "set (free_list d bs) = F"
    using assms(1) by (auto simp: free_blocks_rep_def)
  have "blk d' c = blk d c" if "c \<in> set bs" for c
  proof -
    have "c \<in> F"
      using that bs(3) chain_subset_free_list [of bs d] by auto
    then show ?thesis
      using assms(2,3) by (auto intro: untouched_blk)
  qed
  then have "fl_chain d' (freelist_start (super d')) bs" "free_list d' bs = free_list d bs"
    using bs assms(5) by (simp_all add: fl_chain_cong [of bs d' d] free_list_cong)
  then show ?thesis
    using bs assms untouched_dev(1) [OF assms(2)] by (auto simp: free_blocks_rep_def data_block_def)
qed

lemma store_inv_inosI:
  assumes inv: "store_inv d F Is"
    and frame: "untouched S d d'" and S: "\<forall>b \<in> S. \<not> data_block d b"
    and super: "super d' = (super d)\<lparr>ino_freelist_start := s, free_inodes := n\<rparr>"
    and chain: "ino_chain d' s Is'" and dist: "distinct Is'" and n: "unat n = length Is'"
  shows "store_inv d' F Is'"
proof -
  have "store_geometry d'"
    using inv untouched_dev [OF frame] super by (subst store_geometry_cong [of d' d]) (auto simp: store_inv_def)
  moreover have "free_blocks_rep d' F"
    using inv S store_inv_dest(5) [OF inv] super by (intro free_blocks_rep_frame [OF _ frame]) (auto simp: store_inv_def)
  moreover have "free_inos_rep d' Is'"
    using chain dist n super by (simp add: free_inos_rep_def)
  ultimately show ?thesis
    by (simp add: store_inv_def)
qed

lemma store_inv_inos_dest:
  assumes "store_inv d F Is"
  shows "ino_chain d (ino_freelist_start (super d)) Is" "distinct Is"
    "unat (free_inodes (super d)) = length Is" "i \<in> set Is \<Longrightarrow> valid_ino d i"
  using assms ino_chain_valid by (auto simp: store_inv_def free_inos_rep_def)

lemma read_super: "store_inv d F Is \<Longrightarrow> read_block d 0 = Some (blk d 0)"
  using store_inv_dest [of d F Is] by (simp add: read_block_wf)

section \<open>Allocating and freeing inode numbers\<close>

lemma ino_allocate_empty:
  assumes "store_inv d F []"
  shows "ino_allocate d = Some (EOF, d)"
  using store_inv_inos_dest [OF assms] read_super [OF assms]
  by (simp add: ino_allocate_def super_def Let_def)

theorem ino_allocate_some:
  assumes inv: "store_inv d F (i # Is)"
  shows "\<exists>d'. ino_allocate d = Some (i, d') \<and> store_inv d' F Is \<and> framed {0} d d' \<and>
    (\<forall>j. valid_ino d j \<longrightarrow> ilist_at d' j = ilist_at d j)"
proof -
  note dest = store_inv_dest [OF inv] store_inv_inos_dest [OF inv]
  have start: "ino_freelist_start (super d) = i" and valid: "valid_ino d i"
    and chain: "ino_chain d (- ilist_at d i) Is"
    using dest(8) by simp_all
  let ?sb = "(super d)\<lparr>ino_freelist_start := - ilist_at d i, free_inodes := free_inodes (super d) - 1\<rparr>"
  let ?d = "upd_blk d 0 (enc_super ?sb)"
  have frame: "untouched {0} d ?d"
    by simp
  have sup: "super ?d = ?sb"
    by (simp add: super_def)
  have "ilist_at ?d j = ilist_at d j" if "j \<in> set Is" for j
    using ilist_block_unat [OF dest(2), of j] dest(11) [of j] that by (intro ilist_at_frame [OF frame]) auto
  then have "ino_chain ?d (- ilist_at d i) Is"
    using chain sup by (subst ino_chain_cong) auto
  moreover have "unat (free_inodes (super d) - 1) = length Is"
    using dest(10) by (subst unat_minus_one) auto
  ultimately have "store_inv ?d F Is"
    using store_inv_inosI [OF inv frame _ sup] zero_not_data_block dest(9) by auto
  moreover have "ino_allocate d = Some (i, ?d)"
    using read_super [OF inv] start valid_ino_unat [OF dest(2) valid] ino_get_eq [OF dest(2) valid] dest(1,3)
    by (simp add: ino_allocate_def super_def Let_def disk_write_wf)
  moreover have "framed {0} d ?d" "\<forall>j. valid_ino d j \<longrightarrow> ilist_at ?d j = ilist_at d j"
    using frame sup ilist_block_unat [OF dest(2)] by (auto simp: framed_def intro!: ilist_at_frame [OF frame])
  ultimately show ?thesis
    by blast
qed

theorem ino_free_spec:
  assumes inv: "store_inv d F Is" and i: "valid_ino d i" "i \<notin> set Is"
  shows "\<exists>d'. ino_free d i = Some d' \<and> store_inv d' F (i # Is) \<and> framed {0, ilist_block i} d d' \<and>
    (\<forall>j. valid_ino d j \<longrightarrow> j \<noteq> i \<longrightarrow> ilist_at d' j = ilist_at d j)"
proof -
  note dest = store_inv_dest [OF inv] store_inv_inos_dest [OF inv]
  note ib = ilist_block_unat [OF dest(2) i(1)]
  let ?s = "ino_freelist_start (super d)"
  let ?sb = "(super d)\<lparr>ino_freelist_start := i, free_inodes := free_inodes (super d) + 1\<rparr>"
  let ?d1 = "set_ilist d i (- ?s)"
  let ?d = "upd_blk ?d1 0 (enc_super ?sb)"
  have frame: "untouched {0, ilist_block i} d ?d"
    by (rule untouched_mono [OF untouched_trans [OF set_ilist_untouched untouched_upd_blk [of _ 0 "{0}"]]]) auto
  have sup: "super ?d = ?sb"
    by (simp add: super_def)
  have at: "ilist_at ?d j = (if j = i then - ?s else ilist_at d j)" if "valid_ino d j" for j
    using ilist_block_unat(4) [OF dest(2) that]
    by (subst ilist_at_frame [of "{0}" ?d1]) (simp_all add: set_ilist_at)
  have "ino_chain ?d ?s Is"
    using dest(8) i(2) dest(11) by (subst ino_chain_cong [of _ _ d]) (auto simp: at sup)
  then have "ino_chain ?d i (i # Is)"
    using i(1) by (simp add: at sup valid_ino_def)
  moreover have "unat (free_inodes (super d) + 1) = length (i # Is)"
  proof -
    have "unat (free_inodes (super d)) + unat (1 :: u64) < 2 ^ 64"
      using valid_inos_length [OF dest(2), of Is] dest(9,10,11) by simp
    then show ?thesis
      using dest(10) by (subst unat_add_lem [THEN iffD1]) simp_all
  qed
  moreover have "\<forall>b \<in> {0, ilist_block i}. \<not> data_block d b" "distinct (i # Is)"
    using zero_not_data_block ib(5) dest(9) i(2) by auto
  ultimately have "store_inv ?d F (i # Is)"
    using store_inv_inosI [OF inv frame _ sup] by blast
  moreover have "ino_free d i = Some ?d"
    using read_super [OF inv] ino_set_eq [OF dest(2) i(1)] dest(1,3)
    by (simp add: ino_free_def super_def Let_def disk_write_wf set_ilist_def)
  ultimately show ?thesis
    using frame at sup by (auto simp: framed_def)
qed

theorem ino_set_spec:
  assumes inv: "store_inv d F Is" and i: "valid_ino d i" "i \<notin> set Is"
  shows "ino_set d i b = Some (set_ilist d i b) \<and> store_inv (set_ilist d i b) F Is \<and>
    framed {ilist_block i} d (set_ilist d i b)"
proof -
  note dest = store_inv_dest [OF inv] store_inv_inos_dest [OF inv]
  note ib = ilist_block_unat [OF dest(2) i(1)]
  have frame: "untouched {ilist_block i} d (set_ilist d i b)"
    by (rule set_ilist_untouched)
  have sup: "super (set_ilist d i b) = super d"
    using super_untouched [OF frame] ib(4) by simp
  have "ino_chain (set_ilist d i b) (ino_freelist_start (super d)) Is"
    using dest(8) i(2) by (subst ino_chain_cong [of _ _ d]) (auto simp: set_ilist_at sup)
  then have "store_inv (set_ilist d i b) F Is"
    using sup ib(5) dest(9,10) by (intro store_inv_inosI [OF inv frame]) auto
  then show ?thesis
    using ino_set_eq [OF dest(2) i(1)] frame sup by (simp add: framed_def)
qed

section \<open>Writing a block that is in use\<close>

theorem store_inv_upd_blk:
  assumes inv: "store_inv d F Is" and b: "data_block d b" "b \<notin> F" and len: "length bs = BLOCKSIZE"
  shows "disk_write d b bs = Some (upd_blk d b bs)" "store_inv (upd_blk d b bs) F Is"
    "framed {b} d (upd_blk d b bs)"
proof -
  note dest = store_inv_dest [OF inv]
  have nz: "b \<noteq> 0" "b < nblocks d"
    using data_block_unat [OF dest(2) b(1)] by simp_all
  then show "disk_write d b bs = Some (upd_blk d b bs)"
    using dest(1) len by (simp add: disk_write_wf)
  let ?d = "upd_blk d b bs"
  have u: "untouched {b} d ?d" "untouched (insert 0 {b}) d ?d"
    using len by simp_all
  have sup: "super ?d = super d"
    using super_untouched [OF u(1)] nz by simp
  have "store_geometry ?d"
    using dest(2) sup by (simp add: store_geometry_def)
  moreover have "free_blocks_rep ?d F"
    using inv b sup by (intro free_blocks_rep_frame [OF _ u(1)]) (auto simp: store_inv_def)
  moreover have "free_inos_rep ?d Is"
    using free_inos_rep_frame [OF dest(2,4) u(2)] b(1) sup by simp
  ultimately show "store_inv ?d F Is"
    by (simp add: store_inv_def)
  show "framed {b} d ?d"
    using u(1) sup by (simp add: framed_def)
qed

section \<open>The allocator contract\<close>

definition ino_store :: "blockno set \<Rightarrow> 'x disk_t_scheme \<Rightarrow> ino set \<Rightarrow> bool" where
  "ino_store F d I \<longleftrightarrow> (\<exists>Is. set Is = I \<and> store_inv d F Is)"

interpretation inos: allocator ino_allocate ino_free "ino_store F" valid_ino EOF
  for F
proof unfold_locales
  fix s I r
  show "ino_store F s {} \<Longrightarrow> ino_allocate s = Some (EOF, s)"
    using ino_allocate_empty by (auto simp: ino_store_def)
  assume inv: "ino_store F s I"
  then obtain Is where Is: "set Is = I" "store_inv s F Is"
    by (auto simp: ino_store_def)
  show "\<exists>r s'. ino_allocate s = Some (r, s') \<and> r \<in> I \<and> ino_store F s' (I - {r}) \<and> valid_ino s' = valid_ino s"
    if nonempty: "I \<noteq> {}"
  proof -
    obtain i js where js: "Is = i # js"
      using Is(1) nonempty by (cases Is) auto
    then have "set js = I - {i}"
      using Is store_inv_inos_dest(2) [OF Is(2)] by auto
    moreover obtain s' where "ino_allocate s = Some (i, s')" "store_inv s' F js" "framed {0} s s'"
      using ino_allocate_some [of s F i js] Is(2) js by blast
    ultimately show ?thesis
      using Is(1) js framed_dev(6) by (auto simp: ino_store_def)
  qed
  show "\<exists>s'. ino_free s r = Some s' \<and> ino_store F s' (insert r I) \<and> valid_ino s' = valid_ino s"
    if r: "valid_ino s r" "r \<notin> I"
  proof -
    obtain s' where s': "ino_free s r = Some s'" "store_inv s' F (r # Is)" "framed {0, ilist_block r} s s'"
      using ino_free_spec [OF Is(2), of r] r Is(1) by blast
    then have "ino_store F s' (insert r I)"
      unfolding ino_store_def using Is(1) by (intro exI [of _ "r # Is"]) simp
    then show ?thesis
      using s' framed_dev(6) by blast
  qed
  show "valid_ino s r \<and> r \<noteq> EOF" if "r \<in> I"
    using that Is store_inv_inos_dest(4) [OF Is(2)] valid_ino_unat store_inv_dest(2) [OF Is(2)] by blast
  show "finite I"
    using Is(1) by auto
qed

end
