(* ===== verification/Tree_Rep.thy ===== *)
theory Tree_Rep
  imports Store_Inodes Inode_Tree
begin

text \<open>
  What a block slot means.  A pointer \<open>p\<close> of indirection level \<open>l\<close> that holds the first
  \<open>n\<close> data blocks of its range is a tree: \<open>tset\<close> is the set of all its blocks, \<open>tmeta\<close>
  the indirect ones among them, \<open>tget k\<close> the \<open>k\<close>-th data block, and \<open>tree_ok\<close> says
  the tree is well formed: the blocks are data blocks of the disk, no block is used twice, and
  the pointers past the end are \<open>BLOCKNO_EOF\<close>.
\<close>

definition ind :: "'x disk_t_scheme \<Rightarrow> blockno \<Rightarrow> blockno list" where
  "ind d p = dec_words (blk d p)"

lemma length_ind [simp]: "length (ind d p) = 512"
  using words_codec.ok_blk [of d p] by (simp add: ind_def words_ok_def)

text \<open>How many of a block's \<open>n\<close> data blocks lie under its child \<open>i\<close> of level \<open>l\<close>.\<close>

definition child_n :: "nat \<Rightarrow> nat \<Rightarrow> nat \<Rightarrow> nat" where
  "child_n l n i = min (512 ^ l) (n - i * 512 ^ l)"

primrec tset :: "nat \<Rightarrow> 'x disk_t_scheme \<Rightarrow> blockno \<Rightarrow> nat \<Rightarrow> blockno set" where
  "tset 0 d p n = (if n = 0 then {} else {p})"
| "tset (Suc l) d p n = (if n = 0 then {} else insert p (\<Union>i<512. tset l d (ind d p ! i) (child_n l n i)))"

primrec tmeta :: "nat \<Rightarrow> 'x disk_t_scheme \<Rightarrow> blockno \<Rightarrow> nat \<Rightarrow> blockno set" where
  "tmeta 0 d p n = {}"
| "tmeta (Suc l) d p n = (if n = 0 then {} else insert p (\<Union>i<512. tmeta l d (ind d p ! i) (child_n l n i)))"

primrec tget :: "nat \<Rightarrow> 'x disk_t_scheme \<Rightarrow> blockno \<Rightarrow> nat \<Rightarrow> blockno" where
  "tget 0 d p k = p"
| "tget (Suc l) d p k = tget l d (ind d p ! (k div 512 ^ l)) (k mod 512 ^ l)"

definition fset :: "nat \<Rightarrow> 'x disk_t_scheme \<Rightarrow> blockno list \<Rightarrow> nat \<Rightarrow> blockno set" where
  "fset l d ps n = (\<Union>i<512. tset l d (ps ! i) (child_n l n i))"

definition fmeta :: "nat \<Rightarrow> 'x disk_t_scheme \<Rightarrow> blockno list \<Rightarrow> nat \<Rightarrow> blockno set" where
  "fmeta l d ps n = (\<Union>i<512. tmeta l d (ps ! i) (child_n l n i))"

primrec tree_ok :: "nat \<Rightarrow> 'x disk_t_scheme \<Rightarrow> blockno \<Rightarrow> nat \<Rightarrow> bool" where
  "tree_ok 0 d p n \<longleftrightarrow> n \<le> 1 \<and> (if n = 0 then p = EOF else data_block d p)"
| "tree_ok (Suc l) d p n \<longleftrightarrow> n \<le> 512 ^ Suc l \<and>
    (if n = 0 then p = EOF
     else data_block d p \<and> p \<notin> fset l d (ind d p) n \<and>
       (\<forall>i < 512. tree_ok l d (ind d p ! i) (child_n l n i)) \<and>
       (\<forall>i < 512. \<forall>j < 512. i \<noteq> j \<longrightarrow>
         tset l d (ind d p ! i) (child_n l n i) \<inter> tset l d (ind d p ! j) (child_n l n j) = {}))"

text \<open>The children of one block, as a list of pointers that is still in memory.\<close>

definition forest_ok :: "nat \<Rightarrow> 'x disk_t_scheme \<Rightarrow> blockno list \<Rightarrow> nat \<Rightarrow> bool" where
  "forest_ok l d ps n \<longleftrightarrow>
    (\<forall>i < 512. tree_ok l d (ps ! i) (child_n l n i)) \<and>
    (\<forall>i < 512. \<forall>j < 512. i \<noteq> j \<longrightarrow> tset l d (ps ! i) (child_n l n i) \<inter> tset l d (ps ! j) (child_n l n j) = {})"

lemma tree_ok_Suc: "tree_ok (Suc l) d p n \<longleftrightarrow> n \<le> 512 ^ Suc l \<and>
    (if n = 0 then p = EOF
     else data_block d p \<and> p \<notin> fset l d (ind d p) n \<and> forest_ok l d (ind d p) n)"
  by (auto simp: forest_ok_def)

lemma tset_Suc: "tset (Suc l) d p n = (if n = 0 then {} else insert p (fset l d (ind d p) n))"
  by (simp add: fset_def)

lemma tmeta_Suc: "tmeta (Suc l) d p n = (if n = 0 then {} else insert p (fmeta l d (ind d p) n))"
  by (simp add: fmeta_def)

declare tree_ok.simps(2) [simp del] tset.simps(2) [simp del] tmeta.simps(2) [simp del]

section \<open>Counting children\<close>

lemma child_n_0 [simp]: "child_n l 0 i = 0"
  by (simp add: child_n_def)

lemma child_n_le: "child_n l n i \<le> 512 ^ l"
  by (simp add: child_n_def)

lemma child_n_mono: "n \<le> n' \<Longrightarrow> child_n l n i \<le> child_n l n' i"
  unfolding child_n_def by (intro min.mono order_refl diff_le_mono)

lemma child_n_current: "child_n l n (n div 512 ^ l) = n mod 512 ^ l"
proof -
  have "n - n div 512 ^ l * 512 ^ l = n mod 512 ^ l"
    by (simp add: minus_div_mult_eq_mod)
  moreover have "n mod 512 ^ l \<le> 512 ^ l"
    by (simp add: less_imp_le)
  ultimately show ?thesis
    by (simp add: child_n_def)
qed

lemma mult_gap: "j < (i :: nat) \<Longrightarrow> j * s + s \<le> i * s"
  by (metis Suc_leI add.commute mult_Suc mult_le_mono1)

text \<open>Adding \<open>a\<close> blocks within the current child changes the count of that child only.\<close>

lemma child_n_add:
  assumes "m mod 512 ^ l + a \<le> 512 ^ l"
  shows "child_n l (m + a) j = (if j = m div 512 ^ l then m mod 512 ^ l + a else child_n l m j)"
proof -
  define s i r where "s = (512 :: nat) ^ l" and "i = m div s" and "r = m mod s"
  have m: "m = i * s + r" and r: "r < s"
    unfolding i_def r_def s_def by (simp_all only: div_mult_mod_eq) simp
  have a: "r + a \<le> s"
    using assms by (simp add: r_def s_def)
  consider "j = i" | "j < i" | "i < j"
    by linarith
  then have "min s (m + a - j * s) = (if j = i then r + a else min s (m - j * s))"
  proof cases
    case 1
    then show ?thesis using m a by simp
  next
    case 2
    then show ?thesis using m mult_gap [OF 2, of s] by simp
  next
    case 3
    then show ?thesis using m a r mult_gap [OF 3, of s] by simp
  qed
  then show ?thesis
    by (simp add: child_n_def s_def i_def r_def)
qed

lemma child_index:
  assumes "k < n" and "n \<le> 512 ^ Suc l"
  shows "k div 512 ^ l < 512" "k mod 512 ^ l < child_n l n (k div 512 ^ l)"
proof -
  have "k < 512 * 512 ^ l"
    using assms by simp
  then show "k div 512 ^ l < 512"
    by (simp add: less_mult_imp_div_less mult.commute)
  have "k - k div 512 ^ l * 512 ^ l = k mod 512 ^ l" "k div 512 ^ l * 512 ^ l \<le> k"
    by (simp_all add: minus_div_mult_eq_mod)
  then have "k mod 512 ^ l < n - k div 512 ^ l * 512 ^ l"
    using assms(1) by linarith
  then show "k mod 512 ^ l < child_n l n (k div 512 ^ l)"
    by (simp add: child_n_def)
qed

section \<open>The blocks of a tree\<close>

lemma tset_0 [simp]: "tset l d p 0 = {}"
  by (cases l) (simp_all add: tset_Suc)

lemma tmeta_0 [simp]: "tmeta l d p 0 = {}"
  by (cases l) (simp_all add: tmeta_Suc)

lemma tree_ok_0 [simp]: "tree_ok l d p 0 \<longleftrightarrow> p = EOF"
  by (cases l) (simp_all add: tree_ok_Suc)

lemma fset_0 [simp]: "fset l d ps 0 = {}"
  by (simp add: fset_def)

lemma tree_ok_le: "tree_ok l d p n \<Longrightarrow> n \<le> 512 ^ l"
  by (cases l) (simp_all add: tree_ok_Suc)

lemma tree_ok_root: "tree_ok l d p n \<Longrightarrow> 0 < n \<Longrightarrow> data_block d p \<and> p \<in> tset l d p n"
  by (cases l) (auto simp: tree_ok_Suc tset_Suc)

lemma tmeta_subset: "tmeta l d p n \<subseteq> tset l d p n"
proof (induction l arbitrary: p n)
  case (Suc l)
  then have "fmeta l d (ind d p) n \<subseteq> fset l d (ind d p) n"
    unfolding fmeta_def fset_def by (intro UN_mono order_refl)
  then show ?case
    by (auto simp: tmeta_Suc tset_Suc)
qed simp

lemma fmeta_subset: "fmeta l d ps n \<subseteq> fset l d ps n"
  using tmeta_subset by (fastforce simp: fmeta_def fset_def)

lemma tset_data: "tree_ok l d p n \<Longrightarrow> b \<in> tset l d p n \<Longrightarrow> data_block d b"
proof (induction l arbitrary: p n)
  case (Suc l)
  then show ?case
    by (auto simp: tree_ok_Suc tset_Suc forest_ok_def fset_def split: if_splits)
qed (auto split: if_splits)

lemma tget_in_tset: "tree_ok l d p n \<Longrightarrow> k < n \<Longrightarrow> tget l d p k \<in> tset l d p n"
proof (induction l arbitrary: p n k)
  case (Suc l)
  then have n: "n \<le> 512 ^ Suc l" and ok: "forest_ok l d (ind d p) n" "n \<noteq> 0"
    by (auto simp: tree_ok_Suc split: if_splits)
  note k = child_index [OF Suc.prems(2) n]
  have "tget (Suc l) d p k \<in> tset l d (ind d p ! (k div 512 ^ l)) (child_n l n (k div 512 ^ l))"
    using Suc.IH [of "ind d p ! (k div 512 ^ l)"] ok(1) k by (simp add: forest_ok_def)
  then show ?case
    using ok(2) k(1) by (auto simp: tset_Suc fset_def)
qed simp

lemma tget_inject:
  "tree_ok l d p n \<Longrightarrow> j < n \<Longrightarrow> k < n \<Longrightarrow> tget l d p j = tget l d p k \<Longrightarrow> j = k"
proof (induction l arbitrary: p n j k)
  case (Suc l)
  let ?s = "512 ^ l :: nat"
  have n: "n \<le> 512 ^ Suc l" and ok: "forest_ok l d (ind d p) n"
    using Suc.prems by (auto simp: tree_ok_Suc split: if_splits)
  note j = child_index [OF Suc.prems(2) n] and k = child_index [OF Suc.prems(3) n]
  have tj: "tget l d (ind d p ! (j div ?s)) (j mod ?s) \<in> tset l d (ind d p ! (j div ?s)) (child_n l n (j div ?s))"
    and tk: "tget l d (ind d p ! (k div ?s)) (k mod ?s) \<in> tset l d (ind d p ! (k div ?s)) (child_n l n (k div ?s))"
    using ok j k by (auto simp: forest_ok_def intro: tget_in_tset)
  have "j div ?s = k div ?s"
    using ok j(1) k(1) tj tk Suc.prems(4) by (auto simp: forest_ok_def)
  moreover from this have "j mod ?s = k mod ?s"
    using Suc.IH [of "ind d p ! (j div ?s)" "child_n l n (j div ?s)" "j mod ?s" "k mod ?s"] ok j k Suc.prems(4)
    by (auto simp: forest_ok_def)
  ultimately show ?case
    by (metis div_mult_mod_eq)
qed simp

lemma finite_tset [simp]: "finite (tset l d p n)"
  by (induction l arbitrary: p n) (auto simp: tset_Suc fset_def)

lemma finite_fset [simp]: "finite (fset l d ps n)"
  by (simp add: fset_def)

section \<open>A tree depends on its indirect blocks only\<close>

lemma tree_cong:
  assumes "\<And>c. c \<in> tmeta l d p n \<Longrightarrow> blk d' c = blk d c"
  shows "tset l d' p n = tset l d p n" "tmeta l d' p n = tmeta l d p n"
    "n \<le> 512 ^ l \<Longrightarrow> k < n \<Longrightarrow> tget l d' p k = tget l d p k"
    "data_block d' = data_block d \<Longrightarrow> tree_ok l d' p n = tree_ok l d p n"
proof -
  have "tset l d' p n = tset l d p n \<and> tmeta l d' p n = tmeta l d p n \<and>
      (n \<le> 512 ^ l \<longrightarrow> (\<forall>k < n. tget l d' p k = tget l d p k)) \<and>
      (data_block d' = data_block d \<longrightarrow> tree_ok l d' p n = tree_ok l d p n)"
    using assms
  proof (induction l arbitrary: p n)
    case (Suc l)
    show ?case
    proof (cases "n = 0")
      case False
      have ind: "ind d' p = ind d p"
        using Suc.prems [of p] False by (simp add: tmeta_Suc ind_def)
      have IH: "tset l d' (ind d p ! i) (child_n l n i) = tset l d (ind d p ! i) (child_n l n i) \<and>
          tmeta l d' (ind d p ! i) (child_n l n i) = tmeta l d (ind d p ! i) (child_n l n i) \<and>
          (\<forall>k < child_n l n i. tget l d' (ind d p ! i) k = tget l d (ind d p ! i) k) \<and>
          (data_block d' = data_block d \<longrightarrow>
            tree_ok l d' (ind d p ! i) (child_n l n i) = tree_ok l d (ind d p ! i) (child_n l n i))"
        if "i < 512" for i
        using Suc.IH [of "ind d p ! i" "child_n l n i"] Suc.prems that False child_n_le
        by (auto simp: tmeta_Suc fmeta_def)
      have "fset l d' (ind d p) n = fset l d (ind d p) n" "fmeta l d' (ind d p) n = fmeta l d (ind d p) n"
        using IH by (auto simp: fset_def fmeta_def)
      moreover have "data_block d' = data_block d \<Longrightarrow> forest_ok l d' (ind d p) n = forest_ok l d (ind d p) n"
        using IH by (simp add: forest_ok_def)
      moreover have "tget (Suc l) d' p k = tget (Suc l) d p k" if "n \<le> 512 ^ Suc l" "k < n" for k
        using child_index [OF that(2,1)] IH by (simp add: ind)
      ultimately show ?thesis
        by (simp add: tset_Suc tmeta_Suc tree_ok_Suc ind)
    qed simp
  qed simp
  then show "tset l d' p n = tset l d p n" "tmeta l d' p n = tmeta l d p n"
    "n \<le> 512 ^ l \<Longrightarrow> k < n \<Longrightarrow> tget l d' p k = tget l d p k"
    "data_block d' = data_block d \<Longrightarrow> tree_ok l d' p n = tree_ok l d p n"
    by simp_all
qed

end
