(* ===== verification/Tree_Forest.thy ===== *)
theory Tree_Forest
  imports Tree_Rep
begin

text \<open>
  One child of an indirect block changes, the others stay: what the loops of the three
  tree routines need at each step, and how many blocks a tree has.
\<close>

section \<open>Replacing one child\<close>

text \<open>
  \<open>N\<close> trees side by side, tree \<open>i\<close> of level \<open>lev i\<close> with \<open>c i\<close> data blocks: the
  children of a block, or the slots of an inode.
\<close>

definition gforest :: "nat \<Rightarrow> (nat \<Rightarrow> nat) \<Rightarrow> 'x disk_t_scheme \<Rightarrow> blockno list \<Rightarrow> (nat \<Rightarrow> nat) \<Rightarrow> bool" where
  "gforest N lev d ps c \<longleftrightarrow> (\<forall>i < N. tree_ok (lev i) d (ps ! i) (c i)) \<and>
    (\<forall>i < N. \<forall>j < N. i \<noteq> j \<longrightarrow> tset (lev i) d (ps ! i) (c i) \<inter> tset (lev j) d (ps ! j) (c j) = {})"

definition gset :: "nat \<Rightarrow> (nat \<Rightarrow> nat) \<Rightarrow> 'x disk_t_scheme \<Rightarrow> blockno list \<Rightarrow> (nat \<Rightarrow> nat) \<Rightarrow> blockno set" where
  "gset N lev d ps c = (\<Union>i<N. tset (lev i) d (ps ! i) (c i))"

definition gmeta :: "nat \<Rightarrow> (nat \<Rightarrow> nat) \<Rightarrow> 'x disk_t_scheme \<Rightarrow> blockno list \<Rightarrow> (nat \<Rightarrow> nat) \<Rightarrow> blockno set" where
  "gmeta N lev d ps c = (\<Union>i<N. tmeta (lev i) d (ps ! i) (c i))"

definition others :: "nat \<Rightarrow> (nat \<Rightarrow> nat) \<Rightarrow> 'x disk_t_scheme \<Rightarrow> blockno list \<Rightarrow> (nat \<Rightarrow> nat) \<Rightarrow> nat \<Rightarrow> blockno set" where
  "others N lev d ps c i = (\<Union>j \<in> {..<N} - {i}. tset (lev j) d (ps ! j) (c j))"

abbreviation cforest :: "nat \<Rightarrow> 'x disk_t_scheme \<Rightarrow> blockno list \<Rightarrow> (nat \<Rightarrow> nat) \<Rightarrow> bool" where
  "cforest l \<equiv> gforest 512 (\<lambda>_. l)"

abbreviation cset :: "nat \<Rightarrow> 'x disk_t_scheme \<Rightarrow> blockno list \<Rightarrow> (nat \<Rightarrow> nat) \<Rightarrow> blockno set" where
  "cset l \<equiv> gset 512 (\<lambda>_. l)"

abbreviation cmeta :: "nat \<Rightarrow> 'x disk_t_scheme \<Rightarrow> blockno list \<Rightarrow> (nat \<Rightarrow> nat) \<Rightarrow> blockno set" where
  "cmeta l \<equiv> gmeta 512 (\<lambda>_. l)"

lemma cforest_child_n:
  "cforest l d ps (child_n l n) = forest_ok l d ps n" "cset l d ps (child_n l n) = fset l d ps n"
  "cmeta l d ps (child_n l n) = fmeta l d ps n"
  by (simp_all add: gforest_def forest_ok_def gset_def fset_def gmeta_def fmeta_def)

lemma gforest_cong_count:
  assumes "\<And>i. i < N \<Longrightarrow> c i = c' i"
  shows "gforest N lev d ps c = gforest N lev d ps c'" "gset N lev d ps c = gset N lev d ps c'"
    "gmeta N lev d ps c = gmeta N lev d ps c'"
  using assms by (simp_all add: gforest_def gset_def gmeta_def)

lemma gset_split: "i < N \<Longrightarrow> gset N lev d ps c = others N lev d ps c i \<union> tset (lev i) d (ps ! i) (c i)"
  by (auto simp: gset_def others_def)

lemma gmeta_subset: "gmeta N lev d ps c \<subseteq> gset N lev d ps c"
  using tmeta_subset by (fastforce simp: gmeta_def gset_def)

lemma gforest_child:
  assumes "gforest N lev d ps c" and "i < N"
  shows "tree_ok (lev i) d (ps ! i) (c i)" "tset (lev i) d (ps ! i) (c i) \<inter> others N lev d ps c i = {}"
    "tmeta (lev i) d (ps ! i) (c i) \<subseteq> gmeta N lev d ps c"
  using assms by (auto simp: gforest_def others_def gmeta_def)

lemma gforest_data: "gforest N lev d ps c \<Longrightarrow> b \<in> gset N lev d ps c \<Longrightarrow> data_block d b"
  using tset_data by (fastforce simp: gforest_def gset_def)

lemmas fset_split = gset_split [of _ 512 "\<lambda>_. l" d ps "child_n l n" for l d ps n, unfolded cforest_child_n]
lemmas forest_child = gforest_child [of 512 "\<lambda>_. l" d ps "child_n l n" for l d ps n, unfolded cforest_child_n]
lemmas forest_data = gforest_data [of 512 "\<lambda>_. l" d ps "child_n l n" for l d ps n, unfolded cforest_child_n]

lemma gforest_update:
  assumes ok: "gforest N lev d ps c" and len: "length ps = N" and i: "i < N"
    and data: "data_block d' = data_block d"
    and frame: "\<And>b. b \<in> others N lev d ps c i \<Longrightarrow> blk d' b = blk d b"
    and child: "tree_ok (lev i) d' p' n'" and disj: "tset (lev i) d' p' n' \<inter> others N lev d ps c i = {}"
  shows "gforest N lev d' (ps[i := p']) (c(i := n'))"
    and "gset N lev d' (ps[i := p']) (c(i := n')) = others N lev d ps c i \<union> tset (lev i) d' p' n'"
    and "\<forall>j k. j < N \<longrightarrow> j \<noteq> i \<longrightarrow> k < c j \<longrightarrow> tget (lev j) d' (ps[i := p'] ! j) k = tget (lev j) d (ps ! j) k"
    and "gmeta N lev d' (ps[i := p']) (c(i := n')) \<subseteq> gmeta N lev d ps c \<union> tmeta (lev i) d' p' n'"
proof -
  have keep: "blk d' b = blk d b" if "j < N" "j \<noteq> i" "b \<in> tmeta (lev j) d (ps ! j) (c j)" for j b
  proof (rule frame)
    show "b \<in> others N lev d ps c i"
      using that subsetD [OF tmeta_subset that(3)] by (auto simp: others_def)
  qed
  have same: "tset (lev j) d' (ps ! j) (c j) = tset (lev j) d (ps ! j) (c j)"
      "tree_ok (lev j) d' (ps ! j) (c j)" "c j \<le> 512 ^ lev j" if "j < N" "j \<noteq> i" for j
    using tree_cong [OF keep [OF that]] gforest_child(1) [OF ok that(1)] tree_ok_le data by auto
  show "\<forall>j k. j < N \<longrightarrow> j \<noteq> i \<longrightarrow> k < c j \<longrightarrow> tget (lev j) d' (ps[i := p'] ! j) k = tget (lev j) d (ps ! j) k"
    using tree_cong(3) [OF keep] same(3) by simp
  have "tmeta (lev j) d' (ps[i := p'] ! j) ((c(i := n')) j) \<subseteq> gmeta N lev d ps c \<union> tmeta (lev i) d' p' n'" if "j < N" for j
    using tree_cong(2) [OF keep [OF that]] that len by (cases "j = i") (auto simp: gmeta_def)
  then show "gmeta N lev d' (ps[i := p']) (c(i := n')) \<subseteq> gmeta N lev d ps c \<union> tmeta (lev i) d' p' n'"
    by (auto simp: gmeta_def [of N lev d'])
  have "others N lev d' (ps[i := p']) (c(i := n')) i = others N lev d ps c i"
    using same(1) by (auto simp: others_def)
  then show "gset N lev d' (ps[i := p']) (c(i := n')) = others N lev d ps c i \<union> tset (lev i) d' p' n'"
    using gset_split [OF i, of lev d' "ps[i := p']" "c(i := n')"] len i by simp
  have sub: "tset (lev j) d (ps ! j) (c j) \<subseteq> others N lev d ps c i" if "j < N" "j \<noteq> i" for j
    using that by (auto simp: others_def)
  show "gforest N lev d' (ps[i := p']) (c(i := n'))"
    unfolding gforest_def
  proof (intro conjI allI impI)
    fix j :: nat assume "j < N"
    then show "tree_ok (lev j) d' (ps[i := p'] ! j) ((c(i := n')) j)"
      using same(2) child len by (cases "j = i") auto
    fix k assume k: "(k :: nat) < N" "j \<noteq> k"
    let ?T = "\<lambda>j. tset (lev j) d' (ps[i := p'] ! j) ((c(i := n')) j)"
    have T: "?T j = (if j = i then tset (lev i) d' p' n' else tset (lev j) d (ps ! j) (c j))" if "j < N" for j
      using that same(1) len by auto
    show "?T j \<inter> ?T k = {}"
      using T \<open>j < N\<close> k sub disj ok unfolding gforest_def by auto blast+
  qed
qed

lemma gforest_cong:
  assumes "\<And>b. b \<in> gmeta N lev d ps c \<Longrightarrow> blk d' b = blk d b" and le: "\<And>i. i < N \<Longrightarrow> c i \<le> 512 ^ lev i"
  shows "gset N lev d' ps c = gset N lev d ps c"
    "data_block d' = data_block d \<Longrightarrow> gforest N lev d' ps c = gforest N lev d ps c"
    "j < N \<Longrightarrow> k < c j \<Longrightarrow> tget (lev j) d' (ps ! j) k = tget (lev j) d (ps ! j) k"
    "gmeta N lev d' ps c = gmeta N lev d ps c"
proof -
  have keep: "\<And>b. b \<in> tmeta (lev j) d (ps ! j) (c j) \<Longrightarrow> blk d' b = blk d b" if "j < N" for j
    using assms(1) that by (auto simp: gmeta_def)
  have "\<forall>j < N. tset (lev j) d' (ps ! j) (c j) = tset (lev j) d (ps ! j) (c j)"
    using tree_cong(1) keep by blast
  then show "gset N lev d' ps c = gset N lev d ps c"
      "data_block d' = data_block d \<Longrightarrow> gforest N lev d' ps c = gforest N lev d ps c"
    using tree_cong(4) [OF keep] by (auto simp: gset_def gforest_def)
  show "gmeta N lev d' ps c = gmeta N lev d ps c"
    using tree_cong(2) [OF keep] by (auto simp: gmeta_def)
  show "j < N \<Longrightarrow> k < c j \<Longrightarrow> tget (lev j) d' (ps ! j) k = tget (lev j) d (ps ! j) k"
    using tree_cong(3) [OF keep le] by simp
qed

lemma forest_cong:
  assumes "\<And>c. c \<in> fmeta l d ps n \<Longrightarrow> blk d' c = blk d c"
  shows "fset l d' ps n = fset l d ps n"
    "data_block d' = data_block d \<Longrightarrow> forest_ok l d' ps n = forest_ok l d ps n"
    "j < 512 \<Longrightarrow> k < child_n l n j \<Longrightarrow> tget l d' (ps ! j) k = tget l d (ps ! j) k"
    "fmeta l d' ps n = fmeta l d ps n"
  using gforest_cong [of 512 "\<lambda>_. l" d ps "child_n l n" d', unfolded cforest_child_n, OF assms child_n_le] by auto

text \<open>Writing the pointers of a forest into a block of its own makes it a tree.\<close>

lemma forest_store:
  assumes inv: "store_inv d F Is" and b: "data_block d b" "b \<notin> F" "b \<notin> fset l d ps n"
    and forest: "forest_ok l d ps n" "length ps = 512" and n: "0 < n" "n \<le> 512 ^ Suc l"
  defines "d' \<equiv> upd_blk d b (enc_words ps)"
  shows "disk_write d b (enc_words ps) = Some d'" "store_inv d' F Is" "framed {b} d d'"
    "tree_ok (Suc l) d' b n" "tset (Suc l) d' b n = insert b (fset l d ps n)"
    "tmeta (Suc l) d' b n = insert b (fmeta l d ps n)"
    "k < n \<Longrightarrow> tget (Suc l) d' b k = tget l d (ps ! (k div 512 ^ l)) (k mod 512 ^ l)"
proof -
  have ok: "words_ok ps"
    using forest(2) by (simp add: words_ok_def)
  then have len: "length (enc_words ps) = BLOCKSIZE"
    by simp
  note upd = store_inv_upd_blk [OF inv b(1,2) len, folded d'_def]
  then show "disk_write d b (enc_words ps) = Some d'" "store_inv d' F Is" "framed {b} d d'"
    by simp_all
  have ind: "ind d' b = ps"
    using ok len by (simp add: ind_def d'_def)
  have keep: "blk d' c = blk d c" if "c \<in> fmeta l d ps n" for c
    using that b(3) subsetD [OF fmeta_subset that] len by (auto simp: d'_def)
  note cong = forest_cong [OF keep]
  have data: "data_block d' = data_block d"
    by (rule framed_dev(5) [OF upd(3)])
  show "tree_ok (Suc l) d' b n" "tset (Suc l) d' b n = insert b (fset l d ps n)"
    "tmeta (Suc l) d' b n = insert b (fmeta l d ps n)"
    using n b forest cong data by (simp_all add: tree_ok_Suc tset_Suc tmeta_Suc ind)
  show "k < n \<Longrightarrow> tget (Suc l) d' b k = tget l d (ps ! (k div 512 ^ l)) (k mod 512 ^ l)"
    using cong(3) child_index [of k n l] n(2) by (simp add: ind)
qed

section \<open>How many blocks a tree has\<close>

primrec tcount :: "nat \<Rightarrow> nat \<Rightarrow> nat" where
  "tcount 0 n = n"
| "tcount (Suc l) n = (if n = 0 then 0 else 1 + (\<Sum>i<512. tcount l (child_n l n i)))"

definition fcount :: "nat \<Rightarrow> nat \<Rightarrow> nat" where
  "fcount l n = (\<Sum>i<512. tcount l (child_n l n i))"

lemma tcount_0 [simp]: "tcount l 0 = 0"
  by (cases l) simp_all

lemma tcount_Suc: "tcount (Suc l) n = (if n = 0 then 0 else 1 + fcount l n)"
  by (simp add: fcount_def)

declare tcount.simps(2) [simp del]

lemma tcount_mono: "n \<le> n' \<Longrightarrow> tcount l n \<le> tcount l n'"
proof (induction l arbitrary: n n')
  case (Suc l)
  have "(\<Sum>i<512. tcount l (child_n l n i)) \<le> (\<Sum>i<512. tcount l (child_n l n' i))"
    using Suc by (intro sum_mono) (simp add: child_n_mono)
  then show ?case
    using Suc.prems by (simp add: tcount_Suc fcount_def)
qed simp

lemma card_fset_aux:
  assumes "forest_ok l d ps n" and "\<And>i. i < 512 \<Longrightarrow> card (tset l d (ps ! i) (child_n l n i)) = tcount l (child_n l n i)"
  shows "card (fset l d ps n) = fcount l n"
  using assms unfolding fset_def fcount_def by (subst card_UN_disjoint) (auto simp: forest_ok_def)

lemma card_tset: "tree_ok l d p n \<Longrightarrow> card (tset l d p n) = tcount l n"
proof (induction l arbitrary: p n)
  case (Suc l)
  show ?case
  proof (cases "n = 0")
    case False
    then have ok: "forest_ok l d (ind d p) n" "p \<notin> fset l d (ind d p) n"
      using Suc.prems by (simp_all add: tree_ok_Suc)
    then have "card (fset l d (ind d p) n) = fcount l n"
      using Suc.IH by (intro card_fset_aux) (auto simp: forest_ok_def)
    then show ?thesis
      using False ok(2) by (simp add: tset_Suc tcount_Suc)
  qed simp
qed (auto split: if_splits)

lemma card_fset: "forest_ok l d ps n \<Longrightarrow> card (fset l d ps n) = fcount l n"
  by (intro card_fset_aux) (auto simp: forest_ok_def card_tset)

lemma fcount_add:
  assumes "m mod 512 ^ l + a \<le> 512 ^ l" and "m div 512 ^ l < 512"
  shows "fcount l (m + a) + tcount l (m mod 512 ^ l) = fcount l m + tcount l (m mod 512 ^ l + a)"
proof -
  let ?i = "m div 512 ^ l"
  have split: "fcount l x = tcount l (child_n l x ?i) + (\<Sum>j \<in> {..<512} - {?i}. tcount l (child_n l x j))" for x
    unfolding fcount_def using assms(2) by (intro sum.remove) auto
  have "(\<Sum>j \<in> {..<512} - {?i}. tcount l (child_n l (m + a) j)) = (\<Sum>j \<in> {..<512} - {?i}. tcount l (child_n l m j))"
    using child_n_add [OF assms(1)] by (intro sum.cong) auto
  then show ?thesis
    using split [of "m + a"] split [of m] child_n_add [OF assms(1), of ?i] child_n_current [of l m] by simp
qed

lemma fcount_mono: "n \<le> n' \<Longrightarrow> fcount l n \<le> fcount l n'"
  unfolding fcount_def by (intro sum_mono tcount_mono child_n_mono)

end
