(* ===== verification/Tree_Range.thy ===== *)
theory Tree_Range
  imports Tree_Forest
begin

text \<open>
  Which part of a file's block range lies under one block slot or one child of an indirect
  block, and the index arithmetic with which the three tree routines find the children
  concerned.
\<close>

section \<open>The part of a range that a slot or a child covers\<close>

definition clampn :: "nat \<Rightarrow> int \<Rightarrow> int \<Rightarrow> nat" where
  "clampn l cur x = nat (min (512 ^ l) (max 0 (x - cur)))"

lemma clampn_le: "clampn l cur x \<le> 512 ^ l"
  by (simp add: clampn_def nat_le_iff)

lemma int_clampn: "int (clampn l cur x) = min (512 ^ l) (max 0 (x - cur))"
  by (simp add: clampn_def)

lemma clamp_shift:
  assumes "0 \<le> (a :: int)" and "a + s \<le> t" and "0 \<le> s"
  shows "min s (max 0 (u - a)) = min s (max 0 (min t (max 0 u) - a))"
  using assms by linarith

lemma clampn_child:
  assumes "i < 512"
  shows "clampn l (cur + 512 ^ l * int i) x = child_n l (clampn (Suc l) cur x) i"
proof -
  define s where "s = (512 :: int) ^ l"
  have s: "0 < s" "int (512 ^ l) = s"
    by (simp_all add: s_def)
  have i: "0 \<le> s * int i" "s * int i + s \<le> 512 * s"
    using assms mult_left_mono [of "int i + 1" 512 s] s(1) by (simp_all add: algebra_simps)
  have sub: "int (a - b) = max 0 (int a - int b)" for a b
    by simp
  have "int (clampn l (cur + s * int i) x) = min s (max 0 ((x - cur) - s * int i))"
    by (simp add: int_clampn s_def algebra_simps)
  also have "\<dots> = min s (max 0 (min (512 * s) (max 0 (x - cur)) - s * int i))"
    using clamp_shift [OF i] s(1) by simp
  also have "\<dots> = int (child_n l (clampn (Suc l) cur x) i)"
    using s(2) by (simp add: child_n_def of_nat_min sub int_clampn s_def mult.commute del: of_nat_diff)
  finally show ?thesis
    by (simp add: s_def)
qed

text \<open>The index arithmetic the three routines share.\<close>

lemma index_low:
  assumes "clampn (Suc l) cur x < 512 ^ Suc l"
  shows "(if cur < x then (x - cur) sdiv 512 ^ l else 0) = int (clampn (Suc l) cur x div 512 ^ l)"
proof -
  have "int (clampn (Suc l) cur x) = max 0 (x - cur)"
  proof -
    have "int (clampn (Suc l) cur x) < int (512 ^ Suc l)"
      using assms by (simp only: of_nat_less_iff)
    moreover have "int (clampn (Suc l) cur x) = min (int (512 ^ Suc l)) (max 0 (x - cur))"
      by (simp add: int_clampn)
    ultimately show ?thesis
      by linarith
  qed
  then show ?thesis
    by (simp add: sdiv_nonneg zdiv_int)
qed

lemma index_high:
  assumes "0 < clampn (Suc l) cur x"
  shows "511 - (if x < cur + 512 * 512 ^ l then (cur + 512 * 512 ^ l - x) sdiv 512 ^ l else 0) =
    int ((clampn (Suc l) cur x - 1) div 512 ^ l)"
proof -
  define s where "s = (512 :: int) ^ l"
  have s: "0 < s" by (simp add: s_def)
  have n: "int (clampn (Suc l) cur x) = min (512 * s) (x - cur)" "0 < x - cur"
    using assms s by (auto simp: clampn_def s_def)
  have one: "int (clampn (Suc l) cur x - 1) = min (512 * s) (x - cur) - 1"
    using n assms by linarith
  have q: "(k * s - 1) div s = k - 1" for k
  proof -
    have "(k * s - 1) div s = ((s - 1) + (k - 1) * s) div s"
      by (simp add: algebra_simps)
    then show ?thesis
      using s by (simp add: div_pos_pos_trivial)
  qed
  show ?thesis
  proof (cases "x < cur + 512 * s")
    case True
    let ?y = "x - cur"
    have "(cur + 512 * s - x) div s = (- ?y + 512 * s) div s"
      by (simp add: algebra_simps)
    also have "\<dots> = 512 + (- ?y) div s"
      using s by simp
    finally have "(cur + 512 * s - x) div s = 512 + (- ?y) div s" .
    moreover have "(- ?y) div s = - 1 - (?y - 1) div s"
    proof -
      define k r where "k = (?y - 1) div s" and "r = (?y - 1) mod s"
      have y: "?y = k * s + r + 1" and r: "0 \<le> r" "r < s"
        using div_mult_mod_eq [of "?y - 1" s] s unfolding k_def r_def by simp_all
      have "- ?y = (s - 1 - r) + (- 1 - k) * s"
        unfolding y by (simp add: algebra_simps)
      then have "(- ?y) div s = - 1 - k"
        using s r by (simp add: div_pos_pos_trivial)
      then show ?thesis
        unfolding k_def .
    qed
    moreover have "0 \<le> cur + 512 * s - x"
      using True by simp
    ultimately show ?thesis
      using True one s by (simp add: sdiv_nonneg zdiv_int flip: s_def)
  next
    case False
    then show ?thesis
      using one q [of 512] by (simp add: zdiv_int flip: s_def)
  qed
qed

section \<open>Which children two counts differ in\<close>

lemma child_n_cut:
  assumes "n' < n"
  shows "n' div 512 ^ l \<le> i \<Longrightarrow> i \<le> (n - 1) div 512 ^ l \<Longrightarrow> child_n l n' i < child_n l n i"
    and "\<not> (n' div 512 ^ l \<le> i \<and> i \<le> (n - 1) div 512 ^ l) \<Longrightarrow> child_n l n' i = child_n l n i"
proof -
  define s where "s = (512 :: nat) ^ l"
  have s: "0 < s" by (simp add: s_def)
  have low: "n' div s \<le> i \<longleftrightarrow> n' < Suc i * s"
    using s div_less_iff_less_mult [of s n' "Suc i"] by (simp only: less_Suc_eq_le)
  have high: "i \<le> (n - 1) div s \<longleftrightarrow> i * s \<le> n - 1"
    using s by (rule less_eq_div_iff_mult_less_eq)
  show "n' div 512 ^ l \<le> i \<Longrightarrow> i \<le> (n - 1) div 512 ^ l \<Longrightarrow> child_n l n' i < child_n l n i"
    unfolding child_n_def s_def [symmetric] low high using assms s by auto
  show "\<not> (n' div 512 ^ l \<le> i \<and> i \<le> (n - 1) div 512 ^ l) \<Longrightarrow> child_n l n' i = child_n l n i"
    unfolding child_n_def s_def [symmetric] low high using assms s by auto
qed

lemma sum_child_n: "n \<le> 512 ^ Suc l \<Longrightarrow> (\<Sum>i<512. child_n l n i) = n"
proof -
  have "(\<Sum>i<k. child_n l n i) = min n (k * 512 ^ l)" for k
  proof (induction k)
    case (Suc k)
    have "min n a + min s (n - a) = min n (s + a)" for a s :: nat
      by linarith
    then show ?case
      using Suc by (simp add: child_n_def)
  qed simp
  then show "n \<le> 512 ^ Suc l \<Longrightarrow> (\<Sum>i<512. child_n l n i) = n"
    by simp
qed

end
