(* ===== verification/Tree_Grow.thy ===== *)
theory Tree_Grow
  imports Tree_Range
begin

text \<open>
  \<open>inode_indirect_grow\<close> meets its contract: it extends a tree from \<open>n\<close> to \<open>n'\<close> data
  blocks if the disk has the blocks that takes and leaves a well-formed shorter tree if it has
  not.  One case is excluded by the hypothesis \<open>safe\<close>: the source frees a doubly (or triply)
  indirect block that already holds data when the very first allocation under it fails.
\<close>

section \<open>The contract\<close>

fun safe :: "nat \<Rightarrow> nat \<Rightarrow> bool" where
  "safe (Suc (Suc l)) n \<longleftrightarrow> \<not> (0 < n \<and> n < 512 ^ Suc l) \<and> safe (Suc l) (n mod 512 ^ Suc l)"
| "safe _ n \<longleftrightarrow> True"

lemma safe_0 [simp]: "safe l 0"
  by (induction l "0 :: nat" rule: safe.induct) simp_all

definition grow_pre :: "nat \<Rightarrow> ino list \<Rightarrow> blockno set \<Rightarrow> 'x disk_t_scheme \<Rightarrow> blockno \<Rightarrow> nat \<Rightarrow> nat \<Rightarrow> bool" where
  "grow_pre l Is F d p n n' \<longleftrightarrow> store_inv d F Is \<and> tree_ok l d p n \<and> tset l d p n \<inter> F = {} \<and>
     n < n' \<and> n' \<le> 512 ^ l \<and> (safe l n \<or> tcount l n' \<le> tcount l n + card F)"

definition grow_post :: "nat \<Rightarrow> ino list \<Rightarrow> blockno set \<Rightarrow> 'x disk_t_scheme \<Rightarrow> blockno \<Rightarrow> nat \<Rightarrow> nat \<Rightarrow>
    (bool \<times> blockno \<times> int \<times> 'x disk_t_scheme) option \<Rightarrow> bool" where
  "grow_post l Is F d p n n' res \<longleftrightarrow> (\<exists>ok p' a d' F'. res = Some (ok, p', int a, d') \<and>
     ok = (tcount l n' \<le> tcount l n + card F) \<and> (if ok then a = n' - n else a < n' - n) \<and>
     store_inv d' F' Is \<and> framed (insert 0 (F \<union> tmeta l d p n)) d d' \<and> F' \<subseteq> F \<and>
     tree_ok l d' p' (n + a) \<and> tset l d' p' (n + a) = tset l d p n \<union> (F - F') \<and>
     tmeta l d' p' (n + a) \<subseteq> tmeta l d p n \<union> F \<and> (\<forall>k < n. tget l d' p' k = tget l d p k))"

definition forest_post :: "nat \<Rightarrow> ino list \<Rightarrow> blockno set \<Rightarrow> 'x disk_t_scheme \<Rightarrow> blockno list \<Rightarrow> nat \<Rightarrow> nat \<Rightarrow> int \<Rightarrow>
    (bool \<times> blockno list \<times> int \<times> 'x disk_t_scheme) option \<Rightarrow> bool" where
  "forest_post l Is F d ps m n' t res \<longleftrightarrow> (\<exists>ok ps' a d' F'. res = Some (ok, ps', t + int a, d') \<and>
     ok = (fcount l n' \<le> fcount l m + card F) \<and> (if ok then a = n' - m else a < n' - m) \<and>
     store_inv d' F' Is \<and> framed (insert 0 (F \<union> fmeta l d ps m)) d d' \<and> F' \<subseteq> F \<and> length ps' = 512 \<and>
     forest_ok l d' ps' (m + a) \<and> fset l d' ps' (m + a) = fset l d ps m \<union> (F - F') \<and>
     fmeta l d' ps' (m + a) \<subseteq> fmeta l d ps m \<union> F \<and>
     (\<forall>j k. j < 512 \<longrightarrow> k < child_n l m j \<longrightarrow> tget l d' (ps' ! j) k = tget l d (ps ! j) k))"

section \<open>The loop over the children\<close>

text \<open>Child \<open>i\<close> is the one that block \<open>m\<close> belongs to: growing it to its share of \<open>n'\<close>
  makes \<open>m + a\<close> blocks of \<open>m\<close>.\<close>

lemma child_room:
  assumes "m < n'"
  shows "child_n l n' (m div 512 ^ l) = min (512 ^ l) (n' - m + m mod 512 ^ l)"
    "m mod 512 ^ l < child_n l n' (m div 512 ^ l)"
proof -
  define s where "s = (512 :: nat) ^ l"
  have "m = m div s * s + m mod s" "m mod s < s"
    by (simp_all only: div_mult_mod_eq) (simp add: s_def)
  then have "n' - m div s * s = n' - m + m mod s"
    using assms by linarith
  then show "child_n l n' (m div 512 ^ l) = min (512 ^ l) (n' - m + m mod 512 ^ l)"
    by (simp add: child_n_def s_def)
  then show "m mod 512 ^ l < child_n l n' (m div 512 ^ l)"
    using assms \<open>m mod s < s\<close> by (simp add: s_def)
qed

lemma child_step:
  assumes "m < n'" and i: "i = m div 512 ^ l"
  shows "i \<le> (n' - 1) div 512 ^ l" "m + (child_n l n' i - child_n l m i) \<le> n'"
    "i = (n' - 1) div 512 ^ l \<Longrightarrow> m + (child_n l n' i - child_n l m i) = n'"
    "i < (n' - 1) div 512 ^ l \<Longrightarrow> m + (child_n l n' i - child_n l m i) = Suc i * 512 ^ l"
    "i < (n' - 1) div 512 ^ l \<Longrightarrow> Suc i * 512 ^ l < n'"
proof -
  define s where "s = (512 :: nat) ^ l"
  have s: "0 < s" by (simp add: s_def)
  have m: "m = i * s + m mod s" "m mod s < s"
    unfolding i s_def by (simp_all only: div_mult_mod_eq) simp
  have diff: "child_n l n' i - child_n l m i = min s (n' - m + m mod s) - m mod s"
    using child_room(1) [OF assms(1), of l] child_n_current [of l m] i by (simp add: s_def)
  show "m + (child_n l n' i - child_n l m i) \<le> n'"
    using assms(1) unfolding diff by linarith
  show "i \<le> (n' - 1) div 512 ^ l"
    using assms by (simp add: div_le_mono)
  have "n' - 1 < ((n' - 1) div s + 1) * s"
    using s by (metis add.commute dividend_less_div_times mult.commute mult_Suc_right plus_1_eq_Suc)
  then show "i = (n' - 1) div 512 ^ l \<Longrightarrow> m + (child_n l n' i - child_n l m i) = n'"
    using assms(1) m unfolding diff s_def [symmetric] by simp
  assume "i < (n' - 1) div 512 ^ l"
  then have "Suc i * s \<le> n' - 1"
    using s by (simp add: less_eq_div_iff_mult_less_eq s_def Suc_le_eq [symmetric] del: mult_Suc)
  then have le: "Suc i * s < n'"
    using assms(1) by linarith
  then show "Suc i * 512 ^ l < n'"
    by (simp add: s_def)
  show "m + (child_n l n' i - child_n l m i) = Suc i * 512 ^ l"
    using m le unfolding diff s_def [symmetric] by simp
qed

text \<open>Growing one of several trees.\<close>

lemma grow_one:
  assumes post: "grow_post (lev i) Is F d (ps ! i) (c i) c' (Some (ok, p', int a, d'))"
    and inv: "store_inv d F Is" and forest: "gforest N lev d ps c" and disj: "gset N lev d ps c \<inter> F = {}"
    and len: "length ps = N" and i: "i < N"
  obtains F' where "store_inv d' F' Is" "F' \<subseteq> F" "framed (insert 0 (F \<union> gmeta N lev d ps c)) d d'"
    "if ok then a = c' - c i else a < c' - c i"
    "ok = (tcount (lev i) c' \<le> tcount (lev i) (c i) + card F)"
    "gforest N lev d' (ps[i := p']) (c(i := c i + a))"
    "gset N lev d' (ps[i := p']) (c(i := c i + a)) = gset N lev d ps c \<union> (F - F')"
    "gmeta N lev d' (ps[i := p']) (c(i := c i + a)) \<subseteq> gmeta N lev d ps c \<union> F"
    "tcount (lev i) (c i + a) + card F' = tcount (lev i) (c i) + card F"
    "\<forall>j k. j < N \<longrightarrow> k < c j \<longrightarrow> tget (lev j) d' (ps[i := p'] ! j) k = tget (lev j) d (ps ! j) k"
proof -
  obtain F' where
    ok: "ok = (tcount (lev i) c' \<le> tcount (lev i) (c i) + card F)" and a: "if ok then a = c' - c i else a < c' - c i" and
    inv': "store_inv d' F' Is" and fr: "framed (insert 0 (F \<union> tmeta (lev i) d (ps ! i) (c i))) d d'" and F': "F' \<subseteq> F" and
    tree: "tree_ok (lev i) d' p' (c i + a)" and
    tset: "tset (lev i) d' p' (c i + a) = tset (lev i) d (ps ! i) (c i) \<union> (F - F')" and
    meta: "tmeta (lev i) d' p' (c i + a) \<subseteq> tmeta (lev i) d (ps ! i) (c i) \<union> F" and
    get: "\<forall>k < c i. tget (lev i) d' p' k = tget (lev i) d (ps ! i) k"
    using post by (auto simp: grow_post_def)
  let ?O = "others N lev d ps c i"
  note child = gforest_child [OF forest i] and split = gset_split [OF i, of lev d ps c]
  have keep: "blk d' b = blk d b" if "b \<in> ?O" for b
  proof (rule framed_blk [OF fr])
    have "b \<noteq> 0" "b \<notin> F"
      using that split disj gforest_data [OF forest, of b] zero_not_data_block by auto
    moreover have "b \<notin> tmeta (lev i) d (ps ! i) (c i)"
      using that child(2) tmeta_subset by blast
    ultimately show "b \<notin> insert 0 (F \<union> tmeta (lev i) d (ps ! i) (c i))"
      by simp
  qed
  have "tset (lev i) d' p' (c i + a) \<inter> ?O = {}"
    using child(2) split disj tset by auto
  note upd = gforest_update [OF forest len i framed_dev(5) [OF fr] keep tree this]
  have set': "gset N lev d' (ps[i := p']) (c(i := c i + a)) = gset N lev d ps c \<union> (F - F')"
    using upd(2) tset split by auto
  have fin: "finite F"
    using inv by (rule store_inv_dest(7))
  have "tset (lev i) d (ps ! i) (c i) \<inter> (F - F') = {}"
    using disj split by auto
  then have "tcount (lev i) (c i + a) = tcount (lev i) (c i) + card (F - F')"
    using card_tset [OF tree] card_tset [OF child(1)] tset fin by (simp add: card_Un_disjoint)
  then have tc: "tcount (lev i) (c i + a) + card F' = tcount (lev i) (c i) + card F"
    using fin F' card_mono [OF fin F'] by (simp add: card_Diff_subset finite_subset)
  have meta': "gmeta N lev d' (ps[i := p']) (c(i := c i + a)) \<subseteq> gmeta N lev d ps c \<union> F"
    using upd(4) meta child(3) by blast
  have get': "\<forall>j k. j < N \<longrightarrow> k < c j \<longrightarrow> tget (lev j) d' (ps[i := p'] ! j) k = tget (lev j) d (ps ! j) k"
    using upd(3) get len i by (metis nth_list_update_eq)
  have fr': "framed (insert 0 (F \<union> gmeta N lev d ps c)) d d'"
    by (rule framed_mono [OF fr]) (use child(3) in auto)
  show thesis
    by (rule that [OF inv' F' fr' a ok upd(1) set' meta' tc get'])
qed

lemma grow_child:
  assumes post: "grow_post l Is F d (ps ! i) (child_n l m i) c' (Some (ok, p', int a, d'))"
    and pre: "store_inv d F Is" and forest: "forest_ok l d ps m" and disj: "fset l d ps m \<inter> F = {}" and len: "length ps = 512"
    and i: "i = m div 512 ^ l" "i < 512" and c': "c' \<le> 512 ^ l" "child_n l m i < c'"
  obtains F' where "store_inv d' F' Is" "F' \<subseteq> F" "framed (insert 0 (F \<union> fmeta l d ps m)) d d'"
    "if ok then a = c' - child_n l m i else a < c' - child_n l m i"
    "ok = (tcount l c' \<le> tcount l (child_n l m i) + card F)"
    "forest_ok l d' (ps[i := p']) (m + a)"
    "fset l d' (ps[i := p']) (m + a) = fset l d ps m \<union> (F - F')"
    "fmeta l d' (ps[i := p']) (m + a) \<subseteq> fmeta l d ps m \<union> F"
    "fcount l (m + a) + card F' = fcount l m + card F"
    "\<forall>j k. j < 512 \<longrightarrow> k < child_n l m j \<longrightarrow> tget l d' (ps[i := p'] ! j) k = tget l d (ps ! j) k"
    "\<forall>j. j \<noteq> i \<longrightarrow> child_n l (m + a) j = child_n l m j"
proof -
  let ?c = "child_n l m i"
  have "if ok then a = c' - ?c else a < c' - ?c"
    using post by (auto simp: grow_post_def)
  then have room: "m mod 512 ^ l + a \<le> 512 ^ l"
    using c' i child_n_current [of l m] by (auto split: if_splits)
  have count: "child_n l (m + a) j = (if j = i then ?c + a else child_n l m j)" for j
    using child_n_add [OF room] i child_n_current [of l m] by simp
  have counts: "(child_n l m)(i := ?c + a) = child_n l (m + a)"
    using count by auto
  obtain F' where F': "store_inv d' F' Is" "F' \<subseteq> F" "framed (insert 0 (F \<union> fmeta l d ps m)) d d'"
    "if ok then a = c' - ?c else a < c' - ?c" "ok = (tcount l c' \<le> tcount l ?c + card F)"
    "forest_ok l d' (ps[i := p']) (m + a)" "fset l d' (ps[i := p']) (m + a) = fset l d ps m \<union> (F - F')"
    "fmeta l d' (ps[i := p']) (m + a) \<subseteq> fmeta l d ps m \<union> F" and tc: "tcount l (?c + a) + card F' = tcount l ?c + card F" and
    get: "\<forall>j k. j < 512 \<longrightarrow> k < child_n l m j \<longrightarrow> tget l d' (ps[i := p'] ! j) k = tget l d (ps ! j) k"
    by (rule grow_one [of "\<lambda>_. l" i Is F d ps "child_n l m" c' ok p' a d' 512, unfolded counts cforest_child_n,
          OF post pre forest disj len i(2)])
  have "fcount l (m + a) + tcount l ?c = fcount l m + tcount l (?c + a)"
    using fcount_add [OF room] i child_n_current [of l m] by simp
  then have fc: "fcount l (m + a) + card F' = fcount l m + card F"
    using tc by linarith
  have "\<forall>j. j \<noteq> i \<longrightarrow> child_n l (m + a) j = child_n l m j"
    using count by simp
  then show thesis
    by (rule that [OF F' fc get])
qed

text \<open>The function the loop calls is any \<open>f\<close> that grows a child as the contract says.\<close>

lemma grow_loop_spec:
  assumes f: "\<And>F d p j. i \<le> j \<Longrightarrow> j \<le> (n' - 1) div 512 ^ l \<Longrightarrow>
      grow_pre l Is F d p (child_n l n j) (child_n l n' j) \<Longrightarrow>
      grow_post l Is F d p (child_n l n j) (child_n l n' j) (f d p (int j))"
    and n': "n' \<le> 512 ^ Suc l"
    and "store_inv d F Is" and "forest_ok l d ps m" and "fset l d ps m \<inter> F = {}" and "length ps = 512"
    and "m < n'" and "i = m div 512 ^ l" and "\<forall>j \<ge> i. child_n l n j = child_n l m j"
    and "safe l (child_n l m i) \<or> fcount l n' \<le> fcount l m + card F"
  shows "forest_post l Is F d ps m n' t (grow_loop f [int i..int ((n' - 1) div 512 ^ l)] ps t d)"
  using assms(1,3-)
proof (induction "n' - m" arbitrary: i d F ps m t rule: less_induct)
  case less
  note prems = less.prems
  let ?e = "(n' - 1) div 512 ^ l" and ?c = "child_n l m i" and ?c' = "child_n l n' i"
  note step = child_step [OF prems(6) prems(7)]
  have i: "i \<le> ?e" "i < 512"
    using step(1) child_index(1) [of "n' - 1" n' l] n' prems(6) by auto
  have c: "?c < ?c'" "?c' \<le> 512 ^ l"
    using child_room(2) [OF prems(6)] prems(7) child_n_current child_n_le by auto
  have need: "fcount l (m + (?c' - ?c)) + tcount l ?c = fcount l m + tcount l ?c'"
    using fcount_add [of m l "?c' - ?c"] prems(7) child_n_current [of l m] c i(2) by simp
  have part: "fcount l (m + (?c' - ?c)) \<le> fcount l n'"
    using step(2) by (intro fcount_mono) simp
  have "grow_pre l Is F d (ps ! i) (child_n l n i) ?c'"
    using prems c need part i forest_child(1) [OF prems(3) i(2)] by (auto simp: grow_pre_def fset_def)
  from prems(1) [OF order_refl i(1) this]
  obtain ok p' a d1 where fd: "f d (ps ! i) (int i) = Some (ok, p', int a, d1)"
    and post: "grow_post l Is F d (ps ! i) ?c ?c' (Some (ok, p', int a, d1))"
    using prems(8) by (auto simp: grow_post_def)
  from post prems(2-5,7) i(2) c(2,1) obtain F' where
    inv: "store_inv d1 F' Is" "F' \<subseteq> F" and fr: "framed (insert 0 (F \<union> fmeta l d ps m)) d d1" and
    a: "if ok then a = ?c' - ?c else a < ?c' - ?c" and ok: "ok = (tcount l ?c' \<le> tcount l ?c + card F)" and
    forest: "forest_ok l d1 (ps[i := p']) (m + a)" and
    fset: "fset l d1 (ps[i := p']) (m + a) = fset l d ps m \<union> (F - F')" and
    meta: "fmeta l d1 (ps[i := p']) (m + a) \<subseteq> fmeta l d ps m \<union> F" and
    cnt: "fcount l (m + a) + card F' = fcount l m + card F" and
    get: "\<forall>j k. j < 512 \<longrightarrow> k < child_n l m j \<longrightarrow> tget l d1 (ps[i := p'] ! j) k = tget l d (ps ! j) k" and
    same: "\<forall>j. j \<noteq> i \<longrightarrow> child_n l (m + a) j = child_n l m j"
    by (rule grow_child)
  have unfold: "grow_loop f [int i..int ?e] ps t d = (if ok
      then grow_loop f [int i + 1..int ?e] (ps[i := p']) (t + int a) d1
      else Some (False, ps[i := p'], t + int a, d1))"
    using i fd by (simp add: upto_rec1)
  have fail: "fcount l m + card F < fcount l n' \<and> a < n' - m" if "\<not> ok"
    using that a ok need part step(2) c(1) by simp
  show ?case
  proof (cases "ok \<and> i < ?e")
    case False
    then have last: "m + a = n'" if ok
      using that a step(3) i(1) by simp
    then have "ok = (fcount l n' \<le> fcount l m + card F)"
      using cnt fail by (metis le_add1 not_less)
    moreover have "grow_loop f [int i..int ?e] ps t d = Some (ok, ps[i := p'], t + int a, d1)"
      using unfold False i(1) by (cases ok) simp_all
    ultimately show ?thesis
      unfolding forest_post_def using inv fr forest fset meta get last fail prems(5)
      by (intro exI [of _ ok] exI [of _ "ps[i := p']"] exI [of _ a] exI [of _ d1] exI [of _ F']) auto
  next
    case True
    have m1: "m + a = Suc i * 512 ^ l" "m + a < n'" "0 < a"
      using a True step(4,5) c(1) by simp_all
    have "forest_post l Is F' d1 (ps[i := p']) (m + a) n' (t + int a)
        (grow_loop f [int (Suc i)..int ?e] (ps[i := p']) (t + int a) d1)"
    proof (rule less.hyps)
      show "n' - (m + a) < n' - m"
        using m1 by simp
      show "Suc i = (m + a) div 512 ^ l"
        using m1(1) by simp
      show "\<forall>j \<ge> Suc i. child_n l n j = child_n l (m + a) j"
        using same prems(8) by auto
      have "child_n l (m + a) (Suc i) = 0"
        using m1(1) by (simp add: child_n_def)
      then show "safe l (child_n l (m + a) (Suc i)) \<or> fcount l n' \<le> fcount l (m + a) + card F'"
        by (simp add: safe_0)
      show "fset l d1 (ps[i := p']) (m + a) \<inter> F' = {}"
        using fset prems(4) inv(2) by auto
    qed (use prems(1,5) inv forest m1(2) in auto)
    then obtain ok2 ps2 a2 d2 F2 where
      res: "grow_loop f [int i + 1..int ?e] (ps[i := p']) (t + int a) d1 = Some (ok2, ps2, t + int a + int a2, d2)" and
      ok2: "ok2 = (fcount l n' \<le> fcount l (m + a) + card F')" "if ok2 then a2 = n' - (m + a) else a2 < n' - (m + a)" and
      inv2: "store_inv d2 F2 Is" "F2 \<subseteq> F'" "length ps2 = 512" and
      fr2: "framed (insert 0 (F' \<union> fmeta l d1 (ps[i := p']) (m + a))) d1 d2" and
      forest2: "forest_ok l d2 ps2 (m + a + a2)" and
      fset2: "fset l d2 ps2 (m + a + a2) = fset l d1 (ps[i := p']) (m + a) \<union> (F' - F2)" and
      meta2: "fmeta l d2 ps2 (m + a + a2) \<subseteq> fmeta l d1 (ps[i := p']) (m + a) \<union> F'" and
      get2: "\<forall>j k. j < 512 \<longrightarrow> k < child_n l (m + a) j \<longrightarrow> tget l d2 (ps2 ! j) k = tget l d1 (ps[i := p'] ! j) k"
      by (auto simp: forest_post_def add.commute)
    have "framed (insert 0 (F \<union> fmeta l d ps m)) d d2"
      by (rule framed_mono [OF framed_trans [OF fr fr2]]) (use meta inv(2) in auto)
    moreover have "\<forall>j k. j < 512 \<longrightarrow> k < child_n l m j \<longrightarrow> tget l d2 (ps2 ! j) k = tget l d (ps ! j) k"
      using get get2 child_n_mono [of m "m + a" l] by (metis le_add1 order_less_le_trans)
    moreover have "fset l d2 ps2 (m + (a + a2)) = fset l d ps m \<union> (F - F2)"
      using fset2 fset inv(2) inv2(2) by (auto simp: add.assoc)
    moreover have "fmeta l d2 ps2 (m + (a + a2)) \<subseteq> fmeta l d ps m \<union> F"
      using meta2 meta inv(2) by (auto simp: add.assoc)
    moreover have "grow_loop f [int i..int ?e] ps t d = Some (ok2, ps2, t + int (a + a2), d2)"
      using unfold res True by simp
    moreover have "ok2 = (fcount l n' \<le> fcount l m + card F)" "if ok2 then a + a2 = n' - m else a + a2 < n' - m"
      using ok2 cnt m1(2) by (auto split: if_splits)
    moreover have "forest_ok l d2 ps2 (m + (a + a2))" "F2 \<subseteq> F"
      using forest2 inv(2) inv2(2) by (auto simp: add.assoc)
    ultimately show ?thesis
      unfolding forest_post_def using inv2(1,3)
      by (intro exI [of _ ok2] exI [of _ ps2] exI [of _ "a + a2"] exI [of _ d2] exI [of _ F2]) simp
  qed
qed

section \<open>One block and what lies under it\<close>

text \<open>The block \<open>grow_block\<close> gives: a new one without children, or the old one with its own.\<close>

lemma grow_block_spec:
  assumes inv: "store_inv d F Is" and tree: "tree_ok (Suc l) d p n" and disj: "tset (Suc l) d p n \<inter> F = {}"
    and some: "n \<noteq> 0 \<or> F \<noteq> {}"
  obtains b ps d1 F1 where "grow_block d p True = Some (Some (b, ps), d1)" "length ps = 512"
    "store_inv d1 F1 Is" "F1 \<subseteq> F" "framed (insert 0 F) d d1" "data_block d1 b" "b \<notin> F1"
    "forest_ok l d1 ps n" "fset l d1 ps n \<inter> F1 = {}" "b \<notin> fset l d1 ps n"
    "insert b (fset l d1 ps n) = tset (Suc l) d p n \<union> (F - F1)"
    "insert b (fmeta l d1 ps n) \<subseteq> tmeta (Suc l) d p n \<union> F"
    "tcount (Suc l) n + card F = Suc (fcount l n + card F1)" "n = 0 \<longrightarrow> F = insert b F1"
    "\<forall>k < n. tget l d1 (ps ! (k div 512 ^ l)) (k mod 512 ^ l) = tget (Suc l) d p k"
proof (cases "n = 0")
  case True
  then obtain b d1 where b: "block_allocate d = Some (b, d1)" "b \<in> F" "store_inv d1 (F - {b}) Is"
      "framed (insert 0 F) d d1"
    using block_allocate_some [OF inv] some by blast
  have data: "data_block d b" "0 \<le> sint b"
    using store_inv_dest(5) [OF inv b(2)] data_block_unat(4) [OF store_inv_dest(2) [OF inv]] by auto
  have F: "finite F" "F = insert b (F - {b})"
    using store_inv_dest(7) [OF inv] b(2) by auto
  show thesis
  proof (rule that [of b "replicate 512 EOF" d1 "F - {b}"])
    show "grow_block d p True = Some (Some (b, replicate 512 EOF), d1)"
      using True tree b(1) data(2) by (simp add: grow_block_def)
    show "data_block d1 b"
      using data(1) framed_dev(5) [OF b(4)] by simp
    show "tcount (Suc l) n + card F = Suc (fcount l n + card (F - {b}))"
      using True F card_Suc_Diff1 [OF F(1) b(2)] by (simp add: fcount_def del: card_Diff_insert)
  qed (use True b F in \<open>auto simp: forest_ok_def fmeta_def tset_Suc tmeta_Suc\<close>)
next
  case False
  note dest = store_inv_dest [OF inv]
  have p: "data_block d p" "p \<notin> fset l d (ind d p) n" "forest_ok l d (ind d p) n"
    using tree False by (simp_all add: tree_ok_Suc)
  have "p < nblocks d" "p \<noteq> EOF"
    using data_block_unat(3,5) [OF dest(2) p(1)] by simp_all
  then have g: "grow_block d p True = Some (Some (p, ind d p), d)"
    using dest(1) by (simp add: grow_block_def read_block_wf ind_def)
  show thesis
    by (rule that [OF g _ inv]) (use False p disj in \<open>auto simp: tset_Suc tmeta_Suc tcount_Suc\<close>)
qed

text \<open>What the C function does once it has the block: the loop, then one of two writes.\<close>

lemma grow_children:
  fixes d d1 :: "'x disk_t_scheme"
  assumes IH: "\<And>F (d :: 'x disk_t_scheme) p cur. grow_pre l Is F d p (clampn l cur old) (clampn l cur new) \<Longrightarrow>
      grow_post l Is F d p (clampn l cur old) (clampn l cur new) (inode_indirect_grow l d p cur old new)"
    and l: "Suc l \<le> 3" and g: "grow_block d p True = Some (Some (b, ps), d1)" "length ps = 512"
    and n_def: "n = clampn (Suc l) cur old" and n'_def: "n' = clampn (Suc l) cur new" and n: "n < n'"
    and inv1: "store_inv d1 F1 Is" and forest: "forest_ok l d1 ps n" "fset l d1 ps n \<inter> F1 = {}"
    and ok: "safe l (n mod 512 ^ l) \<or> fcount l n' \<le> fcount l n + card F1"
  obtains ok' ps' a d2 F2 where "ok' = (fcount l n' \<le> fcount l n + card F1)"
    "if ok' then a = n' - n else a < n' - n" "store_inv d2 F2 Is" "F2 \<subseteq> F1" "length ps' = 512"
    "framed (insert 0 (F1 \<union> fmeta l d1 ps n)) d1 d2" "forest_ok l d2 ps' (n + a)"
    "fset l d2 ps' (n + a) = fset l d1 ps n \<union> (F1 - F2)" "fmeta l d2 ps' (n + a) \<subseteq> fmeta l d1 ps n \<union> F1"
    "\<forall>j k. j < 512 \<longrightarrow> k < child_n l n j \<longrightarrow> tget l d2 (ps' ! j) k = tget l d1 (ps ! j) k"
    "inode_indirect_grow (Suc l) d p cur old new =
      (if \<not> ok' \<and> n div 512 ^ l = 0 \<and> a = 0 then do { d \<leftarrow> block_free d2 b; Some (False, EOF, 0, d) }
       else do { d \<leftarrow> disk_write d2 b (enc_words ps'); Some (ok', b, int a, d) })"
proof -
  have ic: "indirect_count (int l) = 512 ^ l"
    using indirect_count_power [of l] l by simp
  have le: "n' \<le> 512 ^ Suc l"
    unfolding n'_def by (rule clampn_le)
  have idx: "(if cur < old then (old - cur) sdiv indirect_count (int l) else 0) = int (n div 512 ^ l)"
      "511 - (if new < cur + 512 * indirect_count (int l)
         then (cur + 512 * indirect_count (int l) - new) sdiv indirect_count (int l) else 0) = int ((n' - 1) div 512 ^ l)"
    unfolding ic n_def n'_def using n le by (auto simp only: n_def n'_def intro!: index_low index_high)
  let ?f = "\<lambda>d p i. inode_indirect_grow l d p (cur + indirect_count (int l) * i) old new"
  have "forest_post l Is F1 d1 ps n n' 0 (grow_loop ?f [int (n div 512 ^ l)..int ((n' - 1) div 512 ^ l)] ps 0 d1)"
  proof (rule grow_loop_spec [where n = n and i = "n div 512 ^ l"])
    fix F p j and d :: "'x disk_t_scheme"
    assume "j \<le> (n' - 1) div 512 ^ l" and pre: "grow_pre l Is F d p (child_n l n j) (child_n l n' j)"
    moreover have "(n' - 1) div 512 ^ l < 512"
      using n le child_index(1) [of "n' - 1" n' l] by simp
    ultimately show "grow_post l Is F d p (child_n l n j) (child_n l n' j) (?f d p (int j))"
      using IH [of F d p "cur + 512 ^ l * int j"] clampn_child [of j l cur] by (simp add: n_def n'_def ic)
  next
    show "safe l (child_n l n (n div 512 ^ l)) \<or> fcount l n' \<le> fcount l n + card F1"
      using ok child_n_current [of l n] by simp
  qed (use inv1 forest g n le in auto)
  then obtain ok' ps' a d2 F2 where
    loop: "grow_loop ?f [int (n div 512 ^ l)..int ((n' - 1) div 512 ^ l)] ps 0 d1 = Some (ok', ps', int a, d2)" and
    post: "ok' = (fcount l n' \<le> fcount l n + card F1)" "if ok' then a = n' - n else a < n' - n"
    "store_inv d2 F2 Is" "F2 \<subseteq> F1" "length ps' = 512"
    "framed (insert 0 (F1 \<union> fmeta l d1 ps n)) d1 d2" "forest_ok l d2 ps' (n + a)"
    "fset l d2 ps' (n + a) = fset l d1 ps n \<union> (F1 - F2)" "fmeta l d2 ps' (n + a) \<subseteq> fmeta l d1 ps n \<union> F1"
    "\<forall>j k. j < 512 \<longrightarrow> k < child_n l n j \<longrightarrow> tget l d2 (ps' ! j) k = tget l d1 (ps ! j) k"
    by (auto simp: forest_post_def)
  have run: "inode_indirect_grow (Suc l) d p cur old new =
      (if \<not> ok' \<and> n div 512 ^ l = 0 \<and> a = 0 then do { d \<leftarrow> block_free d2 b; Some (False, EOF, 0, d) }
       else do { d \<leftarrow> disk_write d2 b (enc_words ps'); Some (ok', b, int a, d) })"
    using g(1) loop by (simp add: Let_def idx)
  show thesis
    by (rule that [OF post run])
qed

lemma grow_level:
  fixes d :: "'x disk_t_scheme"
  assumes IH: "\<And>F (d :: 'x disk_t_scheme) p cur. grow_pre l Is F d p (clampn l cur old) (clampn l cur new) \<Longrightarrow>
      grow_post l Is F d p (clampn l cur old) (clampn l cur new) (inode_indirect_grow l d p cur old new)"
    and l: "Suc l \<le> 3" and pre: "grow_pre (Suc l) Is F d p (clampn (Suc l) cur old) (clampn (Suc l) cur new)"
  shows "grow_post (Suc l) Is F d p (clampn (Suc l) cur old) (clampn (Suc l) cur new)
    (inode_indirect_grow (Suc l) d p cur old new)"
proof -
  define n n' where "n = clampn (Suc l) cur old" and "n' = clampn (Suc l) cur new"
  have inv: "store_inv d F Is" and tree: "tree_ok (Suc l) d p n" and disj: "tset (Suc l) d p n \<inter> F = {}"
    and n: "n < n'" "n' \<le> 512 ^ Suc l" and ok: "safe (Suc l) n \<or> tcount (Suc l) n' \<le> tcount (Suc l) n + card F"
    using pre by (simp_all add: grow_pre_def n_def n'_def)
  show ?thesis
  proof (cases "n \<noteq> 0 \<or> F \<noteq> {}")
    case False
    then have "grow_block d p True = Some (None, d)"
      using block_allocate_empty [of d Is] inv tree by (auto simp: grow_block_def)
    then show ?thesis
      unfolding n_def [symmetric] n'_def [symmetric]
      using False n inv tree unfolding grow_post_def
      by (intro exI [of _ False] exI [of _ p] exI [of _ 0] exI [of _ d] exI [of _ F]) (auto simp: tcount_Suc)
  next
    case True
    from inv tree disj True obtain b ps d1 F1 where
      g: "grow_block d p True = Some (Some (b, ps), d1)" "length ps = 512" and
      inv1: "store_inv d1 F1 Is" "F1 \<subseteq> F" and fr1: "framed (insert 0 F) d d1" and b: "data_block d1 b" "b \<notin> F1" and
      forest: "forest_ok l d1 ps n" "fset l d1 ps n \<inter> F1 = {}" "b \<notin> fset l d1 ps n" and
      set: "insert b (fset l d1 ps n) = tset (Suc l) d p n \<union> (F - F1)" and
      meta: "insert b (fmeta l d1 ps n) \<subseteq> tmeta (Suc l) d p n \<union> F" and
      cnt: "tcount (Suc l) n + card F = Suc (fcount l n + card F1)" and new: "n = 0 \<longrightarrow> F = insert b F1" and
      get: "\<forall>k < n. tget l d1 (ps ! (k div 512 ^ l)) (k mod 512 ^ l) = tget (Suc l) d p k"
      by (rule grow_block_spec)
    have "safe l (n mod 512 ^ l) \<or> fcount l n' \<le> fcount l n + card F1"
      using ok cnt n by (cases l) (auto simp: tcount_Suc)
    from IH l g n_def n'_def n(1) inv1(1) forest(1,2) this obtain ok' ps' a d2 F2 where
      ok': "ok' = (fcount l n' \<le> fcount l n + card F1)" "if ok' then a = n' - n else a < n' - n" and
      inv2: "store_inv d2 F2 Is" "F2 \<subseteq> F1" "length ps' = 512" and
      fr2: "framed (insert 0 (F1 \<union> fmeta l d1 ps n)) d1 d2" and forest2: "forest_ok l d2 ps' (n + a)" and
      set2: "fset l d2 ps' (n + a) = fset l d1 ps n \<union> (F1 - F2)" and
      meta2: "fmeta l d2 ps' (n + a) \<subseteq> fmeta l d1 ps n \<union> F1" and
      get2: "\<forall>j k. j < 512 \<longrightarrow> k < child_n l n j \<longrightarrow> tget l d2 (ps' ! j) k = tget l d1 (ps ! j) k" and
      run: "inode_indirect_grow (Suc l) d p cur old new =
        (if \<not> ok' \<and> n div 512 ^ l = 0 \<and> a = 0 then do { d \<leftarrow> block_free d2 b; Some (False, EOF, 0, d) }
         else do { d \<leftarrow> disk_write d2 b (enc_words ps'); Some (ok', b, int a, d) })"
      by (rule grow_children)
    have enough: "ok' = (tcount (Suc l) n' \<le> tcount (Suc l) n + card F)"
      using ok'(1) cnt n(1) by (simp add: tcount_Suc)
    have fr: "framed (insert 0 (F \<union> tmeta (Suc l) d p n)) d d2"
      by (rule framed_mono [OF framed_trans [OF fr1 fr2]]) (use meta inv1(2) in auto)
    have b2: "data_block d2 b" "b \<notin> F2"
      using b inv2(2) framed_dev(5) [OF fr2] by auto
    let ?free = "\<not> ok' \<and> n div 512 ^ l = 0 \<and> a = 0"
    show ?thesis
    proof (cases ?free)
      case True
      have "n = 0"
        using True ok enough by (cases l) (auto simp: div_eq_0_iff)
      moreover from this have "F1 = F2" "F = insert b F1"
        using True set2 inv2(2) new by auto
      moreover obtain d3 where d3: "block_free d2 b = Some d3" "store_inv d3 (insert b F2) Is"
          "framed (insert 0 (insert b F2)) d2 d3"
        using block_free_spec [OF inv2(1) b2] by blast
      moreover have "framed (insert 0 (F \<union> tmeta (Suc l) d p n)) d d3"
        by (rule framed_mono [OF framed_trans [OF fr d3(3)]]) (use calculation in auto)
      ultimately show ?thesis
        unfolding n_def [symmetric] n'_def [symmetric] grow_post_def
        using True enough n run tree
        by (intro exI [of _ False] exI [of _ EOF] exI [of _ 0] exI [of _ d3] exI [of _ F]) auto
    next
      case False
      have pos: "0 < n + a" "n + a \<le> n'"
        using False ok'(2) n(1) by (cases "n = 0"; auto split: if_splits)+
      have nin: "b \<notin> fset l d2 ps' (n + a)"
        using set2 forest(3) b(2) by auto
      have le: "n + a \<le> 512 ^ Suc l"
        using pos n(2) by simp
      note store = forest_store [OF inv2(1) b2 nin forest2 inv2(3) pos(1) le]
      let ?d = "upd_blk d2 b (enc_words ps')"
      have "framed (insert 0 (F \<union> tmeta (Suc l) d p n)) d ?d"
        by (rule framed_mono [OF framed_trans [OF fr store(3)]]) (use meta in auto)
      moreover have "tset (Suc l) ?d b (n + a) = tset (Suc l) d p n \<union> (F - F2)"
        using store(5) set2 set inv1(2) inv2(2) b by auto
      moreover have "tmeta (Suc l) ?d b (n + a) \<subseteq> tmeta (Suc l) d p n \<union> F"
        using store(6) meta2 meta inv1(2) by auto
      moreover have "\<forall>k < n. tget (Suc l) ?d b k = tget (Suc l) d p k"
        using store(7) get get2 child_index [of _ n l] n by simp
      ultimately show ?thesis
        unfolding n_def [symmetric] n'_def [symmetric] grow_post_def
        using False run store(1,2,4) enough ok'(2) inv1(2) inv2(2)
        by (intro exI [of _ ok'] exI [of _ b] exI [of _ a] exI [of _ ?d] exI [of _ F2]) auto
    qed
  qed
qed

theorem inode_indirect_grow_spec:
  "l \<le> 3 \<Longrightarrow> grow_pre l Is F d p (clampn l cur old) (clampn l cur new) \<Longrightarrow>
    grow_post l Is F d p (clampn l cur old) (clampn l cur new) (inode_indirect_grow l d p cur old new)"
proof (induction l arbitrary: F d p cur)
  case 0
  then have n: "clampn 0 cur old = 0" "clampn 0 cur new = 1" and p: "p = EOF" and inv: "store_inv d F Is"
    by (auto simp: grow_pre_def)
  show ?case
  proof (cases "F = {}")
    case True
    then have "inode_indirect_grow 0 d p cur old new = Some (False, p, 0, d)"
      using block_allocate_empty [of d Is] inv p by (simp add: grow_block_def)
    then show ?thesis
      unfolding grow_post_def n using True inv p
      by (intro exI [of _ False] exI [of _ p] exI [of _ 0] exI [of _ d] exI [of _ F]) auto
  next
    case False
    then obtain b d1 where b: "block_allocate d = Some (b, d1)" "b \<in> F" "store_inv d1 (F - {b}) Is"
        "framed (insert 0 F) d d1"
      using block_allocate_some [OF inv] by blast
    have "data_block d b" "0 \<le> sint b" "0 < card F"
      using store_inv_dest(5,7) [OF inv] data_block_unat(4) [OF store_inv_dest(2) [OF inv]] b(2)
      by (auto simp: card_gt_0_iff)
    then show ?thesis
      unfolding grow_post_def n using False b p framed_dev(5) [OF b(4)]
      by (intro exI [of _ True] exI [of _ b] exI [of _ 1] exI [of _ d1] exI [of _ "F - {b}"])
        (auto simp: grow_block_def)
  qed
next
  case (Suc l)
  show ?case
    by (rule grow_level [OF Suc.IH Suc.prems]) (use Suc.prems(1) in simp_all)
qed

section \<open>The excluded case\<close>

lemma tcount_strict: "n < n' \<Longrightarrow> n' \<le> 512 ^ l \<Longrightarrow> tcount l n < tcount l n'"
  and fcount_strict: "n < n' \<Longrightarrow> n' \<le> 512 ^ Suc l \<Longrightarrow> fcount l n < fcount l n'"
proof -
  have sum: "fcount l n < fcount l n'" if n: "n < n'" "n' \<le> 512 ^ Suc l"
      and IH: "\<And>n n'. n < n' \<Longrightarrow> n' \<le> 512 ^ l \<Longrightarrow> tcount l n < tcount l n'" for l n n'
  proof -
    let ?i = "n div 512 ^ l"
    have "?i < 512"
      using child_index(1) [of n n' l] n by simp
    moreover have "tcount l (child_n l n ?i) < tcount l (child_n l n' ?i)"
      using IH [OF _ child_n_le] child_room(2) [OF n(1), of l] child_n_current [of l n] by simp
    ultimately show ?thesis
      unfolding fcount_def using n(1) by (intro sum_strict_mono_ex1) (auto intro!: tcount_mono child_n_mono)
  qed
  have t: "n < n' \<Longrightarrow> n' \<le> 512 ^ l \<Longrightarrow> tcount l n < tcount l n'" for l n n'
    by (induction l arbitrary: n n') (auto simp: tcount_Suc intro!: sum)
  show "n < n' \<Longrightarrow> n' \<le> 512 ^ l \<Longrightarrow> tcount l n < tcount l n'"
    by (rule t)
  show "n < n' \<Longrightarrow> n' \<le> 512 ^ Suc l \<Longrightarrow> fcount l n < fcount l n'"
    by (rule sum [OF _ _ t])
qed

text \<open>
  On a full disk the source gives up a doubly indirect block that is in use: it takes
  \<open>start_idx = 0\<close> to mean that the block is new, but it is also 0 while the file ends under the
  block's first child.  The pointer to the block is cleared and the block goes to the free list,
  although the file still has \<open>n\<close> blocks under it.
\<close>

theorem grow_frees_block_in_use:
  fixes d :: "'x disk_t_scheme"
  assumes inv: "store_inv d {} Is" and tree: "tree_ok (Suc (Suc l)) d p n" and l: "Suc (Suc l) \<le> 3"
    and n: "n = clampn (Suc (Suc l)) cur old" "0 < n" "n < 512 ^ Suc l"
    and more: "n < clampn (Suc (Suc l)) cur new" and ok: "safe (Suc l) n"
  shows "\<exists>d'. inode_indirect_grow (Suc (Suc l)) d p cur old new = Some (False, EOF, 0, d') \<and> store_inv d' {p} Is"
proof -
  let ?n' = "clampn (Suc (Suc l)) cur new"
  have le: "?n' \<le> 512 ^ Suc (Suc l)"
    by (rule clampn_le)
  obtain b ps d1 F1 where g: "grow_block d p True = Some (Some (b, ps), d1)" "length ps = 512" and
    inv1: "store_inv d1 F1 Is" "F1 \<subseteq> {}" and b: "data_block d1 b" "b \<notin> F1" and
    forest: "forest_ok (Suc l) d1 ps n" "fset (Suc l) d1 ps n \<inter> F1 = {}"
    by (rule grow_block_spec [OF inv tree]) (use n(2) in auto)
  have bp: "b = p"
    using g(1) n(2) tree data_block_unat(3) [OF store_inv_dest(2) [OF inv]]
    by (auto simp: grow_block_def tree_ok_Suc split: bind_splits if_splits)
  have F1: "F1 = {}"
    using inv1(2) by simp
  have IH: "grow_pre (Suc l) Is F d p (clampn (Suc l) cur old) (clampn (Suc l) cur new) \<Longrightarrow>
      grow_post (Suc l) Is F d p (clampn (Suc l) cur old) (clampn (Suc l) cur new)
        (inode_indirect_grow (Suc l) d p cur old new)" for F and d :: "'x disk_t_scheme" and p cur
    by (rule inode_indirect_grow_spec) (use l in simp)
  have "safe (Suc l) (n mod 512 ^ Suc l) \<or> fcount (Suc l) ?n' \<le> fcount (Suc l) n + card F1"
    using ok n(3) by simp
  from IH l g n(1) refl more inv1(1) forest this obtain ok' ps' a d2 F2 where
    ok': "ok' = (fcount (Suc l) ?n' \<le> fcount (Suc l) n + card F1)" "if ok' then a = ?n' - n else a < ?n' - n" and
    inv2: "store_inv d2 F2 Is" "F2 \<subseteq> F1" and fr2: "framed (insert 0 (F1 \<union> fmeta (Suc l) d1 ps n)) d1 d2" and
    forest2: "forest_ok (Suc l) d2 ps' (n + a)" and
    set2: "fset (Suc l) d2 ps' (n + a) = fset (Suc l) d1 ps n \<union> (F1 - F2)" and
    run: "inode_indirect_grow (Suc (Suc l)) d p cur old new =
      (if \<not> ok' \<and> n div 512 ^ Suc l = 0 \<and> a = 0 then do { d \<leftarrow> block_free d2 b; Some (False, EOF, 0, d) }
       else do { d \<leftarrow> disk_write d2 b (enc_words ps'); Some (ok', b, int a, d) })"
    by (rule grow_children)
  have no: "\<not> ok'"
    using ok'(1) F1 fcount_strict [OF more le] by simp
  have "fcount (Suc l) (n + a) = fcount (Suc l) n"
    using card_fset [OF forest2] card_fset [OF forest(1)] set2 F1 by simp
  moreover have "n + a < ?n'"
    using ok'(2) no by simp
  then have "n + a \<le> 512 ^ Suc (Suc l)"
    using le by linarith
  ultimately have "a = 0"
    using fcount_strict [of n "n + a" "Suc l"] by fastforce
  have "b \<notin> F2" "data_block d2 b"
    using b inv2(2) framed_dev(5) [OF fr2] by auto
  then obtain d3 where "block_free d2 b = Some d3" "store_inv d3 (insert b F2) Is"
    using block_free_spec [OF inv2(1)] by blast
  then show ?thesis
    using run no \<open>a = 0\<close> n(3) inv2(2) F1 bp by auto
qed

end
