(* ===== verification/Tree_Shrink.thy ===== *)
theory Tree_Shrink
  imports Tree_Range
begin

text \<open>
  \<open>inode_indirect_shrink\<close> meets its contract: it cuts a tree from \<open>n\<close> to \<open>n'\<close> data
  blocks, keeps the first \<open>n'\<close> and what they hold, and returns every other block of the
  tree to the free list, indirect blocks included.
\<close>

section \<open>The contract\<close>

definition shrink_pre :: "ino list \<Rightarrow> nat \<Rightarrow> blockno set \<Rightarrow> 'x disk_t_scheme \<Rightarrow> blockno \<Rightarrow> nat \<Rightarrow> nat \<Rightarrow> bool" where
  "shrink_pre Is l F d p n n' \<longleftrightarrow> store_inv d F Is \<and> tree_ok l d p n \<and> tset l d p n \<inter> F = {} \<and> n' < n"

definition shrink_post :: "ino list \<Rightarrow> nat \<Rightarrow> blockno set \<Rightarrow> 'x disk_t_scheme \<Rightarrow> blockno \<Rightarrow> nat \<Rightarrow> nat \<Rightarrow>
    (blockno \<times> int \<times> 'x disk_t_scheme) option \<Rightarrow> bool" where
  "shrink_post Is l F d p n n' res \<longleftrightarrow> (\<exists>p' d' F'. res = Some (p', int (n - n'), d') \<and> store_inv d' F' Is \<and>
     F' = F \<union> (tset l d p n - tset l d' p' n') \<and> framed (insert 0 (F' \<union> tmeta l d p n)) d d' \<and>
     tree_ok l d' p' n' \<and> tset l d' p' n' \<subseteq> tset l d p n \<and> tmeta l d' p' n' \<subseteq> tmeta l d p n \<and>
     (\<forall>k < n'. tget l d' p' k = tget l d p k))"

section \<open>The loop over the children\<close>

lemma shrink_child:
  assumes inv: "store_inv d F Is" and forest: "gforest N lev d ps c" and disj: "gset N lev d ps c \<inter> F = {}"
    and len: "length ps = N" and i: "i < N" and less: "c' < c i"
    and post: "shrink_post Is (lev i) F d (ps ! i) (c i) c' (Some (p', a, d'))"
  defines "F' \<equiv> F \<union> (gset N lev d ps c - gset N lev d' (ps[i := p']) (c(i := c')))"
  shows "a = int (c i - c')" "store_inv d' F' Is" "framed (insert 0 (F' \<union> gmeta N lev d ps c)) d d'"
    "gforest N lev d' (ps[i := p']) (c(i := c'))" "gset N lev d' (ps[i := p']) (c(i := c')) \<subseteq> gset N lev d ps c"
    "gmeta N lev d' (ps[i := p']) (c(i := c')) \<subseteq> gmeta N lev d ps c"
    "\<forall>j k. j < N \<longrightarrow> k < (c(i := c')) j \<longrightarrow> tget (lev j) d' (ps[i := p'] ! j) k = tget (lev j) d (ps ! j) k"
proof -
  let ?T = "tset (lev i) d (ps ! i) (c i)" and ?T' = "tset (lev i) d' p' c'" and ?O = "others N lev d ps c i"
  have a: "a = int (c i - c')" and inv': "store_inv d' (F \<union> (?T - ?T')) Is" and tree: "tree_ok (lev i) d' p' c'"
    and fr: "framed (insert 0 (F \<union> (?T - ?T') \<union> tmeta (lev i) d (ps ! i) (c i))) d d'"
    and sub: "?T' \<subseteq> ?T" "tmeta (lev i) d' p' c' \<subseteq> tmeta (lev i) d (ps ! i) (c i)"
    and get: "\<forall>k < c'. tget (lev i) d' p' k = tget (lev i) d (ps ! i) k"
    using post by (auto simp: shrink_post_def)
  show "a = int (c i - c')"
    by (rule a)
  note child = gforest_child [OF forest i] and split = gset_split [OF i, of lev d ps c]
  have keep: "blk d' b = blk d b" if "b \<in> ?O" for b
  proof (rule framed_blk [OF fr])
    have "b \<noteq> 0" "b \<notin> F" "b \<notin> ?T"
      using that child(2) split disj gforest_data [OF forest, of b] zero_not_data_block by auto
    then show "b \<notin> insert 0 (F \<union> (?T - ?T') \<union> tmeta (lev i) d (ps ! i) (c i))"
      using tmeta_subset by blast
  qed
  have "?T' \<inter> ?O = {}"
    using child(2) sub by blast
  note upd = gforest_update [OF forest len i framed_dev(5) [OF fr] keep tree this]
  show "gforest N lev d' (ps[i := p']) (c(i := c'))"
    by (rule upd(1))
  show "gset N lev d' (ps[i := p']) (c(i := c')) \<subseteq> gset N lev d ps c"
    using upd(2) split sub by auto
  have F': "F' = F \<union> (?T - ?T')"
    using upd(2) split child(2) unfolding F'_def by auto
  then show "store_inv d' F' Is"
    using inv' by simp
  show "framed (insert 0 (F' \<union> gmeta N lev d ps c)) d d'"
    by (rule framed_mono [OF fr]) (use F' child(3) in auto)
  show "gmeta N lev d' (ps[i := p']) (c(i := c')) \<subseteq> gmeta N lev d ps c"
    using upd(4) sub(2) child(3) by blast
  show "\<forall>j k. j < N \<longrightarrow> k < (c(i := c')) j \<longrightarrow> tget (lev j) d' (ps[i := p'] ! j) k = tget (lev j) d (ps ! j) k"
    using upd(3) get len i by (metis fun_upd_apply nth_list_update_eq)
qed

definition cshrink_post :: "ino list \<Rightarrow> nat \<Rightarrow> blockno set \<Rightarrow> 'x disk_t_scheme \<Rightarrow> blockno list \<Rightarrow> (nat \<Rightarrow> nat) \<Rightarrow>
    (nat \<Rightarrow> nat) \<Rightarrow> int \<Rightarrow> (blockno list \<times> int \<times> 'x disk_t_scheme) option \<Rightarrow> bool" where
  "cshrink_post Is l F d ps c c' a res \<longleftrightarrow> (\<exists>ps' d' F'. res = Some (ps', a, d') \<and> length ps' = 512 \<and>
     store_inv d' F' Is \<and> F' = F \<union> (cset l d ps c - cset l d' ps' c') \<and>
     framed (insert 0 (F' \<union> cmeta l d ps c)) d d' \<and> cforest l d' ps' c' \<and>
     cset l d' ps' c' \<subseteq> cset l d ps c \<and> cmeta l d' ps' c' \<subseteq> cmeta l d ps c \<and>
     (\<forall>j k. j < 512 \<longrightarrow> k < c' j \<longrightarrow> tget l d' (ps' ! j) k = tget l d (ps ! j) k))"

lemma shrink_loop_spec:
  fixes d :: "'x disk_t_scheme"
  assumes f: "\<And>F (d :: 'x disk_t_scheme) p i. i \<in> set is \<Longrightarrow> shrink_pre Is l F d p (c i) (c' i) \<Longrightarrow>
      shrink_post Is l F d p (c i) (c' i) (f d p (int i))"
    and "store_inv d F Is" and "cforest l d ps c" and "cset l d ps c \<inter> F = {}" and "length ps = 512"
    and "distinct is" and "\<forall>i \<in> set is. i < 512 \<and> c' i < c i"
  shows "cshrink_post Is l F d ps c (\<lambda>j. if j \<in> set is then c' j else c j) (t + int (\<Sum>i \<in> set is. c i - c' i))
    (shrink_loop f (map int is) ps t d)"
  using assms
proof (induction "is" arbitrary: F d ps c t)
  case Nil
  then show ?case
    by (auto simp: cshrink_post_def)
next
  case (Cons i "is")
  have i: "i < 512" "c' i < c i" and nin: "i \<notin> set is"
    using Cons.prems(6,7) by auto
  have "shrink_pre Is l F d (ps ! i) (c i) (c' i)"
    using Cons.prems(2-4) gforest_child(1) [OF Cons.prems(3) i(1)] i gset_split [OF i(1), of "\<lambda>_. l" d ps c]
    by (auto simp: shrink_pre_def)
  then obtain p' a d1 where f1: "f d (ps ! i) (int i) = Some (p', a, d1)"
      and post: "shrink_post Is l F d (ps ! i) (c i) (c' i) (Some (p', a, d1))"
    using Cons.prems(1) [of i F d "ps ! i"] by (auto simp: shrink_post_def)
  define c1 where "c1 = c(i := c' i)"
  have c1: "c1 j = (if j = i then c' i else c j)" for j
    by (simp add: c1_def)
  have rest: "\<forall>j \<in> set is. c1 j = c j"
    using nin by (auto simp: c1)
  let ?ps = "ps[i := p']"
  let ?F = "F \<union> (cset l d ps c - cset l d1 ?ps c1)"
  note step = shrink_child [OF Cons.prems(2-5) i post, folded c1_def]
  let ?c2 = "\<lambda>j. if j \<in> set is then c' j else c1 j"
  have c2: "?c2 = (\<lambda>j. if j \<in> set (i # is) then c' j else c j)"
    using nin by (auto simp: c1)
  have "cshrink_post Is l ?F d1 ?ps c1 ?c2 (t + a + int (\<Sum>j \<in> set is. c1 j - c' j))
      (shrink_loop f (map int is) ?ps (t + a) d1)"
    using Cons.prems(1,4-7) nin step(2,4,5) rest by (intro Cons.IH) auto
  moreover have "(\<Sum>j \<in> set is. c1 j - c' j) = (\<Sum>j \<in> set is. c j - c' j)"
    using rest by (intro sum.cong) auto
  moreover have "(\<Sum>j \<in> set (i # is). c j - c' j) = c i - c' i + (\<Sum>j \<in> set is. c j - c' j)"
    using nin by simp
  ultimately have "cshrink_post Is l ?F d1 ?ps c1 ?c2 (t + int (\<Sum>j \<in> set (i # is). c j - c' j))
      (shrink_loop f (map int (i # is)) ps t d)"
    using step(1) f1 i(1) by (simp add: algebra_simps)
  then obtain ps2 d2 F2 where res: "shrink_loop f (map int (i # is)) ps t d =
        Some (ps2, t + int (\<Sum>j \<in> set (i # is). c j - c' j), d2)" and
    rest: "length ps2 = 512" "store_inv d2 F2 Is" "F2 = ?F \<union> (cset l d1 ?ps c1 - cset l d2 ps2 ?c2)"
    "cforest l d2 ps2 ?c2" "cset l d2 ps2 ?c2 \<subseteq> cset l d1 ?ps c1" "cmeta l d2 ps2 ?c2 \<subseteq> cmeta l d1 ?ps c1" and
    fr2: "framed (insert 0 (F2 \<union> cmeta l d1 ?ps c1)) d1 d2" and
    get2: "\<forall>j k. j < 512 \<longrightarrow> k < ?c2 j \<longrightarrow> tget l d2 (ps2 ! j) k = tget l d1 (?ps ! j) k"
    unfolding cshrink_post_def by blast
  have "framed (insert 0 (F2 \<union> cmeta l d ps c)) d d2"
    by (rule framed_mono [OF framed_trans [OF step(3) fr2]]) (use rest(3) step(6) in auto)
  moreover have "F2 = F \<union> (cset l d ps c - cset l d2 ps2 ?c2)"
    using rest(3,5) step(5) by auto
  moreover have "\<forall>j k. j < 512 \<longrightarrow> k < ?c2 j \<longrightarrow> tget l d2 (ps2 ! j) k = tget l d (ps ! j) k"
  proof (intro allI impI)
    fix j k assume jk: "j < 512" "k < ?c2 j"
    have "?c2 j \<le> c1 j"
      using Cons.prems(7) by (auto simp: c1)
    then have k: "k < c1 j"
      using jk(2) by linarith
    have "tget l d2 (ps2 ! j) k = tget l d1 (?ps ! j) k"
      using get2 jk by blast
    also have "\<dots> = tget l d (ps ! j) k"
      using step(7) jk(1) k by blast
    finally show "tget l d2 (ps2 ! j) k = tget l d (ps ! j) k" .
  qed
  moreover have "cset l d2 ps2 ?c2 \<subseteq> cset l d ps c" "cmeta l d2 ps2 ?c2 \<subseteq> cmeta l d ps c"
    using rest(5,6) step(5,6) by auto
  ultimately show ?case
    unfolding cshrink_post_def c2 [symmetric] using res rest(1,2,4) by blast
qed

section \<open>One block and what lies under it\<close>

lemma shrink_children:
  fixes d :: "'x disk_t_scheme"
  assumes IH: "\<And>F (d :: 'x disk_t_scheme) p cur. shrink_pre Is l F d p (clampn l cur old) (clampn l cur new) \<Longrightarrow>
      shrink_post Is l F d p (clampn l cur old) (clampn l cur new) (inode_indirect_shrink l d p cur old new)"
    and l: "Suc l \<le> 3" and n_def: "n = clampn (Suc l) cur old" and n'_def: "n' = clampn (Suc l) cur new" and less: "n' < n"
    and inv: "store_inv d F Is" and tree: "tree_ok (Suc l) d p n" and disj: "tset (Suc l) d p n \<inter> F = {}"
  obtains ps' d2 F2 where "length ps' = 512" "store_inv d2 F2 Is"
    "F2 = F \<union> (fset l d (ind d p) n - fset l d2 ps' n')"
    "framed (insert 0 (F2 \<union> fmeta l d (ind d p) n)) d d2" "forest_ok l d2 ps' n'"
    "fset l d2 ps' n' \<subseteq> fset l d (ind d p) n" "fmeta l d2 ps' n' \<subseteq> fmeta l d (ind d p) n"
    "\<forall>j k. j < 512 \<longrightarrow> k < child_n l n' j \<longrightarrow> tget l d2 (ps' ! j) k = tget l d (ind d p ! j) k"
    "inode_indirect_shrink (Suc l) d p cur old new =
      (if list_all (\<lambda>p. p = EOF) ps' then do { d \<leftarrow> block_free d2 p; Some (EOF, int (n - n'), d) }
       else do { d \<leftarrow> disk_write d2 p (enc_words ps'); Some (p, int (n - n'), d) })"
proof -
  have ic: "indirect_count (int l) = 512 ^ l"
    using indirect_count_power [of l] l by simp
  have le: "n \<le> 512 ^ Suc l"
    unfolding n_def by (rule clampn_le)
  have idx: "(if cur < new then (new - cur) sdiv indirect_count (int l) else 0) = int (n' div 512 ^ l)"
      "511 - (if old < cur + 512 * indirect_count (int l)
         then (cur + 512 * indirect_count (int l) - old) sdiv indirect_count (int l) else 0) = int ((n - 1) div 512 ^ l)"
    unfolding ic n_def n'_def using less le by (auto simp only: n_def n'_def intro!: index_low index_high)
  have p: "data_block d p" "p \<notin> fset l d (ind d p) n" "forest_ok l d (ind d p) n"
    using tree less by (simp_all add: tree_ok_Suc)
  have "p < nblocks d" "p \<noteq> EOF"
    using data_block_unat(3,5) [OF store_inv_dest(2) [OF inv] p(1)] by simp_all
  then have rd: "read_block d p = Some (blk d p)" "dec_words (blk d p) = ind d p"
    using store_inv_dest(1) [OF inv] by (simp_all add: read_block_wf ind_def)
  define js where "js = [n' div 512 ^ l..<Suc ((n - 1) div 512 ^ l)]"
  have js: "i \<in> set js \<longleftrightarrow> n' div 512 ^ l \<le> i \<and> i \<le> (n - 1) div 512 ^ l" "distinct js" for i
    by (auto simp: js_def simp del: upt_Suc)
  let ?f = "\<lambda>d p i. inode_indirect_shrink l d p (cur + i * indirect_count (int l)) old new"
  have "(n - 1) div 512 ^ l < 512"
    using less le child_index(1) [of "n - 1" n l] by simp
  then have is512: "\<forall>i \<in> set js. i < 512 \<and> child_n l n' i < child_n l n i"
    using child_n_cut(1) [OF less, of l] js(1) by simp
  have count: "(\<lambda>j. if j \<in> set js then child_n l n' j else child_n l n j) = child_n l n'"
    using child_n_cut(2) [OF less, of l] js(1) by auto
  have total: "(\<Sum>i \<in> set js. child_n l n i - child_n l n' i) = n - n'"
  proof -
    have "(\<Sum>i \<in> set js. child_n l n i - child_n l n' i) = (\<Sum>i<512. child_n l n i - child_n l n' i)"
      using is512 child_n_cut(2) [OF less, of l] js(1) by (intro sum.mono_neutral_left) auto
    also have "\<dots> = n - n'"
      using sum_child_n [OF le] sum_child_n [of n' l] less le child_n_mono [of n' n l]
      by (simp add: sum_subtractf_nat)
    finally show ?thesis .
  qed
  have "cshrink_post Is l F d (ind d p) (child_n l n)
      (\<lambda>j. if j \<in> set js then child_n l n' j else child_n l n j)
      (0 + int (\<Sum>i \<in> set js. child_n l n i - child_n l n' i))
      (shrink_loop ?f (map int js) (ind d p) 0 d)"
  proof (rule shrink_loop_spec [OF _ inv])
    fix F p i and d :: "'x disk_t_scheme"
    assume "i \<in> set js" and pre: "shrink_pre Is l F d p (child_n l n i) (child_n l n' i)"
    then show "shrink_post Is l F d p (child_n l n i) (child_n l n' i) (?f d p (int i))"
      using is512 IH [of F d p "cur + 512 ^ l * int i"] clampn_child [of i l cur]
      by (simp add: n_def n'_def ic mult.commute)
  qed (use p disj is512 js(2) less in \<open>auto simp: cforest_child_n tset_Suc\<close>)
  then have "cshrink_post Is l F d (ind d p) (child_n l n) (child_n l n') (int (n - n'))
      (shrink_loop ?f (map int js) (ind d p) 0 d)"
    unfolding count total by simp
  then obtain ps' d2 F2 where
    loop: "shrink_loop ?f (map int js) (ind d p) 0 d = Some (ps', int (n - n'), d2)" and
    post: "length ps' = 512" "store_inv d2 F2 Is" "F2 = F \<union> (fset l d (ind d p) n - fset l d2 ps' n')"
    "framed (insert 0 (F2 \<union> fmeta l d (ind d p) n)) d d2" "forest_ok l d2 ps' n'"
    "fset l d2 ps' n' \<subseteq> fset l d (ind d p) n" "fmeta l d2 ps' n' \<subseteq> fmeta l d (ind d p) n"
    "\<forall>j k. j < 512 \<longrightarrow> k < child_n l n' j \<longrightarrow> tget l d2 (ps' ! j) k = tget l d (ind d p ! j) k"
    unfolding cshrink_post_def cforest_child_n by blast
  have list: "[int (n' div 512 ^ l)..int ((n - 1) div 512 ^ l)] = map int js"
    unfolding js_def by (rule upto_map_int)
  have run: "inode_indirect_shrink (Suc l) d p cur old new =
      (if list_all (\<lambda>p. p = EOF) ps' then do { d \<leftarrow> block_free d2 p; Some (EOF, int (n - n'), d) }
       else do { d \<leftarrow> disk_write d2 p (enc_words ps'); Some (p, int (n - n'), d) })"
    using rd loop [folded list] \<open>p \<noteq> EOF\<close> by (simp add: Let_def idx)
  show thesis
    by (rule that [OF post run])
qed

lemma shrink_level:
  fixes d :: "'x disk_t_scheme"
  assumes IH: "\<And>F (d :: 'x disk_t_scheme) p cur. shrink_pre Is l F d p (clampn l cur old) (clampn l cur new) \<Longrightarrow>
      shrink_post Is l F d p (clampn l cur old) (clampn l cur new) (inode_indirect_shrink l d p cur old new)"
    and l: "Suc l \<le> 3" and pre: "shrink_pre Is (Suc l) F d p (clampn (Suc l) cur old) (clampn (Suc l) cur new)"
  shows "shrink_post Is (Suc l) F d p (clampn (Suc l) cur old) (clampn (Suc l) cur new)
    (inode_indirect_shrink (Suc l) d p cur old new)"
proof -
  define n n' where n_def: "n = clampn (Suc l) cur old" and n'_def: "n' = clampn (Suc l) cur new"
  have inv: "store_inv d F Is" and tree: "tree_ok (Suc l) d p n" and disj: "tset (Suc l) d p n \<inter> F = {}"
    and less: "n' < n"
    using pre by (simp_all add: shrink_pre_def n_def n'_def)
  let ?ps = "ind d p"
  have p: "data_block d p" "p \<notin> fset l d ?ps n" and set: "tset (Suc l) d p n = insert p (fset l d ?ps n)"
    and meta: "tmeta (Suc l) d p n = insert p (fmeta l d ?ps n)"
    using tree less by (simp_all add: tree_ok_Suc tset_Suc tmeta_Suc)
  from IH l n_def n'_def less inv tree disj obtain ps' d2 F2 where
    len: "length ps' = 512" and inv2: "store_inv d2 F2 Is" and
    F2: "F2 = F \<union> (fset l d ?ps n - fset l d2 ps' n')" and
    fr: "framed (insert 0 (F2 \<union> fmeta l d ?ps n)) d d2" and forest: "forest_ok l d2 ps' n'" and
    sub: "fset l d2 ps' n' \<subseteq> fset l d ?ps n" "fmeta l d2 ps' n' \<subseteq> fmeta l d ?ps n" and
    get: "\<forall>j k. j < 512 \<longrightarrow> k < child_n l n' j \<longrightarrow> tget l d2 (ps' ! j) k = tget l d (?ps ! j) k" and
    run: "inode_indirect_shrink (Suc l) d p cur old new =
      (if list_all (\<lambda>p. p = EOF) ps' then do { d \<leftarrow> block_free d2 p; Some (EOF, int (n - n'), d) }
       else do { d \<leftarrow> disk_write d2 p (enc_words ps'); Some (p, int (n - n'), d) })"
    by (rule shrink_children)
  have p2: "data_block d2 p" "p \<notin> F2" "p \<notin> fset l d2 ps' n'"
    using p disj set F2 sub(1) framed_dev(5) [OF fr] by auto
  show ?thesis
    unfolding n_def [symmetric] n'_def [symmetric]
  proof (cases "n' = 0")
    case True
    have "list_all (\<lambda>p. p = EOF) ps'"
      using forest len unfolding True by (simp add: forest_ok_def list_all_length)
    moreover obtain d3 where d3: "block_free d2 p = Some d3" "store_inv d3 (insert p F2) Is"
        "framed (insert 0 (insert p F2)) d2 d3"
      using block_free_spec [OF inv2 p2(1,2)] by blast
    moreover have F3: "insert p F2 = F \<union> tset (Suc l) d p n"
      using F2 set unfolding True by auto
    moreover have "framed (insert 0 (insert p F2 \<union> tmeta (Suc l) d p n)) d d3"
      by (rule framed_mono [OF framed_trans [OF fr d3(3)]]) (use meta in auto)
    ultimately show "shrink_post Is (Suc l) F d p n n' (inode_indirect_shrink (Suc l) d p cur old new)"
      unfolding shrink_post_def True using run True
      by (intro exI [of _ EOF] exI [of _ d3] exI [of _ "insert p F2"]) simp
  next
    case False
    have "0 < child_n l n' 0"
      using False by (simp add: child_n_def)
    then have "data_block d2 (ps' ! 0)"
      using forest tree_ok_root [of l d2 "ps' ! 0" "child_n l n' 0"] by (simp add: forest_ok_def)
    then have "\<not> list_all (\<lambda>p. p = EOF) ps'"
      using data_block_unat(3) [OF store_inv_dest(2) [OF inv2]] len
      by (auto simp: list_all_length intro!: exI [of _ 0])
    moreover have le: "n' \<le> 512 ^ Suc l"
      unfolding n'_def by (rule clampn_le)
    note store = forest_store [OF inv2 p2 forest len _ le]
    let ?d = "upd_blk d2 p (enc_words ps')"
    have "framed (insert 0 (F2 \<union> tmeta (Suc l) d p n)) d ?d"
      by (rule framed_mono [OF framed_trans [OF fr store(3)]]) (use meta False in auto)
    moreover have "tset (Suc l) ?d p n' = insert p (fset l d2 ps' n')" "tmeta (Suc l) ?d p n' = insert p (fmeta l d2 ps' n')"
      using store(5,6) False by simp_all
    moreover from this have "F2 = F \<union> (tset (Suc l) d p n - tset (Suc l) ?d p n')"
      using F2 set p(2) by auto
    moreover have "\<forall>k < n'. tget (Suc l) ?d p k = tget (Suc l) d p k"
      using store(7) get child_index [of _ n' l] le False by simp
    ultimately show "shrink_post Is (Suc l) F d p n n' (inode_indirect_shrink (Suc l) d p cur old new)"
      unfolding shrink_post_def using run False store(1,2,4) set meta sub
      by (intro exI [of _ p] exI [of _ ?d] exI [of _ F2]) (auto simp: insert_mono)
  qed
qed

theorem inode_indirect_shrink_spec:
  "l \<le> 3 \<Longrightarrow> shrink_pre Is l F d p (clampn l cur old) (clampn l cur new) \<Longrightarrow>
    shrink_post Is l F d p (clampn l cur old) (clampn l cur new) (inode_indirect_shrink l d p cur old new)"
proof (induction l arbitrary: F d p cur)
  case 0
  then have n: "clampn 0 cur old = 1" "clampn 0 cur new = 0" and p: "data_block d p" "p \<notin> F" and inv: "store_inv d F Is"
    by (auto simp: shrink_pre_def split: if_splits)
  obtain d' where "block_free d p = Some d'" "store_inv d' (insert p F) Is" "framed (insert 0 (insert p F)) d d'"
    using block_free_spec [OF inv p] by blast
  moreover have "p \<noteq> EOF"
    using data_block_unat(3) [OF store_inv_dest(2) [OF inv] p(1)] .
  ultimately show ?case
    unfolding shrink_post_def n by (intro exI [of _ EOF] exI [of _ d'] exI [of _ "insert p F"]) auto
next
  case (Suc l)
  show ?case
    by (rule shrink_level [OF Suc.IH Suc.prems]) (use Suc.prems(1) in simp_all)
qed

end
