(* ===== verification/Inode_Slots.thy ===== *)
theory Inode_Slots
  imports Inode Tree_Grow Tree_Shrink
begin

text \<open>
  The block slots of an inode are 499 trees side by side.  With \<open>bc\<close> blocks in the file the
  slots before the last one in use are full and those after it empty; the two loops of
  \<open>inode_setsize\<close> walk the slots between the old and the new count.
\<close>

section \<open>How many blocks a slot has\<close>

definition slot_n :: "int \<Rightarrow> nat \<Rightarrow> nat" where
  "slot_n bc s = clampn (slot_level s) (int (slot_first s)) bc"

definition slot_of :: "int \<Rightarrow> nat" where
  "slot_of x = nat (blockidx2blockslot x)"

abbreviation slots_ok :: "'x disk_t_scheme \<Rightarrow> blockno list \<Rightarrow> int \<Rightarrow> bool" where
  "slots_ok d blocks bc \<equiv> gforest 499 slot_level d blocks (slot_n bc)"

abbreviation slots_set :: "'x disk_t_scheme \<Rightarrow> blockno list \<Rightarrow> int \<Rightarrow> blockno set" where
  "slots_set d blocks bc \<equiv> gset 499 slot_level d blocks (slot_n bc)"

abbreviation slots_meta :: "'x disk_t_scheme \<Rightarrow> blockno list \<Rightarrow> int \<Rightarrow> blockno set" where
  "slots_meta d blocks bc \<equiv> gmeta 499 slot_level d blocks (slot_n bc)"

definition slots_count :: "int \<Rightarrow> nat" where
  "slots_count bc = (\<Sum>s<499. tcount (slot_level s) (slot_n bc s))"

text \<open>The file size from which the source can grow a file even when the disk fills up.\<close>

definition slots_safe :: "int \<Rightarrow> bool" where
  "slots_safe bc \<longleftrightarrow> (\<forall>s < 499. safe (slot_level s) (slot_n bc s))"

lemma int_slot_n: "int (slot_n bc s) = min (512 ^ slot_level s) (max 0 (bc - int (slot_first s)))"
  by (simp add: slot_n_def int_clampn)

lemma slot_n_le: "slot_n bc s \<le> 512 ^ slot_level s"
  by (simp add: slot_n_def clampn_le)

lemma slot_n_mono: "bc \<le> bc' \<Longrightarrow> slot_n bc s \<le> slot_n bc' s"
  unfolding slot_n_def clampn_def by (intro nat_mono min.mono max.mono) simp_all

lemma slot_n_0 [simp]: "bc \<le> 0 \<Longrightarrow> slot_n bc s = 0"
  by (simp add: slot_n_def clampn_def)

lemma slot_of_facts:
  assumes "0 \<le> x" and "x < FIRST_UNREACHABLE_BLOCK"
  shows "blockidx2blockslot x = int (slot_of x)" "slot_of x < 499" "nat (indirection_level x) = slot_level (slot_of x)"
    "blockslot2firstblockidx (int (slot_of x)) = int (slot_first (slot_of x))"
    "int (slot_first (slot_of x)) \<le> x" "x < int (slot_first (slot_of x)) + 512 ^ slot_level (slot_of x)"
  using slot_facts [OF assms] by (simp_all add: slot_of_def)

lemma slot_of_first:
  assumes "s < 499"
  shows "slot_of (int (slot_first s)) = s" "int (slot_first s) < FIRST_UNREACHABLE_BLOCK"
proof -
  show lt: "int (slot_first s) < FIRST_UNREACHABLE_BLOCK"
    by (simp add: slot_first_def)
  have "blockidx2blockslot (int (slot_first s)) = int s"
    using lt assms by (intro slot_unique) simp_all
  then show "slot_of (int (slot_first s)) = s"
    by (simp add: slot_of_def)
qed

text \<open>The count changes in one slot only while the file's end moves within that slot.\<close>

lemma slot_n_move:
  assumes "s < 499" and "int (slot_first s) \<le> m" and "m \<le> int (slot_first s) + 512 ^ slot_level s"
    and "int (slot_first s) \<le> m'" and "m' \<le> int (slot_first s) + 512 ^ slot_level s" and "t < 499"
  shows "slot_n m' t = (if t = s then nat (m' - int (slot_first s)) else slot_n m t)"
proof -
  have before: "int (slot_first t) + 512 ^ slot_level t \<le> int (slot_first s)" if "t < s"
  proof -
    have "int (slot_first t + 512 ^ slot_level t) \<le> int (slot_first s)"
      using slot_first_mono [OF that assms(1)] by (simp only: of_nat_le_iff)
    then show ?thesis by simp
  qed
  have after: "int (slot_first s) + 512 ^ slot_level s \<le> int (slot_first t)" if "s < t"
  proof -
    have "int (slot_first s + 512 ^ slot_level s) \<le> int (slot_first t)"
      using slot_first_mono [OF that assms(6)] by (simp only: of_nat_le_iff)
    then show ?thesis by simp
  qed
  consider "t = s" | "t < s" | "s < t"
    by linarith
  then have "int (slot_n m' t) = int (if t = s then nat (m' - int (slot_first s)) else slot_n m t)"
  proof cases
    case 1
    then show ?thesis using assms(4,5) by (simp add: int_slot_n)
  next
    case 2
    have "0 < (512 :: int) ^ slot_level t" by simp
    then show ?thesis using 2 before assms(2,4) by (simp add: int_slot_n)
  next
    case 3
    have "0 < (512 :: int) ^ slot_level t" by simp
    then show ?thesis using 3 after assms(3,5) by (simp add: int_slot_n)
  qed
  then show ?thesis
    by simp
qed

lemma slots_count_mono: "bc \<le> bc' \<Longrightarrow> slots_count bc \<le> slots_count bc'"
  unfolding slots_count_def by (intro sum_mono tcount_mono slot_n_mono)

lemma slots_count_change:
  assumes "s < 499" and "\<And>t. t < 499 \<Longrightarrow> t \<noteq> s \<Longrightarrow> slot_n m' t = slot_n m t"
  shows "slots_count m' + tcount (slot_level s) (slot_n m s) = slots_count m + tcount (slot_level s) (slot_n m' s)"
proof -
  have split: "slots_count x = tcount (slot_level s) (slot_n x s) + (\<Sum>t \<in> {..<499} - {s}. tcount (slot_level t) (slot_n x t))" for x
    unfolding slots_count_def using assms(1) by (intro sum.remove) auto
  have "(\<Sum>t \<in> {..<499} - {s}. tcount (slot_level t) (slot_n m' t)) = (\<Sum>t \<in> {..<499} - {s}. tcount (slot_level t) (slot_n m t))"
    using assms(2) by (intro sum.cong) auto
  then show ?thesis
    using split [of m] split [of m'] by simp
qed

section \<open>The growing loop\<close>

definition grown :: "ino list \<Rightarrow> blockno set \<Rightarrow> 'x disk_t_scheme \<Rightarrow> blockno list \<Rightarrow> int \<Rightarrow>
    blockno set \<Rightarrow> 'x disk_t_scheme \<Rightarrow> blockno list \<Rightarrow> int \<Rightarrow> bool" where
  "grown Is F d blocks m F' d' blocks' m' \<longleftrightarrow> store_inv d' F' Is \<and> F' \<subseteq> F \<and>
     framed (insert 0 (F \<union> slots_meta d blocks m)) d d' \<and> length blocks' = 499 \<and> slots_ok d' blocks' m' \<and>
     slots_set d' blocks' m' = slots_set d blocks m \<union> (F - F') \<and>
     slots_meta d' blocks' m' \<subseteq> slots_meta d blocks m \<union> F \<and>
     slots_count m' + card F' = slots_count m + card F \<and>
     (\<forall>s k. s < 499 \<longrightarrow> k < slot_n m s \<longrightarrow>
       tget (slot_level s) d' (blocks' ! s) k = tget (slot_level s) d (blocks ! s) k)"

lemma grown_refl:
  "store_inv d F Is \<Longrightarrow> length blocks = 499 \<Longrightarrow> slots_ok d blocks m \<Longrightarrow> grown Is F d blocks m F d blocks m"
  by (auto simp: grown_def)

lemma grown_trans:
  assumes 1: "grown Is F d blocks m F1 d1 blocks1 m1" and 2: "grown Is F1 d1 blocks1 m1 F2 d2 blocks2 m2" and le: "m \<le> m1"
  shows "grown Is F d blocks m F2 d2 blocks2 m2"
proof -
  have "framed (insert 0 (F \<union> slots_meta d blocks m)) d d2"
    by (rule framed_mono [OF framed_trans [of _ d d1 _ d2]]) (use 1 2 in \<open>auto simp: grown_def\<close>)
  moreover have "tget (slot_level s) d2 (blocks2 ! s) k = tget (slot_level s) d (blocks ! s) k"
    if "s < 499" "k < slot_n m s" for s k
  proof -
    have "k < slot_n m1 s"
      using that(2) slot_n_mono [OF le, of s] by simp
    then have "tget (slot_level s) d2 (blocks2 ! s) k = tget (slot_level s) d1 (blocks1 ! s) k"
      using 2 that(1) by (simp add: grown_def)
    also have "\<dots> = tget (slot_level s) d (blocks ! s) k"
      using 1 that by (simp add: grown_def)
    finally show ?thesis .
  qed
  ultimately show ?thesis
    using 1 2 unfolding grown_def by auto
qed

lemma grow_slots_spec:
  assumes "store_inv d F Is" and "slots_ok d blocks m" and "slots_set d blocks m \<inter> F = {}" and "length blocks = 499"
    and "0 \<le> m" and "m < new" and "new \<le> FIRST_UNREACHABLE_BLOCK"
    and "last_slot = -1 \<or> last_slot + 1 = int (slot_of m)" and "slot_n old (slot_of m) = slot_n m (slot_of m)"
    and "old \<le> m"
    and "safe (slot_level (slot_of m)) (slot_n m (slot_of m)) \<or> slots_count new \<le> slots_count m + card F"
  shows "\<exists>blocks' m' last' d' F'. grow_slots old new blocks m last_slot True d = Some (blocks', m', last', d') \<and>
    (if slots_count new \<le> slots_count m + card F then m' = new else m \<le> m' \<and> m' < new) \<and>
    grown Is F d blocks m F' d' blocks' m'"
  using assms
proof (induction "nat (new - m)" arbitrary: d F blocks m last_slot rule: less_induct)
  case less
  note prems = less.prems
  define s where "s = slot_of m"
  have "m < FIRST_UNREACHABLE_BLOCK"
    using prems(6,7) by linarith
  note slot = slot_of_facts [OF prems(5) this, folded s_def]
  let ?first = "int (slot_first s)" and ?span = "512 ^ slot_level s"
  let ?c = "slot_n m s" and ?c' = "slot_n new s"
  define m1 where "m1 = min new (?first + ?span)"
  have m1: "m < m1" "m1 \<le> new" "?first \<le> m1" "m1 \<le> ?first + ?span"
    using prems(6) slot(5,6) by (simp_all add: m1_def)
  have mid: "m \<le> ?first + ?span"
    using slot(6) by simp
  have at: "?c = nat (m - ?first)" "?c' = nat (m1 - ?first)"
  proof -
    have "int ?c = m - ?first" "int ?c' = m1 - ?first"
      using slot(5,6) prems(6) m1_def by (simp_all add: int_slot_n)
    then show "?c = nat (m - ?first)" "?c' = nat (m1 - ?first)"
      by linarith+
  qed
  have "?c < ?c'"
    using at m1(1) slot(5) by simp
  have step: "slot_n (m + int a) t = ((slot_n m)(s := ?c + a)) t" if "a \<le> ?c' - ?c" "t < 499" for a t
  proof -
    have "m + int a \<le> ?first + ?span" "nat (m + int a - ?first) = ?c + a"
      using that(1) at m1 slot(5) by auto
    then show ?thesis
      using slot_n_move [OF slot(2,5) mid _ _ that(2), of "m + int a"] slot(5) by simp
  qed
  have full: "slot_n m1 t = ((slot_n m)(s := ?c')) t" if "t < 499" for t
    using step [of "?c' - ?c" t] that \<open>?c < ?c'\<close> at m1(1) slot(5) by simp
  have count: "slots_count m1 + tcount (slot_level s) ?c = slots_count m + tcount (slot_level s) ?c'"
    using slots_count_change [OF slot(2), of m1 m] full slot(2) by simp
  have pre: "grow_pre (slot_level s) Is F d (blocks ! s) ?c ?c'"
    using prems(1-3,11) slot(2) count slots_count_mono [OF m1(2)] \<open>?c < ?c'\<close> slot_n_le
      gforest_child(1) [OF prems(2) slot(2)] gset_split [OF slot(2), of slot_level d blocks "slot_n m"]
    by (auto simp: grow_pre_def s_def [symmetric])
  have old: "clampn (slot_level s) ?first old = ?c" "clampn (slot_level s) ?first new = ?c'"
    using prems(9) by (simp_all add: slot_n_def s_def)
  have "grow_post (slot_level s) Is F d (blocks ! s) ?c ?c'
      (inode_indirect_grow (slot_level s) d (blocks ! s) ?first old new)"
    using inode_indirect_grow_spec [of "slot_level s" Is F d "blocks ! s" ?first old new] pre old slot(2) by simp
  then obtain ok p' a d1 where run: "inode_indirect_grow (slot_level s) d (blocks ! s) ?first old new = Some (ok, p', int a, d1)"
      and post: "grow_post (slot_level s) Is F d (blocks ! s) ?c ?c' (Some (ok, p', int a, d1))"
    by (auto simp: grow_post_def)
  obtain F1 where inv1: "store_inv d1 F1 Is" "F1 \<subseteq> F" and fr1: "framed (insert 0 (F \<union> slots_meta d blocks m)) d d1" and
    a: "if ok then a = ?c' - ?c else a < ?c' - ?c" and ok: "ok = (tcount (slot_level s) ?c' \<le> tcount (slot_level s) ?c + card F)" and
    res: "gforest 499 slot_level d1 (blocks[s := p']) ((slot_n m)(s := ?c + a))"
    "gset 499 slot_level d1 (blocks[s := p']) ((slot_n m)(s := ?c + a)) = slots_set d blocks m \<union> (F - F1)"
    "gmeta 499 slot_level d1 (blocks[s := p']) ((slot_n m)(s := ?c + a)) \<subseteq> slots_meta d blocks m \<union> F" and
    tc: "tcount (slot_level s) (?c + a) + card F1 = tcount (slot_level s) ?c + card F" and
    get: "\<forall>j k. j < 499 \<longrightarrow> k < slot_n m j \<longrightarrow>
      tget (slot_level j) d1 (blocks[s := p'] ! j) k = tget (slot_level j) d (blocks ! j) k"
    by (rule grow_one [OF post prems(1-4) slot(2)])
  have "a \<le> ?c' - ?c"
    using a by (simp split: if_splits)
  note stepa = step [OF this]
  have counts: "slots_ok d1 ps (m + int a) = gforest 499 slot_level d1 ps ((slot_n m)(s := ?c + a))"
    "slots_set d1 ps (m + int a) = gset 499 slot_level d1 ps ((slot_n m)(s := ?c + a))"
    "slots_meta d1 ps (m + int a) = gmeta 499 slot_level d1 ps ((slot_n m)(s := ?c + a))" for ps
    by (rule gforest_cong_count [OF stepa]; assumption)+
  have cnt: "slots_count (m + int a) + card F1 = slots_count m + card F"
    using slots_count_change [OF slot(2), of "m + int a" m] stepa tc slot(2) by simp
  have grown1: "grown Is F d blocks m F1 d1 (blocks[s := p']) (m + int a)"
    unfolding grown_def counts using inv1 fr1 res cnt get prems(4) by simp
  have unfold: "grow_slots old new blocks m last_slot True d =
      grow_slots old new (blocks[s := p']) (m + int a) (int s) ok d1"
    using prems(6,8) slot(1-4) run by (auto simp: grow_slots.simps [of old new blocks m] s_def [symmetric] Let_def)
  show ?case
  proof (cases "ok \<and> m1 < new")
    case True
    have m1a: "m + int a = m1" "m1 = ?first + ?span"
      using True a at m1(1) slot(5) by (auto simp: m1_def)
    have next_slot: "slot_of m1 = Suc s" "int (slot_first (Suc s)) = m1"
    proof -
      have "s \<noteq> 498"
        using True m1a(2) prems(7) by (auto simp: slot_first_def slot_level_def)
      then have "Suc s < 499"
        using slot(2) by simp
      then show "int (slot_first (Suc s)) = m1"
        using slot_first_Suc m1a(2) by simp
      then show "slot_of m1 = Suc s"
        using slot_of_first(1) [OF \<open>Suc s < 499\<close>] by simp
    qed
    have zero: "slot_n m1 (Suc s) = 0" "slot_n old (Suc s) = 0"
      using next_slot(2) prems(10) m1(1) by (simp_all add: slot_n_def clampn_def)
    have "\<exists>blocks' m' last' d' F'. grow_slots old new (blocks[s := p']) (m + int a) (int s) True d1 = Some (blocks', m', last', d') \<and>
        (if slots_count new \<le> slots_count (m + int a) + card F1 then m' = new else m + int a \<le> m' \<and> m' < new) \<and>
        grown Is F1 d1 (blocks[s := p']) (m + int a) F' d' blocks' m'"
    proof (rule less.hyps)
      show "nat (new - (m + int a)) < nat (new - m)"
        using m1a(1) m1(1) True by simp
      show "slots_set d1 (blocks[s := p']) (m + int a) \<inter> F1 = {}"
        using grown1 prems(3) by (auto simp: grown_def)
    qed (use grown1 prems(5,7,10) m1a(1) m1(1) True next_slot zero in \<open>simp_all add: grown_def\<close>)
    then obtain blocks' m' last' d' F' where
      rest: "grow_slots old new (blocks[s := p']) (m + int a) (int s) True d1 = Some (blocks', m', last', d')"
      "if slots_count new \<le> slots_count (m + int a) + card F1 then m' = new else m + int a \<le> m' \<and> m' < new"
      "grown Is F1 d1 (blocks[s := p']) (m + int a) F' d' blocks' m'"
      by blast
    show ?thesis
      using rest(1,2) grown_trans [OF grown1 rest(3)] unfold True cnt
      by (intro exI [of _ blocks'] exI [of _ m'] exI [of _ last'] exI [of _ d'] exI [of _ F']) (auto split: if_splits)
  next
    case False
    then have "grow_slots old new (blocks[s := p']) (m + int a) (int s) ok d1 =
        Some (blocks[s := p'], m + int a, int s, d1)"
      using a at m1 slot(5) by (auto simp: grow_slots.simps [of old new "blocks[s := p']"])
    moreover have "if slots_count new \<le> slots_count m + card F then m + int a = new else m \<le> m + int a \<and> m + int a < new"
    proof (cases ok)
      case True
      then have "m + int a = new"
        using False a at m1 slot(5) by auto
      then show ?thesis
        using cnt by simp
    next
      case no: False
      then have "m + int a < new"
        using a at m1 slot(5) by auto
      moreover have "\<not> slots_count new \<le> slots_count m + card F"
        using no ok count slots_count_mono [OF m1(2)] by simp
      ultimately show ?thesis
        by simp
    qed
    ultimately show ?thesis
      using grown1 unfold by auto
  qed
qed

section \<open>The shrinking loop\<close>

definition shrunk :: "ino list \<Rightarrow> blockno set \<Rightarrow> 'x disk_t_scheme \<Rightarrow> blockno list \<Rightarrow> int \<Rightarrow>
    blockno set \<Rightarrow> 'x disk_t_scheme \<Rightarrow> blockno list \<Rightarrow> int \<Rightarrow> bool" where
  "shrunk Is F d blocks m F' d' blocks' m' \<longleftrightarrow> store_inv d' F' Is \<and>
     F' = F \<union> (slots_set d blocks m - slots_set d' blocks' m') \<and>
     framed (insert 0 (F' \<union> slots_meta d blocks m)) d d' \<and> length blocks' = 499 \<and> slots_ok d' blocks' m' \<and>
     slots_set d' blocks' m' \<subseteq> slots_set d blocks m \<and> slots_meta d' blocks' m' \<subseteq> slots_meta d blocks m \<and>
     (\<forall>s k. s < 499 \<longrightarrow> k < slot_n m' s \<longrightarrow>
       tget (slot_level s) d' (blocks' ! s) k = tget (slot_level s) d (blocks ! s) k)"

lemma shrunk_refl:
  "store_inv d F Is \<Longrightarrow> length blocks = 499 \<Longrightarrow> slots_ok d blocks m \<Longrightarrow> shrunk Is F d blocks m F d blocks m"
  by (auto simp: shrunk_def)

lemma shrunk_trans:
  assumes 1: "shrunk Is F d blocks m F1 d1 blocks1 m1" and 2: "shrunk Is F1 d1 blocks1 m1 F2 d2 blocks2 m2" and le: "m2 \<le> m1"
  shows "shrunk Is F d blocks m F2 d2 blocks2 m2"
proof -
  have "framed (insert 0 (F2 \<union> slots_meta d blocks m)) d d2"
    by (rule framed_mono [OF framed_trans [of _ d d1 _ d2]]) (use 1 2 in \<open>auto simp: shrunk_def\<close>)
  moreover have "tget (slot_level s) d2 (blocks2 ! s) k = tget (slot_level s) d (blocks ! s) k"
    if "s < 499" "k < slot_n m2 s" for s k
  proof -
    have "k < slot_n m1 s"
      using that(2) slot_n_mono [OF le, of s] by simp
    then have "tget (slot_level s) d1 (blocks1 ! s) k = tget (slot_level s) d (blocks ! s) k"
      using 1 that(1) by (simp add: shrunk_def)
    moreover have "tget (slot_level s) d2 (blocks2 ! s) k = tget (slot_level s) d1 (blocks1 ! s) k"
      using 2 that by (simp add: shrunk_def)
    ultimately show ?thesis
      by simp
  qed
  ultimately show ?thesis
    using 1 2 unfolding shrunk_def by auto
qed

lemma shrink_slots_spec:
  assumes "store_inv d F Is" and "slots_ok d blocks m" and "slots_set d blocks m \<inter> F = {}" and "length blocks = 499"
    and "0 \<le> new" and "new < m" and "m \<le> FIRST_UNREACHABLE_BLOCK"
    and "last_slot = -1 \<or> last_slot - 1 = int (slot_of (m - 1))"
    and "slot_n old (slot_of (m - 1)) = slot_n m (slot_of (m - 1))" and "m \<le> old"
  shows "\<exists>blocks' d' F'. shrink_slots old new blocks m last_slot d = Some (blocks', new, d') \<and>
    shrunk Is F d blocks m F' d' blocks' new"
  using assms
proof (induction "nat (m - new)" arbitrary: d F blocks m last_slot rule: less_induct)
  case less
  note prems = less.prems
  define s where "s = slot_of (m - 1)"
  have "0 \<le> m - 1" "m - 1 < FIRST_UNREACHABLE_BLOCK"
    using prems(5-7) by linarith+
  note slot = slot_of_facts [OF this, folded s_def]
  let ?first = "int (slot_first s)" and ?span = "512 ^ slot_level s"
  let ?c = "slot_n m s" and ?c' = "slot_n new s"
  define m1 where "m1 = max new ?first"
  have m: "?first < m" "m \<le> ?first + ?span"
    using slot(5,6) by linarith+
  have m1: "m1 < m" "new \<le> m1" "?first \<le> m1" "m1 \<le> ?first + ?span"
    using prems(6) m by (simp_all add: m1_def)
  have at: "int ?c = m - ?first" "int ?c' = m1 - ?first"
    using m prems(6) m1_def by (simp_all add: int_slot_n)
  have less': "?c' < ?c"
    using at m1(1) by simp
  have move: "slot_n m1 t = ((slot_n m)(s := ?c')) t" if "t < 499" for t
  proof -
    have "nat (m1 - ?first) = ?c'"
      using at(2) by simp
    then show ?thesis
      using slot_n_move [OF slot(2) _ m(2) m1(3,4) that] m(1) by simp
  qed
  have pre: "shrink_pre Is (slot_level s) F d (blocks ! s) ?c ?c'"
    using prems(1-3) slot(2) less' gforest_child(1) [OF prems(2) slot(2)]
      gset_split [OF slot(2), of slot_level d blocks "slot_n m"]
    by (auto simp: shrink_pre_def)
  have old: "clampn (slot_level s) ?first old = ?c" "clampn (slot_level s) ?first new = ?c'"
    using prems(9) by (simp_all add: slot_n_def s_def)
  have "shrink_post Is (slot_level s) F d (blocks ! s) ?c ?c'
      (inode_indirect_shrink (slot_level s) d (blocks ! s) ?first old new)"
    using inode_indirect_shrink_spec [of "slot_level s" Is F d "blocks ! s" ?first old new] pre old slot(2) by simp
  then obtain p' a d1 where run: "inode_indirect_shrink (slot_level s) d (blocks ! s) ?first old new = Some (p', a, d1)"
      and post: "shrink_post Is (slot_level s) F d (blocks ! s) ?c ?c' (Some (p', a, d1))"
    by (auto simp: shrink_post_def)
  note one = shrink_child [OF prems(1-4) slot(2) less' post]
  have counts: "slots_ok d1 ps m1 = gforest 499 slot_level d1 ps ((slot_n m)(s := ?c'))"
    "slots_set d1 ps m1 = gset 499 slot_level d1 ps ((slot_n m)(s := ?c'))"
    "slots_meta d1 ps m1 = gmeta 499 slot_level d1 ps ((slot_n m)(s := ?c'))" for ps
    by (rule gforest_cong_count [OF move]; assumption)+
  let ?F1 = "F \<union> (slots_set d blocks m - slots_set d1 (blocks[s := p']) m1)"
  have shrunk1: "shrunk Is F d blocks m ?F1 d1 (blocks[s := p']) m1"
    unfolding shrunk_def counts using one prems(4) move by simp
  have "m - a = m1"
    using one(1) at less' by simp
  then have unfold: "shrink_slots old new blocks m last_slot d = shrink_slots old new (blocks[s := p']) m1 (int s) d1"
    using prems(6,8) slot(1-4) run by (auto simp: shrink_slots.simps [of old new blocks m] s_def [symmetric] Let_def)
  show ?case
  proof (cases "new < m1")
    case True
    then have first: "m1 = ?first" "s \<noteq> 0"
      using prems(5) by (auto simp: m1_def slot_first_def max_def split: if_splits)
    then obtain r where r: "s = Suc r"
      using not0_implies_Suc by blast
    have rs: "int (slot_first r) + 512 ^ slot_level r = m1" "r < 499"
      using slot_first_Suc [of r] slot(2) first(1) r by simp_all
    then have prev: "slot_of (m1 - 1) = r"
    proof -
      have "blockidx2blockslot (m1 - 1) = int r"
      proof (rule slot_unique [OF _ _ rs(2)])
        have "(1 :: int) \<le> 512 ^ slot_level r"
          by simp
        then show "int (slot_first r) \<le> m1 - 1"
          using rs(1) by linarith
        show "m1 - 1 < int (slot_first r + 512 ^ slot_level r)"
          using rs(1) by simp
        show "0 \<le> m1 - 1" "m1 - 1 < FIRST_UNREACHABLE_BLOCK"
          using True m1(1) prems(5,7) by linarith+
      qed
      then show ?thesis
        by (simp add: slot_of_def)
    qed
    have full: "slot_n x r = 512 ^ slot_level r" if "m1 \<le> x" for x
    proof -
      have "int (slot_n x r) = 512 ^ slot_level r"
        using that rs(1) by (simp add: int_slot_n)
      then show ?thesis
        by simp
    qed
    have "\<exists>blocks' d' F'. shrink_slots old new (blocks[s := p']) m1 (int s) d1 = Some (blocks', new, d') \<and>
        shrunk Is ?F1 d1 (blocks[s := p']) m1 F' d' blocks' new"
    proof (rule less.hyps)
      show "nat (m1 - new) < nat (m - new)"
        using m1(1) True by simp
      show "slots_set d1 (blocks[s := p']) m1 \<inter> ?F1 = {}"
        using shrunk1 prems(3) by (auto simp: shrunk_def)
      show "int s = -1 \<or> int s - 1 = int (slot_of (m1 - 1))"
        using prev r by simp
      show "slot_n old (slot_of (m1 - 1)) = slot_n m1 (slot_of (m1 - 1))"
        unfolding prev using full prems(10) m1(1) by simp
    qed (use shrunk1 prems(5,7,10) m1(1) True in \<open>simp_all add: shrunk_def\<close>)
    then show ?thesis
      using shrunk_trans [OF shrunk1] True unfold by fastforce
  next
    case False
    then have "m1 = new"
      using m1(2) by simp
    then show ?thesis
      using shrunk1 unfold by (auto simp: shrink_slots.simps [of old new "blocks[s := p']"])
  qed
qed

end
