(* ===== verification/Tree_Map.thy ===== *)
theory Tree_Map
  imports Tree_Range
begin

text \<open>
  Where the blocks of a file are on the disk, as a relation between disk blocks and block indexes
  of the file, and what it means that a range of the file's bytes was written or read through
  such a map: \<open>written\<close> and \<open>filled\<close> determine every byte of the disk and of the
  caller's buffer.
\<close>

section \<open>Where the blocks of a file are\<close>

text \<open>\<open>(b, x)\<close> is in the map of a tree if disk block \<open>b\<close> holds block \<open>x\<close> of the file.\<close>

definition tmap :: "nat \<Rightarrow> 'x disk_t_scheme \<Rightarrow> blockno \<Rightarrow> int \<Rightarrow> nat \<Rightarrow> (blockno \<times> int) set" where
  "tmap l d p cur n = (\<lambda>k. (tget l d p k, cur + int k)) ` {..<n}"

text \<open>\<open>covered pos endpos x\<close>: some byte of the range is in block \<open>x\<close> of the file.\<close>

definition covered :: "int \<Rightarrow> int \<Rightarrow> int \<Rightarrow> bool" where
  "covered pos endpos x \<longleftrightarrow> pos < (x + 1) * BLOCKSIZE \<and> x * BLOCKSIZE < endpos"

definition written :: "int \<Rightarrow> int \<Rightarrow> (int \<Rightarrow> byte) \<Rightarrow> (blockno \<times> int) set \<Rightarrow>
    'x disk_t_scheme \<Rightarrow> 'x disk_t_scheme \<Rightarrow> bool" where
  "written pos endpos src M d d' \<longleftrightarrow> same_dev d d' \<and> (\<forall>b. b \<notin> fst ` M \<longrightarrow> blk d' b = blk d b) \<and>
     (\<forall>(b, x) \<in> M. \<forall>i < BLOCKSIZE. blk d' b ! i =
       (let a = x * BLOCKSIZE + int i in if pos \<le> a \<and> a < endpos then src a else blk d b ! i))"

definition filled :: "int \<Rightarrow> int \<Rightarrow> (blockno \<times> int) set \<Rightarrow> 'x disk_t_scheme \<Rightarrow> byte list \<Rightarrow> byte list \<Rightarrow> bool" where
  "filled pos endpos M d buf buf' \<longleftrightarrow> length buf' = length buf \<and>
     (\<forall>i < length buf. let a = pos + int i in
       (\<forall>b. (b, a div BLOCKSIZE) \<in> M \<longrightarrow> a < endpos \<longrightarrow> buf' ! i = blk d b ! nat (a mod BLOCKSIZE)) \<and>
       (endpos \<le> a \<or> a div BLOCKSIZE \<notin> snd ` M \<longrightarrow> buf' ! i = buf ! i))"

lemma written_empty [simp]: "written pos endpos src {} d d"
  by (simp add: written_def)

lemma filled_empty [simp]: "filled pos endpos {} d buf buf"
  by (simp add: filled_def Let_def)

lemma written_in:
  "written pos endpos src M d d' \<Longrightarrow> (b, x) \<in> M \<Longrightarrow> i < BLOCKSIZE \<Longrightarrow> blk d' b ! i =
    (if pos \<le> x * BLOCKSIZE + int i \<and> x * BLOCKSIZE + int i < endpos then src (x * BLOCKSIZE + int i)
     else blk d b ! i)"
  by (fastforce simp: written_def Let_def)

lemma written_out: "written pos endpos src M d d' \<Longrightarrow> b \<notin> fst ` M \<Longrightarrow> blk d' b = blk d b"
  by (simp add: written_def)

lemma written_Un:
  assumes 1: "written pos endpos src M d d1" and 2: "written pos endpos src N d1 d2"
    and disj: "fst ` M \<inter> fst ` N = {}"
  shows "written pos endpos src (M \<union> N) d d2"
proof -
  have "blk d2 b ! i = (let a = x * BLOCKSIZE + int i in if pos \<le> a \<and> a < endpos then src a else blk d b ! i)"
    if "(b, x) \<in> M \<union> N" "i < BLOCKSIZE" for b x i
  proof (cases "(b, x) \<in> M")
    case True
    then have "b \<notin> fst ` N"
      using disj by force
    then show ?thesis
      using written_in [OF 1 True that(2)] written_out [OF 2] by (simp add: Let_def)
  next
    case False
    then have N: "(b, x) \<in> N" and "b \<notin> fst ` M"
      using that disj by force+
    then show ?thesis
      using written_in [OF 2 N that(2)] written_out [OF 1] by (simp add: Let_def)
  qed
  then show ?thesis
    using 1 2 same_dev_trans by (auto simp: written_def image_Un)
qed

lemma filled_Un:
  assumes 1: "filled pos endpos M d buf buf1" and 2: "filled pos endpos N d buf1 buf2"
    and disj: "snd ` M \<inter> snd ` N = {}"
  shows "filled pos endpos (M \<union> N) d buf buf2"
proof -
  have "buf2 ! i = blk d b ! nat ((pos + int i) mod BLOCKSIZE)"
    if "i < length buf" "(b, (pos + int i) div BLOCKSIZE) \<in> M \<union> N" "pos + int i < endpos" for i b
  proof (cases "(b, (pos + int i) div BLOCKSIZE) \<in> M")
    case True
    then have "(pos + int i) div BLOCKSIZE \<notin> snd ` N"
      using disj by force
    then show ?thesis
      using 1 2 True that by (simp add: filled_def Let_def)
  next
    case False
    then show ?thesis
      using 1 2 that by (auto simp: filled_def Let_def)
  qed
  then show ?thesis
    using 1 2 by (auto simp: filled_def Let_def image_Un)
qed

lemma written_uncovered:
  assumes "written pos endpos src M d d'" and "fst ` M \<inter> fst ` N = {}" and "\<forall>(b, x) \<in> N. \<not> covered pos endpos x"
  shows "written pos endpos src (M \<union> N) d d'"
proof (rule written_Un [OF assms(1) _ assms(2)])
  show "written pos endpos src N d' d'"
    using assms(3) by (fastforce simp: written_def covered_def Let_def)
qed

lemma filled_uncovered:
  assumes "filled pos endpos M d buf buf'" and "snd ` M \<inter> snd ` N = {}" and "\<forall>(b, x) \<in> N. \<not> covered pos endpos x"
  shows "filled pos endpos (M \<union> N) d buf buf'"
proof (rule filled_Un [OF assms(1) _ assms(2)])
  have "\<not> (b, a div BLOCKSIZE) \<in> N" if "pos \<le> a" "a < endpos" for a b
  proof
    assume "(b, a div BLOCKSIZE) \<in> N"
    then have "\<not> covered pos endpos (a div BLOCKSIZE)"
      using assms(3) by auto
    moreover have "a < (a div BLOCKSIZE + 1) * BLOCKSIZE" "a div BLOCKSIZE * BLOCKSIZE \<le> a"
      using div_mult_mod_eq [of a BLOCKSIZE] pos_mod_bound [of BLOCKSIZE a] pos_mod_sign [of BLOCKSIZE a]
      by (simp_all add: algebra_simps)
    ultimately show False
      using that by (simp add: covered_def)
  qed
  then show "filled pos endpos N d buf' buf'"
    by (auto simp: filled_def Let_def)
qed

section \<open>The map of a tree\<close>

lemma snd_tmap: "snd ` tmap l d p cur n = {cur..<cur + int n}"
proof -
  have "snd ` tmap l d p cur n = (\<lambda>k. cur + int k) ` {..<n}"
    by (simp add: tmap_def image_image)
  also have "\<dots> = {cur..<cur + int n}"
  proof (intro equalityI subsetI)
    fix x assume "x \<in> {cur..<cur + int n}"
    then have "x = cur + int (nat (x - cur))" "nat (x - cur) < n"
      by auto
    then show "x \<in> (\<lambda>k. cur + int k) ` {..<n}"
      by blast
  qed auto
  finally show ?thesis .
qed

lemma fst_tmap: "tree_ok l d p n \<Longrightarrow> fst ` tmap l d p cur n \<subseteq> tset l d p n"
  using tget_in_tset by (fastforce simp: tmap_def)

lemma tget_not_tmeta: "tree_ok l d p n \<Longrightarrow> k < n \<Longrightarrow> tget l d p k \<notin> tmeta l d p n"
proof (induction l arbitrary: p n k)
  case (Suc l)
  let ?q = "k div 512 ^ l" and ?r = "k mod 512 ^ l" and ?ps = "ind d p"
  have n: "n \<le> 512 ^ Suc l" and forest: "forest_ok l d ?ps n" "p \<notin> fset l d ?ps n" "n \<noteq> 0"
    using Suc.prems by (auto simp: tree_ok_Suc split: if_splits)
  note k = child_index [OF Suc.prems(2) n]
  have child: "tree_ok l d (?ps ! ?q) (child_n l n ?q)"
    using forest(1) k(1) by (simp add: forest_ok_def)
  note inset = tget_in_tset [OF child k(2)]
  have "tget l d (?ps ! ?q) ?r \<notin> tmeta l d (?ps ! j) (child_n l n j)" if "j < 512" for j
  proof (cases "j = ?q")
    case False
    then have "tget l d (?ps ! ?q) ?r \<notin> tset l d (?ps ! j) (child_n l n j)"
      using forest(1) k(1) that inset by (auto simp: forest_ok_def)
    then show ?thesis
      using tmeta_subset by blast
  qed (use Suc.IH [OF child k(2)] in simp)
  moreover have "tget l d (?ps ! ?q) ?r \<noteq> p"
    using inset forest(2) k(1) by (auto simp: fset_def)
  ultimately show ?case
    using forest(3) by (simp add: tmeta_Suc fmeta_def)
qed simp

lemma fst_tmap_tmeta: "tree_ok l d p n \<Longrightarrow> fst ` tmap l d p cur n \<inter> tmeta l d p n = {}"
  using tget_not_tmeta by (fastforce simp: tmap_def)

abbreviation child_map :: "nat \<Rightarrow> 'x disk_t_scheme \<Rightarrow> blockno list \<Rightarrow> int \<Rightarrow> nat \<Rightarrow> nat \<Rightarrow> (blockno \<times> int) set" where
  "child_map l d ps cur n j \<equiv> tmap l d (ps ! j) (cur + 512 ^ l * int j) (child_n l n j)"

lemma tmap_Suc:
  assumes n: "n \<le> 512 ^ Suc l"
  shows "tmap (Suc l) d p cur n = (\<Union>j<512. child_map l d (ind d p) cur n j)"
proof (intro equalityI subsetI)
  fix y assume "y \<in> tmap (Suc l) d p cur n"
  then obtain k where k: "k < n" "y = (tget (Suc l) d p k, cur + int k)"
    by (auto simp: tmap_def)
  let ?q = "k div 512 ^ l" and ?r = "k mod 512 ^ l"
  have "int k = int (?q * 512 ^ l + ?r)"
    by (simp only: div_mult_mod_eq)
  then have "int k = 512 ^ l * int ?q + int ?r"
    by (simp only: of_nat_add of_nat_mult of_nat_power of_nat_numeral mult.commute)
  then have "y \<in> child_map l d (ind d p) cur n ?q"
    using k child_index [OF k(1) n] by (auto simp: tmap_def)
  then show "y \<in> (\<Union>j<512. child_map l d (ind d p) cur n j)"
    using child_index(1) [OF k(1) n] by blast
next
  fix y assume "y \<in> (\<Union>j<512. child_map l d (ind d p) cur n j)"
  then obtain j r where j: "j < 512" and r: "r < child_n l n j"
    and y: "y = (tget l d (ind d p ! j) r, cur + 512 ^ l * int j + int r)"
    by (auto simp: tmap_def)
  let ?k = "j * 512 ^ l + r"
  have "r < 512 ^ l" "?k < n"
    using r by (auto simp: child_n_def)
  then show "y \<in> tmap (Suc l) d p cur n"
    using y by (auto simp: tmap_def intro!: image_eqI [of _ _ ?k])
qed

lemma child_map_disjoint:
  assumes "i \<noteq> j" "i < 512" "j < 512"
  shows "snd ` child_map l d ps cur n i \<inter> snd ` child_map l d ps cur n j = {}"
    "forest_ok l d ps n \<Longrightarrow> fst ` child_map l d ps cur n i \<inter> fst ` child_map l d ps cur n j = {}"
proof -
  have gap: "512 ^ l * int i + int (child_n l n i) \<le> 512 ^ l * int j" if "i < j" for i j
  proof -
    have "int (i * 512 ^ l + 512 ^ l) \<le> int (j * 512 ^ l)"
      using mult_gap [OF that, of "512 ^ l"] by (simp only: of_nat_le_iff)
    then have "512 ^ l * int i + 512 ^ l \<le> 512 ^ l * int j"
      by (simp add: mult.commute)
    moreover have "int (child_n l n i) \<le> 512 ^ l"
      by (simp add: child_n_le)
    ultimately show ?thesis
      by linarith
  qed
  have "snd ` child_map l d ps cur n i \<inter> snd ` child_map l d ps cur n j = {}" if "i < j" for i j
    unfolding snd_tmap using gap [OF that] by (auto simp: disjoint_iff)
  from this [of i j] this [of j i]
  show "snd ` child_map l d ps cur n i \<inter> snd ` child_map l d ps cur n j = {}"
    using assms(1) by (metis Int_commute linorder_neqE_nat)
  assume ok: "forest_ok l d ps n"
  then have "tset l d (ps ! i) (child_n l n i) \<inter> tset l d (ps ! j) (child_n l n j) = {}"
    using assms by (simp add: forest_ok_def)
  moreover have "fst ` child_map l d ps cur n i \<subseteq> tset l d (ps ! i) (child_n l n i)" if "i < 512" for i
    using ok that by (intro fst_tmap) (simp add: forest_ok_def)
  ultimately show "fst ` child_map l d ps cur n i \<inter> fst ` child_map l d ps cur n j = {}"
    using assms(2,3) by blast
qed

end
