(* ===== verification/Tree_RW.thy ===== *)
theory Tree_RW
  imports Tree_Map
begin

text \<open>
  \<open>inode_indirect_readwrite\<close> meets its contract: of the bytes \<open>pos..<endpos\<close> of a file, a
  read delivers those that lie under the block, a write stores those and changes no other byte
  of the disk; both return how many there were.
\<close>

section \<open>How many bytes of the range lie under a block\<close>

definition cov :: "int \<Rightarrow> int \<Rightarrow> int \<Rightarrow> int \<Rightarrow> int" where
  "cov pos endpos x y = max 0 (min endpos y - max pos x)"

lemma cov_add: "pos \<le> endpos \<Longrightarrow> x \<le> y \<Longrightarrow> y \<le> z \<Longrightarrow> cov pos endpos x y + cov pos endpos y z = cov pos endpos x z"
  unfolding cov_def by linarith

lemma block_bounds:
  "a < (a div BLOCKSIZE + 1) * BLOCKSIZE" "a div BLOCKSIZE * BLOCKSIZE \<le> (a :: int)"
  using div_mult_mod_eq [of a BLOCKSIZE] pos_mod_bound [of BLOCKSIZE a] pos_mod_sign [of BLOCKSIZE a]
  by (simp_all add: algebra_simps)

lemma block_of_byte:
  "x \<le> a div BLOCKSIZE \<longleftrightarrow> x * BLOCKSIZE \<le> (a :: int)" "a div BLOCKSIZE < x \<longleftrightarrow> a < x * BLOCKSIZE"
  using block_bounds [of a] by linarith+

lemma covered_iff: "covered pos endpos x \<longleftrightarrow> pos div BLOCKSIZE \<le> x \<and> x \<le> (endpos - 1) div BLOCKSIZE"
  using block_of_byte(1) [of x "endpos - 1"] block_of_byte(2) [of pos "x + 1"] by (auto simp: covered_def)

text \<open>A block of level \<open>l\<close> at \<open>cur\<close> is touched when its share of the blocks before the
  last is larger than its share of the blocks before the first.\<close>

abbreviation blocks_before :: "int \<Rightarrow> int" where
  "blocks_before pos \<equiv> pos div BLOCKSIZE"

abbreviation blocks_upto :: "int \<Rightarrow> int" where
  "blocks_upto endpos \<equiv> (endpos - 1) div BLOCKSIZE + 1"

lemma not_covered:
  assumes "\<not> clampn l cur (blocks_before pos) < clampn l cur (blocks_upto endpos)"
    and "cur \<le> x" and "x < cur + 512 ^ l"
  shows "\<not> covered pos endpos x"
proof
  assume "covered pos endpos x"
  then have "blocks_before pos - cur \<le> x - cur" "x - cur < blocks_upto endpos - cur"
    by (simp_all add: covered_iff)
  then have "min (512 ^ l) (max 0 (blocks_before pos - cur)) < min (512 ^ l) (max 0 (blocks_upto endpos - cur))"
    using assms(2,3) by linarith
  then show False
    using assms(1) unfolding int_clampn [symmetric] by simp
qed

lemma cov_not_touched:
  assumes "\<not> clampn l cur (blocks_before pos) < clampn l cur (blocks_upto endpos)"
  shows "cov pos endpos (cur * BLOCKSIZE) ((cur + 512 ^ l) * BLOCKSIZE) = 0"
proof (rule ccontr)
  define a where "a = max pos (cur * BLOCKSIZE)"
  assume "cov pos endpos (cur * BLOCKSIZE) ((cur + 512 ^ l) * BLOCKSIZE) \<noteq> 0"
  then have a: "pos \<le> a" "a < endpos" "cur * BLOCKSIZE \<le> a" "a < (cur + 512 ^ l) * BLOCKSIZE"
    unfolding cov_def a_def by linarith+
  have "covered pos endpos (a div BLOCKSIZE)"
    using a block_bounds [of a] by (simp add: covered_def)
  moreover have "cur \<le> a div BLOCKSIZE" "a div BLOCKSIZE < cur + 512 ^ l"
    using a(3,4) by (simp_all add: block_of_byte)
  ultimately show False
    using not_covered [OF assms] by blast
qed

lemma sum_cov:
  assumes "pos \<le> endpos"
  shows "(\<Sum>j<k. cov pos endpos ((cur + 512 ^ l * int j) * BLOCKSIZE) ((cur + 512 ^ l * int j + 512 ^ l) * BLOCKSIZE))
    = cov pos endpos (cur * BLOCKSIZE) ((cur + 512 ^ l * int k) * BLOCKSIZE)"
proof (induction k)
  case (Suc k)
  let ?x = "\<lambda>k. (cur + 512 ^ l * int k) * BLOCKSIZE"
  have "(cur + 512 ^ l * int k + 512 ^ l) * BLOCKSIZE = ?x (Suc k)"
    by (simp add: algebra_simps)
  moreover have "cur * BLOCKSIZE \<le> ?x k" "?x k \<le> ?x (Suc k)"
    by (simp_all add: algebra_simps)
  ultimately show ?case
    using Suc cov_add [OF assms, of "cur * BLOCKSIZE" "?x k" "?x (Suc k)"] by (simp only: sum.lessThan_Suc)
qed (simp add: cov_def)

section \<open>One data block\<close>

lemma block_window_eq:
  assumes "pos < (x + 1) * BLOCKSIZE" "x * BLOCKSIZE < endpos" "pos < endpos"
  defines "lo \<equiv> max pos (x * BLOCKSIZE)" and "hi \<equiv> min endpos ((x + 1) * BLOCKSIZE)"
  shows "block_window (x * BLOCKSIZE) pos endpos = (lo - pos, lo - x * BLOCKSIZE, hi - lo)" "lo < hi"
    "cov pos endpos (x * BLOCKSIZE) ((x + 1) * BLOCKSIZE) = hi - lo"
  using assms by (auto simp: block_window_def Let_def cov_def lo_def hi_def algebra_simps)

definition src_byte :: "byte list option \<Rightarrow> int \<Rightarrow> int \<Rightarrow> byte" where
  "src_byte data pos a = (case data of None \<Rightarrow> 0 | Some buf \<Rightarrow> buf ! nat (a - pos))"

definition data_fits :: "byte list option \<Rightarrow> int \<Rightarrow> bool" where
  "data_fits data n \<longleftrightarrow> (case data of None \<Rightarrow> True | Some buf \<Rightarrow> n \<le> int (length buf))"

lemma read_data_block:
  assumes geo: "store_geometry d" and p: "data_block d p"
    and range: "pos < (x + 1) * BLOCKSIZE" "x * BLOCKSIZE < endpos" "pos < endpos"
    and fits: "endpos - pos \<le> int (length buf)"
  shows "\<exists>buf'. inode_indirect_readwrite 0 d p x pos endpos (Some buf) False =
      Some (cov pos endpos (x * BLOCKSIZE) ((x + 1) * BLOCKSIZE), Some buf', d) \<and>
    filled pos endpos {(p, x)} d buf buf'"
proof -
  define lo hi where lo: "lo = max pos (x * BLOCKSIZE)" and hi: "hi = min endpos ((x + 1) * BLOCKSIZE)"
  note win = block_window_eq [OF range, folded lo hi]
  have bounds: "pos \<le> lo" "x * BLOCKSIZE \<le> lo" "hi \<le> endpos" "hi \<le> x * BLOCKSIZE + BLOCKSIZE"
    unfolding lo hi by (simp_all add: algebra_simps)
  obtain buf' where buf': "memcpy buf (lo - pos) (blk d p) (lo - x * BLOCKSIZE) (hi - lo) = Some buf'"
      "length buf' = length buf" and bytes: "\<forall>i < length buf. buf' ! i =
        (if lo - pos \<le> int i \<and> int i < lo - pos + (hi - lo)
         then blk d p ! nat (lo - x * BLOCKSIZE + int i - (lo - pos)) else buf ! i)"
    using memcpy_Some [of "hi - lo" "lo - pos" "lo - x * BLOCKSIZE" buf "blk d p"] win(2) bounds fits by auto
  have "p < nblocks d" "p \<noteq> EOF" "wf_disk d"
    using data_block_unat(3,5) [OF geo p] geo by (simp_all add: store_geometry_def)
  then have "inode_indirect_readwrite 0 d p x pos endpos (Some buf) False =
      Some (cov pos endpos (x * BLOCKSIZE) ((x + 1) * BLOCKSIZE), Some buf', d)"
    using buf' win(1,3) by (simp add: read_block_wf Let_def)
  moreover have "filled pos endpos {(p, x)} d buf buf'"
    unfolding filled_def Let_def
  proof (intro conjI allI impI)
    fix i b
    assume i: "i < length buf" and "(b, (pos + int i) div BLOCKSIZE) \<in> {(p, x)}" "pos + int i < endpos"
    then have b: "b = p" "(pos + int i) div BLOCKSIZE = x"
      by auto
    then have "x * BLOCKSIZE \<le> pos + int i" "pos + int i < (x + 1) * BLOCKSIZE"
      using block_bounds [of "pos + int i"] by auto
    then have "lo - pos \<le> int i" "int i < lo - pos + (hi - lo)"
      using \<open>pos + int i < endpos\<close> unfolding lo hi by auto
    moreover have "lo - x * BLOCKSIZE + int i - (lo - pos) = (pos + int i) mod BLOCKSIZE"
      using div_mult_mod_eq [of "pos + int i" BLOCKSIZE] b(2) by simp
    ultimately show "buf' ! i = blk d b ! nat ((pos + int i) mod BLOCKSIZE)"
      using bytes i b(1) by simp
  next
    fix i
    assume i: "i < length buf" and out: "endpos \<le> pos + int i \<or> (pos + int i) div BLOCKSIZE \<notin> snd ` {(p, x)}"
    have "\<not> (lo - pos \<le> int i \<and> int i < lo - pos + (hi - lo))"
    proof
      assume "lo - pos \<le> int i \<and> int i < lo - pos + (hi - lo)"
      then have "x * BLOCKSIZE \<le> pos + int i" "pos + int i < (x + 1) * BLOCKSIZE" "pos + int i < endpos"
        unfolding lo hi by auto
      then have "(pos + int i) div BLOCKSIZE = x"
        using block_of_byte(1) [of x "pos + int i"] block_of_byte(2) [of "pos + int i" "x + 1"] by linarith
      then show False
        using out \<open>pos + int i < endpos\<close> by simp
    qed
    then show "buf' ! i = buf ! i"
      using bytes i by auto
  qed (use buf'(2) in simp)
  ultimately show ?thesis
    by blast
qed

lemma write_data_block:
  assumes inv: "store_inv d F Is" and p: "data_block d p" "p \<notin> F"
    and range: "pos < (x + 1) * BLOCKSIZE" "x * BLOCKSIZE < endpos" "pos < endpos"
    and fits: "data_fits data (endpos - pos)"
  shows "\<exists>d'. inode_indirect_readwrite 0 d p x pos endpos data True =
      Some (cov pos endpos (x * BLOCKSIZE) ((x + 1) * BLOCKSIZE), data, d') \<and> store_inv d' F Is \<and>
    written pos endpos (src_byte data pos) {(p, x)} d d'"
proof -
  define lo hi where lo: "lo = max pos (x * BLOCKSIZE)" and hi: "hi = min endpos ((x + 1) * BLOCKSIZE)"
  note win = block_window_eq [OF range, folded lo hi]
  have bounds: "pos \<le> lo" "x * BLOCKSIZE \<le> lo" "hi \<le> endpos" "hi \<le> x * BLOCKSIZE + BLOCKSIZE"
    unfolding lo hi by (simp_all add: algebra_simps)
  define old where "old = (if hi - lo \<noteq> BLOCKSIZE then blk d p else replicate BLOCKSIZE 0)"
  have len: "length old = BLOCKSIZE"
    by (simp add: old_def)
  have "\<exists>new. (case data of Some buf \<Rightarrow> memcpy old (lo - x * BLOCKSIZE) buf (lo - pos) (hi - lo)
        | None \<Rightarrow> memzero old (lo - x * BLOCKSIZE) (hi - lo)) = Some new \<and> length new = BLOCKSIZE \<and>
      (\<forall>i < BLOCKSIZE. new ! i = (if lo - x * BLOCKSIZE \<le> int i \<and> int i < lo - x * BLOCKSIZE + (hi - lo)
        then src_byte data pos (x * BLOCKSIZE + int i) else old ! i))"
  proof (cases data)
    case None
    then show ?thesis
      using memzero_Some [of "hi - lo" "lo - x * BLOCKSIZE" old] win(2) bounds len by (auto simp: src_byte_def)
  next
    case (Some buf)
    then show ?thesis
      using memcpy_Some [of "hi - lo" "lo - x * BLOCKSIZE" "lo - pos" old buf] win(2) bounds len fits
      by (auto simp: src_byte_def data_fits_def algebra_simps)
  qed
  then obtain new where new: "(case data of Some buf \<Rightarrow> memcpy old (lo - x * BLOCKSIZE) buf (lo - pos) (hi - lo)
        | None \<Rightarrow> memzero old (lo - x * BLOCKSIZE) (hi - lo)) = Some new" "length new = BLOCKSIZE"
      and bytes: "\<forall>i < BLOCKSIZE. new ! i = (if lo - x * BLOCKSIZE \<le> int i \<and> int i < lo - x * BLOCKSIZE + (hi - lo)
        then src_byte data pos (x * BLOCKSIZE + int i) else old ! i)"
    by blast
  note dest = store_inv_dest [OF inv]
  note upd = store_inv_upd_blk [OF inv p new(2)]
  have "p < nblocks d" "p \<noteq> EOF"
    using data_block_unat(3,5) [OF dest(2) p(1)] by simp_all
  then have "(if hi - lo \<noteq> BLOCKSIZE then read_block d p else Some (replicate BLOCKSIZE 0)) = Some old"
    using dest(1) by (simp add: read_block_wf old_def)
  then have "inode_indirect_readwrite 0 d p x pos endpos data True =
      Some (cov pos endpos (x * BLOCKSIZE) ((x + 1) * BLOCKSIZE), data, upd_blk d p new)"
    using new(1) win(1,3) upd(1) \<open>p \<noteq> EOF\<close> by (simp add: Let_def)
  moreover have "new ! i = (let a = x * BLOCKSIZE + int i in
      if pos \<le> a \<and> a < endpos then src_byte data pos a else blk d p ! i)" if i: "i < BLOCKSIZE" for i
  proof (cases "pos \<le> x * BLOCKSIZE + int i \<and> x * BLOCKSIZE + int i < endpos")
    case True
    then have "lo - x * BLOCKSIZE \<le> int i \<and> int i < lo - x * BLOCKSIZE + (hi - lo)"
      using i unfolding lo hi by auto
    then show ?thesis
      using bytes i True by (simp add: Let_def)
  next
    case False
    then have "\<not> (lo - x * BLOCKSIZE \<le> int i \<and> int i < lo - x * BLOCKSIZE + (hi - lo))" "hi - lo \<noteq> BLOCKSIZE"
      using i bounds unfolding lo hi by auto
    then show ?thesis
      using bytes i False by (auto simp: Let_def old_def)
  qed
  then have "written pos endpos (src_byte data pos) {(p, x)} d (upd_blk d p new)"
    using new(2) by (auto simp: written_def)
  ultimately show ?thesis
    using upd(2) by blast
qed

section \<open>The loop over the children\<close>

lemma read_loop_spec:
  assumes "\<And>j buf. j \<in> set js \<Longrightarrow> L \<le> length buf \<Longrightarrow> \<exists>buf'. f d (ps ! j) (int j) (Some buf) = Some (c j, Some buf', d) \<and>
      filled pos endpos (M j) d buf buf'"
    and "\<forall>i \<in> set js. \<forall>j \<in> set js. i \<noteq> j \<longrightarrow> snd ` M i \<inter> snd ` M j = {}"
    and "distinct js" and "\<forall>j \<in> set js. j < 512" and "L \<le> length buf"
  shows "\<exists>buf'. rw_loop f (map int js) ps t (Some buf) d = Some (t + (\<Sum>j \<in> set js. c j), Some buf', d) \<and>
    filled pos endpos (\<Union>j \<in> set js. M j) d buf buf'"
  using assms
proof (induction js arbitrary: buf t)
  case (Cons j js)
  then obtain buf1 where 1: "f d (ps ! j) (int j) (Some buf) = Some (c j, Some buf1, d)" "filled pos endpos (M j) d buf buf1"
    by (meson list.set_intros(1))
  then have L1: "L \<le> length buf1"
    using Cons.prems(5) by (simp add: filled_def)
  have js: "\<forall>i \<in> set js. \<forall>k \<in> set js. i \<noteq> k \<longrightarrow> snd ` M i \<inter> snd ` M k = {}"
    using Cons.prems(2) by (meson list.set_intros(2))
  have js': "distinct js" "\<forall>j \<in> set js. j < 512"
    using Cons.prems(3,4) by simp_all
  have "\<exists>buf2. rw_loop f (map int js) ps (t + c j) (Some buf1) d =
        Some (t + c j + (\<Sum>j \<in> set js. c j), Some buf2, d) \<and> filled pos endpos (\<Union>j \<in> set js. M j) d buf1 buf2"
  proof (rule Cons.IH [OF _ js js' L1])
    fix i and buf :: "byte list" assume "i \<in> set js" "L \<le> length buf"
    then show "\<exists>buf'. f d (ps ! i) (int i) (Some buf) = Some (c i, Some buf', d) \<and> filled pos endpos (M i) d buf buf'"
      by (intro Cons.prems(1)) simp_all
  qed
  then obtain buf2 where 2: "rw_loop f (map int js) ps (t + c j) (Some buf1) d =
        Some (t + c j + (\<Sum>j \<in> set js. c j), Some buf2, d)" "filled pos endpos (\<Union>j \<in> set js. M j) d buf1 buf2"
    by blast
  have "snd ` M j \<inter> snd ` (\<Union>j \<in> set js. M j) = {}"
  proof -
    have "snd ` M j \<inter> snd ` M i = {}" if "i \<in> set js" for i
      using Cons.prems(2,3) that by (metis distinct.simps(2) list.set_intros)
    then show ?thesis
      by blast
  qed
  from filled_Un [OF 1(2) 2(2) this] have "filled pos endpos (\<Union>j \<in> set (j # js). M j) d buf buf2"
    by simp
  then show ?case
    using 1(1) 2(1) Cons.prems(3,4) by (auto simp: algebra_simps)
qed simp

lemma written_framed:
  assumes "written pos endpos src M d d'" and "0 \<notin> fst ` M"
  shows "framed (fst ` M) d d'"
proof -
  have "super d' = super d"
    using assms by (intro super_cong written_out) auto
  then show ?thesis
    using assms(1) by (simp add: framed_def untouched_def written_def)
qed

text \<open>Writing the data blocks of one tree changes neither that tree's pointers nor another tree.\<close>

lemma written_tree:
  assumes w: "written pos endpos src (tmap (lev j) d (ps ! j) cur (c j)) d d'" and forest: "gforest N lev d ps c"
    and j: "j < N"
  shows "gforest N lev d' ps c" "gset N lev d' ps c = gset N lev d ps c" "gmeta N lev d' ps c = gmeta N lev d ps c"
    "i < N \<Longrightarrow> k < c i \<Longrightarrow> tget (lev i) d' (ps ! i) k = tget (lev i) d (ps ! i) k"
    "framed (fst ` tmap (lev j) d (ps ! j) cur (c j)) d d'"
proof -
  let ?M = "fst ` tmap (lev j) d (ps ! j) cur (c j)"
  have child: "tree_ok (lev i) d (ps ! i) (c i)" if "i < N" for i
    using forest that by (simp add: gforest_def)
  note sub = fst_tmap [OF child [OF j], of cur]
  have keep: "blk d' b = blk d b" if "b \<in> gmeta N lev d ps c" for b
  proof (rule written_out [OF w])
    obtain i where i: "i < N" "b \<in> tmeta (lev i) d (ps ! i) (c i)"
      using \<open>b \<in> gmeta N lev d ps c\<close> by (auto simp: gmeta_def)
    show "b \<notin> ?M"
    proof (cases "i = j")
      case True
      then show ?thesis
        using i(2) fst_tmap_tmeta [OF child [OF j], of cur] by blast
    next
      case False
      then have "tset (lev i) d (ps ! i) (c i) \<inter> tset (lev j) d (ps ! j) (c j) = {}"
        using forest i(1) j by (simp add: gforest_def)
      then show ?thesis
        using i(2) tmeta_subset sub by blast
    qed
  qed
  have "0 \<notin> ?M"
    using sub tset_data [OF child [OF j]] zero_not_data_block by blast
  then show fr: "framed ?M d d'"
    by (rule written_framed [OF w])
  have le: "c i \<le> 512 ^ lev i" if "i < N" for i
    using tree_ok_le [OF child [OF that]] .
  note cong = gforest_cong [where N = N and lev = lev and ps = ps and c = c, OF keep le]
  show "gset N lev d' ps c = gset N lev d ps c" "gmeta N lev d' ps c = gmeta N lev d ps c"
    using cong(1,4) by simp_all
  show "gforest N lev d' ps c"
    using cong(2) [OF _ _ framed_dev(5) [OF fr]] forest by simp
  show "i < N \<Longrightarrow> k < c i \<Longrightarrow> tget (lev i) d' (ps ! i) k = tget (lev i) d (ps ! i) k"
    using cong(3) by simp
qed

lemma written_child:
  assumes w: "written pos endpos src (child_map l d ps cur n j) d d'" and forest: "forest_ok l d ps n" and j: "j < 512"
  shows "forest_ok l d' ps n" "fset l d' ps n = fset l d ps n"
    "i < 512 \<Longrightarrow> child_map l d' ps cur n i = child_map l d ps cur n i"
proof -
  note tree = written_tree [of _ _ _ "\<lambda>_. l" j d ps "cur + 512 ^ l * int j" "child_n l n" d' 512,
      unfolded cforest_child_n, OF w forest j]
  show "forest_ok l d' ps n" "fset l d' ps n = fset l d ps n"
    by (rule tree(1), rule tree(2))
  show "i < 512 \<Longrightarrow> child_map l d' ps cur n i = child_map l d ps cur n i"
    using tree(4) by (auto simp: tmap_def)
qed

lemma write_loop_spec:
  fixes d :: "'x disk_t_scheme"
  assumes f: "\<And>j (d :: 'x disk_t_scheme). j \<in> set js \<Longrightarrow> store_inv d F Is \<Longrightarrow> forest_ok l d ps n \<Longrightarrow>
      fset l d ps n \<inter> F = {} \<Longrightarrow> \<exists>d'. f d (ps ! j) (int j) data = Some (c j, data, d') \<and> store_inv d' F Is \<and>
        written pos endpos src (child_map l d ps cur n j) d d'"
    and "store_inv d F Is" and "forest_ok l d ps n" and "fset l d ps n \<inter> F = {}"
    and "distinct js" and "\<forall>j \<in> set js. j < 512"
  shows "\<exists>d'. rw_loop f (map int js) ps t data d = Some (t + (\<Sum>j \<in> set js. c j), data, d') \<and> store_inv d' F Is \<and>
    written pos endpos src (\<Union>j \<in> set js. child_map l d ps cur n j) d d'"
  using assms
proof (induction js arbitrary: d t)
  case (Cons j js)
  obtain d1 where 1: "f d (ps ! j) (int j) data = Some (c j, data, d1)" "store_inv d1 F Is"
      and w1: "written pos endpos src (child_map l d ps cur n j) d d1"
    using Cons.prems(1) [of j d] Cons.prems(2-4) by auto
  have j: "j < 512"
    using Cons.prems(6) by simp
  note same = written_child [OF w1 Cons.prems(3) j]
  have "\<exists>d'. rw_loop f (map int js) ps (t + c j) data d1 = Some (t + c j + (\<Sum>j \<in> set js. c j), data, d') \<and>
      store_inv d' F Is \<and> written pos endpos src (\<Union>j \<in> set js. child_map l d1 ps cur n j) d1 d'"
    using Cons.prems same(1,2) 1(2) by (intro Cons.IH) auto
  then obtain d2 where 2: "rw_loop f (map int js) ps (t + c j) data d1 = Some (t + c j + (\<Sum>j \<in> set js. c j), data, d2)"
      "store_inv d2 F Is" and w2: "written pos endpos src (\<Union>j \<in> set js. child_map l d1 ps cur n j) d1 d2"
    by blast
  have maps: "(\<Union>j \<in> set js. child_map l d1 ps cur n j) = (\<Union>j \<in> set js. child_map l d ps cur n j)"
    using same(3) Cons.prems(6) by simp
  have "fst ` child_map l d ps cur n j \<inter> fst ` child_map l d ps cur n i = {}" if "i \<in> set js" for i
    using child_map_disjoint(2) [OF _ j _ Cons.prems(3)] that Cons.prems(5,6) by (metis distinct.simps(2) list.set_intros(2))
  then have "fst ` child_map l d ps cur n j \<inter> fst ` (\<Union>j \<in> set js. child_map l d ps cur n j) = {}"
    by blast
  from written_Un [OF w1 w2 [unfolded maps] this]
  have "written pos endpos src (\<Union>j \<in> set (j # js). child_map l d ps cur n j) d d2"
    by simp
  then show ?case
    using 1(1) 2 Cons.prems(5) j by (auto simp: algebra_simps)
qed simp

section \<open>Which children the range concerns\<close>

definition touched :: "nat \<Rightarrow> int \<Rightarrow> int \<Rightarrow> int \<Rightarrow> bool" where
  "touched l cur pos endpos \<longleftrightarrow> clampn l cur (blocks_before pos) < clampn l cur (blocks_upto endpos)"

lemma rw_index:
  assumes l: "Suc l \<le> 3" and range: "0 \<le> pos" "pos < endpos" and t: "touched (Suc l) cur pos endpos"
  obtains js where "distinct js" "\<forall>j. j \<in> set js \<longleftrightarrow> j < 512 \<and> touched l (cur + 512 ^ l * int j) pos endpos"
    "indirect_count (int l) = 512 ^ l"
    "[(if cur < pos sdiv BLOCKSIZE then (pos sdiv BLOCKSIZE - cur) sdiv 512 ^ l else 0)..
      511 - (if (endpos - 1) sdiv BLOCKSIZE < cur + 512 * 512 ^ l - 1
        then (cur + 512 * 512 ^ l - 1 - (endpos - 1) sdiv BLOCKSIZE) sdiv 512 ^ l else 0)] = map int js"
proof -
  define n1 n2 where n1: "n1 = clampn (Suc l) cur (blocks_before pos)" and n2: "n2 = clampn (Suc l) cur (blocks_upto endpos)"
  have less: "n1 < n2" and le: "n2 \<le> 512 ^ Suc l"
    using t clampn_le by (simp_all add: touched_def n1 n2 del: power_Suc)
  define js where "js = [n1 div 512 ^ l..<Suc ((n2 - 1) div 512 ^ l)]"
  have e: "(n2 - 1) div 512 ^ l < 512"
    using less le child_index(1) [of "n2 - 1" n2 l] by simp
  have js: "j \<in> set js \<longleftrightarrow> n1 div 512 ^ l \<le> j \<and> j \<le> (n2 - 1) div 512 ^ l" for j
    by (auto simp: js_def simp del: upt_Suc)
  have mem: "j \<in> set js \<longleftrightarrow> j < 512 \<and> touched l (cur + 512 ^ l * int j) pos endpos" for j
  proof (cases "j < 512")
    case True
    then have "touched l (cur + 512 ^ l * int j) pos endpos \<longleftrightarrow> child_n l n1 j < child_n l n2 j"
      by (simp add: touched_def clampn_child n1 n2)
    moreover have "j \<in> set js \<longleftrightarrow> child_n l n1 j < child_n l n2 j"
      using js child_n_cut [OF less] by (metis less_irrefl)
    ultimately show ?thesis
      using True by simp
  next
    case False
    then show ?thesis
      using js e by auto
  qed
  have sd: "pos sdiv BLOCKSIZE = blocks_before pos" "(endpos - 1) sdiv BLOCKSIZE = (endpos - 1) div BLOCKSIZE"
    using range by (simp_all add: sdiv_nonneg)
  have lo: "(if cur < blocks_before pos then (blocks_before pos - cur) sdiv 512 ^ l else 0) = int (n1 div 512 ^ l)"
    unfolding n1 by (rule index_low) (use less le in \<open>simp add: n1 del: power_Suc\<close>)
  have "511 - (if blocks_upto endpos < cur + 512 * 512 ^ l
      then (cur + 512 * 512 ^ l - blocks_upto endpos) sdiv 512 ^ l else 0) = int ((n2 - 1) div 512 ^ l)"
    unfolding n2 by (rule index_high) (use less in \<open>simp add: n2\<close>)
  moreover have "(endpos - 1) div BLOCKSIZE < cur + 512 * 512 ^ l - 1 \<longleftrightarrow> blocks_upto endpos < cur + 512 * 512 ^ l"
    "cur + 512 * 512 ^ l - 1 - (endpos - 1) div BLOCKSIZE = cur + 512 * 512 ^ l - blocks_upto endpos"
    by linarith+
  ultimately have hi: "511 - (if (endpos - 1) div BLOCKSIZE < cur + 512 * 512 ^ l - 1
      then (cur + 512 * 512 ^ l - 1 - (endpos - 1) div BLOCKSIZE) sdiv 512 ^ l else 0) = int ((n2 - 1) div 512 ^ l)"
    by (simp only:)
  show thesis
  proof (rule that [OF _ allI [OF mem]])
    show "distinct js"
      by (simp add: js_def)
    show "indirect_count (int l) = 512 ^ l"
      using indirect_count_power [of l] l by simp
  qed (simp only: sd lo hi js_def upto_map_int)
qed

lemma rw_total:
  assumes "pos \<le> endpos" and mem: "\<forall>j. j \<in> set js \<longleftrightarrow> j < 512 \<and> touched l (cur + 512 ^ l * int j) pos endpos"
  shows "(\<Sum>j \<in> set js. cov pos endpos ((cur + 512 ^ l * int j) * BLOCKSIZE) ((cur + 512 ^ l * int j + 512 ^ l) * BLOCKSIZE))
    = cov pos endpos (cur * BLOCKSIZE) ((cur + 512 ^ Suc l) * BLOCKSIZE)"
proof -
  have "(\<Sum>j \<in> set js. cov pos endpos ((cur + 512 ^ l * int j) * BLOCKSIZE) ((cur + 512 ^ l * int j + 512 ^ l) * BLOCKSIZE))
    = (\<Sum>j<512. cov pos endpos ((cur + 512 ^ l * int j) * BLOCKSIZE) ((cur + 512 ^ l * int j + 512 ^ l) * BLOCKSIZE))"
  proof (rule sum.mono_neutral_left)
    show "\<forall>j \<in> {..<512} - set js. cov pos endpos ((cur + 512 ^ l * int j) * BLOCKSIZE)
        ((cur + 512 ^ l * int j + 512 ^ l) * BLOCKSIZE) = 0"
      using mem cov_not_touched [folded touched_def] by blast
  qed (use mem in auto)
  then show ?thesis
    using sum_cov [OF assms(1), where l = l and cur = cur and k = 512] by (simp add: mult.commute)
qed

lemma child_uncovered:
  assumes "\<not> touched l (cur + 512 ^ l * int j) pos endpos" and "(b, x) \<in> child_map l d ps cur n j"
  shows "\<not> covered pos endpos x"
proof -
  have "x \<in> snd ` child_map l d ps cur n j"
    using assms(2) by force
  then have "cur + 512 ^ l * int j \<le> x" "x < cur + 512 ^ l * int j + int (child_n l n j)"
    unfolding snd_tmap by simp_all
  moreover have "int (child_n l n j) \<le> 512 ^ l"
    by (simp add: child_n_le)
  ultimately have "cur + 512 ^ l * int j \<le> x" "x < cur + 512 ^ l * int j + 512 ^ l"
    by linarith+
  then show ?thesis
    using not_covered assms(1) unfolding touched_def by blast
qed

lemma touched_count:
  assumes "touched l cur pos endpos" and "blocks_upto endpos \<le> bc"
  shows "0 < clampn l cur bc"
proof -
  have "clampn l cur (blocks_upto endpos) \<le> clampn l cur bc"
    unfolding clampn_def using assms(2) by (intro nat_mono min.mono max.mono) simp_all
  then show ?thesis
    using assms(1) by (simp add: touched_def)
qed

lemma touched_0:
  assumes "touched 0 cur pos endpos" and "blocks_upto endpos \<le> bc"
  shows "clampn 0 cur bc = 1" "pos < (cur + 1) * BLOCKSIZE" "cur * BLOCKSIZE < endpos"
proof -
  show "clampn 0 cur bc = 1"
    using touched_count [OF assms] clampn_le [of 0 cur bc] by simp
  have "clampn 0 cur (blocks_before pos) = 0" "0 < clampn 0 cur (blocks_upto endpos)"
    using assms(1) clampn_le [of 0 cur "blocks_upto endpos"] by (simp_all add: touched_def)
  then have "blocks_before pos < cur + 1" "cur \<le> (endpos - 1) div BLOCKSIZE"
    by (simp_all add: clampn_def)
  then show "pos < (cur + 1) * BLOCKSIZE" "cur * BLOCKSIZE < endpos"
    unfolding block_of_byte by simp_all
qed

lemma tmap_0: "tmap 0 d p cur 1 = {(p, cur)}"
  by (simp add: tmap_def lessThan_Suc)

lemma tmap_Suc_split:
  assumes "n \<le> 512 ^ Suc l" and "\<forall>j \<in> S. j < 512"
  shows "tmap (Suc l) d p cur n =
    (\<Union>j \<in> S. child_map l d (ind d p) cur n j) \<union> (\<Union>j \<in> {..<512} - S. child_map l d (ind d p) cur n j)"
  unfolding tmap_Suc [OF assms(1)] using assms(2) by blast

lemma UN_image_disjoint:
  "(\<And>i j. i \<in> S \<Longrightarrow> j \<in> T \<Longrightarrow> g ` A i \<inter> g ` A j = {}) \<Longrightarrow> g ` (\<Union>i \<in> S. A i) \<inter> g ` (\<Union>j \<in> T. A j) = {}"
  by blast

section \<open>Reading\<close>

theorem inode_indirect_read_spec:
  assumes geo: "store_geometry d" and range: "0 \<le> pos" "pos < endpos" "blocks_upto endpos \<le> bc"
  shows "l \<le> 3 \<Longrightarrow> tree_ok l d p (clampn l cur bc) \<Longrightarrow> touched l cur pos endpos \<Longrightarrow> endpos - pos \<le> int (length buf) \<Longrightarrow>
    \<exists>buf'. inode_indirect_readwrite l d p cur pos endpos (Some buf) False =
        Some (cov pos endpos (cur * BLOCKSIZE) ((cur + 512 ^ l) * BLOCKSIZE), Some buf', d) \<and>
      filled pos endpos (tmap l d p cur (clampn l cur bc)) d buf buf'"
proof (induction l arbitrary: p cur buf)
  case 0
  note t = touched_0 [OF 0(3) range(3)]
  then have "data_block d p"
    using 0(2) by simp
  from read_data_block [OF geo this t(2,3) range(2) 0(4)] show ?case
    by (simp add: t(1) tmap_0 [simplified])
next
  case (Suc l)
  define n where "n = clampn (Suc l) cur bc"
  have le: "n \<le> 512 ^ Suc l"
    unfolding n_def by (rule clampn_le)
  have "0 < n"
    using touched_count [OF Suc.prems(3) range(3)] by (simp add: n_def)
  then have p: "data_block d p" "forest_ok l d (ind d p) n"
    using Suc.prems(2) by (simp_all add: n_def [symmetric] tree_ok_Suc)
  have "p < nblocks d" "p \<noteq> EOF" "wf_disk d"
    using data_block_unat(3,5) [OF geo p(1)] geo by (simp_all add: store_geometry_def)
  then have rd: "read_block d p = Some (blk d p)" "dec_words (blk d p) = ind d p" "p \<noteq> EOF"
    by (simp_all add: read_block_wf ind_def)
  from Suc.prems(1) range(1,2) Suc.prems(3) obtain js where js: "distinct js"
    "\<forall>j. j \<in> set js \<longleftrightarrow> j < 512 \<and> touched l (cur + 512 ^ l * int j) pos endpos" and
    ic: "indirect_count (int l) = 512 ^ l" and
    idx: "[(if cur < pos sdiv BLOCKSIZE then (pos sdiv BLOCKSIZE - cur) sdiv 512 ^ l else 0)..
      511 - (if (endpos - 1) sdiv BLOCKSIZE < cur + 512 * 512 ^ l - 1
        then (cur + 512 * 512 ^ l - 1 - (endpos - 1) sdiv BLOCKSIZE) sdiv 512 ^ l else 0)] = map int js"
    by (rule rw_index)
  let ?f = "\<lambda>d p i data. inode_indirect_readwrite l d p (cur + i * 512 ^ l) pos endpos data False"
  let ?c = "\<lambda>j. cov pos endpos ((cur + 512 ^ l * int j) * BLOCKSIZE) ((cur + 512 ^ l * int j + 512 ^ l) * BLOCKSIZE)"
  let ?M = "child_map l d (ind d p) cur n"
  have "\<exists>buf'. rw_loop ?f (map int js) (ind d p) 0 (Some buf) d = Some (0 + (\<Sum>j \<in> set js. ?c j), Some buf', d) \<and>
      filled pos endpos (\<Union>j \<in> set js. ?M j) d buf buf'"
  proof (rule read_loop_spec [where L = "nat (endpos - pos)"])
    fix j and buf :: "byte list" assume j: "j \<in> set js" and len: "nat (endpos - pos) \<le> length buf"
    have cc: "clampn l (cur + 512 ^ l * int j) bc = child_n l n j"
      using j js(2) by (simp add: clampn_child n_def)
    have "tree_ok l d (ind d p ! j) (child_n l n j)"
      using p(2) j js(2) by (simp add: forest_ok_def)
    from Suc.IH [of "ind d p ! j" "cur + 512 ^ l * int j", unfolded cc, OF _ this] show "\<exists>buf'. ?f d (ind d p ! j) (int j) (Some buf) = Some (?c j, Some buf', d) \<and>
        filled pos endpos (?M j) d buf buf'"
      using Suc.prems(1) j js(2) len by (simp add: mult.commute [of "int j"])
  next
    show "\<forall>i \<in> set js. \<forall>j \<in> set js. i \<noteq> j \<longrightarrow> snd ` ?M i \<inter> snd ` ?M j = {}"
      using child_map_disjoint(1) js(2) by blast
  qed (use js Suc.prems(4) in auto)
  then obtain buf' where loop: "rw_loop ?f (map int js) (ind d p) 0 (Some buf) d = Some (\<Sum>j \<in> set js. ?c j, Some buf', d)"
      and fill: "filled pos endpos (\<Union>j \<in> set js. ?M j) d buf buf'"
    by auto
  have "filled pos endpos ((\<Union>j \<in> set js. ?M j) \<union> (\<Union>j \<in> {..<512} - set js. ?M j)) d buf buf'"
  proof (rule filled_uncovered [OF fill])
    show "snd ` (\<Union>j \<in> set js. ?M j) \<inter> snd ` (\<Union>j \<in> {..<512} - set js. ?M j) = {}"
      using js(2) by (intro UN_image_disjoint child_map_disjoint(1)) auto
    show "\<forall>(b, x) \<in> \<Union>j \<in> {..<512} - set js. ?M j. \<not> covered pos endpos x"
      using child_uncovered js(2) by fastforce
  qed
  then have "filled pos endpos (tmap (Suc l) d p cur n) d buf buf'"
    using tmap_Suc_split [OF le, of "set js" d p cur] js(2) by simp
  moreover have "(\<Sum>j \<in> set js. ?c j) = cov pos endpos (cur * BLOCKSIZE) ((cur + 512 ^ Suc l) * BLOCKSIZE)"
    using rw_total [OF _ js(2)] range(2) by simp
  ultimately show ?case
    using rd loop by (simp add: n_def [symmetric] Let_def ic idx)
qed

section \<open>Writing\<close>

theorem inode_indirect_write_spec:
  fixes d :: "'x disk_t_scheme"
  assumes range: "0 \<le> pos" "pos < endpos" "blocks_upto endpos \<le> bc" and fits: "data_fits data (endpos - pos)"
  shows "l \<le> 3 \<Longrightarrow> store_inv d F Is \<Longrightarrow> tree_ok l d p (clampn l cur bc) \<Longrightarrow> tset l d p (clampn l cur bc) \<inter> F = {} \<Longrightarrow>
    touched l cur pos endpos \<Longrightarrow>
    \<exists>d'. inode_indirect_readwrite l d p cur pos endpos data True =
        Some (cov pos endpos (cur * BLOCKSIZE) ((cur + 512 ^ l) * BLOCKSIZE), data, d') \<and> store_inv d' F Is \<and>
      written pos endpos (src_byte data pos) (tmap l d p cur (clampn l cur bc)) d d'"
proof (induction l arbitrary: d p cur)
  case 0
  note t = touched_0 [OF 0(5) range(3)]
  then have "data_block d p" "p \<notin> F"
    using 0(3,4) by auto
  from write_data_block [OF 0(2) this t(2,3) range(2) fits] show ?case
    by (simp add: t(1) tmap_0 [simplified])
next
  case (Suc l)
  define n where "n = clampn (Suc l) cur bc"
  have le: "n \<le> 512 ^ Suc l"
    unfolding n_def by (rule clampn_le)
  have "0 < n"
    using touched_count [OF Suc.prems(5) range(3)] by (simp add: n_def)
  then have p: "data_block d p" "forest_ok l d (ind d p) n" "fset l d (ind d p) n \<inter> F = {}"
    using Suc.prems(3,4) by (auto simp: n_def [symmetric] tree_ok_Suc tset_Suc)
  note inv = Suc.prems(2)
  have "p < nblocks d" "p \<noteq> EOF" "wf_disk d"
    using data_block_unat(3,5) [OF store_inv_dest(2) [OF inv] p(1)] store_inv_dest(1) [OF inv] by simp_all
  then have rd: "read_block d p = Some (blk d p)" "dec_words (blk d p) = ind d p" "p \<noteq> EOF"
    by (simp_all add: read_block_wf ind_def)
  from Suc.prems(1) range(1,2) Suc.prems(5) obtain js where js: "distinct js"
    "\<forall>j. j \<in> set js \<longleftrightarrow> j < 512 \<and> touched l (cur + 512 ^ l * int j) pos endpos" and
    ic: "indirect_count (int l) = 512 ^ l" and
    idx: "[(if cur < pos sdiv BLOCKSIZE then (pos sdiv BLOCKSIZE - cur) sdiv 512 ^ l else 0)..
      511 - (if (endpos - 1) sdiv BLOCKSIZE < cur + 512 * 512 ^ l - 1
        then (cur + 512 * 512 ^ l - 1 - (endpos - 1) sdiv BLOCKSIZE) sdiv 512 ^ l else 0)] = map int js"
    by (rule rw_index)
  let ?f = "\<lambda>d p i data. inode_indirect_readwrite l d p (cur + i * 512 ^ l) pos endpos data True"
  let ?c = "\<lambda>j. cov pos endpos ((cur + 512 ^ l * int j) * BLOCKSIZE) ((cur + 512 ^ l * int j + 512 ^ l) * BLOCKSIZE)"
  let ?M = "child_map l d (ind d p) cur n" and ?src = "src_byte data pos"
  have "\<exists>d'. rw_loop ?f (map int js) (ind d p) 0 data d = Some (0 + (\<Sum>j \<in> set js. ?c j), data, d') \<and>
      store_inv d' F Is \<and> written pos endpos ?src (\<Union>j \<in> set js. ?M j) d d'"
  proof (rule write_loop_spec [OF _ inv p(2,3) js(1)])
    fix j and d1 :: "'x disk_t_scheme"
    assume j: "j \<in> set js" and inv1: "store_inv d1 F Is" and forest: "forest_ok l d1 (ind d p) n"
      and disj: "fset l d1 (ind d p) n \<inter> F = {}"
    have cc: "clampn l (cur + 512 ^ l * int j) bc = child_n l n j" and j512: "j < 512"
      using j js(2) by (simp_all add: clampn_child n_def)
    have "tree_ok l d1 (ind d p ! j) (child_n l n j)" "tset l d1 (ind d p ! j) (child_n l n j) \<inter> F = {}"
      using forest disj j512 by (auto simp: forest_ok_def fset_def)
    from Suc.IH [of d1 "ind d p ! j" "cur + 512 ^ l * int j", unfolded cc, OF _ inv1 this]
    show "\<exists>d'. ?f d1 (ind d p ! j) (int j) data = Some (?c j, data, d') \<and> store_inv d' F Is \<and>
        written pos endpos ?src (child_map l d1 (ind d p) cur n j) d1 d'"
      using Suc.prems(1) j js(2) by (simp add: mult.commute [of "int j"])
  qed (use js(2) in auto)
  then obtain d' where loop: "rw_loop ?f (map int js) (ind d p) 0 data d = Some (\<Sum>j \<in> set js. ?c j, data, d')"
      and inv': "store_inv d' F Is" and w: "written pos endpos ?src (\<Union>j \<in> set js. ?M j) d d'"
    by auto
  have "written pos endpos ?src ((\<Union>j \<in> set js. ?M j) \<union> (\<Union>j \<in> {..<512} - set js. ?M j)) d d'"
  proof (rule written_uncovered [OF w])
    show "fst ` (\<Union>j \<in> set js. ?M j) \<inter> fst ` (\<Union>j \<in> {..<512} - set js. ?M j) = {}"
      using js(2) p(2) by (intro UN_image_disjoint child_map_disjoint(2)) auto
    show "\<forall>(b, x) \<in> \<Union>j \<in> {..<512} - set js. ?M j. \<not> covered pos endpos x"
      using child_uncovered js(2) by fastforce
  qed
  then have "written pos endpos ?src (tmap (Suc l) d p cur n) d d'"
    using tmap_Suc_split [OF le, of "set js" d p cur] js(2) by simp
  moreover have "(\<Sum>j \<in> set js. ?c j) = cov pos endpos (cur * BLOCKSIZE) ((cur + 512 ^ Suc l) * BLOCKSIZE)"
    using rw_total [OF _ js(2)] range(2) by simp
  ultimately show ?case
    using rd loop inv' by (simp add: n_def [symmetric] Let_def ic idx)
qed

end
