(* ===== verification/Inode_Data.thy ===== *)
theory Inode_Data
  imports Inode_Slots Tree_RW
begin

text \<open>
  Reading and writing across slots: the loops of \<open>inode_read\<close> and \<open>inode_write\<close> run to the
  end of the range, with all checks passing, and transfer exactly its bytes.
\<close>

section \<open>The map of a file\<close>

abbreviation slot_map :: "'x disk_t_scheme \<Rightarrow> blockno list \<Rightarrow> int \<Rightarrow> nat \<Rightarrow> (blockno \<times> int) set" where
  "slot_map d blocks bc s \<equiv> tmap (slot_level s) d (blocks ! s) (int (slot_first s)) (slot_n bc s)"

definition file_map :: "'x disk_t_scheme \<Rightarrow> blockno list \<Rightarrow> int \<Rightarrow> (blockno \<times> int) set" where
  "file_map d blocks bc = (\<Union>s<499. slot_map d blocks bc s)"

lemma slot_map_range:
  assumes "(b, x) \<in> slot_map d blocks bc s"
  shows "int (slot_first s) \<le> x" "x < int (slot_first s) + 512 ^ slot_level s" "x < bc"
proof -
  have "x \<in> snd ` slot_map d blocks bc s"
    using assms by force
  then have x: "int (slot_first s) \<le> x" "x < int (slot_first s) + int (slot_n bc s)"
    unfolding snd_tmap by simp_all
  then show "int (slot_first s) \<le> x"
    by simp
  have "int (slot_n bc s) \<le> 512 ^ slot_level s" "int (slot_n bc s) \<le> max 0 (bc - int (slot_first s))"
    unfolding int_slot_n by simp_all
  then show "x < int (slot_first s) + 512 ^ slot_level s" "x < bc"
    using x by linarith+
qed

lemma slot_gap:
  assumes "s < t" "t < 499"
  shows "int (slot_first s) + 512 ^ slot_level s \<le> int (slot_first t)"
proof -
  have "int (slot_first s + 512 ^ slot_level s) \<le> int (slot_first t)"
    using slot_first_mono [OF assms] by (simp only: of_nat_le_iff)
  then show ?thesis by simp
qed

lemma slot_map_disjoint:
  assumes "s \<noteq> t" "s < 499" "t < 499"
  shows "snd ` slot_map d blocks bc s \<inter> snd ` slot_map d blocks bc t = {}"
    "slots_ok d blocks bc \<Longrightarrow> fst ` slot_map d blocks bc s \<inter> fst ` slot_map d blocks bc t = {}"
proof -
  have "snd ` slot_map d blocks bc s \<inter> snd ` slot_map d blocks bc t = {}" if st: "s < t" "t < 499" for s t
  proof (rule equals0I)
    fix x assume "x \<in> snd ` slot_map d blocks bc s \<inter> snd ` slot_map d blocks bc t"
    then obtain b c where "(b, x) \<in> slot_map d blocks bc s" "(c, x) \<in> slot_map d blocks bc t"
      by auto
    from slot_map_range(2) [OF this(1)] slot_map_range(1) [OF this(2)] slot_gap [OF st] show False
      by simp
  qed
  from this [of s t] this [of t s] show "snd ` slot_map d blocks bc s \<inter> snd ` slot_map d blocks bc t = {}"
    using assms by (metis Int_commute linorder_neqE_nat)
  assume ok: "slots_ok d blocks bc"
  then have "tset (slot_level s) d (blocks ! s) (slot_n bc s) \<inter> tset (slot_level t) d (blocks ! t) (slot_n bc t) = {}"
    using assms by (simp add: gforest_def)
  moreover have "fst ` slot_map d blocks bc s \<subseteq> tset (slot_level s) d (blocks ! s) (slot_n bc s)" if "s < 499" for s
    using ok that by (intro fst_tmap) (simp add: gforest_def)
  ultimately show "fst ` slot_map d blocks bc s \<inter> fst ` slot_map d blocks bc t = {}"
    using assms(2,3) by blast
qed

lemma fst_file_map:
  assumes "slots_ok d blocks bc"
  shows "fst ` file_map d blocks bc \<subseteq> slots_set d blocks bc"
proof -
  have "fst ` slot_map d blocks bc s \<subseteq> tset (slot_level s) d (blocks ! s) (slot_n bc s)" if "s < 499" for s
    using assms that by (intro fst_tmap) (simp add: gforest_def)
  then show ?thesis
    by (fastforce simp: file_map_def gset_def)
qed

section \<open>The slot under a position\<close>

lemma position_slot:
  assumes "0 \<le> pos" "pos \<le> curpos" "curpos < endpos" "blocks_upto endpos \<le> bc" "bc \<le> FIRST_UNREACHABLE_BLOCK"
  defines "x \<equiv> offset2blockidx curpos" and "s \<equiv> slot_of (offset2blockidx curpos)"
  shows "blockidx2blockslot x = int s" "s < 499" "nat (indirection_level x) = slot_level s"
    "blockslot2firstblockidx (int s) = int (slot_first s)"
    "touched (slot_level s) (int (slot_first s)) pos endpos"
    "int (slot_first s) * BLOCKSIZE \<le> curpos" "curpos < (int (slot_first s) + 512 ^ slot_level s) * BLOCKSIZE"
proof -
  have x: "x = curpos div BLOCKSIZE"
    using assms(1,2) by (simp add: x_def offset2blockidx_nonneg)
  have "x \<le> (endpos - 1) div BLOCKSIZE"
    unfolding x using assms(3) by (intro zdiv_mono1) simp_all
  then have "0 \<le> x" "x < FIRST_UNREACHABLE_BLOCK"
    using assms(1,2,4,5) x by simp_all
  note facts = slot_of_facts [OF this, unfolded x_def, folded s_def, folded x_def]
  then show "blockidx2blockslot x = int s" "s < 499" "nat (indirection_level x) = slot_level s"
    "blockslot2firstblockidx (int s) = int (slot_first s)"
    by simp_all
  show "int (slot_first s) * BLOCKSIZE \<le> curpos" "curpos < (int (slot_first s) + 512 ^ slot_level s) * BLOCKSIZE"
    using facts(5,6) unfolding x block_of_byte by simp_all
  have "pos div BLOCKSIZE \<le> x"
    unfolding x using assms(2) by (intro zdiv_mono1) simp_all
  then have "int (clampn (slot_level s) (int (slot_first s)) (blocks_before pos)) \<le> x - int (slot_first s)"
    "x - int (slot_first s) < int (clampn (slot_level s) (int (slot_first s)) (blocks_upto endpos))"
    using facts(5,6) \<open>x \<le> (endpos - 1) div BLOCKSIZE\<close> unfolding int_clampn by linarith+
  then show "touched (slot_level s) (int (slot_first s)) pos endpos"
    unfolding touched_def by linarith
qed

lemma slot_of_position:
  assumes "0 \<le> curpos" "s < 499" "int (slot_first s) * BLOCKSIZE \<le> curpos"
    "curpos < (int (slot_first s) + 512 ^ slot_level s) * BLOCKSIZE"
  shows "slot_of (offset2blockidx curpos) = s"
proof -
  let ?x = "curpos div BLOCKSIZE"
  have x: "int (slot_first s) \<le> ?x" "?x < int (slot_first s) + 512 ^ slot_level s" "0 \<le> ?x"
    using assms by (simp_all add: block_of_byte)
  have "int (slot_first s) + 512 ^ slot_level s \<le> FIRST_UNREACHABLE_BLOCK"
  proof (cases "s = 498")
    case True
    then show ?thesis
      by (simp add: slot_first_def slot_level_def)
  next
    case False
    then have "int (slot_first s) + 512 ^ slot_level s \<le> int (slot_first 498)"
      using slot_gap [of s 498] assms(2) by simp
    also have "\<dots> \<le> FIRST_UNREACHABLE_BLOCK"
      by (simp add: slot_first_def)
    finally show ?thesis .
  qed
  then have "blockidx2blockslot ?x = int s"
    using x assms(2) by (intro slot_unique) simp_all
  then show ?thesis
    using assms(1) by (simp add: slot_of_def offset2blockidx_nonneg)
qed

text \<open>What one slot contributes, and where the loop continues.\<close>

lemma slot_advance:
  assumes "0 \<le> pos" "curpos < endpos" "s < 499" and cur: "curpos = max pos (int (slot_first s) * BLOCKSIZE)"
    and "curpos < (int (slot_first s) + 512 ^ slot_level s) * BLOCKSIZE"
    and "blocks_upto endpos \<le> bc" "bc \<le> FIRST_UNREACHABLE_BLOCK"
  defines "n \<equiv> cov pos endpos (int (slot_first s) * BLOCKSIZE) ((int (slot_first s) + 512 ^ slot_level s) * BLOCKSIZE)"
  shows "curpos + n \<le> endpos" "0 < n"
    "curpos + n < endpos \<Longrightarrow> Suc s < 499 \<and> curpos + n = int (slot_first (Suc s)) * BLOCKSIZE \<and> pos \<le> curpos + n"
    "curpos + n = endpos \<Longrightarrow> s < t \<Longrightarrow> t < 499 \<Longrightarrow> (b, x) \<in> slot_map d blocks bc t \<Longrightarrow> \<not> covered pos endpos x"
proof -
  let ?stop = "(int (slot_first s) + 512 ^ slot_level s) * BLOCKSIZE"
  have n: "curpos + n = min endpos ?stop"
    unfolding n_def cov_def cur [symmetric] using assms(2,5) by linarith
  then show "curpos + n \<le> endpos" "0 < n"
    using assms(2,5) by linarith+
  have last: "endpos \<le> FIRST_UNREACHABLE_BLOCK * BLOCKSIZE"
    using block_bounds(1) [of "endpos - 1"] assms(6,7) by linarith
  show "curpos + n < endpos \<Longrightarrow> Suc s < 499 \<and> curpos + n = int (slot_first (Suc s)) * BLOCKSIZE \<and> pos \<le> curpos + n"
  proof -
    assume "curpos + n < endpos"
    then have lt: "?stop < endpos" "curpos + n = ?stop"
      using n by linarith+
    have "s \<noteq> 498"
    proof
      assume "s = 498"
      then have "int (slot_first s) + 512 ^ slot_level s = FIRST_UNREACHABLE_BLOCK"
        by (simp add: slot_first_def slot_level_def)
      then show False
        using lt(1) last by simp
    qed
    then have "Suc s < 499"
      using assms(3) by simp
    moreover from this have "int (slot_first (Suc s)) = int (slot_first s) + 512 ^ slot_level s"
      using slot_first_Suc by simp
    moreover have "pos \<le> ?stop"
      using cur assms(5) by simp
    ultimately show "Suc s < 499 \<and> curpos + n = int (slot_first (Suc s)) * BLOCKSIZE \<and> pos \<le> curpos + n"
      using lt(2) by simp
  qed
  assume e: "curpos + n = endpos" and t: "s < t" "t < 499" and mem: "(b, x) \<in> slot_map d blocks bc t"
  then have "endpos \<le> ?stop" "int (slot_first s) + 512 ^ slot_level s \<le> x"
    using n slot_gap [OF t] slot_map_range(1) [OF mem] by linarith+
  then have "endpos \<le> x * BLOCKSIZE"
    using mult_right_mono [of "int (slot_first s) + 512 ^ slot_level s" x BLOCKSIZE] by linarith
  then show "\<not> covered pos endpos x"
    by (simp add: covered_def)
qed

section \<open>Writing\<close>

text \<open>
  A phase of the writing loop: from \<open>curpos\<close> to \<open>hi\<close> every round writes the range
  \<open>lo..<hi\<close> from the same source.  The loop has two, zeros and data.
\<close>

lemma write_phase:
  assumes "\<forall>a. curpos \<le> a \<and> a < hi \<longrightarrow> (if a < zero_endpos then pos else zero_endpos) = lo \<and>
      (if a < zero_endpos then zero_endpos else endpos) = hi \<and> (if a < zero_endpos then None else data) = dat"
    and "hi \<le> endpos" and "0 \<le> lo" and "curpos < hi" and "s < 499"
    and "curpos = max lo (int (slot_first s) * BLOCKSIZE)" and "curpos < (int (slot_first s) + 512 ^ slot_level s) * BLOCKSIZE"
    and "blocks_upto hi \<le> bc" and "bc \<le> FIRST_UNREACHABLE_BLOCK" and "data_fits dat (hi - lo)"
    and "last_slot = -1 \<or> curpos = zero_endpos \<or> last_slot + 1 = int s"
    and "store_inv d F Is" and "slots_ok d blocks bc" and "slots_set d blocks bc \<inter> F = {}"
  shows "\<exists>last' d'. write_slots blocks pos zero_endpos endpos data curpos last_slot d =
      write_slots blocks pos zero_endpos endpos data hi last' d' \<and> store_inv d' F Is \<and>
    written lo hi (src_byte dat lo) (\<Union>t \<in> {s..<499}. slot_map d blocks bc t) d d'"
  using assms
proof (induction "499 - s" arbitrary: s curpos last_slot d rule: less_induct)
  case less
  note prems = less.prems
  let ?first = "int (slot_first s)" and ?L = "slot_level s" and ?src = "src_byte dat lo"
  have x: "offset2blockidx curpos = curpos div BLOCKSIZE" "lo \<le> curpos"
    using prems(3,6) by (simp_all add: offset2blockidx_nonneg)
  note pslot = position_slot [OF prems(3) x(2) prems(4,8,9)]
  have s: "slot_of (offset2blockidx curpos) = s"
    using prems(3,5,6,7) x(2) by (intro slot_of_position) simp_all
  note pslot = pslot [unfolded s]
  let ?n = "cov lo hi (?first * BLOCKSIZE) ((?first + 512 ^ ?L) * BLOCKSIZE)"
  note adv = slot_advance [OF prems(3,4,5,6,7,8,9)]
  have child: "tree_ok ?L d (blocks ! s) (clampn ?L ?first bc)" "tset ?L d (blocks ! s) (clampn ?L ?first bc) \<inter> F = {}"
    using gforest_child(1) [OF prems(13,5)] gset_split [OF prems(5), of slot_level d blocks "slot_n bc"] prems(14)
    by (auto simp: slot_n_def)
  have lohi: "lo < hi"
    using x(2) prems(4) by simp
  obtain d1 where run: "inode_indirect_readwrite ?L d (blocks ! s) ?first lo hi dat True = Some (?n, dat, d1)"
    and inv1: "store_inv d1 F Is" and w1: "written lo hi ?src (slot_map d blocks bc s) d d1"
    using inode_indirect_write_spec [OF prems(3) lohi prems(8,10) _ prems(12) child pslot(5)] slot_level_le [OF prems(5)]
    by (auto simp: slot_n_def)
  have params: "(if curpos < zero_endpos then pos else zero_endpos) = lo" "(if curpos < zero_endpos then zero_endpos else endpos) = hi"
    "(if curpos < zero_endpos then None else data) = dat"
    using prems(1,4) by blast+
  have unfold: "write_slots blocks pos zero_endpos endpos data curpos last_slot d =
      write_slots blocks pos zero_endpos endpos data (curpos + ?n) (int s) d1"
    using prems(2,4,5,11) pslot(1,3,4) run
    by (subst write_slots.simps) (auto simp: Let_def params)
  note same = written_tree [where lev = slot_level and j = s and N = 499 and c = "slot_n bc", OF w1 prems(13,5)]
  have maps: "slot_map d1 blocks bc t = slot_map d blocks bc t" if "t < 499" for t
    using same(4) that by (auto simp: tmap_def)
  have split: "(\<Union>t \<in> {s..<499}. slot_map d blocks bc t) = slot_map d blocks bc s \<union> (\<Union>t \<in> {Suc s..<499}. slot_map d blocks bc t)"
  proof -
    have "{s..<499} = insert s {Suc s..<499}"
      using prems(5) by auto
    then show ?thesis
      by simp
  qed
  have disj: "fst ` slot_map d blocks bc s \<inter> fst ` (\<Union>t \<in> {Suc s..<499}. slot_map d blocks bc t) = {}"
  proof -
    have "fst ` slot_map d blocks bc s \<inter> fst ` slot_map d blocks bc t = {}" if "t \<in> {Suc s..<499}" for t
      using slot_map_disjoint(2) [of s t d blocks bc] prems(5,13) that by simp
    then show ?thesis
      by blast
  qed
  show ?case
  proof (cases "curpos + ?n < hi")
    case True
    then have next_slot: "Suc s < 499" "curpos + ?n = int (slot_first (Suc s)) * BLOCKSIZE" "lo \<le> curpos + ?n"
      using adv(3) by simp_all
    have "\<exists>last' d'. write_slots blocks pos zero_endpos endpos data (curpos + ?n) (int s) d1 =
        write_slots blocks pos zero_endpos endpos data hi last' d' \<and> store_inv d' F Is \<and>
        written lo hi ?src (\<Union>t \<in> {Suc s..<499}. slot_map d1 blocks bc t) d1 d'"
    proof (rule less.hyps)
      show "499 - Suc s < 499 - s"
        using prems(5) by simp
      show "curpos + ?n < (int (slot_first (Suc s)) + 512 ^ slot_level (Suc s)) * BLOCKSIZE"
        unfolding next_slot(2) by simp
      show "slots_set d1 blocks bc \<inter> F = {}"
        using same(2) prems(14) by simp
    qed (use prems(1-3,8-10) adv(2) True next_slot inv1 same(1) in auto)
    then obtain last' d2 where rest: "write_slots blocks pos zero_endpos endpos data (curpos + ?n) (int s) d1 =
        write_slots blocks pos zero_endpos endpos data hi last' d2" "store_inv d2 F Is"
      and w2: "written lo hi ?src (\<Union>t \<in> {Suc s..<499}. slot_map d1 blocks bc t) d1 d2"
      by blast
    have "(\<Union>t \<in> {Suc s..<499}. slot_map d1 blocks bc t) = (\<Union>t \<in> {Suc s..<499}. slot_map d blocks bc t)"
      using maps by simp
    from written_Un [OF w1 w2 [unfolded this] disj] show ?thesis
      using rest unfold unfolding split by auto
  next
    case False
    then have e: "curpos + ?n = hi"
      using adv(1) by simp
    have "\<not> covered lo hi x" if "t \<in> {Suc s..<499}" "(b, x) \<in> slot_map d blocks bc t" for t b x
      using adv(4) [OF e _ _ that(2)] that(1) by simp
    then have "\<forall>(b, x) \<in> \<Union>t \<in> {Suc s..<499}. slot_map d blocks bc t. \<not> covered lo hi x"
      by blast
    from written_uncovered [OF w1 disj this]
    have "written lo hi ?src (\<Union>t \<in> {s..<499}. slot_map d blocks bc t) d d1"
      unfolding split .
    then show ?thesis
      using unfold inv1 e by auto
  qed
qed

lemma before_uncovered:
  assumes "int (slot_first s) * BLOCKSIZE \<le> pos" "t < s" "s < 499" "(b, x) \<in> slot_map d blocks bc t"
  shows "\<not> covered pos endpos x"
proof -
  have "x + 1 \<le> int (slot_first s)"
    using slot_gap [OF assms(2,3)] slot_map_range(2) [OF assms(4)] by linarith
  then have "(x + 1) * BLOCKSIZE \<le> int (slot_first s) * BLOCKSIZE"
    by (intro mult_right_mono) simp_all
  then show ?thesis
    using assms(1) by (simp add: covered_def)
qed

lemma file_map_split:
  assumes "s < 499"
  shows "file_map d blocks bc = (\<Union>t \<in> {s..<499}. slot_map d blocks bc t) \<union> (\<Union>t \<in> {..<s}. slot_map d blocks bc t)"
proof -
  have "{..<499} = {s..<499} \<union> {..<s}"
    using assms by auto
  then show ?thesis
    unfolding file_map_def by blast
qed

lemma write_range:
  assumes params: "\<forall>a. lo \<le> a \<and> a < hi \<longrightarrow> (if a < zero_endpos then pos else zero_endpos) = lo \<and>
      (if a < zero_endpos then zero_endpos else endpos) = hi \<and> (if a < zero_endpos then None else data) = dat"
    and range: "hi \<le> endpos" "0 \<le> lo" "lo < hi" "blocks_upto hi \<le> bc" "bc \<le> FIRST_UNREACHABLE_BLOCK"
    and fits: "data_fits dat (hi - lo)" and last: "last_slot = -1 \<or> lo = zero_endpos"
    and inv: "store_inv d F Is" and ok: "slots_ok d blocks bc" "slots_set d blocks bc \<inter> F = {}"
  shows "\<exists>last' d'. write_slots blocks pos zero_endpos endpos data lo last_slot d =
      write_slots blocks pos zero_endpos endpos data hi last' d' \<and> store_inv d' F Is \<and>
    written lo hi (src_byte dat lo) (file_map d blocks bc) d d'"
proof -
  define s where "s = slot_of (offset2blockidx lo)"
  note pslot = position_slot [OF range(2) order_refl range(3,4,5), folded s_def]
  have start: "lo = max lo (int (slot_first s) * BLOCKSIZE)"
    using pslot(6) by simp
  have last': "last_slot = -1 \<or> lo = zero_endpos \<or> last_slot + 1 = int s"
    using last by blast
  obtain last' d' where res: "write_slots blocks pos zero_endpos endpos data lo last_slot d =
      write_slots blocks pos zero_endpos endpos data hi last' d'" "store_inv d' F Is"
    and w: "written lo hi (src_byte dat lo) (\<Union>t \<in> {s..<499}. slot_map d blocks bc t) d d'"
    using write_phase [OF params range(1-3) pslot(2) start pslot(7) range(4,5) fits last' inv ok] by blast
  have "written lo hi (src_byte dat lo) (file_map d blocks bc) d d'"
    unfolding file_map_split [OF pslot(2)]
  proof (rule written_uncovered [OF w])
    show "fst ` (\<Union>t \<in> {s..<499}. slot_map d blocks bc t) \<inter> fst ` (\<Union>t \<in> {..<s}. slot_map d blocks bc t) = {}"
      using pslot(2) ok(1) by (intro UN_image_disjoint slot_map_disjoint(2)) auto
    have "\<not> covered lo hi x" if "t < s" "(b, x) \<in> slot_map d blocks bc t" for t b x
      by (rule before_uncovered [OF pslot(6) that(1) pslot(2) that(2)])
    then show "\<forall>(b, x) \<in> \<Union>t \<in> {..<s}. slot_map d blocks bc t. \<not> covered lo hi x"
      by blast
  qed
  then show ?thesis
    using res by blast
qed

lemma written_seq:
  assumes "written lo mid f M d d1" and "written mid hi g M d1 d2" and "lo \<le> mid" "mid \<le> hi"
  shows "written lo hi (\<lambda>a. if a < mid then f a else g a) M d d2"
proof -
  have "blk d2 b ! i = (let a = x * BLOCKSIZE + int i in
      if lo \<le> a \<and> a < hi then (if a < mid then f a else g a) else blk d b ! i)"
    if "(b, x) \<in> M" "i < BLOCKSIZE" for b x i
    using written_in [OF assms(1) that] written_in [OF assms(2) that] assms(3,4) by (auto simp: Let_def)
  then show ?thesis
    using assms(1,2) same_dev_trans by (auto simp: written_def)
qed

lemma written_empty_range:
  "hi \<le> lo \<Longrightarrow> written lo hi src M d d"
  by (auto simp: written_def Let_def)

lemma written_file:
  assumes w: "written lo hi src (file_map d blocks bc) d d'" and ok: "slots_ok d blocks bc"
  shows "slots_ok d' blocks bc" "slots_set d' blocks bc = slots_set d blocks bc"
    "slots_meta d' blocks bc = slots_meta d blocks bc" "file_map d' blocks bc = file_map d blocks bc"
    "framed (fst ` file_map d blocks bc) d d'"
    "s < 499 \<Longrightarrow> k < slot_n bc s \<Longrightarrow> tget (slot_level s) d' (blocks ! s) k = tget (slot_level s) d (blocks ! s) k"
proof -
  have child: "tree_ok (slot_level s) d (blocks ! s) (slot_n bc s)" if "s < 499" for s
    using ok that by (simp add: gforest_def)
  have keep: "blk d' b = blk d b" if "b \<in> slots_meta d blocks bc" for b
  proof (rule written_out [OF w])
    obtain s where s: "s < 499" "b \<in> tmeta (slot_level s) d (blocks ! s) (slot_n bc s)"
      using \<open>b \<in> slots_meta d blocks bc\<close> by (auto simp: gmeta_def)
    have "b \<notin> fst ` slot_map d blocks bc t" if t: "t < 499" for t
    proof (cases "s = t")
      case True
      then show ?thesis
        using fst_tmap_tmeta [OF child [OF t], of "int (slot_first t)"] s(2) by blast
    next
      case False
      then have "tset (slot_level s) d (blocks ! s) (slot_n bc s) \<inter> tset (slot_level t) d (blocks ! t) (slot_n bc t) = {}"
        using ok s(1) t by (simp add: gforest_def)
      then show ?thesis
        using s(2) tmeta_subset fst_tmap [OF child [OF t], of "int (slot_first t)"] by blast
    qed
    then show "b \<notin> fst ` file_map d blocks bc"
      by (auto simp: file_map_def image_UN)
  qed
  have "0 \<notin> fst ` file_map d blocks bc"
    using fst_file_map [OF ok] gforest_data [OF ok] zero_not_data_block by blast
  then show fr: "framed (fst ` file_map d blocks bc) d d'"
    by (rule written_framed [OF w])
  note cong = gforest_cong [where N = 499 and lev = slot_level and ps = blocks and c = "slot_n bc", OF keep slot_n_le]
  show "slots_set d' blocks bc = slots_set d blocks bc" "slots_meta d' blocks bc = slots_meta d blocks bc"
    using cong(1,4) by simp_all
  show "slots_ok d' blocks bc"
    using cong(2) [OF _ framed_dev(5) [OF fr]] ok by simp
  show get: "s < 499 \<Longrightarrow> k < slot_n bc s \<Longrightarrow> tget (slot_level s) d' (blocks ! s) k = tget (slot_level s) d (blocks ! s) k" for s k
    using cong(3) by simp
  show "file_map d' blocks bc = file_map d blocks bc"
    using get by (auto simp: file_map_def tmap_def)
qed

lemma src_byte_None [simp]: "src_byte None pos = (\<lambda>_. 0)"
  by (simp add: src_byte_def fun_eq_iff)

theorem write_slots_spec:
  assumes range: "0 \<le> pos" "pos \<le> zero_endpos" "zero_endpos \<le> endpos" "pos < endpos"
      "blocks_upto endpos \<le> bc" "bc \<le> FIRST_UNREACHABLE_BLOCK"
    and fits: "data_fits data (endpos - zero_endpos)"
    and inv: "store_inv d F Is" and ok: "slots_ok d blocks bc" "slots_set d blocks bc \<inter> F = {}"
  shows "\<exists>d'. write_slots blocks pos zero_endpos endpos data pos (-1) d = Some (endpos, d') \<and> store_inv d' F Is \<and>
    written pos endpos (\<lambda>a. if a < zero_endpos then 0 else src_byte data zero_endpos a) (file_map d blocks bc) d d'"
proof -
  have "\<exists>last1 d1. write_slots blocks pos zero_endpos endpos data pos (-1) d =
      write_slots blocks pos zero_endpos endpos data zero_endpos last1 d1 \<and> store_inv d1 F Is \<and>
      written pos zero_endpos (\<lambda>_. 0) (file_map d blocks bc) d d1 \<and> (last1 = -1 \<or> pos < zero_endpos)"
  proof (cases "pos < zero_endpos")
    case True
    have "blocks_upto zero_endpos \<le> bc"
      using zdiv_mono1 [of "zero_endpos - 1" "endpos - 1" BLOCKSIZE] range(3,5) by simp
    then show ?thesis
      using write_range [of pos zero_endpos zero_endpos pos endpos data None bc "-1" d F Is blocks] range True inv ok
      by (auto simp: data_fits_def)
  next
    case False
    then have "zero_endpos = pos"
      using range(2) by simp
    then show ?thesis
      using inv written_empty_range [of pos pos "\<lambda>_. 0" "file_map d blocks bc" d] by auto
  qed
  then obtain last1 d1 where 1: "write_slots blocks pos zero_endpos endpos data pos (-1) d =
      write_slots blocks pos zero_endpos endpos data zero_endpos last1 d1" "store_inv d1 F Is"
    and w1: "written pos zero_endpos (\<lambda>_. 0) (file_map d blocks bc) d d1"
    by blast
  note same = written_file [OF w1 ok(1)]
  have "\<exists>last2 d2. write_slots blocks pos zero_endpos endpos data zero_endpos last1 d1 =
      write_slots blocks pos zero_endpos endpos data endpos last2 d2 \<and> store_inv d2 F Is \<and>
      written zero_endpos endpos (src_byte data zero_endpos) (file_map d1 blocks bc) d1 d2"
  proof (cases "zero_endpos < endpos")
    case True
    then show ?thesis
      using range fits 1(2) same ok(2)
      by (intro write_range) auto
  next
    case False
    then have "endpos = zero_endpos"
      using range(3) by simp
    then show ?thesis
      using 1(2) written_empty_range [of endpos endpos "src_byte data endpos" "file_map d1 blocks bc" d1] by auto
  qed
  then obtain last2 d2 where 2: "write_slots blocks pos zero_endpos endpos data zero_endpos last1 d1 =
      write_slots blocks pos zero_endpos endpos data endpos last2 d2" "store_inv d2 F Is"
    and w2: "written zero_endpos endpos (src_byte data zero_endpos) (file_map d blocks bc) d1 d2"
    unfolding same(4) by blast
  have "write_slots blocks pos zero_endpos endpos data endpos last2 d2 = Some (endpos, d2)"
    by (subst write_slots.simps) simp
  then show ?thesis
    using 1(1) 2 written_seq [OF w1 w2 range(2,3)] by auto
qed

section \<open>Reading\<close>

lemma read_phase:
  assumes geo: "store_geometry d" and ok: "slots_ok d blocks bc"
    and range: "0 \<le> pos" "blocks_upto endpos \<le> bc" "bc \<le> FIRST_UNREACHABLE_BLOCK"
    and "pos \<le> curpos" and "curpos < endpos" and "s < 499"
    and "curpos = max pos (int (slot_first s) * BLOCKSIZE)" and "curpos < (int (slot_first s) + 512 ^ slot_level s) * BLOCKSIZE"
    and "last_slot = -1 \<or> last_slot + 1 = int s" and "endpos - pos \<le> int (length buf)"
  shows "\<exists>buf'. read_slots blocks pos endpos buf curpos last_slot d = Some (endpos, buf', d) \<and>
    filled pos endpos (\<Union>t \<in> {s..<499}. slot_map d blocks bc t) d buf buf'"
  using assms(6-)
proof (induction "499 - s" arbitrary: s curpos last_slot buf rule: less_induct)
  case less
  note prems = less.prems
  let ?first = "int (slot_first s)" and ?L = "slot_level s"
  have pos_less: "pos < endpos"
    using prems(1,2) by simp
  have x: "offset2blockidx curpos = curpos div BLOCKSIZE"
    using range(1) prems(1) by (simp add: offset2blockidx_nonneg)
  note pslot = position_slot [OF range(1) prems(1,2) range(2,3)]
  have s: "slot_of (offset2blockidx curpos) = s"
    using range(1) prems(1,3,4,5) by (intro slot_of_position) simp_all
  note pslot = pslot [unfolded s]
  let ?n = "cov pos endpos (?first * BLOCKSIZE) ((?first + 512 ^ ?L) * BLOCKSIZE)"
  note adv = slot_advance [OF range(1) prems(2-5) range(2,3)]
  have child: "tree_ok ?L d (blocks ! s) (clampn ?L ?first bc)"
    using gforest_child(1) [OF ok prems(3)] by (simp add: slot_n_def)
  obtain buf1 where run: "inode_indirect_readwrite ?L d (blocks ! s) ?first pos endpos (Some buf) False = Some (?n, Some buf1, d)"
    and f1: "filled pos endpos (slot_map d blocks bc s) d buf buf1"
    using inode_indirect_read_spec [OF geo range(1) pos_less range(2) slot_level_le [OF prems(3)] child pslot(5) prems(7)]
    by (auto simp: slot_n_def)
  have len: "length buf1 = length buf"
    using f1 by (simp add: filled_def)
  have unfold: "read_slots blocks pos endpos buf curpos last_slot d =
      read_slots blocks pos endpos buf1 (curpos + ?n) (int s) d"
    using prems(2,3,6) pslot(1,3,4) run
    by (subst read_slots.simps) (auto simp: Let_def)
  have split: "(\<Union>t \<in> {s..<499}. slot_map d blocks bc t) = slot_map d blocks bc s \<union> (\<Union>t \<in> {Suc s..<499}. slot_map d blocks bc t)"
  proof -
    have "{s..<499} = insert s {Suc s..<499}"
      using prems(3) by auto
    then show ?thesis
      by simp
  qed
  have disj: "snd ` slot_map d blocks bc s \<inter> snd ` (\<Union>t \<in> {Suc s..<499}. slot_map d blocks bc t) = {}"
  proof -
    have "snd ` slot_map d blocks bc s \<inter> snd ` slot_map d blocks bc t = {}" if "t \<in> {Suc s..<499}" for t
      using slot_map_disjoint(1) [of s t] prems(3) that by simp
    then show ?thesis
      by blast
  qed
  show ?case
  proof (cases "curpos + ?n < endpos")
    case True
    then have next_slot: "Suc s < 499" "curpos + ?n = int (slot_first (Suc s)) * BLOCKSIZE" "pos \<le> curpos + ?n"
      using adv(3) by simp_all
    have "\<exists>buf'. read_slots blocks pos endpos buf1 (curpos + ?n) (int s) d = Some (endpos, buf', d) \<and>
        filled pos endpos (\<Union>t \<in> {Suc s..<499}. slot_map d blocks bc t) d buf1 buf'"
    proof (rule less.hyps)
      show "499 - Suc s < 499 - s"
        using prems(3) by simp
      show "curpos + ?n < (int (slot_first (Suc s)) + 512 ^ slot_level (Suc s)) * BLOCKSIZE"
        unfolding next_slot(2) by simp
    qed (use prems(7) True next_slot len in auto)
    then obtain buf2 where rest: "read_slots blocks pos endpos buf1 (curpos + ?n) (int s) d = Some (endpos, buf2, d)"
      and f2: "filled pos endpos (\<Union>t \<in> {Suc s..<499}. slot_map d blocks bc t) d buf1 buf2"
      by blast
    show ?thesis
      using rest unfold filled_Un [OF f1 f2 disj] unfolding split by auto
  next
    case False
    then have e: "curpos + ?n = endpos"
      using adv(1) by simp
    have "\<not> covered pos endpos x" if "t \<in> {Suc s..<499}" "(b, x) \<in> slot_map d blocks bc t" for t b x
      using adv(4) [OF e _ _ that(2)] that(1) by simp
    then have "\<forall>(b, x) \<in> \<Union>t \<in> {Suc s..<499}. slot_map d blocks bc t. \<not> covered pos endpos x"
      by blast
    from filled_uncovered [OF f1 disj this]
    have "filled pos endpos (\<Union>t \<in> {s..<499}. slot_map d blocks bc t) d buf buf1"
      unfolding split .
    moreover have "read_slots blocks pos endpos buf1 endpos (int s) d = Some (endpos, buf1, d)"
      by (subst read_slots.simps) simp
    ultimately show ?thesis
      using unfold e by auto
  qed
qed

theorem read_slots_spec:
  assumes geo: "store_geometry d" and ok: "slots_ok d blocks bc"
    and range: "0 \<le> pos" "pos < endpos" "blocks_upto endpos \<le> bc" "bc \<le> FIRST_UNREACHABLE_BLOCK"
    and fits: "endpos - pos \<le> int (length buf)"
  shows "\<exists>buf'. read_slots blocks pos endpos buf pos (-1) d = Some (endpos, buf', d) \<and>
    filled pos endpos (file_map d blocks bc) d buf buf'"
proof -
  define s where "s = slot_of (offset2blockidx pos)"
  note pslot = position_slot [OF range(1) order_refl range(2-4), folded s_def]
  have start: "pos = max pos (int (slot_first s) * BLOCKSIZE)"
    using pslot(6) by simp
  obtain buf' where res: "read_slots blocks pos endpos buf pos (-1) d = Some (endpos, buf', d)"
    and f: "filled pos endpos (\<Union>t \<in> {s..<499}. slot_map d blocks bc t) d buf buf'"
    using read_phase [OF geo ok range(1,3,4) order_refl range(2) pslot(2) start pslot(7) _ fits, of "-1"] by auto
  have "filled pos endpos (file_map d blocks bc) d buf buf'"
    unfolding file_map_split [OF pslot(2)]
  proof (rule filled_uncovered [OF f])
    show "snd ` (\<Union>t \<in> {s..<499}. slot_map d blocks bc t) \<inter> snd ` (\<Union>t \<in> {..<s}. slot_map d blocks bc t) = {}"
      using pslot(2) by (intro UN_image_disjoint slot_map_disjoint(1)) auto
    have "\<not> covered pos endpos x" if "t < s" "(b, x) \<in> slot_map d blocks bc t" for t b x
      by (rule before_uncovered [OF pslot(6) that(1) pslot(2) that(2)])
    then show "\<forall>(b, x) \<in> \<Union>t \<in> {..<s}. slot_map d blocks bc t. \<not> covered pos endpos x"
      by blast
  qed
  then show ?thesis
    using res by blast
qed

end
