(* ===== verification/Inode_Inv.thy ===== *)
theory Inode_Inv
  imports Inode_Data
begin

text \<open>
  The blocks of a file by their index: block \<open>x\<close> is \<open>file_block d blocks x\<close>, different
  blocks of a file are different, and growing or shrinking the file keeps the ones that stay
  (\<open>resized\<close>).
\<close>

section \<open>The blocks of a file by index\<close>

definition file_block :: "'x disk_t_scheme \<Rightarrow> blockno list \<Rightarrow> int \<Rightarrow> blockno" where
  "file_block d blocks x = (let s = slot_of x in
     tget (slot_level s) d (blocks ! s) (nat (x - int (slot_first s))))"

lemma slot_index:
  assumes "0 \<le> x" "x < bc" "bc \<le> FIRST_UNREACHABLE_BLOCK"
  shows "slot_of x < 499" "nat (x - int (slot_first (slot_of x))) < slot_n bc (slot_of x)"
    "int (slot_first (slot_of x)) \<le> x"
proof -
  note f = slot_of_facts [of x]
  show "slot_of x < 499" "int (slot_first (slot_of x)) \<le> x"
    using f assms by simp_all
  have "x - int (slot_first (slot_of x)) < int (slot_n bc (slot_of x))"
    unfolding int_slot_n using f(5,6) assms by simp
  moreover have "0 \<le> x - int (slot_first (slot_of x))"
    using f assms by simp
  ultimately show "nat (x - int (slot_first (slot_of x))) < slot_n bc (slot_of x)"
    by linarith
qed

lemma file_map_iff:
  assumes "bc \<le> FIRST_UNREACHABLE_BLOCK"
  shows "(b, x) \<in> file_map d blocks bc \<longleftrightarrow> 0 \<le> x \<and> x < bc \<and> b = file_block d blocks x"
proof
  assume "(b, x) \<in> file_map d blocks bc"
  then obtain s k where s: "s < 499" and k: "k < slot_n bc s" and eq: "b = tget (slot_level s) d (blocks ! s) k"
      "x = int (slot_first s) + int k" and mem: "(b, x) \<in> slot_map d blocks bc s"
    by (auto simp: file_map_def tmap_def)
  note r = slot_map_range [OF mem]
  have "0 \<le> x" "x < FIRST_UNREACHABLE_BLOCK"
    using eq r(3) assms by simp_all
  then have "blockidx2blockslot x = int s"
    using r s by (intro slot_unique) simp_all
  then have "slot_of x = s"
    by (simp add: slot_of_def)
  then show "0 \<le> x \<and> x < bc \<and> b = file_block d blocks x"
    using eq r(3) by (simp add: file_block_def)
next
  assume x: "0 \<le> x \<and> x < bc \<and> b = file_block d blocks x"
  then have i: "slot_of x < 499" "nat (x - int (slot_first (slot_of x))) < slot_n bc (slot_of x)"
      "int (slot_first (slot_of x)) \<le> x"
    using slot_index assms by blast+
  then show "(b, x) \<in> file_map d blocks bc"
    using x unfolding file_map_def tmap_def file_block_def Let_def
    by (intro UN_I [of "slot_of x"] image_eqI [of _ _ "nat (x - int (slot_first (slot_of x)))"]) auto
qed

lemma file_block_in:
  assumes "slots_ok d blocks bc" "0 \<le> x" "x < bc" "bc \<le> FIRST_UNREACHABLE_BLOCK"
  shows "file_block d blocks x \<in> slots_set d blocks bc" "file_block d blocks x \<notin> slots_meta d blocks bc"
proof -
  let ?s = "slot_of x"
  have mem: "(file_block d blocks x, x) \<in> file_map d blocks bc"
    using file_map_iff assms by blast
  then show "file_block d blocks x \<in> slots_set d blocks bc"
    using fst_file_map [OF assms(1)] by force
  note i = slot_index [OF assms(2-4)]
  have child: "tree_ok (slot_level t) d (blocks ! t) (slot_n bc t)" if "t < 499" for t
    using assms(1) that by (simp add: gforest_def)
  let ?b = "file_block d blocks x"
  have b: "?b \<in> tset (slot_level ?s) d (blocks ! ?s) (slot_n bc ?s)" "?b \<notin> tmeta (slot_level ?s) d (blocks ! ?s) (slot_n bc ?s)"
    using tget_in_tset [OF child [OF i(1)] i(2)] tget_not_tmeta [OF child [OF i(1)] i(2)]
    by (simp_all add: file_block_def Let_def)
  have "?b \<notin> tmeta (slot_level t) d (blocks ! t) (slot_n bc t)" if "t < 499" for t
  proof (cases "t = ?s")
    case False
    then have "?b \<notin> tset (slot_level t) d (blocks ! t) (slot_n bc t)"
      using assms(1) i(1) that b(1) by (auto simp: gforest_def)
    then show ?thesis
      using tmeta_subset by blast
  qed (use b(2) in simp)
  then show "?b \<notin> slots_meta d blocks bc"
    by (auto simp: gmeta_def)
qed

lemma file_block_inject:
  assumes "slots_ok d blocks bc" "bc \<le> FIRST_UNREACHABLE_BLOCK" "0 \<le> x" "x < bc" "0 \<le> y" "y < bc"
    and "file_block d blocks x = file_block d blocks y"
  shows "x = y"
proof -
  let ?s = "slot_of x" and ?t = "slot_of y"
  note i = slot_index [OF assms(3,4,2)] and j = slot_index [OF assms(5,6,2)]
  have child: "tree_ok (slot_level t) d (blocks ! t) (slot_n bc t)" if "t < 499" for t
    using assms(1) that by (simp add: gforest_def)
  have "?s = ?t"
  proof (rule ccontr)
    assume "?s \<noteq> ?t"
    then have "tset (slot_level ?s) d (blocks ! ?s) (slot_n bc ?s) \<inter> tset (slot_level ?t) d (blocks ! ?t) (slot_n bc ?t) = {}"
      using assms(1) i(1) j(1) by (simp add: gforest_def)
    then show False
      using tget_in_tset [OF child [OF i(1)] i(2)] tget_in_tset [OF child [OF j(1)] j(2)] assms(7)
      by (auto simp: file_block_def Let_def)
  qed
  then have "nat (x - int (slot_first ?s)) = nat (y - int (slot_first ?s))"
    using tget_inject [OF child [OF i(1)] i(2)] j(2) assms(7) by (simp add: file_block_def Let_def)
  then show ?thesis
    using i(3) j(3) \<open>?s = ?t\<close> by simp
qed

section \<open>Resizing\<close>

text \<open>What growing and shrinking have in common.\<close>

definition resized :: "ino list \<Rightarrow> blockno set \<Rightarrow> 'x disk_t_scheme \<Rightarrow> blockno list \<Rightarrow> int \<Rightarrow>
    blockno set \<Rightarrow> 'x disk_t_scheme \<Rightarrow> blockno list \<Rightarrow> int \<Rightarrow> bool" where
  "resized Is F d blocks m F' d' blocks' m' \<longleftrightarrow> store_inv d' F' Is \<and>
     framed (insert 0 (F \<union> F' \<union> slots_meta d blocks m)) d d' \<and> length blocks' = 499 \<and> slots_ok d' blocks' m' \<and>
     slots_set d' blocks' m' \<union> F' = slots_set d blocks m \<union> F \<and> slots_set d' blocks' m' \<inter> F' = {} \<and>
     (\<forall>x. 0 \<le> x \<and> x < m \<and> x < m' \<longrightarrow>
       file_block d' blocks' x = file_block d blocks x \<and> blk d' (file_block d blocks x) = blk d (file_block d blocks x))"

lemma grown_resized:
  assumes g: "grown Is F d blocks m F' d' blocks' m'" and ok: "slots_ok d blocks m" "slots_set d blocks m \<inter> F = {}"
    and le: "m \<le> m'" "m' \<le> FIRST_UNREACHABLE_BLOCK"
  shows "resized Is F d blocks m F' d' blocks' m'"
proof -
  have "file_block d' blocks' x = file_block d blocks x \<and> blk d' (file_block d blocks x) = blk d (file_block d blocks x)"
    if x: "0 \<le> x" "x < m" for x
  proof
    have m: "m \<le> FIRST_UNREACHABLE_BLOCK"
      using le by simp
    show "file_block d' blocks' x = file_block d blocks x"
      using g slot_index [OF x m] by (simp add: grown_def file_block_def Let_def)
    note b = file_block_in [OF ok(1) x m]
    have "file_block d blocks x \<noteq> 0"
      using gforest_data [OF ok(1) b(1)] zero_not_data_block [of d] by auto
    then have "file_block d blocks x \<notin> insert 0 (F \<union> slots_meta d blocks m)"
      using b ok(2) by auto
    then show "blk d' (file_block d blocks x) = blk d (file_block d blocks x)"
      using g by (auto simp: grown_def intro: framed_blk)
  qed
  moreover have "framed (insert 0 (F \<union> F' \<union> slots_meta d blocks m)) d d'"
    using g by (auto simp: grown_def intro: framed_mono)
  ultimately show ?thesis
    using g ok(2) by (auto simp: grown_def resized_def)
qed

lemma shrunk_resized:
  assumes g: "shrunk Is F d blocks m F' d' blocks' m'" and ok: "slots_ok d blocks m" "slots_set d blocks m \<inter> F = {}"
    and le: "m' \<le> m" "m \<le> FIRST_UNREACHABLE_BLOCK"
  shows "resized Is F d blocks m F' d' blocks' m'"
proof -
  have "file_block d' blocks' x = file_block d blocks x \<and> blk d' (file_block d blocks x) = blk d (file_block d blocks x)"
    if x: "0 \<le> x" "x < m'" for x
  proof
    have m: "m' \<le> FIRST_UNREACHABLE_BLOCK" "x < m"
      using le x by simp_all
    show same: "file_block d' blocks' x = file_block d blocks x"
      using g slot_index [OF x m(1)] by (simp add: shrunk_def file_block_def Let_def)
    have ok': "slots_ok d' blocks' m'"
      using g by (simp add: shrunk_def)
    have "file_block d blocks x \<noteq> 0"
      using gforest_data [OF ok(1) file_block_in(1) [OF ok(1) x(1) m(2) le(2)]] zero_not_data_block [of d] by auto
    moreover have "file_block d blocks x \<notin> F'"
      using file_block_in(1) [OF ok' x m(1)] same file_block_in(1) [OF ok(1) x(1) m(2) le(2)] g ok(2)
      by (auto simp: shrunk_def)
    ultimately have "file_block d blocks x \<notin> insert 0 (F' \<union> slots_meta d blocks m)"
      using file_block_in(2) [OF ok(1) x(1) m(2) le(2)] by simp
    then show "blk d' (file_block d blocks x) = blk d (file_block d blocks x)"
      using g by (auto simp: shrunk_def intro: framed_blk)
  qed
  moreover have "framed (insert 0 (F \<union> F' \<union> slots_meta d blocks m)) d d'"
    using g by (auto simp: shrunk_def intro: framed_mono)
  ultimately show ?thesis
    using g ok(2) by (auto simp: shrunk_def resized_def)
qed

end
