(* ===== verification/Files.thy ===== *)
theory Files
  imports Inode_Inv
begin

text \<open>
  The abstract view of the filesystem below the directories: a set \<open>A\<close> of inodes in use, each
  with its metadata and its content, a byte list.  \<open>fs_inv d F Is A\<close> says that the disk
  represents it: every data block of the disk is free or belongs to exactly one inode, every
  inode number is free or in use.
\<close>

section \<open>States with the same disk\<close>

definition same_disk :: "'x disk_t_scheme \<Rightarrow> 'x disk_t_scheme \<Rightarrow> bool" where
  "same_disk d d' \<longleftrightarrow> nblocks d' = nblocks d \<and> blocksize d' = blocksize d \<and> fd d' = fd d \<and>
     disk_data d' = disk_data d \<and> io_ok d' = io_ok d"

lemma same_disk_refl [simp]: "same_disk d d"
  by (simp add: same_disk_def)

lemma same_disk_blk: "same_disk d d' \<Longrightarrow> blk d' b = blk d b"
  by (simp add: same_disk_def blk_def)

lemma same_disk_dev:
  assumes "same_disk d d'"
  shows "super d' = super d" "wf_disk d' = wf_disk d" "nblocks d' = nblocks d" "data_block d' = data_block d"
    "valid_ino d' = valid_ino d" "ilist_at d' i = ilist_at d i"
  using assms same_disk_blk [OF assms]
  by (auto simp: super_def same_disk_def wf_disk_def data_block_def valid_ino_def ilist_at_def fun_eq_iff)

lemma same_disk_store:
  assumes "same_disk d d'"
  shows "store_inv d' F Is = store_inv d F Is"
proof -
  note eqs = same_disk_dev [OF assms] and blks = same_disk_blk [OF assms]
  have "fl_chain d' p bs = fl_chain d p bs" "free_list d' bs = free_list d bs" "ino_chain d' q Is = ino_chain d q Is" for p bs q
    using fl_chain_cong [of bs d' d] free_list_cong [of bs d' d] ino_chain_cong [of Is d' d] eqs blks by auto
  then show ?thesis
    using eqs by (simp add: store_inv_def store_geometry_def free_blocks_rep_def free_inos_rep_def)
qed

text \<open>
  \<open>changed S d d'\<close>: only blocks in \<open>S\<close> differ, the table of inodes is as large as it was, and
  of the state above the disk only the clock may have ticked.
\<close>

definition changed :: "u64 set \<Rightarrow> 'x inode_env_scheme \<Rightarrow> 'x inode_env_scheme \<Rightarrow> bool" where
  "changed S d d' \<longleftrightarrow> nblocks d' = nblocks d \<and> wf_disk d' = wf_disk d \<and> clock d' = clock d \<and>
     inode_env.more d' = inode_env.more d \<and> ilist_size (super d') = ilist_size (super d) \<and>
     (\<forall>c. c \<notin> S \<longrightarrow> blk d' c = blk d c)"

lemma changed_refl [simp]: "changed S d d"
  by (simp add: changed_def)

lemma changed_trans: "changed S d d' \<Longrightarrow> changed T d' d'' \<Longrightarrow> changed (S \<union> T) d d''"
  by (simp add: changed_def)

lemma changed_mono: "changed S d d' \<Longrightarrow> S \<subseteq> T \<Longrightarrow> changed T d d'"
  by (auto simp: changed_def)

lemma changed_dev:
  assumes "changed S d d'"
  shows "nblocks d' = nblocks d" "data_block d' = data_block d" "valid_ino d' = valid_ino d"
    "clock d' = clock d" "inode_env.more d' = inode_env.more d"
  using assms by (auto simp: changed_def data_block_def valid_ino_def fun_eq_iff)

lemma changed_blk: "changed S d d' \<Longrightarrow> c \<notin> S \<Longrightarrow> blk d' c = blk d c"
  by (simp add: changed_def)

lemma framed_changed:
  assumes "framed S d d'"
  shows "changed S d d'"
proof -
  obtain f where "d' = d\<lparr>disk_data := f\<rparr>"
    using framed_dev(4) [OF assms] unfolding same_dev_def by blast
  then have "clock d' = clock d" "inode_env.more d' = inode_env.more d"
    by simp_all
  then show ?thesis
    using assms framed_dev [OF assms] framed_blk [OF assms] by (simp add: changed_def framed_def)
qed

lemma same_disk_now: "same_disk d (snd (now d))" "changed {} d (snd (now d))"
  by (simp_all add: now_def same_disk_def changed_def super_def blk_def wf_disk_def)

section \<open>The inodes of a disk\<close>

definition inode_at :: "'x disk_t_scheme \<Rightarrow> ino \<Rightarrow> inode_t" where
  "inode_at d i = dec_inode (blk d (ilist_at d i))"

definition fsize :: "'x disk_t_scheme \<Rightarrow> ino \<Rightarrow> int" where
  "fsize d i = sint (isize (inode_at d i))"

definition fcount_blocks :: "'x disk_t_scheme \<Rightarrow> ino \<Rightarrow> int" where
  "fcount_blocks d i = blockcount_of (fsize d i)"

text \<open>The blocks of inode \<open>i\<close>: its own, its data and its indirect blocks.\<close>

definition own :: "'x disk_t_scheme \<Rightarrow> ino \<Rightarrow> blockno set" where
  "own d i = insert (ilist_at d i) (slots_set d (iblocks (inode_at d i)) (fcount_blocks d i))"

definition inode_good :: "'x disk_t_scheme \<Rightarrow> ino \<Rightarrow> bool" where
  "inode_good d i \<longleftrightarrow> valid_ino d i \<and> data_block d (ilist_at d i) \<and> imagic (inode_at d i) = INODE_MAGIC \<and>
     0 \<le> fsize d i \<and> fsize d i \<le> MAX_FILESIZE \<and> slots_ok d (iblocks (inode_at d i)) (fcount_blocks d i) \<and>
     ilist_at d i \<notin> slots_set d (iblocks (inode_at d i)) (fcount_blocks d i)"

definition file_byte :: "'x disk_t_scheme \<Rightarrow> blockno list \<Rightarrow> nat \<Rightarrow> byte" where
  "file_byte d blocks a = blk d (file_block d blocks (int a div BLOCKSIZE)) ! (a mod BLOCKSIZE)"

definition content :: "'x disk_t_scheme \<Rightarrow> ino \<Rightarrow> byte list" where
  "content d i = map (file_byte d (iblocks (inode_at d i))) [0..<nat (fsize d i)]"

lemma length_content [simp]: "length (content d i) = nat (fsize d i)"
  by (simp add: content_def)

lemma nth_content: "a < nat (fsize d i) \<Longrightarrow> content d i ! a = file_byte d (iblocks (inode_at d i)) a"
  by (simp add: content_def)

text \<open>\<open>same_file d d' i\<close>: inode \<open>i\<close> has the metadata, the content and the blocks it had.\<close>

definition same_file :: "'x disk_t_scheme \<Rightarrow> 'x disk_t_scheme \<Rightarrow> ino \<Rightarrow> bool" where
  "same_file d d' i \<longleftrightarrow> inode_at d' i = inode_at d i \<and> content d' i = content d i \<and> own d' i = own d i"

lemma same_file_refl [simp]: "same_file d d i"
  by (simp add: same_file_def)

lemma same_file_trans: "same_file d d' i \<Longrightarrow> same_file d' d'' i \<Longrightarrow> same_file d d'' i"
  by (simp add: same_file_def)

lemma same_file_size: "same_file d d' i \<Longrightarrow> fsize d' i = fsize d i"
  by (simp add: same_file_def fsize_def)

lemma blockcount_nonneg:
  assumes "0 \<le> sz"
  shows "blockcount_of sz = (sz + 4095) div 4096"
proof -
  have smod: "sz smod 4096 = sz mod 4096"
    using assms by (cases "sz = 0") (simp_all add: smod_int_alt_def)
  have bounds: "0 \<le> sz mod 4096" "sz mod 4096 < 4096" "sz = 4096 * (sz div 4096) + sz mod 4096"
    by simp_all
  have "(sz + 4095) div 4096 = sz div 4096 + (if sz mod 4096 \<noteq> 0 then 1 else 0)"
  proof (cases "sz mod 4096 = 0")
    case True
    then show ?thesis
      using bounds by (intro int_div_pos_eq [where r = 4095]) simp_all
  next
    case False
    then show ?thesis
      using bounds by (intro int_div_pos_eq [where r = "sz mod 4096 - 1"]) simp_all
  qed
  then show ?thesis
    unfolding blockcount_of_def offset2blockidx_nonneg [OF assms] smod by simp
qed

lemma blockcount_bounds:
  assumes "0 \<le> sz" and "sz \<le> MAX_FILESIZE"
  shows "0 \<le> blockcount_of sz" "blockcount_of sz \<le> FIRST_UNREACHABLE_BLOCK"
    "sz \<le> blockcount_of sz * 4096" "blockcount_of sz * 4096 < sz + 4096"
  using assms unfolding blockcount_nonneg [OF assms(1)] MAX_FILESIZE_def by (simp; presburger)+

lemma blockcount_mono: "0 \<le> a \<Longrightarrow> a \<le> b \<Longrightarrow> blockcount_of a \<le> blockcount_of b"
  by (simp add: blockcount_nonneg zdiv_mono1)

lemma byte_block:
  assumes "a < nat sz"
  shows "int a div 4096 < blockcount_of sz" "0 \<le> int a div 4096"
  using assms by (simp add: blockcount_nonneg; presburger)+

lemma inode_keep:
  assumes good: "inode_good d i" and ch: "changed S d d'" and at: "ilist_at d' i = ilist_at d i" and S: "own d i \<inter> S = {}"
  shows "same_file d d' i" "inode_good d' i"
proof -
  let ?bl = "iblocks (inode_at d i)" and ?bc = "fcount_blocks d i"
  have sz: "0 \<le> fsize d i" "fsize d i \<le> MAX_FILESIZE" and ok: "slots_ok d ?bl ?bc"
    using good by (simp_all add: inode_good_def)
  have keep: "blk d' b = blk d b" if "b \<in> own d i" for b
    using changed_blk [OF ch] S that by blast
  have meta: "\<And>b. b \<in> slots_meta d ?bl ?bc \<Longrightarrow> blk d' b = blk d b"
    using keep by (auto simp: own_def dest: gmeta_subset [THEN subsetD])
  note cong = gforest_cong [where N = 499 and lev = slot_level and ps = ?bl and c = "slot_n ?bc", OF meta slot_n_le]
  have same: "inode_at d' i = inode_at d i"
    using keep [of "ilist_at d i"] at by (simp add: inode_at_def own_def)
  then have size: "fsize d' i = fsize d i" "fcount_blocks d' i = fcount_blocks d i"
    by (simp_all add: fsize_def fcount_blocks_def)
  have set: "slots_set d' ?bl ?bc = slots_set d ?bl ?bc" "slots_ok d' ?bl ?bc = slots_ok d ?bl ?bc"
    using cong(1,2) changed_dev(2) [OF ch] by simp_all
  have own: "own d' i = own d i"
    using same size at set by (simp add: own_def)
  have "file_byte d' ?bl a = file_byte d ?bl a" if "a < nat (fsize d i)" for a
  proof -
    let ?x = "int a div 4096"
    have x: "0 \<le> ?x" "?x < ?bc"
      using byte_block [OF that] by (simp_all add: fcount_blocks_def)
    have max: "?bc \<le> FIRST_UNREACHABLE_BLOCK"
      using blockcount_bounds(2) [OF sz] by (simp add: fcount_blocks_def)
    have "file_block d' ?bl ?x = file_block d ?bl ?x"
      using cong(3) slot_index [OF x max] by (simp add: file_block_def Let_def)
    moreover have "blk d' (file_block d ?bl ?x) = blk d (file_block d ?bl ?x)"
      using keep file_block_in(1) [OF ok x max] by (simp add: own_def)
    ultimately show ?thesis
      by (simp add: file_byte_def)
  qed
  then have "content d' i = content d i"
    using same size by (simp add: content_def)
  then show "same_file d d' i"
    using same own by (simp add: same_file_def)
  show "inode_good d' i"
    using good same size at set changed_dev [OF ch] by (simp add: inode_good_def)
qed

section \<open>The invariant\<close>

definition fs_inv :: "'x disk_t_scheme \<Rightarrow> blockno set \<Rightarrow> ino list \<Rightarrow> ino set \<Rightarrow> bool" where
  "fs_inv d F Is A \<longleftrightarrow> store_inv d F Is \<and> (\<forall>i \<in> A. inode_good d i \<and> own d i \<inter> F = {}) \<and>
     (\<forall>i \<in> A. \<forall>j \<in> A. i \<noteq> j \<longrightarrow> own d i \<inter> own d j = {}) \<and>
     F \<union> \<Union> (own d ` A) = {b. data_block d b} \<and>
     set Is \<inter> A = {} \<and> set Is \<union> A = {i. valid_ino d i}"

lemma fs_inv_store: "fs_inv d F Is A \<Longrightarrow> store_inv d F Is"
  by (simp add: fs_inv_def)

lemma fs_inv_inode:
  assumes "fs_inv d F Is A" and "i \<in> A"
  shows "inode_good d i" "valid_ino d i" "i \<notin> set Is" "data_block d (ilist_at d i)" "ilist_at d i \<notin> F"
    "imagic (inode_at d i) = INODE_MAGIC" "0 \<le> fsize d i" "fsize d i \<le> MAX_FILESIZE"
    "slots_ok d (iblocks (inode_at d i)) (fcount_blocks d i)"
    "slots_set d (iblocks (inode_at d i)) (fcount_blocks d i) \<inter> F = {}"
    "ilist_at d i \<notin> slots_set d (iblocks (inode_at d i)) (fcount_blocks d i)"
    "length (iblocks (inode_at d i)) = 499"
  using assms inode_codec.ok_blk [of d "ilist_at d i"]
  by (auto simp: fs_inv_def inode_good_def own_def inode_at_def inode_ok_def)

lemma fs_inv_own:
  assumes "fs_inv d F Is A" and "j \<in> A"
  shows "b \<in> own d j \<Longrightarrow> data_block d b" "i \<in> A \<Longrightarrow> i \<noteq> j \<Longrightarrow> own d i \<inter> own d j = {}" "own d j \<inter> F = {}"
  using assms by (auto simp: fs_inv_def)

text \<open>What one operation on inode \<open>i\<close> has to show; \<open>N\<close> is \<open>{i}\<close> when the inode exists afterwards.\<close>

lemma fs_inv_step:
  assumes inv: "fs_inv d F Is A" and store: "store_inv d' F' Is'" and ch: "changed S d d'"
    and others: "\<forall>j \<in> A - {i}. ilist_at d' j = ilist_at d j \<and> own d j \<inter> S = {}"
    and N: "N \<subseteq> {i}" "i \<in> N \<Longrightarrow> inode_good d' i \<and> own d' i \<inter> F' = {}"
    and blocks: "F' \<union> (if i \<in> N then own d' i else {}) = F \<union> (if i \<in> A then own d i else {})"
    and inos: "set Is' \<inter> N = {}" "set Is' \<union> N = set Is \<union> (A \<inter> {i})"
  shows "fs_inv d' F' Is' (A - {i} \<union> N)" "j \<in> A - {i} \<Longrightarrow> same_file d d' j"
proof -
  have keep: "same_file d d' j" "inode_good d' j" if "j \<in> A - {i}" for j
    using inode_keep [OF _ ch, of j] others fs_inv_inode(1) [OF inv] that by auto
  then show "j \<in> A - {i} \<Longrightarrow> same_file d d' j"
    by blast
  have own: "own d' j = own d j" if "j \<in> A - {i}" for j
    using keep(1) [OF that] by (simp add: same_file_def)
  let ?R = "\<Union> (own d ` (A - {i}))" and ?mine = "if i \<in> A then own d i else {}"
  have dev: "data_block d' = data_block d" "valid_ino d' = valid_ino d"
    using changed_dev [OF ch] by simp_all
  have all: "F \<union> ?mine \<union> ?R = {b. data_block d b}"
    using inv by (auto simp: fs_inv_def split: if_splits)
  have R: "?R \<inter> (F \<union> ?mine) = {}"
    using inv by (auto simp: fs_inv_def split: if_splits) blast+
  have mine': "own d' i \<inter> ?R = {}" if "i \<in> N"
    using R that unfolding blocks [symmetric] by auto
  have A': "\<Union> (own d' ` (A - {i} \<union> N)) = ?R \<union> (if i \<in> N then own d' i else {})"
    using N(1) own by auto
  have free: "own d' j \<inter> F' = {}" if "j \<in> A - {i}" for j
    using R that own [OF that] unfolding blocks [symmetric] by auto
  have "\<forall>j \<in> A - {i} \<union> N. inode_good d' j \<and> own d' j \<inter> F' = {}"
  proof
    fix j assume "j \<in> A - {i} \<union> N"
    then consider "j \<in> A - {i}" | "j = i" "i \<in> N"
      using N(1) by blast
    then show "inode_good d' j \<and> own d' j \<inter> F' = {}"
      using keep(2) free N(2) by cases blast+
  qed
  moreover have "\<forall>j \<in> A - {i} \<union> N. \<forall>k \<in> A - {i} \<union> N. j \<noteq> k \<longrightarrow> own d' j \<inter> own d' k = {}"
  proof -
    have "own d j \<inter> own d k = {}" if "j \<in> A" "k \<in> A" "j \<noteq> k" for j k
      using inv that by (simp add: fs_inv_def)
    moreover have "own d' i \<inter> own d j = {}" if "i \<in> N" "j \<in> A - {i}" for j
      using mine' that by blast
    ultimately have "own d' j \<inter> own d' k = {}" if "j \<in> insert i A" "k \<in> insert i A" "j \<noteq> k" "j = i \<or> k = i \<Longrightarrow> i \<in> N" for j k
      using that own by (cases "j = i"; cases "k = i") (auto simp: Int_commute)
    then show ?thesis
      using N(1) by blast
  qed
  moreover have "F' \<union> \<Union> (own d' ` (A - {i} \<union> N)) = {b. data_block d' b}"
    unfolding A' dev using all blocks by auto
  moreover have "set Is' \<inter> (A - {i} \<union> N) = {} \<and> set Is' \<union> (A - {i} \<union> N) = {i. valid_ino d' i}"
  proof -
    have "set Is \<inter> A = {}" "set Is \<union> A = {i. valid_ino d i}"
      using inv by (simp_all add: fs_inv_def)
    then show ?thesis
      using inos N(1) unfolding dev by (auto simp: subset_singleton_iff)
  qed
  ultimately show "fs_inv d' F' Is' (A - {i} \<union> N)"
    using store by (simp add: fs_inv_def)
qed

lemma ilist_at_changed:
  assumes geo: "store_geometry d" and ch: "changed S d d'" and S: "S \<subseteq> insert 0 {b. data_block d b}" and i: "valid_ino d i"
  shows "ilist_at d' i = ilist_at d i"
proof -
  have "ilist_block i \<notin> S"
    using ilist_block_unat(4,5) [OF geo i] S by blast
  then show ?thesis
    using changed_blk [OF ch] by (simp add: ilist_at_def)
qed

end
