(* ===== verification/Inode_Ops.thy ===== *)
theory Inode_Ops
  imports Files
begin

text \<open>
  The operations of \<open>inode.c\<close> on a consistent filesystem: what each does to the inode it is
  called on, and that it keeps the invariant and every other inode.
\<close>

section \<open>The effect of an operation\<close>

definition fs_result :: "ino set \<Rightarrow> ino \<Rightarrow> 'x inode_env_scheme \<Rightarrow> 'x inode_env_scheme \<Rightarrow>
    blockno set \<Rightarrow> ino list \<Rightarrow> ino set \<Rightarrow> bool" where
  "fs_result A i d d' F' Is' A' \<longleftrightarrow> fs_inv d' F' Is' A' \<and> changed UNIV d d' \<and> (\<forall>j \<in> A - {i}. same_file d d' j)"

lemma fs_result_trans:
  assumes "fs_result A i d d1 F1 Is1 A1" and "fs_result A1 i d1 d2 F2 Is2 A2" and "A - {i} \<subseteq> A1"
  shows "fs_result A i d d2 F2 Is2 A2"
proof -
  have "changed UNIV d d2"
    using changed_trans [of UNIV d d1 UNIV d2] assms(1,2) by (simp add: fs_result_def)
  moreover have "same_file d d2 j" if "j \<in> A - {i}" for j
    using assms that by (auto simp: fs_result_def intro: same_file_trans)
  ultimately show ?thesis
    using assms(2) by (simp add: fs_result_def)
qed

text \<open>The attributes that no change of the content touches.\<close>

definition same_attr :: "inode_t \<Rightarrow> inode_t \<Rightarrow> bool" where
  "same_attr a b \<longleftrightarrow> imode b = imode a \<and> iowner b = iowner a \<and> igroup b = igroup a \<and> inlinks b = inlinks a \<and> created b = created a"

lemma same_attr_refl [simp]: "same_attr a a"
  by (simp add: same_attr_def)

lemma same_attr_trans: "same_attr a b \<Longrightarrow> same_attr b c \<Longrightarrow> same_attr a c"
  by (simp add: same_attr_def)

lemma load_inode_eq:
  assumes inv: "fs_inv d F Is A" and i: "i \<in> A"
  shows "load_inode d i = Some (Some (ilist_at d i, inode_at d i))"
proof -
  note dest = store_inv_dest [OF fs_inv_store [OF inv]] and f = fs_inv_inode [OF inv i]
  show ?thesis
    using ino_get_eq [OF dest(2) f(2)] data_block_unat [OF dest(2) f(4)] dest(1) f(6)
    by (simp add: load_inode_def read_block_wf inode_at_def [symmetric] Let_def)
qed

lemma sint_size: "0 \<le> sz \<Longrightarrow> sz \<le> MAX_FILESIZE \<Longrightarrow> sint (of_int sz :: u64) = sz"
  unfolding sint_sbintrunc'
  by (rule signed_take_bit_int_eq_self) (simp_all add: MAX_FILESIZE_def)

section \<open>Writing the inode back\<close>

lemma commit_inode:
  assumes inv: "fs_inv d F Is A" and i: "i \<in> A"
    and store: "store_inv d1 F' Is" and ch: "changed S d d1"
    and S: "S \<subseteq> insert 0 (F \<union> slots_set d (iblocks (inode_at d i)) (fcount_blocks d i))"
    and size: "isize inode = of_int sz" "0 \<le> sz" "sz \<le> MAX_FILESIZE"
    and inode: "imagic inode = INODE_MAGIC" "length (iblocks inode) = 499"
    and ok: "slots_ok d1 (iblocks inode) (blockcount_of sz)"
    and part: "slots_set d1 (iblocks inode) (blockcount_of sz) \<union> F' = slots_set d (iblocks (inode_at d i)) (fcount_blocks d i) \<union> F"
      "slots_set d1 (iblocks inode) (blockcount_of sz) \<inter> F' = {}"
  shows "\<exists>d2. disk_write d1 (ilist_at d i) (enc_inode inode) = Some d2 \<and> fs_result A i d d2 F' Is A \<and>
    inode_at d2 i = inode \<and> fsize d2 i = sz \<and> ilist_at d2 i = ilist_at d i \<and>
    content d2 i = map (file_byte d1 (iblocks inode)) [0..<nat sz]"
proof -
  let ?b = "ilist_at d i" and ?bl = "iblocks inode" and ?bc = "blockcount_of sz"
  let ?d2 = "upd_blk d1 ?b (enc_inode inode)"
  note f = fs_inv_inode [OF inv i] and dest = store_inv_dest [OF fs_inv_store [OF inv]]
  have len: "inode_ok inode" "length (enc_inode inode) = BLOCKSIZE"
    using inode by (simp_all add: inode_ok_def)
  have b: "?b \<notin> slots_set d1 ?bl ?bc" "?b \<notin> F'"
    using part(1) f(5,11) by auto
  have b1: "data_block d1 ?b"
    using f(4) changed_dev(2) [OF ch] by simp
  note w = store_inv_upd_blk [OF store b1 b(2) len(2)]
  have keep: "blk ?d2 c = blk d1 c" if "c \<noteq> ?b" for c
    using that len by simp
  have meta: "\<And>c. c \<in> slots_meta d1 ?bl ?bc \<Longrightarrow> blk ?d2 c = blk d1 c"
    using b(1) keep gmeta_subset [THEN subsetD] by metis
  note cong = gforest_cong [where N = 499 and lev = slot_level and ps = ?bl and c = "slot_n ?bc", OF meta slot_n_le]
  have set: "slots_set ?d2 ?bl ?bc = slots_set d1 ?bl ?bc" "slots_ok ?d2 ?bl ?bc"
    using cong(1,2) framed_dev(5) [OF w(3)] ok by simp_all
  have slots: "data_block d c" if "c \<in> slots_set d (iblocks (inode_at d i)) (fcount_blocks d i)" for c
    using gforest_data [OF f(9) that] .
  have ch2: "changed (insert ?b S) d ?d2"
    using changed_trans [OF ch framed_changed [OF w(3)]] by simp
  have at: "ilist_at ?d2 j = ilist_at d j" if "valid_ino d j" for j
  proof (rule ilist_at_changed [OF dest(2) ch2 _ that])
    show "insert ?b S \<subseteq> insert 0 {b. data_block d b}"
      using S f(4) slots dest(5) by auto
  qed
  have inode2: "inode_at ?d2 i = inode"
    using at [OF f(2)] len by (simp add: inode_at_def)
  have size2: "fsize ?d2 i = sz" "fcount_blocks ?d2 i = ?bc"
    using inode2 size sint_size by (simp_all add: fsize_def fcount_blocks_def)
  have own2: "own ?d2 i = insert ?b (slots_set d1 ?bl ?bc)"
    using inode2 size2 at [OF f(2)] set by (simp add: own_def)
  have own1: "own d i = insert ?b (slots_set d (iblocks (inode_at d i)) (fcount_blocks d i))"
    by (simp add: own_def)
  have good: "inode_good ?d2 i"
    using inode2 size2 size at [OF f(2)] set inode f(2,4) b(1) changed_dev [OF ch2]
    by (simp add: inode_good_def)
  have others: "\<forall>j \<in> A - {i}. ilist_at ?d2 j = ilist_at d j \<and> own d j \<inter> insert ?b S = {}"
  proof
    fix j assume j: "j \<in> A - {i}"
    then have "own d j \<inter> own d i = {}" "own d j \<inter> F = {}" "0 \<notin> own d j"
      using fs_inv_own [OF inv, of j] fs_inv_own(2) [OF inv i, of j] zero_not_data_block [of d] by auto
    then show "ilist_at ?d2 j = ilist_at d j \<and> own d j \<inter> insert ?b S = {}"
      using S own1 at fs_inv_inode(2) [OF inv, of j] j by auto
  qed
  have blocks: "F' \<union> (if i \<in> {i} then own ?d2 i else {}) = F \<union> (if i \<in> A then own d i else {})"
    using own1 own2 part(1) i by auto
  have disj: "inode_good ?d2 i \<and> own ?d2 i \<inter> F' = {}"
    using good own2 b(2) part(2) by simp
  have inos: "set Is \<inter> {i} = {}" "set Is \<union> {i} = set Is \<union> (A \<inter> {i})"
    using f(3) i by auto
  note step = fs_inv_step [OF inv w(2) ch2 others subset_refl disj blocks inos]
  have A: "A - {i} \<union> {i} = A"
    using i by auto
  have "fs_result A i d ?d2 F' Is A"
    using step A changed_mono [OF ch2] by (simp add: fs_result_def)
  moreover have "file_byte ?d2 ?bl a = file_byte d1 ?bl a" if "a < nat sz" for a
  proof -
    let ?x = "int a div 4096"
    note x = byte_block(2,1) [OF that]
    have max: "?bc \<le> FIRST_UNREACHABLE_BLOCK"
      using blockcount_bounds(2) size by simp
    have "file_block ?d2 ?bl ?x = file_block d1 ?bl ?x"
      using cong(3) slot_index [OF x max] by (simp add: file_block_def Let_def)
    moreover have "file_block d1 ?bl ?x \<noteq> ?b"
      using file_block_in(1) [OF ok x max] b(1) by auto
    ultimately show ?thesis
      using keep by (simp add: file_byte_def)
  qed
  then have "content ?d2 i = map (file_byte d1 ?bl) [0..<nat sz]"
    using inode2 size2 by (simp add: content_def)
  ultimately show ?thesis
    using w(1) inode2 size2 at [OF f(2)] by blast
qed

section \<open>Resizing\<close>

lemma resize_slots:
  assumes inv: "store_inv d F Is" and ok: "slots_ok d blocks old" "slots_set d blocks old \<inter> F = {}" "length blocks = 499"
    and range: "0 \<le> old" "old \<le> FIRST_UNREACHABLE_BLOCK" "0 \<le> new" "new \<le> FIRST_UNREACHABLE_BLOCK"
    and room: "slots_count new \<le> slots_count old + card F \<or> slots_safe old"
  shows "\<exists>blocks1 m1 last1 d1 blocks' m' d' F'. grow_slots old new blocks old (-1) True d = Some (blocks1, m1, last1, d1) \<and>
    shrink_slots old new blocks1 m1 last1 d1 = Some (blocks', m', d') \<and>
    (if slots_count new \<le> slots_count old + card F then m' = new else old \<le> m' \<and> m' < new) \<and>
    resized Is F d blocks old F' d' blocks' m'"
proof (cases "old < new")
  case True
  have "safe (slot_level (slot_of old)) (slot_n old (slot_of old)) \<or> slots_count new \<le> slots_count old + card F"
    using room slot_of_facts(2) [of old] range True by (auto simp: slots_safe_def)
  from grow_slots_spec [OF inv ok range(1) True range(4) disjI1 [OF refl] refl order_refl this]
  obtain blocks' m' last' d' F' where g: "grow_slots old new blocks old (-1) True d = Some (blocks', m', last', d')"
      "if slots_count new \<le> slots_count old + card F then m' = new else old \<le> m' \<and> m' < new"
      "grown Is F d blocks old F' d' blocks' m'"
    by blast
  then have m: "old \<le> m'" "m' \<le> new"
    using True by (auto split: if_splits)
  have "shrink_slots old new blocks' m' last' d' = Some (blocks', m', d')"
    using m(2) by (simp add: shrink_slots.simps)
  then show ?thesis
    using g grown_resized [OF g(3) ok(1,2) m(1)] m(2) range(4) by auto
next
  case False
  have g: "grow_slots old new blocks old (-1) True d = Some (blocks, old, -1, d)"
    using False by (simp add: grow_slots.simps)
  have enough: "slots_count new \<le> slots_count old + card F"
    using slots_count_mono [of new old] False by simp
  have "\<exists>blocks' d' F'. shrink_slots old new blocks old (-1) d = Some (blocks', new, d') \<and> shrunk Is F d blocks old F' d' blocks' new"
  proof (cases "new < old")
    case True
    show ?thesis
      by (rule shrink_slots_spec [OF inv ok range(3) True range(2) disjI1 [OF refl] refl order_refl])
  next
    case False
    then have "shrink_slots old new blocks old (-1) d = Some (blocks, new, d)" "old = new"
      using \<open>\<not> old < new\<close> by (simp_all add: shrink_slots.simps)
    then show ?thesis
      using shrunk_refl [OF inv ok(3,1)] by auto
  qed
  then show ?thesis
    using g enough shrunk_resized [OF _ ok(1,2) _ range(2)] False by fastforce
qed

lemma resized_byte:
  assumes "resized Is F d blocks m F' d' blocks' m'" and "int a div 4096 < m" "int a div 4096 < m'"
  shows "file_byte d' blocks' a = file_byte d blocks a"
  using assms by (simp add: resized_def file_byte_def)

text \<open>Enough free blocks for inode \<open>i\<close> to have \<open>sz\<close> bytes.\<close>

definition enough :: "'x disk_t_scheme \<Rightarrow> blockno set \<Rightarrow> ino \<Rightarrow> int \<Rightarrow> bool" where
  "enough d F i sz \<longleftrightarrow> slots_count (blockcount_of sz) \<le> slots_count (fcount_blocks d i) + card F"

lemma enough_shrink: "0 \<le> sz \<Longrightarrow> sz \<le> fsize d i \<Longrightarrow> enough d F i sz"
  unfolding enough_def fcount_blocks_def
  by (intro trans_le_add1 slots_count_mono blockcount_mono)

theorem inode_setsize_spec:
  assumes inv: "fs_inv d F Is A" and i: "i \<in> A" and sz: "0 \<le> sz" "sz \<le> MAX_FILESIZE"
    and room: "enough d F i sz \<or> slots_safe (fcount_blocks d i)"
  shows "\<exists>newsize d' F'. inode_setsize d i sz = Some (newsize, d') \<and> fs_result A i d d' F' Is A \<and>
    (if enough d F i sz then newsize = sz else fsize d i \<le> newsize \<and> newsize < sz) \<and>
    fsize d' i = newsize \<and> same_attr (inode_at d i) (inode_at d' i) \<and> ilist_at d' i = ilist_at d i \<and>
    (\<forall>a. int a < fsize d i \<longrightarrow> int a < newsize \<longrightarrow> content d' i ! a = content d i ! a)"
proof -
  define old where "old = fcount_blocks d i"
  define new where "new = blockcount_of sz"
  note f = fs_inv_inode [OF inv i]
  note oldb = blockcount_bounds [OF f(7,8), folded fcount_blocks_def, folded old_def]
  note newb = blockcount_bounds [OF sz, folded new_def]
  have en: "enough d F i sz \<longleftrightarrow> slots_count new \<le> slots_count old + card F"
    by (simp add: enough_def new_def old_def)
  have room': "slots_count new \<le> slots_count old + card F \<or> slots_safe old"
    using room en old_def by simp
  obtain blocks1 m1 last1 d1 blocks' m' d1' F' where
      g: "grow_slots old new (iblocks (inode_at d i)) old (-1) True d = Some (blocks1, m1, last1, d1)"
      "shrink_slots old new blocks1 m1 last1 d1 = Some (blocks', m', d1')"
    and m': "if slots_count new \<le> slots_count old + card F then m' = new else old \<le> m' \<and> m' < new"
    and res: "resized Is F d (iblocks (inode_at d i)) old F' d1' blocks' m'"
    using resize_slots [OF fs_inv_store [OF inv] f(9,10,12) [folded old_def] oldb(1,2) newb(1,2) room'] by blast
  define newsize where "newsize = (if m' = new then sz else m' * 4096)"
  have size: "if enough d F i sz then newsize = sz else fsize d i \<le> newsize \<and> newsize < sz"
    using m' oldb newb unfolding newsize_def en by (auto split: if_splits)
  have newsize: "0 \<le> newsize" "newsize \<le> MAX_FILESIZE" "blockcount_of newsize = m'"
  proof -
    show "0 \<le> newsize" "newsize \<le> MAX_FILESIZE"
      using size sz f(7) by (auto split: if_splits)
    then show "blockcount_of newsize = m'"
      using m' by (auto simp: newsize_def new_def [symmetric] blockcount_nonneg [of "m' * 4096"])
  qed
  let ?ino = "(inode_at d i)\<lparr>isize := of_int newsize, iblocks := blocks'\<rparr>"
  let ?tick = "newsize \<noteq> fsize d i"
  let ?ino2 = "if ?tick then ?ino\<lparr>last_statchange := fst (now d1'), last_change := fst (now d1')\<rparr> else ?ino"
  let ?d2 = "if ?tick then snd (now d1') else d1'"
  have same2: "same_disk d1' ?d2" "changed {} d1' ?d2"
    using same_disk_now [of d1'] by simp_all
  have fields: "isize ?ino2 = of_int newsize" "imagic ?ino2 = INODE_MAGIC" "iblocks ?ino2 = blocks'"
      "length (iblocks ?ino2) = 499" "same_attr (inode_at d i) ?ino2"
    using f(6) res by (simp_all add: resized_def same_attr_def)
  let ?S = "insert 0 (F \<union> F' \<union> slots_meta d (iblocks (inode_at d i)) old)"
  have ch: "changed ?S d ?d2"
  proof -
    have "framed ?S d d1'"
      using res by (simp add: resized_def)
    from changed_trans [OF framed_changed [OF this] same2(2)] show ?thesis
      by simp
  qed
  have "F' \<subseteq> slots_set d (iblocks (inode_at d i)) old \<union> F"
    using res by (auto simp: resized_def)
  then have S: "?S \<subseteq> insert 0 (F \<union> slots_set d (iblocks (inode_at d i)) old)"
    using gmeta_subset [of 499 slot_level d "iblocks (inode_at d i)" "slot_n old"] by blast
  have blk2: "blk ?d2 b = blk d1' b" for b
    using same_disk_blk [OF same2(1)] .
  note cong = gforest_cong [where N = 499 and lev = slot_level and ps = blocks' and c = "slot_n m'" and d = d1' and d' = ?d2,
      OF blk2 slot_n_le]
  have set2: "slots_set ?d2 blocks' m' = slots_set d1' blocks' m'" "slots_ok ?d2 blocks' m'"
    using cong(1,2) same_disk_dev(4) [OF same2(1)] res by (simp_all add: resized_def)
  have store2: "store_inv ?d2 F' Is"
    using same_disk_store [OF same2(1)] res by (simp add: resized_def)
  obtain d3 where w: "disk_write ?d2 (ilist_at d i) (enc_inode ?ino2) = Some d3" "fs_result A i d d3 F' Is A"
      "inode_at d3 i = ?ino2" "fsize d3 i = newsize" "ilist_at d3 i = ilist_at d i"
      "content d3 i = map (file_byte ?d2 (iblocks ?ino2)) [0..<nat newsize]"
    using commit_inode [OF inv i store2 ch [unfolded old_def] S [unfolded old_def] fields(1) newsize(1,2) fields(2,4)]
      set2 res unfolding fields(3) newsize(3) by (auto simp: resized_def old_def)
  have "content d3 i ! a = content d i ! a" if a: "int a < fsize d i" "int a < newsize" for a
  proof -
    have "int a div 4096 < old" "int a div 4096 < m'"
      using byte_block(1) [of a "fsize d i"] byte_block(1) [of a newsize] a newsize(3)
      by (simp_all add: old_def fcount_blocks_def)
    note same1 = resized_byte [OF res this]
    have "file_block ?d2 blocks' x = file_block d1' blocks' x" if "0 \<le> x" "x < m'" for x
      using cong(3) slot_index [OF that] blockcount_bounds(2) [OF newsize(1,2)] newsize(3)
      by (simp add: file_block_def Let_def)
    then have "file_byte ?d2 blocks' a = file_byte d1' blocks' a"
      using \<open>int a div 4096 < m'\<close> blk2 by (simp add: file_byte_def)
    then show ?thesis
      using w(6) a same1 fields(3) by (simp add: nth_content)
  qed
  moreover have "inode_setsize d i sz = Some (newsize, d3)"
  proof -
    have ns: "(if m' = new then sz else m' * BLOCKSIZE) = newsize"
      by (simp add: newsize_def)
    show ?thesis
      using g w(1) sz newb(1) load_inode_eq [OF inv i]
      by (cases ?tick) (simp_all add: inode_setsize_def Let_def fsize_def [symmetric] fcount_blocks_def [symmetric]
          old_def [symmetric] new_def [symmetric] ns case_prod_beta split del: if_split cong: if_cong)
  qed
  moreover have "same_attr (inode_at d i) (inode_at d3 i)"
    unfolding w(3) by (rule fields(5))
  ultimately show ?thesis
    using w(2,4,5) size by blast
qed

end
