(* ===== verification/Inode_Bytes.thy ===== *)
theory Inode_Bytes
  imports Inode_Ops
begin

text \<open>
  \<open>inode_write\<close>, \<open>inode_read\<close> and \<open>inode_truncate\<close> on a consistent filesystem, as operations on
  the byte list \<open>content d i\<close>.
\<close>

section \<open>Changing metadata\<close>

definition meta_result :: "ino set \<Rightarrow> ino \<Rightarrow> 'x inode_env_scheme \<Rightarrow> 'x inode_env_scheme \<Rightarrow>
    blockno set \<Rightarrow> ino list \<Rightarrow> inode_t \<Rightarrow> bool" where
  "meta_result A i d d' F Is inode \<longleftrightarrow> fs_result A i d d' F Is A \<and> inode_at d' i = inode \<and>
     content d' i = content d i \<and> ilist_at d' i = ilist_at d i"

lemma touch_inode:
  assumes inv: "fs_inv d F Is A" and i: "i \<in> A"
    and same: "isize inode = isize (inode_at d i)" "imagic inode = imagic (inode_at d i)" "iblocks inode = iblocks (inode_at d i)"
  shows "\<exists>d'. disk_write (snd (now d)) (ilist_at d i) (enc_inode inode) = Some d' \<and> meta_result A i d d' F Is inode"
proof -
  note f = fs_inv_inode [OF inv i]
  let ?d = "snd (now d)" and ?bl = "iblocks (inode_at d i)" and ?bc = "fcount_blocks d i"
  note now = same_disk_now [of d]
  have blk: "blk ?d b = blk d b" for b
    using same_disk_blk [OF now(1)] .
  note cong = gforest_cong [where N = 499 and lev = slot_level and ps = ?bl and c = "slot_n ?bc" and d = d and d' = ?d,
      OF blk slot_n_le]
  have set: "slots_set ?d ?bl ?bc = slots_set d ?bl ?bc" "slots_ok ?d ?bl ?bc"
    using cong(1,2) same_disk_dev(4) [OF now(1)] f(9) by simp_all
  have store: "store_inv ?d F Is"
    using same_disk_store [OF now(1)] fs_inv_store [OF inv] by simp
  have fields: "isize inode = of_int (fsize d i)" "imagic inode = INODE_MAGIC" "length (iblocks inode) = 499"
      "blockcount_of (fsize d i) = ?bc"
    using same f(6,12) by (simp_all add: fsize_def fcount_blocks_def)
  obtain d' where w: "disk_write ?d (ilist_at d i) (enc_inode inode) = Some d'" "fs_result A i d d' F Is A"
      "inode_at d' i = inode" "ilist_at d' i = ilist_at d i"
      "content d' i = map (file_byte ?d ?bl) [0..<nat (fsize d i)]"
    using commit_inode [OF inv i store now(2) empty_subsetI fields(1) f(7,8) fields(2,3)] set f(10)
    unfolding same(3) fields(4) by auto
  have "file_byte ?d ?bl a = file_byte d ?bl a" if "a < nat (fsize d i)" for a
  proof -
    have "file_block ?d ?bl (int a div 4096) = file_block d ?bl (int a div 4096)"
      using cong(3) slot_index [of "int a div 4096" ?bc] byte_block [OF that] fields(4) blockcount_bounds(2) [OF f(7,8)]
      by (simp add: file_block_def Let_def)
    then show ?thesis
      using blk by (simp add: file_byte_def)
  qed
  then have "content d' i = content d i"
    using w(5) by (simp add: content_def)
  then show ?thesis
    using w by (auto simp: meta_result_def)
qed

section \<open>Bytes of the file after a write\<close>

lemma written_byte:
  assumes w: "written lo hi src (file_map d blocks bc) d d'" and ok: "slots_ok d blocks bc"
    and a: "int a div 4096 < bc" and bc: "bc \<le> FIRST_UNREACHABLE_BLOCK"
  shows "file_byte d' blocks a = (if lo \<le> int a \<and> int a < hi then src (int a) else file_byte d blocks a)"
proof -
  let ?x = "int a div 4096" and ?i = "a mod 4096"
  have mem: "(file_block d blocks ?x, ?x) \<in> file_map d blocks bc"
    unfolding file_map_iff [OF bc] using a by simp
  then have "(file_block d blocks ?x, ?x) \<in> file_map d' blocks bc"
    using written_file(4) [OF w ok] by simp
  then have same: "file_block d' blocks ?x = file_block d blocks ?x"
    unfolding file_map_iff [OF bc] by simp
  have "?x * 4096 + int ?i = int a"
    by (simp add: of_nat_mod)
  then show ?thesis
    using written_in [OF w mem, of ?i] same by (simp add: file_byte_def)
qed

text \<open>The range of blocks that the bytes up to \<open>e\<close> need.\<close>

lemma blocks_in_file:
  assumes "e \<le> fsize d i" and "0 < e"
  shows "blocks_upto e \<le> fcount_blocks d i"
  using assms zdiv_mono1 [of "e + 4095" "fsize d i + 4095" 4096]
  by (simp add: fcount_blocks_def blockcount_nonneg)

lemma inode_write_data_spec:
  assumes inv: "fs_inv d F Is A" and i: "i \<in> A" and range: "0 \<le> q" "q \<le> z" "z \<le> e" "e \<le> fsize d i" "q < e"
    and fits: "data_fits data (e - z)"
  shows "\<exists>d'. inode_write_data (ilist_at d i) (inode_at d i) q z e data d = Some (e - z, d') \<and>
    fs_result A i d d' F Is A \<and> fsize d' i = fsize d i \<and> same_attr (inode_at d i) (inode_at d' i) \<and>
    ilist_at d' i = ilist_at d i \<and>
    (\<forall>a. int a < fsize d i \<longrightarrow> content d' i ! a =
      (if q \<le> int a \<and> int a < e then if int a < z then 0 else src_byte data z (int a) else content d i ! a))"
proof -
  note f = fs_inv_inode [OF inv i]
  let ?bl = "iblocks (inode_at d i)" and ?bc = "fcount_blocks d i"
  let ?src = "\<lambda>a. if a < z then 0 else src_byte data z a"
  have bc: "?bc \<le> FIRST_UNREACHABLE_BLOCK"
    using blockcount_bounds(2) [OF f(7,8)] by (simp add: fcount_blocks_def)
  have upto: "blocks_upto e \<le> ?bc"
    by (rule blocks_in_file) (use range in linarith)+
  obtain d1 where run: "write_slots ?bl q z e data q (-1) d = Some (e, d1)" and store: "store_inv d1 F Is"
    and w: "written q e ?src (file_map d ?bl ?bc) d d1"
    using write_slots_spec [OF range(1-3,5) upto bc fits fs_inv_store [OF inv] f(9,10)] by blast
  note wf = written_file [OF w f(9)]
  let ?d2 = "snd (now d1)" and ?ino = "(inode_at d i)\<lparr>last_change := fst (now d1)\<rparr>"
  note same = same_disk_now [of d1]
  have ch: "changed (fst ` file_map d ?bl ?bc) d ?d2"
    using changed_trans [OF framed_changed [OF wf(5)] same(2)] by simp
  have S: "fst ` file_map d ?bl ?bc \<subseteq> insert 0 (F \<union> slots_set d ?bl ?bc)"
    using fst_file_map [OF f(9)] by blast
  have blk2: "blk ?d2 b = blk d1 b" for b
    using same_disk_blk [OF same(1)] .
  note cong = gforest_cong [where N = 499 and lev = slot_level and ps = ?bl and c = "slot_n ?bc" and d = d1 and d' = ?d2,
      OF blk2 slot_n_le]
  have set2: "slots_set ?d2 ?bl ?bc = slots_set d ?bl ?bc" "slots_ok ?d2 ?bl ?bc"
    using cong(1,2) same_disk_dev(4) [OF same(1)] wf(1,2) by simp_all
  have store2: "store_inv ?d2 F Is"
    using same_disk_store [OF same(1)] store by simp
  have fields: "isize ?ino = of_int (fsize d i)" "imagic ?ino = INODE_MAGIC" "length (iblocks ?ino) = 499"
      "same_attr (inode_at d i) ?ino" "iblocks ?ino = ?bl" "blockcount_of (fsize d i) = ?bc"
    using f(6,12) by (simp_all add: same_attr_def fsize_def fcount_blocks_def)
  obtain d3 where c: "disk_write ?d2 (ilist_at d i) (enc_inode ?ino) = Some d3" "fs_result A i d d3 F Is A"
      "inode_at d3 i = ?ino" "fsize d3 i = fsize d i" "ilist_at d3 i = ilist_at d i"
      "content d3 i = map (file_byte ?d2 (iblocks ?ino)) [0..<nat (fsize d i)]"
    using commit_inode [OF inv i store2 ch S fields(1) f(7,8) fields(2,3)] set2 f(10) unfolding fields(5,6) by auto
  have "content d3 i ! a = (if q \<le> int a \<and> int a < e then ?src (int a) else content d i ! a)"
    if a: "int a < fsize d i" for a
  proof -
    have x: "int a div 4096 < ?bc" "0 \<le> int a div 4096"
      using byte_block [of a "fsize d i"] a fields(6) by simp_all
    have "file_block ?d2 ?bl (int a div 4096) = file_block d1 ?bl (int a div 4096)"
      using cong(3) slot_index [OF x(2,1) bc] by (simp add: file_block_def Let_def)
    then have "file_byte ?d2 ?bl a = file_byte d1 ?bl a"
      using blk2 by (simp add: file_byte_def)
    then show ?thesis
      using c(6) fields(5) written_byte [OF w f(9) x(1) bc] a by (simp add: nth_content)
  qed
  moreover have "inode_write_data (ilist_at d i) (inode_at d i) q z e data d = Some (e - z, d3)"
    using run c(1) range by (simp add: inode_write_data_def case_prod_beta)
  moreover have "same_attr (inode_at d i) (inode_at d3 i)"
    unfolding c(3) by (rule fields(4))
  ultimately show ?thesis
    using c(2,4,5) by blast
qed

text \<open>POSIX \<open>write\<close> on a byte list: a gap before the position is filled with zeros.\<close>

definition write_bytes :: "byte list \<Rightarrow> nat \<Rightarrow> byte list \<Rightarrow> byte list" where
  "write_bytes c p bs = take p c @ replicate (p - length c) 0 @ bs @ drop (p + length bs) c"

lemma length_write_bytes [simp]: "length (write_bytes c p bs) = max (length c) (p + length bs)"
  by (simp add: write_bytes_def)

lemma nth_write_bytes:
  assumes "a < length (write_bytes c p bs)"
  shows "write_bytes c p bs ! a =
    (if p \<le> a \<and> a < p + length bs then bs ! (a - p) else if a < length c then c ! a else 0)"
  using assms by (auto simp: write_bytes_def nth_append min_def not_less)

text \<open>The bytes a data argument stands for; a null pointer stands for zeros.\<close>

definition data_bytes :: "byte list option \<Rightarrow> nat \<Rightarrow> byte list" where
  "data_bytes data n = (case data of None \<Rightarrow> replicate n 0 | Some buf \<Rightarrow> take n buf)"

lemma data_bytes_facts:
  assumes "data_fits data (int n)"
  shows "length (data_bytes data n) = n"
    "int p \<le> a \<Longrightarrow> a < int p + int n \<Longrightarrow> src_byte data (int p) a = data_bytes data n ! nat (a - int p)"
  using assms by (auto simp: data_bytes_def data_fits_def src_byte_def split: option.splits)

section \<open>Writing\<close>

lemma inode_write_eq:
  assumes inv: "fs_inv d F Is A" and i: "i \<in> A" and ipos: "(if pos = -1 then fsize d i else pos) = p"
  shows "inode_write d i pos data n =
    (if fsize d i < p + n then
       do { (newsize, d1) \<leftarrow> inode_setsize d i (p + n);
            if newsize < 0 then Some (-1, d1)
            else
              do { b \<leftarrow> read_block d1 (ilist_at d i);
                   let inode = dec_inode b; filesize = sint (isize inode) in
                   if p + n < filesize then None
                   else let zero_endpos' = (if p < filesize then filesize else p) in
                     if filesize < p + n then inode_write_data (ilist_at d i) inode (min (fsize d i) p) zero_endpos' filesize data d1
                     else inode_write_data (ilist_at d i) inode (min (fsize d i) p) p (p + n) data d1 } }
     else inode_write_data (ilist_at d i) (inode_at d i) p p (p + n) data d)"
  using load_inode_eq [OF inv i]
  by (simp add: inode_write_def Let_def fsize_def [symmetric] ipos min_def cong: if_cong)

text \<open>The inode is read again after the resize.\<close>

lemma reload_inode:
  assumes inv: "fs_inv d1 F1 Is A" and i: "i \<in> A" and at: "ilist_at d1 i = ilist_at d i"
  shows "read_block d1 (ilist_at d i) = Some (blk d1 (ilist_at d i))" "dec_inode (blk d1 (ilist_at d i)) = inode_at d1 i"
    "sint (isize (inode_at d1 i)) = fsize d1 i"
proof -
  note f = fs_inv_inode [OF inv i] and dest = store_inv_dest [OF fs_inv_store [OF inv]]
  show "read_block d1 (ilist_at d i) = Some (blk d1 (ilist_at d i))"
    using data_block_unat(5) [OF dest(2) f(4)] dest(1) at by (simp add: read_block_wf)
  show "dec_inode (blk d1 (ilist_at d i)) = inode_at d1 i" "sint (isize (inode_at d1 i)) = fsize d1 i"
    using at by (simp_all add: inode_at_def fsize_def)
qed

theorem inode_write_spec:
  assumes inv: "fs_inv d F Is A" and i: "i \<in> A"
    and p: "p = (if pos = -1 then nat (fsize d i) else nat pos)" "pos = -1 \<or> 0 \<le> pos"
    and range: "int p + int n \<le> MAX_FILESIZE" and fits: "data_fits data (int n)"
    and room: "enough d F i (int p + int n)"
  shows "\<exists>d' F'. inode_write d i pos data (int n) = Some (int n, d') \<and> fs_result A i d d' F' Is A \<and>
    same_attr (inode_at d i) (inode_at d' i) \<and> ilist_at d' i = ilist_at d i \<and>
    content d' i = write_bytes (content d i) p (data_bytes data n)"
proof -
  note f = fs_inv_inode [OF inv i]
  let ?e = "int p + int n" and ?bs = "data_bytes data n"
  have ipos: "(if pos = -1 then fsize d i else pos) = int p"
    using p f(7) by auto
  note start = inode_write_eq [OF inv i ipos, of data "int n"]
  have data: "src_byte data (int p) (int a) = ?bs ! (a - p)" if "p \<le> a" "int a < ?e" for a
  proof -
    have "nat (int a - int p) = a - p"
      by simp
    then show ?thesis
      using data_bytes_facts(2) [OF fits, of p "int a"] that by simp
  qed
  note len = data_bytes_facts(1) [OF fits]
  show ?thesis
  proof (cases "fsize d i < ?e")
    case False
    show ?thesis
    proof (cases "n = 0")
      case True
      then have "inode_write d i pos data (int n) = Some (0, d)"
        using False start by (simp add: inode_write_data_def)
      moreover have "write_bytes (content d i) p ?bs = content d i"
        using True False len by (simp add: write_bytes_def)
      ultimately show ?thesis
        using True inv by (auto simp: fs_result_def)
    next
      case n: False
      obtain d' where w: "inode_write_data (ilist_at d i) (inode_at d i) (int p) (int p) ?e data d = Some (?e - int p, d')"
          "fs_result A i d d' F Is A" "fsize d' i = fsize d i" "same_attr (inode_at d i) (inode_at d' i)" "ilist_at d' i = ilist_at d i"
          "\<forall>a. int a < fsize d i \<longrightarrow> content d' i ! a =
            (if int p \<le> int a \<and> int a < ?e then if int a < int p then 0 else src_byte data (int p) (int a) else content d i ! a)"
        using inode_write_data_spec [OF inv i, of "int p" "int p" ?e data] False n fits by auto
      have "content d' i = write_bytes (content d i) p ?bs"
      proof (rule nth_equalityI)
        show "length (content d' i) = length (write_bytes (content d i) p ?bs)"
          using w(3) False len by simp
      next
        fix a assume a: "a < length (content d' i)"
        then have "int a < fsize d i" "a < length (write_bytes (content d i) p ?bs)"
          using w(3) by simp_all
        then show "content d' i ! a = write_bytes (content d i) p ?bs ! a"
          using w(6) data [of a] len by (simp add: nth_write_bytes) auto
      qed
      then show ?thesis
        using w(1,2,4,5) start False n by auto
    qed
  next
    case True
    obtain d1 F1 where s: "inode_setsize d i ?e = Some (?e, d1)" "fs_result A i d d1 F1 Is A" "fsize d1 i = ?e"
        "same_attr (inode_at d i) (inode_at d1 i)" "ilist_at d1 i = ilist_at d i"
        "\<forall>a. int a < fsize d i \<longrightarrow> int a < ?e \<longrightarrow> content d1 i ! a = content d i ! a"
      using inode_setsize_spec [OF inv i _ range disjI1 [OF room]] room by auto
    have inv1: "fs_inv d1 F1 Is A"
      using s(2) by (simp add: fs_result_def)
    let ?q = "min (fsize d i) (int p)"
    have start1: "inode_write d i pos data (int n) = inode_write_data (ilist_at d1 i) (inode_at d1 i) ?q (int p) ?e data d1"
      using True start s(1,3,5) reload_inode [OF inv1 i s(5)] f(7) by simp
    obtain d' where w: "inode_write_data (ilist_at d1 i) (inode_at d1 i) ?q (int p) ?e data d1 = Some (?e - int p, d')"
        "fs_result A i d1 d' F1 Is A" "fsize d' i = fsize d1 i" "same_attr (inode_at d1 i) (inode_at d' i)" "ilist_at d' i = ilist_at d1 i"
        "\<forall>a. int a < fsize d1 i \<longrightarrow> content d' i ! a =
          (if ?q \<le> int a \<and> int a < ?e then if int a < int p then 0 else src_byte data (int p) (int a) else content d1 i ! a)"
    proof -
      have "0 \<le> ?q" "?q \<le> int p" "int p \<le> ?e" "?e \<le> fsize d1 i" "?q < ?e" "data_fits data (?e - int p)"
        using True s(3) f(7) fits by simp_all
      then show thesis
        using inode_write_data_spec [OF inv1 i] that by blast
    qed
    have res: "fs_result A i d d' F1 Is A"
      using fs_result_trans [OF s(2) w(2) Diff_subset] by blast
    have "content d' i = write_bytes (content d i) p ?bs"
    proof (rule nth_equalityI)
      show "length (content d' i) = length (write_bytes (content d i) p ?bs)"
        using w(3) s(3) True len by simp
    next
      fix a assume "a < length (content d' i)"
      then have a: "int a < ?e" "a < length (write_bytes (content d i) p ?bs)"
        using w(3) s(3) True len by simp_all
      have "content d' i ! a =
          (if ?q \<le> int a \<and> int a < ?e then if int a < int p then 0 else src_byte data (int p) (int a) else content d1 i ! a)"
        using w(6) s(3) a(1) by simp
      then show "content d' i ! a = write_bytes (content d i) p ?bs ! a"
        using s(6) data [of a] len a f(7) by (auto simp: nth_write_bytes)
    qed
    then show ?thesis
      using w(1,5) res start1 s(5) True same_attr_trans [OF s(4) w(4)] by auto
  qed
qed

text \<open>
  When the disk is full the part that does not fit should be dropped.  What happens instead: if
  the position is below the size the file could still reach, everything from the position (or
  from the old end of the file) on is overwritten with zeros and the result is \<open>0\<close>.
\<close>

theorem inode_write_full:
  assumes inv: "fs_inv d F Is A" and i: "i \<in> A" and p: "0 \<le> p" "0 \<le> n" "p + n \<le> MAX_FILESIZE"
    and full: "\<not> enough d F i (p + n)" and safe: "slots_safe (fcount_blocks d i)" and small: "p \<le> fsize d i"
  shows "\<exists>newsize d' F'. inode_write d i p data n = Some (0, d') \<and> fs_result A i d d' F' Is A \<and>
    fsize d i \<le> newsize \<and> newsize < p + n \<and> same_attr (inode_at d i) (inode_at d' i) \<and>
    content d' i = take (nat p) (content d i) @ replicate (nat (newsize - p)) 0"
proof -
  note f = fs_inv_inode [OF inv i]
  have grow: "fsize d i < p + n"
    using full enough_shrink [of "p + n" d i F] p by force
  obtain s d1 F1 where s: "inode_setsize d i (p + n) = Some (s, d1)" "fs_result A i d d1 F1 Is A" "fsize d i \<le> s" "s < p + n"
      "fsize d1 i = s" "ilist_at d1 i = ilist_at d i" "same_attr (inode_at d i) (inode_at d1 i)"
      "\<forall>a. int a < fsize d i \<longrightarrow> int a < s \<longrightarrow> content d1 i ! a = content d i ! a"
    using inode_setsize_spec [OF inv i _ p(3)] full safe p by auto
  have inv1: "fs_inv d1 F1 Is A"
    using s(2) by (simp add: fs_result_def)
  have ipos: "(if p = -1 then fsize d i else p) = p"
    using p(1) by simp
  have start: "inode_write d i p data n = inode_write_data (ilist_at d1 i) (inode_at d1 i) p s s data d1"
  proof -
    have "min (fsize d i) p = p" "p < s \<or> s = p"
      using small s(3) by auto
    then show ?thesis
      using inode_write_eq [OF inv i ipos, of data n] grow s(1,3-6) reload_inode [OF inv1 i s(6)] f(7)
      by (elim disjE) simp_all
  qed
  have "\<exists>d'. inode_write_data (ilist_at d1 i) (inode_at d1 i) p s s data d1 = Some (0, d') \<and>
      fs_result A i d1 d' F1 Is A \<and> fsize d' i = fsize d1 i \<and> same_attr (inode_at d1 i) (inode_at d' i) \<and>
      (\<forall>a. int a < fsize d1 i \<longrightarrow> content d' i ! a = (if p \<le> int a then 0 else content d1 i ! a))"
  proof (cases "p = s")
    case True
    then show ?thesis
      using inv1 s(5) by (auto simp: inode_write_data_def fs_result_def)
  next
    case False
    then have "p \<le> s" "s \<le> s" "s \<le> fsize d1 i" "p < s" "data_fits data (s - s)"
      using small s(3,5) by (simp_all add: data_fits_def split: option.splits)
    then show ?thesis
      using inode_write_data_spec [OF inv1 i p(1), of s s data] s(5) by auto
  qed
  then obtain d' where w: "inode_write_data (ilist_at d1 i) (inode_at d1 i) p s s data d1 = Some (0, d')"
      "fs_result A i d1 d' F1 Is A" "fsize d' i = fsize d1 i" "same_attr (inode_at d1 i) (inode_at d' i)"
      "\<forall>a. int a < fsize d1 i \<longrightarrow> content d' i ! a = (if p \<le> int a then 0 else content d1 i ! a)"
    by blast
  have res: "fs_result A i d d' F1 Is A"
    using fs_result_trans [OF s(2) w(2) Diff_subset] by blast
  have "content d' i = take (nat p) (content d i) @ replicate (nat (s - p)) 0"
  proof (rule nth_equalityI)
    show "length (content d' i) = length (take (nat p) (content d i) @ replicate (nat (s - p)) 0)"
      using w(3) s(3,5) small p(1) by simp
  next
    fix a assume "a < length (content d' i)"
    then have a: "int a < s"
      using w(3) s(5) by simp
    show "content d' i ! a = (take (nat p) (content d i) @ replicate (nat (s - p)) 0) ! a"
      using w(5) s(5,8) a small p(1) by (auto simp: nth_append)
  qed
  then show ?thesis
    using w(1) start res s(3,4) same_attr_trans [OF s(7) w(4)] by auto
qed

section \<open>Reading\<close>

lemma filled_byte:
  assumes fl: "filled pos endpos (file_map d blocks bc) d buf buf'" and range: "0 \<le> pos" "blocks_upto endpos \<le> bc"
    and bc: "bc \<le> FIRST_UNREACHABLE_BLOCK" and k: "k < length buf"
  shows "buf' ! k = (if pos + int k < endpos then file_byte d blocks (nat pos + k) else buf ! k)"
proof -
  let ?a = "pos + int k"
  have rd: "(\<forall>b. (b, ?a div 4096) \<in> file_map d blocks bc \<longrightarrow> ?a < endpos \<longrightarrow> buf' ! k = blk d b ! nat (?a mod 4096))"
      "endpos \<le> ?a \<Longrightarrow> buf' ! k = buf ! k"
    using fl k by (simp_all add: filled_def Let_def)
  show ?thesis
  proof (cases "?a < endpos")
    case True
    have a: "int (nat pos + k) = ?a" "nat (?a mod 4096) = (nat pos + k) mod 4096"
      using range(1) by (simp_all add: nat_mod_distrib nat_add_distrib)
    have "?a div 4096 \<le> (endpos - 1) div 4096"
      using True by (intro zdiv_mono1) simp_all
    then have "(file_block d blocks (?a div 4096), ?a div 4096) \<in> file_map d blocks bc"
      unfolding file_map_iff [OF bc] using range by simp
    then have "buf' ! k = blk d (file_block d blocks (?a div 4096)) ! ((nat pos + k) mod 4096)"
      using rd(1) True a(2) by simp
    then show ?thesis
      using True a(1) by (simp add: file_byte_def)
  qed (use rd(2) in simp)
qed

text \<open>How many bytes a read gets, and the buffer afterwards.\<close>

definition read_count :: "'x disk_t_scheme \<Rightarrow> ino \<Rightarrow> nat \<Rightarrow> nat \<Rightarrow> nat" where
  "read_count d i p n = min n (nat (fsize d i) - p)"

definition read_bytes :: "byte list \<Rightarrow> nat \<Rightarrow> nat \<Rightarrow> byte list \<Rightarrow> byte list" where
  "read_bytes c p n buf = slice p n c @ drop (length (slice p n c)) buf"

theorem inode_read_spec:
  assumes inv: "fs_inv d F Is A" and i: "i \<in> A" and fits: "n \<le> length buf"
  shows "\<exists>d'. inode_read d i (int p) buf (int n) =
      Some (int (read_count d i p n), read_bytes (content d i) p n buf, d') \<and>
    fs_result A i d d' F Is A \<and> content d' i = content d i \<and> fsize d' i = fsize d i \<and>
    same_attr (inode_at d i) (inode_at d' i) \<and> ilist_at d' i = ilist_at d i \<and>
    inode_at d' i = (if read_count d i p n = 0 then inode_at d i else (inode_at d i)\<lparr>last_access := fst (now d)\<rparr>)"
proof -
  note f = fs_inv_inode [OF inv i] and dest = store_inv_dest [OF fs_inv_store [OF inv]]
  let ?e = "min (fsize d i) (int p + int n)" and ?bl = "iblocks (inode_at d i)" and ?bc = "fcount_blocks d i"
  have start: "inode_read d i (int p) buf (int n) =
      (if ?e \<le> int p then Some (0, buf, d)
       else do { (curpos, buf', d1) \<leftarrow> read_slots ?bl (int p) ?e buf (int p) (-1) d;
                 let (ts, d2) = now d1;
                 d3 \<leftarrow> disk_write d2 (ilist_at d i) (enc_inode ((inode_at d i)\<lparr>last_access := ts\<rparr>));
                 if curpos = ?e then Some (?e - int p, buf', d3) else None })"
    using load_inode_eq [OF inv i]
    by (simp add: inode_read_def Let_def fsize_def [symmetric] min_def cong: if_cong)
  show ?thesis
  proof (cases "?e \<le> int p")
    case True
    then have "read_count d i p n = 0" "slice p n (content d i) = []"
      using f(7) by (auto simp: read_count_def slice_def min_def split: if_splits)
    then show ?thesis
      using True start inv by (auto simp: fs_result_def read_bytes_def)
  next
    case False
    have bc: "?bc \<le> FIRST_UNREACHABLE_BLOCK"
      using blockcount_bounds(2) [OF f(7,8)] by (simp add: fcount_blocks_def)
    have upto: "blocks_upto ?e \<le> ?bc"
      by (rule blocks_in_file) (use False in linarith)+
    have len: "?e - int p \<le> int (length buf)" and lt_e: "int p < ?e"
      using fits False by linarith+
    obtain buf' where run: "read_slots ?bl (int p) ?e buf (int p) (-1) d = Some (?e, buf', d)"
        and fl: "filled (int p) ?e (file_map d ?bl ?bc) d buf buf'"
      using read_slots_spec [OF dest(2) f(9) of_nat_0_le_iff lt_e upto bc len] by blast
    let ?ino = "(inode_at d i)\<lparr>last_access := fst (now d)\<rparr>"
    obtain d' where w: "disk_write (snd (now d)) (ilist_at d i) (enc_inode ?ino) = Some d'" "meta_result A i d d' F Is ?ino"
      using touch_inode [OF inv i, of ?ino] by auto
    have count: "?e - int p = int (read_count d i p n)" "length (slice p n (content d i)) = read_count d i p n"
      using False f(7) by (simp_all add: read_count_def)
    have "buf' = read_bytes (content d i) p n buf"
    proof (rule nth_equalityI)
      show "length buf' = length (read_bytes (content d i) p n buf)"
        using fl fits f(7) by (simp add: filled_def read_bytes_def)
    next
      fix k assume "k < length buf'"
      then have k: "k < length buf"
        using fl by (simp add: filled_def)
      have lt: "int p + int k < ?e \<longleftrightarrow> k < read_count d i p n"
        using count(1) by linarith
      have "buf' ! k = (if int p + int k < ?e then file_byte d ?bl (nat (int p) + k) else buf ! k)"
        by (rule filled_byte [OF fl of_nat_0_le_iff upto bc k])
      then show "buf' ! k = read_bytes (content d i) p n buf ! k"
        using lt count(2) k by (auto simp: read_bytes_def nth_append nth_slice nth_content read_count_def)
    qed
    then have "inode_read d i (int p) buf (int n) =
        Some (int (read_count d i p n), read_bytes (content d i) p n buf, d')"
      using False start run w(1) count(1) by (simp add: case_prod_beta)
    moreover have "read_count d i p n \<noteq> 0"
      using count(1) lt_e by linarith
    ultimately show ?thesis
      using w(2) by (auto simp: meta_result_def fsize_def same_attr_def)
  qed
qed

section \<open>Truncating\<close>

definition truncate_bytes :: "byte list \<Rightarrow> nat \<Rightarrow> byte list" where
  "truncate_bytes c n = take n c @ replicate (n - length c) 0"

theorem inode_truncate_spec:
  assumes inv: "fs_inv d F Is A" and i: "i \<in> A" and sz: "0 \<le> sz" "sz \<le> MAX_FILESIZE"
    and room: "enough d F i sz \<or> slots_safe (fcount_blocks d i)"
  shows "\<exists>newsize d' F'. inode_truncate d i sz = Some (newsize, d') \<and> fs_result A i d d' F' Is A \<and>
    (if enough d F i sz then newsize = sz else fsize d i \<le> newsize \<and> newsize < sz) \<and>
    content d' i = truncate_bytes (content d i) (nat newsize) \<and>
    same_attr (inode_at d i) (inode_at d' i) \<and> ilist_at d' i = ilist_at d i"
proof -
  note f = fs_inv_inode [OF inv i]
  obtain s d1 F1 where s: "inode_setsize d i sz = Some (s, d1)" "fs_result A i d d1 F1 Is A"
      "if enough d F i sz then s = sz else fsize d i \<le> s \<and> s < sz"
      "fsize d1 i = s" "same_attr (inode_at d i) (inode_at d1 i)" "ilist_at d1 i = ilist_at d i"
      "\<forall>a. int a < fsize d i \<longrightarrow> int a < s \<longrightarrow> content d1 i ! a = content d i ! a"
    using inode_setsize_spec [OF inv i sz room] by blast
  have inv1: "fs_inv d1 F1 Is A"
    using s(2) by (simp add: fs_result_def)
  note f1 = fs_inv_inode [OF inv1 i]
  show ?thesis
  proof (cases "fsize d i < s")
    case False
    have "content d1 i = truncate_bytes (content d i) (nat s)"
      using False s(4,7) f1(7) by (intro nth_equalityI) (simp_all add: truncate_bytes_def nth_append)
    moreover have "inode_truncate d i sz = Some (s, d1)"
      using False s(1) load_inode_eq [OF inv i] by (simp add: inode_truncate_def fsize_def [symmetric] Let_def)
    ultimately show ?thesis
      using s(2,3,5,6) by blast
  next
    case True
    let ?p = "nat (fsize d i)" and ?n = "nat (s - fsize d i)"
    have p: "?p = (if fsize d i = -1 then nat (fsize d1 i) else nat (fsize d i))" "fsize d i = -1 \<or> 0 \<le> fsize d i"
      using f(7) by auto
    have n: "int ?p + int ?n = s" "int ?n = s - fsize d i" "int ?p + int ?n \<le> MAX_FILESIZE"
      using True f(7) f1(7,8) s(4) by simp_all
    have "enough d1 F1 i (int ?p + int ?n)"
      unfolding n(1) using s(4) f1(7) by (intro enough_shrink) simp_all
    then obtain d' F' where w: "inode_write d1 i (fsize d i) None (int ?n) = Some (int ?n, d')" "fs_result A i d1 d' F' Is A"
        "same_attr (inode_at d1 i) (inode_at d' i)" "ilist_at d' i = ilist_at d1 i"
        "content d' i = write_bytes (content d1 i) ?p (data_bytes None ?n)"
      using inode_write_spec [OF inv1 i p n(3), of None] by (auto simp: data_fits_def)
    have "content d' i = truncate_bytes (content d i) (nat s)"
    proof (rule nth_equalityI)
      show "length (content d' i) = length (truncate_bytes (content d i) (nat s))"
        using w(5) True s(4) f(7) by (simp add: truncate_bytes_def data_bytes_def)
    next
      fix a assume "a < length (content d' i)"
      then have "int a < s"
        using w(5) True s(4) f(7) by (simp add: data_bytes_def split: if_splits)
      then show "content d' i ! a = truncate_bytes (content d i) (nat s) ! a"
        using w(5) True s(4,7) f(7) by (auto simp: truncate_bytes_def data_bytes_def nth_write_bytes nth_append)
    qed
    moreover have "inode_truncate d i sz = Some (s, d')"
      using True s(1) w(1) n(2) load_inode_eq [OF inv i] by (simp add: inode_truncate_def fsize_def [symmetric] Let_def)
    moreover have "ilist_at d' i = ilist_at d i"
      using s(6) w(4) by simp
    ultimately show ?thesis
      using s(3) fs_result_trans [OF s(2) w(2) Diff_subset] same_attr_trans [OF s(5) w(3)] by blast
  qed
qed

end
