(* ===== verification/Inode_Life.thy ===== *)
theory Inode_Life
  imports Inode_Bytes
begin

text \<open>
  The life of an inode on a consistent filesystem: allocation, changes of its metadata, and
  freeing, which gives back every block it had.
\<close>

section \<open>Metadata\<close>

lemma commit_metadata:
  assumes inv: "fs_inv d F Is A" and i: "i \<in> A"
    and same: "isize inode = isize (inode_at d i)" "imagic inode = imagic (inode_at d i)" "iblocks inode = iblocks (inode_at d i)"
    and run: "op = do { loaded \<leftarrow> load_inode d i;
      case loaded of None \<Rightarrow> Some (e, d)
      | Some (b, _) \<Rightarrow> do { d' \<leftarrow> disk_write (snd (now d)) b (enc_inode inode); Some (r, d') } }"
  shows "\<exists>d'. op = Some (r, d') \<and> meta_result A i d d' F Is inode"
  using touch_inode [OF inv i same] load_inode_eq [OF inv i] run by auto

theorem inode_chmod_spec:
  assumes "fs_inv d F Is A" and "i \<in> A"
  shows "\<exists>d'. inode_chmod d i mode = Some (0, d') \<and>
    meta_result A i d d' F Is ((inode_at d i)\<lparr>imode := mode, last_statchange := fst (now d)\<rparr>)"
  using load_inode_eq [OF assms] by (intro commit_metadata [OF assms]) (simp_all add: inode_chmod_def Let_def case_prod_beta)

theorem inode_chown_spec:
  assumes "fs_inv d F Is A" and "i \<in> A"
  shows "\<exists>d'. inode_chown d i owner grp = Some (0, d') \<and>
    meta_result A i d d' F Is ((inode_at d i)\<lparr>iowner := (if owner = -1 then iowner (inode_at d i) else owner),
      igroup := (if grp = -1 then igroup (inode_at d i) else grp), last_statchange := fst (now d)\<rparr>)"
  using load_inode_eq [OF assms] by (intro commit_metadata [OF assms]) (simp_all add: inode_chown_def Let_def case_prod_beta)

theorem inode_utime_spec:
  assumes "fs_inv d F Is A" and "i \<in> A"
  shows "\<exists>d'. inode_utime d i atime ctime = Some (0, d') \<and>
    meta_result A i d d' F Is ((inode_at d i)\<lparr>last_statchange := fst (now d),
      last_access := utime_field atime (fst (now d)) (last_access (inode_at d i)),
      last_change := utime_field ctime (fst (now d)) (last_change (inode_at d i))\<rparr>)"
  using load_inode_eq [OF assms] by (intro commit_metadata [OF assms]) (simp_all add: inode_utime_def Let_def case_prod_beta)

theorem inode_link_spec:
  assumes "fs_inv d F Is A" and "i \<in> A"
  shows "\<exists>d'. inode_link d i = Some (inlinks (inode_at d i) + 1, d') \<and>
    meta_result A i d d' F Is ((inode_at d i)\<lparr>inlinks := inlinks (inode_at d i) + 1, last_statchange := fst (now d)\<rparr>)"
  using load_inode_eq [OF assms] by (intro commit_metadata [OF assms]) (simp_all add: inode_link_def Let_def case_prod_beta)

theorem inode_unlink_spec:
  assumes "fs_inv d F Is A" and "i \<in> A"
  shows "\<exists>d'. inode_unlink d i = Some (inlinks (inode_at d i) - 1, d') \<and>
    meta_result A i d d' F Is ((inode_at d i)\<lparr>inlinks := inlinks (inode_at d i) - 1, last_statchange := fst (now d)\<rparr>)"
  using load_inode_eq [OF assms] by (intro commit_metadata [OF assms]) (simp_all add: inode_unlink_def Let_def case_prod_beta)

theorem inode_getinfo_spec:
  assumes "fs_inv d F Is A" and "i \<in> A"
  shows "inode_getinfo d i = Some (Some (inode_info.truncate (inode_at d i)))"
  using load_inode_eq [OF assms] by (simp add: inode_getinfo_def)

section \<open>Allocation\<close>

text \<open>What a new inode looks like.\<close>

definition new_inode :: "timespec \<Rightarrow> inode_t" where
  "new_inode ts = \<lparr>imode = 0x1FF, iowner = 0, igroup = 0, inlinks = 0, isize = 0, created = ts,
     last_access = ts, last_change = ts, last_statchange = ts, imagic = INODE_MAGIC,
     iblocks = replicate NUM_BLOCK_SLOTS EOF\<rparr>"

lemma sint_EOF_neg: "sint EOF < 0"
  by simp

lemma empty_slots: "slots_set d blocks 0 = {}" "slots_ok d (replicate 499 EOF) 0"
  by (auto simp: gset_def gforest_def)

lemma same_disk_file:
  assumes "same_disk d d'"
  shows "same_file d d' i" "inode_good d' i = inode_good d i"
proof -
  note dev = same_disk_dev [OF assms] and blk = same_disk_blk [OF assms]
  have inode: "inode_at d' i = inode_at d i"
    using dev blk by (simp add: inode_at_def)
  then have size: "fsize d' i = fsize d i" "fcount_blocks d' i = fcount_blocks d i"
    by (simp_all add: fsize_def fcount_blocks_def)
  note cong = gforest_cong [where N = 499 and lev = slot_level and d = d and d' = d', OF blk slot_n_le]
  have set: "slots_set d' bl bc = slots_set d bl bc" "slots_ok d' bl bc = slots_ok d bl bc" for bl bc
    using cong(1,2) dev by simp_all
  have tget: "tget l d' p k = tget l d p k" for l p k
    by (induction l arbitrary: p k) (simp_all add: ind_def blk)
  have "file_byte d' bl a = file_byte d bl a" for bl a
    by (simp add: file_byte_def file_block_def tget blk Let_def)
  then show "same_file d d' i" "inode_good d' i = inode_good d i"
    using inode size set dev by (simp_all add: same_file_def content_def own_def inode_good_def)
qed

lemma fs_inv_same_disk:
  assumes "fs_inv d F Is A" and "same_disk d d'"
  shows "fs_inv d' F Is A"
  using assms(1) same_disk_store [OF assms(2)] same_disk_dev [OF assms(2)] same_disk_file [OF assms(2)]
  by (simp add: fs_inv_def same_file_def)

text \<open>Without a free inode number or without a free block nothing is allocated.\<close>

theorem inode_allocate_full:
  assumes inv: "fs_inv d F Is A" and full: "F = {} \<or> Is = []"
  shows "\<exists>d'. inode_allocate d = Some (-1, d') \<and> fs_inv d' F Is A \<and> (\<forall>j \<in> A. same_file d d' j) \<and> changed UNIV d d'"
proof (cases Is)
  case Nil
  let ?d = "snd (now d)"
  have "store_inv ?d F []"
    using fs_inv_store [OF inv] Nil by (simp add: same_disk_store [OF same_disk_now(1)])
  then have "inode_allocate d = Some (-1, ?d)"
    by (simp add: inode_allocate_def case_prod_beta Let_def ino_allocate_empty)
  then show ?thesis
    using fs_inv_same_disk [OF inv same_disk_now(1)] same_disk_file(1) [OF same_disk_now(1)] changed_mono [OF same_disk_now(2) subset_UNIV] by blast
next
  case (Cons i Js)
  let ?d = "snd (now d)"
  note now = same_disk_now [of d] and store0 = fs_inv_store [OF inv]
  note geo = store_inv_dest [OF store0] store_inv_inos_dest [OF store0]
  have F: "F = {}" and store: "store_inv ?d {} (i # Js)"
    using same_disk_store [OF now(1)] store0 Cons full by auto
  obtain d1 where a: "ino_allocate ?d = Some (i, d1)" "store_inv d1 {} Js" "framed {0} ?d d1"
      "\<forall>j. valid_ino ?d j \<longrightarrow> ilist_at d1 j = ilist_at ?d j"
    using ino_allocate_some [OF store] by blast
  have valid: "valid_ino d i" "i \<notin> set Js"
    using geo(9) geo(11) [of i] Cons by simp_all
  have ch1: "changed {0} d d1"
    using changed_trans [OF now(2) framed_changed [OF a(3)]] by simp
  have "valid_ino d1 i"
    using changed_dev(3) [OF ch1] valid(1) by simp
  from ino_free_spec [OF a(2) this valid(2)]
  obtain d2 where b: "ino_free d1 i = Some d2" "store_inv d2 {} (i # Js)" "framed {0, ilist_block i} d1 d2"
      "\<forall>j. valid_ino d1 j \<longrightarrow> j \<noteq> i \<longrightarrow> ilist_at d2 j = ilist_at d1 j"
    by blast
  let ?S = "{0, ilist_block i}"
  have ch: "changed ?S d d2"
    by (rule changed_mono [OF changed_trans [OF ch1 framed_changed [OF b(3)]]]) simp
  have i: "i \<notin> A"
    using inv Cons by (auto simp: fs_inv_def)
  have others: "\<forall>j \<in> A - {i}. ilist_at d2 j = ilist_at d j \<and> own d j \<inter> ?S = {}"
  proof
    fix j assume j: "j \<in> A - {i}"
    then have v: "valid_ino d j"
      using fs_inv_inode(2) [OF inv] by simp
    have "0 \<notin> own d j" "ilist_block i \<notin> own d j"
      using fs_inv_own(1) [OF inv, of j] j zero_not_data_block [of d] ilist_block_unat(5) [OF geo(2) valid(1)] by auto
    moreover have "ilist_at d2 j = ilist_at d j"
      using b(4) a(4) v j changed_dev(3) [OF ch1] same_disk_dev(5,6) [OF now(1)] by simp
    ultimately show "ilist_at d2 j = ilist_at d j \<and> own d j \<inter> ?S = {}"
      by simp
  qed
  have "fs_inv d2 {} (i # Js) (A - {i} \<union> {})" "j \<in> A - {i} \<Longrightarrow> same_file d d2 j" for j
    by (rule fs_inv_step [OF inv b(2) ch others, of "{}"]; use i F Cons in simp)+
  moreover have "inode_allocate d = Some (-1, d2)"
    using a(1) b(1) block_allocate_empty [OF a(2)] valid_ino_unat(3) [OF geo(2) valid(1)]
    by (simp add: inode_allocate_def case_prod_beta Let_def)
  ultimately show ?thesis
    using i F Cons changed_mono [OF ch subset_UNIV] by auto
qed

theorem inode_allocate_spec:
  assumes inv: "fs_inv d F (i # Is) A" and free: "F \<noteq> {}"
  shows "\<exists>d' b. inode_allocate d = Some (i, d') \<and> b \<in> F \<and> fs_result A i d d' (F - {b}) Is (insert i A) \<and> i \<notin> A \<and>
    inode_at d' i = new_inode (fst (now d)) \<and> content d' i = []"
proof -
  let ?d = "snd (now d)" and ?ino = "new_inode (fst (now d))"
  note now = same_disk_now [of d] and store0 = fs_inv_store [OF inv]
  have store: "store_inv ?d F (i # Is)"
    using same_disk_store [OF now(1)] store0 by simp
  obtain d1 where a: "ino_allocate ?d = Some (i, d1)" "store_inv d1 F Is" "framed {0} ?d d1"
      "\<forall>j. valid_ino ?d j \<longrightarrow> ilist_at d1 j = ilist_at ?d j"
    using ino_allocate_some [OF store] by blast
  obtain b d2 where b: "block_allocate d1 = Some (b, d2)" "b \<in> F" "store_inv d2 (F - {b}) Is" "framed (insert 0 F) d1 d2"
    using block_allocate_some [OF a(2) free] by blast
  note geo = store_inv_dest [OF store0] store_inv_inos_dest [OF store0]
  have valid: "valid_ino d i" "i \<notin> set Is" "i \<notin> A"
    using geo(9) store_inv_inos_dest(4) [OF store0, of i] inv by (auto simp: fs_inv_def)
  have ch2: "changed (insert 0 F) d d2"
    using changed_trans [OF changed_trans [OF now(2) framed_changed [OF a(3)]] framed_changed [OF b(4)]]
    by (rule changed_mono) simp
  have valid2: "valid_ino d2 i" and data: "data_block d b" "data_block d2 b"
    using changed_dev [OF ch2] valid(1) geo(5) b(2) by simp_all
  let ?d3 = "set_ilist d2 i b"
  have s: "ino_set d2 i b = Some ?d3" "store_inv ?d3 (F - {b}) Is" "framed {ilist_block i} d2 ?d3"
    using ino_set_spec [OF b(3) valid2 valid(2)] by simp_all
  have data3: "data_block ?d3 b" "b \<notin> F - {b}"
    using framed_dev(5) [OF s(3)] data(2) by simp_all
  have len: "inode_ok ?ino" "length (enc_inode ?ino) = BLOCKSIZE"
    by (simp_all add: inode_ok_def new_inode_def)
  let ?d4 = "upd_blk ?d3 b (enc_inode ?ino)"
  note w = store_inv_upd_blk [OF s(2) data3 len(2)]
  let ?S = "insert 0 F \<union> {ilist_block i} \<union> {b}"
  have ch: "changed ?S d ?d4"
    using changed_trans [OF changed_trans [OF ch2 framed_changed [OF s(3)]] framed_changed [OF w(3)]] .
  have at3: "ilist_at ?d4 j = ilist_at ?d3 j" if "valid_ino d j" for j
  proof -
    have "ilist_block j \<noteq> b"
      using ilist_block_unat(5) [OF geo(2) that] data(1) by auto
    then show ?thesis
      using len(2) by (simp add: ilist_at_def)
  qed
  have at2: "ilist_at d2 j = ilist_at d j" if "valid_ino d j" for j
    by (rule ilist_at_changed [OF geo(2) ch2 _ that]) (use geo(5) in auto)
  have at: "ilist_at ?d4 j = (if j = i then b else ilist_at d j)" if "valid_ino d j" for j
    using at3 [OF that] at2 [OF that] set_ilist_at [of d2 i b j] by simp
  have inode: "inode_at ?d4 i = ?ino"
    using at [OF valid(1)] len by (simp add: inode_at_def)
  have size: "fsize ?d4 i = 0" "fcount_blocks ?d4 i = 0"
    using inode by (simp_all add: fsize_def fcount_blocks_def new_inode_def blockcount_nonneg)
  have own: "own ?d4 i = {b}"
    using at [OF valid(1)] size by (simp add: own_def empty_slots)
  have good: "inode_good ?d4 i"
    using inode size at [OF valid(1)] valid(1) data(1) changed_dev [OF ch]
    by (simp add: inode_good_def new_inode_def MAX_FILESIZE_def empty_slots)
  have others: "\<forall>j \<in> A - {i}. ilist_at ?d4 j = ilist_at d j \<and> own d j \<inter> ?S = {}"
  proof
    fix j assume j: "j \<in> A - {i}"
    have "own d j \<inter> F = {}" "0 \<notin> own d j" "ilist_block i \<notin> own d j"
      using fs_inv_own [OF inv, of j] j zero_not_data_block [of d] ilist_block_unat(5) [OF geo(2) valid(1)] by auto
    then show "ilist_at ?d4 j = ilist_at d j \<and> own d j \<inter> ?S = {}"
      using at [of j] fs_inv_inode(2) [OF inv, of j] j b(2) by auto
  qed
  have blocks: "(F - {b}) \<union> (if i \<in> {i} then own ?d4 i else {}) = F \<union> (if i \<in> A then own d i else {})"
    using own b(2) valid(3) by auto
  have disj: "inode_good ?d4 i \<and> own ?d4 i \<inter> (F - {b}) = {}"
    using good own by simp
  have inos: "set Is \<inter> {i} = {}" "set Is \<union> {i} = set (i # Is) \<union> (A \<inter> {i})"
    using valid(2) by auto
  note step = fs_inv_step [OF inv w(2) ch others subset_refl disj blocks inos]
  have A: "A - {i} \<union> {i} = insert i A"
    by auto
  have res: "fs_result A i d ?d4 (F - {b}) Is (insert i A)"
    using step changed_mono [OF ch] unfolding A fs_result_def by simp
  have "inode_allocate d = Some (i, ?d4)"
    using a(1) b(1) s(1) w(1) valid_ino_unat(3) [OF geo(2) valid(1)] data_block_unat(4) [OF geo(2) data(1)]
    by (simp add: inode_allocate_def case_prod_beta Let_def new_inode_def)
  then show ?thesis
    using res b(2) valid(3) inode size by (auto simp: content_def)
qed

section \<open>Freeing\<close>

lemma fs_inv_rest:
  assumes "fs_inv d F Is A" and "i \<in> A"
  shows "(F \<union> own d i) \<inter> \<Union> (own d ` (A - {i})) = {}"
    "F \<union> own d i \<union> \<Union> (own d ` (A - {i})) = {b. data_block d b}"
proof -
  have "F \<inter> own d j = {}" "own d i \<inter> own d j = {}" if "j \<in> A - {i}" for j
    using fs_inv_own(3) [OF assms(1), of j] fs_inv_own(2) [OF assms(1) _ assms(2), of j] that by auto
  then show "(F \<union> own d i) \<inter> \<Union> (own d ` (A - {i})) = {}"
    by blast
  have "A = insert i (A - {i})"
    using assms(2) by blast
  then have "\<Union> (own d ` A) = own d i \<union> \<Union> (own d ` (A - {i}))"
    by blast
  then show "F \<union> own d i \<union> \<Union> (own d ` (A - {i})) = {b. data_block d b}"
    using assms(1) by (simp add: fs_inv_def Un_assoc)
qed

theorem inode_free_linked:
  assumes "fs_inv d F Is A" and "i \<in> A" and "inlinks (inode_at d i) \<noteq> 0"
  shows "inode_free d i = Some (-1, d)"
  using load_inode_eq [OF assms(1,2)] assms(3) by (simp add: inode_free_def)

theorem inode_free_spec:
  assumes inv: "fs_inv d F Is A" and i: "i \<in> A" and unlinked: "inlinks (inode_at d i) = 0"
  shows "\<exists>d'. inode_free d i = Some (0, d') \<and> fs_result A i d d' (F \<union> own d i) (i # Is) (A - {i})"
proof -
  note f = fs_inv_inode [OF inv i]
  have "enough d F i 0"
    using enough_shrink [of 0 d i F] f(7) by simp
  then obtain d1 F1 where s: "inode_setsize d i 0 = Some (0, d1)" "fs_result A i d d1 F1 Is A" "fsize d1 i = 0"
      "ilist_at d1 i = ilist_at d i"
    using inode_setsize_spec [OF inv i, of 0] by (auto simp: MAX_FILESIZE_def)
  have inv1: "fs_inv d1 F1 Is A"
    using s(2) by (simp add: fs_result_def)
  note f1 = fs_inv_inode [OF inv1 i] and store1 = fs_inv_store [OF inv1]
  note geo = store_inv_dest [OF store1]
  let ?b = "ilist_at d i"
  have count: "fcount_blocks d1 i = 0"
    using s(3) by (simp add: fcount_blocks_def blockcount_nonneg)
  have own1: "own d1 i = {?b}"
    unfolding own_def count s(4) by (simp add: empty_slots)
  obtain d2 where a: "ino_free d1 i = Some d2" "store_inv d2 F1 (i # Is)" "framed {0, ilist_block i} d1 d2"
      "\<forall>j. valid_ino d1 j \<longrightarrow> j \<noteq> i \<longrightarrow> ilist_at d2 j = ilist_at d1 j"
    using ino_free_spec [OF store1 f1(2,3)] by blast
  have b: "data_block d2 ?b" "?b \<notin> F1"
    using framed_dev(5) [OF a(3)] f1(4,5) s(4) by simp_all
  obtain d3 where c: "block_free d2 ?b = Some d3" "store_inv d3 (insert ?b F1) (i # Is)" "framed (insert 0 (insert ?b F1)) d2 d3"
    using block_free_spec [OF a(2) b] by blast
  let ?S = "{0, ilist_block i} \<union> insert 0 (insert ?b F1)"
  have ch: "changed ?S d1 d3"
    by (rule changed_trans [OF framed_changed [OF a(3)] framed_changed [OF c(3)]])
  have others: "\<forall>j \<in> A - {i}. ilist_at d3 j = ilist_at d1 j \<and> own d1 j \<inter> ?S = {}"
  proof
    fix j assume j: "j \<in> A - {i}"
    then have v: "valid_ino d1 j"
      using fs_inv_inode(2) [OF inv1] by simp
    have "own d1 j \<inter> F1 = {}" "own d1 j \<inter> own d1 i = {}" "0 \<notin> own d1 j" "ilist_block i \<notin> own d1 j"
      using fs_inv_own [OF inv1, of j] fs_inv_own(2) [OF inv1 i, of j] j zero_not_data_block [of d1]
        ilist_block_unat(5) [OF geo(2) f1(2)] by auto
    moreover have "ilist_at d3 j = ilist_at d2 j"
    proof -
      have "store_geometry d2" "valid_ino d2 j"
        using store_inv_dest(2) [OF a(2)] framed_dev(6) [OF a(3)] v by simp_all
      moreover have "insert 0 (insert ?b F1) \<subseteq> insert 0 {b. data_block d2 b}"
        using b(1) store_inv_dest(5) [OF a(2)] by auto
      ultimately show ?thesis
        using ilist_at_changed [OF _ framed_changed [OF c(3)]] by blast
    qed
    ultimately show "ilist_at d3 j = ilist_at d1 j \<and> own d1 j \<inter> ?S = {}"
      using a(4) v j own1 by auto
  qed
  have blocks: "insert ?b F1 \<union> (if i \<in> {} then own d3 i else {}) = F1 \<union> (if i \<in> A then own d1 i else {})"
    using own1 i by auto
  have inos: "set (i # Is) \<inter> {} = {}" "set (i # Is) \<union> {} = set Is \<union> (A \<inter> {i})"
    using i by auto
  have step: "fs_inv d3 (insert ?b F1) (i # Is) (A - {i} \<union> {})" "j \<in> A - {i} \<Longrightarrow> same_file d1 d3 j" for j
    by (rule fs_inv_step [OF inv1 c(2) ch others empty_subsetI _ blocks inos]; simp)+
  have F': "insert ?b F1 = F \<union> own d i"
  proof -
    note rest1 = fs_inv_rest [OF inv1 i, unfolded own1] and rest = fs_inv_rest [OF inv i]
    have same: "own d1 ` (A - {i}) = own d ` (A - {i})" "data_block d1 = data_block d"
      using s(2) changed_dev(2) by (auto simp: fs_result_def same_file_def intro!: image_cong)
    have unique: "X \<inter> R = {} \<Longrightarrow> X \<union> R = D \<Longrightarrow> Y \<inter> R = {} \<Longrightarrow> Y \<union> R = D \<Longrightarrow> X = Y" for X Y R D :: "blockno set"
      by blast
    have "F1 \<union> {?b} = F \<union> own d i"
      by (rule unique [OF rest1 rest [folded same]])
    then show ?thesis
      by simp
  qed
  have "fs_result A i d1 d3 (F \<union> own d i) (i # Is) (A - {i})"
    using step ch changed_mono [OF ch] by (simp add: fs_result_def F')
  then have "fs_result A i d d3 (F \<union> own d i) (i # Is) (A - {i})"
    using fs_result_trans [OF s(2) _ Diff_subset] by blast
  moreover have "inode_free d i = Some (0, d3)"
    using load_inode_eq [OF inv i] unlinked s(1) a(1) c(1) by (simp add: inode_free_def)
  ultimately show ?thesis
    by blast
qed

end
