(* ===== verification/Posix.thy ===== *)
theory Posix
  imports Inode_Life
begin

text \<open>
  The constants of the C library on x86-64 Linux that the modules above the inodes use, C strings,
  and the state those modules add: what an uninitialised local buffer holds.
\<close>

section \<open>Constants\<close>

abbreviation (input) EPERM :: int where "EPERM \<equiv> 1"
abbreviation (input) ENOENT :: int where "ENOENT \<equiv> 2"
abbreviation (input) EIO :: int where "EIO \<equiv> 5"
abbreviation (input) EWOULDBLOCK :: int where "EWOULDBLOCK \<equiv> 11"
abbreviation (input) ENOMEM :: int where "ENOMEM \<equiv> 12"
abbreviation (input) EACCES :: int where "EACCES \<equiv> 13"
abbreviation (input) EEXIST :: int where "EEXIST \<equiv> 17"
abbreviation (input) ENOTDIR :: int where "ENOTDIR \<equiv> 20"
abbreviation (input) EISDIR :: int where "EISDIR \<equiv> 21"
abbreviation (input) EINVAL :: int where "EINVAL \<equiv> 22"
abbreviation (input) ENOSPC :: int where "ENOSPC \<equiv> 28"
abbreviation (input) ENAMETOOLONG :: int where "ENAMETOOLONG \<equiv> 36"
abbreviation (input) ENOTEMPTY :: int where "ENOTEMPTY \<equiv> 39"
abbreviation (input) ELOOP :: int where "ELOOP \<equiv> 40"

abbreviation (input) NAME_MAX :: "'a::numeral" where "NAME_MAX \<equiv> 255"
abbreviation (input) PATH_MAX :: "'a::numeral" where "PATH_MAX \<equiv> 4096"

text \<open>File types are the bits \<open>0170000\<close> of a mode; the octal \<open>0777\<close> is \<open>0x1FF\<close>, \<open>07777\<close> is \<open>0xFFF\<close>.\<close>

definition S_IFMT :: u32 where "S_IFMT = 0xF000"
definition S_IFREG :: u32 where "S_IFREG = 0x8000"
definition S_IFDIR :: u32 where "S_IFDIR = 0x4000"
definition S_IFLNK :: u32 where "S_IFLNK = 0xA000"

definition S_ISREG :: "u32 \<Rightarrow> bool" where "S_ISREG mode \<longleftrightarrow> mode AND S_IFMT = S_IFREG"
definition S_ISDIR :: "u32 \<Rightarrow> bool" where "S_ISDIR mode \<longleftrightarrow> mode AND S_IFMT = S_IFDIR"
definition S_ISLNK :: "u32 \<Rightarrow> bool" where "S_ISLNK mode \<longleftrightarrow> mode AND S_IFMT = S_IFLNK"

lemmas mode_defs = S_IFMT_def S_IFREG_def S_IFDIR_def S_IFLNK_def S_ISREG_def S_ISDIR_def S_ISLNK_def

lemma mode_types [simp]:
  "S_ISDIR (S_IFDIR OR 0x1FF)" "S_ISREG (S_IFREG OR 0x1FF)" "S_ISLNK (S_IFLNK OR 0x1FF)"
  by (simp_all add: mode_defs)

lemma mode_exclusive:
  "S_ISDIR m \<Longrightarrow> \<not> S_ISREG m" "S_ISDIR m \<Longrightarrow> \<not> S_ISLNK m" "S_ISREG m \<Longrightarrow> \<not> S_ISLNK m"
  by (simp_all add: mode_defs)

section \<open>C strings\<close>

text \<open>
  \<open>strlen\<close> of the string that starts at \<open>off\<close> in a buffer; a buffer without a NUL after
  \<open>off\<close> is read past its end.
\<close>

definition strlen :: "byte list \<Rightarrow> nat \<Rightarrow> nat option" where
  "strlen buf off = first_index (\<lambda>c. c = 0) (drop off buf)"

lemma strlen_Some:
  assumes "strlen buf off = Some n"
  shows "off + n < length buf" "buf ! (off + n) = 0" "0 \<notin> set (slice off n buf)"
proof -
  have i: "first_index (\<lambda>c. c = 0) (drop off buf) = Some n"
    using assms by (simp add: strlen_def)
  note d = first_index_SomeD [OF i]
  have le: "off \<le> length buf"
    using d(1) by (cases "off \<le> length buf") simp_all
  show "off + n < length buf" "buf ! (off + n) = 0"
    using d nth_drop [OF le, of n] by auto
  have "drop off buf ! k \<noteq> 0" if "k < n" for k
    using first_index_Some_before [OF i] that by blast
  then show "0 \<notin> set (slice off n buf)"
    using d by (auto simp: slice_def in_set_conv_nth)
qed

section \<open>Uninitialised buffers\<close>

text \<open>\<open>junk d n\<close> is what an uninitialised local buffer of one block holds at time \<open>n\<close>.\<close>

record posix_env = inode_env +
  junk :: "nat \<Rightarrow> byte list"

definition uninit :: "'x posix_env_scheme \<Rightarrow> nat \<Rightarrow> byte list" where
  "uninit d n = take n (junk d (ticks d) @ replicate n 0)"

lemma length_uninit [simp]: "length (uninit d n) = n"
  by (simp add: uninit_def)

end
