(* ===== verification/Inode_Typed.thy ===== *)
theory Inode_Typed
  imports Posix
begin

text \<open>
  What \<open>file.c\<close>, \<open>symlink.c\<close> and \<open>dir.c\<close> share: a new inode gets a type, and is freed again
  when its first bytes do not fit.
\<close>

section \<open>Small files\<close>

lemma slot_n_direct:
  assumes "0 \<le> bc" and "bc \<le> 496"
  shows "slot_n bc s = (if int s < bc then 1 else 0)"
proof -
  have "int (slot_n bc s) = (if int s < bc then 1 else 0)"
  proof (cases "s < 496")
    case True
    then show ?thesis
      using assms by (simp add: int_slot_n slot_level_def slot_first_def)
  next
    case False
    then have "496 \<le> slot_first s"
      by (simp add: slot_first_def)
    then show ?thesis
      using assms False by (simp add: int_slot_n)
  qed
  then show ?thesis
    by (simp split: if_splits)
qed

lemma slots_direct:
  assumes "0 \<le> bc" and "bc \<le> 496"
  shows "slots_count bc = nat bc" "slots_safe bc"
proof -
  have "tcount (slot_level s) (slot_n bc s) = (if s < nat bc then 1 else 0)" for s
    using assms by (auto simp: slot_n_direct slot_level_def)
  then have "slots_count bc = (\<Sum>s<499. if s < nat bc then 1 else 0)"
    by (simp add: slots_count_def)
  also have "\<dots> = card ({..<499} \<inter> {s. s < nat bc})"
    by (simp add: sum.If_cases)
  also have "{..<499} \<inter> {s. s < nat bc} = {..<nat bc}"
    using assms by auto
  finally show "slots_count bc = nat bc"
    by simp
  have "safe (slot_level s) (slot_n bc s)" for s
    using assms by (auto simp: slot_n_direct slot_level_def)
  then show "slots_safe bc"
    by (simp add: slots_safe_def)
qed

text \<open>A file in its direct slots needs as many free blocks as it gets longer.\<close>

lemma enough_direct:
  assumes "0 \<le> fsize d i" and "fsize d i \<le> 496 * BLOCKSIZE" and "0 \<le> sz" and "sz \<le> 496 * BLOCKSIZE"
  shows "enough d F i sz = (blockcount_of sz \<le> fcount_blocks d i + int (card F))" "slots_safe (fcount_blocks d i)"
proof -
  have bc: "0 \<le> blockcount_of x" "blockcount_of x \<le> 496" if "0 \<le> x" "x \<le> 496 * BLOCKSIZE" for x
    using that by (simp_all add: blockcount_nonneg)
  show "enough d F i sz = (blockcount_of sz \<le> fcount_blocks d i + int (card F))"
    using slots_direct(1) [OF bc] assms bc [of sz] bc [of "fsize d i"] by (simp add: enough_def fcount_blocks_def nat_le_eq_zle) linarith
  show "slots_safe (fcount_blocks d i)"
    using slots_direct(2) [OF bc [OF assms(1,2)]] by (simp add: fcount_blocks_def)
qed

section \<open>Allocating an inode of a type\<close>

definition fresh_attr :: "inode_t \<Rightarrow> u32 \<Rightarrow> bool" where
  "fresh_attr inode mode \<longleftrightarrow> imode inode = mode \<and> iowner inode = 0 \<and> igroup inode = 0 \<and> inlinks inode = 0"

lemma allocate_typed:
  assumes inv: "fs_inv d F (i # Is) A" and free: "F \<noteq> {}"
  shows "\<exists>d1 d2 b. inode_allocate d = Some (i, d1) \<and> 0 \<le> sint i \<and> i \<noteq> EOF \<and> inode_chmod d1 i mode = Some (0, d2) \<and>
    b \<in> F \<and> fs_result A i d d2 (F - {b}) Is (insert i A) \<and> i \<notin> A \<and> fresh_attr (inode_at d2 i) mode \<and> content d2 i = [] \<and> fsize d2 i = 0"
proof -
  obtain d1 b where d1: "inode_allocate d = Some (i, d1)" "b \<in> F" "fs_result A i d d1 (F - {b}) Is (insert i A)" "i \<notin> A"
      "inode_at d1 i = new_inode (fst (now d))" "content d1 i = []"
    using inode_allocate_spec [OF assms] by blast
  have inv1: "fs_inv d1 (F - {b}) Is (insert i A)"
    using d1(3) by (simp add: fs_result_def)
  obtain d2 where d2: "inode_chmod d1 i mode = Some (0, d2)"
      "meta_result (insert i A) i d1 d2 (F - {b}) Is ((inode_at d1 i)\<lparr>imode := mode, last_statchange := fst (now d1)\<rparr>)"
    using inode_chmod_spec [OF inv1] by blast
  have "fs_result A i d d2 (F - {b}) Is (insert i A)"
    using fs_result_trans [OF d1(3), of d2 "F - {b}" Is "insert i A"] d2(2) by (auto simp: meta_result_def)
  moreover have at: "inode_at d2 i = (new_inode (fst (now d)))\<lparr>imode := mode, last_statchange := fst (now d1)\<rparr>" "content d2 i = []"
    using d1(5,6) d2(2) by (simp_all add: meta_result_def)
  moreover have "0 \<le> sint i" "i \<noteq> EOF"
    using valid_ino_unat(2,3) [OF _ fs_inv_inode(2) [OF inv1, of i]] fs_inv_store [OF inv1] by (simp_all add: store_inv_def)
  ultimately show ?thesis
    using d1(1,2,4) d2(1) by (auto simp: new_inode_def fsize_def fresh_attr_def)
qed

text \<open>Giving the inode back when its first bytes do not fit.\<close>

lemma free_typed:
  assumes res: "fs_result A i d d' F' Is (insert i A)" and new: "i \<notin> A" "inlinks (inode_at d' i) = 0"
  shows "\<exists>d''. inode_free d' i = Some (0, d'') \<and> fs_result A i d d'' (F' \<union> own d' i) (i # Is) A"
proof -
  have inv: "fs_inv d' F' Is (insert i A)"
    using res by (simp add: fs_result_def)
  obtain d'' where "inode_free d' i = Some (0, d'')"
      "fs_result (insert i A) i d' d'' (F' \<union> own d' i) (i # Is) (insert i A - {i})"
    using inode_free_spec [OF inv _ new(2)] by auto
  moreover have "insert i A - {i} = A" "A - {i} \<subseteq> insert i A"
    using new(1) by auto
  ultimately show ?thesis
    using fs_result_trans [OF res] by metis
qed

section \<open>A new inode with its first bytes\<close>

text \<open>Every block of the disk that no inode owns is free: the files determine the free blocks.\<close>

lemma free_determined:
  assumes "fs_inv d F Is A" and "fs_inv d' F' Is' A" and "\<forall>j \<in> A. same_file d d' j" and "data_block d' = data_block d"
  shows "F' = F"
proof -
  have "own d' ` A = own d ` A"
    using assms(3) by (auto simp: same_file_def image_def)
  moreover have "F = {b. data_block d b} - \<Union> (own d ` A)" "F' = {b. data_block d' b} - \<Union> (own d' ` A)"
    using assms(1,2) by (auto simp: fs_inv_def)
  ultimately show ?thesis
    using assms(4) by simp
qed

text \<open>A new inode with its first bytes, or no inode at all.\<close>

lemma create_bytes:
  assumes inv: "fs_inv d F (i # Is) A" and room: "blockcount_of (int n) < int (card F)" "int n \<le> 496 * BLOCKSIZE"
    and bs: "length bs = n"
  shows "\<exists>d1 d2 d3 F'. inode_allocate d = Some (i, d1) \<and> 0 \<le> sint i \<and> i \<noteq> EOF \<and> inode_chmod d1 i mode = Some (0, d2) \<and>
    inode_write d2 i 0 (Some bs) (int n) = Some (int n, d3) \<and> fs_result A i d d3 F' Is (insert i A) \<and> i \<notin> A \<and>
    fresh_attr (inode_at d3 i) mode \<and> content d3 i = bs"
proof -
  have "0 \<le> blockcount_of (int n)"
    by (simp add: blockcount_nonneg)
  then have "F \<noteq> {}"
    using room(1) by auto
  then obtain d1 d2 b where d2: "inode_allocate d = Some (i, d1)" "0 \<le> sint i" "i \<noteq> EOF" "inode_chmod d1 i mode = Some (0, d2)"
    "b \<in> F" "fs_result A i d d2 (F - {b}) Is (insert i A)" "i \<notin> A" "fresh_attr (inode_at d2 i) mode"
    "content d2 i = []" "fsize d2 i = 0"
    using allocate_typed [OF inv] by blast
  have inv2: "fs_inv d2 (F - {b}) Is (insert i A)"
    using d2(6) by (simp add: fs_result_def)
  have "enough d2 (F - {b}) i (int n)"
    using enough_direct(1) [of d2 i "int n" "F - {b}"] d2(5,10) room by (simp add: fcount_blocks_def blockcount_nonneg)
  moreover have "int 0 + int n \<le> MAX_FILESIZE" "data_fits (Some bs) (int n)" "data_bytes (Some bs) n = bs"
    using room(2) bs by (simp_all add: MAX_FILESIZE_def data_fits_def data_bytes_def)
  ultimately obtain d3 F' where d3: "inode_write d2 i 0 (Some bs) (int n) = Some (int n, d3)" "fs_result (insert i A) i d2 d3 F' Is (insert i A)"
    "same_attr (inode_at d2 i) (inode_at d3 i)" "content d3 i = write_bytes [] 0 bs"
    using inode_write_spec [OF inv2, of i 0 0 n "Some bs"] d2(9) by auto
  have "fs_result A i d d3 F' Is (insert i A)"
    using fs_result_trans [OF d2(6) d3(2)] by blast
  then show ?thesis
    using d2(1-4,7,8) d3(1,3,4) by (auto simp: same_attr_def write_bytes_def fresh_attr_def)
qed

lemma create_rollback:
  assumes inv: "fs_inv d F (i # Is) A" and free: "F \<noteq> {}" and full: "int (card F) \<le> blockcount_of (int n)" "int n \<le> 496 * BLOCKSIZE"
  shows "\<exists>d1 d2 d3 d4. inode_allocate d = Some (i, d1) \<and> 0 \<le> sint i \<and> inode_chmod d1 i mode = Some (0, d2) \<and>
    inode_write d2 i 0 data (int n) = Some (0, d3) \<and> inode_free d3 i = Some (0, d4) \<and>
    fs_inv d4 F (i # Is) A \<and> (\<forall>j \<in> A. same_file d d4 j) \<and> changed UNIV d d4"
proof -
  obtain d1 d2 b where d2: "inode_allocate d = Some (i, d1)" "0 \<le> sint i" "inode_chmod d1 i mode = Some (0, d2)"
    "b \<in> F" "fs_result A i d d2 (F - {b}) Is (insert i A)" "i \<notin> A" "inlinks (inode_at d2 i) = 0" "fsize d2 i = 0"
    using allocate_typed [OF inv free, of mode] unfolding fresh_attr_def by blast
  have inv2: "fs_inv d2 (F - {b}) Is (insert i A)"
    using d2(5) by (simp add: fs_result_def)
  have "card (F - {b}) < card F"
    using d2(4) by (intro psubset_card_mono) auto
  then have "\<not> enough d2 (F - {b}) i (0 + int n)" "slots_safe (fcount_blocks d2 i)"
    using enough_direct(1) [of d2 i "int n" "F - {b}"] enough_direct(2) [of d2 i "int n"] d2(8) full by (simp_all add: fcount_blocks_def blockcount_nonneg)
  moreover have "0 + int n \<le> MAX_FILESIZE"
    using full(2) by (simp add: MAX_FILESIZE_def)
  ultimately obtain d3 F' where d3: "inode_write d2 i 0 data (int n) = Some (0, d3)" "fs_result (insert i A) i d2 d3 F' Is (insert i A)"
    "same_attr (inode_at d2 i) (inode_at d3 i)"
    using inode_write_full [OF inv2, of i 0 "int n" data] d2(8) by auto
  have "fs_result A i d d3 F' Is (insert i A)"
    using fs_result_trans [OF d2(5) d3(2)] by blast
  moreover have "inlinks (inode_at d3 i) = 0"
    using d3(3) d2(7) by (simp add: same_attr_def)
  ultimately obtain d4 where d4: "inode_free d3 i = Some (0, d4)" "fs_result A i d d4 (F' \<union> own d3 i) (i # Is) A"
    using free_typed [OF _ d2(6)] by blast
  have files: "\<forall>j \<in> A. same_file d d4 j"
    using d4(2) d2(6) by (simp add: fs_result_def)
  have ch: "changed UNIV d d4"
    using d4(2) by (simp add: fs_result_def)
  then have dev: "data_block d4 = data_block d"
    by (rule changed_dev(2))
  have "fs_inv d4 (F' \<union> own d3 i) (i # Is) A"
    using d4(2) by (simp add: fs_result_def)
  then have "fs_inv d4 F (i # Is) A"
    using free_determined [OF inv _ files dev] by metis
  then show ?thesis
    using d2(1-3) d3(1) d4(1) files ch by blast
qed

end
