(* ===== verification/Space.thy ===== *)
theory Space
  imports Inode_Typed
begin

text \<open>
  Block accounting: what a file uses is determined by its size, and the free blocks are the
  others.  \<open>block_stat\<close> reports these numbers.
\<close>

lemma card_slots_set:
  assumes "slots_ok d blocks bc"
  shows "card (slots_set d blocks bc) = slots_count bc"
  using assms unfolding gset_def slots_count_def
  by (subst card_UN_disjoint) (auto simp: gforest_def card_tset)

lemma card_own:
  assumes "inode_good d i"
  shows "card (own d i) = Suc (slots_count (fcount_blocks d i))"
  using assms card_slots_set [of d "iblocks (inode_at d i)" "fcount_blocks d i"] by (simp add: own_def inode_good_def)

definition data_blocks :: "'x disk_t_scheme \<Rightarrow> nat" where
  "data_blocks d = unat (nblocks d) - unat (ilist_size (super d)) - 1"

lemma card_word_range:
  assumes "hi \<le> 2 ^ 64"
  shows "card {b :: u64. lo \<le> unat b \<and> unat b < hi} = hi - lo"
proof -
  have "unat (of_nat k :: u64) = k" if "k < hi" for k
    using that assms by (simp add: unat_of_nat)
  then have "k \<in> unat ` {b :: u64. lo \<le> unat b \<and> unat b < hi}" if "k \<in> {lo..<hi}" for k
    using that by (intro image_eqI [of _ _ "of_nat k"]) simp_all
  then have "unat ` {b :: u64. lo \<le> unat b \<and> unat b < hi} = {lo..<hi}"
    by auto
  moreover have "inj_on unat {b :: u64. lo \<le> unat b \<and> unat b < hi}"
    by (simp add: inj_on_def word_unat_eq_iff)
  ultimately show ?thesis
    using card_image [of unat "{b :: u64. lo \<le> unat b \<and> unat b < hi}"] by simp
qed

lemma card_all_data_blocks:
  assumes "store_geometry d"
  shows "card {b. data_block d b} = data_blocks d"
proof -
  have "unat (nblocks d) * 4096 < 2 ^ 63"
    using assms unfolding store_geometry_def wf_disk_def by blast
  then have "unat (nblocks d) \<le> 2 ^ 64"
    by simp
  from card_word_range [OF this, of "Suc (unat (ilist_size (super d)))"] show ?thesis
    by (simp add: data_blocks_def data_block_def word_less_nat_alt Suc_le_eq)
qed

theorem block_accounting:
  assumes inv: "fs_inv d F Is A"
  shows "card F + (\<Sum>i \<in> A. Suc (slots_count (fcount_blocks d i))) = data_blocks d"
proof -
  have A: "finite A"
    by simp
  have "card (\<Union> (own d ` A)) = (\<Sum>i \<in> A. card (own d i))"
    using inv by (intro card_UN_disjoint) (auto simp: fs_inv_def)
  also have "\<dots> = (\<Sum>i \<in> A. Suc (slots_count (fcount_blocks d i)))"
    using fs_inv_inode(1) [OF inv] by (intro sum.cong) (simp_all add: card_own)
  finally have "card (\<Union> (own d ` A)) = (\<Sum>i \<in> A. Suc (slots_count (fcount_blocks d i)))" .
  moreover have "F \<inter> \<Union> (own d ` A) = {}" "F \<union> \<Union> (own d ` A) = {b. data_block d b}"
    using inv by (auto simp: fs_inv_def)
  moreover have "store_geometry d"
    using fs_inv_store [OF inv] by (simp add: store_inv_def)
  ultimately show ?thesis
    using card_Un_disjoint [of F "\<Union> (own d ` A)"] card_all_data_blocks [of d] by simp
qed

theorem block_stat_spec:
  assumes inv: "fs_inv d F Is A"
  shows "\<exists>st. block_stat d = Some st \<and> unat (f_blocks st) = unat (nblocks d) \<and>
    unat (f_bfree st) + (\<Sum>i \<in> A. Suc (slots_count (fcount_blocks d i))) = data_blocks d \<and> f_bavail st = f_bfree st \<and>
    unat (f_files st) = unat (ilist_size (super d)) * 512 \<and> unat (f_ffree st) + card A = unat (f_files st) \<and> f_favail st = f_ffree st"
proof -
  have store: "store_geometry d" "unat (free_blocks (super d)) = card F" "unat (free_inodes (super d)) = length Is" "distinct Is"
    using fs_inv_store [OF inv] by (simp_all add: store_inv_def free_blocks_rep_def free_inos_rep_def)
  have wf: "wf_disk d" "unat (ilist_size (super d)) + 1 < unat (nblocks d)"
    using store(1) by (simp_all add: store_geometry_def)
  have small: "unat (ilist_size (super d)) * 512 < 2 ^ 64"
    using wf by (simp add: wf_disk_def)
  have files: "unat (ilist_size (super d) * 512) = unat (ilist_size (super d)) * 512"
    using small by (simp add: unat_word_ariths)
  have "card (set Is) + card A = card {i. valid_ino d i}"
    using inv card_Un_disjoint [of "set Is" A] by (simp add: fs_inv_def)
  moreover have "card {i. valid_ino d i} = unat (ilist_size (super d)) * 512"
    using card_word_range [of "unat (ilist_size (super d)) * 512" 0] small by (simp add: valid_ino_def)
  ultimately have inos: "length Is + card A = unat (ilist_size (super d)) * 512"
    using store(4) by (simp add: distinct_card)
  have "0 < nblocks d"
    using wf(2) by (simp add: word_less_nat_alt)
  then have "read_block d 0 = Some (blk d 0)"
    using wf(1) by (simp add: read_block_wf)
  then show ?thesis
    using store(2,3) files inos block_accounting [OF inv] by (simp add: block_stat_def Let_def super_def)
qed

section \<open>A file that grows or shrinks\<close>

lemma result_card:
  assumes "fs_inv d F Is A" and "fs_result A i d d' F' Is' A" and "i \<in> A"
  shows "card F + slots_count (fcount_blocks d i) = card F' + slots_count (fcount_blocks d' i)"
proof -
  have inv': "fs_inv d' F' Is' A"
    using assms(2) by (simp add: fs_result_def)
  have "fsize d' j = fsize d j" if "j \<in> A - {i}" for j
    using assms(2) that by (auto simp: fs_result_def same_file_def fsize_def)
  then have "(\<Sum>j \<in> A - {i}. Suc (slots_count (fcount_blocks d' j))) = (\<Sum>j \<in> A - {i}. Suc (slots_count (fcount_blocks d j)))"
    by (intro sum.cong) (simp_all add: fcount_blocks_def)
  moreover have "data_blocks d' = data_blocks d"
    using assms(2) by (simp add: fs_result_def changed_def data_blocks_def)
  moreover have "(\<Sum>j \<in> A. g j) = g i + (\<Sum>j \<in> A - {i}. g j)" for g :: "ino \<Rightarrow> nat"
    by (rule sum.remove) (simp_all add: assms(3))
  ultimately show ?thesis
    using block_accounting [OF assms(1)] block_accounting [OF inv'] by simp
qed

section \<open>A new inode\<close>

lemma slots_count_1: "slots_count 1 = 1"
  by (simp add: slots_direct)

text \<open>A new inode with one block takes two.\<close>

lemma one_block_free:
  assumes "fs_inv d F (i # Is) A" and "fs_result A i d d' F' Is (insert i A)" and "i \<notin> A" and "slots_count (fcount_blocks d' i) = 1"
  shows "card F = card F' + 2"
proof -
  have inv': "fs_inv d' F' Is (insert i A)"
    using assms(2) by (simp add: fs_result_def)
  have "fsize d' j = fsize d j" if "j \<in> A" for j
    using assms(2,3) that by (auto simp: fs_result_def same_file_def fsize_def)
  then have "(\<Sum>j \<in> A. Suc (slots_count (fcount_blocks d' j))) = (\<Sum>j \<in> A. Suc (slots_count (fcount_blocks d j)))"
    by (intro sum.cong) (simp_all add: fcount_blocks_def)
  moreover have "data_blocks d' = data_blocks d"
    using assms(2) by (simp add: fs_result_def changed_def data_blocks_def)
  ultimately show ?thesis
    using block_accounting [OF assms(1)] block_accounting [OF inv'] assms(3,4) by simp
qed

end
