(* ===== verification/Dir.thy ===== *)
theory Dir
  imports Posix
begin

text \<open>
  Directories (\<open>dir.c\<close>): files of blocks that hold up to 128 inode numbers and the table of
  their NUL-terminated names.  Every function is the C function of the same name; a name is the
  byte list of length \<open>namesize\<close>.
\<close>

section \<open>Directory blocks\<close>

abbreviation ENTRIES_PER_DIR_BLOCK :: "'a::numeral" where "ENTRIES_PER_DIR_BLOCK \<equiv> 128"
abbreviation NAMESPACE_PER_DIR_BLOCK :: "'a::numeral" where "NAMESPACE_PER_DIR_BLOCK \<equiv> 3072"

record dir_map_block =
  numbers :: "ino list"
  names :: "byte list"

definition dir_block_ok :: "dir_map_block \<Rightarrow> bool" where
  "dir_block_ok b \<longleftrightarrow> length (numbers b) = ENTRIES_PER_DIR_BLOCK \<and> length (names b) = NAMESPACE_PER_DIR_BLOCK"

definition enc_dir :: "dir_map_block \<Rightarrow> byte list" where
  "enc_dir b = bytes_of_words (numbers b) @ names b"

definition dec_dir :: "byte list \<Rightarrow> dir_map_block" where
  "dec_dir bs = \<lparr>numbers = words_of_bytes ENTRIES_PER_DIR_BLOCK bs, names = slice 1024 NAMESPACE_PER_DIR_BLOCK bs\<rparr>"

interpretation dir_codec: block_codec enc_dir dec_dir dir_block_ok
proof unfold_locales
  fix s :: dir_map_block
  assume ok: "dir_block_ok s"
  then show "length (enc_dir s) = BLOCKSIZE"
    by (simp add: enc_dir_def dir_block_ok_def)
  show "dec_dir (enc_dir s) = s"
    using ok words_of_bytes_of_words_append [of "numbers s" "names s"]
    by (simp add: enc_dir_def dec_dir_def dir_block_ok_def slice_append_right)
next
  fix b :: "byte list"
  assume "length b = BLOCKSIZE"
  then show "dir_block_ok (dec_dir b)"
    by (simp add: dec_dir_def dir_block_ok_def)
qed

section \<open>Creating and destroying directories\<close>

definition DOT :: byte where "DOT = 46"

definition new_dir_block :: "ino \<Rightarrow> ino \<Rightarrow> dir_map_block" where
  "new_dir_block parent directory =
    \<lparr>numbers = [parent, directory] @ replicate (ENTRIES_PER_DIR_BLOCK - 2) EOF,
     names = [DOT, DOT, 0] @ [DOT, 0] @ replicate (NAMESPACE_PER_DIR_BLOCK - 5) 0\<rparr>"

definition dir_create :: "'x posix_env_scheme \<Rightarrow> ino \<Rightarrow> (ino \<times> 'x posix_env_scheme) option" where
  "dir_create d parent =
    do { (directory, d) \<leftarrow> inode_allocate d;
         if sint directory < 0 then Some (of_int (- ENOSPC), d)
         else
           do { (res, d) \<leftarrow> inode_chmod d directory (S_IFDIR OR 0x1FF);
                if res \<noteq> 0 then None
                else
                  do { (n, d) \<leftarrow> inode_write d directory 0 (Some (enc_dir (new_dir_block parent directory))) BLOCKSIZE;
                       if n \<noteq> BLOCKSIZE then
                         do { (res, d) \<leftarrow> inode_free d directory;
                              if res = 0 then Some (of_int (- ENOSPC), d) else None }
                       else Some (directory, d) } } }"

text \<open>
  The first checks of most operations: the inode exists, is a directory and (\<open>alive\<close>) has not
  been destroyed.  \<open>Inl\<close> is the error returned.
\<close>

definition dir_check :: "'x posix_env_scheme \<Rightarrow> ino \<Rightarrow> bool \<Rightarrow> (int + inode_info) option" where
  "dir_check d directory alive =
    do { info \<leftarrow> inode_getinfo d directory;
         case info of
           None \<Rightarrow> Some (Inl (- ENOENT))
         | Some info \<Rightarrow>
             Some (if \<not> S_ISDIR (imode info) then Inl (- ENOTDIR)
                   else if alive \<and> sint (isize info) < BLOCKSIZE then Inl (- ENOENT)
                   else Inr info) }"

text \<open>\<open>assert(inode_read(...) == sizeof(block))\<close>\<close>

definition dir_read_block :: "'x posix_env_scheme \<Rightarrow> ino \<Rightarrow> (dir_map_block \<times> 'x posix_env_scheme) option" where
  "dir_read_block d directory =
    do { (n, buf, d) \<leftarrow> inode_read d directory 0 (uninit d BLOCKSIZE) BLOCKSIZE;
         if n = BLOCKSIZE then Some (dec_dir buf, d) else None }"

definition dir_destroy :: "'x posix_env_scheme \<Rightarrow> ino \<Rightarrow> (int \<times> 'x posix_env_scheme) option" where
  "dir_destroy d directory =
    do { checked \<leftarrow> dir_check d directory True;
         case checked of
           Inl e \<Rightarrow> Some (e, d)
         | Inr info \<Rightarrow>
             if BLOCKSIZE < sint (isize info) then Some (- ENOTEMPTY, d)
             else
               do { (block, d) \<leftarrow> dir_read_block d directory;
                    if numbers block ! 2 \<noteq> EOF then Some (- ENOTEMPTY, d)
                    else
                      do { (res, d) \<leftarrow> inode_truncate d directory (BLOCKSIZE - 1);
                           if res = BLOCKSIZE - 1 then Some (0, d) else None } } }"

definition dir_reparent :: "'x posix_env_scheme \<Rightarrow> ino \<Rightarrow> ino \<Rightarrow> (int \<times> 'x posix_env_scheme) option" where
  "dir_reparent d directory new_parent =
    do { checked \<leftarrow> dir_check d directory True;
         case checked of
           Inl e \<Rightarrow> Some (e, d)
         | Inr info \<Rightarrow>
             do { (block, d) \<leftarrow> dir_read_block d directory;
                  if numbers block ! 1 \<noteq> directory then None
                  else
                    do { let block = block\<lparr>numbers := (numbers block)[0 := new_parent]\<rparr>;
                         (n, d) \<leftarrow> inode_write d directory 0 (Some (enc_dir block)) BLOCKSIZE;
                         if n = BLOCKSIZE then Some (0, d) else None } } }"

section \<open>Searching a block\<close>

text \<open>
  The loop over the entries of a block, from entry \<open>i\<close> whose name is at \<open>nameoff\<close>:
  \<open>Inl (i, nameoff)\<close> is the entry with the name, \<open>Inr\<close> where the loop ended without one.
\<close>

primrec dir_scan ::
  "ino list \<Rightarrow> byte list \<Rightarrow> byte list \<Rightarrow> nat \<Rightarrow> nat \<Rightarrow> ((nat \<times> nat) + (nat \<times> nat)) option" where
  "dir_scan [] nms name i nameoff = Some (Inr (i, nameoff))"
| "dir_scan (number # ns) nms name i nameoff =
    (if number = EOF then Some (Inr (i, nameoff))
     else
       do { curlen \<leftarrow> strlen nms nameoff;
            if curlen = length name \<and> slice nameoff (length name) nms = name then Some (Inl (i, nameoff))
            else dir_scan ns nms name (i + 1) (nameoff + curlen + 1) })"

definition dir_find :: "dir_map_block \<Rightarrow> byte list \<Rightarrow> ((nat \<times> nat) + (nat \<times> nat)) option" where
  "dir_find block name = dir_scan (numbers block) (names block) name 0 0"

section \<open>Lookup\<close>

text \<open>
  The loops run until a read returns less than a block (\<open>dir_lookup\<close>: nothing).  \<open>buf\<close> is the
  local block, which keeps its old bytes where a short read leaves them.
\<close>

partial_function (option) dir_lookup_loop ::
  "ino \<Rightarrow> byte list \<Rightarrow> int \<Rightarrow> byte list \<Rightarrow> 'x posix_env_scheme \<Rightarrow> (ino \<times> 'x posix_env_scheme) option" where
  "dir_lookup_loop directory name pos buf d =
    do { (n, buf, d) \<leftarrow> inode_read d directory pos buf BLOCKSIZE;
         if 0 < n then
           do { found \<leftarrow> dir_find (dec_dir buf) name;
                case found of
                  Inl (i, _) \<Rightarrow> Some (numbers (dec_dir buf) ! i, d)
                | Inr _ \<Rightarrow> dir_lookup_loop directory name (pos + BLOCKSIZE) buf d }
         else Some (of_int (- ENOENT), d) }"

definition dir_lookup :: "'x posix_env_scheme \<Rightarrow> ino \<Rightarrow> byte list \<Rightarrow> (ino \<times> 'x posix_env_scheme) option" where
  "dir_lookup d directory name =
    do { checked \<leftarrow> dir_check d directory False;
         case checked of
           Inl e \<Rightarrow> Some (of_int e, d)
         | Inr info \<Rightarrow>
             if NAME_MAX < length name then Some (of_int (- ENAMETOOLONG), d)
             else dir_lookup_loop directory name 0 (uninit d BLOCKSIZE) d }"

section \<open>Insertion\<close>

text \<open>
  \<open>best\<close> is \<open>None\<close> while \<open>bestpos\<close> is \<open>-1\<close>, and then the chosen block with its position,
  \<open>bestnameoff\<close> and \<open>besti\<close>.  The inner result is \<open>Inl\<close> for \<open>-EEXIST\<close>.
\<close>

type_synonym dir_best = "(dir_map_block \<times> int \<times> nat \<times> nat) option"

definition best_nameoff :: "dir_best \<Rightarrow> nat" where
  "best_nameoff best = (case best of None \<Rightarrow> 0 | Some (_, _, nameoff, _) \<Rightarrow> nameoff)"

definition better :: "dir_map_block \<Rightarrow> int \<Rightarrow> nat \<Rightarrow> nat \<Rightarrow> nat \<Rightarrow> dir_best \<Rightarrow> dir_best" where
  "better block pos i nameoff namesize best =
    (if i < ENTRIES_PER_DIR_BLOCK \<and> namesize < NAMESPACE_PER_DIR_BLOCK - nameoff \<and> best_nameoff best < nameoff
     then Some (block, pos, nameoff, i) else best)"

partial_function (option) dir_insert_loop ::
  "ino \<Rightarrow> byte list \<Rightarrow> int \<Rightarrow> byte list \<Rightarrow> dir_best \<Rightarrow> 'x posix_env_scheme \<Rightarrow>
    ((unit + int \<times> dir_best) \<times> 'x posix_env_scheme) option" where
  "dir_insert_loop directory name pos buf best d =
    do { (n, buf, d) \<leftarrow> inode_read d directory pos buf BLOCKSIZE;
         if n = BLOCKSIZE then
           do { let block = dec_dir buf;
                found \<leftarrow> dir_find block name;
                case found of
                  Inl _ \<Rightarrow> Some (Inl (), d)
                | Inr (i, nameoff) \<Rightarrow>
                    dir_insert_loop directory name (pos + BLOCKSIZE) buf (better block pos i nameoff (length name) best) d }
         else Some (Inr (pos, best), d) }"

definition empty_dir_block :: dir_map_block where
  "empty_dir_block = \<lparr>numbers = replicate ENTRIES_PER_DIR_BLOCK EOF, names = replicate NAMESPACE_PER_DIR_BLOCK 0\<rparr>"

definition insert_entry :: "dir_map_block \<Rightarrow> nat \<Rightarrow> nat \<Rightarrow> byte list \<Rightarrow> ino \<Rightarrow> dir_map_block" where
  "insert_entry block i nameoff name target =
    block\<lparr>names := patch nameoff name (names block), numbers := (numbers block)[i := target]\<rparr>"

definition dir_insert :: "'x posix_env_scheme \<Rightarrow> ino \<Rightarrow> byte list \<Rightarrow> ino \<Rightarrow> (int \<times> 'x posix_env_scheme) option" where
  "dir_insert d directory name target =
    do { checked \<leftarrow> dir_check d directory True;
         case checked of
           Inl e \<Rightarrow> Some (e, d)
         | Inr info \<Rightarrow>
             if NAME_MAX < length name then Some (- ENAMETOOLONG, d)
             else
               do { (found, d) \<leftarrow> dir_insert_loop directory name 0 (uninit d BLOCKSIZE) None d;
                    case found of
                      Inl _ \<Rightarrow> Some (- EEXIST, d)
                    | Inr (endpos, best) \<Rightarrow>
                        (let (block, pos, nameoff, i) =
                           (case best of None \<Rightarrow> (empty_dir_block, endpos, 0, 0) | Some b \<Rightarrow> b) in
                         do { (n, d) \<leftarrow> inode_write d directory pos (Some (enc_dir (insert_entry block i nameoff name target))) BLOCKSIZE;
                              if n \<noteq> BLOCKSIZE then Some (- ENOSPC, d) else Some (0, d) }) } }"

section \<open>Removal\<close>

definition remove_entry :: "dir_map_block \<Rightarrow> nat \<Rightarrow> nat \<Rightarrow> nat \<Rightarrow> dir_map_block" where
  "remove_entry block i nameoff namesize =
    \<lparr>numbers = take i (numbers block) @ drop (i + 1) (numbers block) @ [EOF],
     names = take nameoff (names block) @ drop (nameoff + namesize + 1) (names block) @ replicate (namesize + 1) 0\<rparr>"

text \<open>\<open>empty_count\<close> counts the blocks without entries just before \<open>pos\<close>.\<close>

partial_function (option) dir_remove_loop ::
  "ino \<Rightarrow> byte list \<Rightarrow> inode_info \<Rightarrow> int \<Rightarrow> int \<Rightarrow> byte list \<Rightarrow> 'x posix_env_scheme \<Rightarrow>
    (ino \<times> 'x posix_env_scheme) option" where
  "dir_remove_loop directory name info pos empty_count buf d =
    do { (n, buf, d) \<leftarrow> inode_read d directory pos buf BLOCKSIZE;
         if n = BLOCKSIZE then
           do { let block = dec_dir buf;
                found \<leftarrow> dir_find block name;
                case found of
                  Inl (i, nameoff) \<Rightarrow>
                    (let res = numbers block ! i in
                     if i = 0 \<and> numbers block ! 1 = EOF \<and> pos + BLOCKSIZE = sint (isize info) then
                       do { (newsize, d) \<leftarrow> inode_truncate d directory (pos - empty_count * BLOCKSIZE);
                            if 0 \<le> newsize then Some (res, d) else None }
                     else
                       do { (n, d) \<leftarrow> inode_write d directory pos (Some (enc_dir (remove_entry block i nameoff (length name)))) BLOCKSIZE;
                            if n = BLOCKSIZE then Some (res, d) else None })
                | Inr (i, _) \<Rightarrow>
                    dir_remove_loop directory name info (pos + BLOCKSIZE) (if 0 < i then 0 else empty_count + 1) buf d }
         else Some (of_int (- ENOENT), d) }"

definition dir_remove :: "'x posix_env_scheme \<Rightarrow> ino \<Rightarrow> byte list \<Rightarrow> (ino \<times> 'x posix_env_scheme) option" where
  "dir_remove d directory name =
    do { checked \<leftarrow> dir_check d directory True;
         case checked of
           Inl e \<Rightarrow> Some (of_int e, d)
         | Inr info \<Rightarrow>
             if NAME_MAX < length name then Some (of_int (- ENAMETOOLONG), d)
             else if name = [DOT] then Some (of_int (- EINVAL), d)
             else if name = [DOT, DOT] then Some (of_int (- ENOTEMPTY), d)
             else dir_remove_loop directory name info 0 0 (uninit d BLOCKSIZE) d }"

section \<open>Enumeration\<close>

text \<open>The loop that looks for the next entry; \<open>None\<close> inside is the end of the directory.\<close>

partial_function (option) dir_enumerate_loop ::
  "ino \<Rightarrow> int \<Rightarrow> nat \<Rightarrow> byte list \<Rightarrow> 'x posix_env_scheme \<Rightarrow>
    ((dir_map_block \<times> int \<times> nat) option \<times> 'x posix_env_scheme) option" where
  "dir_enumerate_loop directory pos idx buf d =
    do { (n, buf, d) \<leftarrow> inode_read d directory pos buf BLOCKSIZE;
         if n = 0 then Some (None, d)
         else if numbers (dec_dir buf) ! idx \<noteq> EOF then Some (Some (dec_dir buf, pos, idx), d)
         else dir_enumerate_loop directory (pos + BLOCKSIZE) 0 buf d }"

primrec skip_names :: "byte list \<Rightarrow> nat \<Rightarrow> nat \<Rightarrow> nat option" where
  "skip_names nms 0 nameoff = Some nameoff"
| "skip_names nms (Suc k) nameoff = do { n \<leftarrow> strlen nms nameoff; skip_names nms k (nameoff + n + 1) }"

text \<open>
  \<open>namesize\<close> is the size of \<open>name_out\<close>.  The result is the next offset with \<open>*ino_out\<close> and
  the string in \<open>name_out\<close> when there is an entry.
\<close>

definition dir_enumerate ::
  "'x posix_env_scheme \<Rightarrow> ino \<Rightarrow> int \<Rightarrow> nat \<Rightarrow> (int \<times> (ino \<times> byte list) option \<times> 'x posix_env_scheme) option" where
  "dir_enumerate d directory offset namesize =
    (let off = (of_int offset :: u64);
         pos = sint (off div ENTRIES_PER_DIR_BLOCK * BLOCKSIZE);
         idx = unat (off mod ENTRIES_PER_DIR_BLOCK) in
     do { checked \<leftarrow> dir_check d directory False;
          case checked of
            Inl e \<Rightarrow> Some (e, None, d)
          | Inr info \<Rightarrow>
              do { (found, d) \<leftarrow> dir_enumerate_loop directory pos idx (uninit d BLOCKSIZE) d;
                   case found of
                     None \<Rightarrow> Some (0, None, d)
                   | Some (block, pos, idx) \<Rightarrow>
                       do { nameoff \<leftarrow> skip_names (names block) idx 0;
                            real_namesize \<leftarrow> strlen (names block) nameoff;
                            let real_namesize = (if 0 < namesize \<and> namesize - 1 < real_namesize then namesize - 1 else real_namesize);
                            Some (int idx + (pos div BLOCKSIZE * ENTRIES_PER_DIR_BLOCK) + 1,
                              Some (numbers block ! idx, slice nameoff real_namesize (names block)), d) } } })"

end
