(* ===== verification/Refs.thy ===== *)
theory Refs
  imports Dir
begin

text \<open>
  The table of open inodes (\<open>refs.c\<close>): 53 chains of nodes, each sorted by inode number, with a
  count of the references and the number of links as last set.
\<close>

section \<open>The table\<close>

abbreviation HASHMAP_SIZE :: "'a::numeral" where "HASHMAP_SIZE \<equiv> 53"

record open_file_node =
  node_inode :: ino
  refcount :: u32
  node_nlinks :: u64

record refs_env = posix_env +
  open_file_table :: "open_file_node list list"

definition bucket :: "ino \<Rightarrow> nat" where
  "bucket inode = unat (inode mod HASHMAP_SIZE)"

definition chain :: "'x refs_env_scheme \<Rightarrow> ino \<Rightarrow> open_file_node list" where
  "chain d inode = open_file_table d ! bucket inode"

definition set_chain :: "'x refs_env_scheme \<Rightarrow> ino \<Rightarrow> open_file_node list \<Rightarrow> 'x refs_env_scheme" where
  "set_chain d inode nodes = d\<lparr>open_file_table := (open_file_table d)[bucket inode := nodes]\<rparr>"

text \<open>
  \<open>find_node_loc\<close> returns the address of a pointer into the chain: the nodes before it and the
  nodes from it on.
\<close>

definition find_node_loc :: "'x refs_env_scheme \<Rightarrow> ino \<Rightarrow> open_file_node list \<times> open_file_node list" where
  "find_node_loc d inode =
    (takeWhile (\<lambda>n. node_inode n < inode) (chain d inode), dropWhile (\<lambda>n. node_inode n < inode) (chain d inode))"

definition find_node :: "'x refs_env_scheme \<Rightarrow> ino \<Rightarrow> open_file_node option" where
  "find_node d inode =
    (case snd (find_node_loc d inode) of
       [] \<Rightarrow> None
     | node # _ \<Rightarrow> if node_inode node \<noteq> inode then None else Some node)"

section \<open>Opening and closing\<close>

text \<open>A new node; \<open>malloc\<close> is taken to succeed (the source uses its result unchecked).\<close>

definition refs_open_new ::
  "'x refs_env_scheme \<Rightarrow> ino \<Rightarrow> open_file_node list \<Rightarrow> open_file_node list \<Rightarrow> (int \<times> 'x refs_env_scheme) option" where
  "refs_open_new d inode before target =
    do { info \<leftarrow> inode_getinfo d inode;
         case info of
           None \<Rightarrow> Some (-1, d)
         | Some info \<Rightarrow>
             (let newnode = \<lparr>node_inode = inode, refcount = 1, node_nlinks = inlinks info\<rparr> in
              Some (0, set_chain d inode (before @ newnode # target))) }"

definition refs_open :: "'x refs_env_scheme \<Rightarrow> ino \<Rightarrow> (int \<times> 'x refs_env_scheme) option" where
  "refs_open d inode =
    (let (before, target) = find_node_loc d inode in
     case target of
       [] \<Rightarrow> refs_open_new d inode before target
     | node # after \<Rightarrow>
         if node_inode node = inode
         then Some (0, set_chain d inode (before @ node\<lparr>refcount := refcount node + 1\<rparr> # after))
         else refs_open_new d inode before target)"

definition refs_close :: "'x refs_env_scheme \<Rightarrow> ino \<Rightarrow> (int \<times> 'x refs_env_scheme) option" where
  "refs_close d inode =
    (let (before, target) = find_node_loc d inode in
     case target of
       [] \<Rightarrow> Some (-1, d)
     | node # after \<Rightarrow>
         if node_inode node \<noteq> inode then Some (-1, d)
         else
           (let node = node\<lparr>refcount := refcount node - 1\<rparr> in
            if refcount node \<le> 0 then
              (let nlinks = node_nlinks node;
                   d = set_chain d inode (before @ after) in
               if nlinks = 0 then
                 do { (res, d) \<leftarrow> inode_free d inode;
                      if res < 0 then Some (- EIO, d) else Some (0, d) }
               else Some (0, d))
            else Some (0, set_chain d inode (before @ node # after))))"

section \<open>Links\<close>

definition set_nlinks :: "'x refs_env_scheme \<Rightarrow> ino \<Rightarrow> u64 \<Rightarrow> 'x refs_env_scheme" where
  "set_nlinks d inode n =
    (let (before, target) = find_node_loc d inode in
     case target of [] \<Rightarrow> d | node # after \<Rightarrow> set_chain d inode (before @ node\<lparr>node_nlinks := n\<rparr> # after))"

definition refs_link :: "'x refs_env_scheme \<Rightarrow> ino \<Rightarrow> (int \<times> 'x refs_env_scheme) option" where
  "refs_link d inode =
    (case find_node d inode of
       None \<Rightarrow> Some (-1, d)
     | Some node \<Rightarrow> do { (n, d) \<leftarrow> inode_link d inode; Some (0, set_nlinks d inode n) })"

definition refs_unlink :: "'x refs_env_scheme \<Rightarrow> ino \<Rightarrow> (int \<times> 'x refs_env_scheme) option" where
  "refs_unlink d inode =
    (case find_node d inode of
       None \<Rightarrow> Some (-1, d)
     | Some node \<Rightarrow> do { (n, d) \<leftarrow> inode_unlink d inode; Some (0, set_nlinks d inode n) })"

section \<open>Lookup and open\<close>

definition refs_dir_lookup_open :: "'x refs_env_scheme \<Rightarrow> ino \<Rightarrow> byte list \<Rightarrow> (ino \<times> 'x refs_env_scheme) option" where
  "refs_dir_lookup_open d directory name =
    do { (out, d) \<leftarrow> dir_lookup d directory name;
         if sint out < 0 then Some (out, d)
         else
           do { (ores, d) \<leftarrow> refs_open d out;
                if ores < 0 then Some (of_int ores, d) else Some (out, d) } }"

end
