(* ===== verification/Refs_Table.thy ===== *)
theory Refs_Table
  imports Refs
begin

text \<open>
  The table of open inodes as a finite map: the contract of a table of nodes (locale
  \<open>node_table\<close>), the chains of \<open>refs.c\<close> as its interpretation, and the four operations as updates
  of the map.
\<close>

section \<open>The contract of a table\<close>

locale node_table =
  fixes find :: "'t \<Rightarrow> 'k \<Rightarrow> 'n option"
    and put :: "'t \<Rightarrow> 'n \<Rightarrow> 't"
    and del :: "'t \<Rightarrow> 'k \<Rightarrow> 't"
    and key :: "'n \<Rightarrow> 'k"
    and ok :: "'t \<Rightarrow> bool"
  assumes find_put: "ok t \<Longrightarrow> find (put t n) = (find t)(key n \<mapsto> n)"
    and find_del: "ok t \<Longrightarrow> find (del t k) = (find t)(k := None)"
    and ok_put: "ok t \<Longrightarrow> ok (put t n)"
    and ok_del: "ok t \<Longrightarrow> ok (del t k)"
    and find_key: "ok t \<Longrightarrow> find t k = Some n \<Longrightarrow> key n = k"
begin

lemma find_put_same: "ok t \<Longrightarrow> find (put t n) (key n) = Some n"
  by (simp add: find_put)

lemma del_put_absent: "ok t \<Longrightarrow> find t (key n) = None \<Longrightarrow> find (del (put t n) (key n)) = find t"
  by (auto simp: find_put find_del ok_put)

lemma put_put: "ok t \<Longrightarrow> key m = key n \<Longrightarrow> find (put (put t n) m) = find (put t m)"
  by (simp add: find_put ok_put)

lemma put_back: "ok t \<Longrightarrow> find t (key n) = Some n \<Longrightarrow> find (put (put t m) n) = find t" if "key m = key n"
  using that by (auto simp: find_put ok_put fun_eq_iff)

end

section \<open>The chains\<close>

definition rest_after :: "ino \<Rightarrow> open_file_node list \<Rightarrow> open_file_node list" where
  "rest_after i target = (if target \<noteq> [] \<and> node_inode (hd target) = i then tl target else target)"

definition chain_put :: "open_file_node \<Rightarrow> open_file_node list \<Rightarrow> open_file_node list" where
  "chain_put n ns = takeWhile (\<lambda>m. node_inode m < node_inode n) ns @
     n # rest_after (node_inode n) (dropWhile (\<lambda>m. node_inode m < node_inode n) ns)"

definition chain_del :: "ino \<Rightarrow> open_file_node list \<Rightarrow> open_file_node list" where
  "chain_del i ns = takeWhile (\<lambda>m. node_inode m < i) ns @ rest_after i (dropWhile (\<lambda>m. node_inode m < i) ns)"

definition put_node :: "'x refs_env_scheme \<Rightarrow> open_file_node \<Rightarrow> 'x refs_env_scheme" where
  "put_node d n = set_chain d (node_inode n) (chain_put n (chain d (node_inode n)))"

definition del_node :: "'x refs_env_scheme \<Rightarrow> ino \<Rightarrow> 'x refs_env_scheme" where
  "del_node d i = set_chain d i (chain_del i (chain d i))"

abbreviation sorted_chain :: "open_file_node list \<Rightarrow> bool" where
  "sorted_chain ns \<equiv> sorted_wrt (<) (map node_inode ns)"

abbreviation find_inode :: "ino \<Rightarrow> open_file_node list \<Rightarrow> open_file_node option" where
  "find_inode i ns \<equiv> find (\<lambda>n. node_inode n = i) ns"

lemma chain_put_Cons: "chain_put n (m # ns) =
    (if node_inode m < node_inode n then m # chain_put n ns
     else if node_inode m = node_inode n then n # ns else n # m # ns)"
  by (simp add: chain_put_def rest_after_def)

lemma chain_put_Nil: "chain_put n [] = [n]"
  by (simp add: chain_put_def rest_after_def)

lemma chain_del_Cons: "chain_del i (m # ns) =
    (if node_inode m < i then m # chain_del i ns else if node_inode m = i then ns else m # ns)"
  by (simp add: chain_del_def rest_after_def)

lemma chain_del_Nil: "chain_del i [] = []"
  by (simp add: chain_del_def rest_after_def)

lemmas chain_simps = chain_put_Cons chain_put_Nil chain_del_Cons chain_del_Nil

lemma set_chain_put: "set (chain_put n ns) \<subseteq> insert n (set ns)"
  by (induction ns) (auto simp: chain_simps)

lemma set_chain_del: "set (chain_del i ns) \<subseteq> set ns"
  by (induction ns) (auto simp: chain_simps)

lemma sorted_chain_put: "sorted_chain ns \<Longrightarrow> sorted_chain (chain_put n ns)"
  using set_chain_put by (induction ns) (fastforce simp: chain_simps)+

lemma sorted_chain_del: "sorted_chain ns \<Longrightarrow> sorted_chain (chain_del i ns)"
  using set_chain_del by (induction ns) (fastforce simp: chain_simps)+

lemma find_chain_put:
  "sorted_chain ns \<Longrightarrow> find_inode j (chain_put n ns) = (if j = node_inode n then Some n else find_inode j ns)"
  by (induction ns) (auto simp: chain_simps)

lemma find_chain_del:
  "sorted_chain ns \<Longrightarrow> find_inode j (chain_del i ns) = (if j = i then None else find_inode j ns)"
proof (induction ns)
  case (Cons m ns)
  then show ?case
    by (auto simp: chain_simps find_None_iff find_None_iff2)
qed (simp add: chain_simps)

definition table_ok :: "'x refs_env_scheme \<Rightarrow> bool" where
  "table_ok d \<longleftrightarrow> length (open_file_table d) = 53 \<and>
     (\<forall>k < 53. sorted_chain (open_file_table d ! k) \<and>
       (\<forall>n \<in> set (open_file_table d ! k). bucket (node_inode n) = k))"

lemma bucket_less [simp]: "bucket i < 53"
  by (simp add: bucket_def unat_mod)

lemma chain_set_chain:
  "length (open_file_table d) = 53 \<Longrightarrow> chain (set_chain d i ns) j = (if bucket i = bucket j then ns else chain d j)"
  by (auto simp: chain_def set_chain_def nth_list_update)

lemma find_in_chain:
  assumes ok: "table_ok d"
  shows "find_node d i = find (\<lambda>n. node_inode n = i) (chain d i)"
proof -
  have "sorted_chain (chain d i)"
    using ok by (simp add: table_ok_def chain_def)
  then have "(case dropWhile (\<lambda>n. node_inode n < i) ns of [] \<Rightarrow> None | n # _ \<Rightarrow> if node_inode n \<noteq> i then None else Some n) =
      find (\<lambda>n. node_inode n = i) ns" if "ns = chain d i" for ns
    unfolding that [symmetric] by (induction ns) (auto simp: find_None_iff2)
  then show ?thesis
    by (simp add: find_node_def find_node_loc_def)
qed

lemma table_ok_chain: "table_ok d \<Longrightarrow> sorted_chain (chain d i)" "table_ok d \<Longrightarrow> length (open_file_table d) = 53"
  "table_ok d \<Longrightarrow> n \<in> set (chain d i) \<Longrightarrow> bucket (node_inode n) = bucket i"
  by (simp_all add: table_ok_def chain_def)

lemma table_ok_set_chain:
  assumes "table_ok d" and "sorted_chain ns" and "\<forall>n \<in> set ns. bucket (node_inode n) = bucket i"
  shows "table_ok (set_chain d i ns)"
  using assms by (auto simp: table_ok_def set_chain_def nth_list_update)

interpretation open_files: node_table find_node put_node del_node node_inode table_ok
proof unfold_locales
  fix t :: "'x refs_env_scheme" and n k
  assume ok: "table_ok t"
  note c = table_ok_chain [OF ok]
  show put: "table_ok (put_node t n)"
    unfolding put_node_def using c(1,3) set_chain_put [of n] sorted_chain_put
    by (intro table_ok_set_chain [OF ok]) fastforce+
  show del: "table_ok (del_node t k)"
    unfolding del_node_def using c(1,3) set_chain_del [of k] sorted_chain_del
    by (intro table_ok_set_chain [OF ok]) fastforce+
  show "find_node (put_node t n) = (find_node t)(node_inode n \<mapsto> n)"
  proof
    fix j
    have "chain t j = chain t (node_inode n)" if "bucket j = bucket (node_inode n)"
      using that by (simp add: chain_def)
    then show "find_node (put_node t n) j = ((find_node t)(node_inode n \<mapsto> n)) j"
      using find_chain_put [OF c(1)] unfolding find_in_chain [OF put] fun_upd_def find_in_chain [OF ok]
      by (auto simp: put_node_def chain_set_chain [OF c(2)])
  qed
  show "find_node (del_node t k) = (find_node t)(k := None)"
  proof
    fix j
    have "chain t j = chain t k" if "bucket j = bucket k"
      using that by (simp add: chain_def)
    then show "find_node (del_node t k) j = ((find_node t)(k := None)) j"
      using find_chain_del [OF c(1)] unfolding find_in_chain [OF del] fun_upd_def find_in_chain [OF ok]
      by (auto simp: del_node_def chain_set_chain [OF c(2)])
  qed
  show "find_node t k = Some n \<Longrightarrow> node_inode n = k"
    unfolding find_in_chain [OF ok] by (auto simp: find_Some_iff)
qed

section \<open>The operations as updates of the map\<close>

lemma find_node_loc_eq:
  "find_node_loc d i = (takeWhile (\<lambda>n. node_inode n < i) (chain d i), dropWhile (\<lambda>n. node_inode n < i) (chain d i))"
  by (simp add: find_node_loc_def)

lemma put_node_at:
  assumes "dropWhile (\<lambda>n. node_inode n < i) (chain d i) = target" and "node_inode n = i"
  shows "put_node d n = set_chain d i (takeWhile (\<lambda>n. node_inode n < i) (chain d i) @ n # rest_after i target)"
  using assms by (simp add: put_node_def chain_put_def)

lemma refs_open_eq: "refs_open d i =
    (case find_node d i of
       Some n \<Rightarrow> Some (0, put_node d (n\<lparr>refcount := refcount n + 1\<rparr>))
     | None \<Rightarrow>
         do { info \<leftarrow> inode_getinfo d i;
              case info of
                None \<Rightarrow> Some (-1, d)
              | Some info \<Rightarrow> Some (0, put_node d \<lparr>node_inode = i, refcount = 1, node_nlinks = inlinks info\<rparr>) })"
proof -
  obtain target where t: "dropWhile (\<lambda>n. node_inode n < i) (chain d i) = target"
    by simp
  then show ?thesis
    unfolding refs_open_def refs_open_new_def Let_def
    by (cases target) (simp_all add: find_node_def find_node_loc_eq
        put_node_at [OF t] rest_after_def del: dropWhile_eq_Nil_conv)
qed

lemma refs_close_eq: "refs_close d i =
    (case find_node d i of
       None \<Rightarrow> Some (-1, d)
     | Some n \<Rightarrow>
         if refcount n = 1 then
           if node_nlinks n = 0 then
             do { (res, d) \<leftarrow> inode_free (del_node d i) i; if res < 0 then Some (- EIO, d) else Some (0, d) }
           else Some (0, del_node d i)
         else Some (0, put_node d (n\<lparr>refcount := refcount n - 1\<rparr>)))"
proof -
  obtain target where t: "dropWhile (\<lambda>n. node_inode n < i) (chain d i) = target"
    by simp
  have del: "del_node d i = set_chain d i (takeWhile (\<lambda>n. node_inode n < i) (chain d i) @ rest_after i target)"
    using t by (simp add: del_node_def chain_del_def)
  have "refcount n - 1 \<le> 0 \<longleftrightarrow> refcount n = 1" for n
    by (simp add: word_le_0_iff)
  then show ?thesis
    using t by (cases target) (simp_all add: refs_close_def find_node_def find_node_loc_eq
        put_node_at [OF t] del rest_after_def Let_def del: dropWhile_eq_Nil_conv)
qed

lemma set_nlinks_eq:
  assumes "find_node d i = Some n"
  shows "set_nlinks d i k = put_node d (n\<lparr>node_nlinks := k\<rparr>)"
proof -
  obtain target where t: "dropWhile (\<lambda>n. node_inode n < i) (chain d i) = target"
    by simp
  then show ?thesis
    using assms by (cases target) (auto simp: set_nlinks_def find_node_def find_node_loc_eq
        put_node_at [OF t] rest_after_def simp del: dropWhile_eq_Nil_conv split: if_splits)
qed

lemma table_more [simp]: "refs_env.more (put_node d n) = refs_env.more d" "refs_env.more (del_node d i) = refs_env.more d"
  by (simp_all add: put_node_def del_node_def set_chain_def)

lemma table_same_disk [simp]: "same_disk d (put_node d n)" "same_disk d (del_node d i)"
  by (simp_all add: put_node_def del_node_def set_chain_def same_disk_def)

text \<open>The operations below do not touch the table.\<close>

lemma changed_table:
  fixes d d' :: "'x refs_env_scheme"
  assumes "changed S d d'"
  shows "open_file_table d' = open_file_table d" "refs_env.more d' = refs_env.more d" "junk d' = junk d"
  using assms by (cases d; cases d'; simp add: changed_def)+

lemma find_node_table: "open_file_table d' = open_file_table d \<Longrightarrow> find_node d' = find_node d"
  by (simp add: find_node_def find_node_loc_def chain_def fun_eq_iff)

lemma table_ok_table: "open_file_table d' = open_file_table d \<Longrightarrow> table_ok d' = table_ok d"
  by (simp add: table_ok_def)

section \<open>The table and the inodes\<close>

text \<open>
  Every node is an inode in use, with its number of links; an inode without links is open.
\<close>

definition refs_inv :: "'x refs_env_scheme \<Rightarrow> blockno set \<Rightarrow> ino list \<Rightarrow> ino set \<Rightarrow> bool" where
  "refs_inv d F Is A \<longleftrightarrow> fs_inv d F Is A \<and> table_ok d \<and>
     (\<forall>i n. find_node d i = Some n \<longrightarrow> i \<in> A \<and> node_nlinks n = inlinks (inode_at d i) \<and> refcount n \<noteq> 0) \<and>
     (\<forall>i \<in> A. inlinks (inode_at d i) = 0 \<longrightarrow> find_node d i \<noteq> None)"

text \<open>How many references an inode has.\<close>

definition refs_of :: "'x refs_env_scheme \<Rightarrow> ino \<Rightarrow> nat" where
  "refs_of d i = (case find_node d i of None \<Rightarrow> 0 | Some n \<Rightarrow> unat (refcount n))"

lemma refs_inv_fs: "refs_inv d F Is A \<Longrightarrow> fs_inv d F Is A" "refs_inv d F Is A \<Longrightarrow> table_ok d"
  by (simp_all add: refs_inv_def)

lemma refs_inv_node:
  assumes "refs_inv d F Is A" and "find_node d i = Some n"
  shows "i \<in> A" "node_nlinks n = inlinks (inode_at d i)" "refcount n \<noteq> 0" "node_inode n = i"
  using assms open_files.find_key [of d i n] by (auto simp: refs_inv_def)

lemma refs_inv_same_disk:
  assumes inv: "refs_inv d F Is A" and disk: "same_disk d d'" and ok: "table_ok d'"
    and nodes: "\<And>i n. find_node d' i = Some n \<Longrightarrow> i \<in> A \<and> node_nlinks n = inlinks (inode_at d i) \<and> refcount n \<noteq> 0"
    and open_: "\<And>i. i \<in> A \<Longrightarrow> inlinks (inode_at d i) = 0 \<Longrightarrow> find_node d' i \<noteq> None"
  shows "refs_inv d' F Is A"
proof -
  have "inode_at d' i = inode_at d i" for i
    using same_disk_file(1) [OF disk] by (simp add: same_file_def)
  then show ?thesis
    using fs_inv_same_disk [OF refs_inv_fs(1) [OF inv] disk] ok nodes open_ by (auto simp: refs_inv_def)
qed

theorem refs_open_spec:
  assumes inv: "refs_inv d F Is A" and i: "i \<in> A" and room: "refs_of d i < 2 ^ 32 - 1"
  shows "\<exists>d'. refs_open d i = Some (0, d') \<and> same_disk d d' \<and> refs_inv d' F Is A \<and>
    refs_of d' = (refs_of d)(i := Suc (refs_of d i)) \<and> refs_env.more d' = refs_env.more d"
proof -
  note f = refs_inv_fs [OF inv]
  define n where "n = (case find_node d i of Some n \<Rightarrow> n\<lparr>refcount := refcount n + 1\<rparr>
    | None \<Rightarrow> \<lparr>node_inode = i, refcount = 1, node_nlinks = inlinks (inode_at d i)\<rparr>)"
  have run: "refs_open d i = Some (0, put_node d n)"
    using inode_getinfo_spec [OF f(1) i]
    by (auto simp: refs_open_eq n_def inode_info.truncate_def split: option.split)
  have key: "node_inode n = i"
    using refs_inv_node(4) [OF inv] by (auto simp: n_def split: option.split)
  have count: "unat (refcount n) = Suc (refs_of d i)"
    using room unfolding n_def refs_of_def
    by (auto simp: unat_word_ariths split: option.splits)
  have links: "node_nlinks n = inlinks (inode_at d i)"
    using refs_inv_node(2) [OF inv] by (auto simp: n_def split: option.split)
  have find: "find_node (put_node d n) = (find_node d)(i \<mapsto> n)"
    using open_files.find_put [OF f(2), of n] key by simp
  have "refcount n \<noteq> 0"
    using count by auto
  then have "refs_inv (put_node d n) F Is A"
    using inv i links open_files.ok_put [OF f(2)]
    by (intro refs_inv_same_disk [OF inv]) (auto simp: find refs_inv_def split: if_splits)
  moreover have "refs_of (put_node d n) = (refs_of d)(i := Suc (refs_of d i))"
    using count by (auto simp: refs_of_def find fun_eq_iff)
  ultimately show ?thesis
    using run by auto
qed

text \<open>Closing a reference that is not the last one, or the last one of an inode with links.\<close>

theorem refs_close_spec:
  assumes inv: "refs_inv d F Is A" and refs: "0 < refs_of d i" and keep: "1 < refs_of d i \<or> inlinks (inode_at d i) \<noteq> 0"
  shows "\<exists>d'. refs_close d i = Some (0, d') \<and> same_disk d d' \<and> refs_inv d' F Is A \<and>
    refs_of d' = (refs_of d)(i := refs_of d i - 1) \<and> refs_env.more d' = refs_env.more d"
proof -
  note f = refs_inv_fs [OF inv]
  obtain n where n: "find_node d i = Some n" "refs_of d i = unat (refcount n)"
    using refs by (auto simp: refs_of_def split: option.splits)
  note node = refs_inv_node [OF inv n(1)]
  show ?thesis
  proof (cases "refcount n = 1")
    case True
    then have links: "inlinks (inode_at d i) \<noteq> 0"
      using keep n(2) by simp
    then have run: "refs_close d i = Some (0, del_node d i)"
      using True n(1) node(2) by (simp add: refs_close_eq)
    note find = open_files.find_del [OF f(2), of i]
    have "refs_inv (del_node d i) F Is A"
      using inv links open_files.ok_del [OF f(2)]
      by (intro refs_inv_same_disk [OF inv]) (auto simp: find refs_inv_def split: if_splits)
    moreover have "refs_of (del_node d i) = (refs_of d)(i := refs_of d i - 1)"
      using n True by (auto simp: refs_of_def find fun_eq_iff)
    ultimately show ?thesis
      using run by auto
  next
    case False
    let ?n = "n\<lparr>refcount := refcount n - 1\<rparr>"
    have run: "refs_close d i = Some (0, put_node d ?n)"
      using False n(1) by (simp add: refs_close_eq)
    have count: "unat (refcount ?n) = refs_of d i - 1"
      using node(3) n(2) by (simp add: unat_minus_one)
    have "refcount n - 1 \<noteq> 0"
      using False by (metis add.left_neutral diff_add_cancel)
    have find: "find_node (put_node d ?n) = (find_node d)(i \<mapsto> ?n)"
      using open_files.find_put [OF f(2), of ?n] node(4) by simp
    have "refs_inv (put_node d ?n) F Is A"
      using inv node open_files.ok_put [OF f(2)] \<open>refcount n - 1 \<noteq> 0\<close>
      by (intro refs_inv_same_disk [OF inv]) (auto simp: find refs_inv_def split: if_splits)
    moreover have "refs_of (put_node d ?n) = (refs_of d)(i := refs_of d i - 1)"
      using count by (auto simp: refs_of_def find fun_eq_iff)
    ultimately show ?thesis
      using run by auto
  qed
qed

text \<open>The last reference to an inode without links frees it.\<close>

theorem refs_close_last:
  assumes inv: "refs_inv d F Is A" and last: "refs_of d i = 1" and unlinked: "inlinks (inode_at d i) = 0"
  shows "\<exists>d'. refs_close d i = Some (0, d') \<and> refs_inv d' (F \<union> own d i) (i # Is) (A - {i}) \<and>
    refs_of d' = (refs_of d)(i := 0) \<and> (\<forall>j \<in> A - {i}. same_file d d' j) \<and> refs_env.more d' = refs_env.more d"
proof -
  note f = refs_inv_fs [OF inv]
  obtain n where n: "find_node d i = Some n" "refcount n = 1"
    using last by (auto simp: refs_of_def word_unat_eq_iff split: option.splits)
  note node = refs_inv_node [OF inv n(1)]
  let ?d = "del_node d i"
  have same: "same_disk d ?d"
    by simp
  have at: "inode_at ?d j = inode_at d j" "own ?d j = own d j" "same_file d ?d j" for j
    using same_disk_file(1) [OF same] by (simp_all add: same_file_def)
  note find = open_files.find_del [OF f(2), of i]
  have "fs_inv ?d F Is A"
    using fs_inv_same_disk [OF f(1) same] .
  from inode_free_spec [OF this node(1)] obtain d' where free: "inode_free ?d i = Some (0, d')"
      "fs_result A i ?d d' (F \<union> own d i) (i # Is) (A - {i})"
    using at unlinked by auto
  have run: "refs_close d i = Some (0, d')"
    using n node(2) unlinked free(1) by (simp add: refs_close_eq)
  have ch: "changed UNIV ?d d'" and fs: "fs_inv d' (F \<union> own d i) (i # Is) (A - {i})"
    and others: "\<And>j. j \<in> A - {i} \<Longrightarrow> same_file d d' j"
    using free(2) at(3) by (auto simp: fs_result_def intro: same_file_trans)
  have table: "find_node d' = (find_node d)(i := None)" "table_ok d'"
    using find find_node_table [OF changed_table(1) [OF ch]] table_ok_table [OF changed_table(1) [OF ch]]
      open_files.ok_del [OF f(2)] by simp_all
  have "inode_at d' j = inode_at d j" if "j \<in> A - {i}" for j
    using others [OF that] by (simp add: same_file_def)
  then have "refs_inv d' (F \<union> own d i) (i # Is) (A - {i})"
    using inv fs table by (auto simp: refs_inv_def split: if_splits)
  moreover have "refs_of d' = (refs_of d)(i := 0)"
    using table(1) by (auto simp: refs_of_def fun_eq_iff)
  moreover have "refs_env.more d' = refs_env.more d"
    using changed_table(2) [OF ch] by simp
  ultimately show ?thesis
    using run others by blast
qed

section \<open>Links\<close>

lemma refs_set_links:
  assumes inv: "refs_inv d F Is A" and open_: "0 < refs_of d i"
    and meta: "meta_result A i d d' F Is ((inode_at d i)\<lparr>inlinks := k, last_statchange := ts\<rparr>)"
  shows "refs_inv (set_nlinks d' i k) F Is A" "refs_of (set_nlinks d' i k) = refs_of d"
    "same_disk d' (set_nlinks d' i k)" "refs_env.more (set_nlinks d' i k) = refs_env.more d"
proof -
  note f = refs_inv_fs [OF inv]
  obtain n where n: "find_node d i = Some n"
    using open_ by (auto simp: refs_of_def split: option.splits)
  note node = refs_inv_node [OF inv n]
  have ch: "changed UNIV d d'" and fs: "fs_inv d' F Is A" and others: "\<And>j. j \<in> A - {i} \<Longrightarrow> same_file d d' j"
    and at: "inode_at d' i = (inode_at d i)\<lparr>inlinks := k, last_statchange := ts\<rparr>"
    using meta by (auto simp: meta_result_def fs_result_def)
  have find: "find_node d' = find_node d" "table_ok d'"
    using find_node_table [OF changed_table(1) [OF ch]] table_ok_table [OF changed_table(1) [OF ch]] f(2) by simp_all
  have put: "set_nlinks d' i k = put_node d' (n\<lparr>node_nlinks := k\<rparr>)"
    using n find(1) by (intro set_nlinks_eq) simp
  show "refs_env.more (set_nlinks d' i k) = refs_env.more d"
    using changed_table(2) [OF ch] by (simp add: put)
  show same: "same_disk d' (set_nlinks d' i k)"
    by (simp add: put)
  have find': "find_node (set_nlinks d' i k) = (find_node d)(i \<mapsto> n\<lparr>node_nlinks := k\<rparr>)"
    using open_files.find_put [OF find(2), of "n\<lparr>node_nlinks := k\<rparr>"] node(4) find(1) by (simp add: put)
  have at': "inode_at (set_nlinks d' i k) j = inode_at d' j" for j
    using same_disk_file(1) [OF same] by (simp add: same_file_def)
  have same_at: "inode_at d' j = inode_at d j" if "j \<in> A" "j \<noteq> i" for j
    using others [of j] that by (simp add: same_file_def)
  show "refs_of (set_nlinks d' i k) = refs_of d"
    using n by (auto simp: refs_of_def find' fun_eq_iff)
  have "fs_inv (set_nlinks d' i k) F Is A" "table_ok (set_nlinks d' i k)"
    using fs_inv_same_disk [OF fs same] open_files.ok_put [OF find(2)] by (simp_all add: put)
  moreover have "j \<in> A \<and> node_nlinks m = inlinks (inode_at d' j) \<and> refcount m \<noteq> 0"
    if "find_node (set_nlinks d' i k) j = Some m" for j m
    using that refs_inv_node [OF inv, of j m] node at same_at [of j] by (auto simp: find' split: if_splits)
  moreover have "find_node (set_nlinks d' i k) j \<noteq> None" if "j \<in> A" "inlinks (inode_at d' j) = 0" for j
    using that inv same_at [of j] by (auto simp: find' refs_inv_def)
  ultimately show "refs_inv (set_nlinks d' i k) F Is A"
    by (simp add: refs_inv_def at')
qed

lemma find_node_open: "0 < refs_of d i \<Longrightarrow> \<exists>n. find_node d i = Some n"
  by (auto simp: refs_of_def split: option.splits)

theorem refs_link_spec:
  assumes inv: "refs_inv d F Is A" and open_: "0 < refs_of d i"
  shows "\<exists>d'. refs_link d i = Some (0, d') \<and> refs_inv d' F Is A \<and> refs_of d' = refs_of d \<and>
    (\<exists>ts. inode_at d' i = (inode_at d i)\<lparr>inlinks := inlinks (inode_at d i) + 1, last_statchange := ts\<rparr>) \<and>
    content d' i = content d i \<and> (\<forall>j \<in> A - {i}. same_file d d' j) \<and> refs_env.more d' = refs_env.more d"
proof -
  note f = refs_inv_fs [OF inv]
  obtain n where n: "find_node d i = Some n"
    using find_node_open [OF open_] by blast
  obtain d1 where run: "inode_link d i = Some (inlinks (inode_at d i) + 1, d1)"
    and meta: "meta_result A i d d1 F Is ((inode_at d i)\<lparr>inlinks := inlinks (inode_at d i) + 1, last_statchange := fst (now d)\<rparr>)"
    using inode_link_spec [OF f(1) refs_inv_node(1) [OF inv n]] by blast
  note set = refs_set_links [OF inv open_ meta]
  have "refs_link d i = Some (0, set_nlinks d1 i (inlinks (inode_at d i) + 1))"
    using run n by (simp add: refs_link_def)
  then show ?thesis
    using set(1,2,4) same_disk_file(1) [OF set(3)] meta
    by (auto simp: same_file_def meta_result_def fs_result_def)
qed

theorem refs_unlink_spec:
  assumes inv: "refs_inv d F Is A" and open_: "0 < refs_of d i"
  shows "\<exists>d'. refs_unlink d i = Some (0, d') \<and> refs_inv d' F Is A \<and> refs_of d' = refs_of d \<and>
    (\<exists>ts. inode_at d' i = (inode_at d i)\<lparr>inlinks := inlinks (inode_at d i) - 1, last_statchange := ts\<rparr>) \<and>
    content d' i = content d i \<and> (\<forall>j \<in> A - {i}. same_file d d' j) \<and> refs_env.more d' = refs_env.more d"
proof -
  note f = refs_inv_fs [OF inv]
  obtain n where n: "find_node d i = Some n"
    using find_node_open [OF open_] by blast
  obtain d1 where run: "inode_unlink d i = Some (inlinks (inode_at d i) - 1, d1)"
    and meta: "meta_result A i d d1 F Is ((inode_at d i)\<lparr>inlinks := inlinks (inode_at d i) - 1, last_statchange := fst (now d)\<rparr>)"
    using inode_unlink_spec [OF f(1) refs_inv_node(1) [OF inv n]] by blast
  note set = refs_set_links [OF inv open_ meta]
  have "refs_unlink d i = Some (0, set_nlinks d1 i (inlinks (inode_at d i) - 1))"
    using run n by (simp add: refs_unlink_def)
  then show ?thesis
    using set(1,2,4) same_disk_file(1) [OF set(3)] meta
    by (auto simp: same_file_def meta_result_def fs_result_def)
qed

end
