(* ===== verification/Dir_Block.thy ===== *)
theory Dir_Block
  imports Dir
begin

text \<open>
  What a directory block means: a list of entries, each a name and an inode number.  The search
  loop of \<open>dir.c\<close> finds the first entry with a name and where its name lies, and the two updates
  of a block are the appending and the removal of an entry.
\<close>

section \<open>Blocks as lists of entries\<close>

type_synonym dirent = "byte list \<times> ino"

definition name_bytes :: "dirent list \<Rightarrow> byte list" where
  "name_bytes es = concat (map (\<lambda>(name, _). name @ [0]) es)"

abbreviation name_space :: "dirent list \<Rightarrow> nat" where
  "name_space es \<equiv> length (name_bytes es)"

definition block_of :: "dirent list \<Rightarrow> dir_map_block" where
  "block_of es = \<lparr>numbers = map snd es @ replicate (128 - length es) EOF,
     names = name_bytes es @ replicate (3072 - name_space es) 0\<rparr>"

definition entry_ok :: "dirent \<Rightarrow> bool" where
  "entry_ok e \<longleftrightarrow> 0 \<notin> set (fst e) \<and> snd e \<noteq> EOF"

definition entries_ok :: "dirent list \<Rightarrow> bool" where
  "entries_ok es \<longleftrightarrow> (\<forall>e \<in> set es. entry_ok e) \<and> length es \<le> 128 \<and> name_space es \<le> 3072"

lemma entries_ok_Nil [simp]: "entries_ok []"
  by (simp add: entries_ok_def name_bytes_def)

lemma name_bytes_Nil [simp]: "name_bytes [] = []"
  by (simp add: name_bytes_def)

lemma name_bytes_Cons [simp]: "name_bytes (e # es) = fst e @ 0 # name_bytes es"
  by (simp add: name_bytes_def split_beta)

lemma name_bytes_append [simp]: "name_bytes (es @ fs) = name_bytes es @ name_bytes fs"
  by (simp add: name_bytes_def)

lemma block_of_ok [simp]: "entries_ok es \<Longrightarrow> dir_block_ok (block_of es)"
  by (simp add: block_of_def entries_ok_def dir_block_ok_def)

lemma length_enc_block [simp]: "entries_ok es \<Longrightarrow> length (enc_dir (block_of es)) = BLOCKSIZE"
  by (simp add: dir_codec.length_enc)

lemma dec_block [simp]: "entries_ok es \<Longrightarrow> dec_dir (enc_dir (block_of es)) = block_of es"
  by (simp add: dir_codec.dec_enc)

section \<open>Searching\<close>

lemma strlen_at:
  assumes "drop off buf = name @ 0 # rest" and "0 \<notin> set name"
  shows "strlen buf off = Some (length name)" "slice off (length name) buf = name"
  using assms first_index_at [of name "\<lambda>c. c = 0" 0 rest] by (auto simp: strlen_def slice_def)

text \<open>The first entry with a name, or where the entries end.\<close>

definition find_result :: "dirent list \<Rightarrow> byte list \<Rightarrow> nat \<Rightarrow> nat \<Rightarrow> (nat \<times> nat) + (nat \<times> nat)" where
  "find_result es name i off =
    (case first_index (\<lambda>e. fst e = name) es of
       Some k \<Rightarrow> Inl (i + k, off + name_space (take k es))
     | None \<Rightarrow> Inr (i + length es, off + name_space es))"

lemma dir_scan_eq:
  assumes "\<forall>e \<in> set es. entry_ok e" and "drop off nms = name_bytes es @ pad"
  shows "dir_scan (map snd es @ replicate r EOF) nms name i off = Some (find_result es name i off)"
  using assms
proof (induction es arbitrary: i off)
  case Nil
  then show ?case
    by (cases r) (simp_all add: find_result_def)
next
  case (Cons e es)
  have e: "0 \<notin> set (fst e)" "snd e \<noteq> EOF"
    using Cons.prems(1) by (simp_all add: entry_ok_def)
  have off: "drop off nms = fst e @ 0 # (name_bytes es @ pad)"
    using Cons.prems(2) by simp
  note str = strlen_at [OF off e(1)]
  have next_off: "drop (off + length (fst e) + 1) nms = name_bytes es @ pad"
    using arg_cong [OF off, of "drop (length (fst e) + 1)"] by (simp add: add.commute add.left_commute)
  have match: "(length (fst e) = length name \<and> slice off (length name) nms = name) = (fst e = name)"
    using str(2) by auto
  show ?case
    using Cons.IH [OF _ next_off, of "i + 1"] Cons.prems(1) e(2) str(1) match
    by (auto simp: find_result_def split: option.splits)
qed

lemma dir_find_eq:
  assumes "entries_ok es"
  shows "dir_find (block_of es) name = Some (find_result es name 0 0)"
  using dir_scan_eq [of es 0 "names (block_of es)" "replicate (3072 - name_space es) 0"] assms
  by (simp add: dir_find_def block_of_def entries_ok_def)

section \<open>The block as a map from names to inodes\<close>

lemma first_index_split:
  assumes "first_index (\<lambda>e. fst e = name) es = Some k"
  shows "k < length es" "es = take k es @ (name, snd (es ! k)) # drop (Suc k) es"
    "map_of (take k es) name = None" "map_of es name = Some (snd (es ! k))"
proof -
  note k = first_index_SomeD [OF assms]
  then show "k < length es"
    by simp
  have at: "es ! k = (name, snd (es ! k))"
    using k by (simp add: prod_eq_iff)
  then show split: "es = take k es @ (name, snd (es ! k)) # drop (Suc k) es"
    using k id_take_nth_drop [of k es] by simp
  have "fst e \<noteq> name" if "e \<in> set (take k es)" for e
    using first_index_Some_before [OF assms] that k by (auto simp: in_set_conv_nth)
  then show before: "map_of (take k es) name = None"
    by (force simp: map_of_eq_None_iff)
  show "map_of es name = Some (snd (es ! k))"
    by (subst split) (simp add: map_add_def before)
qed

lemma first_index_map_of: "(first_index (\<lambda>e. fst e = name) es = None) = (map_of es name = None)"
  by (auto simp: index_None_iff map_of_eq_None_iff)

lemma map_of_remove:
  assumes "first_index (\<lambda>e. fst e = name) es = Some k" and "distinct (map fst es)"
  shows "map_of (take k es @ drop (Suc k) es) = (map_of es)(name := None)"
proof -
  note split = first_index_split [OF assms(1)]
  have "distinct (map fst (take k es @ (name, snd (es ! k)) # drop (Suc k) es))"
    using assms(2) split(2) by simp
  then have "map_of (drop (Suc k) es) name = None"
    by (simp add: map_of_eq_None_iff)
  then have "map_of (take k es @ drop (Suc k) es) = (map_of (take k es @ (name, snd (es ! k)) # drop (Suc k) es))(name := None)"
    using split(3) by (auto simp: fun_eq_iff map_add_def split: option.splits)
  then show ?thesis
    using split(2) by simp
qed

section \<open>Updating a block\<close>

lemma entries_ok_parts:
  assumes "entries_ok es"
  shows "\<forall>e \<in> set es. entry_ok e" "length es \<le> 128" "name_space es \<le> 3072"
  using assms by (simp_all add: entries_ok_def)

lemma insert_block:
  assumes "entries_ok es" and "length es < 128" and "name_space es + length name < 3072"
  shows "insert_entry (block_of es) (length es) (name_space es) name target = block_of (es @ [(name, target)])"
proof -
  have "(map snd es @ replicate (128 - length es) EOF)[length es := target] =
      map snd es @ target # replicate (127 - length es) EOF"
    using assms(2) by (simp add: list_update_append Suc_diff_Suc [symmetric])
  moreover have "replicate (3072 - name_space es - length name) (0 :: byte) = 0 # replicate (3071 - name_space es - length name) 0"
    using assms(3) by (simp add: replicate_Suc [symmetric] Suc_diff_Suc [symmetric] del: replicate_Suc)
  ultimately show ?thesis
    using assms by (simp add: insert_entry_def block_of_def patch_def)
qed

lemma entries_ok_insert:
  assumes "entries_ok es" and "length es < 128" and "name_space es + length name < 3072"
    and "0 \<notin> set name" and "target \<noteq> EOF"
  shows "entries_ok (es @ [(name, target)])"
  using assms by (simp add: entries_ok_def entry_ok_def)

lemma entries_ok_remove:
  assumes "entries_ok es"
  shows "entries_ok (take k es @ drop (Suc k) es)"
proof -
  have "length (take k es @ drop (Suc k) es) \<le> length es"
    by simp
  moreover have "name_space (take k es @ drop (Suc k) es) \<le> name_space es"
  proof (cases "k < length es")
    case True
    have "name_space es = name_space (take k es @ es ! k # drop (Suc k) es)"
      using True id_take_nth_drop by metis
    then show ?thesis by simp
  qed simp
  ultimately show ?thesis
    using assms by (auto simp: entries_ok_def dest: in_set_takeD in_set_dropD)
qed

lemma remove_block:
  assumes "entries_ok es" and "first_index (\<lambda>e. fst e = name) es = Some k"
  shows "remove_entry (block_of es) k (name_space (take k es)) (length name) = block_of (take k es @ drop (Suc k) es)"
proof -
  note split = first_index_split [OF assms(2)] and ok = entries_ok_parts [OF assms(1)]
  let ?a = "take k es" and ?b = "drop (Suc k) es" and ?i = "snd (es ! k)"
  have len: "length ?a = k" "length ?a + Suc (length ?b) = length es" "name_space ?a + length name + 1 + name_space ?b \<le> 3072"
    using split(1) ok(3) arg_cong [OF split(2), of name_space] by simp_all
  have "block_of es = block_of (?a @ (name, ?i) # ?b)"
    using split(2) by simp
  moreover have "replicate (128 - length es) EOF @ [EOF] = replicate (129 - length es) EOF"
    using ok(2) replicate_join [of "128 - length es" 1 "129 - length es" EOF] by simp
  moreover have "replicate (3071 - (name_space ?a + (length name + name_space ?b))) 0 @ 0 # replicate (length name) (0 :: byte) =
      replicate (3072 - (name_space ?a + name_space ?b)) 0"
    using len(3) replicate_join [of "3071 - (name_space ?a + (length name + name_space ?b))" "length name + 1"
      "3072 - (name_space ?a + name_space ?b)" "0 :: byte"] by simp
  ultimately show ?thesis
    using len ok(2) by (simp add: remove_entry_def block_of_def)
qed

lemma new_block: "new_dir_block parent directory = block_of [([DOT, DOT], parent), ([DOT], directory)]"
  by (simp add: new_dir_block_def block_of_def)

lemma empty_block: "empty_dir_block = block_of []"
  by (simp add: empty_dir_block_def block_of_def)

lemma numbers_block:
  assumes "entries_ok es" and "k < 128"
  shows "numbers (block_of es) ! k = (if k < length es then snd (es ! k) else EOF)"
  using assms by (simp add: block_of_def nth_append)

end
