(* ===== verification/Dir_Spec.thy ===== *)
theory Dir_Spec
  imports Dir_Block Inode_Typed
begin

text \<open>
  Directories as maps from names to inodes.  The content of a directory is a list of blocks,
  each a list of entries; lookup, insertion and removal are those of a map, and a destroyed
  directory refuses every operation but lookup.
\<close>

section \<open>Operations that only read\<close>

text \<open>Reading updates the access time: the metadata users set, the size and the content stay.\<close>

definition only_read :: "ino set \<Rightarrow> ino \<Rightarrow> 'x inode_env_scheme \<Rightarrow> 'x inode_env_scheme \<Rightarrow> blockno set \<Rightarrow> ino list \<Rightarrow> bool" where
  "only_read A i d d' F Is \<longleftrightarrow> fs_result A i d d' F Is A \<and> content d' i = content d i \<and> fsize d' i = fsize d i \<and>
     same_attr (inode_at d i) (inode_at d' i) \<and> ilist_at d' i = ilist_at d i"

lemma only_read_refl: "fs_inv d F Is A \<Longrightarrow> only_read A i d d F Is"
  by (simp add: only_read_def fs_result_def)

lemma only_read_trans:
  assumes "only_read A i d d1 F Is" and "only_read A i d1 d2 F Is"
  shows "only_read A i d d2 F Is"
  using assms fs_result_trans [of A i d d1 F Is A d2 F Is A] same_attr_trans
  unfolding only_read_def by (metis Diff_subset)

lemma only_read_inv: "only_read A i d d' F Is \<Longrightarrow> fs_inv d' F Is A"
  by (simp add: only_read_def fs_result_def)

lemma only_read_result:
  assumes "only_read A i d d1 F Is" and "fs_result A i d1 d2 F' Is' A'"
  shows "fs_result A i d d2 F' Is' A'"
  using assms fs_result_trans [of A i d d1 F Is A d2 F' Is' A'] by (simp add: only_read_def Diff_subset)

lemma only_read_enough: "only_read A i d d' F Is \<Longrightarrow> enough d' F i sz = enough d F i sz"
  by (simp add: only_read_def enough_def fcount_blocks_def)

section \<open>The content of a directory\<close>

definition dir_bytes :: "dirent list list \<Rightarrow> byte list" where
  "dir_bytes ess = concat (map (\<lambda>es. enc_dir (block_of es)) ess)"

text \<open>The first block begins with the entries for the parent and the directory itself; the last one has an entry.\<close>

definition proper :: "dirent list list \<Rightarrow> bool" where
  "proper ess \<longleftrightarrow> ess \<noteq> [] \<and> map fst (take 2 (hd ess)) = [[DOT, DOT], [DOT]] \<and> last ess \<noteq> []"

definition dir_ok :: "dirent list list \<Rightarrow> bool" where
  "dir_ok ess \<longleftrightarrow> (\<forall>es \<in> set ess. entries_ok es) \<and> distinct (map fst (concat ess)) \<and> proper ess"

definition dir_rep :: "'x disk_t_scheme \<Rightarrow> ino \<Rightarrow> dirent list list \<Rightarrow> bool" where
  "dir_rep d i ess \<longleftrightarrow> S_ISDIR (imode (inode_at d i)) \<and> dir_ok ess \<and> content d i = dir_bytes ess"

abbreviation dir_map :: "dirent list list \<Rightarrow> byte list \<Rightarrow> ino option" where
  "dir_map ess \<equiv> map_of (concat ess)"

lemma dir_bytes_append [simp]: "dir_bytes (ess @ fss) = dir_bytes ess @ dir_bytes fss"
  by (simp add: dir_bytes_def)

lemma dir_bytes_Cons [simp]: "dir_bytes (es # ess) = enc_dir (block_of es) @ dir_bytes ess"
  by (simp add: dir_bytes_def)

lemma dir_bytes_Nil [simp]: "dir_bytes [] = []"
  by (simp add: dir_bytes_def)

lemma proper_hd:
  assumes "proper ess"
  obtains up self es where "ess ! 0 = ([DOT, DOT], up) # ([DOT], self) # es" "hd ess = ess ! 0"
proof -
  obtain a b es where "hd ess = a # b # es" "fst a = [DOT, DOT]" "fst b = [DOT]"
    using assms unfolding proper_def by (cases "hd ess"; cases "tl (hd ess)") auto
  then show thesis
    using that [of "snd a" "snd b" es] assms by (cases a; cases b) (simp add: proper_def hd_conv_nth)
qed

lemma proper_insert:
  assumes "proper ess" and "k \<le> length ess"
  shows "proper (if k < length ess then ess[k := ess ! k @ [e]] else ess @ [[e]])"
proof -
  obtain up self es where hd: "ess ! 0 = ([DOT, DOT], up) # ([DOT], self) # es" "hd ess = ess ! 0"
    using proper_hd [OF assms(1)] .
  show ?thesis
  proof (cases "k < length ess")
    case True
    then have "hd (ess[k := ess ! k @ [e]]) = (if k = 0 then ess ! 0 @ [e] else ess ! 0)"
      by (cases ess) (auto split: nat.split)
    moreover have "last (ess[k := ess ! k @ [e]]) \<noteq> []"
      using True assms(1) by (auto simp: last_list_update proper_def)
    ultimately show ?thesis
      using True hd(1) by (auto simp: proper_def)
  next
    case False
    then show ?thesis
      using assms(1) by (simp add: proper_def)
  qed
qed

lemma proper_remove:
  assumes "proper ess" and k: "k < length ess" and j: "j < length (ess ! k)" "fst (ess ! k ! j) \<noteq> [DOT]" "fst (ess ! k ! j) \<noteq> [DOT, DOT]"
    and rest: "Suc k = length ess \<Longrightarrow> length (ess ! k) \<noteq> 1"
  shows "proper (ess[k := take j (ess ! k) @ drop (Suc j) (ess ! k)])"
proof -
  let ?es = "take j (ess ! k) @ drop (Suc j) (ess ! k)"
  obtain up self es where hd: "ess ! 0 = ([DOT, DOT], up) # ([DOT], self) # es" "hd ess = ess ! 0"
    using proper_hd [OF assms(1)] .
  have "2 \<le> j" if "k = 0"
    using j hd(1) that by (cases j; cases "j - 1") (auto split: nat.splits)
  then have "take 2 ?es = take 2 (ess ! 0)" if "k = 0"
    using that j(1) by (simp add: min_absorb2)
  moreover have "hd (ess[k := ?es]) = (if k = 0 then ?es else ess ! 0)"
    using k by (cases ess) (auto split: nat.split)
  moreover have "last (ess[k := ?es]) \<noteq> []"
    using k j(1) rest assms(1) by (auto simp: last_list_update proper_def)
  ultimately show ?thesis
    using hd assms(1) by (auto simp: proper_def)
qed

lemma proper_map_dots:
  assumes "dir_ok ess"
  shows "\<exists>up. dir_map ess [DOT, DOT] = Some up" "\<exists>self. dir_map ess [DOT] = Some self"
proof -
  have "proper ess"
    using assms by (simp add: dir_ok_def)
  then obtain up self es where "ess ! 0 = ([DOT, DOT], up) # ([DOT], self) # es" "hd ess = ess ! 0"
    using proper_hd by blast
  moreover have "ess \<noteq> []"
    using \<open>proper ess\<close> by (simp add: proper_def)
  ultimately show "\<exists>up. dir_map ess [DOT, DOT] = Some up" "\<exists>self. dir_map ess [DOT] = Some self"
    by (cases ess; simp)+
qed

text \<open>A directory with these two entries only is one block.\<close>

lemma empty_dir_block:
  assumes "dir_ok ess" and "dom (dir_map ess) \<subseteq> {[DOT], [DOT, DOT]}"
  obtains es where "ess = [es]" "length es \<le> 2"
proof -
  have ok: "distinct (map fst (concat ess))" "proper ess"
    using assms(1) by (simp_all add: dir_ok_def)
  obtain up self es where hd: "ess ! 0 = ([DOT, DOT], up) # ([DOT], self) # es" "hd ess = ess ! 0"
    using proper_hd [OF ok(2)] .
  obtain rest where ess: "ess = (([DOT, DOT], up) # ([DOT], self) # es) # rest"
    using hd ok(2) by (cases ess) (simp_all add: proper_def)
  have none: "es @ concat rest = []"
  proof (rule ccontr)
    assume "es @ concat rest \<noteq> []"
    then obtain e where e: "e \<in> set (es @ concat rest)"
      by (cases "es @ concat rest") auto
    then have "fst e \<in> dom (dir_map ess)"
      unfolding dom_map_of_conv_image_fst ess by (intro imageI) simp
    moreover have "fst e \<notin> {[DOT], [DOT, DOT]}"
      using ok(1) e unfolding ess by (auto simp: image_iff) metis+
    ultimately show False
      using assms(2) by blast
  qed
  moreover have "rest = []"
  proof (rule ccontr)
    assume "rest \<noteq> []"
    then have "last rest \<in> set rest" "last rest \<noteq> []"
      using ok(2) unfolding ess proper_def by simp_all
    then show False
      using none by simp
  qed
  ultimately show thesis
    using that [of "([DOT, DOT], up) # ([DOT], self) # es"] ess by simp
qed

lemma dir_ok_entries: "dir_ok ess \<Longrightarrow> es \<in> set ess \<Longrightarrow> entries_ok es"
  by (simp add: dir_ok_def)

lemma length_dir_bytes: "\<forall>es \<in> set ess. entries_ok es \<Longrightarrow> length (dir_bytes ess) = length ess * BLOCKSIZE"
  by (induction ess) simp_all

lemma dir_bytes_split:
  assumes "\<forall>es \<in> set ess. entries_ok es" and "k < length ess"
  shows "dir_bytes ess = dir_bytes (take k ess) @ enc_dir (block_of (ess ! k)) @ dir_bytes (drop (Suc k) ess)"
    "length (dir_bytes (take k ess)) = k * BLOCKSIZE" "length (enc_dir (block_of (ess ! k))) = BLOCKSIZE"
proof -
  show "dir_bytes ess = dir_bytes (take k ess) @ enc_dir (block_of (ess ! k)) @ dir_bytes (drop (Suc k) ess)"
    using arg_cong [OF id_take_nth_drop [OF assms(2)], of dir_bytes] by simp
  have "\<forall>es \<in> set (take k ess). entries_ok es"
    using assms(1) in_set_takeD by metis
  then show "length (dir_bytes (take k ess)) = k * BLOCKSIZE"
    using assms(2) by (simp add: length_dir_bytes)
  show "length (enc_dir (block_of (ess ! k))) = BLOCKSIZE"
    using assms by simp
qed

lemma dir_block_slice:
  assumes "\<forall>es \<in> set ess. entries_ok es" and "k < length ess"
  shows "slice (k * BLOCKSIZE) BLOCKSIZE (dir_bytes ess) = enc_dir (block_of (ess ! k))"
  using dir_bytes_split [OF assms] by (simp add: slice_def)

lemma dir_bytes_update:
  assumes "\<forall>es \<in> set ess. entries_ok es" and "k < length ess" and "entries_ok es"
  shows "write_bytes (dir_bytes ess) (k * BLOCKSIZE) (enc_dir (block_of es)) = dir_bytes (ess[k := es])"
  using dir_bytes_split [OF assms(1,2)] assms(2,3)
  by (simp add: write_bytes_def upd_conv_take_nth_drop)

lemma dir_rep_size:
  assumes "fs_inv d F Is A" and "i \<in> A" and "dir_rep d i ess"
  shows "fsize d i = int (length ess * BLOCKSIZE)"
proof -
  have "nat (fsize d i) = length (dir_bytes ess)"
    using assms(3) length_content [of d i] by (simp add: dir_rep_def)
  then show ?thesis
    using fs_inv_inode(7) [OF assms(1,2)] assms(3) by (simp add: dir_rep_def dir_ok_def length_dir_bytes)
qed

lemma dir_rep_read:
  assumes "only_read A i d d' F Is" and "dir_rep d i ess"
  shows "dir_rep d' i ess"
  using assms by (simp add: only_read_def dir_rep_def same_attr_def)

text \<open>One step of every loop over a directory.\<close>

lemma dir_read_step:
  assumes inv: "fs_inv d F Is A" and i: "i \<in> A" and rep: "dir_rep d i ess" and buf: "length buf = BLOCKSIZE"
  shows "\<exists>d'. only_read A i d d' F Is \<and> inode_read d i (int (k * BLOCKSIZE)) buf BLOCKSIZE =
    Some (if k < length ess then (BLOCKSIZE, enc_dir (block_of (ess ! k)), d') else (0, buf, d'))"
proof -
  have ok: "\<forall>es \<in> set ess. entries_ok es" and content: "content d i = dir_bytes ess"
    using rep by (simp_all add: dir_rep_def dir_ok_def)
  have size: "nat (fsize d i) = length ess * BLOCKSIZE"
    using dir_rep_size [OF inv i rep] by simp
  obtain d' where d': "inode_read d i (int (k * BLOCKSIZE)) buf (int BLOCKSIZE) =
      Some (int (read_count d i (k * BLOCKSIZE) BLOCKSIZE), read_bytes (content d i) (k * BLOCKSIZE) BLOCKSIZE buf, d')"
    and only: "only_read A i d d' F Is"
    using inode_read_spec [OF inv i, of BLOCKSIZE buf "k * BLOCKSIZE"] buf unfolding only_read_def by auto
  show ?thesis
  proof (cases "k < length ess")
    case True
    then have "(k + 1) * BLOCKSIZE \<le> length ess * BLOCKSIZE"
      by (intro mult_le_mono1) simp
    then have "read_count d i (k * BLOCKSIZE) BLOCKSIZE = BLOCKSIZE"
      by (simp add: read_count_def size)
    then show ?thesis
      using True d' only buf dir_block_slice [OF ok True] ok by (simp add: content read_bytes_def)
  next
    case False
    then have "length ess * BLOCKSIZE \<le> k * BLOCKSIZE"
      by (intro mult_le_mono1) simp
    then have "read_count d i (k * BLOCKSIZE) BLOCKSIZE = 0" "slice (k * BLOCKSIZE) BLOCKSIZE (content d i) = []"
      by (simp_all add: read_count_def size slice_def)
    then show ?thesis
      using False d' only buf by (simp add: read_bytes_def)
  qed
qed

lemma dir_find_dec:
  assumes "dir_rep d i ess" and "k < length ess"
  shows "dec_dir (enc_dir (block_of (ess ! k))) = block_of (ess ! k)" "entries_ok (ess ! k)"
    "dir_find (block_of (ess ! k)) name = Some (find_result (ess ! k) name 0 0)"
proof -
  show ok: "entries_ok (ess ! k)"
    using assms by (simp add: dir_rep_def dir_ok_def)
  show "dec_dir (enc_dir (block_of (ess ! k))) = block_of (ess ! k)"
    "dir_find (block_of (ess ! k)) name = Some (find_result (ess ! k) name 0 0)"
    using ok by (simp_all add: dir_find_eq)
qed

section \<open>Lookup\<close>

lemma dir_check_eq:
  assumes "fs_inv d F Is A" and "i \<in> A"
  shows "dir_check d i alive =
    Some (if \<not> S_ISDIR (imode (inode_at d i)) then Inl (- ENOTDIR)
          else if alive \<and> fsize d i < BLOCKSIZE then Inl (- ENOENT)
          else Inr (inode_info.truncate (inode_at d i)))"
  using inode_getinfo_spec [OF assms] by (simp add: dir_check_def fsize_def inode_info.truncate_def)

lemma dir_check_dir:
  assumes "fs_inv d F Is A" and "i \<in> A" and "dir_rep d i ess" and "alive \<longrightarrow> ess \<noteq> []"
  shows "dir_check d i alive = Some (Inr (inode_info.truncate (inode_at d i)))"
proof -
  have "alive \<longrightarrow> \<not> fsize d i < BLOCKSIZE"
    using dir_rep_size [OF assms(1-3)] assms(4) by (cases ess) auto
  then show ?thesis
    using dir_check_eq [OF assms(1,2)] assms(3) by (simp add: dir_rep_def)
qed

lemma find_result_first:
  "find_result es name 0 0 = (case first_index (\<lambda>e. fst e = name) es of
     Some k \<Rightarrow> Inl (k, name_space (take k es)) | None \<Rightarrow> Inr (length es, name_space es))"
  by (simp add: find_result_def split: option.split)

lemma dir_map_Cons: "dir_map (es # ess) name = (case map_of es name of None \<Rightarrow> dir_map ess name | Some t \<Rightarrow> Some t)"
  by (simp add: map_add_def)

lemma dir_map_at: "k < length ess \<Longrightarrow> dir_map (drop k ess) name =
    (case map_of (ess ! k) name of None \<Rightarrow> dir_map (drop (Suc k) ess) name | Some t \<Rightarrow> Some t)"
  by (simp only: Cons_nth_drop_Suc [symmetric] dir_map_Cons)

lemma dir_lookup_loop_spec:
  assumes "fs_inv d F Is A" and "i \<in> A" and "dir_rep d i ess" and "length buf = BLOCKSIZE" and "k \<le> length ess"
  shows "\<exists>d'. only_read A i d d' F Is \<and> dir_lookup_loop i name (int (k * BLOCKSIZE)) buf d =
    Some (case dir_map (drop k ess) name of None \<Rightarrow> of_int (- ENOENT) | Some t \<Rightarrow> t, d')"
  using assms
proof (induction "length ess - k" arbitrary: k buf d)
  case 0
  then obtain d' where "only_read A i d d' F Is" "inode_read d i (int (k * BLOCKSIZE)) buf BLOCKSIZE = Some (0, buf, d')"
    using dir_read_step [of d F Is A i ess buf k] by auto
  then show ?case
    using 0 by (subst dir_lookup_loop.simps) simp
next
  case (Suc m)
  note prems = Suc.prems
  have k: "k < length ess"
    using Suc.hyps(2) by simp
  obtain d1 where d1: "only_read A i d d1 F Is"
    "inode_read d i (int (k * BLOCKSIZE)) buf BLOCKSIZE = Some (BLOCKSIZE, enc_dir (block_of (ess ! k)), d1)"
    using dir_read_step [OF prems(1-4), of k] k by auto
  note block = dir_find_dec [OF prems(3) k]
  show ?case
  proof (cases "first_index (\<lambda>e. fst e = name) (ess ! k)")
    case None
    note rep1 = dir_rep_read [OF d1(1) prems(3)] and inv1 = only_read_inv [OF d1(1)]
    have "m = length ess - Suc k" "length (enc_dir (block_of (ess ! k))) = BLOCKSIZE" "Suc k \<le> length ess"
      using Suc.hyps(2) block(2) by simp_all
    note IH = Suc.hyps(1) [OF this(1) inv1 prems(2) rep1 this(2,3)]
    obtain d' where d': "only_read A i d1 d' F Is" "dir_lookup_loop i name (int (Suc k * BLOCKSIZE)) (enc_dir (block_of (ess ! k))) d1 =
        Some (case dir_map (drop (Suc k) ess) name of None \<Rightarrow> of_int (- ENOENT) | Some t \<Rightarrow> t, d')"
      using IH by blast
    have "dir_map (drop k ess) name = dir_map (drop (Suc k) ess) name"
      using dir_map_at [OF k, of name] None by (simp add: first_index_map_of)
    then show ?thesis
      using d' only_read_trans [OF d1(1) d'(1)] d1(2) block None
      by (subst dir_lookup_loop.simps) (simp add: find_result_first add.commute)
  next
    case (Some j)
    note j = first_index_split [OF Some]
    have "numbers (block_of (ess ! k)) ! j = snd (ess ! k ! j)"
      using numbers_block [OF block(2), of j] j(1) entries_ok_parts(2) [OF block(2)] by simp
    moreover have "dir_map (drop k ess) name = Some (snd (ess ! k ! j))"
      using dir_map_at [OF k, of name] j(4) by simp
    ultimately show ?thesis
      using d1 block Some by (subst dir_lookup_loop.simps) (simp add: find_result_first)
  qed
qed

theorem dir_lookup_spec:
  assumes "fs_inv d F Is A" and "i \<in> A" and "dir_rep d i ess" and "length name \<le> NAME_MAX"
  shows "\<exists>d'. dir_lookup d i name = Some (case dir_map ess name of None \<Rightarrow> of_int (- ENOENT) | Some t \<Rightarrow> t, d') \<and>
    only_read A i d d' F Is"
  using dir_lookup_loop_spec [OF assms(1-3), of "uninit d BLOCKSIZE" 0 name] dir_check_dir [OF assms(1-3), of False] assms(4)
  by (auto simp: dir_lookup_def)

end
