(* ===== verification/Dir_Update.thy ===== *)
theory Dir_Update
  imports Dir_Spec
begin

text \<open>
  Insertion into a directory and removal from it: the search loops find the block to write, and
  the block written is the directory with one entry more or less.
\<close>

section \<open>One entry more or less\<close>

lemma one_entry:
  assumes less: "concat ess = xs @ ys" and more: "concat fss = xs @ (name, t) # ys"
  shows "distinct (map fst (concat fss)) = (distinct (map fst (concat ess)) \<and> dir_map ess name = None)"
    "dir_map ess name = None \<Longrightarrow> dir_map fss = (dir_map ess)(name \<mapsto> t)"
    "distinct (map fst (concat fss)) \<Longrightarrow> dir_map ess = (dir_map fss)(name := None)"
proof -
  show dist: "distinct (map fst (concat fss)) = (distinct (map fst (concat ess)) \<and> dir_map ess name = None)"
    unfolding less more by (auto simp: map_of_eq_None_iff)
  show ins: "dir_map fss = (dir_map ess)(name \<mapsto> t)" if "dir_map ess name = None"
    using that unfolding less more by (auto simp: fun_eq_iff map_add_def split: option.splits)
  show "dir_map ess = (dir_map fss)(name := None)" if "distinct (map fst (concat fss))"
    using ins that unfolding dist by (metis fun_upd_idem fun_upd_upd)
qed

lemma concat_block:
  assumes "k < length ess"
  shows "concat (ess[k := xs @ ys]) = (concat (take k ess) @ xs) @ ys @ concat (drop (Suc k) ess)"
    "ess ! k = xs @ ys \<Longrightarrow> concat ess = (concat (take k ess) @ xs) @ ys @ concat (drop (Suc k) ess)"
proof -
  show "concat (ess[k := xs @ ys]) = (concat (take k ess) @ xs) @ ys @ concat (drop (Suc k) ess)"
    using assms by (simp add: upd_conv_take_nth_drop)
  then show "ess ! k = xs @ ys \<Longrightarrow> concat ess = (concat (take k ess) @ xs) @ ys @ concat (drop (Suc k) ess)"
    by (metis list_update_id)
qed

lemma entries_ok_update:
  assumes "\<forall>es \<in> set ess. entries_ok es" and "entries_ok fs"
  shows "\<forall>es \<in> set (ess[k := fs]). entries_ok es"
  using assms set_update_subset_insert by fastforce

text \<open>Writing a block of a directory, the last one or a new one.\<close>

lemma dir_write_block:
  assumes inv: "fs_inv d F Is A" and i: "i \<in> A" and rep: "dir_rep d i ess" and k: "k \<le> length ess" and es: "entries_ok es"
    and room: "k < length ess \<or> enough d F i (fsize d i + BLOCKSIZE) \<and> fsize d i + BLOCKSIZE \<le> MAX_FILESIZE"
  shows "\<exists>d' F'. inode_write d i (int (k * BLOCKSIZE)) (Some (enc_dir (block_of es))) BLOCKSIZE = Some (BLOCKSIZE, d') \<and>
    fs_result A i d d' F' Is A \<and> same_attr (inode_at d i) (inode_at d' i) \<and> ilist_at d' i = ilist_at d i \<and>
    content d' i = dir_bytes (if k < length ess then ess[k := es] else ess @ [es])"
proof -
  have ok: "\<forall>es \<in> set ess. entries_ok es" and content: "content d i = dir_bytes ess"
    using rep by (simp_all add: dir_rep_def dir_ok_def)
  have size: "fsize d i = int (length ess * BLOCKSIZE)"
    by (rule dir_rep_size [OF inv i rep])
  have "Suc k * BLOCKSIZE \<le> length ess * BLOCKSIZE" if "k < length ess"
    using that by (intro mult_le_mono1) simp
  then have "enough d F i (int (k * BLOCKSIZE) + int BLOCKSIZE)"
    using room k enough_shrink [of "int (k * BLOCKSIZE) + int BLOCKSIZE" d i F] size by (cases "k < length ess") simp_all
  moreover have "int (k * BLOCKSIZE) + int BLOCKSIZE \<le> MAX_FILESIZE"
    using room size k fs_inv_inode(8) [OF inv i] by (cases "k < length ess") simp_all
  moreover have "data_fits (Some (enc_dir (block_of es))) (int BLOCKSIZE)"
    using es by (simp add: data_fits_def)
  moreover have pos: "k * BLOCKSIZE = (if int (k * BLOCKSIZE) = -1 then nat (fsize d i) else nat (int (k * BLOCKSIZE)))"
      "int (k * BLOCKSIZE) = -1 \<or> 0 \<le> int (k * BLOCKSIZE)"
    by (simp_all del: of_nat_mult)
  ultimately obtain d' F' where d': "inode_write d i (int (k * BLOCKSIZE)) (Some (enc_dir (block_of es))) (int BLOCKSIZE) = Some (int BLOCKSIZE, d')"
    "fs_result A i d d' F' Is A" "same_attr (inode_at d i) (inode_at d' i)" "ilist_at d' i = ilist_at d i"
    "content d' i = write_bytes (content d i) (k * BLOCKSIZE) (data_bytes (Some (enc_dir (block_of es))) BLOCKSIZE)"
    using inode_write_spec [OF inv i pos] by blast
  moreover have "data_bytes (Some (enc_dir (block_of es))) BLOCKSIZE = enc_dir (block_of es)"
    using es by (simp add: data_bytes_def)
  moreover have "write_bytes (dir_bytes ess) (k * BLOCKSIZE) (enc_dir (block_of es)) =
      dir_bytes (if k < length ess then ess[k := es] else ess @ [es])"
    using dir_bytes_update [OF ok _ es, of k] k length_dir_bytes [OF ok] by (auto simp: write_bytes_def)
  ultimately show ?thesis
    by (auto simp: content)
qed

section \<open>Insertion\<close>

text \<open>The block chosen is one of the directory's and has room for the name.\<close>

definition best_fits :: "dirent list list \<Rightarrow> nat \<Rightarrow> dir_best \<Rightarrow> bool" where
  "best_fits ess namesize best \<longleftrightarrow> (case best of None \<Rightarrow> True
     | Some (block, pos, nameoff, i) \<Rightarrow> \<exists>k < length ess. pos = int (k * BLOCKSIZE) \<and> block = block_of (ess ! k) \<and>
         nameoff = name_space (ess ! k) \<and> i = length (ess ! k) \<and> i < ENTRIES_PER_DIR_BLOCK \<and>
         nameoff + namesize < NAMESPACE_PER_DIR_BLOCK)"

lemma better_fits:
  assumes "best_fits ess n best" and "k < length ess"
  shows "best_fits ess n (better (block_of (ess ! k)) (int (k * BLOCKSIZE)) (length (ess ! k)) (name_space (ess ! k)) n best)"
  using assms by (auto simp: best_fits_def better_def)

lemma dir_insert_loop_spec:
  assumes "fs_inv d F Is A" and "i \<in> A" and "dir_rep d i ess" and "length buf = BLOCKSIZE" and "k \<le> length ess"
    and "best_fits ess (length name) best"
  shows "\<exists>d' best'. only_read A i d d' F Is \<and> best_fits ess (length name) best' \<and>
    dir_insert_loop i name (int (k * BLOCKSIZE)) buf best d =
    Some (case dir_map (drop k ess) name of None \<Rightarrow> Inr (int (length ess * BLOCKSIZE), best') | Some _ \<Rightarrow> Inl (), d')"
  using assms
proof (induction "length ess - k" arbitrary: k buf d best)
  case 0
  then obtain d' where "only_read A i d d' F Is" "inode_read d i (int (k * BLOCKSIZE)) buf BLOCKSIZE = Some (0, buf, d')"
    using dir_read_step [of d F Is A i ess buf k] by auto
  then show ?case
    using 0 by (subst dir_insert_loop.simps) auto
next
  case (Suc m)
  note prems = Suc.prems
  have k: "k < length ess"
    using Suc.hyps(2) by simp
  let ?buf = "enc_dir (block_of (ess ! k))"
  obtain d1 where d1: "only_read A i d d1 F Is" "inode_read d i (int (k * BLOCKSIZE)) buf BLOCKSIZE = Some (BLOCKSIZE, ?buf, d1)"
    using dir_read_step [OF prems(1-4), of k] k by auto
  note block = dir_find_dec [OF prems(3) k]
  show ?case
  proof (cases "first_index (\<lambda>e. fst e = name) (ess ! k)")
    case None
    note rep1 = dir_rep_read [OF d1(1) prems(3)] and inv1 = only_read_inv [OF d1(1)]
    have "m = length ess - Suc k" "length ?buf = BLOCKSIZE" "Suc k \<le> length ess"
      using Suc.hyps(2) block(2) by simp_all
    note IH = Suc.hyps(1) [OF this(1) inv1 prems(2) rep1 this(2,3) better_fits [OF prems(6) k]]
    obtain d' best' where d': "only_read A i d1 d' F Is" "best_fits ess (length name) best'"
      "dir_insert_loop i name (int (Suc k * BLOCKSIZE)) ?buf
        (better (block_of (ess ! k)) (int (k * BLOCKSIZE)) (length (ess ! k)) (name_space (ess ! k)) (length name) best) d1 =
        Some (case dir_map (drop (Suc k) ess) name of None \<Rightarrow> Inr (int (length ess * BLOCKSIZE), best') | Some _ \<Rightarrow> Inl (), d')"
      using IH by blast
    have "dir_map (drop k ess) name = dir_map (drop (Suc k) ess) name"
      using dir_map_at [OF k, of name] None by (simp add: first_index_map_of)
    moreover have "dir_insert_loop i name (int (k * BLOCKSIZE)) buf best d = dir_insert_loop i name (int (Suc k * BLOCKSIZE)) ?buf
        (better (block_of (ess ! k)) (int (k * BLOCKSIZE)) (length (ess ! k)) (name_space (ess ! k)) (length name) best) d1"
      using d1(2) block None by (subst dir_insert_loop.simps) (simp add: find_result_first add.commute Let_def)
    ultimately show ?thesis
      using d' only_read_trans [OF d1(1) d'(1)] by auto
  next
    case (Some j)
    note j = first_index_split [OF Some]
    have "dir_map (drop k ess) name = Some (snd (ess ! k ! j))"
      using dir_map_at [OF k, of name] j(4) by simp
    then show ?thesis
      using d1 block Some prems(6) by (subst dir_insert_loop.simps) (auto simp: find_result_first)
  qed
qed

theorem dir_insert_exists:
  assumes "fs_inv d F Is A" and "i \<in> A" and "dir_rep d i ess" and "length name \<le> NAME_MAX" and "dir_map ess name \<noteq> None"
  shows "\<exists>d'. dir_insert d i name target = Some (- EEXIST, d') \<and> only_read A i d d' F Is"
proof -
  have "ess \<noteq> []"
    using assms(5) by auto
  then have check: "dir_check d i True = Some (Inr (inode_info.truncate (inode_at d i)))"
    using dir_check_dir [OF assms(1-3)] by blast
  show ?thesis
    using dir_insert_loop_spec [OF assms(1-3), of "uninit d BLOCKSIZE" 0 name None] check assms(4,5)
    by (auto simp: dir_insert_def best_fits_def)
qed

theorem dir_insert_spec:
  assumes inv: "fs_inv d F Is A" and i: "i \<in> A" and rep: "dir_rep d i ess" and alive: "ess \<noteq> []"
    and name: "length name \<le> NAME_MAX" "0 \<notin> set name" "dir_map ess name = None" and target: "target \<noteq> EOF"
    and room: "enough d F i (fsize d i + BLOCKSIZE)" "fsize d i + BLOCKSIZE \<le> MAX_FILESIZE"
  shows "\<exists>d' F' ess'. dir_insert d i name target = Some (0, d') \<and> fs_result A i d d' F' Is A \<and>
    dir_rep d' i ess' \<and> ess' \<noteq> [] \<and> dir_map ess' = (dir_map ess)(name \<mapsto> target) \<and> same_attr (inode_at d i) (inode_at d' i) \<and>
    length ess' \<le> Suc (length ess)"
proof -
  have ok: "\<forall>es \<in> set ess. entries_ok es" and dist: "distinct (map fst (concat ess))"
    using rep by (simp_all add: dir_rep_def dir_ok_def)
  obtain d1 best where d1: "only_read A i d d1 F Is" "best_fits ess (length name) best"
    "dir_insert_loop i name 0 (uninit d BLOCKSIZE) None d = Some (Inr (int (length ess * BLOCKSIZE), best), d1)"
    using dir_insert_loop_spec [OF inv i rep, of "uninit d BLOCKSIZE" 0 name None] name(3) by (auto simp: best_fits_def)
  note rep1 = dir_rep_read [OF d1(1) rep] and inv1 = only_read_inv [OF d1(1)]
  have size: "fsize d1 i = fsize d i" and attr: "same_attr (inode_at d i) (inode_at d1 i)"
    using d1(1) by (simp_all add: only_read_def)
  have room1: "enough d1 F i (fsize d1 i + BLOCKSIZE)" "fsize d1 i + BLOCKSIZE \<le> MAX_FILESIZE"
    using room only_read_enough [OF d1(1)] size by simp_all
  define sel where "sel = (case best of None \<Rightarrow> (empty_dir_block, int (length ess * BLOCKSIZE), 0, 0) | Some b \<Rightarrow> b)"
  obtain k es where k: "k \<le> length ess" "es = (if k < length ess then ess ! k else [])" "length es < 128"
      "name_space es + length name < 3072" and sel: "sel = (block_of es, int (k * BLOCKSIZE), name_space es, length es)"
  proof (cases best)
    case None
    then show ?thesis
      using that [of "length ess" "[]"] name(1) by (simp add: sel_def empty_block)
  next
    case (Some b)
    then show ?thesis
      using that d1(2) by (auto simp: best_fits_def sel_def)
  qed
  have es: "entries_ok es"
    using k(2) ok by simp
  let ?es = "es @ [(name, target)]"
  note ins = insert_block [OF es k(3,4), of target] and new = entries_ok_insert [OF es k(3,4) name(2) target]
  let ?ess = "if k < length ess then ess[k := ?es] else ess @ [?es]"
  obtain d2 F' where d2: "inode_write d1 i (int (k * BLOCKSIZE)) (Some (enc_dir (block_of ?es))) BLOCKSIZE = Some (BLOCKSIZE, d2)"
    "fs_result A i d1 d2 F' Is A" "same_attr (inode_at d1 i) (inode_at d2 i)" "content d2 i = dir_bytes ?ess"
    using dir_write_block [OF inv1 i rep1 k(1) new] room1 by blast
  have check: "dir_check d i True = Some (Inr (inode_info.truncate (inode_at d i)))"
    using dir_check_dir [OF inv i rep] alive by blast
  obtain xs ys where parts: "concat ess = xs @ ys" "concat ?ess = xs @ (name, target) # ys"
  proof (cases "k < length ess")
    case True
    then have "ess ! k = es @ []"
      using k(2) by simp
    from concat_block(2) [OF True this]
    have "concat ess = (concat (take k ess) @ es) @ concat (drop (Suc k) ess)"
      by simp
    moreover have "concat ?ess = (concat (take k ess) @ es) @ (name, target) # concat (drop (Suc k) ess)"
      using concat_block(1) [OF True, of es "[(name, target)]"] True by simp
    ultimately show ?thesis
      by (rule that)
  next
    case False
    then show ?thesis
      using that [of "concat ess" "[]"] k(1,2) by simp
  qed
  note entry = one_entry [OF parts]
  have shape: "proper ?ess"
    using proper_insert [OF _ k(1), of "(name, target)"] rep k(2) by (auto simp: dir_rep_def dir_ok_def)
  have "dir_ok ?ess"
    unfolding dir_ok_def entry(1) using dist name(3) entries_ok_update [OF ok new, of k] ok new shape by (simp del: concat_append)
  then have "dir_rep d2 i ?ess"
    using rep1 d2(3,4) by (simp add: dir_rep_def same_attr_def)
  moreover have "fs_result A i d d2 F' Is A"
    by (rule only_read_result [OF d1(1) d2(2)])
  moreover have "dir_insert d i name target = Some (0, d2)"
    using check name(1) d1(3) d2(1) sel ins by (simp add: dir_insert_def Let_def sel_def [symmetric] del: of_nat_mult)
  moreover have "?ess \<noteq> []" "length ?ess \<le> Suc (length ess)"
    using alive by simp_all
  ultimately show ?thesis
    using entry(2) [OF name(3)] same_attr_trans [OF attr d2(3)] by blast
qed

section \<open>Removal\<close>

text \<open>
  \<open>empties k ess c\<close>: exactly the \<open>c\<close> blocks before block \<open>k\<close> are empty.  When the last entry of the
  last block goes, they are cut off with it.
\<close>

definition empties :: "nat \<Rightarrow> dirent list list \<Rightarrow> nat \<Rightarrow> bool" where
  "empties k ess c \<longleftrightarrow> c \<le> k \<and> concat (take k ess) = concat (take (k - c) ess) \<and> (c < k \<longrightarrow> ess ! (k - c - 1) \<noteq> [])"

lemma empties_step:
  assumes "empties k ess c" and "k < length ess"
  shows "empties (Suc k) ess (if 0 < length (ess ! k) then 0 else c + 1)"
  using assms by (auto simp: empties_def take_Suc_conv_app_nth)

definition remove_result :: "ino set \<Rightarrow> ino \<Rightarrow> byte list \<Rightarrow> dirent list list \<Rightarrow> 'x posix_env_scheme \<Rightarrow> 'x posix_env_scheme \<Rightarrow>
    blockno set \<Rightarrow> ino list \<Rightarrow> dirent list list \<Rightarrow> bool" where
  "remove_result A i name ess d d' F' Is ess' \<longleftrightarrow> fs_result A i d d' F' Is A \<and> dir_rep d' i ess' \<and>
     dir_map ess' = (dir_map ess)(name := None) \<and> same_attr (inode_at d i) (inode_at d' i) \<and> length ess' \<le> length ess"

lemma proper_cut:
  assumes "proper ess" and last: "length ess = Suc k" and entry: "ess ! k = [(name, t)]" and empt: "empties k ess c"
  shows "proper (take (k - c) ess)"
proof -
  obtain up self es where hd: "ess ! 0 = ([DOT, DOT], up) # ([DOT], self) # es" "hd ess = ess ! 0"
    using proper_hd [OF assms(1)] .
  have "0 < k"
    using hd(1) entry by (cases k) auto
  then have "concat (take k ess) \<noteq> []"
    using hd last by (cases ess; cases k) auto
  then have "concat (take (k - c) ess) \<noteq> []"
    using empt unfolding empties_def by metis
  then have "c < k"
    by (cases "c < k") simp_all
  then have "ess ! (k - c - 1) \<noteq> []" "length (take (k - c) ess) = k - c" "hd (take (k - c) ess) = hd ess"
    using empt last by (cases ess; simp add: empties_def take_Cons')+
  then show ?thesis
    using assms(1) \<open>c < k\<close> by (auto simp: proper_def last_conv_nth)
qed

lemma remove_last_block:
  assumes inv: "fs_inv d F Is A" and i: "i \<in> A" and rep: "dir_rep d i ess" and last: "length ess = Suc k"
    and entry: "ess ! k = [(name, t)]" and empt: "empties k ess c"
  shows "\<exists>d' F' newsize. inode_truncate d i (int (k * BLOCKSIZE) - int c * BLOCKSIZE) = Some (newsize, d') \<and> 0 \<le> newsize \<and>
    remove_result A i name ess d d' F' Is (take (k - c) ess)"
proof -
  have ok: "\<forall>es \<in> set ess. entries_ok es" and dist: "distinct (map fst (concat ess))" and content: "content d i = dir_bytes ess"
    using rep by (simp_all add: dir_rep_def dir_ok_def)
  have c: "c \<le> k" "concat (take k ess) = concat (take (k - c) ess)"
    using empt by (simp_all add: empties_def)
  let ?n = "(k - c) * BLOCKSIZE" and ?ess = "take (k - c) ess"
  have n: "int (k * BLOCKSIZE) - int c * BLOCKSIZE = int ?n"
    using c(1) by (simp add: of_nat_diff diff_mult_distrib)
  have size: "fsize d i = int (length ess * BLOCKSIZE)"
    by (rule dir_rep_size [OF inv i rep])
  have le: "int ?n \<le> fsize d i"
    using size last by simp
  have room: "enough d F i (int ?n)"
    by (rule enough_shrink [OF _ le]) simp
  have "int ?n \<le> MAX_FILESIZE"
    using le fs_inv_inode(8) [OF inv i] by linarith
  from inode_truncate_spec [OF inv i _ this disjI1 [OF room]]
  obtain newsize d' F' where d': "inode_truncate d i (int ?n) = Some (newsize, d')" "newsize = int ?n" "fs_result A i d d' F' Is A"
    "content d' i = truncate_bytes (content d i) (nat newsize)" "same_attr (inode_at d i) (inode_at d' i)"
    using room by auto
  have ok': "\<forall>es \<in> set ?ess. entries_ok es"
    using ok in_set_takeD by metis
  have "dir_bytes ess = dir_bytes ?ess @ dir_bytes (drop (k - c) ess)"
    by (simp flip: dir_bytes_append)
  moreover have "length (dir_bytes ?ess) = ?n"
    using length_dir_bytes [OF ok'] last by simp
  ultimately have "truncate_bytes (dir_bytes ess) ?n = dir_bytes ?ess"
    using le size length_dir_bytes [OF ok] by (simp add: truncate_bytes_def)
  then have bytes: "content d' i = dir_bytes ?ess"
    using d'(2,4) content by (simp del: of_nat_mult)
  have parts: "concat ?ess = concat (take k ess) @ []" "concat ess = concat (take k ess) @ (name, t) # []"
    using c(2) concat_block(2) [of k ess "[(name, t)]" "[]"] entry last by simp_all
  note one = one_entry [OF parts]
  have "proper ?ess"
    using proper_cut [OF _ last entry empt] rep by (simp add: dir_rep_def dir_ok_def)
  then have "dir_rep d' i ?ess"
    using rep d'(5) bytes ok' dist one(1) by (simp add: dir_rep_def dir_ok_def same_attr_def)
  then have "remove_result A i name ess d d' F' Is ?ess"
    using d'(3,5) one(3) [OF dist] by (simp add: remove_result_def)
  then show ?thesis
    using d'(1,2) unfolding n by (intro exI [of _ d'] exI [of _ F'] exI [of _ newsize]) simp
qed

lemma remove_one_entry:
  assumes inv: "fs_inv d F Is A" and i: "i \<in> A" and rep: "dir_rep d i ess" and k: "k < length ess"
    and first: "first_index (\<lambda>e. fst e = name) (ess ! k) = Some j"
    and name: "name \<noteq> [DOT]" "name \<noteq> [DOT, DOT]" and rest: "Suc k = length ess \<Longrightarrow> length (ess ! k) \<noteq> 1"
  shows "\<exists>d' F' ess'. inode_write d i (int (k * BLOCKSIZE))
      (Some (enc_dir (remove_entry (block_of (ess ! k)) j (name_space (take j (ess ! k))) (length name)))) BLOCKSIZE =
      Some (BLOCKSIZE, d') \<and> remove_result A i name ess d d' F' Is ess'"
proof -
  have ok: "\<forall>es \<in> set ess. entries_ok es" and dist: "distinct (map fst (concat ess))"
    using rep by (simp_all add: dir_rep_def dir_ok_def)
  note block = dir_find_dec(2) [OF rep k] and j = first_index_split [OF first]
  let ?a = "take j (ess ! k)" and ?b = "drop (Suc j) (ess ! k)"
  let ?ess = "ess[k := ?a @ ?b]"
  have new: "entries_ok (?a @ ?b)"
    by (rule entries_ok_remove [OF block])
  obtain d' F' where d': "inode_write d i (int (k * BLOCKSIZE)) (Some (enc_dir (block_of (?a @ ?b)))) BLOCKSIZE = Some (BLOCKSIZE, d')"
    "fs_result A i d d' F' Is A" "same_attr (inode_at d i) (inode_at d' i)" "content d' i = dir_bytes ?ess"
    using dir_write_block [OF inv i rep less_imp_le [OF k] new] k by auto
  have parts: "concat ?ess = (concat (take k ess) @ ?a) @ (?b @ concat (drop (Suc k) ess))"
    "concat ess = (concat (take k ess) @ ?a) @ (name, snd (ess ! k ! j)) # (?b @ concat (drop (Suc k) ess))"
    using concat_block(1) [OF k, of ?a ?b] concat_block(2) [OF k j(2)] by simp_all
  note one = one_entry [OF parts]
  have "proper ?ess"
    using proper_remove [OF _ k j(1)] first_index_SomeD [OF first] name rest rep by (auto simp: dir_rep_def dir_ok_def)
  then have "dir_ok ?ess"
    unfolding dir_ok_def using dist one(1) entries_ok_update [OF ok new, of k] by blast
  then have "dir_rep d' i ?ess"
    using rep d'(3,4) by (simp add: dir_rep_def same_attr_def)
  then have "remove_result A i name ess d d' F' Is ?ess"
    using d'(2,3) one(3) [OF dist] by (simp add: remove_result_def)
  then show ?thesis
    using d'(1) unfolding remove_block [OF block first] by blast
qed

lemma remove_result_read:
  assumes "only_read A i d d1 F Is" and "remove_result A i name ess d1 d' F' Is ess'"
  shows "remove_result A i name ess d d' F' Is ess'"
  using assms only_read_result [OF assms(1)] same_attr_trans by (auto simp: remove_result_def only_read_def)

text \<open>The removed inode with the directory without the name, or an error.\<close>

definition remove_outcome :: "ino set \<Rightarrow> ino \<Rightarrow> byte list \<Rightarrow> dirent list list \<Rightarrow> 'x posix_env_scheme \<Rightarrow>
    blockno set \<Rightarrow> ino list \<Rightarrow> (ino \<times> 'x posix_env_scheme) option \<Rightarrow> bool" where
  "remove_outcome A i name ess d F Is r \<longleftrightarrow> (case dir_map ess name of
      None \<Rightarrow> \<exists>d'. r = Some (of_int (- ENOENT), d') \<and> only_read A i d d' F Is
    | Some t \<Rightarrow> \<exists>d' F' ess'. r = Some (t, d') \<and> remove_result A i name ess d d' F' Is ess')"

lemma remove_outcome_read:
  assumes "only_read A i d d1 F Is" and "remove_outcome A i name ess d1 F Is r"
  shows "remove_outcome A i name ess d F Is r"
  using assms(2) only_read_trans [OF assms(1)] remove_result_read [OF assms(1)]
  unfolding remove_outcome_def by (cases "dir_map ess name") (simp; blast)+

lemma dir_remove_loop_spec:
  assumes "fs_inv d F Is A" and "i \<in> A" and "dir_rep d i ess" and "length buf = BLOCKSIZE" and "k \<le> length ess"
    and "empties k ess c" and "sint (isize info) = int (length ess * BLOCKSIZE)" and "dir_map (take k ess) name = None"
    and name: "name \<noteq> [DOT]" "name \<noteq> [DOT, DOT]"
  shows "remove_outcome A i name ess d F Is (dir_remove_loop i name info (int (k * BLOCKSIZE)) (int c) buf d)"
  using assms
proof (induction "length ess - k" arbitrary: k c buf d)
  case 0
  then obtain d' where "only_read A i d d' F Is" "inode_read d i (int (k * BLOCKSIZE)) buf BLOCKSIZE = Some (0, buf, d')"
    using dir_read_step [of d F Is A i ess buf k] by auto
  moreover have "dir_map ess name = None"
    using 0 by simp
  ultimately show ?case
    by (subst dir_remove_loop.simps) (simp add: remove_outcome_def)
next
  case (Suc m)
  note prems = Suc.prems
  have k: "k < length ess"
    using Suc.hyps(2) by simp
  let ?buf = "enc_dir (block_of (ess ! k))"
  obtain d1 where d1: "only_read A i d d1 F Is" "inode_read d i (int (k * BLOCKSIZE)) buf BLOCKSIZE = Some (BLOCKSIZE, ?buf, d1)"
    using dir_read_step [OF prems(1-4), of k] k by auto
  note block = dir_find_dec [OF prems(3) k]
  note rep1 = dir_rep_read [OF d1(1) prems(3)] and inv1 = only_read_inv [OF d1(1)]
  show ?case
  proof (cases "first_index (\<lambda>e. fst e = name) (ess ! k)")
    case None
    let ?c = "if 0 < length (ess ! k) then 0 else c + 1"
    have hyps: "m = length ess - Suc k" "length ?buf = BLOCKSIZE" "Suc k \<le> length ess"
      using Suc.hyps(2) block(2) by simp_all
    have "dir_map (take (Suc k) ess) name = None"
      using None prems(8) k by (simp add: take_Suc_conv_app_nth map_add_def first_index_map_of)
    note IH = Suc.hyps(1) [OF hyps(1) inv1 prems(2) rep1 hyps(2,3) empties_step [OF prems(6) k] prems(7) this prems(9,10)]
    have "dir_remove_loop i name info (int (k * BLOCKSIZE)) (int c) buf d =
        dir_remove_loop i name info (int (Suc k * BLOCKSIZE)) (int ?c) ?buf d1"
      using d1(2) block None by (subst dir_remove_loop.simps) (simp add: find_result_first add.commute Let_def)
    then show ?thesis
      using remove_outcome_read [OF d1(1) IH] by (simp only:)
  next
    case (Some j)
    note j = first_index_split [OF Some]
    have j128: "j < 128"
      using j(1) entries_ok_parts(2) [OF block(2)] by simp
    have t: "numbers (block_of (ess ! k)) ! j = snd (ess ! k ! j)"
      using numbers_block [OF block(2) j128] j(1) by simp
    have map: "dir_map ess name = Some (snd (ess ! k ! j))"
      using dir_map_at [OF k, of name] j(4) prems(8) map_of_append [of "concat (take k ess)" "concat (drop k ess)"]
      by (simp add: map_add_def flip: concat_append)
    show ?thesis
    proof (cases "j = 0 \<and> numbers (block_of (ess ! k)) ! 1 = EOF \<and> Suc k = length ess")
      case True
      have "\<not> 1 < length (ess ! k)"
      proof
        assume "1 < length (ess ! k)"
        then have "entry_ok (ess ! k ! 1)"
          using entries_ok_parts(1) [OF block(2)] by simp
        then show False
          using True numbers_block [OF block(2), of 1] \<open>1 < length (ess ! k)\<close> by (simp add: entry_ok_def)
      qed
      then have entry: "ess ! k = [(name, snd (ess ! k ! j))]"
        using j(2) True by (simp add: not_less)
      obtain d' F' newsize where d': "inode_truncate d1 i (int (k * BLOCKSIZE) - int c * BLOCKSIZE) = Some (newsize, d')" "0 \<le> newsize"
        "remove_result A i name ess d1 d' F' Is (take (k - c) ess)"
        using remove_last_block [OF inv1 prems(2) rep1 _ entry prems(6)] True by auto
      have "dir_remove_loop i name info (int (k * BLOCKSIZE)) (int c) buf d = Some (snd (ess ! k ! j), d')"
        using d1(2) block Some True t prems(7) d'(1,2) by (subst dir_remove_loop.simps) (simp add: find_result_first Let_def)
      moreover note remove_result_read [OF d1(1) d'(3)]
      ultimately show ?thesis
        using map by (auto simp: remove_outcome_def)
    next
      case False
      have more: "length (ess ! k) \<noteq> 1" if "Suc k = length ess"
        using False that j(1) numbers_block [OF block(2), of 1] by auto
      obtain d' F' ess' where d': "inode_write d1 i (int (k * BLOCKSIZE))
          (Some (enc_dir (remove_entry (block_of (ess ! k)) j (name_space (take j (ess ! k))) (length name)))) BLOCKSIZE =
          Some (BLOCKSIZE, d')" "remove_result A i name ess d1 d' F' Is ess'"
        using remove_one_entry [OF inv1 prems(2) rep1 k Some name more] by auto
      have not_last: "\<not> (j = 0 \<and> numbers (block_of (ess ! k)) ! 1 = EOF \<and> int (k * BLOCKSIZE) + 4096 = int (length ess * BLOCKSIZE))"
        using False by auto
      have "dir_remove_loop i name info (int (k * BLOCKSIZE)) (int c) buf d = Some (snd (ess ! k ! j), d')"
        using d1(2) block Some not_last t prems(7) d'(1)
        by (subst dir_remove_loop.simps) (auto simp: find_result_first Let_def simp del: of_nat_mult)
      then show ?thesis
        using map remove_result_read [OF d1(1) d'(2)] by (auto simp: remove_outcome_def)
    qed
  qed
qed

theorem dir_remove_spec:
  assumes inv: "fs_inv d F Is A" and i: "i \<in> A" and rep: "dir_rep d i ess" and alive: "ess \<noteq> []"
    and name: "length name \<le> NAME_MAX" "name \<noteq> [DOT]" "name \<noteq> [DOT, DOT]"
  shows "remove_outcome A i name ess d F Is (dir_remove d i name)"
proof -
  let ?info = "inode_info.truncate (inode_at d i)"
  have check: "dir_check d i True = Some (Inr ?info)"
    using dir_check_dir [OF inv i rep] alive by blast
  have eq: "dir_remove d i name = dir_remove_loop i name ?info 0 0 (uninit d BLOCKSIZE) d"
    using check name by (simp add: dir_remove_def)
  have "sint (isize ?info) = int (length ess * BLOCKSIZE)"
    using dir_rep_size [OF inv i rep] by (simp add: fsize_def inode_info.truncate_def)
  then show ?thesis
    using dir_remove_loop_spec [OF inv i rep, of "uninit d BLOCKSIZE" 0 0 ?info name] name(2,3) unfolding eq by (simp add: empties_def)
qed

end
