(* ===== verification/Dir_Life.thy ===== *)
theory Dir_Life
  imports Dir_Update
begin

text \<open>Creating, destroying and moving directories.\<close>

lemma DOT_nonzero [simp]: "DOT \<noteq> 0" "0 \<noteq> DOT"
  by (simp_all add: DOT_def)

definition new_dir :: "ino \<Rightarrow> ino \<Rightarrow> dirent list list" where
  "new_dir parent i = [[([DOT, DOT], parent), ([DOT], i)]]"

lemma new_dir_ok:
  assumes "parent \<noteq> EOF" and "i \<noteq> EOF"
  shows "dir_ok (new_dir parent i)" "dir_bytes (new_dir parent i) = enc_dir (new_dir_block parent i)"
    "length (enc_dir (new_dir_block parent i)) = BLOCKSIZE"
proof -
  have ok: "entries_ok [([DOT, DOT], parent), ([DOT], i)]"
    using assms by (simp add: entries_ok_def entry_ok_def)
  then show "dir_ok (new_dir parent i)" "dir_bytes (new_dir parent i) = enc_dir (new_dir_block parent i)"
    "length (enc_dir (new_dir_block parent i)) = BLOCKSIZE"
    by (simp_all add: new_dir_def dir_ok_def proper_def new_block)
qed

lemma one_block: "blockcount_of (int BLOCKSIZE) = 1"
  by (simp add: blockcount_nonneg)

theorem dir_create_spec:
  assumes inv: "fs_inv d F (i # Is) A" and room: "2 \<le> card F" and parent: "parent \<noteq> EOF"
  shows "\<exists>d' F'. dir_create d parent = Some (i, d') \<and> fs_result A i d d' F' Is (insert i A) \<and> i \<notin> A \<and>
    dir_rep d' i (new_dir parent i) \<and> fresh_attr (inode_at d' i) (S_IFDIR OR 0x1FF)"
proof -
  have len: "length (enc_dir (new_dir_block parent i)) = 4096"
    by (rule dir_codec.length_enc) (simp add: new_dir_block_def dir_block_ok_def)
  have "blockcount_of (int BLOCKSIZE) < int (card F)" "int BLOCKSIZE \<le> 496 * BLOCKSIZE"
    using room unfolding one_block by simp_all
  then obtain d1 d2 d3 F' where c: "inode_allocate d = Some (i, d1)" "0 \<le> sint i" "i \<noteq> EOF"
    "inode_chmod d1 i (S_IFDIR OR 0x1FF) = Some (0, d2)"
    "inode_write d2 i 0 (Some (enc_dir (new_dir_block parent i))) BLOCKSIZE = Some (BLOCKSIZE, d3)"
    "fs_result A i d d3 F' Is (insert i A)" "i \<notin> A" "fresh_attr (inode_at d3 i) (S_IFDIR OR 0x1FF)"
    "content d3 i = enc_dir (new_dir_block parent i)"
    using create_bytes [OF inv _ _ len, of "S_IFDIR OR 0x1FF"] by auto
  have "dir_create d parent = Some (i, d3)"
    using c(1,2,4,5) by (simp add: dir_create_def)
  moreover have "dir_rep d3 i (new_dir parent i)"
    using c(8,9) new_dir_ok [OF parent c(3)] by (simp add: dir_rep_def fresh_attr_def)
  ultimately show ?thesis
    using c(6-8) by blast
qed

theorem dir_create_full:
  assumes inv: "fs_inv d F Is A" and full: "card F < 2 \<or> Is = []"
  shows "\<exists>d'. dir_create d parent = Some (of_int (- ENOSPC), d') \<and> fs_inv d' F Is A \<and> (\<forall>j \<in> A. same_file d d' j) \<and> changed UNIV d d'"
proof (cases "F = {} \<or> Is = []")
  case True
  then show ?thesis
    using inode_allocate_full [OF inv] by (auto simp: dir_create_def)
next
  case False
  then obtain i Is' where Is: "Is = i # Is'"
    by (cases Is) auto
  have "int (card F) \<le> blockcount_of (int BLOCKSIZE)" "int BLOCKSIZE \<le> 496 * BLOCKSIZE"
    using full False unfolding one_block by auto
  then obtain d1 d2 d3 d4 where "inode_allocate d = Some (i, d1)" "0 \<le> sint i" "inode_chmod d1 i (S_IFDIR OR 0x1FF) = Some (0, d2)"
    "inode_write d2 i 0 (Some (enc_dir (new_dir_block parent i))) BLOCKSIZE = Some (0, d3)" "inode_free d3 i = Some (0, d4)"
    "fs_inv d4 F (i # Is') A" "\<forall>j \<in> A. same_file d d4 j" "changed UNIV d d4"
    using create_rollback [OF inv [unfolded Is], of BLOCKSIZE] False by fastforce
  then show ?thesis
    unfolding Is by (simp add: dir_create_def)
qed

section \<open>Destroying\<close>

text \<open>Only a directory with nothing but its first two entries goes; its size of 4095 marks it.\<close>

lemma dir_read_block_spec:
  assumes inv: "fs_inv d F Is A" and i: "i \<in> A" and rep: "dir_rep d i ess" and alive: "ess \<noteq> []"
  shows "\<exists>d'. dir_read_block d i = Some (block_of (ess ! 0), d') \<and> only_read A i d d' F Is"
proof -
  obtain d' where "only_read A i d d' F Is" "inode_read d i 0 (uninit d BLOCKSIZE) BLOCKSIZE = Some (BLOCKSIZE, enc_dir (block_of (ess ! 0)), d')"
    using dir_read_step [OF inv i rep length_uninit [of d], of 0] alive by auto
  then show ?thesis
    using dir_find_dec(1) [OF rep, of 0] alive by (simp add: dir_read_block_def)
qed

definition dead_dir :: "'x disk_t_scheme \<Rightarrow> ino \<Rightarrow> bool" where
  "dead_dir d i \<longleftrightarrow> S_ISDIR (imode (inode_at d i)) \<and> fsize d i = BLOCKSIZE - 1"

theorem dir_destroy_spec:
  assumes inv: "fs_inv d F Is A" and i: "i \<in> A" and rep: "dir_rep d i [es]" and two: "length es \<le> 2"
  shows "\<exists>d' F'. dir_destroy d i = Some (0, d') \<and> fs_result A i d d' F' Is A \<and> dead_dir d' i \<and>
    same_attr (inode_at d i) (inode_at d' i)"
proof -
  obtain d1 where d1: "dir_read_block d i = Some (block_of es, d1)" "only_read A i d d1 F Is"
    using dir_read_block_spec [OF inv i rep] by auto
  note inv1 = only_read_inv [OF d1(2)] and rep1 = dir_rep_read [OF d1(2) rep]
  have size: "fsize d i = 4096" "fsize d1 i = 4096"
    using dir_rep_size [OF inv i rep] dir_rep_size [OF inv1 i rep1] by simp_all
  have room: "enough d1 F i 4095"
    by (rule enough_shrink) (simp_all add: size)
  have "0 \<le> (4095 :: int)" "(4095 :: int) \<le> MAX_FILESIZE"
    by (simp_all add: MAX_FILESIZE_def)
  from inode_truncate_spec [OF inv1 i this disjI1 [OF room]]
  obtain d2 F' where d2: "inode_truncate d1 i 4095 = Some (4095, d2)" "fs_result A i d1 d2 F' Is A"
    "content d2 i = truncate_bytes (content d1 i) 4095" "same_attr (inode_at d1 i) (inode_at d2 i)"
    using room by auto
  have "nat (fsize d2 i) = 4095"
    using length_content [of d2 i] length_content [of d1 i] size(2) unfolding d2(3) by (simp add: truncate_bytes_def)
  then have size2: "fsize d2 i = 4095"
    by simp
  have attr: "same_attr (inode_at d i) (inode_at d2 i)"
    using d1(2) same_attr_trans d2(4) unfolding only_read_def by blast
  have "numbers (block_of es) ! 2 = EOF"
    using numbers_block [of es 2] rep two by (simp add: dir_rep_def dir_ok_def)
  then have "dir_destroy d i = Some (0, d2)"
    using dir_check_dir [OF inv i rep, of True] size(1) d1(1) d2(1) by (simp add: dir_destroy_def fsize_def inode_info.truncate_def)
  then show ?thesis
    using only_read_result [OF d1(2) d2(2)] attr size2 rep by (auto simp: dead_dir_def dir_rep_def same_attr_def)
qed

theorem dir_destroy_nonempty:
  assumes inv: "fs_inv d F Is A" and i: "i \<in> A" and rep: "dir_rep d i ess" and full: "1 < length ess \<or> (\<exists>es. ess = [es] \<and> 2 < length es)"
  shows "\<exists>d'. dir_destroy d i = Some (- ENOTEMPTY, d') \<and> only_read A i d d' F Is"
proof -
  have alive: "ess \<noteq> []"
    using full by auto
  note check = dir_check_dir [OF inv i rep, of True] and size = dir_rep_size [OF inv i rep]
  show ?thesis
  proof (cases "1 < length ess")
    case True
    then have "4096 < fsize d i"
      using size by simp
    then show ?thesis
      using check alive only_read_refl [OF inv] by (auto simp: dir_destroy_def fsize_def inode_info.truncate_def)
  next
    case False
    then obtain es where es: "ess = [es]" "2 < length es"
      using full by blast
    obtain d1 where d1: "dir_read_block d i = Some (block_of es, d1)" "only_read A i d d1 F Is"
      using dir_read_block_spec [OF inv i rep alive] es(1) by auto
    have ok: "entries_ok es"
      using rep es(1) by (simp add: dir_rep_def dir_ok_def)
    then have "entry_ok (es ! 2)"
      using entries_ok_parts(1) es(2) by simp
    then have "numbers (block_of es) ! 2 \<noteq> EOF"
      using numbers_block [OF ok, of 2] es(2) by (simp add: entry_ok_def)
    then show ?thesis
      using check alive size es(1) d1 by (auto simp: dir_destroy_def fsize_def inode_info.truncate_def)
  qed
qed

text \<open>A destroyed directory takes no new entries and loses none.\<close>

theorem dead_dir_refuses:
  assumes inv: "fs_inv d F Is A" and i: "i \<in> A" and dead: "dead_dir d i"
  shows "dir_insert d i name target = Some (- ENOENT, d)" "dir_remove d i name = Some (of_int (- ENOENT), d)"
    "dir_destroy d i = Some (- ENOENT, d)" "dir_reparent d i parent = Some (- ENOENT, d)"
  using dir_check_eq [OF inv i, of True] dead
  by (simp_all add: dead_dir_def dir_insert_def dir_remove_def dir_destroy_def dir_reparent_def)

section \<open>Moving\<close>

theorem dir_reparent_spec:
  assumes inv: "fs_inv d F Is A" and i: "i \<in> A" and rep: "dir_rep d i (((up, p) # ([DOT], i) # es) # ess)"
    and parent: "parent \<noteq> EOF"
  shows "\<exists>d' F'. dir_reparent d i parent = Some (0, d') \<and> fs_result A i d d' F' Is A \<and>
    dir_rep d' i (((up, parent) # ([DOT], i) # es) # ess) \<and> same_attr (inode_at d i) (inode_at d' i)"
proof -
  let ?old = "(up, p) # ([DOT], i) # es" and ?new = "(up, parent) # ([DOT], i) # es"
  obtain d1 where d1: "dir_read_block d i = Some (block_of ?old, d1)" "only_read A i d d1 F Is"
    using dir_read_block_spec [OF inv i rep] by auto
  note inv1 = only_read_inv [OF d1(2)] and rep1 = dir_rep_read [OF d1(2) rep]
  have ok: "entries_ok ?old" "dir_ok (?old # ess)"
    using rep by (simp_all add: dir_rep_def dir_ok_def)
  then have new: "entries_ok ?new" "dir_ok (?new # ess)"
    using parent by (auto simp: dir_ok_def proper_def entries_ok_def entry_ok_def)
  have upd: "block_of ?old\<lparr>numbers := (numbers (block_of ?old))[0 := parent]\<rparr> = block_of ?new"
    by (simp add: block_of_def)
  obtain d2 F' where d2: "inode_write d1 i 0 (Some (enc_dir (block_of ?new))) BLOCKSIZE = Some (BLOCKSIZE, d2)"
    "fs_result A i d1 d2 F' Is A" "same_attr (inode_at d1 i) (inode_at d2 i)" "content d2 i = dir_bytes (?new # ess)"
    using dir_write_block [OF inv1 i rep1 _ new(1), of 0] by auto
  have "numbers (block_of ?old) ! 1 = i"
    using numbers_block [OF ok(1), of 1] by simp
  then have "dir_reparent d i parent = Some (0, d2)"
    using dir_check_dir [OF inv i rep, of True] d1(1) d2(1) upd by (simp add: dir_reparent_def Let_def)
  moreover have "dir_rep d2 i (?new # ess)"
    using rep1 d2(3,4) new(2) by (simp add: dir_rep_def same_attr_def)
  moreover have "same_attr (inode_at d i) (inode_at d2 i)"
    using d1(2) same_attr_trans d2(3) unfolding only_read_def by blast
  ultimately show ?thesis
    using only_read_result [OF d1(2) d2(2)] by blast
qed

end
