(* ===== verification/Refs_Files.thy ===== *)
theory Refs_Files
  imports Refs_Table Dir_Life
begin

text \<open>
  Open inodes under the other operations: what writes to one inode leaves the table as it is, a
  new inode is opened before it has links, and the lookup of a name opens what it finds.
\<close>

lemma refs_inv_result:
  assumes inv: "refs_inv d F Is A" and res: "fs_result A i d d' F' Is' A" and links: "i \<in> A \<Longrightarrow> inlinks (inode_at d' i) = inlinks (inode_at d i)"
  shows "refs_inv d' F' Is' A" "refs_of d' = refs_of d" "refs_env.more d' = refs_env.more d"
proof -
  have ch: "changed UNIV d d'" and fs: "fs_inv d' F' Is' A" and others: "\<And>j. j \<in> A - {i} \<Longrightarrow> same_file d d' j"
    using res by (auto simp: fs_result_def)
  have find: "find_node d' = find_node d" "table_ok d'"
    using find_node_table [OF changed_table(1) [OF ch]] table_ok_table [OF changed_table(1) [OF ch]] refs_inv_fs(2) [OF inv] by simp_all
  then show "refs_of d' = refs_of d" "refs_env.more d' = refs_env.more d"
    using changed_table(2) [OF ch] by (simp_all add: refs_of_def fun_eq_iff)
  have "inlinks (inode_at d' j) = inlinks (inode_at d j)" if "j \<in> A" for j
    using others [of j] links that by (cases "j = i") (auto simp: same_file_def)
  then show "refs_inv d' F' Is' A"
    using inv fs find by (auto simp: refs_inv_def)
qed

lemma refs_inv_attr:
  assumes "refs_inv d F Is A" and "fs_result A i d d' F' Is' A" and "same_attr (inode_at d i) (inode_at d' i)"
  shows "refs_inv d' F' Is' A" "refs_of d' = refs_of d" "refs_env.more d' = refs_env.more d"
  using refs_inv_result [OF assms(1,2)] assms(3) by (simp_all add: same_attr_def)

theorem refs_open_fresh:
  assumes inv: "refs_inv d F Is A" and res: "fs_result A i d d1 F' Is' (insert i A)" and new: "i \<notin> A"
  shows "\<exists>d'. refs_open d1 i = Some (0, d') \<and> same_disk d1 d' \<and> refs_inv d' F' Is' (insert i A) \<and> refs_of d' = (refs_of d)(i := 1) \<and>
    refs_env.more d' = refs_env.more d"
proof -
  have ch: "changed UNIV d d1" and fs: "fs_inv d1 F' Is' (insert i A)" and others: "\<And>j. j \<in> A \<Longrightarrow> same_file d d1 j"
    using res new by (auto simp: fs_result_def)
  have table: "find_node d1 = find_node d" "table_ok d1"
    using find_node_table [OF changed_table(1) [OF ch]] table_ok_table [OF changed_table(1) [OF ch]] refs_inv_fs(2) [OF inv] by simp_all
  have none: "find_node d i = None"
    using refs_inv_node(1) [OF inv] new by (cases "find_node d i") auto
  let ?n = "\<lparr>node_inode = i, refcount = 1, node_nlinks = inlinks (inode_at d1 i)\<rparr>"
  have run: "refs_open d1 i = Some (0, put_node d1 ?n)"
    using inode_getinfo_spec [OF fs, of i] none table(1) by (simp add: refs_open_eq inode_info.truncate_def)
  have find: "find_node (put_node d1 ?n) = (find_node d)(i \<mapsto> ?n)"
    using open_files.find_put [OF table(2), of ?n] table(1) by simp
  have same: "same_disk d1 (put_node d1 ?n)"
    by simp
  have at: "inode_at (put_node d1 ?n) j = inode_at d1 j" for j
    using same_disk_file(1) [OF same] by (simp add: same_file_def)
  have old: "inode_at d1 j = inode_at d j" if "j \<in> A" for j
    using others [OF that] by (simp add: same_file_def)
  have "refs_inv (put_node d1 ?n) F' Is' (insert i A)"
    using inv fs_inv_same_disk [OF fs same] open_files.ok_put [OF table(2), of ?n] old
    by (auto simp: refs_inv_def find at split: if_splits)
  moreover have "refs_of (put_node d1 ?n) = (refs_of d)(i := 1)"
    by (auto simp: refs_of_def find fun_eq_iff)
  moreover have "refs_env.more (put_node d1 ?n) = refs_env.more d"
    using changed_table(2) [OF ch] by simp
  ultimately show ?thesis
    using run same by blast
qed

text \<open>The files as users see them, without the times of access.\<close>

definition same_files :: "ino set \<Rightarrow> 'x disk_t_scheme \<Rightarrow> 'y disk_t_scheme \<Rightarrow> bool" where
  "same_files A d d' \<longleftrightarrow> (\<forall>j \<in> A. content d' j = content d j \<and> same_attr (inode_at d j) (inode_at d' j))"

lemma same_files_refl [simp]: "same_files A d d"
  by (simp add: same_files_def)

lemma same_files_trans: "same_files A d d1 \<Longrightarrow> same_files A d1 d2 \<Longrightarrow> same_files A d d2"
  using same_attr_trans by (auto simp: same_files_def)

lemma same_files_dir: "same_files A d d' \<Longrightarrow> i \<in> A \<Longrightarrow> dir_rep d i ess \<Longrightarrow> dir_rep d' i ess"
  by (simp add: same_files_def dir_rep_def same_attr_def)

lemma only_read_files:
  assumes "only_read A i d d' F Is"
  shows "same_files A d d'"
  unfolding same_files_def
proof
  fix j assume "j \<in> A"
  then show "content d' j = content d j \<and> same_attr (inode_at d j) (inode_at d' j)"
    using assms by (cases "j = i") (auto simp: only_read_def fs_result_def same_file_def)
qed

lemma same_disk_files: "same_disk d d' \<Longrightarrow> same_files A d d'"
  using same_disk_file(1) by (auto simp: same_files_def same_file_def)

theorem refs_dir_lookup_open_spec:
  assumes inv: "refs_inv d F Is A" and i: "i \<in> A" and rep: "dir_rep d i ess" and name: "length name \<le> NAME_MAX"
    and t: "dir_map ess name = Some t" "t \<in> A" and room: "refs_of d t < 2 ^ 32 - 1"
  shows "\<exists>d'. refs_dir_lookup_open d i name = Some (t, d') \<and> refs_inv d' F Is A \<and> refs_of d' = (refs_of d)(t := Suc (refs_of d t)) \<and>
    same_files A d d' \<and> refs_env.more d' = refs_env.more d"
proof -
  note fs = refs_inv_fs(1) [OF inv]
  obtain d1 where d1: "dir_lookup d i name = Some (t, d1)" "only_read A i d d1 F Is"
    using dir_lookup_spec [OF fs i rep name] t(1) by auto
  have res1: "fs_result A i d d1 F Is A" "same_attr (inode_at d i) (inode_at d1 i)"
    using d1(2) by (simp_all add: only_read_def)
  note inv1 = refs_inv_attr [OF inv res1]
  have "0 \<le> sint t"
    using valid_ino_unat(3) [OF _ fs_inv_inode(2) [OF fs t(2)]] fs_inv_store [OF fs] by (simp add: store_inv_def)
  obtain d2 where d2: "refs_open d1 t = Some (0, d2)" "same_disk d1 d2" "refs_inv d2 F Is A" "refs_of d2 = (refs_of d1)(t := Suc (refs_of d1 t))"
    "refs_env.more d2 = refs_env.more d1"
    using refs_open_spec [OF inv1(1) t(2)] room inv1(2) by auto
  have "same_files A d d2"
    using same_files_trans [OF only_read_files [OF d1(2)] same_disk_files [OF d2(2)]] .
  then show ?thesis
    using d1(1) d2(1,3-5) inv1(2,3) \<open>0 \<le> sint t\<close> by (auto simp: refs_dir_lookup_open_def)
qed

theorem refs_dir_lookup_open_absent:
  assumes inv: "refs_inv d F Is A" and i: "i \<in> A" and rep: "dir_rep d i ess" and name: "length name \<le> NAME_MAX"
    and absent: "dir_map ess name = None"
  shows "\<exists>d'. refs_dir_lookup_open d i name = Some (of_int (- ENOENT), d') \<and> refs_inv d' F Is A \<and> refs_of d' = refs_of d \<and>
    same_files A d d' \<and> refs_env.more d' = refs_env.more d"
proof -
  obtain d1 where d1: "dir_lookup d i name = Some (of_int (- ENOENT), d1)" "only_read A i d d1 F Is"
    using dir_lookup_spec [OF refs_inv_fs(1) [OF inv] i rep name] absent by auto
  have res1: "fs_result A i d d1 F Is A" "same_attr (inode_at d i) (inode_at d1 i)"
    using d1(2) by (simp_all add: only_read_def)
  show ?thesis
    using d1(1) refs_inv_attr [OF inv res1] only_read_files [OF d1(2)] by (auto simp: refs_dir_lookup_open_def)
qed

end
