(* ===== verification/Perm.thy ===== *)
theory Perm
  imports Posix
begin

text \<open>Permissions (\<open>perm.c\<close>).  Results are C \<open>int\<close>s.\<close>

definition PERM_READ :: u32 where "PERM_READ = 4"
definition PERM_WRITE :: u32 where "PERM_WRITE = 2"
definition PERM_EXEC :: u32 where "PERM_EXEC = 1"
definition PERM_UTIME :: u32 where "PERM_UTIME = 8"

definition perm_check :: "'x disk_t_scheme \<Rightarrow> ino \<Rightarrow> u32 \<Rightarrow> u32 \<Rightarrow> u32 \<Rightarrow> int option" where
  "perm_check d inode perms user grp =
    do { info \<leftarrow> inode_getinfo d inode;
         case info of
           None \<Rightarrow> Some (- ENOENT)
         | Some info \<Rightarrow>
             if user = 0 then Some 0
             else if perms = PERM_UTIME \<and> user = iowner info then Some 0
             else
               (let perms = (if perms = PERM_UTIME then PERM_WRITE else perms) in
                if user = iowner info then
                  Some (if perms AND (drop_bit 6 (imode info)) AND 7 = perms then 0 else - EACCES)
                else if grp = igroup info then
                  Some (if perms AND (drop_bit 3 (imode info)) AND 7 = perms then 0 else - EACCES)
                else Some (if perms AND imode info AND 7 = perms then 0 else - EACCES)) }"

definition perm_chmod :: "'x inode_env_scheme \<Rightarrow> ino \<Rightarrow> u32 \<Rightarrow> u32 \<Rightarrow> (int \<times> 'x inode_env_scheme) option" where
  "perm_chmod d inode mode user =
    do { info \<leftarrow> inode_getinfo d inode;
         case info of
           None \<Rightarrow> Some (- ENOENT, d)
         | Some info \<Rightarrow>
             if mode AND 0xFFF \<noteq> mode then Some (- EINVAL, d)
             else if user \<noteq> 0 \<and> user \<noteq> iowner info then Some (- EACCES, d)
             else inode_chmod d inode (mode OR (imode info AND NOT 0xFFF)) }"

definition perm_chown ::
  "'x inode_env_scheme \<Rightarrow> ino \<Rightarrow> u32 \<Rightarrow> u32 \<Rightarrow> u32 \<Rightarrow> (int \<times> 'x inode_env_scheme) option" where
  "perm_chown d inode user newuser newgroup =
    (if user \<noteq> 0 then Some (- EACCES, d) else inode_chown d inode newuser newgroup)"

end
