(* ===== verification/File.thy ===== *)
theory File
  imports Posix
begin

text \<open>Files and symbolic links (\<open>file.c\<close>, \<open>symlink.c\<close>): typed inodes.\<close>

section \<open>Files\<close>

definition file_create :: "'x posix_env_scheme \<Rightarrow> (ino \<times> 'x posix_env_scheme) option" where
  "file_create d =
    do { (file, d) \<leftarrow> inode_allocate d;
         if sint file < 0 then Some (of_int (- ENOSPC), d)
         else
           do { (res, d) \<leftarrow> inode_chmod d file (S_IFREG OR 0x1FF);
                if 0 \<le> res then Some (file, d) else None } }"

text \<open>
  The checks of \<open>file_read\<close>, \<open>file_write\<close> and \<open>file_truncate\<close>: \<open>Some (Some e)\<close> is the error
  they return.
\<close>

definition file_check :: "'x posix_env_scheme \<Rightarrow> ino \<Rightarrow> int option option" where
  "file_check d file =
    do { info \<leftarrow> inode_getinfo d file;
         case info of
           None \<Rightarrow> Some (Some (- ENOENT))
         | Some info \<Rightarrow>
             Some (if \<not> S_ISREG (imode info) then if S_ISDIR (imode info) then Some (- EISDIR) else Some (- EINVAL)
                   else None) }"

definition file_read ::
  "'x posix_env_scheme \<Rightarrow> ino \<Rightarrow> int \<Rightarrow> byte list \<Rightarrow> int \<Rightarrow> (int \<times> byte list \<times> 'x posix_env_scheme) option" where
  "file_read d file pos buf sz =
    do { err \<leftarrow> file_check d file;
         case err of Some e \<Rightarrow> Some (e, buf, d) | None \<Rightarrow> inode_read d file pos buf sz }"

definition file_write ::
  "'x posix_env_scheme \<Rightarrow> ino \<Rightarrow> int \<Rightarrow> byte list \<Rightarrow> int \<Rightarrow> (int \<times> 'x posix_env_scheme) option" where
  "file_write d file pos data sz =
    do { err \<leftarrow> file_check d file;
         case err of Some e \<Rightarrow> Some (e, d) | None \<Rightarrow> inode_write d file pos (Some data) sz }"

definition file_truncate :: "'x posix_env_scheme \<Rightarrow> ino \<Rightarrow> int \<Rightarrow> (int \<times> 'x posix_env_scheme) option" where
  "file_truncate d file sz =
    do { err \<leftarrow> file_check d file;
         case err of Some e \<Rightarrow> Some (e, d) | None \<Rightarrow> inode_truncate d file sz }"

section \<open>Symbolic links\<close>

text \<open>\<open>filename\<close> is the string without its NUL.\<close>

definition symlink_create :: "'x posix_env_scheme \<Rightarrow> byte list \<Rightarrow> (ino \<times> 'x posix_env_scheme) option" where
  "symlink_create d filename =
    (let namesize = int (length filename) in
     if namesize = 0 \<or> PATH_MAX - 1 < namesize then Some (of_int (- ENAMETOOLONG), d)
     else
       do { (symlink, d) \<leftarrow> inode_allocate d;
            if sint symlink < 0 then Some (of_int (- ENOSPC), d)
            else
              do { (res, d) \<leftarrow> inode_chmod d symlink (S_IFLNK OR 0x1FF);
                   if res \<noteq> 0 then None
                   else
                     do { (n, d) \<leftarrow> inode_write d symlink 0 (Some filename) namesize;
                          if n < namesize then
                            do { (res, d) \<leftarrow> inode_free d symlink;
                                 if res = 0 then Some (of_int (- ENOSPC), d) else None }
                          else Some (symlink, d) } } })"

text \<open>The result is an \<open>ino_t\<close> in the source; its callers convert it back to \<open>ssize_t\<close>.\<close>

definition symlink_read ::
  "'x posix_env_scheme \<Rightarrow> ino \<Rightarrow> byte list \<Rightarrow> int \<Rightarrow> (ino \<times> byte list \<times> 'x posix_env_scheme) option" where
  "symlink_read d symlink buf maxsize =
    do { info \<leftarrow> inode_getinfo d symlink;
         case info of
           None \<Rightarrow> Some (of_int (- ENOENT), buf, d)
         | Some info \<Rightarrow>
             if \<not> S_ISLNK (imode info) then Some (of_int (- EINVAL), buf, d)
             else do { (n, buf, d) \<leftarrow> inode_read d symlink 0 buf maxsize; Some (of_int n, buf, d) } }"

end
