(* ===== verification/Path.thy ===== *)
theory Path
  imports Refs Perm File
begin

text \<open>
  Paths (\<open>path.c\<close>): name resolution, the table of open paths, and the operations on directory
  entries.  A C string is the byte list before its NUL.
\<close>

abbreviation MAX_OPEN_PATHS :: "'a::numeral" where "MAX_OPEN_PATHS \<equiv> 1024"

text \<open>\<open>assert(refs_close(disk, inode) == 0)\<close> and \<open>assert(refs_open(disk, inode) == 0)\<close>\<close>

definition close_ok :: "'x refs_env_scheme \<Rightarrow> ino \<Rightarrow> 'x refs_env_scheme option" where
  "close_ok d inode = do { (res, d) \<leftarrow> refs_close d inode; if res = 0 then Some d else None }"

definition open_ok :: "'x refs_env_scheme \<Rightarrow> ino \<Rightarrow> 'x refs_env_scheme option" where
  "open_ok d inode = do { (res, d) \<leftarrow> refs_open d inode; if res = 0 then Some d else None }"

definition getinfo_ok :: "'x disk_t_scheme \<Rightarrow> ino \<Rightarrow> inode_info option" where
  "getinfo_ok d inode = do { info \<leftarrow> inode_getinfo d inode; info }"

section \<open>Name resolution\<close>

definition SLASH :: byte where "SLASH = 47"

text \<open>Who asks, and where absolute paths start.\<close>

record cred =
  cr_user :: u32
  cr_group :: u32
  cr_root :: ino

text \<open>The string in a buffer that \<open>symlink_read\<close> filled.\<close>

definition c_string :: "byte list \<Rightarrow> byte list option" where
  "c_string buf = map_option (\<lambda>n. take n buf) (strlen buf 0)"

text \<open>
  \<open>namei_rec\<close> and \<open>namei_internal_single\<close> call each other.  Here the steps within one call of
  \<open>namei_rec\<close> take the nested call as an argument: \<open>rec path curdir level d\<close> gives the
  result, the new \<open>*curdir\<close> and the state.
\<close>

type_synonym 'd namei_call = "byte list \<Rightarrow> ino \<Rightarrow> nat \<Rightarrow> 'd \<Rightarrow> (ino \<times> ino \<times> 'd) option"

text \<open>
  The assertion on \<open>symlink_read\<close> compares an unsigned result with zero and always holds.
  The result has \<open>*info\<close> (\<open>None\<close> while it was not filled), \<open>*curdir\<close> and \<open>*level\<close>.
\<close>

definition namei_internal_single ::
  "'x refs_env_scheme namei_call \<Rightarrow> cred \<Rightarrow> byte list \<Rightarrow> ino \<Rightarrow> bool \<Rightarrow> nat \<Rightarrow> 'x refs_env_scheme \<Rightarrow>
    (ino \<times> inode_info option \<times> ino \<times> nat \<times> 'x refs_env_scheme) option" where
  "namei_internal_single rec c token curdir deref level d =
    do { res \<leftarrow> perm_check d curdir PERM_EXEC (cr_user c) (cr_group c);
         if res < 0 then Some (of_int res, None, curdir, level, d)
         else
           do { (current, d) \<leftarrow> refs_dir_lookup_open d curdir token;
                if sint current < 0 then Some (current, None, curdir, level, d)
                else
                  do { info \<leftarrow> inode_getinfo d current;
                       case info of
                         None \<Rightarrow> Some (of_int (- ENOENT), None, curdir, level, d)
                       | Some i \<Rightarrow>
                           if deref \<and> S_ISLNK (imode i) then
                             do { (_, linkpath, d) \<leftarrow> symlink_read d current (replicate PATH_MAX 0) PATH_MAX;
                                  d \<leftarrow> close_ok d current;
                                  path \<leftarrow> c_string linkpath;
                                  (current, curdir, d) \<leftarrow> rec path curdir (level + 1) d;
                                  info \<leftarrow> inode_getinfo d current;
                                  case info of
                                    None \<Rightarrow> Some (of_int (- ENOENT), Some i, curdir, level + 1, d)
                                  | Some i \<Rightarrow> Some (current, Some i, curdir, level + 1, d) }
                           else Some (current, Some i, curdir, level, d) } } }"

text \<open>
  Parts 2 and 3 of \<open>namei_rec\<close>: \<open>token\<close> is the rest of the path, the result is the returned
  inode and \<open>*curdir\<close>.
\<close>

function namei_walk ::
  "'x refs_env_scheme namei_call \<Rightarrow> cred \<Rightarrow> bool \<Rightarrow> byte list \<Rightarrow> ino \<Rightarrow> ino \<Rightarrow> nat \<Rightarrow> 'x refs_env_scheme \<Rightarrow>
    (ino \<times> ino \<times> 'x refs_env_scheme) option" where
  "namei_walk rec c deref token current curdir level d =
    (case first_index (\<lambda>ch. ch = SLASH) token of
       Some tokensize \<Rightarrow>
         if tokensize = 0 then namei_walk rec c deref (drop 1 token) current curdir level d
         else
           (case close_ok d curdir of
              None \<Rightarrow> None
            | Some d \<Rightarrow>
                (case namei_internal_single rec c (take tokensize token) current True level d of
                   None \<Rightarrow> None
                 | Some (next, info, curdir, level, d) \<Rightarrow>
                     if sint next < 0 then do { d \<leftarrow> close_ok d curdir; Some (next, EOF, d) }
                     else
                       (case info of
                          None \<Rightarrow> None
                        | Some i \<Rightarrow>
                            if \<not> S_ISDIR (imode i) then do { d \<leftarrow> close_ok d curdir; Some (of_int (- ENOTDIR), EOF, d) }
                            else namei_walk rec c deref (drop (tokensize + 1) token) next curdir level d)))
     | None \<Rightarrow>
         if token \<noteq> [] then
           do { d \<leftarrow> close_ok d curdir;
                (next, info, curdir, level, d) \<leftarrow> namei_internal_single rec c token current deref level d;
                if sint next < 0 then Some (EOF, curdir, d) else Some (next, curdir, d) }
         else Some (current, curdir, d))"
  by pat_completeness auto
termination
  by (relation "measure (\<lambda>(_, _, _, token, _). length token)") (auto dest!: first_index_SomeD)

declare namei_walk.simps [simp del]

text \<open>
  The nested calls have a higher \<open>level\<close>, and the one with \<open>level\<close> 9 returns at once: with
  \<open>fuel\<close> 10 no call runs out of it (shown in Path_Spec).
\<close>

primrec namei_rec :: "nat \<Rightarrow> cred \<Rightarrow> bool \<Rightarrow> 'x refs_env_scheme namei_call" where
  "namei_rec 0 c deref path curdir level d = None"
| "namei_rec (Suc fuel) c deref path curdir level d =
    (if 8 < level then Some (of_int (- ELOOP), curdir, d)
     else
       do { (res, d) \<leftarrow> refs_open d curdir;
            if res \<noteq> 0 then Some (of_int (- ENOENT), curdir, d)
            else if path \<noteq> [] \<and> hd path = SLASH then
              do { d \<leftarrow> close_ok d curdir;
                   d \<leftarrow> close_ok d curdir;
                   d \<leftarrow> open_ok d (cr_root c);
                   d \<leftarrow> open_ok d (cr_root c);
                   namei_walk (namei_rec fuel c True) c deref (drop 1 path) (cr_root c) (cr_root c) level d }
            else namei_walk (namei_rec fuel c True) c deref path curdir curdir level d })"

text \<open>
  \<open>curdir\<close> is \<open>None\<close> for a null pointer; the second component of the result is \<open>*curdir\<close>
  afterwards.
\<close>

definition namei ::
  "'x refs_env_scheme \<Rightarrow> byte list \<Rightarrow> ino option \<Rightarrow> ino \<Rightarrow> bool \<Rightarrow> u32 \<Rightarrow> u32 \<Rightarrow> (ino \<times> ino \<times> 'x refs_env_scheme) option" where
  "namei d path curdir rootdir deref user grp =
    (let usemyroot = rootdir = EOF;
         usemycurdir = curdir = None;
         rootdir = (if usemyroot then 0 else rootdir);
         dir = (case curdir of None \<Rightarrow> EOF | Some cd \<Rightarrow> cd) in
     do { d \<leftarrow> (if usemyroot then open_ok d rootdir else Some d);
          (dir, d) \<leftarrow> (if dir = EOF then do { d \<leftarrow> open_ok d rootdir; Some (rootdir, d) } else Some (dir, d));
          (result, dir, d) \<leftarrow>
            namei_rec 10 \<lparr>cr_user = user, cr_group = grp, cr_root = rootdir\<rparr> deref path dir 0 d;
          d \<leftarrow> (if usemyroot then close_ok d rootdir else Some d);
          d \<leftarrow> (if usemycurdir then close_ok d dir else Some d);
          Some (result, dir, d) })"

section \<open>The table of open paths\<close>

text \<open>
  \<open>path_name\<close> is the first \<open>namelen\<close> bytes of the field \<open>name\<close>; the rest is never read.
\<close>

record open_path_node =
  path_refs :: int
  parent_dir :: ino
  path_name :: "byte list"

record path_env = refs_env +
  open_path_table :: "open_path_node list"

text \<open>The test at the start of every operation on a handle.\<close>

definition path_node :: "'x path_env_scheme \<Rightarrow> int \<Rightarrow> open_path_node option" where
  "path_node d path =
    (if MAX_OPEN_PATHS \<le> path \<or> path < 0 \<or> path_refs (open_path_table d ! nat path) = 0 then None
     else Some (open_path_table d ! nat path))"

text \<open>The last component of a path: its name without slashes, or \<open>.\<close> if there is none.\<close>

definition last_token :: "byte list \<Rightarrow> byte list" where
  "last_token path =
    (let trimmed = rev (dropWhile (\<lambda>ch. ch = SLASH) (rev path)) in
     if trimmed = [] then [DOT] else rev (takeWhile (\<lambda>ch. ch \<noteq> SLASH) (rev trimmed)))"

text \<open>
  The loop over the handles: the free handle with the largest index (\<open>-1\<close> if there is none), or
  \<open>Inl\<close> when the path is open already; blocking is \<open>abort()\<close>.
\<close>

primrec scan_handles ::
  "open_path_node list \<Rightarrow> int \<Rightarrow> ino \<Rightarrow> byte list \<Rightarrow> int \<Rightarrow> int \<Rightarrow> (unit + int) option" where
  "scan_handles [] handle curdir token noblock chosen = Some (Inr chosen)"
| "scan_handles (node # nodes) handle curdir token noblock chosen =
    (if path_refs node = 0 then scan_handles nodes (handle + 1) curdir token noblock handle
     else if parent_dir node = curdir \<and> path_name node = token then
       if noblock = handle \<or> noblock = -2 then Some (Inl ()) else None
     else scan_handles nodes (handle + 1) curdir token noblock chosen)"

definition path_open ::
  "'x path_env_scheme \<Rightarrow> byte list \<Rightarrow> bool \<Rightarrow> u32 \<Rightarrow> u32 \<Rightarrow> int \<Rightarrow> (int \<times> 'x path_env_scheme) option" where
  "path_open d path deref user grp noblock =
    do { (target, curdir, d) \<leftarrow> namei d path (Some EOF) EOF deref user grp;
         if sint target < 0 \<and> target \<noteq> EOF then Some (sint target, d)
         else
           do { d \<leftarrow> (if target \<noteq> EOF then close_ok d target else Some d);
                let token = last_token path;
                if NAME_MAX < length token then do { d \<leftarrow> close_ok d curdir; Some (- ENAMETOOLONG, d) }
                else
                  do { scanned \<leftarrow> scan_handles (open_path_table d) 0 curdir token noblock (-1);
                       case scanned of
                         Inl _ \<Rightarrow> do { d \<leftarrow> close_ok d curdir; Some (- EWOULDBLOCK, d) }
                       | Inr chosen \<Rightarrow>
                           if chosen = -1 then do { d \<leftarrow> close_ok d curdir; Some (- ENOMEM, d) }
                           else
                             (let node = \<lparr>path_refs = 1, parent_dir = curdir, path_name = token\<rparr> in
                              Some (chosen, d\<lparr>open_path_table := (open_path_table d)[nat chosen := node]\<rparr>)) } } }"

definition path_close :: "'x path_env_scheme \<Rightarrow> int \<Rightarrow> (int \<times> 'x path_env_scheme) option" where
  "path_close d path =
    (case path_node d path of
       None \<Rightarrow> Some (-1, d)
     | Some node \<Rightarrow>
         (let node = node\<lparr>path_refs := path_refs node - 1\<rparr>;
              d = d\<lparr>open_path_table := (open_path_table d)[nat path := node]\<rparr> in
          if path_refs node = 0 then do { d \<leftarrow> close_ok d (parent_dir node); Some (0, d) } else None))"

definition path_get :: "'x path_env_scheme \<Rightarrow> int \<Rightarrow> (ino \<times> 'x path_env_scheme) option" where
  "path_get d path =
    (case path_node d path of
       None \<Rightarrow> Some (-1, d)
     | Some node \<Rightarrow> refs_dir_lookup_open d (parent_dir node) (path_name node))"

definition path_resolve ::
  "'x path_env_scheme \<Rightarrow> byte list \<Rightarrow> bool \<Rightarrow> u32 \<Rightarrow> u32 \<Rightarrow> (ino \<times> 'x path_env_scheme) option" where
  "path_resolve d path deref user grp =
    do { (res, _, d) \<leftarrow> namei d path None EOF deref user grp;
         Some (if res = EOF then of_int (- ENOENT) else res, d) }"

section \<open>Directory entries\<close>

definition path_link ::
  "'x path_env_scheme \<Rightarrow> int \<Rightarrow> ino \<Rightarrow> u32 \<Rightarrow> u32 \<Rightarrow> (int \<times> 'x path_env_scheme) option" where
  "path_link d path inode user grp =
    (case path_node d path of
       None \<Rightarrow> Some (-1, d)
     | Some node \<Rightarrow>
         do { info \<leftarrow> inode_getinfo d inode;
              case info of
                None \<Rightarrow> Some (-1, d)
              | Some info \<Rightarrow>
                  if S_ISDIR (imode info) then Some (- EPERM, d)
                  else
                    do { ores \<leftarrow> perm_check d (parent_dir node) PERM_WRITE user grp;
                         if ores < 0 then Some (ores, d)
                         else
                           do { (ores, d) \<leftarrow> dir_insert d (parent_dir node) (path_name node) inode;
                                if ores < 0 then Some (ores, d)
                                else
                                  do { (res, d) \<leftarrow> refs_link d inode;
                                       if res = 0 then Some (0, d) else None } } } })"

text \<open>\<open>assert(dir_remove(...) == inode); assert(refs_unlink(...) == 0); assert(refs_close(...) == 0)\<close>\<close>

definition remove_and_unlink ::
  "'x path_env_scheme \<Rightarrow> open_path_node \<Rightarrow> ino \<Rightarrow> 'x path_env_scheme option" where
  "remove_and_unlink d node inode =
    do { (removed, d) \<leftarrow> dir_remove d (parent_dir node) (path_name node);
         if removed \<noteq> inode then None
         else
           do { (res, d) \<leftarrow> refs_unlink d inode;
                if res = 0 then close_ok d inode else None } }"

text \<open>A directory is refused without giving back the reference that \<open>path_get\<close> took.\<close>

definition path_unlink :: "'x path_env_scheme \<Rightarrow> int \<Rightarrow> u32 \<Rightarrow> u32 \<Rightarrow> (int \<times> 'x path_env_scheme) option" where
  "path_unlink d path user grp =
    (case path_node d path of
       None \<Rightarrow> Some (-1, d)
     | Some node \<Rightarrow>
         do { (inode, d) \<leftarrow> path_get d path;
              if sint inode < 0 then Some (- ENOENT, d)
              else
                do { info \<leftarrow> getinfo_ok d inode;
                     if S_ISDIR (imode info) then Some (- EPERM, d)
                     else
                       do { ores \<leftarrow> perm_check d (parent_dir node) PERM_WRITE user grp;
                            if ores < 0 then do { d \<leftarrow> close_ok d inode; Some (ores, d) }
                            else do { d \<leftarrow> remove_and_unlink d node inode; Some (0, d) } } } })"

definition int_of_ino :: "ino \<Rightarrow> int" where
  "int_of_ino i = sint (ucast i :: u32)"

definition path_mkdir :: "'x path_env_scheme \<Rightarrow> int \<Rightarrow> u32 \<Rightarrow> u32 \<Rightarrow> u32 \<Rightarrow> (int \<times> 'x path_env_scheme) option" where
  "path_mkdir d path mode user grp =
    (case path_node d path of
       None \<Rightarrow> Some (-1, d)
     | Some node \<Rightarrow>
         do { ores \<leftarrow> perm_check d (parent_dir node) PERM_WRITE user grp;
              if ores < 0 then Some (ores, d)
              else
                do { (directory, d) \<leftarrow> dir_create d (parent_dir node);
                     if sint directory < 0 then Some (int_of_ino directory, d)
                     else
                       do { d \<leftarrow> open_ok d directory;
                            (ores, d) \<leftarrow> perm_chown d directory 0 user grp;
                            if ores < 0 then do { d \<leftarrow> close_ok d directory; Some (ores, d) }
                            else
                              do { (ores, d) \<leftarrow> perm_chmod d directory mode user;
                                   if ores < 0 then do { d \<leftarrow> close_ok d directory; Some (ores, d) }
                                   else
                                     do { (ores, d) \<leftarrow> dir_insert d (parent_dir node) (path_name node) directory;
                                          if ores < 0 then do { d \<leftarrow> close_ok d directory; Some (ores, d) }
                                          else
                                            do { (res, d) \<leftarrow> refs_link d directory;
                                                 if res \<noteq> 0 then None
                                                 else do { d \<leftarrow> close_ok d directory; Some (0, d) } } } } } } })"

definition path_rmdir :: "'x path_env_scheme \<Rightarrow> int \<Rightarrow> u32 \<Rightarrow> u32 \<Rightarrow> (int \<times> 'x path_env_scheme) option" where
  "path_rmdir d path user grp =
    (case path_node d path of
       None \<Rightarrow> Some (-1, d)
     | Some node \<Rightarrow>
         do { (inode, d) \<leftarrow> path_get d path;
              if sint inode < 0 then Some (- ENOENT, d)
              else
                do { ores \<leftarrow> perm_check d (parent_dir node) PERM_WRITE user grp;
                     if ores < 0 then do { d \<leftarrow> close_ok d inode; Some (ores, d) }
                     else
                       do { (ores, d) \<leftarrow> dir_destroy d inode;
                            if ores < 0 then do { d \<leftarrow> close_ok d inode; Some (ores, d) }
                            else do { d \<leftarrow> remove_and_unlink d node inode; Some (0, d) } } } })"

text \<open>
  The part of \<open>path_rename\<close> that removes an existing target.  \<open>Inl\<close> is the error the whole
  operation returns, after \<open>refs_close(inode)\<close> and \<open>refs_close(current)\<close>.
\<close>

definition rename_target ::
  "'x path_env_scheme \<Rightarrow> int \<Rightarrow> open_path_node \<Rightarrow> ino \<Rightarrow> bool \<Rightarrow> ((int + unit) \<times> 'x path_env_scheme) option" where
  "rename_target d dstpath dst inode isdir =
    do { (current, d) \<leftarrow> path_get d dstpath;
         if sint current < 0 then Some (Inr (), d)
         else
           do { info \<leftarrow> getinfo_ok d current;
                (ores, d) \<leftarrow>
                  (if S_ISDIR (imode info) then if \<not> isdir then Some (- EISDIR, d) else dir_destroy d current
                   else if isdir then Some (- ENOTDIR, d) else Some (0, d));
                if ores < 0 then
                  do { d \<leftarrow> close_ok d inode; d \<leftarrow> close_ok d current; Some (Inl ores, d) }
                else do { d \<leftarrow> remove_and_unlink d dst current; Some (Inr (), d) } } }"

text \<open>The part that makes the new entry and removes the old one.\<close>

definition rename_move ::
  "'x path_env_scheme \<Rightarrow> open_path_node \<Rightarrow> open_path_node \<Rightarrow> ino \<Rightarrow> bool \<Rightarrow> (int \<times> 'x path_env_scheme) option" where
  "rename_move d dst src inode isdir =
    do { (ores, d) \<leftarrow> dir_insert d (parent_dir dst) (path_name dst) inode;
         if ores < 0 then do { d \<leftarrow> close_ok d inode; Some (ores, d) }
         else
           do { (removed, d) \<leftarrow> dir_remove d (parent_dir src) (path_name src);
                if removed \<noteq> inode then None
                else
                  do { d \<leftarrow> (if isdir then
                           do { (res, d) \<leftarrow> dir_reparent d inode (parent_dir dst);
                                if res = 0 then Some d else None }
                         else Some d);
                       d \<leftarrow> close_ok d inode;
                       Some (0, d) } } }"

definition path_rename ::
  "'x path_env_scheme \<Rightarrow> int \<Rightarrow> int \<Rightarrow> u32 \<Rightarrow> u32 \<Rightarrow> (int \<times> 'x path_env_scheme) option" where
  "path_rename d dstpath srcpath user grp =
    (case (path_node d srcpath, path_node d dstpath) of
       (Some src, Some dst) \<Rightarrow>
         do { (inode, d) \<leftarrow> path_get d srcpath;
              if sint inode < 0 then Some (- ENOENT, d)
              else
                do { ores \<leftarrow> perm_check d (parent_dir dst) PERM_WRITE user grp;
                     if ores < 0 then do { d \<leftarrow> close_ok d inode; Some (ores, d) }
                     else
                       do { ores \<leftarrow> perm_check d (parent_dir src) PERM_WRITE user grp;
                            if ores < 0 then do { d \<leftarrow> close_ok d inode; Some (ores, d) }
                            else
                              do { info \<leftarrow> getinfo_ok d inode;
                                   let isdir = S_ISDIR (imode info);
                                   (unlinked, d) \<leftarrow> rename_target d dstpath dst inode isdir;
                                   case unlinked of
                                     Inl e \<Rightarrow> Some (e, d)
                                   | Inr _ \<Rightarrow> rename_move d dst src inode isdir } } } }
     | _ \<Rightarrow> Some (-1, d))"

section \<open>Formatting\<close>

definition mkfs_path :: "'x path_env_scheme \<Rightarrow> u32 \<Rightarrow> u32 \<Rightarrow> (int \<times> 'x path_env_scheme) option" where
  "mkfs_path d owner grp =
    do { (root, d) \<leftarrow> dir_create d 0;
         if root \<noteq> 0 then None
         else
           do { d \<leftarrow> open_ok d root;
                (res, d) \<leftarrow> refs_link d root;
                if res \<noteq> 0 then None
                else
                  do { (res, d) \<leftarrow> perm_chown d root 0 owner grp;
                       if res \<noteq> 0 then None
                       else
                         do { (res, d) \<leftarrow> perm_chmod d root 0x1ED owner;
                              if res \<noteq> 0 then None
                              else do { d \<leftarrow> close_ok d root; Some (0, d) } } } } }"

end
