(* ===== verification/Candyfs.thy ===== *)
theory Candyfs
  imports Path
begin

text \<open>
  The FUSE operations (\<open>candyfs.c\<close>) and the two programs' \<open>main\<close> (\<open>candyfs.c\<close>, \<open>mkfs.c\<close>) up to
  \<open>fuse_main\<close>.  \<open>user\<close> and \<open>grp\<close> are the ids of the FUSE context.  Results are C \<open>int\<close>s.
\<close>

section \<open>Results\<close>

definition int_of_long :: "int \<Rightarrow> int" where
  "int_of_long x = sint (of_int x :: u32)"

text \<open>\<open>S(I(inode))\<close> and \<open>F(e, I(inode))\<close>: close, and return \<open>0\<close> or the error.\<close>

definition done_inode :: "'x path_env_scheme \<Rightarrow> ino \<Rightarrow> int \<Rightarrow> (int \<times> 'x path_env_scheme) option" where
  "done_inode d inode res = do { d \<leftarrow> close_ok d inode; Some (if res < 0 then int_of_long res else 0, d) }"

definition close_path :: "'x path_env_scheme \<Rightarrow> int \<Rightarrow> 'x path_env_scheme option" where
  "close_path d handle = do { (res, d) \<leftarrow> path_close d handle; if res = 0 then Some d else None }"

definition done_path :: "'x path_env_scheme \<Rightarrow> int \<Rightarrow> int \<Rightarrow> (int \<times> 'x path_env_scheme) option" where
  "done_path d handle res = do { d \<leftarrow> close_path d handle; Some (if res < 0 then int_of_long res else 0, d) }"

text \<open>\<open>inode = path_resolve(...); F(inode, true); ...\<close>\<close>

definition with_inode ::
  "'x path_env_scheme \<Rightarrow> byte list \<Rightarrow> bool \<Rightarrow> u32 \<Rightarrow> u32 \<Rightarrow> 'r \<Rightarrow>
    ('x path_env_scheme \<Rightarrow> ino \<Rightarrow> (int \<times> 'r \<times> 'x path_env_scheme) option) \<Rightarrow> (int \<times> 'r \<times> 'x path_env_scheme) option" where
  "with_inode d path deref user grp r0 f =
    do { (inode, d) \<leftarrow> path_resolve d path deref user grp;
         if sint inode < 0 then Some (int_of_ino inode, r0, d) else f d inode }"

definition with_inode' ::
  "'x path_env_scheme \<Rightarrow> byte list \<Rightarrow> bool \<Rightarrow> u32 \<Rightarrow> u32 \<Rightarrow>
    ('x path_env_scheme \<Rightarrow> ino \<Rightarrow> (int \<times> 'x path_env_scheme) option) \<Rightarrow> (int \<times> 'x path_env_scheme) option" where
  "with_inode' d path deref user grp f =
    do { (inode, d) \<leftarrow> path_resolve d path deref user grp;
         if sint inode < 0 then Some (int_of_ino inode, d) else f d inode }"

text \<open>\<open>handle = path_open(...); F(handle, true); ...\<close>\<close>

definition with_path ::
  "'x path_env_scheme \<Rightarrow> byte list \<Rightarrow> u32 \<Rightarrow> u32 \<Rightarrow>
    ('x path_env_scheme \<Rightarrow> int \<Rightarrow> (int \<times> 'x path_env_scheme) option) \<Rightarrow> (int \<times> 'x path_env_scheme) option" where
  "with_path d path user grp f =
    do { (handle, d) \<leftarrow> path_open d path False user grp (-1);
         if handle < 0 then Some (int_of_long handle, d) else f d handle }"

section \<open>Attributes\<close>

record stat =
  st_ino :: ino
  st_mode :: u32
  st_nlink :: u64
  st_uid :: u32
  st_gid :: u32
  st_rdev :: u64
  st_size :: int
  st_blocks :: int
  st_atim :: timespec
  st_mtim :: timespec
  st_ctim :: timespec

definition fill_stat :: "ino \<Rightarrow> inode_info \<Rightarrow> stat" where
  "fill_stat inode info =
    \<lparr>st_ino = inode, st_mode = imode info, st_nlink = inlinks info, st_uid = iowner info, st_gid = igroup info,
     st_rdev = -1, st_size = sint (isize info),
     st_blocks = sint (isize info) sdiv BLOCKSIZE + (if sint (isize info) smod BLOCKSIZE \<noteq> 0 then 1 else 0),
     st_atim = last_access info, st_mtim = last_change info, st_ctim = last_statchange info\<rparr>"

definition candy_getattr ::
  "'x path_env_scheme \<Rightarrow> byte list \<Rightarrow> u32 \<Rightarrow> u32 \<Rightarrow> (int \<times> stat option \<times> 'x path_env_scheme) option" where
  "candy_getattr d path user grp =
    with_inode d path False user grp None (\<lambda>d inode.
      do { info \<leftarrow> inode_getinfo d inode;
           case info of
             None \<Rightarrow> do { (res, d) \<leftarrow> done_inode d inode (-1); Some (res, None, d) }
           | Some info \<Rightarrow> do { (res, d) \<leftarrow> done_inode d inode 0; Some (res, Some (fill_stat inode info), d) } })"

definition candy_fgetattr :: "'x path_env_scheme \<Rightarrow> ino \<Rightarrow> (int \<times> stat option) option" where
  "candy_fgetattr d inode =
    do { info \<leftarrow> inode_getinfo d inode;
         case info of None \<Rightarrow> Some (-1, None) | Some info \<Rightarrow> Some (0, Some (fill_stat inode info)) }"

text \<open>\<open>buffer\<close> has the \<open>len\<close> bytes of the caller.\<close>

definition candy_readlink ::
  "'x path_env_scheme \<Rightarrow> byte list \<Rightarrow> byte list \<Rightarrow> u32 \<Rightarrow> u32 \<Rightarrow> (int \<times> byte list \<times> 'x path_env_scheme) option" where
  "candy_readlink d path buffer user grp =
    with_inode d path False user grp buffer (\<lambda>d inode.
      do { (reallen, buffer, d) \<leftarrow> symlink_read d inode buffer (int (length buffer) - 1);
           if sint reallen < 0 then
             do { (res, d) \<leftarrow> done_inode d inode (sint reallen); Some (res, buffer, d) }
           else if length buffer \<le> unat reallen then None
           else do { (res, d) \<leftarrow> done_inode d inode 0; Some (res, buffer[unat reallen := 0], d) } })"

section \<open>Directory entries\<close>

definition candy_mkdir ::
  "'x path_env_scheme \<Rightarrow> byte list \<Rightarrow> u32 \<Rightarrow> u32 \<Rightarrow> u32 \<Rightarrow> (int \<times> 'x path_env_scheme) option" where
  "candy_mkdir d path mode user grp =
    with_path d path user grp (\<lambda>d handle.
      do { (ores, d) \<leftarrow> path_mkdir d handle mode user grp; done_path d handle ores })"

definition candy_unlink :: "'x path_env_scheme \<Rightarrow> byte list \<Rightarrow> u32 \<Rightarrow> u32 \<Rightarrow> (int \<times> 'x path_env_scheme) option" where
  "candy_unlink d path user grp =
    with_path d path user grp (\<lambda>d handle.
      do { (ores, d) \<leftarrow> path_unlink d handle user grp; done_path d handle ores })"

definition candy_rmdir :: "'x path_env_scheme \<Rightarrow> byte list \<Rightarrow> u32 \<Rightarrow> u32 \<Rightarrow> (int \<times> 'x path_env_scheme) option" where
  "candy_rmdir d path user grp =
    with_path d path user grp (\<lambda>d handle.
      do { (ores, d) \<leftarrow> path_rmdir d handle user grp; done_path d handle ores })"

text \<open>The end of \<open>candy_symlink\<close> and of \<open>candy_link\<close>: enter an open inode under a path.\<close>

definition link_under ::
  "'x path_env_scheme \<Rightarrow> ino \<Rightarrow> byte list \<Rightarrow> u32 \<Rightarrow> u32 \<Rightarrow> (int \<times> 'x path_env_scheme) option" where
  "link_under d inode path user grp =
    do { (handle, d) \<leftarrow> path_open d path False user grp (-1);
         if handle < 0 then done_inode d inode handle
         else
           do { (ores, d) \<leftarrow> path_link d handle inode user grp;
                d \<leftarrow> close_ok d inode;
                done_path d handle ores } }"

definition candy_symlink ::
  "'x path_env_scheme \<Rightarrow> byte list \<Rightarrow> byte list \<Rightarrow> u32 \<Rightarrow> u32 \<Rightarrow> (int \<times> 'x path_env_scheme) option" where
  "candy_symlink d linkname path user grp =
    do { (inode, d) \<leftarrow> symlink_create d linkname;
         if sint inode < 0 then Some (int_of_ino inode, d)
         else
           do { d \<leftarrow> open_ok d inode;
                (res, d) \<leftarrow> perm_chown d inode 0 user grp;
                if res \<noteq> 0 then None else link_under d inode path user grp } }"

definition candy_link ::
  "'x path_env_scheme \<Rightarrow> byte list \<Rightarrow> byte list \<Rightarrow> u32 \<Rightarrow> u32 \<Rightarrow> (int \<times> 'x path_env_scheme) option" where
  "candy_link d oldpath newpath user grp =
    with_inode' d oldpath False user grp (\<lambda>d inode.
      do { (dstpath, d) \<leftarrow> path_open d newpath False user grp (-1);
           if dstpath < 0 then done_inode d inode dstpath
           else
             do { (ores, d) \<leftarrow> path_link d dstpath inode user grp;
                  d \<leftarrow> close_path d dstpath;
                  done_inode d inode ores } })"

definition candy_rename ::
  "'x path_env_scheme \<Rightarrow> byte list \<Rightarrow> byte list \<Rightarrow> u32 \<Rightarrow> u32 \<Rightarrow> (int \<times> 'x path_env_scheme) option" where
  "candy_rename d oldpath newpath user grp =
    with_path d newpath user grp (\<lambda>d dstpath.
      do { (srcpath, d) \<leftarrow> path_open d oldpath False user grp dstpath;
           if srcpath = - EWOULDBLOCK then done_path d dstpath 0
           else if srcpath < 0 then done_path d dstpath srcpath
           else
             do { (ores, d) \<leftarrow> path_rename d dstpath srcpath user grp;
                  d \<leftarrow> close_path d dstpath;
                  done_path d srcpath ores } })"

section \<open>Changing attributes\<close>

definition candy_chmod ::
  "'x path_env_scheme \<Rightarrow> byte list \<Rightarrow> u32 \<Rightarrow> u32 \<Rightarrow> u32 \<Rightarrow> (int \<times> 'x path_env_scheme) option" where
  "candy_chmod d path mode user grp =
    with_inode' d path True user grp (\<lambda>d inode.
      do { (ores, d) \<leftarrow> perm_chmod d inode (mode AND 0xFFF) user; done_inode d inode ores })"

definition candy_chown ::
  "'x path_env_scheme \<Rightarrow> byte list \<Rightarrow> u32 \<Rightarrow> u32 \<Rightarrow> u32 \<Rightarrow> u32 \<Rightarrow> (int \<times> 'x path_env_scheme) option" where
  "candy_chown d path newuser newgroup user grp =
    with_inode' d path True user grp (\<lambda>d inode.
      do { (ores, d) \<leftarrow> perm_chown d inode user newuser newgroup; done_inode d inode ores })"

definition candy_utimens ::
  "'x path_env_scheme \<Rightarrow> byte list \<Rightarrow> timespec \<Rightarrow> timespec \<Rightarrow> u32 \<Rightarrow> u32 \<Rightarrow> (int \<times> 'x path_env_scheme) option" where
  "candy_utimens d path atime mtime user grp =
    with_inode' d path False user grp (\<lambda>d inode.
      do { ores \<leftarrow> perm_check d inode PERM_UTIME user grp;
           if ores < 0 then done_inode d inode ores
           else do { (ores, d) \<leftarrow> inode_utime d inode (Some atime) (Some mtime); done_inode d inode ores } })"

definition truncate_result :: "int \<Rightarrow> int \<Rightarrow> int" where
  "truncate_result ores sz = (if ores < 0 then ores else if ores \<noteq> sz then - ENOSPC else 0)"

definition candy_truncate ::
  "'x path_env_scheme \<Rightarrow> byte list \<Rightarrow> int \<Rightarrow> u32 \<Rightarrow> u32 \<Rightarrow> (int \<times> 'x path_env_scheme) option" where
  "candy_truncate d path sz user grp =
    with_inode' d path True user grp (\<lambda>d inode.
      do { (ores, d) \<leftarrow> file_truncate d inode sz; done_inode d inode (truncate_result ores sz) })"

definition candy_ftruncate :: "'x path_env_scheme \<Rightarrow> ino \<Rightarrow> int \<Rightarrow> (int \<times> 'x path_env_scheme) option" where
  "candy_ftruncate d inode sz =
    do { (ores, d) \<leftarrow> file_truncate d inode sz; Some (int_of_long (truncate_result ores sz), d) }"

section \<open>Opening and access\<close>

definition O_ACCMODE :: u32 where "O_ACCMODE = 3"
definition O_RDONLY :: u32 where "O_RDONLY = 0"
definition O_WRONLY :: u32 where "O_WRONLY = 1"
definition O_RDWR :: u32 where "O_RDWR = 2"
definition O_APPEND :: u32 where "O_APPEND = 0x400"

definition access_mode_of :: "u32 \<Rightarrow> u32 option" where
  "access_mode_of flags =
    (if flags AND O_ACCMODE = O_RDONLY then Some PERM_READ
     else if flags AND O_ACCMODE = O_WRONLY then Some PERM_WRITE
     else if flags AND O_ACCMODE = O_RDWR then Some (PERM_READ OR PERM_WRITE)
     else None)"

text \<open>
  \<open>candy_open\<close> and \<open>candy_opendir\<close> after the type of the inode was checked with the error
  \<open>type_error\<close>.  The result has \<open>fi->fh\<close> when it was set.
\<close>

definition open_with ::
  "(u32 \<Rightarrow> int) \<Rightarrow> 'x path_env_scheme \<Rightarrow> byte list \<Rightarrow> u32 \<Rightarrow> u32 \<Rightarrow> u32 \<Rightarrow> (int \<times> ino option \<times> 'x path_env_scheme) option" where
  "open_with type_error d path flags user grp =
    with_inode d path True user grp None (\<lambda>d inode.
      do { info \<leftarrow> getinfo_ok d inode;
           if type_error (imode info) < 0
           then do { (res, d) \<leftarrow> done_inode d inode (type_error (imode info)); Some (res, None, d) }
           else
             (case access_mode_of flags of
                None \<Rightarrow> do { (res, d) \<leftarrow> done_inode d inode (- EINVAL); Some (res, None, d) }
              | Some access_mode \<Rightarrow>
                  do { ores \<leftarrow> perm_check d inode access_mode user grp;
                       if ores < 0 then do { (res, d) \<leftarrow> done_inode d inode ores; Some (res, None, d) }
                       else Some (0, Some inode, d) }) })"

definition candy_open ::
  "'x path_env_scheme \<Rightarrow> byte list \<Rightarrow> u32 \<Rightarrow> u32 \<Rightarrow> u32 \<Rightarrow> (int \<times> ino option \<times> 'x path_env_scheme) option" where
  "candy_open = open_with (\<lambda>mode. if S_ISDIR mode then - EISDIR else if \<not> S_ISREG mode then - EINVAL else 0)"

definition candy_opendir ::
  "'x path_env_scheme \<Rightarrow> byte list \<Rightarrow> u32 \<Rightarrow> u32 \<Rightarrow> u32 \<Rightarrow> (int \<times> ino option \<times> 'x path_env_scheme) option" where
  "candy_opendir = open_with (\<lambda>mode. if \<not> S_ISDIR mode then - ENOTDIR else 0)"

definition candy_release :: "'x path_env_scheme \<Rightarrow> ino \<Rightarrow> (int \<times> 'x path_env_scheme) option" where
  "candy_release d fh = done_inode d fh 0"

definition candy_releasedir :: "'x path_env_scheme \<Rightarrow> ino \<Rightarrow> (int \<times> 'x path_env_scheme) option" where
  "candy_releasedir d fh = done_inode d fh 0"

text \<open>\<open>F_OK\<close> is 0, \<open>R_OK\<close> 4, \<open>W_OK\<close> 2 and \<open>X_OK\<close> 1.\<close>

definition candy_access ::
  "'x path_env_scheme \<Rightarrow> byte list \<Rightarrow> u32 \<Rightarrow> u32 \<Rightarrow> u32 \<Rightarrow> (int \<times> 'x path_env_scheme) option" where
  "candy_access d path flags user grp =
    with_inode' d path True user grp (\<lambda>d inode.
      if flags = 0 then done_inode d inode 0
      else
        (let access_mode = (if flags AND 4 \<noteq> 0 then PERM_READ else 0) OR
             (if flags AND 2 \<noteq> 0 then PERM_WRITE else 0) OR (if flags AND 1 \<noteq> 0 then PERM_EXEC else 0) in
         do { ores \<leftarrow> perm_check d inode access_mode user grp; done_inode d inode ores }))"

definition candy_create ::
  "'x path_env_scheme \<Rightarrow> byte list \<Rightarrow> u32 \<Rightarrow> u32 \<Rightarrow> u32 \<Rightarrow> (int \<times> ino option \<times> 'x path_env_scheme) option" where
  "candy_create d path mode user grp =
    (if \<not> S_ISREG mode then Some (- EINVAL, None, d)
     else
       do { (inode, d) \<leftarrow> file_create d;
            if sint inode < 0 then Some (int_of_ino inode, None, d)
            else
              do { d \<leftarrow> open_ok d inode;
                   (res, d) \<leftarrow> perm_chown d inode 0 user grp;
                   if res \<noteq> 0 then None
                   else
                     do { (res, d) \<leftarrow> perm_chmod d inode (mode AND 0xFFF) user;
                          if res \<noteq> 0 then None
                          else
                            do { (handle, d) \<leftarrow> path_open d path False user grp (-1);
                                 if handle < 0 then do { (res, d) \<leftarrow> done_inode d inode handle; Some (res, None, d) }
                                 else
                                   do { (ores, d) \<leftarrow> path_link d handle inode user grp;
                                        if ores < 0 then
                                          do { d \<leftarrow> close_ok d inode; (res, d) \<leftarrow> done_path d handle ores; Some (res, None, d) }
                                        else do { (res, d) \<leftarrow> done_path d handle 0; Some (res, Some inode, d) } } } } } })"

section \<open>Bytes and entries\<close>

definition candy_read ::
  "'x path_env_scheme \<Rightarrow> ino \<Rightarrow> byte list \<Rightarrow> int \<Rightarrow> (int \<times> byte list \<times> 'x path_env_scheme) option" where
  "candy_read d inode buffer offset =
    do { (n, buffer, d) \<leftarrow> file_read d inode offset buffer (int (length buffer)); Some (int_of_long n, buffer, d) }"

definition candy_write ::
  "'x path_env_scheme \<Rightarrow> ino \<Rightarrow> u32 \<Rightarrow> byte list \<Rightarrow> int \<Rightarrow> (int \<times> 'x path_env_scheme) option" where
  "candy_write d inode flags buf offset =
    (let offset = (if flags AND O_APPEND = O_APPEND then -1 else offset) in
     do { (n, d) \<leftarrow> file_write d inode offset buf (int (length buf)); Some (int_of_long n, d) })"

text \<open>The result is the \<open>statvfs\<close> with \<open>f_namemax\<close>.\<close>

definition candy_statfs :: "'x path_env_scheme \<Rightarrow> (statvfs \<times> u64) option" where
  "candy_statfs d = do { fs \<leftarrow> block_stat d; Some (fs, NAME_MAX) }"

text \<open>
  \<open>filler out\<close> tells whether FUSE's buffer takes the last of the entries \<open>out\<close>; the result has
  the entries handed to it.
\<close>

partial_function (option) candy_readdir ::
  "'x path_env_scheme \<Rightarrow> ((byte list \<times> int) list \<Rightarrow> bool) \<Rightarrow> int \<Rightarrow> ino \<Rightarrow> (byte list \<times> int) list \<Rightarrow>
    (int \<times> (byte list \<times> int) list \<times> 'x path_env_scheme) option" where
  "candy_readdir d filler off fh out =
    do { (off, entry, d) \<leftarrow> dir_enumerate d fh off (NAME_MAX + 1);
         if off < 0 then Some (int_of_long off, out, d)
         else if off = 0 then Some (0, out, d)
         else
           (case entry of
              None \<Rightarrow> None
            | Some (_, name) \<Rightarrow>
                (let out = out @ [(name, off)] in
                 if filler out then candy_readdir d filler off fh out else Some (0, out, d))) }"

section \<open>The programs\<close>

text \<open>The state of a process that has opened a disk: the tables start zeroed.\<close>

definition boot :: "disk_t \<Rightarrow> (nat \<Rightarrow> timespec option) \<Rightarrow> (nat \<Rightarrow> byte list) \<Rightarrow> path_env" where
  "boot disk clk jnk =
    \<lparr>nblocks = nblocks disk, blocksize = blocksize disk, fd = fd disk, disk_data = disk_data disk, io_ok = io_ok disk,
     clock = clk, ticks = 0, junk = jnk, open_file_table = replicate HASHMAP_SIZE [],
     open_path_table = replicate MAX_OPEN_PATHS \<lparr>path_refs = 0, parent_dir = 0, path_name = []\<rparr>\<rparr>"

text \<open>\<open>assert(mkfs_path(disk, owner, group) == 0)\<close> after \<open>mkfs_storage\<close>\<close>

definition format_disk :: "'x path_env_scheme \<Rightarrow> u64 \<Rightarrow> u32 \<Rightarrow> u32 \<Rightarrow> 'x path_env_scheme option" where
  "format_disk d isz owner grp =
    do { d \<leftarrow> mkfs_storage d isz;
         (res, d) \<leftarrow> mkfs_path d owner grp;
         if res = 0 then Some d else None }"

text \<open>The arguments of \<open>mkfs.candyfs\<close> without \<open>argv[0]\<close>; \<open>None\<close> is \<open>usage()\<close>.\<close>

definition mkfs_args :: "string list \<Rightarrow> (bool \<times> string) option" where
  "mkfs_args args =
    (case args of
       [device] \<Rightarrow> Some (False, device)
     | [opt, device] \<Rightarrow> if opt = ''--user'' then Some (True, device) else None
     | _ \<Rightarrow> None)"

text \<open>
  The result is the exit code with the disk.  A device that cannot be opened is a null pointer
  that is used: undefined.
\<close>

definition mkfs_main ::
  "bool \<Rightarrow> (string \<Rightarrow> device) \<Rightarrow> u32 \<Rightarrow> u32 \<Rightarrow> (nat \<Rightarrow> timespec option) \<Rightarrow> (nat \<Rightarrow> byte list) \<Rightarrow> string list \<Rightarrow>
    (int \<times> path_env option) option" where
  "mkfs_main malloc_ok devices uid gid clk jnk args =
    (case mkfs_args args of
       None \<Rightarrow> Some (1, None)
     | Some (user, device) \<Rightarrow>
         do { opened \<leftarrow> disk_open malloc_ok (devices device) BLOCKSIZE;
              disk \<leftarrow> opened;
              d \<leftarrow> format_disk (boot disk clk jnk) (nblocks disk div 256) (if user then uid else 0) (if user then gid else 0);
              Some (0, Some d) })"

text \<open>
  \<open>main\<close> of \<open>mount.candyfs\<close> up to \<open>fuse_main\<close>: \<open>Inl\<close> is the exit code, \<open>Inr\<close> the state
  that FUSE serves.
\<close>

definition mount_main ::
  "(u64 \<Rightarrow> (nat \<Rightarrow> byte) option) \<Rightarrow> bool \<Rightarrow> (string \<Rightarrow> device) \<Rightarrow> u32 \<Rightarrow> u32 \<Rightarrow> (nat \<Rightarrow> timespec option) \<Rightarrow>
    (nat \<Rightarrow> byte list) \<Rightarrow> string list \<Rightarrow> (int + path_env) option" where
  "mount_main malloc malloc_ok devices uid gid clk jnk args =
    (case args of
       [mountpoint] \<Rightarrow>
         do { disk \<leftarrow> disk_create malloc (1024 * 1024) BLOCKSIZE;
              d \<leftarrow> format_disk (boot disk clk jnk) 1024 uid gid;
              Some (Inr d) }
     | [device, mountpoint] \<Rightarrow>
         do { opened \<leftarrow> disk_open malloc_ok (devices device) BLOCKSIZE;
              case opened of
                None \<Rightarrow> Some (Inl 1)
              | Some disk \<Rightarrow>
                  do { superblock \<leftarrow> read_block disk 0;
                       if (of_bytes (slice 0 4 superblock) :: u32) \<noteq> CANDYFS_MAGIC then Some (Inl 1)
                       else Some (Inr (boot disk clk jnk)) } }
     | _ \<Rightarrow> Some (Inl 1))"

end
