(* ===== verification/Store_Mkfs.thy ===== *)
theory Store_Mkfs
  imports Store_Inodes
begin

text \<open>
  \<open>mkfs_storage\<close> creates a well-formed store: every block after the inode table is on the
  free list once, and every inode number of the table is free, in increasing order.
\<close>

section \<open>The free list that formatting writes\<close>

lemma unat_of_int: "0 \<le> k \<Longrightarrow> k < 2 ^ 51 \<Longrightarrow> unat (of_int k :: u64) = nat k"
proof -
  assume k: "0 \<le> k" "k < 2 ^ 51"
  then have "unat (of_nat (nat k) :: u64) = nat k"
    unfolding unat_of_nat by (intro mod_less) simp
  with k show ?thesis by simp
qed

lemma of_int_facts:
  assumes "0 \<le> k" and "k < 2 ^ 51"
  shows "(of_int k :: u64) \<noteq> EOF" "sint (of_int k :: u64) = k"
proof -
  have u: "unat (of_int k :: u64) = nat k"
    using assms by (rule unat_of_int)
  then show s: "sint (of_int k :: u64) = k"
    using assms by (subst sint_eq_unat) auto
  show "(of_int k :: u64) \<noteq> EOF"
    using s assms(1) sint_EOF by fastforce
qed

lemma inj_on_of_int: "N \<le> 2 ^ 51 \<Longrightarrow> 0 \<le> i \<Longrightarrow> inj_on (of_int :: int \<Rightarrow> u64) {i..<N}"
  by (rule inj_on_inverseI [where g = sint]) (auto simp: of_int_facts)

definition mkfs_targets :: "int \<Rightarrow> int \<Rightarrow> blockno list" where
  "mkfs_targets N i = map of_int [i + 1..min (i + 511) (N - 1)]"

lemma freelist_ok_mkfs [simp]: "freelist_ok (mkfs_freelist_entry N i)"
  by (simp add: freelist_ok_def mkfs_freelist_entry_def Let_def)

lemma mkfs_entry_targets:
  assumes "0 \<le> i" and "i < N" and "N \<le> 2 ^ 51"
  shows "filter (\<lambda>x. x \<noteq> EOF) (fl_blocks (mkfs_freelist_entry N i)) = mkfs_targets N i"
proof -
  define m where "m = nat (min 511 (N - 1 - i))"
  have m: "m \<le> 511" "int m = min 511 (N - 1 - i)"
    using assms by (simp_all add: m_def)
  define f where "f = (\<lambda>j. let t = i + 1 + int j in if N \<le> t then EOF else of_int t :: u64)"
  have split: "[0..<511] = [0..<m] @ [m..<511]"
    using m(1) upt_add_eq_append [of 0 m "511 - m"] by simp
  have lo: "f j = of_int (i + 1 + int j)" "f j \<noteq> EOF" if "j < m" for j
  proof -
    have t: "i + 1 + int j < N"
      using that m(2) by linarith
    then show eq: "f j = of_int (i + 1 + int j)"
      by (simp add: f_def Let_def)
    show "f j \<noteq> EOF"
      unfolding eq using t assms by (intro of_int_facts(1)) auto
  qed
  have hi: "f j = EOF" if "m \<le> j" "j < 511" for j
  proof -
    have "N \<le> i + 1 + int j"
      using that m by linarith
    then show ?thesis by (simp add: f_def Let_def)
  qed
  have "filter (\<lambda>x. x \<noteq> EOF) (map f [0..<511]) = map (\<lambda>j. of_int (i + 1 + int j)) [0..<m]"
  proof -
    have "filter (\<lambda>x. x \<noteq> EOF) (map f [0..<m]) = map f [0..<m]"
      using lo(2) by (intro filter_True) auto
    moreover have "map f [0..<m] = map (\<lambda>j. of_int (i + 1 + int j)) [0..<m]"
      using lo(1) by (intro map_cong refl) auto
    moreover have "filter (\<lambda>x. x \<noteq> EOF) (map f [m..<511]) = []"
      using hi by (auto simp: filter_empty_conv)
    ultimately show ?thesis
      by (simp only: split map_append filter_append append_Nil2)
  qed
  also have "\<dots> = map of_int (map (\<lambda>j. i + 1 + int j) [0..<m])"
    by simp
  also have "map (\<lambda>j. i + 1 + int j) [0..<m] = [i + 1..min (i + 511) (N - 1)]"
    using m(2) by (intro nth_equalityI) (auto simp: min_def)
  finally show ?thesis
    by (simp add: mkfs_freelist_entry_def mkfs_targets_def f_def Let_def)
qed

lemma mkfs_freelist_spec:
  assumes "wf_disk d" and "0 < i" and "N = uint (nblocks d)"
  shows "\<exists>d' bs. mkfs_freelist N i d = Some d' \<and> untouched {b. i \<le> uint b} d d' \<and>
    fl_chain d' (if i < N then of_int i else EOF) bs \<and> distinct (free_list d' bs) \<and>
    set (free_list d' bs) = of_int ` {i..<N}"
  using assms
proof (induction N i d rule: mkfs_freelist.induct)
  case (1 N i d)
  note wf = "1.prems"(1) and i = "1.prems"(2) and N = "1.prems"(3)
  have N51: "N \<le> 2 ^ 51"
    using wf N by (simp add: wf_disk_def unat_less_uint_iff)
  define nx where "nx = i + (511 + 1)"
  show ?case
  proof (cases "i < N")
    case False
    then show ?thesis
      by (intro exI [of _ d] exI [of _ "[]"]) (simp add: mkfs_freelist.simps)
  next
    case True
    let ?e = "mkfs_freelist_entry N i" and ?b = "of_int i :: u64"
    let ?d = "upd_blk d ?b (enc_freelist ?e)"
    have "unat ?b = nat i" and bE: "?b \<noteq> EOF"
      using True N51 i by (simp_all add: unat_of_int of_int_facts)
    then have ub: "uint ?b = i"
      using i by (metis int_nat_eq less_imp_le uint_nat)
    then have "?b < nblocks d"
      using True N by (simp add: word_less_def)
    then have wr: "disk_write d ?b (enc_freelist ?e) = Some ?d"
      using wf by (simp add: disk_write_wf)
    obtain d' bs where IH: "mkfs_freelist N nx ?d = Some d'" "untouched {b. nx \<le> uint b} ?d d'"
        "fl_chain d' (if nx < N then of_int nx else EOF) bs"
        "distinct (free_list d' bs)" "set (free_list d' bs) = of_int ` {nx..<N}"
      using "1.IH" [OF True wr, folded nx_def] wf i N by (auto simp: nx_def)
    have "blk d' ?b = enc_freelist ?e"
      using untouched_blk [OF IH(2), of ?b] ub by (simp add: nx_def)
    then have at: "fl_at d' ?b = ?e"
      by (simp add: fl_at_def)
    have ent: "fl_entries d' ?b = mkfs_targets N i @ [?b]"
      using True i N51 by (simp add: fl_entries_def at mkfs_entry_targets)
    have range: "{i..<N} = {i + 1..min (i + 511) (N - 1)} \<union> {i} \<union> {nx..<N}"
      using True by (auto simp: nx_def)
    have inj: "inj_on (of_int :: int \<Rightarrow> u64) {i..<N}"
      using N51 i by (intro inj_on_of_int) auto
    have "fl_next ?e = (if nx < N then of_int nx else EOF)"
      by (simp add: mkfs_freelist_entry_def nx_def Let_def)
    then have "fl_chain d' ?b (?b # bs)"
      using IH(3) bE by (simp add: at)
    moreover have "set (free_list d' (?b # bs)) = of_int ` {i..<N}"
      unfolding range image_Un using IH(5) by (simp add: ent mkfs_targets_def)
    moreover have "distinct (free_list d' (?b # bs))"
    proof -
      have "distinct (mkfs_targets N i)"
        using True by (auto simp: mkfs_targets_def distinct_map intro!: inj_on_subset [OF inj])
      moreover have "?b \<notin> set (mkfs_targets N i)" "?b \<notin> of_int ` {nx..<N}"
        using True by (auto simp: mkfs_targets_def nx_def inj_on_eq_iff [OF inj])
      moreover have "set (mkfs_targets N i) \<inter> of_int ` {nx..<N} = {}"
        using True by (auto simp: mkfs_targets_def nx_def inj_on_eq_iff [OF inj])
      ultimately show ?thesis
        using IH(4,5) by (auto simp: ent)
    qed
    moreover have "untouched {b. i \<le> uint b} d d'"
      using ub i by (intro untouched_mono [OF untouched_trans [OF untouched_upd_blk [of _ ?b "{?b}"] IH(2)]])
        (auto simp: nx_def)
    moreover have "mkfs_freelist N i d = Some d'"
      using True wr IH(1) by (simp add: mkfs_freelist.simps [of N i] nx_def)
    ultimately show ?thesis
      unfolding if_P [OF True] by blast
  qed
qed

section \<open>The inode table that formatting writes\<close>

lemma ino_chain_upt:
  assumes "\<And>j. j < n \<Longrightarrow> valid_ino d (of_nat j)"
    and "\<And>j. j < n \<Longrightarrow> - ilist_at d (of_nat j) = (if Suc j = n then EOF else of_nat (Suc j))"
    and "k \<le> n"
  shows "ino_chain d (if k = n then EOF else of_nat k) (map of_nat [k..<n])"
  using \<open>k \<le> n\<close>
proof (induction rule: inc_induct)
  case (step k)
  then show ?case
    using assms(1,2) [of k] by (simp add: upt_conv_Cons)
qed simp

lemma words_ok_iblock [simp]: "words_ok (mkfs_iblock isz i)"
  by (simp add: words_ok_def mkfs_iblock_def Let_def)

lemma mkfs_iblock_nth:
  assumes "j < 512"
  shows "mkfs_iblock isz i ! j =
    (if of_nat i = isz - 1 \<and> j = 511 then EOF else - (of_nat j + 512 * of_nat i + 1))"
  using assms by (auto simp: mkfs_iblock_def Let_def nth_list_update)

lemma mkfs_ilist_spec:
  assumes wf: "wf_disk d" and size: "unat isz + 1 < unat (nblocks d)"
  shows "\<exists>d'. for_each [0..<unat isz] (\<lambda>i d. disk_write d (of_nat i + 1) (enc_words (mkfs_iblock isz i))) d = Some d' \<and>
    untouched {b. 0 < unat b \<and> unat b \<le> unat isz} d d' \<and>
    (\<forall>m < unat isz. blk d' (of_nat m + 1) = enc_words (mkfs_iblock isz m))"
proof -
  let ?I = "\<lambda>k d'. untouched {b. 0 < unat b \<and> unat b \<le> k} d d' \<and>
    (\<forall>m < k. blk d' (of_nat m + 1) = enc_words (mkfs_iblock isz m))"
  have num: "unat (of_nat m + 1 :: u64) = Suc m" if "m < unat isz" for m
  proof -
    have "m + 1 < 2 ^ 64"
      using that wf size by (simp add: wf_disk_def)
    then have "unat (of_nat (m + 1) :: u64) = m + 1"
      unfolding unat_of_nat by (intro mod_less) simp
    then show ?thesis by (simp add: add.commute)
  qed
  show ?thesis
  proof (rule for_each_upt_invariant [where I = ?I])
    fix i d'
    assume i: "i < unat isz" and inv: "?I i d'"
    let ?b = "of_nat i + 1 :: u64" and ?bs = "enc_words (mkfs_iblock isz i)"
    have dev: "wf_disk d'" "nblocks d' = nblocks d"
      using inv wf untouched_dev by blast+
    have "?b < nblocks d'"
      using num [OF i] i size dev by (simp add: word_less_nat_alt)
    then have "disk_write d' ?b ?bs = Some (upd_blk d' ?b ?bs)"
      using dev by (simp add: disk_write_wf)
    moreover have "untouched {b. 0 < unat b \<and> unat b \<le> Suc i} d (upd_blk d' ?b ?bs)"
      using inv num [OF i]
      by (intro untouched_mono [OF untouched_trans [OF conjunct1 [OF inv] untouched_upd_blk [of _ ?b "{?b}"]]]) auto
    moreover have "blk (upd_blk d' ?b ?bs) (of_nat m + 1) = enc_words (mkfs_iblock isz m)" if "m < Suc i" for m
    proof (cases "m = i")
      case False
      then have "of_nat m + 1 \<noteq> ?b"
        using num [of m] num [OF i] that i by (metis less_antisym less_trans old.nat.inject)
      then show ?thesis
        using inv False that by simp
    qed simp
    ultimately show "\<exists>d''. disk_write d' ?b ?bs = Some d'' \<and> ?I (Suc i) d''"
      by blast
  qed simp
qed

section \<open>The formatted disk\<close>

definition mkfs_data_blocks :: "'x disk_t_scheme \<Rightarrow> u64 \<Rightarrow> blockno set" where
  "mkfs_data_blocks d isz = {b. isz < b \<and> b < nblocks d}"

definition mkfs_inos :: "u64 \<Rightarrow> ino list" where
  "mkfs_inos isz = map of_nat [0..<unat isz * 512]"

lemma mkfs_data_blocks_image:
  assumes "unat isz + 1 < unat (nblocks d)"
  shows "mkfs_data_blocks d isz = of_int ` {uint isz + 1..<uint (nblocks d)}"
proof (intro equalityI subsetI)
  fix b assume "b \<in> mkfs_data_blocks d isz"
  then have "uint b \<in> {uint isz + 1..<uint (nblocks d)}"
    by (auto simp: mkfs_data_blocks_def word_less_def)
  moreover have "b = of_int (uint b)"
    by simp
  ultimately show "b \<in> of_int ` {uint isz + 1..<uint (nblocks d)}"
    by blast
next
  fix b :: u64 assume "b \<in> of_int ` {uint isz + 1..<uint (nblocks d)}"
  then obtain k where k: "uint isz + 1 \<le> k" "k < uint (nblocks d)" "b = of_int k"
    by auto
  moreover have "uint b = k"
  proof -
    have "0 \<le> uint isz" by simp
    then have "0 \<le> k" using k(1) by linarith
    moreover have "k < 2 ^ 64"
      using k(2) uint_lt2p [of "nblocks d", simplified] by simp
    ultimately show ?thesis
      using k(3) by (simp add: uint_word_of_int_eq take_bit_int_eq_self)
  qed
  ultimately show "b \<in> mkfs_data_blocks d isz"
    by (simp add: mkfs_data_blocks_def word_less_def)
qed

lemma mkfs_sizes:
  assumes "wf_disk d" and "unat isz + 1 < unat (nblocks d)"
  shows "uint (isz + 1) = uint isz + 1" "sint (isz + 1) = uint isz + 1" "sint (nblocks d) = uint (nblocks d)"
    "unat (nblocks d - (isz + 1)) = card (mkfs_data_blocks d isz)" "0 < nblocks d - isz - 1"
    "unat (isz * 512) = unat isz * 512" "uint isz + 1 < uint (nblocks d)" "uint (nblocks d) < 2 ^ 51"
    "unat (nblocks d) < 2 ^ 51"
proof -
  show n: "unat (nblocks d) < 2 ^ 51"
    using assms(1) by (simp add: wf_disk_def)
  then show n': "uint (nblocks d) < 2 ^ 51"
    by (simp add: unat_less_uint_iff)
  show u: "uint isz + 1 < uint (nblocks d)"
  proof -
    have "int (unat isz + 1) < int (unat (nblocks d))"
      using assms(2) by (simp only: of_nat_less_iff)
    then show ?thesis by simp
  qed
  show i: "uint (isz + 1) = uint isz + 1"
    using u n' by (subst uint_add_lem [THEN iffD1]) simp_all
  show "sint (nblocks d) = uint (nblocks d)"
    using n by (subst sint_eq_unat) simp_all
  have ui: "unat (isz + 1) = unat isz + 1"
    using i by (metis Suc_eq_plus1 nat_int nat_uint_eq of_nat_Suc uint_nat add.commute)
  then show "sint (isz + 1) = uint isz + 1"
    using assms(2) n i by (subst sint_eq_unat) simp_all
  have le: "isz + 1 \<le> nblocks d"
    using ui assms(2) by (simp add: word_le_nat_alt)
  then have d: "unat (nblocks d - (isz + 1)) = unat (nblocks d) - (unat isz + 1)"
    using ui by (simp add: unat_sub)
  have "card (mkfs_data_blocks d isz) = nat (uint (nblocks d) - (uint isz + 1))"
    unfolding mkfs_data_blocks_image [OF assms(2)]
    using inj_on_of_int [of "uint (nblocks d)" "uint isz + 1"] n' by (simp add: card_image)
  moreover have "int (unat (nblocks d) - (unat isz + 1)) = uint (nblocks d) - (uint isz + 1)"
    using assms(2) by (simp add: of_nat_diff)
  ultimately show "unat (nblocks d - (isz + 1)) = card (mkfs_data_blocks d isz)"
    unfolding d by (metis nat_int)
  have "unat (nblocks d - isz - 1) = unat (nblocks d) - (unat isz + 1)"
    using d by (simp only: diff_diff_eq)
  then show "0 < nblocks d - isz - 1"
    using assms(2) by (simp add: word_less_nat_alt)
  show "unat (isz * 512) = unat isz * 512"
    using n assms(2) by (subst unat_mult_lem [THEN iffD1]) simp_all
qed

lemma last_slot_iff: "j < n * 512 \<Longrightarrow> Suc (j div 512) = n \<and> j mod 512 = 511 \<longleftrightarrow> Suc j = n * (512 :: nat)"
proof -
  assume "j < n * 512"
  define q r where "q = j div 512" and "r = j mod 512"
  then have "j = 512 * q + r" "r < 512"
    by simp_all
  moreover have "Suc q \<le> n"
    using \<open>j < n * 512\<close> by (simp add: q_def less_mult_imp_div_less Suc_le_eq)
  ultimately show ?thesis
    unfolding q_def [symmetric] r_def [symmetric] by linarith
qed

theorem mkfs_storage_spec:
  assumes wf: "wf_disk d" and size: "unat isz + 1 < unat (nblocks d)" and pos: "0 < isz"
  shows "\<exists>d'. mkfs_storage d isz = Some d' \<and> same_dev d d' \<and> ilist_size (super d') = isz \<and>
    store_inv d' (mkfs_data_blocks d isz) (mkfs_inos isz)"
proof -
  note sizes = mkfs_sizes [OF wf size]
  let ?sb = "\<lparr>sb_magic = CANDYFS_MAGIC, ilist_size = isz, freelist_start = isz + 1, ino_freelist_start = 0,
    free_blocks = nblocks d - (isz + 1), free_inodes = isz * 512\<rparr>"
  let ?d0 = "upd_blk d 0 (enc_super ?sb)"
  let ?wr = "\<lambda>i d. disk_write d (of_nat i + 1) (enc_words (mkfs_iblock isz i))"
  let ?N = "uint (nblocks d)" and ?F = "mkfs_data_blocks d isz" and ?n = "unat isz * 512"
  have w0: "disk_write d 0 (enc_super ?sb) = Some ?d0"
    using wf size by (simp add: disk_write_wf word_less_nat_alt)
  obtain d1 where d1: "for_each [0..<unat isz] ?wr ?d0 = Some d1"
      "untouched {b. 0 < unat b \<and> unat b \<le> unat isz} ?d0 d1"
      "\<forall>m < unat isz. blk d1 (of_nat m + 1) = enc_words (mkfs_iblock isz m)"
    using mkfs_ilist_spec [of ?d0 isz] wf size by auto
  have dev1: "wf_disk d1" "nblocks d1 = nblocks d"
    using untouched_dev [OF d1(2)] wf by simp_all
  obtain d2 bs where d2: "mkfs_freelist ?N (uint isz + 1) d1 = Some d2" "untouched {b. uint isz + 1 \<le> uint b} d1 d2"
      "fl_chain d2 (of_int (uint isz + 1)) bs" "distinct (free_list d2 bs)" "set (free_list d2 bs) = ?F"
    using mkfs_freelist_spec [of d1 "uint isz + 1" ?N] dev1 sizes(7) mkfs_data_blocks_image [OF size]
      uint_ge_0 [of isz] by auto
  have dev2: "wf_disk d2" "nblocks d2 = nblocks d"
    using untouched_dev [OF d2(2)] dev1 by simp_all
  have "blk d2 0 = blk ?d0 0"
    using untouched_blk [OF d2(2), of 0] untouched_blk [OF d1(2), of 0] uint_ge_0 [of isz] by simp
  then have sup: "super d2 = ?sb"
    by (simp add: super_def)
  have geo: "store_geometry d2"
    using dev2 sup size by (simp add: store_geometry_def)
  have "free_blocks_rep d2 ?F"
    unfolding free_blocks_rep_def
    using d2(3-5) sup sizes(4) dev2 by (auto simp: data_block_def mkfs_data_blocks_def word_less_nat_alt)
  moreover have "free_inos_rep d2 (mkfs_inos isz)"
  proof -
    have small: "?n < 2 ^ 60"
      using sizes(9) size by simp
    have num: "unat (of_nat j :: u64) = j" if "j < ?n" for j
      unfolding unat_of_nat using that small by (intro mod_less) simp
    have valid: "valid_ino d2 (of_nat j)" if "j < ?n" for j
      using num [OF that] that sup by (simp add: valid_ino_def)
    have at: "- ilist_at d2 (of_nat j) = (if Suc j = ?n then EOF else of_nat (Suc j))" if j: "j < ?n" for j
    proof -
      let ?m = "j div 512"
      have m: "?m < unat isz"
        using j by (simp add: less_mult_imp_div_less)
      then have num': "unat (of_nat ?m + 1 :: u64) = ?m + 1"
        using num [of "?m + 1"] j by (simp add: add.commute)
      have div: "ilist_block (of_nat j) = of_nat ?m + 1"
        unfolding word_unat_eq_iff num' using ilist_block_unat(1) [OF geo valid [OF j]] num [OF j] by simp
      have "uint (of_nat ?m + 1 :: u64) = int (?m + 1)"
        by (metis num' uint_nat)
      then have "\<not> uint isz + 1 \<le> uint (of_nat ?m + 1 :: u64)"
        using m unat_less_uint_iff by (metis add.commute add_le_cancel_left not_le of_nat_Suc of_nat_less_iff uint_nat Suc_eq_plus1)
      then have "blk d2 (of_nat ?m + 1) = enc_words (mkfs_iblock isz ?m)"
        using untouched_blk [OF d2(2)] d1(3) m by auto
      then have "ilist_at d2 (of_nat j) = mkfs_iblock isz ?m ! (j mod 512)"
        using num [OF j] by (simp add: ilist_at_def div unat_mod)
      also have "\<dots> = (if of_nat ?m = isz - 1 \<and> j mod 512 = 511 then EOF
          else - (of_nat (j mod 512) + 512 * of_nat ?m + 1))"
        by (rule mkfs_iblock_nth) simp
      also have "of_nat (j mod 512) + 512 * of_nat ?m + 1 = (of_nat (j mod 512 + 512 * ?m + 1) :: u64)"
        by (simp only: of_nat_add of_nat_mult of_nat_numeral of_nat_1)
      also have "j mod 512 + 512 * ?m + 1 = Suc j"
        by simp
      also have "of_nat ?m = isz - 1 \<longleftrightarrow> Suc ?m = unat isz"
        using num [of ?m] j pos by (simp add: word_unat_eq_iff unat_minus_one word_less_nat_alt) auto
      also have "Suc ?m = unat isz \<and> j mod 512 = 511 \<longleftrightarrow> Suc j = ?n"
        by (rule last_slot_iff [OF j])
      finally show ?thesis
        by simp
    qed
    have "ino_chain d2 (if 0 = ?n then EOF else of_nat 0) (map of_nat [0..<?n])"
      using valid at by (intro ino_chain_upt) auto
    moreover have "distinct (mkfs_inos isz)"
      using num by (auto simp: mkfs_inos_def distinct_map intro!: inj_on_inverseI [where g = unat])
    moreover have "?n \<noteq> 0"
      using pos by (simp add: word_less_nat_alt)
    ultimately show ?thesis
      using sup sizes(6) by (simp add: free_inos_rep_def mkfs_inos_def)
  qed
  ultimately have "store_inv d2 ?F (mkfs_inos isz)"
    using geo by (simp add: store_inv_def)
  moreover have "same_dev d d2"
    using untouched_dev(5) [OF d1(2)] untouched_dev(5) [OF d2(2)] same_dev_upd_blk same_dev_trans by blast
  moreover have "mkfs_storage d isz = Some d2"
    using w0 d1(1) d2(1) sizes(2,3,5) dev1 by (simp add: mkfs_storage_def Let_def)
  ultimately show ?thesis
    using sup by auto
qed

end
