(* ===== verification/Perm_Spec.thy ===== *)
theory Perm_Spec
  imports Perm
begin

text \<open>Permissions as sets of bits: the class of the caller and the bits asked for.\<close>

section \<open>Checking\<close>

text \<open>Where the bits of the caller's class start in the mode.\<close>

definition class_shift :: "inode_t \<Rightarrow> u32 \<Rightarrow> u32 \<Rightarrow> nat" where
  "class_shift inode user grp = (if user = iowner inode then 6 else if grp = igroup inode then 3 else 0)"

definition granted :: "inode_t \<Rightarrow> u32 \<Rightarrow> u32 \<Rightarrow> u32 \<Rightarrow> bool" where
  "granted inode perms user grp \<longleftrightarrow> (\<forall>k < 3. bit perms k \<longrightarrow> bit (imode inode) (class_shift inode user grp + k))"

definition allowed :: "inode_t \<Rightarrow> u32 \<Rightarrow> u32 \<Rightarrow> u32 \<Rightarrow> bool" where
  "allowed inode perms user grp \<longleftrightarrow> user = 0 \<or>
     (if perms = PERM_UTIME then user = iowner inode \<or> granted inode PERM_WRITE user grp else granted inode perms user grp)"

lemma bit_7: "bit (7 :: u32) n \<longleftrightarrow> n < 3"
proof -
  have "(7 :: u32) = mask 3"
    by (simp add: mask_eq_exp_minus_1)
  moreover have "bit (mask 3 :: u32) n \<longleftrightarrow> n < 3"
    by (auto simp: bit_mask_iff)
  ultimately show ?thesis
    by metis
qed

lemma masked_bits:
  fixes p m :: u32
  assumes "p AND 7 = p"
  shows "(p AND drop_bit s m AND 7 = p) = (\<forall>k < 3. bit p k \<longrightarrow> bit m (s + k))"
proof -
  have p: "bit p k \<Longrightarrow> k < 3" for k
    using assms by (metis bit_7 bit_and_iff)
  have "p AND drop_bit s m AND 7 = (p AND 7) AND drop_bit s m"
    by (simp only: ac_simps)
  then have "p AND drop_bit s m AND 7 = p AND drop_bit s m"
    unfolding assms .
  moreover have "(p AND x = p) = (\<forall>k. bit p k \<longrightarrow> bit x k)" for x
  proof
    show "p AND x = p \<Longrightarrow> \<forall>k. bit p k \<longrightarrow> bit x k"
      using bit_and_iff by metis
    show "\<forall>k. bit p k \<longrightarrow> bit x k \<Longrightarrow> p AND x = p"
      by (rule bit_eqI) (auto simp: bit_and_iff)
  qed
  ultimately show ?thesis
    using p by (auto simp: bit_drop_bit_eq)
qed

theorem perm_check_spec:
  assumes "fs_inv d F Is A" and "i \<in> A" and "perms AND 7 = perms \<or> perms = PERM_UTIME"
  shows "perm_check d i perms user grp = Some (if allowed (inode_at d i) perms user grp then 0 else - EACCES)"
proof -
  define q where "q = (if perms = PERM_UTIME then PERM_WRITE else perms)"
  have q: "q AND 7 = q"
    using assms(3) by (auto simp: PERM_WRITE_def q_def)
  define cls where "cls s = (\<forall>k < 3. bit q k \<longrightarrow> bit (imode (inode_at d i)) (s + k))" for s
  have bits: "(q AND drop_bit 6 (imode (inode_at d i)) AND 7 = q) = cls 6"
    "(q AND drop_bit 3 (imode (inode_at d i)) AND 7 = q) = cls 3" "(q AND imode (inode_at d i) AND 7 = q) = cls 0"
    using masked_bits [OF q, of 6] masked_bits [OF q, of 3] masked_bits [OF q, of 0] by (simp_all add: cls_def)
  have granted: "granted (inode_at d i) q user grp = cls (class_shift (inode_at d i) user grp)"
    by (simp only: granted_def cls_def)
  have "perm_check d i perms user grp =
      Some (if user = 0 \<or> perms = PERM_UTIME \<and> user = iowner (inode_at d i) \<or> cls (class_shift (inode_at d i) user grp) then 0 else - EACCES)"
    unfolding perm_check_def Let_def class_shift_def q_def [symmetric]
    using inode_getinfo_spec [OF assms(1,2)] bits by (simp add: inode_info.truncate_def)
  then show ?thesis
    unfolding granted [symmetric] allowed_def by (auto simp: q_def)
qed

section \<open>Changing the mode\<close>

lemma chmod_bits:
  fixes m old :: u32
  assumes "m AND 0xFFF = m"
  shows "(m OR (old AND NOT 0xFFF)) AND 0xFFF = m" "(m OR (old AND NOT 0xFFF)) AND S_IFMT = old AND S_IFMT"
proof -
  show "(m OR (old AND NOT 0xFFF)) AND 0xFFF = m"
    using assms by (simp add: bit.conj_disj_distrib2 and.assoc)
  have "m AND S_IFMT = (m AND 0xFFF) AND S_IFMT"
    using assms by simp
  also have "\<dots> = 0"
    by (simp add: S_IFMT_def and.assoc)
  finally have "m AND S_IFMT = 0" .
  moreover have "(old AND NOT 0xFFF) AND S_IFMT = old AND S_IFMT"
    by (simp add: S_IFMT_def and.assoc)
  ultimately show "(m OR (old AND NOT 0xFFF)) AND S_IFMT = old AND S_IFMT"
    by (simp add: bit.conj_disj_distrib2)
qed

theorem perm_chmod_spec:
  assumes "fs_inv d F Is A" and "i \<in> A"
  shows "\<exists>e d'. perm_chmod d i mode user = Some (e, d') \<and>
    (if mode AND 0xFFF \<noteq> mode then e = - EINVAL \<and> d' = d
     else if user \<noteq> 0 \<and> user \<noteq> iowner (inode_at d i) then e = - EACCES \<and> d' = d
     else e = 0 \<and> meta_result A i d d' F Is ((inode_at d i)\<lparr>imode := imode (inode_at d' i), last_statchange := fst (now d)\<rparr>) \<and>
       imode (inode_at d' i) AND 0xFFF = mode \<and> imode (inode_at d' i) AND S_IFMT = imode (inode_at d i) AND S_IFMT)"
proof (cases "mode AND 0xFFF = mode \<and> (user = 0 \<or> user = iowner (inode_at d i))")
  case True
  let ?m = "mode OR (imode (inode_at d i) AND NOT 0xFFF)"
  obtain d' where d': "inode_chmod d i ?m = Some (0, d')"
      "meta_result A i d d' F Is ((inode_at d i)\<lparr>imode := ?m, last_statchange := fst (now d)\<rparr>)"
    using inode_chmod_spec [OF assms] by blast
  have "imode (inode_at d' i) = ?m"
    using d'(2) by (simp add: meta_result_def)
  then show ?thesis
    using True d' inode_getinfo_spec [OF assms] chmod_bits by (auto simp: perm_chmod_def inode_info.truncate_def)
next
  case False
  then show ?thesis
    using inode_getinfo_spec [OF assms] by (auto simp: perm_chmod_def inode_info.truncate_def)
qed

theorem perm_chown_spec:
  assumes "fs_inv d F Is A" and "i \<in> A"
  shows "\<exists>e d'. perm_chown d i user owner grp = Some (e, d') \<and>
    (if user \<noteq> 0 then e = - EACCES \<and> d' = d
     else e = 0 \<and> meta_result A i d d' F Is ((inode_at d i)\<lparr>iowner := (if owner = -1 then iowner (inode_at d i) else owner),
       igroup := (if grp = -1 then igroup (inode_at d i) else grp), last_statchange := fst (now d)\<rparr>))"
  using inode_chown_spec [OF assms, of owner grp] by (auto simp: perm_chown_def)

end
