(* ===== verification/Mkfs_Root.thy ===== *)
theory Mkfs_Root
  imports Refs_Files Candyfs Store_Mkfs Perm_Spec Space
begin

text \<open>
  Formatting: \<open>mkfs_storage\<close> leaves an empty filesystem that satisfies the invariant, and
  \<open>mkfs_path\<close> puts the root directory into it.
\<close>

lemma mkfs_fs_inv:
  assumes "wf_disk d" and "unat isz + 1 < unat (nblocks d)" and "0 < isz"
  shows "\<exists>d'. mkfs_storage d isz = Some d' \<and> same_dev d d' \<and> fs_inv d' (mkfs_data_blocks d isz) (mkfs_inos isz) {}"
proof -
  obtain d' where d': "mkfs_storage d isz = Some d'" "same_dev d d'" "ilist_size (super d') = isz"
    "store_inv d' (mkfs_data_blocks d isz) (mkfs_inos isz)"
    using mkfs_storage_spec [OF assms] by blast
  have "mkfs_data_blocks d isz = {b. data_block d' b}"
    using d'(3) same_dev_fields(1) [OF d'(2)] by (auto simp: mkfs_data_blocks_def data_block_def word_less_nat_alt)
  moreover have "set (mkfs_inos isz) = {i. valid_ino d' i}"
  proof -
    have small: "unat isz * 512 < 2 ^ 64"
      using assms(1,2) by (simp add: wf_disk_def)
    have "i \<in> of_nat ` {0..<unat isz * 512}" if "unat i < unat isz * 512" for i :: ino
      using that by (intro image_eqI [where x = "unat i"]) simp_all
    moreover have "unat (of_nat k :: ino) < unat isz * 512" if "k < unat isz * 512" for k
      using that small by (simp add: unat_of_nat)
    ultimately show ?thesis
      using d'(3) by (auto simp: mkfs_inos_def valid_ino_def)
  qed
  ultimately have "fs_inv d' (mkfs_data_blocks d isz) (mkfs_inos isz) {}"
    using d'(4) by (simp add: fs_inv_def)
  then show ?thesis
    using d'(1,2) by blast
qed

lemma mkfs_refs_inv:
  fixes d :: "'x refs_env_scheme"
  assumes "wf_disk d" and "unat isz + 1 < unat (nblocks d)" and "0 < isz" and table: "open_file_table d = replicate 53 []"
  shows "\<exists>d'. mkfs_storage d isz = Some d' \<and> same_dev d d' \<and> refs_inv d' (mkfs_data_blocks d isz) (mkfs_inos isz) {} \<and>
    refs_of d' = (\<lambda>_. 0) \<and> refs_env.more d' = refs_env.more d"
proof -
  obtain d' where d': "mkfs_storage d isz = Some d'" "same_dev d d'" "fs_inv d' (mkfs_data_blocks d isz) (mkfs_inos isz) {}"
    using mkfs_fs_inv [OF assms(1-3)] by blast
  obtain f where "d' = d\<lparr>disk_data := f\<rparr>"
    using d'(2) unfolding same_dev_def by blast
  then have t: "open_file_table d' = replicate 53 []" "refs_env.more d' = refs_env.more d"
    using table by simp_all
  then have "table_ok d'"
    by (simp add: table_ok_def)
  moreover have "find_node d' i = None" for i
    using find_in_chain [OF calculation, of i] t(1) by (simp add: chain_def)
  ultimately show ?thesis
    using d' t(2) by (auto simp: refs_inv_def refs_of_def)
qed

lemma dir_create_free:
  assumes "fs_inv d F (i # Is) A" and "fs_result A i d d' F' Is (insert i A)" and "i \<notin> A" and "dir_rep d' i (new_dir p i)"
  shows "card F = card F' + 2"
proof (rule one_block_free [OF assms(1-3)])
  have "fsize d' i = BLOCKSIZE"
    using dir_rep_size [OF _ _ assms(4)] assms(2) by (auto simp: new_dir_def fs_result_def)
  then show "slots_count (fcount_blocks d' i) = 1"
    by (simp add: fcount_blocks_def blockcount_nonneg slots_count_1)
qed

text \<open>The first inode is the root: a directory that is its own parent, with one link.\<close>

definition root_ok :: "'x refs_env_scheme \<Rightarrow> u32 \<Rightarrow> u32 \<Rightarrow> bool" where
  "root_ok d owner grp \<longleftrightarrow> dir_rep d 0 (new_dir 0 0) \<and> inlinks (inode_at d 0) = 1 \<and>
     imode (inode_at d 0) = S_IFDIR OR 0x1ED \<and>
     iowner (inode_at d 0) = (if owner = -1 then 0 else owner) \<and> igroup (inode_at d 0) = (if grp = -1 then 0 else grp)"


theorem mkfs_path_spec:
  fixes d :: "'x path_env_scheme"
  assumes inv: "refs_inv d F (0 # Is) {}" and empty: "refs_of d = (\<lambda>_. 0)" and room: "2 \<le> card F" and owner: "owner \<noteq> -1"
  shows "\<exists>d' F'. mkfs_path d owner grp = Some (0, d') \<and> refs_inv d' F' Is {0} \<and> refs_of d' = (\<lambda>_. 0) \<and> root_ok d' owner grp \<and>
    refs_env.more d' = refs_env.more d \<and> card F = card F' + 2"
proof -
  have "(0 :: ino) \<noteq> EOF"
    by (simp add: EOF_def)
  from dir_create_spec [OF refs_inv_fs(1) [OF inv] room this]
  obtain d1 F' where d1: "dir_create d 0 = Some (0, d1)" "fs_result {} 0 d d1 F' Is {0}" "dir_rep d1 0 (new_dir 0 0)"
      "fresh_attr (inode_at d1 0) (S_IFDIR OR 0x1FF)"
    by auto
  obtain d2 where d2: "refs_open d1 0 = Some (0, d2)" "same_disk d1 d2" "refs_inv d2 F' Is {0}" "refs_of d2 = (refs_of d)(0 := 1)"
      "refs_env.more d2 = refs_env.more d"
    using refs_open_fresh [OF inv d1(2)] by auto
  have at2: "inode_at d2 0 = inode_at d1 0" "content d2 0 = content d1 0"
    using same_disk_file(1) [OF d2(2)] by (simp_all add: same_file_def)
  obtain d3 ts where d3: "refs_link d2 0 = Some (0, d3)" "refs_inv d3 F' Is {0}" "refs_of d3 = refs_of d2"
      "inode_at d3 0 = (inode_at d2 0)\<lparr>inlinks := inlinks (inode_at d2 0) + 1, last_statchange := ts\<rparr>" "content d3 0 = content d2 0"
      "refs_env.more d3 = refs_env.more d2"
    using refs_link_spec [OF d2(3), of 0] d2(4) by auto
  note fs3 = refs_inv_fs(1) [OF d3(2)]
  obtain d4 where d4: "perm_chown d3 0 0 owner grp = Some (0, d4)"
      "meta_result {0} 0 d3 d4 F' Is ((inode_at d3 0)\<lparr>iowner := owner, igroup := (if grp = -1 then igroup (inode_at d3 0) else grp),
        last_statchange := fst (now d3)\<rparr>)"
    using perm_chown_spec [OF fs3, of 0 0 owner grp] owner by auto
  have at4: "inode_at d4 0 = (inode_at d3 0)\<lparr>iowner := owner, igroup := (if grp = -1 then igroup (inode_at d3 0) else grp),
        last_statchange := fst (now d3)\<rparr>" "content d4 0 = content d3 0" "fs_result {0} 0 d3 d4 F' Is {0}"
    using d4(2) by (simp_all add: meta_result_def)
  have links4: "inlinks (inode_at d4 0) = inlinks (inode_at d3 0)"
    using at4(1) by simp
  note inv4 = refs_inv_result [OF d3(2) at4(3) links4]
  have mode: "(0x1ED :: u32) AND 0xFFF = 0x1ED" "iowner (inode_at d4 0) = owner"
    using at4(1) by simp_all
  obtain d5 where d5: "perm_chmod d4 0 0x1ED owner = Some (0, d5)"
      "meta_result {0} 0 d4 d5 F' Is ((inode_at d4 0)\<lparr>imode := 0x1ED OR (imode (inode_at d4 0) AND NOT 0xFFF), last_statchange := fst (now d4)\<rparr>)"
  proof -
    have "perm_chmod d4 0 0x1ED owner = inode_chmod d4 0 (0x1ED OR (imode (inode_at d4 0) AND NOT 0xFFF))"
      using inode_getinfo_spec [OF refs_inv_fs(1) [OF inv4(1)], of 0] mode by (simp add: perm_chmod_def inode_info.truncate_def)
    then show thesis
      using inode_chmod_spec [OF refs_inv_fs(1) [OF inv4(1)], of 0] that by auto
  qed
  have at5: "inode_at d5 0 = (inode_at d4 0)\<lparr>imode := 0x1ED OR (imode (inode_at d4 0) AND NOT 0xFFF), last_statchange := fst (now d4)\<rparr>"
      "content d5 0 = content d4 0" "fs_result {0} 0 d4 d5 F' Is {0}"
    using d5(2) by (simp_all add: meta_result_def)
  have links5: "inlinks (inode_at d5 0) = inlinks (inode_at d4 0)"
    using at5(1) by simp
  note inv5 = refs_inv_result [OF inv4(1) at5(3) links5]
  have refs5: "refs_of d5 = (refs_of d)(0 := 1)"
    using inv5(2) inv4(2) d3(3) d2(4) by simp
  have one: "inlinks (inode_at d5 0) = 1"
    using links5 links4 d3(4) at2(1) d1(4) by (simp add: fresh_attr_def)
  obtain d6 where d6: "refs_close d5 0 = Some (0, d6)" "same_disk d5 d6" "refs_inv d6 F' Is {0}" "refs_of d6 = (refs_of d5)(0 := 0)"
      "refs_env.more d6 = refs_env.more d5"
    using refs_close_spec [OF inv5(1), of 0] refs5 one by auto
  have at6: "inode_at d6 0 = inode_at d5 0" "content d6 0 = content d5 0"
    using same_disk_file(1) [OF d6(2)] by (simp_all add: same_file_def)
  have imode: "imode (inode_at d6 0) = S_IFDIR OR 0x1ED"
    using at6(1) at5(1) at4(1) d3(4) at2(1) d1(4) by (simp add: fresh_attr_def S_IFDIR_def)
  moreover have "S_ISDIR (S_IFDIR OR 0x1ED)"
    by (simp add: mode_defs)
  ultimately have "dir_rep d6 0 (new_dir 0 0)"
    using d1(3) at2(2) d3(5) at4(2) at5(2) at6(2) by (simp add: dir_rep_def)
  then have "root_ok d6 owner grp"
    using imode one at6(1) at5(1) at4(1) d3(4) at2(1) d1(4) owner by (simp add: root_ok_def fresh_attr_def)
  moreover have "refs_of d6 = (\<lambda>_. 0)"
    using d6(4) refs5 empty by (simp add: fun_eq_iff)
  moreover have "mkfs_path d owner grp = Some (0, d6)"
    using d1(1) d2(1) d3(1) d4(1) d5(1) d6(1) by (simp add: mkfs_path_def open_ok_def close_ok_def)
  moreover have "refs_env.more d6 = refs_env.more d"
    using d6(5) inv5(3) inv4(3) d3(6) d2(5) by simp
  moreover have "card F = card F' + 2"
    by (rule dir_create_free [OF refs_inv_fs(1) [OF inv] d1(2) _ d1(3)]) simp
  ultimately show ?thesis
    using d6(3) by blast
qed

theorem format_disk_spec:
  fixes d :: "'x path_env_scheme"
  assumes "wf_disk d" and "unat isz + 2 < unat (nblocks d)" and "0 < isz" and "open_file_table d = replicate 53 []" and "owner \<noteq> -1"
  shows "\<exists>d' F. format_disk d isz owner grp = Some d' \<and> refs_inv d' F (tl (mkfs_inos isz)) {0} \<and> refs_of d' = (\<lambda>_. 0) \<and> root_ok d' owner grp \<and>
    refs_env.more d' = refs_env.more d \<and> card (mkfs_data_blocks d isz) = card F + 2"
proof -
  have "unat isz + 1 < unat (nblocks d)"
    using assms(2) by simp
  from mkfs_refs_inv [OF assms(1) this assms(3,4)]
  obtain d1 where d1: "mkfs_storage d isz = Some d1" "refs_inv d1 (mkfs_data_blocks d isz) (mkfs_inos isz) {}" "refs_of d1 = (\<lambda>_. 0)"
      "refs_env.more d1 = refs_env.more d"
    by blast
  have pos: "0 < unat isz * 512"
    using assms(3) by (simp add: word_less_nat_alt)
  have Is: "mkfs_inos isz = 0 # map of_nat [Suc 0..<unat isz * 512]"
    unfolding mkfs_inos_def upt_conv_Cons [OF pos] by simp
  have room: "2 \<le> card (mkfs_data_blocks d isz)"
  proof -
    have u: "unat (isz + 1) = unat isz + 1" "unat (isz + 2) = unat isz + 2"
      using assms(1,2) by (simp_all add: unat_word_ariths wf_disk_def)
    then have "{isz + 1, isz + 2} \<subseteq> mkfs_data_blocks d isz"
      using assms(2) by (auto simp: mkfs_data_blocks_def word_less_nat_alt)
    moreover have "card {isz + 1, isz + 2} = 2"
      by simp
    ultimately show ?thesis
      by (metis card_mono finite)
  qed
  show ?thesis
    using mkfs_path_spec [OF d1(2) [unfolded Is] d1(3) room assms(5), of grp] d1(1,4) Is by (auto simp: format_disk_def)
qed

end
