(* ===== verification/Inode_Steps.thy ===== *)
theory Inode_Steps
  imports Space Mkfs_Root
begin

text \<open>
  Histories: any sequence of the exported operations of \<open>inode.c\<close>, started on a formatted disk.
  \<open>A\<close> is the set of inodes in use.  The guard of an operation says that its inode is in use, that
  its range is one the on-disk format has, and that the disk has room where the source would
  corrupt the index of the file or hit an assertion.
\<close>

definition free_set :: "'x disk_t_scheme \<Rightarrow> ino set \<Rightarrow> blockno set" where
  "free_set d A = {b. data_block d b} - \<Union> (own d ` A)"

lemma fs_inv_free_set: "fs_inv d F Is A \<Longrightarrow> F = free_set d A"
  by (auto simp: fs_inv_def free_set_def)

section \<open>Operations\<close>

datatype fs_op =
    Allocate
  | Free ino
  | Write ino int "byte list option" nat
  | Read ino nat "byte list"
  | Truncate ino int
  | Chmod ino u32
  | Chown ino u32 u32
  | Utime ino "timespec option" "timespec option"
  | Link ino
  | Unlink ino

fun exec_op :: "fs_op \<Rightarrow> ino set \<Rightarrow> 'x inode_env_scheme \<Rightarrow> (ino set \<times> 'x inode_env_scheme) option" where
  "exec_op Allocate A d = do { (i, d) \<leftarrow> inode_allocate d; Some (if sint i < 0 then A else insert i A, d) }"
| "exec_op (Free i) A d = do { (res, d) \<leftarrow> inode_free d i; Some (if res = 0 then A - {i} else A, d) }"
| "exec_op (Write i pos data n) A d = do { (_, d) \<leftarrow> inode_write d i pos data (int n); Some (A, d) }"
| "exec_op (Read i pos buf) A d = do { (_, _, d) \<leftarrow> inode_read d i (int pos) buf (int (length buf)); Some (A, d) }"
| "exec_op (Truncate i sz) A d = do { (_, d) \<leftarrow> inode_truncate d i sz; Some (A, d) }"
| "exec_op (Chmod i mode) A d = do { (_, d) \<leftarrow> inode_chmod d i mode; Some (A, d) }"
| "exec_op (Chown i owner grp) A d = do { (_, d) \<leftarrow> inode_chown d i owner grp; Some (A, d) }"
| "exec_op (Utime i atime ctime) A d = do { (_, d) \<leftarrow> inode_utime d i atime ctime; Some (A, d) }"
| "exec_op (Link i) A d = do { (_, d) \<leftarrow> inode_link d i; Some (A, d) }"
| "exec_op (Unlink i) A d = do { (_, d) \<leftarrow> inode_unlink d i; Some (A, d) }"

definition write_start :: "'x disk_t_scheme \<Rightarrow> ino \<Rightarrow> int \<Rightarrow> int" where
  "write_start d i pos = (if pos = -1 then fsize d i else pos)"

fun op_ok :: "fs_op \<Rightarrow> ino set \<Rightarrow> 'x inode_env_scheme \<Rightarrow> bool" where
  "op_ok Allocate A d = True"
| "op_ok (Write i pos data n) A d = (i \<in> A \<and> -1 \<le> pos \<and> data_fits data (int n) \<and> write_start d i pos + int n \<le> MAX_FILESIZE \<and>
     (enough d (free_set d A) i (write_start d i pos + int n) \<or> slots_safe (fcount_blocks d i) \<and> write_start d i pos \<le> fsize d i))"
| "op_ok (Truncate i sz) A d = (i \<in> A \<and> 0 \<le> sz \<and> sz \<le> MAX_FILESIZE \<and>
     (enough d (free_set d A) i sz \<or> slots_safe (fcount_blocks d i)))"
| "op_ok (Free i) A d = (i \<in> A)"
| "op_ok (Read i pos buf) A d = (i \<in> A)"
| "op_ok (Chmod i mode) A d = (i \<in> A)"
| "op_ok (Chown i owner grp) A d = (i \<in> A)"
| "op_ok (Utime i atime ctime) A d = (i \<in> A)"
| "op_ok (Link i) A d = (i \<in> A)"
| "op_ok (Unlink i) A d = (i \<in> A)"

text \<open>Every guarded operation returns, and keeps the invariant.\<close>

lemma exec_write:
  assumes inv: "fs_inv d F Is A" and ok: "op_ok (Write i pos data n) A d"
  shows "\<exists>r d' F'. inode_write d i pos data (int n) = Some (r, d') \<and> fs_inv d' F' Is A"
proof -
  let ?p = "write_start d i pos"
  have i: "i \<in> A" and range: "?p + int n \<le> MAX_FILESIZE" and fits: "data_fits data (int n)"
    using ok by simp_all
  have p: "0 \<le> ?p"
    using ok fs_inv_inode(7) [OF inv i] by (auto simp: write_start_def)
  show ?thesis
  proof (cases "enough d F i (?p + int n)")
    case True
    have pos: "nat ?p = (if pos = -1 then nat (fsize d i) else nat pos)" "pos = -1 \<or> 0 \<le> pos"
      using ok by (auto simp: write_start_def)
    have "int (nat ?p) = ?p"
      using p by simp
    then show ?thesis
      using inode_write_spec [OF inv i pos _ fits] True range unfolding fs_result_def by metis
  next
    case False
    then have small: "slots_safe (fcount_blocks d i)" "?p \<le> fsize d i"
      using ok fs_inv_free_set [OF inv] by auto
    have "inode_write d i pos data (int n) = inode_write d i ?p data (int n)"
      using inode_write_eq [OF inv i, of pos ?p data "int n"] inode_write_eq [OF inv i, of ?p ?p data "int n"] p
      by (simp add: write_start_def)
    then show ?thesis
      using inode_write_full [OF inv i p _ range False small, of data] by (auto simp: fs_result_def)
  qed
qed

lemma exec_op_spec:
  assumes inv: "fs_inv d F Is A" and ok: "op_ok op A d"
  shows "\<exists>A' d' F' Is'. exec_op op A d = Some (A', d') \<and> fs_inv d' F' Is' A'"
proof (cases op)
  case Allocate
  show ?thesis
  proof (cases "F = {} \<or> Is = []")
    case True
    then show ?thesis
      using inode_allocate_full [OF inv] Allocate by force
  next
    case False
    then obtain i Is' where "Is = i # Is'" "F \<noteq> {}"
      by (cases Is) auto
    then show ?thesis
      using allocate_typed [of d F i Is' A] inv Allocate inode_allocate_spec [of d F i Is' A] by (fastforce simp: fs_result_def)
  qed
next
  case (Free i)
  then show ?thesis
    using ok inode_free_spec [OF inv, of i] inode_free_linked [OF inv, of i] inv
    by (cases "inlinks (inode_at d i) = 0") (force simp: fs_result_def)+
next
  case (Write i pos data n)
  then show ?thesis
    using exec_write [OF inv] ok by fastforce
next
  case (Read i pos buf)
  then show ?thesis
    using ok inode_read_spec [OF inv, of i "length buf" buf pos] by (force simp: fs_result_def)
next
  case (Truncate i sz)
  then show ?thesis
    using ok inode_truncate_spec [OF inv, of i sz] fs_inv_free_set [OF inv] by (force simp: fs_result_def)
next
  case (Chmod i mode)
  then show ?thesis
    using ok inode_chmod_spec [OF inv, of i mode] by (force simp: meta_result_def fs_result_def)
next
  case (Chown i owner grp)
  then show ?thesis
    using ok inode_chown_spec [OF inv, of i owner grp] by (force simp: meta_result_def fs_result_def)
next
  case (Utime i atime ctime)
  then show ?thesis
    using ok inode_utime_spec [OF inv, of i atime ctime] by (force simp: meta_result_def fs_result_def)
next
  case (Link i)
  then show ?thesis
    using ok inode_link_spec [OF inv, of i] by (force simp: meta_result_def fs_result_def)
next
  case (Unlink i)
  then show ?thesis
    using ok inode_unlink_spec [OF inv, of i] by (force simp: meta_result_def fs_result_def)
qed

section \<open>Reachable states\<close>

inductive fs_reach :: "ino set \<Rightarrow> 'x inode_env_scheme \<Rightarrow> bool" where
  format: "wf_disk d \<Longrightarrow> unat isz + 1 < unat (nblocks d) \<Longrightarrow> 0 < isz \<Longrightarrow> mkfs_storage d isz = Some d' \<Longrightarrow> fs_reach {} d'"
| step: "fs_reach A d \<Longrightarrow> op_ok op A d \<Longrightarrow> exec_op op A d = Some (A', d') \<Longrightarrow> fs_reach A' d'"

lemma fs_reach_inv: "fs_reach A d \<Longrightarrow> \<exists>F Is. fs_inv d F Is A"
proof (induction rule: fs_reach.induct)
  case (format d isz d')
  then show ?case
    using mkfs_fs_inv [of d isz] by auto
next
  case (step A d op A' d')
  then show ?case
    using exec_op_spec [of d _ _ A op] by fastforce
qed

end
