(* ===== verification/File_Spec.thy ===== *)
theory File_Spec
  imports File Dir_Spec
begin

text \<open>
  Files and symbolic links: what the typed operations add to those of the inodes is the check of
  the type, and the creation that leaves nothing behind when it fails.
\<close>

section \<open>Files\<close>

theorem file_create_spec:
  assumes "fs_inv d F (i # Is) A" and "F \<noteq> {}"
  shows "\<exists>d' b. file_create d = Some (i, d') \<and> b \<in> F \<and> fs_result A i d d' (F - {b}) Is (insert i A) \<and> i \<notin> A \<and>
    S_ISREG (imode (inode_at d' i)) \<and> inlinks (inode_at d' i) = 0 \<and> content d' i = []"
  using allocate_typed [OF assms, of "S_IFREG OR 0x1FF"] by (force simp: file_create_def fresh_attr_def)

theorem file_create_full:
  assumes "fs_inv d F Is A" and "F = {} \<or> Is = []"
  shows "\<exists>d'. file_create d = Some (of_int (- ENOSPC), d') \<and> fs_inv d' F Is A \<and> (\<forall>j \<in> A. same_file d d' j) \<and> changed UNIV d d'"
  using inode_allocate_full [OF assms] by (auto simp: file_create_def)

definition type_error :: "u32 \<Rightarrow> int" where
  "type_error mode = (if S_ISDIR mode then - EISDIR else - EINVAL)"

lemma file_check_eq:
  assumes "fs_inv d F Is A" and "i \<in> A"
  shows "file_check d i = Some (if S_ISREG (imode (inode_at d i)) then None else Some (type_error (imode (inode_at d i))))"
  using inode_getinfo_spec [OF assms] by (simp add: file_check_def type_error_def inode_info.truncate_def)

theorem file_ops_wrong_type:
  assumes "fs_inv d F Is A" and "i \<in> A" and "\<not> S_ISREG (imode (inode_at d i))"
  shows "file_read d i pos buf n = Some (type_error (imode (inode_at d i)), buf, d)"
    "file_write d i pos data n = Some (type_error (imode (inode_at d i)), d)"
    "file_truncate d i sz = Some (type_error (imode (inode_at d i)), d)"
  using file_check_eq [OF assms(1,2)] assms(3) by (simp_all add: file_read_def file_write_def file_truncate_def)

lemma file_ops_regular:
  assumes "fs_inv d F Is A" and "i \<in> A" and "S_ISREG (imode (inode_at d i))"
  shows "file_read d i pos buf n = inode_read d i pos buf n" "file_write d i pos bs n = inode_write d i pos (Some bs) n"
    "file_truncate d i sz = inode_truncate d i sz"
  using file_check_eq [OF assms(1,2)] assms(3) by (simp_all add: file_read_def file_write_def file_truncate_def)

text \<open>What one write puts into a file, the next read gets.\<close>

theorem file_write_read:
  assumes inv: "fs_inv d F Is A" and i: "i \<in> A" and reg: "S_ISREG (imode (inode_at d i))"
    and range: "int p + int (length bs) \<le> MAX_FILESIZE" and room: "enough d F i (int p + int (length bs))"
    and buf: "length buf = length bs"
  shows "\<exists>d' d''. file_write d i (int p) bs (int (length bs)) = Some (int (length bs), d') \<and>
    file_read d' i (int p) buf (int (length bs)) = Some (int (length bs), bs, d'')"
proof -
  have fits: "data_fits (Some bs) (int (length bs))" "data_bytes (Some bs) (length bs) = bs"
    by (simp_all add: data_fits_def data_bytes_def)
  obtain d' F' where d': "inode_write d i (int p) (Some bs) (int (length bs)) = Some (int (length bs), d')" "fs_result A i d d' F' Is A"
    "same_attr (inode_at d i) (inode_at d' i)" "content d' i = write_bytes (content d i) p bs"
    using inode_write_spec [OF inv i _ _ range fits(1) room, of "int p"] fits(2) by auto
  have inv': "fs_inv d' F' Is A" and reg': "S_ISREG (imode (inode_at d' i))"
    using d'(2,3) reg by (simp_all add: fs_result_def same_attr_def)
  have len: "nat (fsize d' i) = max (nat (fsize d i)) (p + length bs)"
    using length_content [of d' i] unfolding d'(4) by simp
  have count: "read_count d' i p (length bs) = length bs"
    by (simp add: read_count_def len)
  have slice: "slice p (length bs) (write_bytes (content d i) p bs) = bs"
    by (simp add: slice_def write_bytes_def)
  obtain d'' where "inode_read d' i (int p) buf (int (length bs)) = Some (int (length bs), bs, d'')"
    using inode_read_spec [OF inv' i, of "length bs" buf p] buf unfolding count d'(4) read_bytes_def slice by auto
  then show ?thesis
    using d'(1) file_ops_regular [OF inv i reg] file_ops_regular [OF inv' i reg'] by auto
qed

section \<open>Symbolic links\<close>

lemma link_blocks:
  assumes "0 < n" and "n \<le> 4095"
  shows "blockcount_of (int n) = 1"
  using assms by (simp add: blockcount_nonneg)

theorem symlink_create_length:
  assumes "name = [] \<or> PATH_MAX - 1 < length name"
  shows "symlink_create d name = Some (of_int (- ENAMETOOLONG), d)"
  using assms by (auto simp: symlink_create_def Let_def)

theorem symlink_create_spec:
  assumes inv: "fs_inv d F (i # Is) A" and room: "2 \<le> card F" and name: "name \<noteq> []" "length name \<le> PATH_MAX - 1"
  shows "\<exists>d' F'. symlink_create d name = Some (i, d') \<and> fs_result A i d d' F' Is (insert i A) \<and> i \<notin> A \<and>
    S_ISLNK (imode (inode_at d' i)) \<and> inlinks (inode_at d' i) = 0 \<and> content d' i = name \<and> imode (inode_at d' i) = S_IFLNK OR 0x1FF"
proof -
  have n: "0 < length name" "length name \<le> 4095"
    using name by simp_all
  have "blockcount_of (int (length name)) < int (card F)" "int (length name) \<le> 496 * BLOCKSIZE"
    using room n unfolding link_blocks [OF n] by simp_all
  from create_bytes [OF inv this refl, of "S_IFLNK OR 0x1FF"]
  obtain d1 d2 d3 F' where "inode_allocate d = Some (i, d1)" "0 \<le> sint i" "inode_chmod d1 i (S_IFLNK OR 0x1FF) = Some (0, d2)"
    "inode_write d2 i 0 (Some name) (int (length name)) = Some (int (length name), d3)" "fs_result A i d d3 F' Is (insert i A)"
    "i \<notin> A" "fresh_attr (inode_at d3 i) (S_IFLNK OR 0x1FF)" "content d3 i = name"
    by blast
  then show ?thesis
    using n by (auto simp: symlink_create_def Let_def fresh_attr_def)
qed

theorem symlink_create_full:
  assumes inv: "fs_inv d F Is A" and full: "card F < 2 \<or> Is = []" and name: "name \<noteq> []" "length name \<le> PATH_MAX - 1"
  shows "\<exists>d'. symlink_create d name = Some (of_int (- ENOSPC), d') \<and> fs_inv d' F Is A \<and> (\<forall>j \<in> A. same_file d d' j) \<and> changed UNIV d d'"
proof -
  have n: "0 < length name" "length name \<le> 4095"
    using name by simp_all
  show ?thesis
  proof (cases "F = {} \<or> Is = []")
    case True
    then show ?thesis
      using inode_allocate_full [OF inv] n by (auto simp: symlink_create_def Let_def)
  next
    case False
    then obtain i Is' where Is: "Is = i # Is'"
      by (cases Is) auto
    have "int (card F) \<le> blockcount_of (int (length name))" "int (length name) \<le> 496 * BLOCKSIZE"
      using full False n unfolding link_blocks [OF n] by auto
    then obtain d1 d2 d3 d4 where "inode_allocate d = Some (i, d1)" "0 \<le> sint i" "inode_chmod d1 i (S_IFLNK OR 0x1FF) = Some (0, d2)"
      "inode_write d2 i 0 (Some name) (int (length name)) = Some (0, d3)" "inode_free d3 i = Some (0, d4)"
      "fs_inv d4 F (i # Is') A" "\<forall>j \<in> A. same_file d d4 j" "changed UNIV d d4"
      using create_rollback [OF inv [unfolded Is], of "length name" "S_IFLNK OR 0x1FF" "Some name"] False by fastforce
    then show ?thesis
      using n unfolding Is by (simp add: symlink_create_def Let_def)
  qed
qed

theorem symlink_read_spec:
  assumes inv: "fs_inv d F Is A" and i: "i \<in> A" and link: "S_ISLNK (imode (inode_at d i))" and n: "n \<le> length buf"
  shows "\<exists>d'. symlink_read d i buf (int n) = Some (of_nat (min n (length (content d i))), read_bytes (content d i) 0 n buf, d') \<and>
    only_read A i d d' F Is"
proof -
  obtain d' where "inode_read d i 0 buf (int n) = Some (int (read_count d i 0 n), read_bytes (content d i) 0 n buf, d')"
      "only_read A i d d' F Is"
    using inode_read_spec [OF inv i n, of 0] unfolding only_read_def by auto
  then show ?thesis
    using inode_getinfo_spec [OF inv i] link by (simp add: symlink_read_def read_count_def inode_info.truncate_def)
qed

theorem symlink_read_wrong_type:
  assumes "fs_inv d F Is A" and "i \<in> A" and "\<not> S_ISLNK (imode (inode_at d i))"
  shows "symlink_read d i buf n = Some (of_int (- EINVAL), buf, d)"
  using inode_getinfo_spec [OF assms(1,2)] assms(3) by (simp add: symlink_read_def inode_info.truncate_def)

end
