(* ===== verification/Demo.thy ===== *)
theory Demo
  imports Inode_Steps File_Spec Perm_Spec
begin

text \<open>
  Concrete states, at which the theorems are applied: a disk of eight blocks and what the
  operations make of it.
\<close>

section \<open>A formatted disk\<close>

definition demo_disk :: disk_t where
  "demo_disk = \<lparr>nblocks = 8, blocksize = 4096, fd = -1, disk_data = (\<lambda>_. 0), io_ok = (\<lambda>_. True)\<rparr>"

definition demo_ts :: timespec where
  "demo_ts = \<lparr>tv_sec = 1, tv_nsec = 0\<rparr>"

text \<open>A process that has opened it; the clock stands still and buffers start zeroed.\<close>

definition demo_boot :: path_env where
  "demo_boot = boot demo_disk (\<lambda>_. Some demo_ts) (\<lambda>_. [])"

definition demo_fs :: path_env where
  "demo_fs = the (mkfs_storage demo_boot 1)"

definition demo_free :: "blockno set" where
  "demo_free = {2, 3, 4, 5, 6, 7}"

definition demo_inos :: "ino list" where
  "demo_inos = map of_nat [1..<512]"

lemma demo_wf: "wf_disk demo_boot" "nblocks demo_boot = 8" "unat (1 :: u64) + 1 < unat (nblocks demo_boot)"
    "(0 :: u64) < 1" "open_file_table demo_boot = replicate 53 []"
  by (simp_all add: demo_boot_def boot_def demo_disk_def wf_disk_def)

lemma word_between_1_8: "(1 < (b :: u64) \<and> b < 8) = (b \<in> demo_free)"
proof -
  have "(1 < unat b \<and> unat b < 8) = (unat b \<in> {2, 3, 4, 5, 6, 7})"
    by auto
  moreover have "(unat b = unat c) = (b = c)" for c :: u64
    by (simp add: word_unat_eq_iff)
  from this [of 2] this [of 3] this [of 4] this [of 5] this [of 6] this [of 7]
  have "(unat b \<in> {2, 3, 4, 5, 6, 7}) = (b \<in> demo_free)"
    by (simp add: demo_free_def)
  ultimately show ?thesis
    by (simp add: word_less_nat_alt)
qed

lemma demo_blocks: "mkfs_data_blocks demo_boot 1 = demo_free"
  using word_between_1_8 demo_wf by (auto simp: mkfs_data_blocks_def)

lemma card_demo_free: "card demo_free = 6" "demo_free \<noteq> {}"
  by (simp_all add: demo_free_def)

lemma demo_mkfs_inos: "mkfs_inos 1 = 0 # demo_inos"
proof -
  have "[0..<512] = 0 # [1..<512]"
    by (subst upt_rec) simp
  then show ?thesis
    by (simp only: mkfs_inos_def demo_inos_def) simp
qed

lemma demo_fs_inv: "refs_inv demo_fs demo_free (0 # demo_inos) {}" "refs_of demo_fs = (\<lambda>_. 0)"
    "mkfs_storage demo_boot 1 = Some demo_fs"
  using mkfs_refs_inv [OF demo_wf(1,3-5)] by (auto simp: demo_fs_def demo_blocks demo_mkfs_inos)

lemma demo_fs_fs: "fs_inv demo_fs demo_free (0 # demo_inos) {}"
  by (rule refs_inv_fs(1) [OF demo_fs_inv(1)])

lemma demo_fs_store: "store_inv demo_fs demo_free (0 # demo_inos)"
  by (rule fs_inv_store [OF demo_fs_fs])

section \<open>With an empty file\<close>

definition demo_file :: path_env where
  "demo_file = snd (the (file_create demo_fs))"

definition demo_file_free :: "blockno set" where
  "demo_file_free = free_set demo_file {0}"

lemma demo_file_facts:
  "file_create demo_fs = Some (0, demo_file)" "fs_result {} 0 demo_fs demo_file demo_file_free demo_inos {0}"
  "S_ISREG (imode (inode_at demo_file 0))" "inlinks (inode_at demo_file 0) = 0" "content demo_file 0 = []"
  "card demo_file_free = 5"
proof -
  obtain d' b where d': "file_create demo_fs = Some (0, d')" "b \<in> demo_free"
    "fs_result {} 0 demo_fs d' (demo_free - {b}) demo_inos {0}" "S_ISREG (imode (inode_at d' 0))"
    "inlinks (inode_at d' 0) = 0" "content d' 0 = []"
    using file_create_spec [OF demo_fs_fs card_demo_free(2)] by auto
  then have eq: "d' = demo_file"
    by (simp add: demo_file_def)
  have "demo_free - {b} = demo_file_free"
    unfolding demo_file_free_def eq [symmetric] using d'(3) by (intro fs_inv_free_set [where Is = demo_inos]) (simp add: fs_result_def)
  moreover have "card (demo_free - {b}) = 5"
    using d'(2) card_demo_free(1) by simp
  ultimately show "file_create demo_fs = Some (0, demo_file)" "fs_result {} 0 demo_fs demo_file demo_file_free demo_inos {0}"
    "S_ISREG (imode (inode_at demo_file 0))" "inlinks (inode_at demo_file 0) = 0" "content demo_file 0 = []"
    "card demo_file_free = 5"
    using d' eq by simp_all
qed

lemma demo_file_fs: "fs_inv demo_file demo_file_free demo_inos {0}"
  using demo_file_facts(2) by (simp add: fs_result_def)

lemma demo_file_size: "fsize demo_file 0 = 0"
proof -
  have "nat (fsize demo_file 0) = 0"
    using length_content [of demo_file 0] demo_file_facts(5) by simp
  then show ?thesis
    using fs_inv_inode(7) [OF demo_file_fs, of 0] by simp
qed

lemma demo_file_enough: "0 \<le> sz \<Longrightarrow> sz \<le> 5 * BLOCKSIZE \<Longrightarrow> enough demo_file demo_file_free 0 sz"
  "slots_safe (fcount_blocks demo_file 0)" "5 * BLOCKSIZE < sz \<Longrightarrow> sz \<le> 496 * BLOCKSIZE \<Longrightarrow> \<not> enough demo_file demo_file_free 0 sz"
  using enough_direct(1) [of demo_file 0 sz demo_file_free] enough_direct(2) [of demo_file 0 sz] demo_file_size demo_file_facts(6)
  by (simp_all add: fcount_blocks_def blockcount_nonneg slots_direct)

text \<open>The file is open and has no name: the state between \<open>open\<close> and \<open>link\<close>, or after \<open>unlink\<close>.\<close>

definition demo_open :: path_env where
  "demo_open = snd (the (refs_open demo_file 0))"

lemma demo_open_facts:
  "refs_open demo_file 0 = Some (0, demo_open)" "same_disk demo_file demo_open" "refs_inv demo_open demo_file_free demo_inos {0}"
  "refs_of demo_open 0 = 1" "inlinks (inode_at demo_open 0) = 0"
proof -
  obtain d' where d': "refs_open demo_file 0 = Some (0, d')" "same_disk demo_file d'" "refs_inv d' demo_file_free demo_inos {0}"
    "refs_of d' = (refs_of demo_fs)(0 := 1)"
    using refs_open_fresh [OF demo_fs_inv(1) demo_file_facts(2)] by auto
  then have "d' = demo_open"
    by (simp add: demo_open_def)
  then show "refs_open demo_file 0 = Some (0, demo_open)" "same_disk demo_file demo_open" "refs_inv demo_open demo_file_free demo_inos {0}"
    "refs_of demo_open 0 = 1" "inlinks (inode_at demo_open 0) = 0"
    using d' same_disk_file(1) [OF d'(2), of 0] demo_file_facts(4) by (simp_all add: same_file_def)
qed

section \<open>With a directory\<close>

definition demo_dir :: path_env where
  "demo_dir = snd (the (dir_create demo_fs 0))"

definition demo_dir_free :: "blockno set" where
  "demo_dir_free = free_set demo_dir {0}"

lemma zero_not_EOF: "(0 :: ino) \<noteq> EOF" "(5 :: ino) \<noteq> EOF"
  by (simp_all add: EOF_def)

lemma demo_dir_facts:
  "dir_create demo_fs 0 = Some (0, demo_dir)" "fs_inv demo_dir demo_dir_free demo_inos {0}"
  "changed UNIV demo_fs demo_dir" "dir_rep demo_dir 0 (new_dir 0 0)" "fsize demo_dir 0 = BLOCKSIZE"
proof -
  have "2 \<le> card demo_free"
    by (simp add: card_demo_free)
  from dir_create_spec [OF demo_fs_fs this zero_not_EOF(1)]
  obtain d' F' where d': "dir_create demo_fs 0 = Some (0, d')" "fs_inv d' F' demo_inos {0}" "changed UNIV demo_fs d'" "dir_rep d' 0 (new_dir 0 0)"
    by (auto simp: fs_result_def)
  then have "d' = demo_dir"
    by (simp add: demo_dir_def)
  moreover have "F' = demo_dir_free"
    unfolding demo_dir_free_def calculation [symmetric] by (rule fs_inv_free_set [OF d'(2)])
  ultimately show "dir_create demo_fs 0 = Some (0, demo_dir)" and inv: "fs_inv demo_dir demo_dir_free demo_inos {0}"
    and "changed UNIV demo_fs demo_dir" and rep: "dir_rep demo_dir 0 (new_dir 0 0)"
    using d' by simp_all
  show "fsize demo_dir 0 = BLOCKSIZE"
    using dir_rep_size [OF inv _ rep] by (simp add: new_dir_def)
qed

lemma demo_dir_enough: "enough demo_dir demo_dir_free 0 (2 * BLOCKSIZE)"
proof -
  have "data_blocks demo_fs = 6"
    using block_accounting [OF demo_fs_fs] card_demo_free by simp
  then have "data_blocks demo_dir = 6"
    using demo_dir_facts(3) by (simp add: data_blocks_def changed_def)
  then have "card demo_dir_free = 4"
    using block_accounting [OF demo_dir_facts(2)] by (simp add: fcount_blocks_def demo_dir_facts(5) blockcount_nonneg slots_direct)
  then show ?thesis
    using enough_direct(1) [of demo_dir 0 "2 * BLOCKSIZE" demo_dir_free] demo_dir_facts(5)
    by (simp add: fcount_blocks_def blockcount_nonneg)
qed

text \<open>The directory with an entry \<open>a\<close> for inode 5.\<close>

definition demo_name :: "byte list" where
  "demo_name = [97]"

lemma demo_name_facts [simp]: "length demo_name = 1" "0 \<notin> set demo_name" "demo_name \<noteq> [DOT]" "demo_name \<noteq> [DOT, DOT]"
    "dir_map (new_dir 0 0) demo_name = None"
  by (simp_all add: demo_name_def DOT_def new_dir_def)

definition demo_entry :: path_env where
  "demo_entry = snd (the (dir_insert demo_dir 0 demo_name 5))"

lemma demo_entry_facts:
  "dir_insert demo_dir 0 demo_name 5 = Some (0, demo_entry)"
  "\<exists>F ess. fs_inv demo_entry F demo_inos {0} \<and> dir_rep demo_entry 0 ess \<and> dir_map ess = (dir_map (new_dir 0 0))(demo_name \<mapsto> 5)"
proof -
  have "fsize demo_dir 0 + BLOCKSIZE = 2 * BLOCKSIZE" "2 * BLOCKSIZE \<le> MAX_FILESIZE"
    using demo_dir_facts(5) by (simp_all add: MAX_FILESIZE_def)
  then obtain d' F' ess' where d': "dir_insert demo_dir 0 demo_name 5 = Some (0, d')" "fs_result {0} 0 demo_dir d' F' demo_inos {0}"
    "dir_rep d' 0 ess'" "dir_map ess' = (dir_map (new_dir 0 0))(demo_name \<mapsto> 5)"
    using dir_insert_spec [OF demo_dir_facts(2) _ demo_dir_facts(4), of demo_name 5] zero_not_EOF demo_dir_enough
    by (auto simp: new_dir_def)
  then have "d' = demo_entry"
    by (simp add: demo_entry_def)
  then show "dir_insert demo_dir 0 demo_name 5 = Some (0, demo_entry)"
    "\<exists>F ess. fs_inv demo_entry F demo_inos {0} \<and> dir_rep demo_entry 0 ess \<and> dir_map ess = (dir_map (new_dir 0 0))(demo_name \<mapsto> 5)"
    using d' by (auto simp: fs_result_def)
qed

text \<open>The directory destroyed.\<close>

definition demo_dead :: path_env where
  "demo_dead = snd (the (dir_destroy demo_dir 0))"

lemma demo_dead_facts:
  "dir_destroy demo_dir 0 = Some (0, demo_dead)" "\<exists>F. fs_inv demo_dead F demo_inos {0}" "dead_dir demo_dead 0"
proof -
  obtain d' F' where d': "dir_destroy demo_dir 0 = Some (0, d')" "fs_result {0} 0 demo_dir d' F' demo_inos {0}" "dead_dir d' 0"
    using dir_destroy_spec [OF demo_dir_facts(2) _ demo_dir_facts(4) [unfolded new_dir_def]] by auto
  then have "d' = demo_dead"
    by (simp add: demo_dead_def)
  then show "dir_destroy demo_dir 0 = Some (0, demo_dead)" "\<exists>F. fs_inv demo_dead F demo_inos {0}" "dead_dir demo_dead 0"
    using d' by (auto simp: fs_result_def)
qed

section \<open>With the root directory\<close>

definition demo_root :: path_env where
  "demo_root = the (format_disk demo_boot 1 0 0)"

lemma demo_root_facts:
  "format_disk demo_boot 1 0 0 = Some demo_root" "\<exists>F. refs_inv demo_root F demo_inos {0}" "refs_of demo_root = (\<lambda>_. 0)"
  "root_ok demo_root 0 0" "refs_env.more demo_root = refs_env.more demo_boot"
proof -
  have "unat (1 :: u64) + 2 < unat (nblocks demo_boot)"
    by (simp add: demo_wf)
  from format_disk_spec [OF demo_wf(1) this demo_wf(4,5), of 0 0]
  show "format_disk demo_boot 1 0 0 = Some demo_root" "\<exists>F. refs_inv demo_root F demo_inos {0}" "refs_of demo_root = (\<lambda>_. 0)"
    "root_ok demo_root 0 0" "refs_env.more demo_root = refs_env.more demo_boot"
    by (auto simp: demo_root_def demo_mkfs_inos)
qed

section \<open>A disk with one free block\<close>

definition demo_tiny :: path_env where
  "demo_tiny = the (mkfs_storage (demo_boot\<lparr>nblocks := 3\<rparr>) 1)"

lemma demo_tiny_facts: "\<exists>F. fs_inv demo_tiny F (0 # demo_inos) {} \<and> card F = 1"
proof -
  let ?d = "demo_boot\<lparr>nblocks := 3\<rparr>"
  have d: "wf_disk ?d" "unat (1 :: u64) + 1 < unat (nblocks ?d)"
    by (simp_all add: demo_boot_def boot_def demo_disk_def wf_disk_def)
  obtain d' where d': "mkfs_storage ?d 1 = Some d'" "fs_inv d' (mkfs_data_blocks ?d 1) (mkfs_inos 1) {}"
    using mkfs_fs_inv [OF d demo_wf(4)] by blast
  have "(1 < b \<and> b < 3) = (b = 2)" for b :: u64
    by (simp add: word_less_nat_alt word_unat_eq_iff) linarith
  then have "mkfs_data_blocks ?d 1 = {2}"
    by (auto simp: mkfs_data_blocks_def)
  then show ?thesis
    using d' by (auto simp: demo_tiny_def demo_mkfs_inos)
qed

section \<open>A full disk\<close>

text \<open>
  Three data blocks, all taken by a doubly indirect slot with one block: the index block, the
  indirect block and the data block.
\<close>

lemma tcount_one: "tcount (Suc l) 1 = 1 + tcount l 1"
proof -
  have one: "child_n l 1 i = (if i = 0 then 1 else 0)" for i
    by (simp add: child_n_def Suc_leI)
  have "(\<Sum>i<512. tcount l (child_n l 1 i)) = (\<Sum>i<(512 :: nat). if i = 0 then tcount l 1 else 0)"
    by (intro sum.cong) (simp_all add: one [simplified])
  then show ?thesis
    by (simp add: tcount_Suc fcount_def)
qed

definition demo_full :: path_env where
  "demo_full = (case the (inode_indirect_grow 2 (the (mkfs_storage (demo_boot\<lparr>nblocks := 5\<rparr>) 1)) EOF 0 0 1) of
     (_, _, _, d) \<Rightarrow> d)"

lemma demo_full_facts: "\<exists>p. store_inv demo_full {} (0 # demo_inos) \<and> tree_ok 2 demo_full p 1"
proof -
  let ?d = "demo_boot\<lparr>nblocks := 5\<rparr>"
  have d: "wf_disk ?d" "unat (1 :: u64) + 1 < unat (nblocks ?d)"
    by (simp_all add: demo_boot_def boot_def demo_disk_def wf_disk_def)
  obtain d1 where d1: "mkfs_storage ?d 1 = Some d1" "fs_inv d1 (mkfs_data_blocks ?d 1) (mkfs_inos 1) {}"
    using mkfs_fs_inv [OF d demo_wf(4)] by blast
  have "(1 < b \<and> b < 5) = (b = 2 \<or> b = 3 \<or> b = 4)" for b :: u64
    by (simp add: word_less_nat_alt word_unat_eq_iff) linarith
  then have F: "mkfs_data_blocks ?d 1 = {2, 3, 4}"
    by (auto simp: mkfs_data_blocks_def)
  have n: "clampn 2 0 0 = 0" "clampn 2 0 1 = 1"
    by (simp_all add: clampn_def)
  have t: "tcount 2 1 = 3" "tcount 2 (Suc 0) = 3"
    using tcount_one [of "Suc 0"] tcount_one [of 0] by (simp_all add: numeral_2_eq_2)
  have inv: "store_inv d1 {2, 3, 4} (0 # demo_inos)"
    using fs_inv_store [OF d1(2)] by (simp add: F demo_mkfs_inos)
  have "grow_pre 2 (0 # demo_inos) {2, 3, 4} d1 EOF 0 1"
    using inv by (simp add: grow_pre_def)
  then have "grow_post 2 (0 # demo_inos) {2, 3, 4} d1 EOF 0 1 (inode_indirect_grow 2 d1 EOF 0 0 1)"
    using inode_indirect_grow_spec [of 2 "0 # demo_inos" "{2, 3, 4}" d1 EOF 0 0 1] by (simp add: n)
  then obtain p d2 F' where d2: "inode_indirect_grow 2 d1 EOF 0 0 1 = Some (True, p, 1, d2)" "store_inv d2 F' (0 # demo_inos)"
    "F' \<subseteq> {2, 3, 4}" "tree_ok 2 d2 p 1" "tset 2 d2 p 1 = {2, 3, 4} - F'"
    by (auto simp: grow_post_def t)
  have "card ({2, 3, 4} - F') = 3"
    using card_tset [OF d2(4)] d2(5) t by simp
  then have "{2, 3, 4} - F' = {2, 3, 4}"
    by (intro card_seteq) auto
  then have "F' = {}"
    using d2(3) by blast
  then show ?thesis
    using d2(1,2,4) d1(1) by (auto simp: demo_full_def)
qed

end
