(* ===== verification/Path_Spec.thy ===== *)
theory Path_Spec
  imports Path Dir_Block
begin

text \<open>
  Name resolution ends: the nested calls through symbolic links are cut off by their level, so
  the fuel of \<open>namei\<close> is enough.  The last component of a path, and the table of open paths,
  which holds an entry of a directory at most once.
\<close>

section \<open>The fuel of name resolution\<close>

text \<open>A nested call is made one level higher, and the level never falls.\<close>

lemma internal_single_cong:
  assumes "\<And>path cd d. rec path cd (level + 1) d = rec' path cd (level + 1) d"
  shows "namei_internal_single rec c token curdir deref level d = namei_internal_single rec' c token curdir deref level d"
  unfolding namei_internal_single_def assms ..

lemma internal_single_level:
  assumes "namei_internal_single rec c token curdir deref level d = Some (next, info, curdir', level', d')"
  shows "level \<le> level'"
  using assms unfolding namei_internal_single_def
  by (auto split: bind_splits if_splits option.splits prod.splits)

lemma namei_walk_cong:
  assumes "\<And>path cd lvl d. level < lvl \<Longrightarrow> rec path cd lvl d = rec' path cd lvl d"
  shows "namei_walk rec c deref token current curdir level d = namei_walk rec' c deref token current curdir level d"
  using assms
proof (induction rec c deref token current curdir level d rule: namei_walk.induct)
  case (1 rec c deref token current curdir level d)
  have single: "namei_internal_single rec c t cd dr level d = namei_internal_single rec' c t cd dr level d" for t cd dr d
    by (rule internal_single_cong) (simp add: "1.prems")
  show ?case
  proof (cases "first_index (\<lambda>ch. ch = SLASH) token")
    case None
    then show ?thesis
      by (subst (1 2) namei_walk.simps) (simp add: single)
  next
    case (Some n)
    show ?thesis
    proof (cases "n = 0")
      case True
      then show ?thesis
        using Some "1.IH"(1) [OF Some True "1.prems"] by (subst (1 2) namei_walk.simps) simp
    next
      case False
      have IH: "namei_walk rec c deref (drop (n + 1) token) next curdir' level' d' = namei_walk rec' c deref (drop (n + 1) token) next curdir' level' d'"
        if "close_ok d curdir = Some d1" "namei_internal_single rec c (take n token) current True level d1 = Some (next, info, curdir', level', d')"
          "\<not> sint next < 0" "info = Some i" "S_ISDIR (imode i)" for d1 "next" info curdir' level' d' i
      proof -
        have "level \<le> level'"
          by (rule internal_single_level [OF that(2)])
        then show ?thesis
          using "1.IH"(2) [OF Some False that(1,2) refl refl refl refl that(3,4)] that(5) "1.prems" by auto
      qed
      show ?thesis
        using Some False IH by (subst (1 2) namei_walk.simps) (auto simp: single split: option.split prod.split)
    qed
  qed
qed

theorem namei_rec_fuel:
  fixes d :: "'x refs_env_scheme"
  assumes "0 < fuel" and "10 \<le> fuel + level" and "0 < fuel'" and "10 \<le> fuel' + level"
  shows "namei_rec fuel c deref path curdir level d = namei_rec fuel' c deref path curdir level d"
  using assms
proof (induction fuel arbitrary: fuel' deref path curdir level d)
  case (Suc fuel)
  obtain k where k: "fuel' = Suc k"
    using Suc.prems(3) by (cases fuel') auto
  show ?case
  proof (cases "8 < level")
    case True
    then show ?thesis
      by (simp add: k)
  next
    case False
    have nested: "namei_rec fuel c True path cd lvl d = namei_rec k c True path cd lvl d" if "level < lvl"
      for path cd lvl and d :: "'x refs_env_scheme"
      by (rule Suc.IH) (use Suc.prems False that in \<open>simp_all add: k\<close>)
    have walk: "(namei_walk (namei_rec fuel c True) c deref token current curdir level :: 'x refs_env_scheme \<Rightarrow> _) =
        namei_walk (namei_rec k c True) c deref token current curdir level"
      for deref token current curdir
      by (rule ext, rule namei_walk_cong [OF nested])
    then show ?thesis
      by (simp add: k cong: if_cong)
  qed
qed simp

section \<open>The last component\<close>

theorem last_token_spec:
  assumes "token \<noteq> []" and "SLASH \<notin> set token" and "prefix = [] \<or> last prefix = SLASH"
  shows "last_token (prefix @ token @ replicate n SLASH) = token" "last_token (replicate n SLASH) = [DOT]"
proof -
  have "dropWhile (\<lambda>ch. ch = SLASH) (rev (prefix @ token @ replicate n SLASH)) = rev (prefix @ token)"
  proof -
    have "last token \<noteq> SLASH"
      using assms(1,2) last_in_set by metis
    then show ?thesis
      using assms(1) by (cases token rule: rev_cases) (auto simp: dropWhile_append)
  qed
  moreover have "takeWhile (\<lambda>ch. ch \<noteq> SLASH) (rev token @ rev prefix) = rev token"
    using assms(2,3) by (cases prefix rule: rev_cases) (auto simp: takeWhile_append)
  ultimately show "last_token (prefix @ token @ replicate n SLASH) = token"
    using assms(1) by (simp add: last_token_def Let_def)
  show "last_token (replicate n SLASH) = [DOT]"
    by (simp add: last_token_def Let_def)
qed

lemma link_string:
  assumes "0 \<notin> set name" and "length name \<le> PATH_MAX - 1"
  shows "c_string (read_bytes name 0 PATH_MAX (replicate PATH_MAX 0)) = Some name"
proof -
  have buf: "read_bytes name 0 PATH_MAX (replicate PATH_MAX 0) = name @ 0 # replicate (4095 - length name) 0"
    using assms(2) by (simp add: read_bytes_def slice_def replicate_Suc [symmetric] Suc_diff_le del: replicate_Suc)
  show ?thesis
    using strlen_at [of 0 _ name "replicate (4095 - length name) 0"] assms(1) by (simp add: c_string_def buf)
qed

section \<open>The table of open paths\<close>

text \<open>No two open handles stand for the same name in the same directory.\<close>

definition paths_exclusive :: "open_path_node list \<Rightarrow> bool" where
  "paths_exclusive nodes \<longleftrightarrow> (\<forall>h < length nodes. \<forall>k < length nodes. h \<noteq> k \<longrightarrow> path_refs (nodes ! h) \<noteq> 0 \<longrightarrow> path_refs (nodes ! k) \<noteq> 0 \<longrightarrow>
     (parent_dir (nodes ! h), path_name (nodes ! h)) \<noteq> (parent_dir (nodes ! k), path_name (nodes ! k)))"

definition names_entry :: "open_path_node \<Rightarrow> ino \<Rightarrow> byte list \<Rightarrow> bool" where
  "names_entry node curdir token \<longleftrightarrow> path_refs node \<noteq> 0 \<and> parent_dir node = curdir \<and> path_name node = token"

definition scan_result :: "open_path_node list \<Rightarrow> int \<Rightarrow> ino \<Rightarrow> byte list \<Rightarrow> int \<Rightarrow> int \<Rightarrow> unit + int \<Rightarrow> bool" where
  "scan_result nodes handle curdir token noblock chosen r \<longleftrightarrow> (case r of
      Inl _ \<Rightarrow> \<exists>k < length nodes. names_entry (nodes ! k) curdir token \<and> (noblock = handle + int k \<or> noblock = -2)
    | Inr h \<Rightarrow> (\<forall>node \<in> set nodes. \<not> names_entry node curdir token) \<and>
        (h = chosen \<and> (\<forall>node \<in> set nodes. path_refs node \<noteq> 0) \<or>
         (\<exists>k < length nodes. h = handle + int k \<and> path_refs (nodes ! k) = 0)))"

lemma scan_result_Cons:
  assumes "scan_result nodes (handle + 1) curdir token noblock chosen' r" and "\<not> names_entry node curdir token"
    and "chosen' = (if path_refs node = 0 then handle else chosen)"
  shows "scan_result (node # nodes) handle curdir token noblock chosen r"
proof (cases r)
  case (Inl u)
  then obtain k where "k < length nodes" "names_entry (nodes ! k) curdir token" "noblock = handle + 1 + int k \<or> noblock = -2"
    using assms(1) by (auto simp: scan_result_def)
  then show ?thesis
    using Inl by (auto simp: scan_result_def intro!: exI [of _ "Suc k"])
next
  case (Inr h)
  have none: "\<forall>n \<in> set (node # nodes). \<not> names_entry n curdir token"
    using assms(1,2) Inr by (simp add: scan_result_def)
  consider "h = chosen'" "\<forall>n \<in> set nodes. path_refs n \<noteq> 0" | k where "k < length nodes" "h = handle + 1 + int k" "path_refs (nodes ! k) = 0"
    using assms(1) Inr by (auto simp: scan_result_def)
  then show ?thesis
  proof cases
    case 1
    then show ?thesis
      using none assms(3) Inr by (auto simp: scan_result_def intro!: exI [of _ 0])
  next
    case 2
    then show ?thesis
      using none Inr by (auto simp: scan_result_def intro!: exI [of _ "Suc k"])
  qed
qed

theorem scan_handles_spec:
  "scan_handles nodes handle curdir token noblock chosen = Some r \<Longrightarrow> scan_result nodes handle curdir token noblock chosen r"
proof (induction nodes arbitrary: handle chosen)
  case Nil
  then show ?case
    by (auto simp: scan_result_def)
next
  case (Cons node nodes)
  show ?case
  proof (cases "names_entry node curdir token")
    case True
    then have "r = Inl () \<and> (noblock = handle \<or> noblock = -2)"
      using Cons.prems by (auto simp: names_entry_def split: if_splits)
    then show ?thesis
      using True by (auto simp: scan_result_def intro!: exI [of _ 0])
  next
    case False
    show ?thesis
    proof (rule scan_result_Cons [OF _ False refl])
      show "scan_result nodes (handle + 1) curdir token noblock (if path_refs node = 0 then handle else chosen) r"
        using Cons False by (auto simp: names_entry_def split: if_splits)
    qed
  qed
qed

end
