(* ===== verification/Path_Walk.thy ===== *)
theory Path_Walk
  imports Refs_Files Perm_Spec Path_Spec
begin

text \<open>
  Name resolution on the directories as maps: a path of directories is followed entry by entry,
  and in the end exactly the references to the result and to its directory have been taken.
\<close>

section \<open>Reference counts\<close>

definition inc :: "('a \<Rightarrow> nat) \<Rightarrow> 'a \<Rightarrow> 'a \<Rightarrow> nat" where
  "inc f i = f(i := Suc (f i))"

lemma inc_commute: "inc (inc f i) j = inc (inc f j) i"
  by (auto simp: inc_def fun_eq_iff)

lemma inc_undo [simp]: "(inc f i)(i := inc f i i - Suc 0) = f" "0 < inc f i i"
  by (simp_all add: inc_def)

text \<open>A node can count \<open>k\<close> more references to any inode.\<close>

definition few_refs :: "nat \<Rightarrow> (ino \<Rightarrow> nat) \<Rightarrow> bool" where
  "few_refs k f \<longleftrightarrow> (\<forall>i. f i + k < 2 ^ 32)"

lemma few_refs_mono: "few_refs k f \<Longrightarrow> n \<le> k \<Longrightarrow> few_refs n f"
  unfolding few_refs_def by (meson add_left_mono le_less_trans)

lemma few_refs_inc:
  assumes "few_refs (Suc k) f"
  shows "few_refs k (inc f i)"
  unfolding few_refs_def
proof
  fix j
  have "f j + Suc k < 2 ^ 32"
    using assms by (simp only: few_refs_def)
  then show "inc f i j + k < 2 ^ 32"
    by (auto simp: inc_def)
qed

lemma few_refs_less: "few_refs k f \<Longrightarrow> 0 < k \<Longrightarrow> f i < 2 ^ 32 - 1"
  unfolding few_refs_def by (drule spec [of _ i]) simp

text \<open>
  \<open>quiet F Is A d f d'\<close>: the files are as they were but for access times, the references are
  \<open>f\<close>, and the state above the table of open files is untouched.
\<close>

definition quiet :: "blockno set \<Rightarrow> ino list \<Rightarrow> ino set \<Rightarrow> 'x refs_env_scheme \<Rightarrow> (ino \<Rightarrow> nat) \<Rightarrow> 'x refs_env_scheme \<Rightarrow> bool" where
  "quiet F Is A d f d' \<longleftrightarrow> refs_inv d' F Is A \<and> refs_of d' = f \<and> same_files A d d' \<and> refs_env.more d' = refs_env.more d"

lemma quiet_trans: "quiet F Is A d f d1 \<Longrightarrow> quiet F Is A d1 g d2 \<Longrightarrow> quiet F Is A d g d2"
  using same_files_trans by (auto simp: quiet_def)

lemma quiet_refl: "refs_inv d F Is A \<Longrightarrow> quiet F Is A d (refs_of d) d"
  by (simp add: quiet_def)

definition linked :: "'x disk_t_scheme \<Rightarrow> ino set \<Rightarrow> ino \<Rightarrow> bool" where
  "linked d A i \<longleftrightarrow> i \<in> A \<and> inlinks (inode_at d i) \<noteq> 0"

lemma quiet_linked: "quiet F Is A d f d' \<Longrightarrow> linked d' A i = linked d A i"
  by (auto simp: quiet_def linked_def same_files_def same_attr_def)

lemma open_ok_spec:
  assumes "refs_inv d F Is A" and "i \<in> A" and "refs_of d i < 2 ^ 32 - 1"
  shows "\<exists>d'. open_ok d i = Some d' \<and> quiet F Is A d (inc (refs_of d) i) d'"
  using refs_open_spec [OF assms] same_disk_files by (fastforce simp: open_ok_def quiet_def inc_def)

lemma close_ok_spec:
  assumes "refs_inv d F Is A" and "linked d A i" and "refs_of d = inc f i"
  shows "\<exists>d'. close_ok d i = Some d' \<and> quiet F Is A d f d'"
proof -
  have "0 < refs_of d i" "inlinks (inode_at d i) \<noteq> 0"
    using assms(2,3) by (simp_all add: linked_def)
  then obtain d' where d': "refs_close d i = Some (0, d')" "same_disk d d'" "refs_inv d' F Is A"
    "refs_of d' = (refs_of d)(i := refs_of d i - 1)" "refs_env.more d' = refs_env.more d"
    using refs_close_spec [OF assms(1)] by blast
  then show ?thesis
    using same_disk_files [OF d'(2)] assms(3) by (simp add: close_ok_def quiet_def)
qed

section \<open>One component\<close>

definition may_search :: "'x disk_t_scheme \<Rightarrow> cred \<Rightarrow> ino \<Rightarrow> bool" where
  "may_search d c i \<longleftrightarrow> allowed (inode_at d i) PERM_EXEC (cr_user c) (cr_group c)"

definition dir_entry :: "'x disk_t_scheme \<Rightarrow> ino \<Rightarrow> byte list \<Rightarrow> ino option \<Rightarrow> bool" where
  "dir_entry d i name t \<longleftrightarrow> (\<exists>ess. dir_rep d i ess \<and> dir_map ess name = t)"

definition good_name :: "byte list \<Rightarrow> bool" where
  "good_name n \<longleftrightarrow> n \<noteq> [] \<and> SLASH \<notin> set n \<and> length n \<le> NAME_MAX"

lemma allowed_attr: "same_attr a b \<Longrightarrow> allowed b p u g = allowed a p u g"
  by (simp add: same_attr_def allowed_def granted_def class_shift_def)

lemma same_files_entry:
  assumes files: "same_files A d d'" and "i \<in> A"
  shows "dir_entry d i name t \<Longrightarrow> dir_entry d' i name t" "may_search d' c i = may_search d c i"
    "imode (inode_at d' i) = imode (inode_at d i)"
proof -
  have attr: "same_attr (inode_at d i) (inode_at d' i)"
    using assms by (simp add: same_files_def)
  show "dir_entry d i name t \<Longrightarrow> dir_entry d' i name t"
    unfolding dir_entry_def using same_files_dir [OF files assms(2)] by blast
  show "may_search d' c i = may_search d c i"
    unfolding may_search_def by (rule allowed_attr [OF attr])
  show "imode (inode_at d' i) = imode (inode_at d i)"
    using attr by (simp add: same_attr_def)
qed

lemma quiet_files: "quiet F Is A d f d' \<Longrightarrow> same_files A d d'"
  by (simp add: quiet_def)

lemmas quiet_dir = same_files_entry [OF quiet_files]

lemma perm_check_search:
  assumes "fs_inv d F Is A" and "i \<in> A"
  shows "perm_check d i PERM_EXEC (cr_user c) (cr_group c) = Some (if may_search d c i then 0 else - EACCES)"
  using perm_check_spec [OF assms, of PERM_EXEC] by (simp add: PERM_EXEC_def may_search_def)

lemma ino_nonneg: "fs_inv d F Is A \<Longrightarrow> i \<in> A \<Longrightarrow> 0 \<le> sint i \<and> i \<noteq> EOF"
  using valid_ino_unat(2,3) [of d i] fs_inv_inode(2) [of d F Is A i] fs_inv_store [of d F Is A] by (simp add: store_inv_def)

lemma single_found:
  fixes d :: "'x refs_env_scheme"
  assumes inv: "refs_inv d F Is A" and dir: "i \<in> A" "may_search d c i" "dir_entry d i name (Some t)" and name: "good_name name"
    and t: "t \<in> A" "refs_of d t < 2 ^ 32 - 1" and nolink: "\<not> (deref \<and> S_ISLNK (imode (inode_at d t)))"
  shows "\<exists>d'. namei_internal_single rec c name i deref level d = Some (t, Some (inode_info.truncate (inode_at d' t)), i, level, d') \<and>
    quiet F Is A d (inc (refs_of d) t) d'"
proof -
  obtain ess where ess: "dir_rep d i ess" "dir_map ess name = Some t"
    using dir(3) by (auto simp: dir_entry_def)
  obtain d' where d': "refs_dir_lookup_open d i name = Some (t, d')" "quiet F Is A d (inc (refs_of d) t) d'"
    using refs_dir_lookup_open_spec [OF inv dir(1) ess(1) _ ess(2) t] name by (auto simp: quiet_def inc_def good_name_def)
  note inv' = refs_inv_fs(1) [of d' F Is A]
  have fs': "fs_inv d' F Is A"
    using d'(2) inv' by (simp add: quiet_def)
  have "\<not> (deref \<and> S_ISLNK (imode (inode_at d' t)))"
    using nolink quiet_dir(3) [OF d'(2) t(1)] by simp
  then show ?thesis
    using perm_check_search [OF refs_inv_fs(1) [OF inv] dir(1), of c] dir(2) d' ino_nonneg [OF fs' t(1)] inode_getinfo_spec [OF fs' t(1)]
    by (auto simp: namei_internal_single_def inode_info.truncate_def)
qed

lemma single_absent:
  fixes d :: "'x refs_env_scheme"
  assumes inv: "refs_inv d F Is A" and dir: "i \<in> A" "may_search d c i" "dir_entry d i name None" and name: "good_name name"
  shows "\<exists>d'. namei_internal_single rec c name i deref level d = Some (of_int (- ENOENT), None, i, level, d') \<and>
    quiet F Is A d (refs_of d) d'"
proof -
  obtain ess where ess: "dir_rep d i ess" "dir_map ess name = None"
    using dir(3) by (auto simp: dir_entry_def)
  obtain d' where d': "refs_dir_lookup_open d i name = Some (of_int (- ENOENT), d')" "quiet F Is A d (refs_of d) d'"
    using refs_dir_lookup_open_absent [OF inv dir(1) ess(1) _ ess(2)] name by (auto simp: quiet_def good_name_def)
  then show ?thesis
    using perm_check_search [OF refs_inv_fs(1) [OF inv] dir(1), of c] dir(2)
    by (auto simp: namei_internal_single_def)
qed

lemma single_denied:
  fixes d :: "'x refs_env_scheme"
  assumes inv: "refs_inv d F Is A" and dir: "i \<in> A" "\<not> may_search d c i"
  shows "namei_internal_single rec c name i deref level d = Some (of_int (- EACCES), None, i, level, d)"
  using perm_check_search [OF refs_inv_fs(1) [OF inv] dir(1), of c] dir(2)
  by (simp add: namei_internal_single_def)

section \<open>A path of directories\<close>

text \<open>\<open>dir_path d A c cur names p\<close>: the names lead from directory \<open>cur\<close> to directory \<open>p\<close>.\<close>

inductive dir_path :: "'x disk_t_scheme \<Rightarrow> ino set \<Rightarrow> cred \<Rightarrow> ino \<Rightarrow> byte list list \<Rightarrow> ino \<Rightarrow> bool" for d A c where
  here: "linked d A cur \<Longrightarrow> dir_path d A c cur [] cur"
| down: "linked d A cur \<Longrightarrow> good_name n \<Longrightarrow> may_search d c cur \<Longrightarrow> dir_entry d cur n (Some t) \<Longrightarrow> S_ISDIR (imode (inode_at d t)) \<Longrightarrow>
    dir_path d A c t ns p \<Longrightarrow> dir_path d A c cur (n # ns) p"

inductive_simps dir_path_simps: "dir_path d A c cur [] p" "dir_path d A c cur (n # ns) p"

lemma dir_path_linked: "dir_path d A c cur ns p \<Longrightarrow> linked d A cur \<and> linked d A p"
  by (induction rule: dir_path.induct) simp_all

lemma linked_files:
  assumes "same_files A d d'" and "A \<subseteq> A'" and "linked d A i"
  shows "linked d' A' i"
  using assms by (auto simp: linked_def same_files_def same_attr_def)

lemma dir_path_files:
  assumes "dir_path d A c cur ns p" and files: "same_files A d d'" and sub: "A \<subseteq> A'"
  shows "dir_path d' A' c cur ns p"
  using assms(1)
proof (induction rule: dir_path.induct)
  case (here cur)
  then show ?case
    using linked_files [OF files sub] by (simp add: dir_path_simps)
next
  case (down cur n t ns p)
  have "t \<in> A" "cur \<in> A"
    using dir_path_linked [OF down.hyps(6)] down.hyps(1) by (simp_all add: linked_def)
  then show ?case
    using down linked_files [OF files sub] same_files_entry [OF files]
    by (intro dir_path.down [where t = t]) simp_all
qed

lemmas dir_path_quiet = dir_path_files [OF _ quiet_files subset_refl]

definition dirs_string :: "byte list list \<Rightarrow> byte list" where
  "dirs_string ns = concat (map (\<lambda>n. n @ [SLASH]) ns)"

lemma dirs_string_simps [simp]: "dirs_string [] = []" "dirs_string (n # ns) = n @ SLASH # dirs_string ns"
  by (simp_all add: dirs_string_def)

lemma first_slash: "SLASH \<notin> set n \<Longrightarrow> first_index (\<lambda>ch. ch = SLASH) (n @ SLASH # rest) = Some (length n)"
  by (rule first_index_at) auto

lemma no_slash: "SLASH \<notin> set n \<Longrightarrow> first_index (\<lambda>ch. ch = SLASH) n = None"
  by (auto simp: index_None_iff)

lemma namei_walk_dirs:
  fixes d :: "'x refs_env_scheme"
  assumes "dir_path d A c cur ns p" and "refs_inv d F Is A" and "refs_of d = inc (inc base cur) curdir" and "linked d A curdir"
    and "few_refs 3 base"
  shows "\<exists>d' curdir'. namei_walk rec c deref (dirs_string ns @ rest) cur curdir level d = namei_walk rec c deref rest p curdir' level d' \<and>
    quiet F Is A d (inc (inc base p) curdir') d' \<and> linked d A curdir'"
  using assms
proof (induction ns arbitrary: cur curdir d)
  case Nil
  then show ?case
    using quiet_refl [OF Nil.prems(2)] by (auto simp: dir_path_simps)
next
  case (Cons n ns)
  obtain t where t: "linked d A cur" "good_name n" "may_search d c cur" "dir_entry d cur n (Some t)" "S_ISDIR (imode (inode_at d t))"
      "dir_path d A c t ns p"
    using Cons.prems(1) by (auto simp: dir_path_simps)
  have few: "few_refs (Suc 2) base"
    using Cons.prems(5) by (simp add: numeral_3_eq_3)
  have A: "cur \<in> A" "t \<in> A"
    using t(1) dir_path_linked [OF t(6)] by (simp_all add: linked_def)
  obtain d1 where d1: "close_ok d curdir = Some d1" "quiet F Is A d (inc base cur) d1"
    using close_ok_spec [OF Cons.prems(2,4,3)] by blast
  have refs1: "refs_inv d1 F Is A" "refs_of d1 = inc base cur"
    using d1(2) by (simp_all add: quiet_def)
  note q1 = quiet_dir [OF d1(2)]
  have "\<not> S_ISLNK (imode (inode_at d1 t))"
    using t(5) mode_exclusive(2) q1(3) [OF A(2)] by simp
  then obtain d2 where d2: "namei_internal_single rec c n cur True level d1 = Some (t, Some (inode_info.truncate (inode_at d2 t)), cur, level, d2)"
      "quiet F Is A d1 (inc (inc base cur) t) d2"
    using single_found [OF refs1(1) A(1) _ q1(1) [OF A(1) t(4)] t(2) A(2), of c True rec level] t(3) q1(2) [OF A(1)] few_refs_less [OF few_refs_inc [OF few]] refs1(2)
    by auto
  have q2: "quiet F Is A d (inc (inc base t) cur) d2"
    using quiet_trans [OF d1(2) d2(2)] by (simp add: inc_commute)
  have refs2: "refs_inv d2 F Is A" "refs_of d2 = inc (inc base t) cur"
    using q2 by (simp_all add: quiet_def)
  have dir2: "S_ISDIR (imode (inode_at d2 t))"
    using t(5) quiet_dir(3) [OF q2 A(2)] by simp
  obtain d' curdir' where d': "namei_walk rec c deref (dirs_string ns @ rest) t cur level d2 = namei_walk rec c deref rest p curdir' level d'"
      "quiet F Is A d2 (inc (inc base p) curdir') d'" "linked d2 A curdir'"
    using Cons.IH [OF dir_path_quiet [OF t(6) q2] refs2 _ Cons.prems(5)] t(1) quiet_linked [OF q2] by blast
  have n: "n \<noteq> []" "SLASH \<notin> set n"
    using t(2) by (simp_all add: good_name_def)
  have "namei_walk rec c deref (dirs_string (n # ns) @ rest) cur curdir level d = namei_walk rec c deref (dirs_string ns @ rest) t cur level d2"
    using first_slash [OF n(2), of "dirs_string ns @ rest"] n(1) d1(1) d2(1) dir2 ino_nonneg [OF refs_inv_fs(1) [OF refs2(1)] A(2)]
    by (subst namei_walk.simps) (simp add: inode_info.truncate_def)
  then show ?case
    using d' quiet_trans [OF q2 d'(2)] quiet_linked [OF q2] by auto
qed

section \<open>The last component\<close>

text \<open>The state with which the walk comes to the last directory \<open>p\<close>.\<close>

definition at_dir :: "blockno set \<Rightarrow> ino list \<Rightarrow> ino set \<Rightarrow> (ino \<Rightarrow> nat) \<Rightarrow> ino \<Rightarrow> ino \<Rightarrow> 'x refs_env_scheme \<Rightarrow> bool" where
  "at_dir F Is A base p curdir d \<longleftrightarrow> refs_inv d F Is A \<and> refs_of d = inc (inc base p) curdir \<and> linked d A p \<and> linked d A curdir \<and> few_refs 3 base"

lemma last_step:
  fixes d :: "'x refs_env_scheme"
  assumes at: "at_dir F Is A base p curdir d" and name: "n \<noteq> []" "SLASH \<notin> set n"
  shows "\<exists>d1. namei_walk rec c deref n p curdir level d =
      do { (next, info, curdir, level, d) \<leftarrow> namei_internal_single rec c n p deref level d1;
           if sint next < 0 then Some (EOF, curdir, d) else Some (next, curdir, d) } \<and>
    namei_walk rec c deref (n @ SLASH # rest) p curdir level d =
      (case namei_internal_single rec c n p True level d1 of
         None \<Rightarrow> None
       | Some (next, info, curdir, level, d) \<Rightarrow>
           if sint next < 0 then do { d \<leftarrow> close_ok d curdir; Some (next, EOF, d) }
           else
             (case info of
                None \<Rightarrow> None
              | Some i \<Rightarrow>
                  if \<not> S_ISDIR (imode i) then do { d \<leftarrow> close_ok d curdir; Some (of_int (- ENOTDIR), EOF, d) }
                  else namei_walk rec c deref rest next curdir level d)) \<and>
    quiet F Is A d (inc base p) d1"
proof -
  obtain d1 where d1: "close_ok d curdir = Some d1" "quiet F Is A d (inc base p) d1"
    using close_ok_spec [of d F Is A curdir "inc base p"] at by (auto simp: at_dir_def)
  show ?thesis
    by (intro exI [of _ d1] conjI d1(2); subst namei_walk.simps; insert first_slash [OF name(2), of rest] no_slash [OF name(2)] name(1) d1(1))
      (simp_all split: option.splits)
qed

lemma at_dir_after:
  assumes "at_dir F Is A base p curdir d" and "quiet F Is A d (inc base p) d1"
  shows "refs_inv d1 F Is A" "refs_of d1 = inc base p" "p \<in> A" "linked d1 A p" "refs_of d1 t < 2 ^ 32 - 1"
proof -
  have "few_refs (Suc 2) base"
    using assms(1) by (simp add: at_dir_def numeral_3_eq_3)
  then have "inc base p t < 2 ^ 32 - 1"
    by (rule few_refs_less [OF few_refs_inc]) simp
  then show "refs_inv d1 F Is A" "refs_of d1 = inc base p" "p \<in> A" "linked d1 A p" "refs_of d1 t < 2 ^ 32 - 1"
    using assms quiet_linked [OF assms(2), of p]
    by (simp_all add: quiet_def at_dir_def linked_def)
qed

theorem walk_last_found:
  fixes d :: "'x refs_env_scheme"
  assumes at: "at_dir F Is A base p curdir d" and dir: "may_search d c p" "dir_entry d p n (Some t)" and name: "good_name n"
    and t: "t \<in> A" "\<not> (deref \<and> S_ISLNK (imode (inode_at d t)))"
  shows "\<exists>d'. namei_walk rec c deref n p curdir level d = Some (t, p, d') \<and> quiet F Is A d (inc (inc base t) p) d'"
proof -
  obtain d1 where d1: "namei_walk rec c deref n p curdir level d =
      do { (next, info, curdir, level, d) \<leftarrow> namei_internal_single rec c n p deref level d1;
           if sint next < 0 then Some (EOF, curdir, d) else Some (next, curdir, d) }" "quiet F Is A d (inc base p) d1"
    using last_step [OF at] name unfolding good_name_def by blast
  note after = at_dir_after [OF at d1(2)]
  have p: "p \<in> A"
    using after(3) .
  obtain d' where d': "namei_internal_single rec c n p deref level d1 = Some (t, Some (inode_info.truncate (inode_at d' t)), p, level, d')"
      "quiet F Is A d1 (inc (inc base p) t) d'"
    using single_found [OF after(1) p _ quiet_dir(1) [OF d1(2) p dir(2)] name t(1) after(5)] dir(1) t(2) quiet_dir(2) [OF d1(2) p] quiet_dir(3) [OF d1(2) t(1)] after(2)
    by metis
  have "0 \<le> sint t"
    using ino_nonneg [OF refs_inv_fs(1) [OF after(1)] t(1)] by simp
  then show ?thesis
    using d1(1) d'(1) quiet_trans [OF d1(2) d'(2)] by (simp add: inc_commute)
qed

theorem walk_last_absent:
  fixes d :: "'x refs_env_scheme"
  assumes at: "at_dir F Is A base p curdir d" and dir: "may_search d c p \<Longrightarrow> dir_entry d p n None" and name: "good_name n"
  shows "\<exists>d'. namei_walk rec c deref n p curdir level d = Some (EOF, p, d') \<and> quiet F Is A d (inc base p) d'"
proof -
  obtain d1 where d1: "namei_walk rec c deref n p curdir level d =
      do { (next, info, curdir, level, d) \<leftarrow> namei_internal_single rec c n p deref level d1;
           if sint next < 0 then Some (EOF, curdir, d) else Some (next, curdir, d) }" "quiet F Is A d (inc base p) d1"
    using last_step [OF at] name unfolding good_name_def by blast
  note after = at_dir_after [OF at d1(2)]
  show ?thesis
  proof (cases "may_search d c p")
    case True
    then obtain d' where d': "namei_internal_single rec c n p deref level d1 = Some (of_int (- ENOENT), None, p, level, d')"
        "quiet F Is A d1 (inc base p) d'"
      using single_absent [OF after(1,3) _ quiet_dir(1) [OF d1(2) after(3) dir] name] quiet_dir(2) [OF d1(2) after(3)] after(2) by metis
    then show ?thesis
      using d1 quiet_trans [OF d1(2) d'(2)] by simp
  next
    case False
    then show ?thesis
      using d1 single_denied [OF after(1,3)] quiet_dir(2) [OF d1(2) after(3)] by simp
  qed
qed

text \<open>A directory on the way that is missing, or lies in one that may not be searched.\<close>

theorem walk_missing_dir:
  fixes d :: "'x refs_env_scheme"
  assumes at: "at_dir F Is A base p curdir d" and dir: "may_search d c p \<Longrightarrow> dir_entry d p n None" and name: "good_name n"
  shows "\<exists>d'. namei_walk rec c deref (n @ SLASH # rest) p curdir level d =
      Some (of_int (if may_search d c p then - ENOENT else - EACCES), EOF, d') \<and> quiet F Is A d base d'"
proof -
  obtain d1 where d1: "namei_walk rec c deref (n @ SLASH # rest) p curdir level d =
      (case namei_internal_single rec c n p True level d1 of
         None \<Rightarrow> None
       | Some (next, info, curdir, level, d) \<Rightarrow>
           if sint next < 0 then do { d \<leftarrow> close_ok d curdir; Some (next, EOF, d) }
           else
             (case info of
                None \<Rightarrow> None
              | Some i \<Rightarrow>
                  if \<not> S_ISDIR (imode i) then do { d \<leftarrow> close_ok d curdir; Some (of_int (- ENOTDIR), EOF, d) }
                  else namei_walk rec c deref rest next curdir level d))" "quiet F Is A d (inc base p) d1"
    using last_step [OF at] name unfolding good_name_def by blast
  note after = at_dir_after [OF at d1(2)]
  define e where "e = (if may_search d c p then - ENOENT else - EACCES)"
  have "\<exists>d2. namei_internal_single rec c n p True level d1 = Some (of_int e, None, p, level, d2) \<and> quiet F Is A d1 (inc base p) d2"
  proof (cases "may_search d c p")
    case True
    then show ?thesis
      using single_absent [OF after(1,3) _ quiet_dir(1) [OF d1(2) after(3) dir] name] quiet_dir(2) [OF d1(2) after(3)] after(2)
      by (simp add: e_def)
  next
    case False
    then show ?thesis
      using single_denied [OF after(1,3)] quiet_dir(2) [OF d1(2) after(3)] quiet_refl [OF after(1)] after(2) by (simp add: e_def)
  qed
  then obtain d2 where d2: "namei_internal_single rec c n p True level d1 = Some (of_int e, None, p, level, d2)" "quiet F Is A d1 (inc base p) d2"
    by blast
  obtain d3 where d3: "close_ok d2 p = Some d3" "quiet F Is A d2 base d3"
    using close_ok_spec [of d2 F Is A p base] d2(2) after(4) quiet_linked [OF d2(2)] by (auto simp: quiet_def)
  have "sint (of_int e :: ino) < 0"
    by (simp add: e_def)
  then show ?thesis
    using d1(1) d2(1) d3(1) quiet_trans [OF quiet_trans [OF d1(2) d2(2)] d3(2)] by (simp add: e_def [symmetric])
qed

section \<open>Paths from the root\<close>

lemma namei_start:
  fixes d :: "'x refs_env_scheme"
  assumes inv: "refs_inv d F Is A" and root: "linked d A 0" and few: "few_refs 4 (refs_of d)" and cd: "cd = None \<or> cd = Some EOF"
  shows "\<exists>d1. at_dir F Is A (inc (refs_of d) 0) 0 0 d1 \<and> quiet F Is A d (inc (inc (inc (refs_of d) 0) 0) 0) d1 \<and>
    namei d (SLASH # path) cd EOF deref user grp =
      do { (result, dir, d) \<leftarrow> namei_walk (namei_rec 9 \<lparr>cr_user = user, cr_group = grp, cr_root = 0\<rparr> True)
             \<lparr>cr_user = user, cr_group = grp, cr_root = 0\<rparr> deref path 0 0 0 d1;
           d \<leftarrow> close_ok d 0;
           d \<leftarrow> (if cd = None then close_ok d dir else Some d);
           Some (result, dir, d) }"
proof -
  let ?f = "refs_of d" and ?c = "\<lparr>cr_user = user, cr_group = grp, cr_root = 0\<rparr>"
  note open1 = open_ok_spec [of _ F Is A 0] and close1 = close_ok_spec [of _ F Is A 0]
  have A: "0 \<in> A"
    using root by (simp add: linked_def)
  have few': "few_refs 3 (inc ?f 0)" "few_refs 2 (inc (inc ?f 0) 0)" "few_refs 1 (inc (inc (inc ?f 0) 0) 0)"
    using few by (simp_all add: few_refs_inc numeral_eq_Suc)
  obtain d1 where d1: "open_ok d 0 = Some d1" "quiet F Is A d (inc ?f 0) d1"
    using open1 [OF inv A few_refs_less [OF few]] by auto
  obtain d2 where d2: "open_ok d1 0 = Some d2" "quiet F Is A d1 (inc (inc ?f 0) 0) d2"
    using open1 [OF _ A, of d1] few_refs_less [OF few'(1), of 0] d1(2) by (auto simp: quiet_def)
  obtain d3 where d3: "refs_open d2 0 = Some (0, d3)" "quiet F Is A d2 (inc (inc (inc ?f 0) 0) 0) d3"
    using open1 [OF _ A, of d2] few_refs_less [OF few'(2), of 0] d2(2) by (auto simp: quiet_def open_ok_def split: bind_splits if_splits)
  obtain d4 where d4: "close_ok d3 0 = Some d4" "quiet F Is A d3 (inc (inc ?f 0) 0) d4"
    using close1 [of d3 "inc (inc ?f 0) 0"] d3(2) root quiet_linked [OF quiet_trans [OF quiet_trans [OF d1(2) d2(2)] d3(2)]]
    by (auto simp: quiet_def)
  note q4 = quiet_trans [OF quiet_trans [OF quiet_trans [OF d1(2) d2(2)] d3(2)] d4(2)]
  obtain d5 where d5: "close_ok d4 0 = Some d5" "quiet F Is A d4 (inc ?f 0) d5"
    using close1 [of d4 "inc ?f 0"] d4(2) root quiet_linked [OF q4] by (auto simp: quiet_def)
  obtain d6 where d6: "open_ok d5 0 = Some d6" "quiet F Is A d5 (inc (inc ?f 0) 0) d6"
    using open1 [OF _ A, of d5] few_refs_less [OF few'(1), of 0] d5(2) by (auto simp: quiet_def)
  obtain d7 where d7: "open_ok d6 0 = Some d7" "quiet F Is A d6 (inc (inc (inc ?f 0) 0) 0) d7"
    using open1 [OF _ A, of d6] few_refs_less [OF few'(2), of 0] d6(2) by (auto simp: quiet_def)
  have q7: "quiet F Is A d (inc (inc (inc ?f 0) 0) 0) d7"
    by (rule quiet_trans [OF quiet_trans [OF quiet_trans [OF q4 d5(2)] d6(2)] d7(2)])
  have "at_dir F Is A (inc ?f 0) 0 0 d7"
    using q7 root quiet_linked [OF q7] few'(1) by (simp add: at_dir_def quiet_def)
  moreover have "namei_rec (Suc 9) ?c deref (SLASH # path) 0 0 d2 = namei_walk (namei_rec 9 ?c True) ?c deref path 0 0 0 d7"
    unfolding namei_rec.simps using d3(1) d4(1) d5(1) d6(1) d7(1) by simp
  then have "namei d (SLASH # path) cd EOF deref user grp =
      do { (result, dir, d) \<leftarrow> namei_walk (namei_rec 9 \<lparr>cr_user = user, cr_group = grp, cr_root = 0\<rparr> True)
             \<lparr>cr_user = user, cr_group = grp, cr_root = 0\<rparr> deref path 0 0 0 d7;
           d \<leftarrow> close_ok d 0;
           d \<leftarrow> (if cd = None then close_ok d dir else Some d);
           Some (result, dir, d) }"
    using cd d1(1) d2(1) unfolding namei_def by (auto simp: Let_def)
  ultimately show ?thesis
    using q7 by blast
qed

text \<open>The caller as \<open>namei\<close> is called by every operation, with inode 0 as the root.\<close>

abbreviation caller :: "u32 \<Rightarrow> u32 \<Rightarrow> cred" where
  "caller user grp \<equiv> \<lparr>cr_user = user, cr_group = grp, cr_root = 0\<rparr>"

definition resolvable :: "blockno set \<Rightarrow> ino list \<Rightarrow> ino set \<Rightarrow> 'x refs_env_scheme \<Rightarrow> cred \<Rightarrow> byte list list \<Rightarrow> ino \<Rightarrow> bool" where
  "resolvable F Is A d c ns p \<longleftrightarrow> refs_inv d F Is A \<and> few_refs 4 (refs_of d) \<and> linked d A 0 \<and> dir_path d A c 0 ns p"

lemma namei_to_dir:
  fixes d :: "'x refs_env_scheme"
  assumes res: "resolvable F Is A d (caller user grp) ns p" and cd: "cd = None \<or> cd = Some EOF"
  shows "\<exists>d1 curdir. at_dir F Is A (inc (refs_of d) 0) p curdir d1 \<and> quiet F Is A d (inc (inc (inc (refs_of d) 0) p) curdir) d1 \<and>
    namei d (SLASH # dirs_string ns @ rest) cd EOF deref user grp =
      do { (result, dir, d) \<leftarrow> namei_walk (namei_rec 9 (caller user grp) True) (caller user grp) deref rest p curdir 0 d1;
           d \<leftarrow> close_ok d 0;
           d \<leftarrow> (if cd = None then close_ok d dir else Some d);
           Some (result, dir, d) }"
proof -
  note r = res [unfolded resolvable_def]
  obtain d1 where d1: "at_dir F Is A (inc (refs_of d) 0) 0 0 d1" "quiet F Is A d (inc (inc (inc (refs_of d) 0) 0) 0) d1"
    "namei d (SLASH # dirs_string ns @ rest) cd EOF deref user grp =
      do { (result, dir, d) \<leftarrow> namei_walk (namei_rec 9 (caller user grp) True) (caller user grp) deref (dirs_string ns @ rest) 0 0 0 d1;
           d \<leftarrow> close_ok d 0;
           d \<leftarrow> (if cd = None then close_ok d dir else Some d);
           Some (result, dir, d) }"
    using namei_start [of d F Is A cd "dirs_string ns @ rest" deref user grp] r cd by blast
  have path: "dir_path d1 A (caller user grp) 0 ns p"
    using dir_path_quiet [OF _ d1(2)] r by blast
  obtain d2 curdir where d2: "namei_walk (namei_rec 9 (caller user grp) True) (caller user grp) deref (dirs_string ns @ rest) 0 0 0 d1 =
        namei_walk (namei_rec 9 (caller user grp) True) (caller user grp) deref rest p curdir 0 d2"
      "quiet F Is A d1 (inc (inc (inc (refs_of d) 0) p) curdir) d2" "linked d1 A curdir"
    using namei_walk_dirs [OF path, of F Is "inc (refs_of d) 0" 0] d1(1) unfolding at_dir_def by blast
  have "at_dir F Is A (inc (refs_of d) 0) p curdir d2"
    using d1(1) d2(2,3) quiet_linked [OF d2(2)] dir_path_linked [OF path] by (simp add: at_dir_def quiet_def)
  then show ?thesis
    using d1(3) d2(1) quiet_trans [OF d1(2) d2(2)] by auto
qed

lemma resolvable_linked: "resolvable F Is A d c ns p \<Longrightarrow> linked d A 0" "resolvable F Is A d c ns p \<Longrightarrow> linked d A p"
  unfolding resolvable_def using dir_path_linked [of d A c 0 ns p] by blast+

lemma close_root:
  assumes "quiet F Is A d (inc g 0) d1" and "linked d A 0"
  shows "\<exists>d2. close_ok d1 0 = Some d2 \<and> quiet F Is A d g d2"
proof -
  obtain d2 where "close_ok d1 0 = Some d2" "quiet F Is A d1 g d2"
    using close_ok_spec [of d1 F Is A 0 g] assms quiet_linked [OF assms(1)] by (auto simp: quiet_def)
  then show ?thesis
    using quiet_trans [OF assms(1)] by blast
qed

theorem namei_found:
  fixes d :: "'x refs_env_scheme"
  assumes res: "resolvable F Is A d (caller user grp) ns p" and cd: "cd = None \<or> cd = Some EOF"
    and dir: "may_search d (caller user grp) p" "dir_entry d p n (Some t)" and name: "good_name n"
    and t: "t \<in> A" "\<not> (deref \<and> S_ISLNK (imode (inode_at d t)))"
  shows "\<exists>d'. namei d (SLASH # dirs_string ns @ n) cd EOF deref user grp = Some (t, p, d') \<and>
    quiet F Is A d (if cd = None then inc (refs_of d) t else inc (inc (refs_of d) t) p) d'"
proof -
  note root = resolvable_linked [OF res]
  then have p: "p \<in> A"
    by (simp add: linked_def)
  obtain d1 curdir where d1: "at_dir F Is A (inc (refs_of d) 0) p curdir d1" "quiet F Is A d (inc (inc (inc (refs_of d) 0) p) curdir) d1"
    "namei d (SLASH # dirs_string ns @ n) cd EOF deref user grp =
      do { (result, dir, d) \<leftarrow> namei_walk (namei_rec 9 (caller user grp) True) (caller user grp) deref n p curdir 0 d1;
           d \<leftarrow> close_ok d 0;
           d \<leftarrow> (if cd = None then close_ok d dir else Some d);
           Some (result, dir, d) }"
    using namei_to_dir [OF res cd] by blast
  note q1 = quiet_dir [OF d1(2)]
  obtain d2 where d2: "namei_walk (namei_rec 9 (caller user grp) True) (caller user grp) deref n p curdir 0 d1 = Some (t, p, d2)"
      "quiet F Is A d1 (inc (inc (inc (refs_of d) 0) t) p) d2"
    using walk_last_found [OF d1(1) _ q1(1) [OF p dir(2)] name t(1)] dir(1) t(2) q1(2) [OF p] q1(3) [OF t(1)] by metis
  have "quiet F Is A d (inc (inc (inc (refs_of d) t) p) 0) d2"
    using quiet_trans [OF d1(2) d2(2)] by (metis inc_commute)
  then obtain d3 where d3: "close_ok d2 0 = Some d3" "quiet F Is A d (inc (inc (refs_of d) t) p) d3"
    using close_root root(1) by blast
  obtain d4 where d4: "close_ok d3 p = Some d4" "quiet F Is A d3 (inc (refs_of d) t) d4"
    using close_ok_spec [of d3 F Is A p "inc (refs_of d) t"] d3(2) root(2) quiet_linked [OF d3(2)] by (auto simp: quiet_def)
  show ?thesis
    using d1(3) d2(1) d3 d4(1) quiet_trans [OF d3(2) d4(2)] by auto
qed

theorem namei_absent:
  fixes d :: "'x refs_env_scheme"
  assumes res: "resolvable F Is A d (caller user grp) ns p" and cd: "cd = None \<or> cd = Some EOF"
    and dir: "may_search d (caller user grp) p \<Longrightarrow> dir_entry d p n None" and name: "good_name n"
  shows "\<exists>d'. namei d (SLASH # dirs_string ns @ n) cd EOF deref user grp = Some (EOF, p, d') \<and>
    quiet F Is A d (if cd = None then refs_of d else inc (refs_of d) p) d'"
proof -
  note root = resolvable_linked [OF res]
  then have p: "p \<in> A"
    by (simp add: linked_def)
  obtain d1 curdir where d1: "at_dir F Is A (inc (refs_of d) 0) p curdir d1" "quiet F Is A d (inc (inc (inc (refs_of d) 0) p) curdir) d1"
    "namei d (SLASH # dirs_string ns @ n) cd EOF deref user grp =
      do { (result, dir, d) \<leftarrow> namei_walk (namei_rec 9 (caller user grp) True) (caller user grp) deref n p curdir 0 d1;
           d \<leftarrow> close_ok d 0;
           d \<leftarrow> (if cd = None then close_ok d dir else Some d);
           Some (result, dir, d) }"
    using namei_to_dir [OF res cd] by blast
  note q1 = quiet_dir [OF d1(2)]
  obtain d2 where d2: "namei_walk (namei_rec 9 (caller user grp) True) (caller user grp) deref n p curdir 0 d1 = Some (EOF, p, d2)"
      "quiet F Is A d1 (inc (inc (refs_of d) 0) p) d2"
    using walk_last_absent [OF d1(1) _ name] dir q1(2) [OF p] q1(1) [OF p] by metis
  have "quiet F Is A d (inc (inc (refs_of d) p) 0) d2"
    using quiet_trans [OF d1(2) d2(2)] by (metis inc_commute)
  then obtain d3 where d3: "close_ok d2 0 = Some d3" "quiet F Is A d (inc (refs_of d) p) d3"
    using close_root root(1) by blast
  obtain d4 where d4: "close_ok d3 p = Some d4" "quiet F Is A d3 (refs_of d) d4"
    using close_ok_spec [of d3 F Is A p "refs_of d"] d3(2) root(2) quiet_linked [OF d3(2)] by (auto simp: quiet_def)
  show ?thesis
    using d1(3) d2(1) d3 d4(1) quiet_trans [OF d3(2) d4(2)] by auto
qed

lemma close_ok_closed:
  assumes "refs_inv d F Is A" and "i \<notin> A"
  shows "close_ok d i = None"
proof -
  have "find_node d i = None"
    using assms by (cases "find_node d i") (auto simp: refs_inv_def)
  then show ?thesis
    by (simp add: close_ok_def refs_close_eq)
qed

text \<open>
  With a missing directory on the way \<open>namei\<close> gives up the current directory and puts
  \<open>INO_EOF\<close> in its place.  A caller that wants no directory back has \<open>namei\<close> close it, and
  that close fails the assertion on it.
\<close>

theorem namei_missing_dir:
  fixes d :: "'x refs_env_scheme"
  assumes res: "resolvable F Is A d (caller user grp) ns p"
    and dir: "may_search d (caller user grp) p \<Longrightarrow> dir_entry d p n None" and name: "good_name n"
  shows "\<exists>d'. namei d (SLASH # dirs_string ns @ n @ SLASH # rest) (Some EOF) EOF deref user grp =
      Some (of_int (if may_search d (caller user grp) p then - ENOENT else - EACCES), EOF, d') \<and> quiet F Is A d (refs_of d) d'" (is ?given)
    and "namei d (SLASH # dirs_string ns @ n @ SLASH # rest) None EOF deref user grp = None" (is ?own)
proof -
  note root = resolvable_linked [OF res]
  have p: "p \<in> A"
    using root(2) by (simp add: linked_def)
  define e :: ino where "e = of_int (if may_search d (caller user grp) p then - ENOENT else - EACCES)"
  have given: "\<exists>d'. quiet F Is A d (refs_of d) d' \<and> namei d (SLASH # dirs_string ns @ n @ SLASH # rest) cd EOF deref user grp =
      do { d \<leftarrow> (if cd = None then close_ok d' EOF else Some d'); Some (e, EOF, d) }" if cd: "cd = None \<or> cd = Some EOF" for cd
  proof -
    obtain d1 curdir where d1: "at_dir F Is A (inc (refs_of d) 0) p curdir d1" "quiet F Is A d (inc (inc (inc (refs_of d) 0) p) curdir) d1"
      "namei d (SLASH # dirs_string ns @ n @ SLASH # rest) cd EOF deref user grp =
        do { (result, dir, d) \<leftarrow> namei_walk (namei_rec 9 (caller user grp) True) (caller user grp) deref (n @ SLASH # rest) p curdir 0 d1;
             d \<leftarrow> close_ok d 0;
             d \<leftarrow> (if cd = None then close_ok d dir else Some d);
             Some (result, dir, d) }"
      using namei_to_dir [OF res cd] by blast
    note q1 = quiet_dir [OF d1(2) p]
    have dir1: "may_search d1 (caller user grp) p \<Longrightarrow> dir_entry d1 p n None"
      using dir q1(1,2) by blast
    obtain d2 where d2: "namei_walk (namei_rec 9 (caller user grp) True) (caller user grp) deref (n @ SLASH # rest) p curdir 0 d1 = Some (e, EOF, d2)"
        "quiet F Is A d1 (inc (refs_of d) 0) d2"
      using walk_missing_dir [OF d1(1) dir1 name] q1(2) unfolding e_def by simp blast
    obtain d3 where d3: "close_ok d2 0 = Some d3" "quiet F Is A d (refs_of d) d3"
      using close_root [OF quiet_trans [OF d1(2) d2(2)] root(1)] by blast
    show ?thesis
      using d1(3) d2(1) d3 by auto
  qed
  show ?given
    using given [of "Some EOF"] unfolding e_def by auto
  obtain d' where d': "quiet F Is A d (refs_of d) d'" "namei d (SLASH # dirs_string ns @ n @ SLASH # rest) None EOF deref user grp =
      do { d \<leftarrow> close_ok d' EOF; Some (e, EOF, d) }"
    using given [of None] by auto
  have "EOF \<notin> A"
    using ino_nonneg [of d F Is A EOF] res refs_inv_fs(1) by (auto simp: resolvable_def)
  then show ?own
    using d' close_ok_closed [of d' F Is A EOF] by (simp add: quiet_def)
qed

section \<open>Resolving a path\<close>

theorem path_resolve_found:
  fixes d :: "'x path_env_scheme"
  assumes "resolvable F Is A d (caller user grp) ns p" and "may_search d (caller user grp) p" and "dir_entry d p n (Some t)"
    and "good_name n" and "t \<in> A" and "\<not> (deref \<and> S_ISLNK (imode (inode_at d t)))"
  shows "\<exists>d'. path_resolve d (SLASH # dirs_string ns @ n) deref user grp = Some (t, d') \<and> quiet F Is A d (inc (refs_of d) t) d'"
proof -
  have "t \<noteq> EOF"
    using assms(1,5) ino_nonneg [OF refs_inv_fs(1)] unfolding resolvable_def by blast
  then show ?thesis
    using namei_found [OF assms(1) _ assms(2-6), of None] by (auto simp: path_resolve_def)
qed

theorem path_resolve_absent:
  fixes d :: "'x path_env_scheme"
  assumes "resolvable F Is A d (caller user grp) ns p" and "may_search d (caller user grp) p \<Longrightarrow> dir_entry d p n None" and "good_name n"
  shows "\<exists>d'. path_resolve d (SLASH # dirs_string ns @ n) deref user grp = Some (of_int (- ENOENT), d') \<and> quiet F Is A d (refs_of d) d'"
proof -
  obtain d' where "namei d (SLASH # dirs_string ns @ n) None EOF deref user grp = Some (EOF, p, d')" "quiet F Is A d (refs_of d) d'"
    using namei_absent [OF assms(1) _ assms(2,3), of None] by auto
  then show ?thesis
    by (simp add: path_resolve_def)
qed

theorem path_resolve_aborts:
  fixes d :: "'x path_env_scheme"
  assumes "resolvable F Is A d (caller user grp) ns p" and "may_search d (caller user grp) p \<Longrightarrow> dir_entry d p n None" and "good_name n"
  shows "path_resolve d (SLASH # dirs_string ns @ n @ SLASH # rest) deref user grp = None"
  using namei_missing_dir(2) [OF assms] by (simp add: path_resolve_def)

end
