(* ===== verification/Namespace.thy ===== *)
theory Namespace
  imports Path_Walk
begin

text \<open>
  The file system as its users see it: inodes are directories, which map names to inodes, files
  and symbolic links, which are strings of bytes, each with an owner, a group, permissions and a
  number of links.  The operations on names keep the tree well-formed, with the number of links
  of every inode the number of its names.
\<close>

section \<open>States\<close>

record fattr =
  a_perm :: u32
  a_owner :: u32
  a_group :: u32
  a_links :: u64

text \<open>\<open>Gone\<close> is a directory that was removed and is still open.\<close>

datatype node = Dir "byte list \<Rightarrow> ino option" | File "byte list" | Link "byte list" | Gone

type_synonym namespace = "ino \<Rightarrow> (fattr \<times> node) option"

definition dir_of :: "namespace \<Rightarrow> ino \<Rightarrow> (byte list \<Rightarrow> ino option) option" where
  "dir_of G p = (case G p of Some (a, Dir m) \<Rightarrow> Some m | _ \<Rightarrow> None)"

definition links_of :: "namespace \<Rightarrow> ino \<Rightarrow> nat" where
  "links_of G t = (case G t of Some (a, _) \<Rightarrow> unat (a_links a) | None \<Rightarrow> 0)"

definition dots :: "byte list set" where
  "dots = {[DOT], [DOT, DOT]}"

text \<open>The bits of \<open>perms\<close> for the caller's class, as in \<open>perm_check\<close>.\<close>

definition may :: "fattr \<Rightarrow> u32 \<Rightarrow> u32 \<Rightarrow> u32 \<Rightarrow> bool" where
  "may a perms user grp \<longleftrightarrow> user = 0 \<or>
     (\<forall>k < 3. bit perms k \<longrightarrow> bit (a_perm a) ((if user = a_owner a then 6 else if grp = a_group a then 3 else 0) + k))"

text \<open>Following a path of directories.\<close>

fun walk :: "namespace \<Rightarrow> u32 \<Rightarrow> u32 \<Rightarrow> ino \<Rightarrow> byte list list \<Rightarrow> ino option" where
  "walk G user grp p [] = (case G p of Some (a, Dir m) \<Rightarrow> Some p | _ \<Rightarrow> None)"
| "walk G user grp p (n # ns) =
    (case G p of
       Some (a, Dir m) \<Rightarrow>
         if may a PERM_EXEC user grp \<and> good_name n then
           (case m n of None \<Rightarrow> None | Some t \<Rightarrow> walk G user grp t ns)
         else None
     | _ \<Rightarrow> None)"

section \<open>Operations\<close>

definition fresh_attr_of :: "u32 \<Rightarrow> u32 \<Rightarrow> u32 \<Rightarrow> fattr" where
  "fresh_attr_of perm user grp = \<lparr>a_perm = perm, a_owner = user, a_group = grp, a_links = 1\<rparr>"

definition relink :: "(u64 \<Rightarrow> u64) \<Rightarrow> fattr \<Rightarrow> fattr" where
  "relink f a = a\<lparr>a_links := f (a_links a)\<rparr>"

text \<open>A new inode under the name \<open>n\<close> in directory \<open>p\<close>.\<close>

definition ns_new :: "ino \<Rightarrow> byte list \<Rightarrow> ino \<Rightarrow> fattr \<Rightarrow> node \<Rightarrow> namespace \<Rightarrow> namespace" where
  "ns_new p n i a x G = (case G p of
      Some (b, Dir m) \<Rightarrow> G(p \<mapsto> (b, Dir (m(n \<mapsto> i))), i \<mapsto> (a, x))
    | _ \<Rightarrow> G)"

definition ns_mkdir :: "ino \<Rightarrow> byte list \<Rightarrow> ino \<Rightarrow> u32 \<Rightarrow> u32 \<Rightarrow> u32 \<Rightarrow> namespace \<Rightarrow> namespace" where
  "ns_mkdir p n i mode user grp = ns_new p n i (fresh_attr_of mode user grp) (Dir [[DOT, DOT] \<mapsto> p, [DOT] \<mapsto> i])"

definition ns_create :: "ino \<Rightarrow> byte list \<Rightarrow> ino \<Rightarrow> u32 \<Rightarrow> u32 \<Rightarrow> u32 \<Rightarrow> namespace \<Rightarrow> namespace" where
  "ns_create p n i mode user grp = ns_new p n i (fresh_attr_of mode user grp) (File [])"

text \<open>One more name for an inode.\<close>

definition ns_link :: "ino \<Rightarrow> byte list \<Rightarrow> ino \<Rightarrow> namespace \<Rightarrow> namespace" where
  "ns_link p n t G = (case (G p, G t) of
      (Some (b, Dir m), Some (a, x)) \<Rightarrow> G(p \<mapsto> (b, Dir (m(n \<mapsto> t))), t \<mapsto> (relink (\<lambda>k. k + 1) a, x))
    | _ \<Rightarrow> G)"

text \<open>
  The name \<open>n\<close> goes, and with it its inode if that was the last name and \<open>t\<close> is not \<open>held\<close> open;
  \<open>f\<close> is what becomes of it otherwise.
\<close>

definition ns_remove :: "ino \<Rightarrow> byte list \<Rightarrow> bool \<Rightarrow> (node \<Rightarrow> node) \<Rightarrow> namespace \<Rightarrow> namespace" where
  "ns_remove p n held f G = (case G p of
      Some (b, Dir m) \<Rightarrow>
        (case m n of
           None \<Rightarrow> G
         | Some t \<Rightarrow>
             (case G t of
                None \<Rightarrow> G
              | Some (a, x) \<Rightarrow>
                  G(p \<mapsto> (b, Dir (m(n := None))),
                    t := (if a_links a = 1 \<and> \<not> held then None else Some (relink (\<lambda>k. k - 1) a, f x)))))
    | _ \<Rightarrow> G)"

definition ns_unlink :: "ino \<Rightarrow> byte list \<Rightarrow> bool \<Rightarrow> namespace \<Rightarrow> namespace" where
  "ns_unlink p n held = ns_remove p n held (\<lambda>x. x)"

definition ns_rmdir :: "ino \<Rightarrow> byte list \<Rightarrow> bool \<Rightarrow> namespace \<Rightarrow> namespace" where
  "ns_rmdir p n held = ns_remove p n held (\<lambda>_. Gone)"

section \<open>The names of an inode\<close>

definition names_in :: "(ino \<Rightarrow> (byte list \<Rightarrow> ino option) option) \<Rightarrow> ino \<Rightarrow> (ino \<times> byte list) set" where
  "names_in D t = {(p, n). \<exists>m. D p = Some m \<and> m n = Some t \<and> n \<notin> dots}"

definition finite_dirs :: "(ino \<Rightarrow> (byte list \<Rightarrow> ino option) option) \<Rightarrow> bool" where
  "finite_dirs D \<longleftrightarrow> (\<forall>p m. D p = Some m \<longrightarrow> finite (dom m))"

lemma finite_dirs_upd: "finite_dirs D \<Longrightarrow> finite (dom m) \<Longrightarrow> finite_dirs (D(p \<mapsto> m))" "finite_dirs D \<Longrightarrow> finite_dirs (D(p := None))"
  by (simp_all add: finite_dirs_def)

lemma finite_dirs_dom: "finite_dirs D \<Longrightarrow> D p = Some m \<Longrightarrow> finite (dom m)"
  by (simp add: finite_dirs_def)

lemma finite_names:
  assumes "finite_dirs D"
  shows "finite (names_in D t)"
proof (rule finite_subset)
  show "names_in D t \<subseteq> (\<Union>p. Pair p ` (case D p of None \<Rightarrow> {} | Some m \<Rightarrow> dom m))"
    by (force simp: names_in_def)
  show "finite (\<Union>p. Pair p ` (case D p of None \<Rightarrow> {} | Some m \<Rightarrow> dom m))"
    using assms by (auto simp: finite_dirs_def split: option.split)
qed

lemma names_put:
  assumes "D p = Some m" and "m n = None" and "n \<notin> dots"
  shows "names_in (D(p \<mapsto> m(n \<mapsto> t))) t' = (if t' = t then insert (p, n) (names_in D t') else names_in D t')" "(p, n) \<notin> names_in D t'"
  using assms by (auto simp: names_in_def split: if_splits)

lemma card_names_put:
  assumes "finite_dirs D" and "D p = Some m" and "m n = None" and "n \<notin> dots"
  shows "card (names_in (D(p \<mapsto> m(n \<mapsto> t))) t') = card (names_in D t') + (if t' = t then 1 else 0)"
  using names_put(1) [where D = D and p = p and m = m and n = n and t = t and t' = t'] names_put(2) [where D = D and p = p and m = m and n = n and t' = t'] assms finite_names [OF assms(1)] by (cases "t' = t") simp_all

lemma card_names_del:
  assumes "finite_dirs D" and "D p = Some m" and "m n = Some t" and "n \<notin> dots"
  shows "card (names_in D t') = card (names_in (D(p \<mapsto> m(n := None))) t') + (if t' = t then 1 else 0)"
proof -
  let ?D = "D(p \<mapsto> m(n := None))"
  have "finite_dirs ?D"
    using assms(1,2) by (auto simp: finite_dirs_def)
  moreover have "?D(p \<mapsto> (m(n := None))(n \<mapsto> t)) = D"
    using assms(2,3) by (auto simp: fun_eq_iff)
  ultimately show ?thesis
    using card_names_put [of ?D p "m(n := None)" n t t'] assms(4) by simp
qed

lemma names_only_dots:
  assumes "dom m \<subseteq> dots" and "D i = None \<or> D i = Some m"
  shows "names_in (D(i \<mapsto> m)) t = names_in D t" "names_in (D(i := None)) t = names_in D t"
proof -
  have "m n \<noteq> Some t" if "n \<notin> dots" for n
    using assms(1) that by blast
  then show "names_in (D(i \<mapsto> m)) t = names_in D t" "names_in (D(i := None)) t = names_in D t"
    using assms(2) by (auto simp: names_in_def split: if_splits)
qed

section \<open>Well-formed file systems\<close>

definition is_dir :: "namespace \<Rightarrow> ino \<Rightarrow> bool" where
  "is_dir G p \<longleftrightarrow> dir_of G p \<noteq> None"

text \<open>
  The root is its own parent; a directory has one name, in its parent, and the entries \<open>.\<close> and
  \<open>..\<close>; names lead to inodes; the number of links is the number of names.
\<close>

definition root_wf :: "namespace \<Rightarrow> bool" where
  "root_wf G \<longleftrightarrow> (\<exists>m. dir_of G 0 = Some m \<and> m [DOT, DOT] = Some 0)"

definition dirs_wf :: "namespace \<Rightarrow> bool" where
  "dirs_wf G \<longleftrightarrow> finite_dirs (dir_of G) \<and>
     (\<forall>p m. dir_of G p = Some m \<longrightarrow> links_of G p = 1 \<and> m [DOT] = Some p \<and> (\<exists>q. m [DOT, DOT] = Some q \<and> is_dir G q))"

definition names_wf :: "namespace \<Rightarrow> bool" where
  "names_wf G \<longleftrightarrow> (\<forall>t p n. (p, n) \<in> names_in (dir_of G) t \<longrightarrow> t \<in> dom G \<and> (\<forall>m. dir_of G t = Some m \<longrightarrow> m [DOT, DOT] = Some p))"

definition links_wf :: "namespace \<Rightarrow> bool" where
  "links_wf G \<longleftrightarrow> (\<forall>t \<in> dom G. links_of G t = card (names_in (dir_of G) t) + (if t = 0 then 1 else 0))"

definition namespace_wf :: "namespace \<Rightarrow> bool" where
  "namespace_wf G \<longleftrightarrow> root_wf G \<and> dirs_wf G \<and> names_wf G \<and> links_wf G"

lemma dir_of_eq: "dir_of G p = Some m \<longleftrightarrow> (\<exists>a. G p = Some (a, Dir m))"
  by (auto simp: dir_of_def split: option.split node.split)

lemma dir_of_upd [simp]: "dir_of (G(p := None)) = (dir_of G)(p := None)"
    "dir_of (G(p \<mapsto> (a, Dir m))) = (dir_of G)(p \<mapsto> m)" "dir_of (G(p \<mapsto> (a, File bs))) = (dir_of G)(p := None)"
    "dir_of (G(p \<mapsto> (a, Link bs))) = (dir_of G)(p := None)" "dir_of (G(p \<mapsto> (a, Gone))) = (dir_of G)(p := None)"
  by (auto simp: dir_of_def fun_eq_iff)

lemma dir_of_other: "\<forall>k. x \<noteq> Dir k \<Longrightarrow> dir_of (G(t \<mapsto> (a, x))) = (dir_of G)(t := None)"
  by (cases x) simp_all

lemma links_of_upd [simp]: "links_of (G(p := None)) = (links_of G)(p := 0)"
    "links_of (G(p \<mapsto> (a, x))) = (links_of G)(p := unat (a_links a))"
  by (auto simp: links_of_def fun_eq_iff)

text \<open>Every entry leads to an inode with a name.\<close>

lemma entry_target:
  assumes wf: "namespace_wf G" and entry: "dir_of G p = Some m" "m n = Some t"
  shows "t \<in> dom G" "0 < links_of G t"
proof -
  have dirs: "finite_dirs (dir_of G)" "\<And>q k. dir_of G q = Some k \<Longrightarrow> links_of G q = 1 \<and> k [DOT] = Some q \<and> (\<exists>r. k [DOT, DOT] = Some r \<and> is_dir G r)"
    using wf by (simp_all add: namespace_wf_def dirs_wf_def)
  have live: "q \<in> dom G \<and> 0 < links_of G q" if "is_dir G q" for q
    using that dirs(2) [of q] by (auto simp: is_dir_def dir_of_eq)
  have "t \<in> dom G \<and> 0 < links_of G t"
  proof (cases "n \<in> dots")
    case True
    then have "is_dir G t"
      using dirs(2) [OF entry(1)] entry by (auto simp: dots_def is_dir_def)
    then show ?thesis
      by (rule live)
  next
    case False
    then have "(p, n) \<in> names_in (dir_of G) t"
      using entry by (simp add: names_in_def)
    moreover from this have "t \<in> dom G"
      using wf by (auto simp: namespace_wf_def names_wf_def)
    ultimately show ?thesis
      using wf finite_names [OF dirs(1)] by (auto simp: namespace_wf_def links_wf_def card_gt_0_iff)
  qed
  then show "t \<in> dom G" "0 < links_of G t"
    by simp_all
qed

lemma wf_parts:
  assumes "namespace_wf G"
  shows "\<exists>m. dir_of G 0 = Some m \<and> m [DOT, DOT] = Some 0" "finite_dirs (dir_of G)"
    "dir_of G p = Some m \<Longrightarrow> links_of G p = 1 \<and> m [DOT] = Some p \<and> (\<exists>q. m [DOT, DOT] = Some q \<and> is_dir G q)"
    "(p, n) \<in> names_in (dir_of G) t \<Longrightarrow> t \<in> dom G \<and> (\<forall>m. dir_of G t = Some m \<longrightarrow> m [DOT, DOT] = Some p)"
    "t \<in> dom G \<Longrightarrow> links_of G t = card (names_in (dir_of G) t) + (if t = 0 then 1 else 0)"
  using assms unfolding namespace_wf_def root_wf_def dirs_wf_def names_wf_def links_wf_def by blast+

lemma names_of_absent:
  assumes "namespace_wf G" and "t \<notin> dom G"
  shows "names_in (dir_of G) t = {}"
  using wf_parts(4) [OF assms(1), of _ _ t] assms(2) by auto

text \<open>A directory other than the root is named by its parent only.\<close>

lemma dir_names:
  assumes wf: "namespace_wf G" and t: "dir_of G t = Some m" and name: "(p, n) \<in> names_in (dir_of G) t"
  shows "names_in (dir_of G) t = {(p, n)}" "t \<noteq> 0" "m [DOT, DOT] = Some p"
proof -
  have dom: "t \<in> dom G"
    using t by (auto simp: dir_of_eq)
  have fin: "finite (names_in (dir_of G) t)"
    by (rule finite_names [OF wf_parts(2) [OF wf]])
  have "card (names_in (dir_of G) t) + (if t = 0 then 1 else 0) = 1"
    using wf_parts(5) [OF wf dom] wf_parts(3) [OF wf t] by simp
  moreover have "card (names_in (dir_of G) t) \<noteq> 0"
    using name fin by auto
  ultimately have "card (names_in (dir_of G) t) = 1" "t \<noteq> 0"
    by (auto split: if_splits)
  then show "names_in (dir_of G) t = {(p, n)}" "t \<noteq> 0"
    using name by (auto simp: card_1_singleton_iff)
  show "m [DOT, DOT] = Some p"
    using wf_parts(4) [OF wf name] t by blast
qed

theorem ns_new_wf:
  assumes wf: "namespace_wf G" and p: "G p = Some (b, Dir m)" and n: "m n = None" "n \<notin> dots" and i: "G i = None"
    and a: "a_links a = 1" and x: "x = Dir [[DOT, DOT] \<mapsto> p, [DOT] \<mapsto> i] \<or> (\<exists>bs. x = File bs) \<or> (\<exists>bs. x = Link bs)"
  shows "namespace_wf (ns_new p n i a x G)"
proof -
  let ?D = "dir_of G" and ?m = "m(n \<mapsto> i)"
  have Dp: "?D p = Some m" and Di: "?D i = None" and pi: "p \<noteq> i"
    using p i by (auto simp: dir_of_eq dir_of_def)
  have G': "ns_new p n i a x G = G(p \<mapsto> (b, Dir ?m), i \<mapsto> (a, x))"
    using p by (simp add: ns_new_def)
  let ?D' = "dir_of (ns_new p n i a x G)"
  have D': "?D' = ?D(p \<mapsto> ?m) \<or> ?D' = ?D(p \<mapsto> ?m, i \<mapsto> [[DOT, DOT] \<mapsto> p, [DOT] \<mapsto> i])"
    using x Di pi by (auto simp: G' fun_eq_iff split: if_splits)
  have names: "names_in ?D' t = names_in (?D(p \<mapsto> ?m)) t" for t
  proof -
    have "dom [[DOT, DOT] \<mapsto> p, [DOT] \<mapsto> i] \<subseteq> dots" "(?D(p \<mapsto> ?m)) i = None"
      using Di pi by (auto simp: dots_def)
    then have "names_in (?D(p \<mapsto> ?m, i \<mapsto> [[DOT, DOT] \<mapsto> p, [DOT] \<mapsto> i])) t = names_in (?D(p \<mapsto> ?m)) t"
      using names_only_dots(1) by blast
    then show ?thesis
      using D' by metis
  qed
  note put = names_put [of ?D p m n, OF Dp n]
  have names': "names_in ?D' t = (if t = i then {(p, n)} else names_in ?D t)" for t
    using names put(1) names_of_absent [OF wf, of i] i by auto
  have links: "links_of (ns_new p n i a x G) = (links_of G)(i := 1)"
    using p pi a by (auto simp: G' links_of_def fun_eq_iff)
  have dir: "is_dir G q \<Longrightarrow> is_dir (ns_new p n i a x G) q" for q
    using D' pi by (auto simp: is_dir_def)
  note parts = wf_parts [OF wf]
  have "root_wf (ns_new p n i a x G)"
    using parts(1) D' n(2) Di Dp by (auto simp: root_wf_def dots_def)
  moreover have "dirs_wf (ns_new p n i a x G)"
  proof -
    have "finite_dirs ?D'"
      using D' finite_dirs_dom [OF parts(2) Dp] by (elim disjE) (simp_all add: finite_dirs_upd parts(2))
    moreover have "links_of (ns_new p n i a x G) q = 1 \<and> k [DOT] = Some q \<and> (\<exists>r. k [DOT, DOT] = Some r \<and> is_dir (ns_new p n i a x G) r)"
      if k: "?D' q = Some k" for q k
    proof (cases "q = i")
      case True
      moreover have "is_dir (ns_new p n i a x G) p"
        using dir [of p] Dp by (simp add: is_dir_def)
      ultimately show ?thesis
        using k D' Di pi links by (auto split: if_splits)
    next
      case False
      obtain k' where k': "?D q = Some k'" "\<forall>l \<in> dots. k l = k' l"
        using k False D' Dp n(2) by (cases "q = p") auto
      then show ?thesis
        using parts(3) [OF k'(1)] links False dir by (auto simp: dots_def)
    qed
    ultimately show ?thesis
      by (simp add: dirs_wf_def)
  qed
  moreover have "names_wf (ns_new p n i a x G)"
    unfolding names_wf_def
  proof (intro allI impI)
    fix t q l assume name: "(q, l) \<in> names_in ?D' t"
    show "t \<in> dom (ns_new p n i a x G) \<and> (\<forall>k. ?D' t = Some k \<longrightarrow> k [DOT, DOT] = Some q)"
    proof (cases "t = i")
      case True
      then show ?thesis
        using name names' D' Di pi by (auto simp: G')
    next
      case False
      then have old: "(q, l) \<in> names_in ?D t"
        using name names' by simp
      have "k [DOT, DOT] = Some q" if k: "?D' t = Some k" for k
      proof -
        obtain k' where "?D t = Some k'" "k [DOT, DOT] = k' [DOT, DOT]"
          using k False D' Dp n(2) by (cases "t = p") (auto simp: dots_def)
        then show ?thesis
          using parts(4) [OF old] by simp
      qed
      then show ?thesis
        using parts(4) [OF old] by (auto simp: G')
    qed
  qed
  moreover have "links_wf (ns_new p n i a x G)"
  proof -
    have "i \<noteq> 0"
      using parts(1) Di by auto
    moreover have "dom (ns_new p n i a x G) = insert i (dom G)"
      using p by (auto simp: G')
    ultimately show ?thesis
      using parts(5) links names' by (auto simp: links_wf_def)
  qed
  ultimately show ?thesis
    by (simp add: namespace_wf_def)
qed

theorem ns_link_wf:
  assumes wf: "namespace_wf G" and p: "G p = Some (b, Dir m)" and n: "m n = None" "n \<notin> dots"
    and t: "G t = Some (a, x)" "dir_of G t = None" and room: "a_links a \<noteq> -1"
  shows "namespace_wf (ns_link p n t G)"
proof -
  let ?D = "dir_of G" and ?m = "m(n \<mapsto> t)" and ?G = "ns_link p n t G"
  have Dp: "?D p = Some m"
    using p by (simp add: dir_of_eq)
  then have pt: "p \<noteq> t"
    using t(2) by auto
  have G': "?G = G(p \<mapsto> (b, Dir ?m), t \<mapsto> (relink (\<lambda>k. k + 1) a, x))"
    using p t by (simp add: ns_link_def)
  have "\<forall>k. x \<noteq> Dir k"
    using t by (auto simp: dir_of_def)
  then have "dir_of ?G = ?D(p \<mapsto> ?m, t := None)"
    by (simp add: G' dir_of_other)
  also have "\<dots> = ?D(p \<mapsto> ?m)"
    by (rule fun_upd_idem) (use t(2) pt in simp)
  finally have D': "dir_of ?G = ?D(p \<mapsto> ?m)" .
  have names: "names_in (dir_of ?G) u = (if u = t then insert (p, n) (names_in ?D u) else names_in ?D u)" for u
    unfolding D' by (rule names_put(1) [where D = ?D and p = p and m = m, OF Dp n])
  have count: "card (names_in (dir_of ?G) u) = card (names_in ?D u) + (if u = t then 1 else 0)" for u
    unfolding D' by (rule card_names_put [OF wf_parts(2) [OF wf] Dp n])
  have "unat (a_links a + 1) = Suc (unat (a_links a))"
    using room unatSuc [of "a_links a"] by (simp add: eq_neg_iff_add_eq_0 add.commute)
  then have links: "links_of ?G = (links_of G)(t := Suc (links_of G t))"
    using p t pt by (auto simp: G' links_of_def relink_def fun_eq_iff)
  note parts = wf_parts [OF wf]
  have "root_wf ?G"
    using parts(1) D' n(2) Dp by (auto simp: root_wf_def dots_def)
  moreover have "dirs_wf ?G"
  proof -
    have "links_of ?G q = 1 \<and> k [DOT] = Some q \<and> (\<exists>r. k [DOT, DOT] = Some r \<and> is_dir ?G r)" if k: "dir_of ?G q = Some k" for q k
    proof -
      obtain k' where k': "?D q = Some k'" "\<forall>l \<in> dots. k l = k' l"
        using k D' Dp n(2) by (cases "q = p") auto
      moreover have "q \<noteq> t"
        using k'(1) t(2) by auto
      ultimately show ?thesis
        using parts(3) [OF k'(1)] links D' Dp by (auto simp: dots_def is_dir_def)
    qed
    moreover have "finite_dirs (dir_of ?G)"
      unfolding D' using finite_dirs_dom [OF parts(2) Dp] by (intro finite_dirs_upd parts(2)) simp
    ultimately show ?thesis
      unfolding dirs_wf_def by blast
  qed
  moreover have "names_wf ?G"
    unfolding names_wf_def
  proof (intro allI impI)
    fix u q l assume name: "(q, l) \<in> names_in (dir_of ?G) u"
    show "u \<in> dom ?G \<and> (\<forall>k. dir_of ?G u = Some k \<longrightarrow> k [DOT, DOT] = Some q)"
    proof (cases "u = t")
      case True
      then show ?thesis
        using D' t pt by (simp add: G')
    next
      case False
      then have old: "(q, l) \<in> names_in ?D u"
        using name names by simp
      show ?thesis
        using parts(4) [OF old] D' Dp n(2) by (auto simp: G' dots_def split: if_splits)
    qed
  qed
  moreover have "dom ?G = dom G"
    using p t by (auto simp: G')
  then have "links_wf ?G"
    using parts(5) links count t(1) by (auto simp: links_wf_def)
  ultimately show ?thesis
    by (simp add: namespace_wf_def)
qed

lemma no_other_child:
  assumes wf: "namespace_wf G" and t: "dir_of G t = Some m" "dom m \<subseteq> dots" "t \<noteq> 0" and q: "dir_of G q = Some k" "k [DOT, DOT] = Some t"
  shows "q = t"
proof (rule ccontr)
  assume "q \<noteq> t"
  note parts = wf_parts [OF wf]
  show False
  proof (cases "q = 0")
    case True
    then show False
      using parts(1) q t(3) by auto
  next
    case False
    have "q \<in> dom G"
      using q(1) by (auto simp: dir_of_eq)
    then have "card (names_in (dir_of G) q) = 1"
      using parts(5) [of q] parts(3) [OF q(1)] False by simp
    then obtain r l where name: "(r, l) \<in> names_in (dir_of G) q"
      by (auto simp: card_1_singleton_iff)
    then have "r = t"
      using dir_names(3) [OF wf q(1) name] q(2) by simp
    then show False
      using name t(1,2) by (auto simp: names_in_def)
  qed
qed

theorem ns_remove_wf:
  assumes wf: "namespace_wf G" and p: "G p = Some (b, Dir m)" and n: "m n = Some t" "n \<notin> dots" and t: "G t = Some (a, x)"
    and f: "dir_of G t = None \<and> f x = x \<or> (\<exists>k. dir_of G t = Some k \<and> dom k \<subseteq> dots) \<and> f x = Gone"
  shows "namespace_wf (ns_remove p n held f G)"
proof -
  let ?D = "dir_of G" and ?m = "m(n := None)" and ?G = "ns_remove p n held f G"
  note parts = wf_parts [OF wf]
  have Dp: "?D p = Some m"
    using p by (simp add: dir_of_eq)
  have pt: "p \<noteq> t"
    using f Dp n by (metis domI option.distinct(1) option.inject subsetD)
  have name: "(p, n) \<in> names_in ?D t"
    using Dp n by (simp add: names_in_def)
  have t0: "t \<noteq> 0"
    using f parts(1) dir_names(2) [OF wf _ name] by auto
  have G': "?G = G(p \<mapsto> (b, Dir ?m), t := (if a_links a = 1 \<and> \<not> held then None else Some (relink (\<lambda>k. k - 1) a, f x)))"
    using p n t by (simp add: ns_remove_def)
  have "\<forall>k. f x \<noteq> Dir k"
    using f t by (auto simp: dir_of_def)
  then have D': "dir_of ?G = ?D(p \<mapsto> ?m, t := None)"
    by (simp add: G' dir_of_other)
  have names: "names_in (dir_of ?G) u = names_in (?D(p \<mapsto> ?m)) u" for u
  proof -
    obtain k where "dom k \<subseteq> dots" "(?D(p \<mapsto> ?m)) t = None \<or> (?D(p \<mapsto> ?m)) t = Some k"
      using f pt that [of Map.empty] by auto
    then show ?thesis
      unfolding D' by (rule names_only_dots(2))
  qed
  have sub: "names_in (dir_of ?G) u \<subseteq> names_in ?D u" for u
    unfolding names using Dp by (auto simp: names_in_def split: if_splits)
  have count: "card (names_in ?D u) = card (names_in (dir_of ?G) u) + (if u = t then 1 else 0)" for u
    unfolding names by (rule card_names_del [OF parts(2) Dp n])
  have "t \<in> dom G" "p \<in> dom G"
    using t p by auto
  then have links_t: "links_of G t = card (names_in ?D t)" "0 < links_of G t"
    using parts(5) [of t] t0 count [of t] by simp_all
  then have "a_links a \<noteq> 0"
    using t by (auto simp: links_of_def)
  then have links: "links_of ?G = (links_of G)(t := links_of G t - 1)"
    using p t pt by (auto simp: G' links_of_def relink_def fun_eq_iff unat_minus_one)
  have dir: "is_dir ?G r" if "is_dir G r" "r \<noteq> t" for r
    using that Dp by (auto simp: D' is_dir_def)
  have old: "\<exists>k'. ?D q = Some k' \<and> (\<forall>l \<in> dots. k l = k' l) \<and> q \<noteq> t" if "dir_of ?G q = Some k" for q k
    using that Dp n(2) pt by (auto simp: D' split: if_splits)
  have "root_wf ?G"
    using parts(1) Dp n(2) t0 by (auto simp: root_wf_def D' dots_def)
  moreover have "dirs_wf ?G"
  proof -
    have "links_of ?G q = 1 \<and> k [DOT] = Some q \<and> (\<exists>r. k [DOT, DOT] = Some r \<and> is_dir ?G r)" if k: "dir_of ?G q = Some k" for q k
    proof -
      obtain k' where k': "?D q = Some k'" "\<forall>l \<in> dots. k l = k' l" "q \<noteq> t"
        using old [OF k] by blast
      obtain r where r: "k' [DOT, DOT] = Some r" "is_dir G r"
        using parts(3) [OF k'(1)] by blast
      have "r \<noteq> t"
      proof
        assume "r = t"
        then obtain kt where "?D t = Some kt" "dom kt \<subseteq> dots"
          using f r(2) by (auto simp: is_dir_def)
        then show False
          using no_other_child [OF wf _ _ t0 k'(1)] r(1) \<open>r = t\<close> k'(3) by blast
      qed
      then show ?thesis
        using parts(3) [OF k'(1)] links k' r dir by (auto simp: dots_def)
    qed
    moreover have "finite_dirs (dir_of ?G)"
      unfolding D' using finite_dirs_dom [OF parts(2) Dp] by (intro finite_dirs_upd parts(2)) simp
    ultimately show ?thesis
      unfolding dirs_wf_def by blast
  qed
  moreover have "names_wf ?G"
    unfolding names_wf_def
  proof (intro allI impI)
    fix u q l assume "(q, l) \<in> names_in (dir_of ?G) u"
    then have ql: "(q, l) \<in> names_in (dir_of ?G) u" "(q, l) \<in> names_in ?D u"
      using sub by blast+
    have "u \<in> dom ?G"
    proof (cases "u = t")
      case True
      then have "card (names_in (dir_of ?G) t) \<noteq> 0"
        using ql(1) finite_subset [OF sub finite_names [OF parts(2)], of t] by auto
      then have "links_of G t \<noteq> 1"
        using count [of t] links_t(1) by simp
      then have "a_links a \<noteq> 1"
        using t by (auto simp: links_of_def)
      then show ?thesis
        using True by (simp add: G')
    next
      case False
      then show ?thesis
        using parts(4) [OF ql(2)] by (auto simp: G')
    qed
    then show "u \<in> dom ?G \<and> (\<forall>k. dir_of ?G u = Some k \<longrightarrow> k [DOT, DOT] = Some q)"
      using parts(4) [OF ql(2)] old by (fastforce simp: dots_def)
  qed
  moreover have "dom ?G \<subseteq> dom G"
    using p t by (auto simp: G' split: if_splits)
  then have "links_wf ?G"
    using parts(5) links count t0 links_t unfolding links_wf_def by (auto simp: subset_iff)
  ultimately show ?thesis
    by (simp add: namespace_wf_def)
qed

end
