(* ===== verification/Namespace_Ops.thy ===== *)
theory Namespace_Ops
  imports Namespace
begin

text \<open>
  The other operations on the file system as its users see it: moving an entry, changing the
  attributes or the bytes of an inode, and forgetting an inode without names.
\<close>

section \<open>Operations\<close>

definition on_dir :: "ino \<Rightarrow> ((byte list \<Rightarrow> ino option) \<Rightarrow> byte list \<Rightarrow> ino option) \<Rightarrow> namespace \<Rightarrow> namespace" where
  "on_dir p f G = (case G p of Some (b, Dir m) \<Rightarrow> G(p \<mapsto> (b, Dir (f m))) | _ \<Rightarrow> G)"

definition ns_rename :: "ino \<Rightarrow> byte list \<Rightarrow> ino \<Rightarrow> byte list \<Rightarrow> namespace \<Rightarrow> namespace" where
  "ns_rename p n q l G = (case dir_of G p of
      Some m \<Rightarrow>
        (case m n of
           Some t \<Rightarrow> on_dir t (\<lambda>k. k([DOT, DOT] \<mapsto> q)) (on_dir p (\<lambda>k. k(n := None)) (on_dir q (\<lambda>k. k(l \<mapsto> t)) G))
         | None \<Rightarrow> G)
    | None \<Rightarrow> G)"

definition ns_attr :: "ino \<Rightarrow> (fattr \<Rightarrow> fattr) \<Rightarrow> namespace \<Rightarrow> namespace" where
  "ns_attr t f G = (case G t of Some (a, x) \<Rightarrow> G(t \<mapsto> (f a, x)) | None \<Rightarrow> G)"

definition ns_chmod :: "ino \<Rightarrow> u32 \<Rightarrow> namespace \<Rightarrow> namespace" where
  "ns_chmod t mode = ns_attr t (\<lambda>a. a\<lparr>a_perm := mode\<rparr>)"

definition ns_chown :: "ino \<Rightarrow> u32 \<Rightarrow> u32 \<Rightarrow> namespace \<Rightarrow> namespace" where
  "ns_chown t user grp = ns_attr t (\<lambda>a. a\<lparr>a_owner := user, a_group := grp\<rparr>)"

definition ns_file :: "ino \<Rightarrow> (byte list \<Rightarrow> byte list) \<Rightarrow> namespace \<Rightarrow> namespace" where
  "ns_file t f G = (case G t of Some (a, File bs) \<Rightarrow> G(t \<mapsto> (a, File (f bs))) | _ \<Rightarrow> G)"

text \<open>The last reference to the inode is given back.\<close>

definition ns_forget :: "ino \<Rightarrow> namespace \<Rightarrow> namespace" where
  "ns_forget t G = (if links_of G t = 0 then G(t := None) else G)"

section \<open>What does not touch names\<close>

lemma is_dir_cong: "dir_of G' = dir_of G \<Longrightarrow> is_dir G' = is_dir G"
  by (simp add: is_dir_def fun_eq_iff)

lemma wf_cong:
  assumes "dir_of G' = dir_of G" and "links_of G' = links_of G" and "dom G' = dom G"
  shows "namespace_wf G' = namespace_wf G"
  using assms is_dir_cong [OF assms(1)] by (simp add: namespace_wf_def root_wf_def dirs_wf_def names_wf_def links_wf_def)

lemma ns_attr_wf:
  assumes "\<And>a. a_links (f a) = a_links a"
  shows "namespace_wf (ns_attr t f G) = namespace_wf G"
proof (cases "G t")
  case (Some y)
  obtain a x where y: "y = (a, x)"
    by fastforce
  have G': "ns_attr t f G = G(t \<mapsto> (f a, x))"
    using Some y by (simp add: ns_attr_def)
  have "dir_of (ns_attr t f G) = dir_of G"
    using Some y by (auto simp: G' dir_of_def fun_eq_iff)
  moreover have "links_of (ns_attr t f G) = links_of G" "dom (ns_attr t f G) = dom G"
    using Some y assms by (auto simp: G' links_of_def fun_eq_iff)
  ultimately show ?thesis
    by (rule wf_cong)
qed (simp add: ns_attr_def)

lemma ns_file_wf: "namespace_wf (ns_file t f G) = namespace_wf G"
proof (cases "\<exists>a bs. G t = Some (a, File bs)")
  case True
  then obtain a bs where t: "G t = Some (a, File bs)"
    by blast
  have G': "ns_file t f G = G(t \<mapsto> (a, File (f bs)))"
    using t by (simp add: ns_file_def)
  have "dir_of (ns_file t f G) = dir_of G"
    using t by (auto simp: G' dir_of_def fun_eq_iff)
  moreover have "links_of (ns_file t f G) = links_of G" "dom (ns_file t f G) = dom G"
    using t by (auto simp: G' links_of_def fun_eq_iff)
  ultimately show ?thesis
    by (rule wf_cong)
next
  case False
  then have "ns_file t f G = G"
    by (auto simp: ns_file_def split: option.split node.split)
  then show ?thesis
    by simp
qed

lemma no_names:
  assumes "namespace_wf G" and "links_of G t = 0"
  shows "names_in (dir_of G) t = {}" "dir_of G t = None"
proof -
  note parts = wf_parts [OF assms(1)]
  show "names_in (dir_of G) t = {}"
  proof (cases "t \<in> dom G")
    case True
    then show ?thesis
      using parts(5) [of t] assms(2) finite_names [OF parts(2), of t] by simp
  qed (rule names_of_absent [OF assms(1)])
  show "dir_of G t = None"
    using parts(3) [of t] assms(2) by (cases "dir_of G t") auto
qed

theorem ns_forget_wf:
  assumes wf: "namespace_wf G"
  shows "namespace_wf (ns_forget t G)"
proof (cases "links_of G t = 0")
  case True
  let ?G = "G(t := None)"
  have D: "dir_of ?G = dir_of G" and links: "links_of ?G = links_of G"
    using no_names(2) [OF wf True] True by (auto simp: fun_upd_idem)
  note parts = wf_parts [OF wf]
  have "(p, n) \<in> names_in (dir_of G) u \<Longrightarrow> u \<in> dom ?G" for p n u
    using parts(4) [of p n u] no_names(1) [OF wf True] by auto
  then have "names_wf ?G"
    using parts(4) unfolding names_wf_def D by blast
  moreover have "links_wf ?G"
    using parts(5) by (auto simp: links_wf_def D links simp del: dir_of_upd links_of_upd)
  moreover have "root_wf ?G" "dirs_wf ?G"
    using wf is_dir_cong [OF D] by (simp_all add: namespace_wf_def root_wf_def dirs_wf_def D links del: dir_of_upd links_of_upd)
  ultimately show ?thesis
    using True by (simp add: ns_forget_def namespace_wf_def)
qed (simp add: ns_forget_def wf)

section \<open>Moving\<close>

lemma on_dir_parts:
  "dir_of (on_dir p f G) = (dir_of G)(p := map_option f (dir_of G p))" "links_of (on_dir p f G) = links_of G" "dom (on_dir p f G) = dom G"
  by (auto simp: on_dir_def dir_of_def links_of_def fun_eq_iff split: option.split node.split)

lemma names_dots:
  assumes "x \<in> dots"
  shows "names_in (D(t := map_option (\<lambda>k. k(x \<mapsto> q)) (D t))) u = names_in D u"
  using assms by (auto simp: names_in_def split: if_splits)

lemma finite_dirs_entry: "finite_dirs D \<Longrightarrow> finite_dirs (D(t := map_option (\<lambda>k. k(x \<mapsto> q)) (D t)))"
  by (auto simp: finite_dirs_def)

lemma names_del:
  assumes "D p = Some m" and "m n = Some t" and "n \<notin> dots"
  shows "names_in (D(p \<mapsto> m(n := None))) u = (if u = t then names_in D u - {(p, n)} else names_in D u)"
  using assms by (auto simp: names_in_def split: if_splits)

theorem ns_rename_wf:
  assumes wf: "namespace_wf G" and p: "dir_of G p = Some m" "m n = Some t" "n \<notin> dots"
    and q: "dir_of G q = Some k" "k l = None" "l \<notin> dots" and t: "t \<noteq> p" "t \<noteq> q"
  shows "namespace_wf (ns_rename p n q l G)"
proof -
  let ?G = "ns_rename p n q l G" and ?D = "dir_of G"
  note parts = wf_parts [OF wf]
  let ?D1 = "?D(q \<mapsto> k(l \<mapsto> t))"
  obtain mp where mp: "?D1 p = Some mp" "mp n = Some t"
    using p(1,2) q(1,2) by (cases "p = q") auto
  let ?D2 = "?D1(p \<mapsto> mp(n := None))"
  have G': "?G = on_dir t (\<lambda>k. k([DOT, DOT] \<mapsto> q)) (on_dir p (\<lambda>k. k(n := None)) (on_dir q (\<lambda>k. k(l \<mapsto> t)) G))"
    using p by (simp add: ns_rename_def)
  have D': "dir_of ?G = ?D2(t := map_option (\<lambda>k. k([DOT, DOT] \<mapsto> q)) (?D2 t))"
    using p(1) q(1) mp t by (auto simp: G' on_dir_parts fun_eq_iff)
  have same: "links_of ?G = links_of G" "dom ?G = dom G"
    by (simp_all add: G' on_dir_parts)
  have Dq: "?D1 p = Some mp" "finite_dirs ?D1"
    using mp(1) finite_dirs_upd(1) [OF parts(2)] finite_dirs_dom [OF parts(2) q(1)] by simp_all
  have names: "names_in (dir_of ?G) u = names_in ?D2 u" for u
    unfolding D' by (rule names_dots) (simp add: dots_def)
  have names': "names_in (dir_of ?G) u = (if u = t then insert (q, l) (names_in ?D u) - {(p, n)} else names_in ?D u)" for u
    unfolding names names_del [of ?D1, OF Dq(1) mp(2) p(3)] names_put(1) [of ?D, OF q] by simp
  have card: "card (names_in (dir_of ?G) u) = card (names_in ?D u)" for u
    using card_names_put [OF parts(2) q, of t u] card_names_del [OF Dq(2,1) mp(2) p(3), of u] unfolding names by (simp del: fun_upd_apply)
  have old: "\<exists>j'. ?D x = Some j' \<and> (\<forall>y \<in> dots. j y = (if x = t \<and> y = [DOT, DOT] then Some q else j' y))" if "dir_of ?G x = Some j" for x j
  proof -
    have "\<exists>j2. ?D2 x = Some j2 \<and> (\<forall>y \<in> dots. j y = (if x = t \<and> y = [DOT, DOT] then Some q else j2 y))"
      using that unfolding D' by (auto split: if_splits)
    moreover have "\<exists>j'. ?D x = Some j' \<and> (\<forall>y \<in> dots. j2 y = j' y)" if "?D2 x = Some j2" for j2
      using that p q mp(1) by (auto split: if_splits)
    ultimately show ?thesis
      by fastforce
  qed
  have dir: "is_dir ?G x" if "is_dir G x" for x
    using that p(1) q(1) mp(1) t unfolding is_dir_def D' by auto
  have name: "(p, n) \<in> names_in ?D t"
    using p by (simp add: names_in_def)
  have "root_wf ?G"
  proof -
    obtain j where j: "dir_of ?G 0 = Some j"
      using parts(1) dir [of 0] by (auto simp: is_dir_def)
    then obtain j' where j': "?D 0 = Some j'" "\<forall>y \<in> dots. j y = (if 0 = t \<and> y = [DOT, DOT] then Some q else j' y)"
      using old by blast
    moreover have "t \<noteq> 0"
      using dir_names(2) [OF wf j'(1)] name by auto
    ultimately show ?thesis
      using j parts(1) by (simp add: root_wf_def dots_def)
  qed
  moreover have "dirs_wf ?G"
  proof -
    have "links_of ?G x = 1 \<and> j [DOT] = Some x \<and> (\<exists>y. j [DOT, DOT] = Some y \<and> is_dir ?G y)" if j: "dir_of ?G x = Some j" for x j
    proof -
      obtain j' where j': "?D x = Some j'" "\<forall>y \<in> dots. j y = (if x = t \<and> y = [DOT, DOT] then Some q else j' y)"
        using old [OF j] by blast
      moreover have "is_dir ?G q"
        using dir q(1) by (simp add: is_dir_def)
      ultimately show ?thesis
        using parts(3) [OF j'(1)] dir by (cases "x = t") (auto simp: dots_def same)
    qed
    moreover have "finite_dirs ?D2"
      using finite_dirs_upd(1) [OF Dq(2)] finite_dirs_dom [OF Dq(2,1)] by simp
    then have "finite_dirs (dir_of ?G)"
      unfolding D' by (rule finite_dirs_entry)
    ultimately show ?thesis
      unfolding dirs_wf_def by blast
  qed
  moreover have "names_wf ?G"
    unfolding names_wf_def
  proof (intro allI impI)
    fix u r y assume name': "(r, y) \<in> names_in (dir_of ?G) u"
    show "u \<in> dom ?G \<and> (\<forall>j. dir_of ?G u = Some j \<longrightarrow> j [DOT, DOT] = Some r)"
    proof (cases "u = t")
      case True
      have "j [DOT, DOT] = Some r" if j: "dir_of ?G t = Some j" for j
      proof -
        obtain j' where j': "?D t = Some j'" "\<forall>y \<in> dots. j y = (if t = t \<and> y = [DOT, DOT] then Some q else j' y)"
          using old [OF j] by blast
        then show ?thesis
          using name' names' True dir_names(1) [OF wf j'(1) name] by (auto simp: dots_def)
      qed
      then show ?thesis
        using True parts(4) [OF name] by (simp add: same)
    next
      case False
      then have name0: "(r, y) \<in> names_in ?D u"
        using name' names' by simp
      have "j [DOT, DOT] = Some r" if j: "dir_of ?G u = Some j" for j
      proof -
        obtain j' where "?D u = Some j'" "\<forall>y \<in> dots. j y = (if u = t \<and> y = [DOT, DOT] then Some q else j' y)"
          using old [OF j] by blast
        then show ?thesis
          using parts(4) [OF name0] False by (simp add: dots_def)
      qed
      then show ?thesis
        using parts(4) [OF name0] by (simp add: same)
    qed
  qed
  moreover have "links_wf ?G"
    using parts(5) card by (simp add: links_wf_def same)
  ultimately show ?thesis
    by (simp add: namespace_wf_def)
qed

end
