(* ===== verification/Namespace_Tree.thy ===== *)
theory Namespace_Tree
  imports Namespace_Ops
begin

text \<open>
  The directories form a tree: from every directory the entries \<open>..\<close> lead to the root, and every
  operation keeps it so.
\<close>

section \<open>Trees\<close>

text \<open>\<open>inside D a p\<close>: the entries \<open>..\<close> lead from \<open>p\<close> up to \<open>a\<close>.\<close>

inductive inside :: "(ino \<Rightarrow> (byte list \<Rightarrow> ino option) option) \<Rightarrow> ino \<Rightarrow> ino \<Rightarrow> bool" for D a where
  here: "inside D a a"
| up: "D p = Some m \<Longrightarrow> m [DOT, DOT] = Some q \<Longrightarrow> inside D a q \<Longrightarrow> inside D a p"

definition ns_tree :: "namespace \<Rightarrow> bool" where
  "ns_tree G \<longleftrightarrow> (\<forall>p. is_dir G p \<longrightarrow> inside (dir_of G) 0 p)"

lemma ns_treeD: "ns_tree G \<Longrightarrow> dir_of G p = Some m \<Longrightarrow> inside (dir_of G) 0 p"
  by (simp add: ns_tree_def is_dir_def)

lemma ns_treeI: "(\<And>p m. dir_of G p = Some m \<Longrightarrow> inside (dir_of G) 0 p) \<Longrightarrow> ns_tree G"
  by (auto simp: ns_tree_def is_dir_def)

lemma inside_keeps:
  assumes "inside D a p" and "\<And>x m. D x = Some m \<Longrightarrow> \<exists>m'. D' x = Some m' \<and> m' [DOT, DOT] = m [DOT, DOT]"
  shows "inside D' a p"
  using assms(1) by (induction rule: inside.induct) (use assms(2) inside.intros in metis)+

text \<open>In a tree no directory but the root is its own parent.\<close>

lemma not_own_parent:
  assumes "inside D a p"
  shows "D p = Some m \<Longrightarrow> m [DOT, DOT] = Some p \<Longrightarrow> p = a"
  using assms by (induction rule: inside.induct) auto

lemma not_own_child:
  assumes wf: "namespace_wf G" and tree: "ns_tree G" and p: "dir_of G p = Some m" "m n = Some t" "n \<notin> dots"
  shows "t \<noteq> p"
proof
  assume "t = p"
  then have "(p, n) \<in> names_in (dir_of G) p"
    using p by (simp add: names_in_def)
  then have "p \<noteq> 0" "m [DOT, DOT] = Some p"
    using dir_names [OF wf p(1)] by blast+
  then show False
    using not_own_parent [OF ns_treeD [OF tree p(1)] p(1)] by blast
qed

theorem ns_new_tree:
  assumes wf: "namespace_wf G" and tree: "ns_tree G" and p: "G p = Some (b, Dir m)" and n: "n \<notin> dots" and i: "G i = None"
    and x: "x = Dir [[DOT, DOT] \<mapsto> p, [DOT] \<mapsto> i] \<or> (\<forall>k. x \<noteq> Dir k)"
  shows "ns_tree (ns_new p n i a x G)"
proof -
  let ?D = "dir_of G" and ?D' = "dir_of (ns_new p n i a x G)"
  have Dp: "?D p = Some m" and Di: "?D i = None" and pi: "p \<noteq> i"
    using p i by (auto simp: dir_of_eq dir_of_def)
  have G': "ns_new p n i a x G = G(p \<mapsto> (b, Dir (m(n \<mapsto> i))), i \<mapsto> (a, x))"
    using p by (simp add: ns_new_def)
  have D': "?D' = ?D(p \<mapsto> m(n \<mapsto> i)) \<or> ?D' = ?D(p \<mapsto> m(n \<mapsto> i), i \<mapsto> [[DOT, DOT] \<mapsto> p, [DOT] \<mapsto> i])"
    using x Di pi dir_of_other [of x] by (auto simp: G' fun_eq_iff split: if_splits)
  have keep: "\<exists>k'. ?D' y = Some k' \<and> k' [DOT, DOT] = k [DOT, DOT]" if "?D y = Some k" for y k
    using that D' Di Dp n by (auto simp: dots_def split: if_splits)
  have old: "inside ?D' 0 y" if "?D y = Some k" for y k
    by (rule inside_keeps [OF ns_treeD [OF tree that]]) (rule keep)
  have "inside ?D' 0 y" if "?D' y = Some k" for y k
  proof (cases "y = i")
    case True
    then have "k [DOT, DOT] = Some p"
      using that D' Di pi by (auto split: if_splits)
    then show ?thesis
      using inside.up [OF that _ old [OF Dp]] by simp
  next
    case False
    have "?D y \<noteq> None"
      using that D' Dp False by (auto split: if_splits)
    then obtain k' where "?D y = Some k'"
      by blast
    then show ?thesis
      by (rule old)
  qed
  then show ?thesis
    by (auto simp: ns_tree_def is_dir_def)
qed

lemma ns_tree_keeps:
  assumes tree: "ns_tree G" and keep: "\<And>y k. dir_of G' y = Some k \<Longrightarrow> \<exists>k'. dir_of G y = Some k'"
    and dots: "\<And>y k. dir_of G y = Some k \<Longrightarrow> \<exists>k'. dir_of G' y = Some k' \<and> k' [DOT, DOT] = k [DOT, DOT]"
  shows "ns_tree G'"
proof -
  have "inside (dir_of G') 0 y" if "dir_of G y = Some k" for y k
    by (rule inside_keeps [OF ns_treeD [OF tree that]]) (rule dots)
  then show ?thesis
    using keep by (fastforce simp: ns_tree_def is_dir_def)
qed

theorem ns_link_tree:
  assumes tree: "ns_tree G" and p: "G p = Some (b, Dir m)" and n: "n \<notin> dots" and t: "G t = Some (a, x)" "dir_of G t = None"
  shows "ns_tree (ns_link p n t G)"
proof (rule ns_tree_keeps [OF tree])
  have Dp: "dir_of G p = Some m"
    using p by (simp add: dir_of_eq)
  then have pt: "p \<noteq> t"
    using t(2) by auto
  have "\<forall>k. x \<noteq> Dir k"
    using t by (auto simp: dir_of_def)
  then have "dir_of (ns_link p n t G) = (dir_of G)(p \<mapsto> m(n \<mapsto> t), t := None)"
    using p t by (simp add: ns_link_def dir_of_other)
  then have D': "dir_of (ns_link p n t G) = (dir_of G)(p \<mapsto> m(n \<mapsto> t))"
    using t(2) pt by (simp add: fun_upd_idem)
  show "\<exists>k'. dir_of G y = Some k'" if "dir_of (ns_link p n t G) y = Some k" for y k
    using that Dp by (simp add: D' split: if_splits)
  show "\<exists>k'. dir_of (ns_link p n t G) y = Some k' \<and> k' [DOT, DOT] = k [DOT, DOT]" if "dir_of G y = Some k" for y k
    using that Dp n by (auto simp: D' dots_def)
qed

theorem ns_remove_tree:
  assumes wf: "namespace_wf G" and tree: "ns_tree G" and p: "G p = Some (b, Dir m)" and n: "m n = Some t" "n \<notin> dots" and t: "G t = Some (a, x)"
    and f: "dir_of G t = None \<and> f x = x \<or> (\<exists>k. dir_of G t = Some k \<and> dom k \<subseteq> dots) \<and> f x = Gone"
  shows "ns_tree (ns_remove p n held f G)"
proof -
  let ?D = "dir_of G" and ?G = "ns_remove p n held f G"
  have Dp: "?D p = Some m"
    using p by (simp add: dir_of_eq)
  have pt: "p \<noteq> t"
    using f Dp n by (metis domI option.distinct(1) option.inject subsetD)
  have G': "?G = G(p \<mapsto> (b, Dir (m(n := None))), t := (if a_links a = 1 \<and> \<not> held then None else Some (relink (\<lambda>k. k - 1) a, f x)))"
    using p n t by (simp add: ns_remove_def)
  have "\<forall>k. f x \<noteq> Dir k"
    using f t by (auto simp: dir_of_def)
  then have D': "dir_of ?G = ?D(p \<mapsto> m(n := None), t := None)"
    by (simp add: G' dir_of_other)
  have name: "(p, n) \<in> names_in ?D t"
    using Dp n by (simp add: names_in_def)
  have up: "inside (dir_of ?G) 0 y" if "inside ?D 0 y" "\<exists>k. ?D y = Some k" "y \<noteq> t" for y
    using that
  proof (induction rule: inside.induct)
    case here
    show ?case
      by (rule inside.here)
  next
    case (up y k q)
    have "q \<noteq> t"
    proof
      assume "q = t"
      then obtain r where "?D t = Some r"
        using wf_parts(3) [OF wf up.hyps(1)] up.hyps(2) by (auto simp: is_dir_def)
      moreover from this have "dom r \<subseteq> dots" "t \<noteq> 0"
        using f dir_names(2) [OF wf _ name] by auto
      ultimately show False
        using no_other_child [OF wf _ _ _ up.hyps(1)] up.hyps(2) up.prems(2) \<open>q = t\<close> by blast
    qed
    moreover have "\<exists>r. ?D q = Some r"
      using wf_parts(3) [OF wf up.hyps(1)] up.hyps(2) by (auto simp: is_dir_def)
    ultimately have "inside (dir_of ?G) 0 q"
      using up.IH by blast
    moreover obtain k' where "dir_of ?G y = Some k'" "k' [DOT, DOT] = Some q"
      using up.hyps(1,2) up.prems(2) Dp n(2) that by (cases "y = p") (auto simp: D' dots_def)
    ultimately show ?case
      using inside.up by blast
  qed
  have "?D y \<noteq> None \<and> y \<noteq> t" if "dir_of ?G y = Some k" for y k
    using that Dp pt by (auto simp: D' split: if_splits)
  then show ?thesis
    using up ns_treeD [OF tree] by (fastforce simp: ns_tree_def is_dir_def)
qed

text \<open>A directory may move anywhere but into itself.\<close>

theorem ns_rename_tree:
  assumes wf: "namespace_wf G" and tree: "ns_tree G" and p: "dir_of G p = Some m" "m n = Some t" "n \<notin> dots"
    and q: "dir_of G q = Some k" "l \<notin> dots" and t: "t \<noteq> p" "\<not> inside (dir_of G) t q"
  shows "ns_tree (ns_rename p n q l G)"
proof -
  let ?D = "dir_of G" and ?D' = "dir_of (ns_rename p n q l G)"
  have D': "\<exists>j'. ?D' y = Some j' \<and> j' [DOT, DOT] = (if y = t then Some q else j [DOT, DOT])" if "?D y = Some j" for y j
    using that p q by (auto simp: ns_rename_def on_dir_parts dots_def)
  have dirs: "\<exists>j. ?D y = Some j" if "?D' y = Some j'" for y j'
    using that p(1,2) q(1) by (auto simp: ns_rename_def on_dir_parts split: if_splits)
  have outside: "inside ?D' 0 y" if "inside ?D 0 y" "\<not> inside ?D t y" for y
    using that
  proof (induction rule: inside.induct)
    case (up y j r)
    have "y \<noteq> t"
      using up.prems inside.here by blast
    moreover have "\<not> inside ?D t r"
      using up.prems inside.up [of ?D, OF up.hyps(1,2)] by blast
    ultimately show ?case
      using D' [OF up.hyps(1)] up.hyps(2) up.IH inside.up by fastforce
  qed (rule inside.here)
  have all: "inside ?D' 0 y" if "inside ?D 0 y" "?D y \<noteq> None" for y
    using that
  proof (induction rule: inside.induct)
    case (up y j r)
    have "?D r \<noteq> None"
      using wf_parts(3) [OF wf up.hyps(1)] up.hyps(2) by (auto simp: is_dir_def)
    then have r: "inside ?D' 0 r"
      using up.IH by blast
    have "inside ?D' 0 q"
      using outside [OF ns_treeD [OF tree q(1)] t(2)] .
    obtain j' where "?D' y = Some j'" "j' [DOT, DOT] = Some (if y = t then q else r)"
      using D' [OF up.hyps(1)] up.hyps(2) by auto
    then show ?case
      by (rule inside.up) (use r \<open>inside ?D' 0 q\<close> in simp)
  qed (rule inside.here)
  have "inside ?D' 0 y" if new: "?D' y = Some j'" for y j'
  proof -
    obtain j where j: "?D y = Some j"
      using dirs [OF new] by blast
    show ?thesis
      by (rule all [OF ns_treeD [OF tree j]]) (simp add: j)
  qed
  then show ?thesis
    by (rule ns_treeI)
qed

lemma ns_tree_cong: "dir_of G' = dir_of G \<Longrightarrow> ns_tree G' = ns_tree G"
  by (simp add: ns_tree_def is_dir_def)

section \<open>The invariant\<close>

definition ns_inv :: "namespace \<Rightarrow> bool" where
  "ns_inv G \<longleftrightarrow> namespace_wf G \<and> ns_tree G"

theorem ns_new_inv:
  assumes "ns_inv G" and "G p = Some (b, Dir m)" and "m n = None" and "G i = None" and "a_links a = 1"
    and "x = Dir [[DOT, DOT] \<mapsto> p, [DOT] \<mapsto> i] \<or> (\<exists>bs. x = File bs) \<or> (\<exists>bs. x = Link bs)"
  shows "ns_inv (ns_new p n i a x G)"
proof -
  have G: "namespace_wf G" "ns_tree G"
    using assms(1) by (simp_all add: ns_inv_def)
  have n: "n \<notin> dots"
    using wf_parts(3) [OF G(1), of p m] assms(2,3) by (auto simp: dots_def dir_of_eq)
  have "x = Dir [[DOT, DOT] \<mapsto> p, [DOT] \<mapsto> i] \<or> (\<forall>k. x \<noteq> Dir k)"
    using assms(6) by auto
  then show ?thesis
    using ns_new_wf [OF G(1) assms(2,3) n assms(4-6)] ns_new_tree [OF G assms(2) n assms(4)] by (simp add: ns_inv_def)
qed

theorem ns_link_inv:
  assumes "ns_inv G" and "G p = Some (b, Dir m)" and "m n = None" and "G t = Some (a, x)" and "dir_of G t = None" and "a_links a \<noteq> -1"
  shows "ns_inv (ns_link p n t G)"
proof -
  have G: "namespace_wf G" "ns_tree G"
    using assms(1) by (simp_all add: ns_inv_def)
  have n: "n \<notin> dots"
    using wf_parts(3) [OF G(1), of p m] assms(2,3) by (auto simp: dots_def dir_of_eq)
  then show ?thesis
    using ns_link_wf [OF G(1) assms(2,3) n assms(4-6)] ns_link_tree [OF G(2) assms(2) n assms(4,5)] by (simp add: ns_inv_def)
qed

theorem ns_remove_inv:
  assumes "ns_inv G" and "G p = Some (b, Dir m)" and "m n = Some t" and "n \<notin> dots" and "G t = Some (a, x)"
    and "dir_of G t = None \<and> f x = x \<or> (\<exists>k. dir_of G t = Some k \<and> dom k \<subseteq> dots) \<and> f x = Gone"
  shows "ns_inv (ns_remove p n held f G)"
proof -
  have G: "namespace_wf G" "ns_tree G"
    using assms(1) by (simp_all add: ns_inv_def)
  show ?thesis
    unfolding ns_inv_def using ns_remove_wf [where f = f, OF G(1) assms(2-6)] ns_remove_tree [where f = f, OF G assms(2-6)] by blast
qed

theorem ns_rename_inv:
  assumes "ns_inv G" and "dir_of G p = Some m" and "m n = Some t" and "n \<notin> dots" and "dir_of G q = Some k" and "k l = None"
    and "\<not> inside (dir_of G) t q"
  shows "ns_inv (ns_rename p n q l G)"
proof -
  have G: "namespace_wf G" "ns_tree G"
    using assms(1) by (simp_all add: ns_inv_def)
  have l: "l \<notin> dots"
    using wf_parts(3) [OF G(1) assms(5)] assms(6) by (auto simp: dots_def)
  have t: "t \<noteq> p" "t \<noteq> q"
    using not_own_child [OF G assms(2-4)] assms(7) inside.here by blast+
  show ?thesis
    using ns_rename_wf [OF G(1) assms(2-6) l t] ns_rename_tree [OF G assms(2-5) l t(1) assms(7)] by (simp add: ns_inv_def)
qed

lemma ns_attr_dirs: "dir_of (ns_attr t f G) = dir_of G"
  by (auto simp: ns_attr_def dir_of_def fun_eq_iff split: option.split)

lemma ns_file_dirs: "dir_of (ns_file t f G) = dir_of G"
  by (auto simp: ns_file_def dir_of_def fun_eq_iff split: option.split node.split)

theorem ns_attr_inv: "(\<And>a. a_links (f a) = a_links a) \<Longrightarrow> ns_inv (ns_attr t f G) = ns_inv G"
  by (simp add: ns_inv_def ns_attr_wf ns_tree_cong [OF ns_attr_dirs])

theorem ns_file_inv: "ns_inv (ns_file t f G) = ns_inv G"
  by (simp add: ns_inv_def ns_file_wf ns_tree_cong [OF ns_file_dirs])

theorem ns_forget_inv:
  assumes "ns_inv G"
  shows "ns_inv (ns_forget t G)"
proof -
  have G: "namespace_wf G" "ns_tree G"
    using assms by (simp_all add: ns_inv_def)
  have D: "dir_of (ns_forget t G) = dir_of G"
    using no_names(2) [OF G(1)] by (auto simp: ns_forget_def fun_upd_idem)
  have "ns_tree (ns_forget t G)"
    using G(2) ns_tree_cong [OF D] by simp
  then show ?thesis
    using ns_forget_wf [OF G(1)] by (simp add: ns_inv_def)
qed

text \<open>A fresh file system: the root and nothing in it.\<close>

definition ns_root :: "fattr \<Rightarrow> namespace" where
  "ns_root a = [0 \<mapsto> (a, Dir [[DOT, DOT] \<mapsto> 0, [DOT] \<mapsto> 0])]"

theorem ns_root_inv:
  assumes "a_links a = 1"
  shows "ns_inv (ns_root a)"
proof -
  have [simp]: "dir_of (\<lambda>_. None) = Map.empty"
    by (simp add: dir_of_def fun_eq_iff)
  have D: "dir_of (ns_root a) = [0 \<mapsto> [[DOT, DOT] \<mapsto> 0, [DOT] \<mapsto> 0]]"
    by (auto simp: ns_root_def dir_of_def fun_eq_iff)
  have "names_in (dir_of (ns_root a)) t = {}" for t
    by (auto simp: names_in_def D dots_def split: if_splits)
  then have "namespace_wf (ns_root a)"
    using assms by (auto simp: namespace_wf_def root_wf_def dirs_wf_def names_wf_def links_wf_def finite_dirs_def D is_dir_def links_of_def ns_root_def)
  moreover have "ns_tree (ns_root a)"
    by (rule ns_treeI) (auto simp: D intro: inside.here split: if_splits)
  ultimately show ?thesis
    by (simp add: ns_inv_def)
qed

end
