(* ===== verification/Path_Table.thy ===== *)
theory Path_Table
  imports Path_Walk
begin

text \<open>
  Handles on entries: opening a path takes a reference to its directory and a free handle, one
  handle per entry; closing it gives both back; an entry is looked up through its handle.
\<close>

section \<open>Below the table of open paths\<close>

lemma more_paths:
  fixes d d' :: "'x path_env_scheme"
  assumes "refs_env.more d' = refs_env.more d"
  shows "open_path_table d' = open_path_table d" "path_env.more d' = path_env.more d"
  using assms by (cases d; cases d'; simp)+

lemma paths_same_disk [simp]: "same_disk d (d\<lparr>open_path_table := x\<rparr>)"
  by (simp add: same_disk_def)

lemma paths_find_node [simp]: "find_node (d\<lparr>open_path_table := x\<rparr>) = find_node d"
  by (rule find_node_table) simp

lemma paths_refs [simp]: "refs_of (d\<lparr>open_path_table := x\<rparr>) = refs_of d" "same_files A d (d\<lparr>open_path_table := x\<rparr>)"
  using same_disk_files [OF paths_same_disk] by (simp_all add: refs_of_def fun_eq_iff)

lemma paths_refs_inv:
  assumes "refs_inv d F Is A"
  shows "refs_inv (d\<lparr>open_path_table := x\<rparr>) F Is A"
proof (rule refs_inv_same_disk [OF assms paths_same_disk])
  show "table_ok (d\<lparr>open_path_table := x\<rparr>)"
    using refs_inv_fs(2) [OF assms] table_ok_table [of "d\<lparr>open_path_table := x\<rparr>" d] by simp
qed (use assms in \<open>auto simp: refs_inv_def\<close>)

text \<open>
  \<open>settled F Is A d f table d'\<close>: the files are as they were but for access times, the references
  are \<open>f\<close>, and the table of open paths is \<open>table\<close>.
\<close>

definition settled :: "blockno set \<Rightarrow> ino list \<Rightarrow> ino set \<Rightarrow> 'x path_env_scheme \<Rightarrow> (ino \<Rightarrow> nat) \<Rightarrow> open_path_node list \<Rightarrow>
    'x path_env_scheme \<Rightarrow> bool" where
  "settled F Is A d f nodes d' \<longleftrightarrow> refs_inv d' F Is A \<and> refs_of d' = f \<and> same_files A d d' \<and> open_path_table d' = nodes"

lemma quiet_settled:
  fixes d :: "'x path_env_scheme"
  assumes "quiet F Is A d f d'"
  shows "settled F Is A d f (open_path_table d) d'" "settled F Is A d f nodes (d'\<lparr>open_path_table := nodes\<rparr>)"
proof -
  have q: "refs_inv d' F Is A" "refs_of d' = f" "same_files A d d'" "refs_env.more d' = refs_env.more d"
    using assms by (simp_all add: quiet_def)
  show "settled F Is A d f (open_path_table d) d'"
    using q more_paths(1) [OF q(4)] by (simp add: settled_def)
  show "settled F Is A d f nodes (d'\<lparr>open_path_table := nodes\<rparr>)"
    using q(2) paths_refs_inv [OF q(1)] same_files_trans [OF q(3) paths_refs(2)] by (simp add: settled_def)
qed

lemma settled_quiet:
  fixes d :: "'x path_env_scheme"
  assumes "settled F Is A d f nodes d1" and "quiet F Is A d1 g d2"
  shows "settled F Is A d g nodes d2"
  using assms quiet_settled(1) [OF assms(2)] same_files_trans by (auto simp: settled_def)

section \<open>The loop over the handles\<close>

lemma scan_handles_free: "\<forall>node \<in> set nodes. \<not> names_entry node curdir token \<Longrightarrow>
    \<exists>h. scan_handles nodes handle curdir token noblock chosen = Some (Inr h)"
  by (induction nodes arbitrary: handle chosen) (auto simp: names_entry_def)

lemma scan_handles_hit:
  assumes "k < length nodes" and "names_entry (nodes ! k) curdir token" and "\<forall>j < k. \<not> names_entry (nodes ! j) curdir token"
  shows "scan_handles nodes handle curdir token noblock chosen =
    (if noblock = handle + int k \<or> noblock = -2 then Some (Inl ()) else None)"
  using assms
proof (induction nodes arbitrary: k handle chosen)
  case (Cons node nodes)
  show ?case
  proof (cases k)
    case 0
    then show ?thesis
      using Cons.prems by (simp add: names_entry_def)
  next
    case (Suc j)
    have "\<not> names_entry node curdir token" "\<forall>i < j. \<not> names_entry (nodes ! i) curdir token"
      using Cons.prems(3) Suc by auto
    then show ?thesis
      using Cons.IH [of j] Cons.prems Suc by (auto simp: names_entry_def)
  qed
qed simp

section \<open>Opening\<close>

text \<open>What the last component of a path may be for \<open>path_open\<close>.\<close>

definition target_ok :: "'x disk_t_scheme \<Rightarrow> ino set \<Rightarrow> cred \<Rightarrow> ino \<Rightarrow> byte list \<Rightarrow> bool \<Rightarrow> bool" where
  "target_ok d A c p n deref \<longleftrightarrow> \<not> may_search d c p \<or> dir_entry d p n None \<or>
     (\<exists>t. dir_entry d p n (Some t) \<and> linked d A t \<and> \<not> (deref \<and> S_ISLNK (imode (inode_at d t))))"

definition entry_path :: "byte list list \<Rightarrow> byte list \<Rightarrow> byte list" where
  "entry_path ns n = SLASH # dirs_string ns @ n"

lemma last_dirs: "last (SLASH # dirs_string ns) = SLASH"
  by (induction ns rule: rev_induct) (simp_all add: dirs_string_def)

lemma entry_path_last: "good_name n \<Longrightarrow> last_token (entry_path ns n) = n"
  using last_token_spec(1) [of n "SLASH # dirs_string ns" 0] last_dirs [of ns] by (simp add: entry_path_def good_name_def)

lemma path_open_namei:
  fixes d :: "'x path_env_scheme"
  assumes res: "resolvable F Is A d (caller user grp) ns p" and ok: "target_ok d A (caller user grp) p n deref" and name: "good_name n"
  shows "\<exists>d'. quiet F Is A d (inc (refs_of d) p) d' \<and> path_open d (entry_path ns n) deref user grp noblock =
    do { scanned \<leftarrow> scan_handles (open_path_table d) 0 p n noblock (-1);
         case scanned of
           Inl _ \<Rightarrow> do { d \<leftarrow> close_ok d' p; Some (- EWOULDBLOCK, d) }
         | Inr chosen \<Rightarrow>
             if chosen = -1 then do { d \<leftarrow> close_ok d' p; Some (- ENOMEM, d) }
             else Some (chosen, d'\<lparr>open_path_table := (open_path_table d)[nat chosen := \<lparr>path_refs = 1, parent_dir = p, path_name = n\<rparr>]\<rparr>) }"
proof -
  have "\<exists>target d1 d'. namei d (entry_path ns n) (Some EOF) EOF deref user grp = Some (target, p, d1) \<and>
      (0 \<le> sint target \<or> target = EOF) \<and> (if target \<noteq> EOF then close_ok d1 target else Some d1) = Some d' \<and> quiet F Is A d (inc (refs_of d) p) d'"
  proof (cases "\<exists>t. may_search d (caller user grp) p \<and> dir_entry d p n (Some t) \<and> linked d A t \<and> \<not> (deref \<and> S_ISLNK (imode (inode_at d t)))")
    case True
    then obtain t where t: "may_search d (caller user grp) p" "dir_entry d p n (Some t)" "linked d A t" "\<not> (deref \<and> S_ISLNK (imode (inode_at d t)))"
      by blast
    have tA: "t \<in> A" "0 \<le> sint t" "t \<noteq> EOF"
      using t(3) res ino_nonneg [OF refs_inv_fs(1)] unfolding linked_def resolvable_def by blast+
    obtain d1 where d1: "namei d (entry_path ns n) (Some EOF) EOF deref user grp = Some (t, p, d1)" "quiet F Is A d (inc (inc (refs_of d) t) p) d1"
      using namei_found [OF res _ t(1,2) name tA(1) t(4), of "Some EOF"] by (auto simp: entry_path_def)
    obtain d2 where "close_ok d1 t = Some d2" "quiet F Is A d1 (inc (refs_of d) p) d2"
      using close_ok_spec [of d1 F Is A t "inc (refs_of d) p"] d1(2) quiet_linked [OF d1(2)] t(3) by (auto simp: quiet_def inc_commute)
    then show ?thesis
      using d1 tA quiet_trans [OF d1(2)] by auto
  next
    case False
    then have absent: "may_search d (caller user grp) p \<Longrightarrow> dir_entry d p n None"
      using ok by (auto simp: target_ok_def)
    obtain d1 where "namei d (entry_path ns n) (Some EOF) EOF deref user grp = Some (EOF, p, d1)" "quiet F Is A d (inc (refs_of d) p) d1"
      using namei_absent [OF res _ absent name, of "Some EOF" deref] by (auto simp: entry_path_def)
    then show ?thesis
      by auto
  qed
  then obtain target d1 d' where t: "namei d (entry_path ns n) (Some EOF) EOF deref user grp = Some (target, p, d1)"
      "0 \<le> sint target \<or> target = EOF" "(if target \<noteq> EOF then close_ok d1 target else Some d1) = Some d'" "quiet F Is A d (inc (refs_of d) p) d'"
    by blast
  have "open_path_table d' = open_path_table d"
    using t(4) more_paths(1) by (auto simp: quiet_def)
  moreover have "(sint target < 0 \<and> target \<noteq> EOF) = False"
    using t(2) by auto
  ultimately show ?thesis
    using t(1,3,4) entry_path_last [OF name] name
    by (intro exI [of _ d']) (simp add: path_open_def good_name_def Let_def cong: if_cong sum.case_cong del: de_Morgan_conj)
qed

theorem path_open_spec:
  fixes d :: "'x path_env_scheme"
  assumes res: "resolvable F Is A d (caller user grp) ns p" and ok: "target_ok d A (caller user grp) p n deref" and name: "good_name n"
    and new: "\<forall>node \<in> set (open_path_table d). \<not> names_entry node p n" and free: "\<exists>node \<in> set (open_path_table d). path_refs node = 0"
  shows "\<exists>h d'. path_open d (entry_path ns n) deref user grp noblock = Some (int h, d') \<and> h < length (open_path_table d) \<and>
    path_refs (open_path_table d ! h) = 0 \<and>
    settled F Is A d (inc (refs_of d) p) ((open_path_table d)[h := \<lparr>path_refs = 1, parent_dir = p, path_name = n\<rparr>]) d'"
proof -
  obtain r where r: "scan_handles (open_path_table d) 0 p n noblock (-1) = Some (Inr r)"
    using scan_handles_free [OF new] by blast
  then obtain h where h: "h < length (open_path_table d)" "r = int h" "path_refs (open_path_table d ! h) = 0"
    using scan_handles_spec [OF r] free by (auto simp: scan_result_def)
  then show ?thesis
    using path_open_namei [OF res ok name, of noblock] r quiet_settled(2) by fastforce
qed

theorem path_open_full:
  fixes d :: "'x path_env_scheme"
  assumes res: "resolvable F Is A d (caller user grp) ns p" and ok: "target_ok d A (caller user grp) p n deref" and name: "good_name n"
    and new: "\<forall>node \<in> set (open_path_table d). \<not> names_entry node p n" and full: "\<forall>node \<in> set (open_path_table d). path_refs node \<noteq> 0"
  shows "\<exists>d'. path_open d (entry_path ns n) deref user grp noblock = Some (- ENOMEM, d') \<and> quiet F Is A d (refs_of d) d'"
proof -
  obtain r where r: "scan_handles (open_path_table d) 0 p n noblock (-1) = Some (Inr r)"
    using scan_handles_free [OF new] by blast
  then have "r = -1"
    using scan_handles_spec [OF r] full by (auto simp: scan_result_def)
  moreover obtain d' where d': "quiet F Is A d (inc (refs_of d) p) d'" "path_open d (entry_path ns n) deref user grp noblock =
      do { d \<leftarrow> close_ok d' p; Some (- ENOMEM, d) }"
    using path_open_namei [OF res ok name, of noblock] r \<open>r = -1\<close> by auto
  moreover have "linked d A p"
    using resolvable_linked(2) [OF res] .
  ultimately show ?thesis
    using close_ok_spec [of d' F Is A p "refs_of d"] quiet_linked [OF d'(1)] quiet_trans [OF d'(1)] by (auto simp: quiet_def)
qed

theorem path_open_busy:
  fixes d :: "'x path_env_scheme"
  assumes res: "resolvable F Is A d (caller user grp) ns p" and ok: "target_ok d A (caller user grp) p n deref" and name: "good_name n"
    and k: "k < length (open_path_table d)" "names_entry (open_path_table d ! k) p n" and excl: "paths_exclusive (open_path_table d)"
  shows "if noblock = int k \<or> noblock = -2 then
      \<exists>d'. path_open d (entry_path ns n) deref user grp noblock = Some (- EWOULDBLOCK, d') \<and> quiet F Is A d (refs_of d) d'
    else path_open d (entry_path ns n) deref user grp noblock = None"
proof -
  have "\<forall>j < k. \<not> names_entry (open_path_table d ! j) p n"
    using excl k unfolding paths_exclusive_def names_entry_def by force
  note hit = scan_handles_hit [OF k this, of 0 noblock "-1"]
  obtain d' where d': "quiet F Is A d (inc (refs_of d) p) d'" "path_open d (entry_path ns n) deref user grp noblock =
      (if noblock = int k \<or> noblock = -2 then do { d \<leftarrow> close_ok d' p; Some (- EWOULDBLOCK, d) } else None)"
    using path_open_namei [OF res ok name, of noblock] hit by (auto split: if_splits)
  have "linked d' A p"
    using resolvable_linked(2) [OF res] quiet_linked [OF d'(1)] by simp
  then obtain d2 where "close_ok d' p = Some d2" "quiet F Is A d' (refs_of d) d2"
    using close_ok_spec [of d' F Is A p "refs_of d"] d'(1) by (auto simp: quiet_def)
  then show ?thesis
    using d'(2) quiet_trans [OF d'(1)] by auto
qed

text \<open>Taking a free handle for an entry that has none keeps the handles exclusive.\<close>

lemma paths_exclusive_open:
  assumes "paths_exclusive nodes" and "\<forall>node \<in> set nodes. \<not> names_entry node p n" and "h < length nodes"
  shows "paths_exclusive (nodes[h := \<lparr>path_refs = r, parent_dir = p, path_name = n\<rparr>])"
  using assms unfolding paths_exclusive_def names_entry_def
  by (auto simp: nth_list_update all_set_conv_all_nth split: if_splits)

lemma paths_exclusive_close:
  assumes "paths_exclusive nodes" and "path_refs node = 0" and "h < length nodes"
  shows "paths_exclusive (nodes[h := node])"
  using assms unfolding paths_exclusive_def by (auto simp: nth_list_update split: if_splits)

section \<open>Closing and looking up\<close>

definition open_handle :: "'x path_env_scheme \<Rightarrow> int \<Rightarrow> open_path_node \<Rightarrow> bool" where
  "open_handle d h node \<longleftrightarrow> path_node d h = Some node \<and> path_refs node = 1"

theorem path_close_spec:
  fixes d :: "'x path_env_scheme"
  assumes inv: "refs_inv d F Is A" and h: "open_handle d h node" and refs: "refs_of d = inc f (parent_dir node)" "linked d A (parent_dir node)"
  shows "\<exists>d'. path_close d h = Some (0, d') \<and>
    settled F Is A d f ((open_path_table d)[nat h := node\<lparr>path_refs := 0\<rparr>]) d'"
proof -
  let ?t = "(open_path_table d)[nat h := node\<lparr>path_refs := 0\<rparr>]"
  let ?d = "d\<lparr>open_path_table := ?t\<rparr>"
  have s: "settled F Is A d (refs_of d) ?t ?d"
    using quiet_settled(2) [OF quiet_refl [OF inv]] .
  have "linked ?d A (parent_dir node)"
    using refs(2) same_disk_file(1) [OF paths_same_disk [of d ?t]] by (simp add: linked_def same_file_def)
  then obtain d' where d': "close_ok ?d (parent_dir node) = Some d'" "quiet F Is A ?d f d'"
    using close_ok_spec [of ?d F Is A "parent_dir node" f] paths_refs_inv [OF inv] refs(1) by auto
  then show ?thesis
    using h settled_quiet [OF s] by (auto simp: path_close_def open_handle_def Let_def)
qed

theorem path_get_spec:
  fixes d :: "'x path_env_scheme"
  assumes inv: "refs_inv d F Is A" and h: "path_node d h = Some node" and p: "parent_dir node \<in> A" and name: "length (path_name node) \<le> NAME_MAX"
    and entry: "dir_entry d (parent_dir node) (path_name node) x"
  shows "x = Some t \<Longrightarrow> t \<in> A \<Longrightarrow> refs_of d t < 2 ^ 32 - 1 \<Longrightarrow> \<exists>d'. path_get d h = Some (t, d') \<and> quiet F Is A d (inc (refs_of d) t) d'"
    and "x = None \<Longrightarrow> \<exists>d'. path_get d h = Some (of_int (- ENOENT), d') \<and> quiet F Is A d (refs_of d) d'"
proof -
  obtain ess where ess: "dir_rep d (parent_dir node) ess" "dir_map ess (path_name node) = x"
    using entry by (auto simp: dir_entry_def)
  show "\<exists>d'. path_get d h = Some (t, d') \<and> quiet F Is A d (inc (refs_of d) t) d'" if "x = Some t" "t \<in> A" "refs_of d t < 2 ^ 32 - 1"
    using refs_dir_lookup_open_spec [OF inv p ess(1) name _ that(2,3)] ess(2) that(1) h
    by (auto simp: path_get_def quiet_def inc_def)
  show "\<exists>d'. path_get d h = Some (of_int (- ENOENT), d') \<and> quiet F Is A d (refs_of d) d'" if "x = None"
    using refs_dir_lookup_open_absent [OF inv p ess(1) name] ess(2) that h
    by (auto simp: path_get_def quiet_def)
qed

end
