(* ===== verification/Path_Step.thy ===== *)
theory Path_Step
  imports Path_Table Mkfs_Root
begin

text \<open>
  The steps that the operations on an entry are made of: an entry more, an entry less, a link
  more or less, and a reference given back.
\<close>

section \<open>One change after another\<close>

text \<open>
  \<open>stepped B d F Is A f d'\<close>: the files in \<open>B\<close> are as they were but for access times, the references
  are \<open>f\<close>, and the handles are as they were.
\<close>

definition stepped :: "ino set \<Rightarrow> 'x path_env_scheme \<Rightarrow> blockno set \<Rightarrow> ino list \<Rightarrow> ino set \<Rightarrow> (ino \<Rightarrow> nat) \<Rightarrow> 'x path_env_scheme \<Rightarrow> bool" where
  "stepped B d F Is A f d' \<longleftrightarrow> refs_inv d' F Is A \<and> refs_of d' = f \<and> same_files B d d' \<and> open_path_table d' = open_path_table d"

lemma stepped_trans: "stepped B d F Is A f d1 \<Longrightarrow> stepped B d1 F' Is' A' g d2 \<Longrightarrow> stepped B d F' Is' A' g d2"
  using same_files_trans by (auto simp: stepped_def)

lemma same_files_mono: "same_files B d d' \<Longrightarrow> C \<subseteq> B \<Longrightarrow> same_files C d d'"
  by (auto simp: same_files_def)

lemma stepped_mono: "stepped B d F Is A f d' \<Longrightarrow> C \<subseteq> B \<Longrightarrow> stepped C d F Is A f d'"
  using same_files_mono by (auto simp: stepped_def)

lemma quiet_stepped:
  fixes d :: "'x path_env_scheme"
  assumes "quiet F Is A d f d'" and "B \<subseteq> A"
  shows "stepped B d F Is A f d'"
  using assms more_paths(1) [of d' d] same_files_mono by (auto simp: quiet_def stepped_def)

lemma same_file_files: "\<forall>j \<in> B. same_file d d' j \<Longrightarrow> same_files B d d'"
  by (simp add: same_files_def same_file_def)

lemma result_stepped:
  fixes d :: "'x path_env_scheme"
  assumes "refs_inv d F Is A" and "fs_result A i d d' F' Is' A" and "same_attr (inode_at d i) (inode_at d' i)" and "B \<subseteq> A - {i}"
  shows "stepped B d F' Is' A (refs_of d) d'"
  using refs_inv_attr [OF assms(1-3)] more_paths(1) [of d' d] assms(2,4) same_file_files [of B d d']
  by (auto simp: stepped_def fs_result_def)

text \<open>A step that gave back what it took.\<close>

lemma unchanged_stepped:
  fixes d :: "'x path_env_scheme"
  assumes inv: "refs_inv d F Is A" and d': "fs_inv d' F' Is' A" "\<forall>j \<in> A. same_file d d' j" "changed UNIV d d'"
  shows "stepped A d F' Is' A (refs_of d) d'"
proof -
  have "fs_result A 0 d d' F' Is' A" "0 \<in> A \<Longrightarrow> inlinks (inode_at d' 0) = inlinks (inode_at d 0)"
    using d' by (simp_all add: fs_result_def same_file_def)
  from refs_inv_result [OF inv this] show ?thesis
    using more_paths(1) [of d' d] same_file_files [of A d d'] d'(2) by (auto simp: stepped_def)
qed

lemma content_fsize:
  assumes "content d' i = content d i" and "refs_inv d F Is A" and "refs_inv d' F' Is' A'" and "i \<in> A" and "i \<in> A'"
  shows "fsize d' i = fsize d i"
proof -
  have "nat (fsize d' i) = nat (fsize d i)"
    using length_content assms(1) by metis
  moreover have "0 \<le> fsize d i" "0 \<le> fsize d' i"
    using fs_inv_inode(7) [OF refs_inv_fs(1) [OF assms(2)] assms(4)] fs_inv_inode(7) [OF refs_inv_fs(1) [OF assms(3)] assms(5)] by blast+
  ultimately show ?thesis
    by simp
qed

lemma stepped_fsize:
  assumes "stepped B d F' Is' A' f d'" and "refs_inv d F Is A" and "i \<in> B" and "i \<in> A" and "i \<in> A'"
  shows "fsize d' i = fsize d i"
  using content_fsize [of d' i d F Is A F' Is' A'] assms by (simp add: stepped_def same_files_def)

lemma stepped_dir: "stepped B d F Is A f d' \<Longrightarrow> i \<in> B \<Longrightarrow> dir_rep d i ess \<Longrightarrow> dir_rep d' i ess"
  using same_files_dir by (auto simp: stepped_def)

definition may_write :: "'x disk_t_scheme \<Rightarrow> u32 \<Rightarrow> u32 \<Rightarrow> ino \<Rightarrow> bool" where
  "may_write d user grp i \<longleftrightarrow> allowed (inode_at d i) PERM_WRITE user grp"

lemma stepped_write: "stepped B d F Is A f d' \<Longrightarrow> i \<in> B \<Longrightarrow> may_write d' user grp i = may_write d user grp i"
  unfolding may_write_def stepped_def same_files_def using allowed_attr by blast

lemma perm_check_write:
  assumes "refs_inv d F Is A" and "i \<in> A"
  shows "perm_check d i PERM_WRITE user grp = Some (if may_write d user grp i then 0 else - EACCES)"
  using perm_check_spec [OF refs_inv_fs(1) [OF assms(1)] assms(2), of PERM_WRITE] by (simp add: PERM_WRITE_def may_write_def)

lemma linked_same: "same_attr (inode_at d p) (inode_at d' p) \<Longrightarrow> linked d A p \<Longrightarrow> p \<in> A' \<Longrightarrow> linked d' A' p"
  by (simp add: linked_def same_attr_def)

lemma attr_chain:
  assumes "same_files A d d1" and "p \<in> A" and "same_attr (inode_at d1 p) (inode_at d2 p)" and "same_files A' d2 d3" and "p \<in> A'"
  shows "same_attr (inode_at d p) (inode_at d3 p)"
  using assms same_attr_trans unfolding same_files_def by blast

text \<open>\<open>roomier d F i d' F'\<close>: inode \<open>i\<close> has not grown, and it may still grow to all that it could.\<close>

definition roomier :: "'x disk_t_scheme \<Rightarrow> blockno set \<Rightarrow> ino \<Rightarrow> 'y disk_t_scheme \<Rightarrow> blockno set \<Rightarrow> bool" where
  "roomier d F i d' F' \<longleftrightarrow> fsize d' i \<le> fsize d i \<and> card F + slots_count (fcount_blocks d i) \<le> card F' + slots_count (fcount_blocks d' i)"

lemma roomier_trans: "roomier d F i d1 F1 \<Longrightarrow> roomier d1 F1 i d2 F2 \<Longrightarrow> roomier d F i d2 F2"
  by (simp add: roomier_def)

lemma roomier_same: "fsize d' i = fsize d i \<Longrightarrow> card F \<le> card F' \<Longrightarrow> roomier d F i d' F'"
  by (simp add: roomier_def fcount_blocks_def)

lemma roomier_enough:
  assumes "roomier d F i d' F'" and "enough d F i (fsize d i + BLOCKSIZE)" and "fsize d i + BLOCKSIZE \<le> MAX_FILESIZE" and "0 \<le> fsize d' i"
  shows "enough d' F' i (fsize d' i + BLOCKSIZE)" "fsize d' i + BLOCKSIZE \<le> MAX_FILESIZE"
proof -
  have "slots_count (blockcount_of (fsize d' i + BLOCKSIZE)) \<le> slots_count (blockcount_of (fsize d i + BLOCKSIZE))"
    using assms(1,4) by (intro slots_count_mono blockcount_mono) (simp_all add: roomier_def)
  then show "enough d' F' i (fsize d' i + BLOCKSIZE)" "fsize d' i + BLOCKSIZE \<le> MAX_FILESIZE"
    using assms(1-3) by (simp_all add: roomier_def enough_def)
qed

lemma stepped_grown:
  assumes "stepped B d F' Is' A' f d'" and "refs_inv d F Is A" and "i \<in> B \<and> i \<in> A \<and> i \<in> A'" and "F \<subseteq> F'"
  shows "roomier d F i d' F'"
proof (rule roomier_same)
  show "fsize d' i = fsize d i"
    using stepped_fsize [OF assms(1,2)] assms(3) by blast
  have "refs_inv d' F' Is' A'"
    using assms(1) by (simp add: stepped_def)
  then have "finite F'"
    by (rule store_inv_dest(7) [OF fs_inv_store [OF refs_inv_fs(1)]])
  then show "card F \<le> card F'"
    using assms(4) by (rule card_mono)
qed

section \<open>Linking and unlinking\<close>

text \<open>The entry that a handle stands for, in a directory that is in use.\<close>

definition at_entry :: "'x path_env_scheme \<Rightarrow> ino set \<Rightarrow> int \<Rightarrow> ino \<Rightarrow> byte list \<Rightarrow> dirent list list \<Rightarrow> bool" where
  "at_entry d A h p n ess \<longleftrightarrow> (\<exists>node. path_node d h = Some node \<and> parent_dir node = p \<and> path_name node = n) \<and>
     p \<in> A \<and> dir_rep d p ess \<and> ess \<noteq> [] \<and> good_name n \<and> 0 \<notin> set n"

text \<open>The inode with another number of links; only its times may differ otherwise.\<close>

definition relinked :: "inode_t \<Rightarrow> u64 \<Rightarrow> inode_t \<Rightarrow> bool" where
  "relinked a k b \<longleftrightarrow> same_attr (a\<lparr>inlinks := k\<rparr>) b"

lemma relinked_links: "relinked a k b \<Longrightarrow> inlinks b = k"
  by (simp add: relinked_def same_attr_def)

lemma relinked_before: "same_attr a b \<Longrightarrow> relinked b k c \<Longrightarrow> relinked a k c"
  by (simp add: relinked_def same_attr_def)

lemma relinked_after: "relinked a k b \<Longrightarrow> same_attr b c \<Longrightarrow> relinked a k c"
  by (simp add: relinked_def same_attr_def)

lemma refs_step:
  fixes d :: "'x path_env_scheme"
  assumes "refs_inv d F Is A" and "\<forall>j \<in> A - {i}. same_file d d' j" and "refs_env.more d' = refs_env.more d"
    and "refs_inv d' F' Is' A'" and "refs_of d' = f" and "B \<subseteq> A - {i}"
  shows "stepped B d F' Is' A' f d'"
  using assms more_paths(1) [OF assms(3)] same_file_files [of B d d'] by (auto simp: stepped_def)

text \<open>An entry more and an entry less.\<close>

lemma insert_step:
  fixes d :: "'x path_env_scheme"
  assumes inv: "refs_inv d F Is A" and dir: "q \<in> A" "dir_rep d q ess" "dir_map ess l = None" and name: "good_name l" "0 \<notin> set l" and t: "t \<in> A"
    and room: "enough d F q (fsize d q + BLOCKSIZE)" "fsize d q + BLOCKSIZE \<le> MAX_FILESIZE"
  shows "\<exists>d' F' ess'. dir_insert d q l t = Some (0, d') \<and> stepped (A - {q}) d F' Is A (refs_of d) d' \<and>
    dir_rep d' q ess' \<and> dir_map ess' = (dir_map ess)(l \<mapsto> t) \<and> same_attr (inode_at d q) (inode_at d' q) \<and> length ess' \<le> Suc (length ess) \<and>
    card F + slots_count (fcount_blocks d q) = card F' + slots_count (fcount_blocks d' q)"
proof -
  have "t \<noteq> EOF"
    using ino_nonneg [OF refs_inv_fs(1) [OF inv] t] by simp
  moreover have "ess \<noteq> []"
    using dir(2) by (auto simp: dir_rep_def dir_ok_def proper_def)
  moreover have "length l \<le> NAME_MAX"
    using name(1) by (simp add: good_name_def)
  ultimately obtain d' F' ess' where "dir_insert d q l t = Some (0, d')" "fs_result A q d d' F' Is A" "dir_rep d' q ess'"
      "dir_map ess' = (dir_map ess)(l \<mapsto> t)" "same_attr (inode_at d q) (inode_at d' q)" "length ess' \<le> Suc (length ess)"
    using dir_insert_spec [OF refs_inv_fs(1) [OF inv] dir(1,2) _ _ name(2) dir(3) _ room] by blast
  then show ?thesis
    using result_stepped [OF inv] result_card [OF refs_inv_fs(1) [OF inv] _ dir(1)] by blast
qed

lemma remove_step:
  fixes d :: "'x path_env_scheme"
  assumes inv: "refs_inv d F Is A" and dir: "p \<in> A" "dir_rep d p ess" "dir_map ess n = Some t"
    and name: "length n \<le> NAME_MAX" "n \<noteq> [DOT]" "n \<noteq> [DOT, DOT]"
  shows "\<exists>d' F' ess'. dir_remove d p n = Some (t, d') \<and> stepped (A - {p}) d F' Is A (refs_of d) d' \<and>
    dir_rep d' p ess' \<and> dir_map ess' = (dir_map ess)(n := None) \<and> same_attr (inode_at d p) (inode_at d' p) \<and> roomier d F p d' F'"
proof -
  note fs = refs_inv_fs(1) [OF inv]
  have "ess \<noteq> []"
    using dir(2) by (auto simp: dir_rep_def dir_ok_def proper_def)
  then obtain d' F' ess' where "dir_remove d p n = Some (t, d')" "fs_result A p d d' F' Is A" "dir_rep d' p ess'"
      "dir_map ess' = (dir_map ess)(n := None)" "same_attr (inode_at d p) (inode_at d' p)" "length ess' \<le> length ess"
    using dir_remove_spec [OF fs dir(1,2) _ name] dir(3) by (auto simp: remove_outcome_def remove_result_def)
  moreover have "fs_inv d' F' Is A"
    using calculation(2) by (simp add: fs_result_def)
  then have "roomier d F p d' F'"
    using result_card [OF fs calculation(2) dir(1)] dir_rep_size [OF fs dir(1,2)] dir_rep_size [OF _ dir(1) calculation(3)] calculation(6)
    by (simp add: roomier_def)
  ultimately show ?thesis
    using result_stepped [OF inv] by blast
qed

text \<open>Giving back the last reference to an inode without links frees the inode.\<close>

lemma close_ok_any:
  fixes d :: "'x path_env_scheme"
  assumes inv: "refs_inv d F Is A" and refs: "refs_of d = inc f i" and i: "i \<in> A"
  shows "\<exists>d' F' Is' A'. close_ok d i = Some d' \<and> A' = (if inlinks (inode_at d i) = 0 \<and> f i = 0 then A - {i} else A) \<and>
    stepped (A - {i}) d F' Is' A' f d' \<and> (i \<in> A' \<longrightarrow> inode_at d' i = inode_at d i \<and> content d' i = content d i) \<and> F \<subseteq> F'"
proof (cases "inlinks (inode_at d i) = 0 \<and> f i = 0")
  case True
  then have "refs_of d i = 1" "(refs_of d)(i := 0) = f"
    using refs by (auto simp: inc_def)
  then obtain d' where d': "refs_close d i = Some (0, d')" "refs_inv d' (F \<union> own d i) (i # Is) (A - {i})" "refs_of d' = f"
    "\<forall>j \<in> A - {i}. same_file d d' j" "refs_env.more d' = refs_env.more d"
    using refs_close_last [OF inv] True by metis
  have "stepped (A - {i}) d (F \<union> own d i) (i # Is) (A - {i}) f d'"
    by (rule refs_step [OF inv d'(4,5,2,3)]) simp
  moreover have "close_ok d i = Some d'"
    using d'(1) by (simp add: close_ok_def)
  ultimately show ?thesis
    using True by auto
next
  case False
  have "0 < refs_of d i" "1 < refs_of d i \<or> inlinks (inode_at d i) \<noteq> 0" "(refs_of d)(i := refs_of d i - 1) = f"
    using refs False by (auto simp: inc_def)
  then obtain d' where d': "refs_close d i = Some (0, d')" "same_disk d d'" "refs_inv d' F Is A" "refs_of d' = f"
    "refs_env.more d' = refs_env.more d"
    using refs_close_spec [OF inv] by metis
  have same: "same_file d d' j" for j
    using same_disk_file(1) [OF d'(2)] .
  have "stepped (A - {i}) d F Is A f d'"
    by (rule refs_step [OF inv _ d'(5,3,4)]) (use same in auto)
  moreover have "close_ok d i = Some d'"
    using d'(1) by (simp add: close_ok_def)
  moreover have "inode_at d' i = inode_at d i" "content d' i = content d i"
    using same [of i] by (simp_all add: same_file_def)
  ultimately show ?thesis
    using False by auto
qed

lemma remove_and_unlink_spec:
  fixes d :: "'x path_env_scheme"
  assumes inv: "refs_inv d F Is A" and entry: "p \<in> A" "dir_rep d p ess" "ess \<noteq> []" "dir_map ess n = Some t"
    and name: "length n \<le> NAME_MAX" "n \<noteq> [DOT]" "n \<noteq> [DOT, DOT]" and t: "t \<in> A" "t \<noteq> p" and refs: "refs_of d = inc f t"
    and node: "parent_dir node = p" "path_name node = n"
  shows "\<exists>d' F' Is' A' ess'. remove_and_unlink d node t = Some d' \<and>
    A' = (if inlinks (inode_at d t) = 1 \<and> f t = 0 then A - {t} else A) \<and> stepped (A - {p, t}) d F' Is' A' f d' \<and>
    dir_rep d' p ess' \<and> dir_map ess' = (dir_map ess)(n := None) \<and> same_attr (inode_at d p) (inode_at d' p) \<and>
    (t \<in> A' \<longrightarrow> relinked (inode_at d t) (inlinks (inode_at d t) - 1) (inode_at d' t) \<and> content d' t = content d t) \<and>
    roomier d F p d' F'"
proof -
  obtain d1 F1 ess' where d1: "dir_remove d p n = Some (t, d1)" "stepped (A - {p}) d F1 Is A (refs_of d) d1" "dir_rep d1 p ess'"
      "dir_map ess' = (dir_map ess)(n := None)" "same_attr (inode_at d p) (inode_at d1 p)" "roomier d F p d1 F1"
    using remove_step [OF inv entry(1,2,4) name] by blast
  have s1: "stepped (A - {p}) d F1 Is A (inc f t) d1"
    using d1(2) refs by simp
  have t1: "same_attr (inode_at d t) (inode_at d1 t)" "content d1 t = content d t"
    using d1(2) t by (simp_all add: stepped_def same_files_def)
  have inv1: "refs_inv d1 F1 Is A" "0 < refs_of d1 t"
    using s1 by (simp_all add: stepped_def)
  obtain d2 ts where d2: "refs_unlink d1 t = Some (0, d2)" "refs_inv d2 F1 Is A" "refs_of d2 = refs_of d1"
      "inode_at d2 t = (inode_at d1 t)\<lparr>inlinks := inlinks (inode_at d1 t) - 1, last_statchange := ts\<rparr>"
      "content d2 t = content d1 t" "\<forall>j \<in> A - {t}. same_file d1 d2 j" "refs_env.more d2 = refs_env.more d1"
    using refs_unlink_spec [OF inv1] by blast
  have s2: "stepped (A - {t}) d1 F1 Is A (inc f t) d2"
    using refs_step [OF inv1(1) d2(6,7,2) refl, of "A - {t}"] d2(3) s1 by (simp add: stepped_def)
  have "refs_of d2 = inc f t"
    using s2 by (simp add: stepped_def)
  from close_ok_any [OF d2(2) this t(1)]
  obtain d3 F' Is' A' where d3: "close_ok d2 t = Some d3" "A' = (if inlinks (inode_at d2 t) = 0 \<and> f t = 0 then A - {t} else A)"
      "stepped (A - {t}) d2 F' Is' A' f d3" "t \<in> A' \<longrightarrow> inode_at d3 t = inode_at d2 t \<and> content d3 t = content d2 t" "F1 \<subseteq> F'"
    by blast
  have s23: "stepped (A - {t}) d1 F' Is' A' f d3"
    by (rule stepped_trans [OF s2 d3(3)])
  have "stepped (A - {p, t}) d F' Is' A' f d3"
    by (rule stepped_trans [OF stepped_mono [OF s1] stepped_mono [OF s23]]) auto
  moreover have "dir_rep d3 p ess'"
    using stepped_dir [OF s23 _ d1(3)] entry(1) t(2) by blast
  moreover have "roomier d1 F1 p d3 F'"
    using stepped_grown [OF s23 inv1(1) _ d3(5)] entry(1) t(2) d3(2) by simp
  then have "roomier d F p d3 F'"
    by (rule roomier_trans [OF d1(6)])
  moreover have "same_attr (inode_at d p) (inode_at d3 p)"
    using s23 entry(1) t(2) same_attr_trans [OF d1(5)] by (auto simp: stepped_def same_files_def)
  moreover have "(inlinks (inode_at d2 t) = 0) = (inlinks (inode_at d t) = 1)"
    using d2(4) t1(1) by (simp add: same_attr_def)
  moreover have "remove_and_unlink d node t = Some d3"
    using d1(1) d2(1) d3(1) node by (simp add: remove_and_unlink_def)
  ultimately show ?thesis
    using d1(4) d2(4,5) d3(2,4) t1
    by (intro exI [of _ d3] exI [of _ F'] exI [of _ Is'] exI [of _ A'] exI [of _ ess']) (simp add: relinked_def same_attr_def)
qed

lemma at_entry_parts:
  assumes "at_entry d A h p n ess"
  obtains node where "path_node d h = Some node" "parent_dir node = p" "path_name node = n"
  using assms by (auto simp: at_entry_def)

end
