(* ===== verification/Path_Ops.thy ===== *)
theory Path_Ops
  imports Path_Step
begin

text \<open>
  Operations on an entry through its handle: each changes the directory, as a map, in the one
  name, keeps the number of links of the inode in step with it, and gives back every reference
  it took.
\<close>

section \<open>Names of an inode\<close>

theorem path_link_spec:
  fixes d :: "'x path_env_scheme"
  assumes inv: "refs_inv d F Is A" and at: "at_entry d A h p n ess" and absent: "dir_map ess n = None"
    and t: "t \<in> A" "0 < refs_of d t" "\<not> S_ISDIR (imode (inode_at d t))" and permit: "may_write d user grp p"
    and room: "enough d F p (fsize d p + BLOCKSIZE)" "fsize d p + BLOCKSIZE \<le> MAX_FILESIZE"
  shows "\<exists>d' F' ess'. path_link d h t user grp = Some (0, d') \<and> stepped (A - {p, t}) d F' Is A (refs_of d) d' \<and>
    dir_rep d' p ess' \<and> dir_map ess' = (dir_map ess)(n \<mapsto> t) \<and>
    relinked (inode_at d t) (inlinks (inode_at d t) + 1) (inode_at d' t) \<and> content d' t = content d t \<and> same_attr (inode_at d p) (inode_at d' p) \<and>
    length ess' \<le> Suc (length ess) \<and> card F + slots_count (fcount_blocks d p) = card F' + slots_count (fcount_blocks d' p)"
proof -
  obtain node where node: "path_node d h = Some node" "parent_dir node = p" "path_name node = n"
    using at_entry_parts [OF at] .
  have p: "p \<in> A" "dir_rep d p ess" "ess \<noteq> []" "good_name n" "0 \<notin> set n"
    using at by (auto simp: at_entry_def)
  have "t \<noteq> p"
    using t(3) p(2) by (auto simp: dir_rep_def)
  obtain d1 F' ess' where d1: "dir_insert d p n t = Some (0, d1)" "stepped (A - {p}) d F' Is A (refs_of d) d1" "dir_rep d1 p ess'"
      "dir_map ess' = (dir_map ess)(n \<mapsto> t)" "same_attr (inode_at d p) (inode_at d1 p)" "length ess' \<le> Suc (length ess)"
      "card F + slots_count (fcount_blocks d p) = card F' + slots_count (fcount_blocks d1 p)"
    using insert_step [OF inv p(1,2) absent p(4,5) t(1) room] by blast
  note s1 = d1(2)
  have inv1: "refs_inv d1 F' Is A" "0 < refs_of d1 t"
    using s1 t(2) by (simp_all add: stepped_def)
  obtain d2 ts where d2: "refs_link d1 t = Some (0, d2)" "refs_inv d2 F' Is A" "refs_of d2 = refs_of d1"
      "inode_at d2 t = (inode_at d1 t)\<lparr>inlinks := inlinks (inode_at d1 t) + 1, last_statchange := ts\<rparr>"
      "content d2 t = content d1 t" "\<forall>j \<in> A - {t}. same_file d1 d2 j" "refs_env.more d2 = refs_env.more d1"
    using refs_link_spec [OF inv1] by blast
  have s2: "stepped (A - {t}) d1 F' Is A (refs_of d) d2"
    using refs_step [OF inv1(1) d2(6,7,2) refl, of "A - {t}"] d2(3) s1 by (simp add: stepped_def)
  have "stepped (A - {p, t}) d F' Is A (refs_of d) d2"
    by (rule stepped_trans [OF stepped_mono [OF s1] stepped_mono [OF s2]]) auto
  moreover have "dir_rep d2 p ess'"
    using stepped_dir [OF s2 _ d1(3)] p(1) \<open>t \<noteq> p\<close> by blast
  moreover have "same_attr (inode_at d t) (inode_at d1 t)" "content d1 t = content d t"
    using d1(2) t(1) \<open>t \<noteq> p\<close> by (simp_all add: stepped_def same_files_def)
  moreover have size: "fsize d2 p = fsize d1 p"
    using stepped_fsize [OF s2 inv1(1)] p(1) \<open>t \<noteq> p\<close> by blast
  moreover have "path_link d h t user grp = Some (0, d2)"
    using node t(3) permit inode_getinfo_spec [OF refs_inv_fs(1) [OF inv] t(1)] perm_check_write [OF inv p(1), of user grp] d1(1) d2(1)
    by (simp add: path_link_def inode_info.truncate_def)
  moreover have "same_attr (inode_at d p) (inode_at d2 p)"
    using s2 p(1) \<open>t \<noteq> p\<close> same_attr_trans [OF d1(5)] by (auto simp: stepped_def same_files_def)
  ultimately show ?thesis
    using d1(4,6,7) d2(4,5) size
    by (intro exI [of _ d2] exI [of _ F'] exI [of _ ess']) (simp add: relinked_def same_attr_def fcount_blocks_def)
qed

theorem path_link_refused:
  fixes d :: "'x path_env_scheme"
  assumes inv: "refs_inv d F Is A" and at: "at_entry d A h p n ess" and t: "t \<in> A"
    and bad: "S_ISDIR (imode (inode_at d t)) \<or> \<not> may_write d user grp p \<or> dir_map ess n \<noteq> None"
  shows "\<exists>d'. path_link d h t user grp = Some (if S_ISDIR (imode (inode_at d t)) then - EPERM else if \<not> may_write d user grp p then - EACCES else - EEXIST, d') \<and>
    stepped A d F Is A (refs_of d) d'"
proof -
  obtain node where node: "path_node d h = Some node" "parent_dir node = p" "path_name node = n"
    using at_entry_parts [OF at] .
  have p: "p \<in> A" "dir_rep d p ess" "length n \<le> NAME_MAX"
    using at by (auto simp: at_entry_def good_name_def)
  note info = inode_getinfo_spec [OF refs_inv_fs(1) [OF inv] t] and perm = perm_check_write [OF inv p(1), of user grp]
  show ?thesis
  proof (cases "S_ISDIR (imode (inode_at d t)) \<or> \<not> may_write d user grp p")
    case True
    then show ?thesis
      using node info perm quiet_stepped [OF quiet_refl [OF inv], of A] by (auto simp: path_link_def inode_info.truncate_def)
  next
    case False
    then obtain d' where d': "dir_insert d p n t = Some (- EEXIST, d')" "only_read A p d d' F Is"
      using dir_insert_exists [OF refs_inv_fs(1) [OF inv] p] bad by blast
    have "refs_inv d' F Is A" "refs_of d' = refs_of d" "refs_env.more d' = refs_env.more d"
      using refs_inv_attr [OF inv] d'(2) by (auto simp: only_read_def)
    then have "stepped A d F Is A (refs_of d) d'"
      using only_read_files [OF d'(2)] more_paths(1) [of d' d] by (simp add: stepped_def)
    then show ?thesis
      using False node info perm d'(1) by (simp add: path_link_def inode_info.truncate_def)
  qed
qed

lemma path_get_entry:
  fixes d :: "'x path_env_scheme"
  assumes "refs_inv d F Is A" and "at_entry d A h p n ess" and "dir_map ess n = Some t" and "t \<in> A" and "few_refs 1 (refs_of d)"
  shows "\<exists>d'. path_get d h = Some (t, d') \<and> stepped A d F Is A (inc (refs_of d) t) d' \<and> \<not> sint t < 0"
proof -
  obtain node where node: "path_node d h = Some node" "parent_dir node = p" "path_name node = n"
    using at_entry_parts [OF assms(2)] .
  have "\<exists>d'. path_get d h = Some (t, d') \<and> quiet F Is A d (inc (refs_of d) t) d'"
    using path_get_spec(1) [OF assms(1) node(1), of "Some t" t] assms(2-5) node few_refs_less [OF assms(5)]
    by (auto simp: at_entry_def good_name_def dir_entry_def)
  then show ?thesis
    using quiet_stepped [of F Is A d _ _ A] ino_nonneg [OF refs_inv_fs(1) [OF assms(1)] assms(4)] by auto
qed

theorem path_unlink_spec:
  fixes d :: "'x path_env_scheme"
  assumes inv: "refs_inv d F Is A" and at: "at_entry d A h p n ess" and entry: "dir_map ess n = Some t" "n \<noteq> [DOT]" "n \<noteq> [DOT, DOT]"
    and t: "t \<in> A" "\<not> S_ISDIR (imode (inode_at d t))" and permit: "may_write d user grp p" and few: "few_refs 1 (refs_of d)"
  shows "\<exists>d' F' Is' A' ess'. path_unlink d h user grp = Some (0, d') \<and>
    A' = (if inlinks (inode_at d t) = 1 \<and> refs_of d t = 0 then A - {t} else A) \<and> stepped (A - {p, t}) d F' Is' A' (refs_of d) d' \<and>
    dir_rep d' p ess' \<and> dir_map ess' = (dir_map ess)(n := None) \<and>
    (t \<in> A' \<longrightarrow> relinked (inode_at d t) (inlinks (inode_at d t) - 1) (inode_at d' t) \<and> content d' t = content d t) \<and>
    same_attr (inode_at d p) (inode_at d' p) \<and> roomier d F p d' F'"
proof -
  obtain node where node: "path_node d h = Some node" "parent_dir node = p" "path_name node = n"
    using at_entry_parts [OF at] .
  have p: "p \<in> A" "dir_rep d p ess" "ess \<noteq> []" "length n \<le> NAME_MAX"
    using at by (auto simp: at_entry_def good_name_def)
  have "t \<noteq> p"
    using t(2) p(2) by (auto simp: dir_rep_def)
  obtain d1 where d1: "path_get d h = Some (t, d1)" "stepped A d F Is A (inc (refs_of d) t) d1" "\<not> sint t < 0"
    using path_get_entry [OF inv at entry(1) t(1) few] by blast
  have inv1: "refs_inv d1 F Is A" "refs_of d1 = inc (refs_of d) t"
    using d1(2) by (simp_all add: stepped_def)
  have attr: "same_attr (inode_at d t) (inode_at d1 t)" "content d1 t = content d t"
    using d1(2) t(1) by (simp_all add: stepped_def same_files_def)
  then have mode: "imode (inode_at d1 t) = imode (inode_at d t)" "inlinks (inode_at d1 t) = inlinks (inode_at d t)"
    by (simp_all add: same_attr_def)
  obtain d2 F' Is' A' ess' where d2: "remove_and_unlink d1 node t = Some d2"
      "A' = (if inlinks (inode_at d1 t) = 1 \<and> refs_of d t = 0 then A - {t} else A)" "stepped (A - {p, t}) d1 F' Is' A' (refs_of d) d2"
      "dir_rep d2 p ess'" "dir_map ess' = (dir_map ess)(n := None)"
      "same_attr (inode_at d1 p) (inode_at d2 p)" "t \<in> A' \<longrightarrow> relinked (inode_at d1 t) (inlinks (inode_at d1 t) - 1) (inode_at d2 t) \<and> content d2 t = content d1 t"
      "roomier d1 F p d2 F'"
    using remove_and_unlink_spec [OF inv1(1) p(1) stepped_dir [OF d1(2) p(1,2)] p(3) entry(1) p(4) entry(2,3) t(1) \<open>t \<noteq> p\<close> inv1(2) node(2,3)]
    by blast
  have "path_unlink d h user grp = Some (0, d2)"
    using node d1(1,3) d2(1) t(2) mode(1) permit stepped_write [OF d1(2) p(1)] perm_check_write [OF inv1(1) p(1), of user grp]
      inode_getinfo_spec [OF refs_inv_fs(1) [OF inv1(1)] t(1)]
    by (simp add: path_unlink_def getinfo_ok_def inode_info.truncate_def)
  moreover have "stepped (A - {p, t}) d F' Is' A' (refs_of d) d2"
    by (rule stepped_trans [OF stepped_mono [OF d1(2)] d2(3)]) auto
  moreover have "same_attr (inode_at d p) (inode_at d2 p)"
    using d1(2) p(1) same_attr_trans [OF _ d2(6)] by (auto simp: stepped_def same_files_def)
  moreover have "roomier d F p d2 F'"
    using roomier_trans [OF stepped_grown [OF d1(2) inv] d2(8)] p(1) by simp
  ultimately show ?thesis
    using d2(2,4,5,7) mode(2) attr(2) relinked_before [OF attr(1)]
    by (intro exI [of _ d2] exI [of _ F'] exI [of _ Is'] exI [of _ A'] exI [of _ ess']) simp
qed

text \<open>A directory is refused, and the reference to it that was taken on the way is lost.\<close>

theorem path_unlink_leaks:
  fixes d :: "'x path_env_scheme"
  assumes inv: "refs_inv d F Is A" and at: "at_entry d A h p n ess" and entry: "dir_map ess n = Some t"
    and t: "t \<in> A" "S_ISDIR (imode (inode_at d t))" and few: "few_refs 1 (refs_of d)"
  shows "\<exists>d'. path_unlink d h user grp = Some (- EPERM, d') \<and> stepped A d F Is A (inc (refs_of d) t) d'"
proof -
  obtain node where node: "path_node d h = Some node" "parent_dir node = p" "path_name node = n"
    using at_entry_parts [OF at] .
  obtain d1 where d1: "path_get d h = Some (t, d1)" "stepped A d F Is A (inc (refs_of d) t) d1" "\<not> sint t < 0"
    using path_get_entry [OF inv at entry t(1) few] by blast
  have inv1: "refs_inv d1 F Is A" "imode (inode_at d1 t) = imode (inode_at d t)"
    using d1(2) t(1) by (simp_all add: stepped_def same_files_def same_attr_def)
  then show ?thesis
    using node d1 t(2) inode_getinfo_spec [OF refs_inv_fs(1) [OF inv1(1)] t(1)]
    by (simp add: path_unlink_def getinfo_ok_def inode_info.truncate_def)
qed

section \<open>Making and removing directories\<close>

lemma meta_step:
  fixes d :: "'x path_env_scheme"
  assumes inv: "refs_inv d F Is A" and meta: "meta_result A i d d' F Is inode" and links: "inlinks inode = inlinks (inode_at d i)"
  shows "stepped (A - {i}) d F Is A (refs_of d) d'" "inode_at d' i = inode" "content d' i = content d i"
proof -
  have res: "fs_result A i d d' F Is A"
    using meta by (simp add: meta_result_def)
  show "inode_at d' i = inode" "content d' i = content d i"
    using meta by (simp_all add: meta_result_def)
  then show "stepped (A - {i}) d F Is A (refs_of d) d'"
    using refs_inv_result [OF inv res] links res by (intro refs_step [OF inv]) (auto simp: fs_result_def)
qed

text \<open>A new inode, opened and given to the caller.\<close>

lemma fresh_chowned:
  fixes d :: "'x path_env_scheme"
  assumes inv: "refs_inv d F Is' A" and res: "fs_result A i d d1 F' Is (insert i A)" "i \<notin> A" and unlinked: "inlinks (inode_at d1 i) = 0"
    and user: "user \<noteq> -1" "grp \<noteq> -1"
  shows "\<exists>d2 d3. \<not> sint i < 0 \<and> open_ok d1 i = Some d2 \<and> perm_chown d2 i 0 user grp = Some (0, d3) \<and>
    stepped A d F' Is (insert i A) (inc (refs_of d) i) d3 \<and> refs_of d i = 0 \<and> content d3 i = content d1 i \<and>
    inlinks (inode_at d3 i) = 0 \<and> iowner (inode_at d3 i) = user \<and> igroup (inode_at d3 i) = grp \<and> imode (inode_at d3 i) = imode (inode_at d1 i)"
proof -
  obtain d2 where d2: "refs_open d1 i = Some (0, d2)" "same_disk d1 d2" "refs_inv d2 F' Is (insert i A)" "refs_of d2 = (refs_of d)(i := 1)"
      "refs_env.more d2 = refs_env.more d"
    using refs_open_fresh [OF inv res] by blast
  have zero: "refs_of d i = 0"
    using refs_inv_node(1) [OF inv, of i] res(2) by (cases "find_node d i") (auto simp: refs_of_def)
  have same: "same_file d1 d2 j" for j
    using same_disk_file(1) [OF d2(2)] .
  have "\<forall>j \<in> A. same_file d d2 j"
    using res same same_file_trans by (fastforce simp: fs_result_def)
  then have s2: "stepped A d F' Is (insert i A) (inc (refs_of d) i) d2"
    using d2(3-5) zero more_paths(1) [OF d2(5)] by (simp add: stepped_def same_file_files inc_def)
  have at2: "inode_at d2 i = inode_at d1 i" "content d2 i = content d1 i"
    using same [of i] by (simp_all add: same_file_def)
  note fs2 = refs_inv_fs(1) [OF d2(3)]
  obtain d3 where d3: "perm_chown d2 i 0 user grp = Some (0, d3)"
      "meta_result (insert i A) i d2 d3 F' Is ((inode_at d2 i)\<lparr>iowner := user, igroup := grp, last_statchange := fst (now d2)\<rparr>)"
    using perm_chown_spec [OF fs2, of i 0 user grp] user by auto
  note m3 = meta_step [OF d2(3) d3(2)]
  have refs: "refs_of d2 = inc (refs_of d) i"
    using s2 by (simp add: stepped_def)
  have "stepped A d2 F' Is (insert i A) (refs_of d2) d3"
    using stepped_mono [OF m3(1), of A] res(2) by auto
  then have "stepped A d F' Is (insert i A) (inc (refs_of d) i) d3"
    using stepped_trans [OF s2] refs by simp
  moreover have "\<not> sint i < 0"
    using ino_nonneg [OF fs2, of i] by simp
  moreover have "open_ok d1 i = Some d2"
    using d2(1) by (simp add: open_ok_def)
  ultimately show ?thesis
    using d3(1) zero m3(2,3) at2 unlinked by (intro exI [of _ d2] exI [of _ d3]) simp
qed

lemma fresh_owned:
  fixes d :: "'x path_env_scheme"
  assumes inv: "refs_inv d F Is' A" and res: "fs_result A i d d1 F' Is (insert i A)" "i \<notin> A" and unlinked: "inlinks (inode_at d1 i) = 0"
    and mode: "mode AND 0xFFF = mode" and user: "user \<noteq> -1" "grp \<noteq> -1"
  shows "\<exists>d2 d3 d4. \<not> sint i < 0 \<and> open_ok d1 i = Some d2 \<and>
    perm_chown d2 i 0 user grp = Some (0, d3) \<and> perm_chmod d3 i mode user = Some (0, d4) \<and>
    stepped A d F' Is (insert i A) (inc (refs_of d) i) d4 \<and> refs_of d i = 0 \<and> content d4 i = content d1 i \<and>
    inlinks (inode_at d4 i) = 0 \<and> iowner (inode_at d4 i) = user \<and> igroup (inode_at d4 i) = grp \<and>
    imode (inode_at d4 i) AND 0xFFF = mode \<and> imode (inode_at d4 i) AND S_IFMT = imode (inode_at d1 i) AND S_IFMT"
proof -
  obtain d2 d3 where c: "\<not> sint i < 0" "open_ok d1 i = Some d2" "perm_chown d2 i 0 user grp = Some (0, d3)"
    and s3: "stepped A d F' Is (insert i A) (inc (refs_of d) i) d3" "refs_of d i = 0" "content d3 i = content d1 i"
    and at3: "inlinks (inode_at d3 i) = 0" "iowner (inode_at d3 i) = user" "igroup (inode_at d3 i) = grp" "imode (inode_at d3 i) = imode (inode_at d1 i)"
    using fresh_chowned [OF inv res unlinked user] by blast
  have inv3: "refs_inv d3 F' Is (insert i A)" "refs_of d3 = inc (refs_of d) i"
    using s3(1) by (simp_all add: stepped_def)
  obtain d4 where d4: "perm_chmod d3 i mode user = Some (0, d4)"
      "meta_result (insert i A) i d3 d4 F' Is ((inode_at d3 i)\<lparr>imode := imode (inode_at d4 i), last_statchange := fst (now d3)\<rparr>)"
      "imode (inode_at d4 i) AND 0xFFF = mode" "imode (inode_at d4 i) AND S_IFMT = imode (inode_at d3 i) AND S_IFMT"
    using perm_chmod_spec [OF refs_inv_fs(1) [OF inv3(1)], of i mode user] mode at3(2) by auto
  note m4 = meta_step [OF inv3(1) d4(2)]
  have "stepped A d F' Is (insert i A) (inc (refs_of d) i) d4"
    using stepped_trans [OF s3(1) stepped_mono [OF m4(1), of A]] res(2) inv3(2) by auto
  moreover obtain m where "inode_at d4 i = (inode_at d3 i)\<lparr>imode := m, last_statchange := fst (now d3)\<rparr>"
    using d4(2) unfolding meta_result_def by blast
  then have "iowner (inode_at d4 i) = user" "igroup (inode_at d4 i) = grp" "inlinks (inode_at d4 i) = 0"
    using at3 by simp_all
  ultimately show ?thesis
    using c d4(1,3,4) s3(2,3) m4(3) at3(4) by (intro exI [of _ d2] exI [of _ d3] exI [of _ d4]) simp
qed

text \<open>The first half of \<open>path_mkdir\<close>: an open directory without links that belongs to the caller.\<close>

lemma fresh_dir:
  fixes d :: "'x path_env_scheme"
  assumes inv: "refs_inv d F (i # Is) A" and room: "2 \<le> card F" and p: "p \<in> A"
    and mode: "mode AND 0xFFF = mode" and user: "user \<noteq> -1" "grp \<noteq> -1"
  shows "\<exists>d1 d2 d3 d4 F'. dir_create d p = Some (i, d1) \<and> \<not> sint i < 0 \<and> open_ok d1 i = Some d2 \<and>
    perm_chown d2 i 0 user grp = Some (0, d3) \<and> perm_chmod d3 i mode user = Some (0, d4) \<and>
    i \<notin> A \<and> card F = card F' + 2 \<and> stepped A d F' Is (insert i A) (inc (refs_of d) i) d4 \<and> refs_of d i = 0 \<and>
    dir_rep d4 i (new_dir p i) \<and> inlinks (inode_at d4 i) = 0 \<and> iowner (inode_at d4 i) = user \<and> igroup (inode_at d4 i) = grp \<and>
    imode (inode_at d4 i) AND 0xFFF = mode"
proof -
  note fs = refs_inv_fs(1) [OF inv]
  have "p \<noteq> EOF"
    using ino_nonneg [OF fs p] by simp
  then obtain d1 F' where d1: "dir_create d p = Some (i, d1)" "fs_result A i d d1 F' Is (insert i A)" "i \<notin> A"
      "dir_rep d1 i (new_dir p i)" "fresh_attr (inode_at d1 i) (S_IFDIR OR 0x1FF)"
    using dir_create_spec [OF fs room] by blast
  have unlinked: "inlinks (inode_at d1 i) = 0" "imode (inode_at d1 i) = S_IFDIR OR 0x1FF"
    using d1(5) by (simp_all add: fresh_attr_def)
  obtain d2 d3 d4 where c: "\<not> sint i < 0" "open_ok d1 i = Some d2" "perm_chown d2 i 0 user grp = Some (0, d3)"
      "perm_chmod d3 i mode user = Some (0, d4)" "stepped A d F' Is (insert i A) (inc (refs_of d) i) d4" "refs_of d i = 0"
      "content d4 i = content d1 i" "inlinks (inode_at d4 i) = 0" "iowner (inode_at d4 i) = user" "igroup (inode_at d4 i) = grp"
      "imode (inode_at d4 i) AND 0xFFF = mode" "imode (inode_at d4 i) AND S_IFMT = imode (inode_at d1 i) AND S_IFMT"
    using fresh_owned [OF inv d1(2,3) unlinked(1) mode user] by blast
  have "S_ISDIR (imode (inode_at d4 i))"
    using c(12) unlinked(2) by (simp add: mode_defs)
  then have "dir_rep d4 i (new_dir p i)"
    using d1(4) c(7) by (simp add: dir_rep_def)
  then show ?thesis
    using d1(1,3) c dir_create_free [OF fs d1(2-4)] by blast
qed

theorem path_mkdir_spec:
  fixes d :: "'x path_env_scheme"
  assumes inv: "refs_inv d F (i # Is) A" and at: "at_entry d A h p n ess" and absent: "dir_map ess n = None"
    and permit: "may_write d user grp p" and mode: "mode AND 0xFFF = mode" and user: "user \<noteq> -1" "grp \<noteq> -1"
    and room: "2 \<le> card F" "slots_count (blockcount_of (fsize d p + BLOCKSIZE)) + 2 \<le> slots_count (fcount_blocks d p) + card F"
      "fsize d p + BLOCKSIZE \<le> MAX_FILESIZE"
  shows "\<exists>d' F' ess'. path_mkdir d h mode user grp = Some (0, d') \<and> i \<notin> A \<and>
    stepped (A - {p}) d F' Is (insert i A) (refs_of d) d' \<and>
    dir_rep d' p ess' \<and> dir_map ess' = (dir_map ess)(n \<mapsto> i) \<and> dir_rep d' i (new_dir p i) \<and>
    inlinks (inode_at d' i) = 1 \<and> iowner (inode_at d' i) = user \<and> igroup (inode_at d' i) = grp \<and> imode (inode_at d' i) AND 0xFFF = mode \<and>
    same_attr (inode_at d p) (inode_at d' p)"
proof -
  obtain node where node: "path_node d h = Some node" "parent_dir node = p" "path_name node = n"
    using at_entry_parts [OF at] .
  have p: "p \<in> A" "dir_rep d p ess" "ess \<noteq> []" "length n \<le> NAME_MAX" "0 \<notin> set n"
    using at by (auto simp: at_entry_def good_name_def)
  obtain d1 d2 d3 d4 F4 where c: "dir_create d p = Some (i, d1)" "\<not> sint i < 0" "open_ok d1 i = Some d2"
    "perm_chown d2 i 0 user grp = Some (0, d3)" "perm_chmod d3 i mode user = Some (0, d4)"
    "i \<notin> A" "card F = card F4 + 2" "stepped A d F4 Is (insert i A) (inc (refs_of d) i) d4"
    "dir_rep d4 i (new_dir p i)" "inlinks (inode_at d4 i) = 0" "iowner (inode_at d4 i) = user" "igroup (inode_at d4 i) = grp"
    "imode (inode_at d4 i) AND 0xFFF = mode"
    using fresh_dir [OF inv room(1) p(1) mode user] by blast
  have inv4: "refs_inv d4 F4 Is (insert i A)" "refs_of d4 = inc (refs_of d) i"
    using c(8) by (simp_all add: stepped_def)
  have pi: "p \<noteq> i"
    using p(1) c(6) by blast
  have size: "fsize d4 p = fsize d p"
    using stepped_fsize [OF c(8) inv p(1,1)] p(1) by simp
  have "i \<noteq> EOF"
    using ino_nonneg [OF refs_inv_fs(1) [OF inv4(1)], of i] by simp
  then obtain d5 F' ess' where d5: "dir_insert d4 p n i = Some (0, d5)" "fs_result (insert i A) p d4 d5 F' Is (insert i A)"
      "dir_rep d5 p ess'" "dir_map ess' = (dir_map ess)(n \<mapsto> i)" "same_attr (inode_at d4 p) (inode_at d5 p)"
    using dir_insert_spec [OF refs_inv_fs(1) [OF inv4(1)] _ stepped_dir [OF c(8) p(1,2)] p(3-5) absent, of i] p(1) room(2,3) c(7) size
    by (auto simp: enough_def fcount_blocks_def)
  have s5: "stepped (insert i A - {p}) d4 F' Is (insert i A) (inc (refs_of d) i) d5"
    using result_stepped [OF inv4(1) d5(2,5)] inv4(2) by simp
  have inv5: "refs_inv d5 F' Is (insert i A)" "refs_of d5 = inc (refs_of d) i" "0 < refs_of d5 i"
    using s5 by (simp_all add: stepped_def)
  obtain d6 ts where d6: "refs_link d5 i = Some (0, d6)" "refs_inv d6 F' Is (insert i A)" "refs_of d6 = refs_of d5"
      "inode_at d6 i = (inode_at d5 i)\<lparr>inlinks := inlinks (inode_at d5 i) + 1, last_statchange := ts\<rparr>"
      "content d6 i = content d5 i" "\<forall>j \<in> insert i A - {i}. same_file d5 d6 j" "refs_env.more d6 = refs_env.more d5"
    using refs_link_spec [OF inv5(1,3)] by blast
  have s6: "stepped A d5 F' Is (insert i A) (inc (refs_of d) i) d6"
    using refs_step [OF inv5(1) d6(6,7,2) refl, of A] d6(3) inv5(2) c(6) by auto
  have at5: "inode_at d5 i = inode_at d4 i" "content d5 i = content d4 i"
    using d5(2) pi by (auto simp: fs_result_def same_file_def)
  have links: "inlinks (inode_at d6 i) = 1"
    using d6(4) at5(1) c(10) by simp
  have "refs_of d6 = inc (refs_of d) i" "linked d6 (insert i A) i"
    using s6 links by (simp_all add: stepped_def linked_def)
  then obtain d7 where d7: "close_ok d6 i = Some d7" "quiet F' Is (insert i A) d6 (refs_of d) d7"
    using close_ok_spec [OF d6(2)] by blast
  have s7: "stepped (insert i A) d6 F' Is (insert i A) (refs_of d) d7"
    using quiet_stepped [OF d7(2)] by simp
  then have attr: "same_attr (inode_at d6 i) (inode_at d7 i)"
    by (simp add: stepped_def same_files_def)
  have "path_mkdir d h mode user grp = Some (0, d7)"
    using node c(1-5) d5(1) d6(1) d7(1) permit perm_check_write [OF inv p(1), of user grp] by (simp add: path_mkdir_def)
  moreover have "stepped (A - {p}) d F' Is (insert i A) (refs_of d) d7"
    using stepped_trans [OF stepped_trans [OF stepped_trans [OF stepped_mono [OF c(8)] stepped_mono [OF s5]] stepped_mono [OF s6]] stepped_mono [OF s7], of "A - {p}"]
    by blast
  moreover have "dir_rep d7 p ess'"
    using stepped_dir [OF s7 _ stepped_dir [OF s6 p(1) d5(3)]] p(1) by blast
  moreover have "dir_rep d7 i (new_dir p i)"
  proof -
    have "dir_rep d6 i (new_dir p i)"
      using c(9) d6(4,5) at5 by (simp add: dir_rep_def)
    then show ?thesis
      using stepped_dir [OF s7] by blast
  qed
  moreover have "same_attr (inode_at d p) (inode_at d7 p)"
  proof -
    have "same_attr (inode_at d p) (inode_at d4 p)" "same_attr (inode_at d5 p) (inode_at d6 p)" "same_attr (inode_at d6 p) (inode_at d7 p)"
      using c(8) s6 s7 p(1) by (simp_all add: stepped_def same_files_def)
    then show ?thesis
      using same_attr_trans d5(5) by blast
  qed
  ultimately show ?thesis
    using c(6,11-13) d5(4) attr links d6(4) at5(1) unfolding same_attr_def
    by (intro exI [of _ d7] exI [of _ F'] exI [of _ ess']) simp
qed

text \<open>Without a free inode or the two blocks nothing is made.\<close>

theorem path_mkdir_full:
  fixes d :: "'x path_env_scheme"
  assumes inv: "refs_inv d F Is A" and at: "at_entry d A h p n ess" and permit: "may_write d user grp p" and full: "card F < 2 \<or> Is = []"
  shows "\<exists>d'. path_mkdir d h mode user grp = Some (- ENOSPC, d') \<and> stepped A d F Is A (refs_of d) d'"
proof -
  obtain node where node: "path_node d h = Some node" "parent_dir node = p" "path_name node = n"
    using at_entry_parts [OF at] .
  have p: "p \<in> A"
    using at by (simp add: at_entry_def)
  obtain d1 where d1: "dir_create d p = Some (of_int (- ENOSPC), d1)" "stepped A d F Is A (refs_of d) d1"
    using dir_create_full [OF refs_inv_fs(1) [OF inv] full] unchanged_stepped [OF inv] by blast
  have "path_mkdir d h mode user grp = Some (- ENOSPC, d1)"
    using node d1(1) permit perm_check_write [OF inv p, of user grp] by (simp add: path_mkdir_def int_of_ino_def)
  then show ?thesis
    using d1(2) by blast
qed

text \<open>When the name is taken, the new directory is given back.\<close>

theorem path_mkdir_exists:
  fixes d :: "'x path_env_scheme"
  assumes inv: "refs_inv d F (i # Is) A" and at: "at_entry d A h p n ess" and taken: "dir_map ess n \<noteq> None"
    and permit: "may_write d user grp p" and mode: "mode AND 0xFFF = mode" and user: "user \<noteq> -1" "grp \<noteq> -1" and room: "2 \<le> card F"
  shows "\<exists>d' F' Is'. path_mkdir d h mode user grp = Some (- EEXIST, d') \<and> stepped A d F' Is' A (refs_of d) d'"
proof -
  obtain node where node: "path_node d h = Some node" "parent_dir node = p" "path_name node = n"
    using at_entry_parts [OF at] .
  have p: "p \<in> A" "dir_rep d p ess" "length n \<le> NAME_MAX"
    using at by (auto simp: at_entry_def good_name_def)
  obtain d1 d2 d3 d4 F4 where c: "dir_create d p = Some (i, d1)" "\<not> sint i < 0" "open_ok d1 i = Some d2"
    "perm_chown d2 i 0 user grp = Some (0, d3)" "perm_chmod d3 i mode user = Some (0, d4)"
    "i \<notin> A" "stepped A d F4 Is (insert i A) (inc (refs_of d) i) d4" "inlinks (inode_at d4 i) = 0" "refs_of d i = 0"
    using fresh_dir [OF inv room p(1) mode user] by blast
  have inv4: "refs_inv d4 F4 Is (insert i A)" "refs_of d4 = inc (refs_of d) i"
    using c(7) by (simp_all add: stepped_def)
  obtain d5 where d5: "dir_insert d4 p n i = Some (- EEXIST, d5)" "only_read (insert i A) p d4 d5 F4 Is"
    using dir_insert_exists [OF refs_inv_fs(1) [OF inv4(1)] _ stepped_dir [OF c(7) p(1,2)] p(3) taken] p(1) by blast
  have res5: "fs_result (insert i A) p d4 d5 F4 Is (insert i A)" "same_attr (inode_at d4 p) (inode_at d5 p)"
    using d5(2) by (simp_all add: only_read_def)
  have s5: "stepped (insert i A) d4 F4 Is (insert i A) (inc (refs_of d) i) d5"
    using refs_inv_attr [OF inv4(1) res5] only_read_files [OF d5(2)] more_paths(1) [of d5 d4] inv4(2) by (simp add: stepped_def)
  have inv5: "refs_inv d5 F4 Is (insert i A)" "refs_of d5 = inc (refs_of d) i" "inlinks (inode_at d5 i) = 0"
    using s5 c(8) by (simp_all add: stepped_def same_files_def same_attr_def)
  obtain d6 F' Is' where d6: "close_ok d5 i = Some d6" "stepped (insert i A - {i}) d5 F' Is' (insert i A - {i}) (refs_of d) d6"
    using close_ok_any [OF inv5(1,2)] inv5(3) c(9) by auto
  have A: "insert i A - {i} = A"
    using c(6) by simp
  have "path_mkdir d h mode user grp = Some (- EEXIST, d6)"
    using node c(1-5) d5(1) d6(1) permit perm_check_write [OF inv p(1), of user grp] by (simp add: path_mkdir_def)
  moreover have "stepped A d F' Is' A (refs_of d) d6"
    using stepped_trans [OF stepped_trans [OF c(7) stepped_mono [OF s5]] d6(2) [unfolded A]] by blast
  ultimately show ?thesis
    by blast
qed

theorem path_rmdir_spec:
  fixes d :: "'x path_env_scheme"
  assumes inv: "refs_inv d F Is A" and at: "at_entry d A h p n ess" and entry: "dir_map ess n = Some t" "n \<noteq> [DOT]" "n \<noteq> [DOT, DOT]"
    and t: "t \<in> A" "t \<noteq> p" "dir_rep d t [es]" "length es \<le> 2" and permit: "may_write d user grp p" and few: "few_refs 1 (refs_of d)"
  shows "\<exists>d' F' Is' A' ess'. path_rmdir d h user grp = Some (0, d') \<and>
    A' = (if inlinks (inode_at d t) = 1 \<and> refs_of d t = 0 then A - {t} else A) \<and> stepped (A - {p, t}) d F' Is' A' (refs_of d) d' \<and>
    dir_rep d' p ess' \<and> dir_map ess' = (dir_map ess)(n := None) \<and> same_attr (inode_at d p) (inode_at d' p) \<and>
    (t \<in> A' \<longrightarrow> relinked (inode_at d t) (inlinks (inode_at d t) - 1) (inode_at d' t) \<and> dead_dir d' t) \<and> roomier d F p d' F'"
proof -
  obtain node where node: "path_node d h = Some node" "parent_dir node = p" "path_name node = n"
    using at_entry_parts [OF at] .
  have p: "p \<in> A" "dir_rep d p ess" "ess \<noteq> []" "length n \<le> NAME_MAX"
    using at by (auto simp: at_entry_def good_name_def)
  obtain d1 where d1: "path_get d h = Some (t, d1)" "stepped A d F Is A (inc (refs_of d) t) d1" "\<not> sint t < 0"
    using path_get_entry [OF inv at entry(1) t(1) few] by blast
  have inv1: "refs_inv d1 F Is A" "refs_of d1 = inc (refs_of d) t"
    using d1(2) by (simp_all add: stepped_def)
  have attr1: "same_attr (inode_at d t) (inode_at d1 t)"
    using d1(2) t(1) by (simp add: stepped_def same_files_def)
  obtain d2 F2 where d2: "dir_destroy d1 t = Some (0, d2)" "fs_result A t d1 d2 F2 Is A" "same_attr (inode_at d1 t) (inode_at d2 t)"
      "dead_dir d2 t"
    using dir_destroy_spec [OF refs_inv_fs(1) [OF inv1(1)] t(1) stepped_dir [OF d1(2) t(1,3)] t(4)] by blast
  have s2: "stepped (A - {t}) d1 F2 Is A (inc (refs_of d) t) d2"
    using result_stepped [OF inv1(1) d2(2,3)] inv1(2) by simp
  have inv2: "refs_inv d2 F2 Is A" "refs_of d2 = inc (refs_of d) t"
    using s2 by (simp_all add: stepped_def)
  have s12: "stepped (A - {t}) d F2 Is A (inc (refs_of d) t) d2"
    using stepped_trans [OF stepped_mono [OF d1(2)] s2] by blast
  have "p \<in> A - {t}"
    using p(1) t(2) by blast
  then obtain d3 F' Is' A' ess' where d3: "remove_and_unlink d2 node t = Some d3"
      "A' = (if inlinks (inode_at d2 t) = 1 \<and> refs_of d t = 0 then A - {t} else A)" "stepped (A - {p, t}) d2 F' Is' A' (refs_of d) d3"
      "dir_rep d3 p ess'" "dir_map ess' = (dir_map ess)(n := None)" "same_attr (inode_at d2 p) (inode_at d3 p)"
      "t \<in> A' \<longrightarrow> relinked (inode_at d2 t) (inlinks (inode_at d2 t) - 1) (inode_at d3 t) \<and> content d3 t = content d2 t"
      "roomier d2 F2 p d3 F'"
    using remove_and_unlink_spec [OF inv2(1) p(1) stepped_dir [OF s12 _ p(2)] p(3) entry(1) p(4) entry(2,3) t(1,2) inv2(2) node(2,3)]
    by blast
  have "path_rmdir d h user grp = Some (0, d3)"
    using node d1(1,3) d2(1) d3(1) permit stepped_write [OF d1(2) p(1)] perm_check_write [OF inv1(1) p(1), of user grp]
    by (simp add: path_rmdir_def)
  moreover have "stepped (A - {p, t}) d F' Is' A' (refs_of d) d3"
    by (rule stepped_trans [OF stepped_mono [OF s12] d3(3)]) auto
  moreover have attr2: "same_attr (inode_at d t) (inode_at d2 t)"
    by (rule same_attr_trans [OF attr1 d2(3)])
  then have "inlinks (inode_at d2 t) = inlinks (inode_at d t)"
    by (simp add: same_attr_def)
  moreover have "relinked (inode_at d t) (inlinks (inode_at d2 t) - 1) (inode_at d3 t) \<and> dead_dir d3 t" if "t \<in> A'"
  proof -
    have "refs_inv d3 F' Is' A'"
      using d3(3) by (simp add: stepped_def)
    then have "fsize d3 t = fsize d2 t"
      using content_fsize [OF _ inv2(1) _ t(1) that] d3(7) that by blast
    moreover have "imode (inode_at d3 t) = imode (inode_at d2 t)"
      using d3(7) that by (simp add: relinked_def same_attr_def)
    ultimately show ?thesis
      using d2(4) d3(7) that relinked_before [OF attr2] by (simp add: dead_dir_def)
  qed
  moreover have "same_attr (inode_at d p) (inode_at d3 p)"
    using s12 \<open>p \<in> A - {t}\<close> same_attr_trans [OF _ d3(6)] by (auto simp: stepped_def same_files_def)
  moreover have "fsize d1 t = 4096"
    using dir_rep_size [OF refs_inv_fs(1) [OF inv1(1)] t(1) stepped_dir [OF d1(2) t(1,3)]] by simp
  then have "card F \<le> card F2"
    using result_card [OF refs_inv_fs(1) [OF inv1(1)] d2(2) t(1)] d2(4)
      slots_count_mono [OF blockcount_mono [of "fsize d2 t" "fsize d1 t"]]
    by (simp add: dead_dir_def fcount_blocks_def)
  then have "roomier d F p d2 F2"
    using stepped_fsize [OF s12 inv \<open>p \<in> A - {t}\<close> p(1,1)] by (intro roomier_same)
  then have "roomier d F p d3 F'"
    by (rule roomier_trans [OF _ d3(8)])
  ultimately show ?thesis
    using d3(2,4,5) by (intro exI [of _ d3] exI [of _ F'] exI [of _ Is'] exI [of _ A'] exI [of _ ess']) simp
qed

theorem path_rmdir_nonempty:
  fixes d :: "'x path_env_scheme"
  assumes inv: "refs_inv d F Is A" and at: "at_entry d A h p n ess" and entry: "dir_map ess n = Some t"
    and t: "t \<in> A" "linked d A t" "dir_rep d t ess'" "1 < length ess' \<or> (\<exists>es. ess' = [es] \<and> 2 < length es)"
    and permit: "may_write d user grp p" and few: "few_refs 1 (refs_of d)"
  shows "\<exists>d'. path_rmdir d h user grp = Some (- ENOTEMPTY, d') \<and> stepped A d F Is A (refs_of d) d'"
proof -
  obtain node where node: "path_node d h = Some node" "parent_dir node = p" "path_name node = n"
    using at_entry_parts [OF at] .
  have p: "p \<in> A"
    using at by (auto simp: at_entry_def)
  obtain d1 where d1: "path_get d h = Some (t, d1)" "stepped A d F Is A (inc (refs_of d) t) d1" "\<not> sint t < 0"
    using path_get_entry [OF inv at entry t(1) few] by blast
  have inv1: "refs_inv d1 F Is A" "refs_of d1 = inc (refs_of d) t"
    using d1(2) by (simp_all add: stepped_def)
  obtain d2 where d2: "dir_destroy d1 t = Some (- ENOTEMPTY, d2)" "only_read A t d1 d2 F Is"
    using dir_destroy_nonempty [OF refs_inv_fs(1) [OF inv1(1)] t(1) stepped_dir [OF d1(2) t(1,3)] t(4)] by blast
  have res2: "fs_result A t d1 d2 F Is A" "same_attr (inode_at d1 t) (inode_at d2 t)"
    using d2(2) by (simp_all add: only_read_def)
  have s2: "stepped A d1 F Is A (inc (refs_of d) t) d2"
    using refs_inv_attr [OF inv1(1) res2] only_read_files [OF d2(2)] more_paths(1) [of d2 d1] inv1(2) by (simp add: stepped_def)
  have s12: "stepped A d F Is A (inc (refs_of d) t) d2"
    by (rule stepped_trans [OF d1(2) s2])
  have inv2: "refs_inv d2 F Is A" "refs_of d2 = inc (refs_of d) t" "linked d2 A t"
    using s12 t(1,2) by (simp_all add: stepped_def linked_def same_files_def same_attr_def)
  obtain d3 where d3: "close_ok d2 t = Some d3" "quiet F Is A d2 (refs_of d) d3"
    using close_ok_spec [OF inv2(1,3,2)] by blast
  have "path_rmdir d h user grp = Some (- ENOTEMPTY, d3)"
    using node d1(1,3) d2(1) d3(1) permit stepped_write [OF d1(2) p] perm_check_write [OF inv1(1) p, of user grp]
    by (simp add: path_rmdir_def)
  moreover have "stepped A d F Is A (refs_of d) d3"
    using stepped_trans [OF s12 quiet_stepped [OF d3(2)]] by simp
  ultimately show ?thesis
    by blast
qed

end
