(* ===== verification/Fuse_Spec.thy ===== *)
theory Fuse_Spec
  imports Path_Ops Candyfs File_Spec
begin

text \<open>
  The FUSE operations from end to end: between two of them no path is open, and the references
  are those of the files that FUSE has open.
\<close>

section \<open>Between two operations\<close>

definition idle :: "'x path_env_scheme \<Rightarrow> bool" where
  "idle d \<longleftrightarrow> length (open_path_table d) = MAX_OPEN_PATHS \<and> (\<forall>node \<in> set (open_path_table d). path_refs node = 0)"

lemma idle_free:
  assumes "idle d"
  shows "\<forall>node \<in> set (open_path_table d). \<not> names_entry node p n" "\<exists>node \<in> set (open_path_table d). path_refs node = 0"
proof -
  show "\<forall>node \<in> set (open_path_table d). \<not> names_entry node p n"
    using assms by (simp add: idle_def names_entry_def)
  have "open_path_table d ! 0 \<in> set (open_path_table d)"
    using assms by (simp add: idle_def)
  then show "\<exists>node \<in> set (open_path_table d). path_refs node = 0"
    using assms unfolding idle_def by blast
qed

text \<open>A path, opened: the handle stands for the entry, and its directory has one more reference.\<close>

definition opened :: "blockno set \<Rightarrow> ino list \<Rightarrow> ino set \<Rightarrow> 'x path_env_scheme \<Rightarrow> ino \<Rightarrow> byte list \<Rightarrow> nat \<Rightarrow> 'x path_env_scheme \<Rightarrow> bool" where
  "opened F Is A d p n h d1 \<longleftrightarrow> h < MAX_OPEN_PATHS \<and>
     settled F Is A d (inc (refs_of d) p) ((open_path_table d)[h := \<lparr>path_refs = 1, parent_dir = p, path_name = n\<rparr>]) d1"

lemma with_path_opened:
  fixes d :: "'x path_env_scheme"
  assumes "idle d" and "resolvable F Is A d (caller user grp) ns p" and "target_ok d A (caller user grp) p n False" and "good_name n"
  shows "\<exists>h d1. opened F Is A d p n h d1 \<and> path_open d (entry_path ns n) False user grp (-1) = Some (int h, d1) \<and>
    (\<forall>f. with_path d (entry_path ns n) user grp f = f d1 (int h))"
  using path_open_spec [OF assms(2-4) idle_free [OF assms(1)], of "-1"] assms(1)
  by (fastforce simp: opened_def with_path_def idle_def)

lemma opened_facts:
  assumes "idle d" and "opened F Is A d p n h d1"
  shows "refs_inv d1 F Is A" "refs_of d1 = inc (refs_of d) p" "same_files A d d1"
    "open_path_table d1 = (open_path_table d)[h := \<lparr>path_refs = 1, parent_dir = p, path_name = n\<rparr>]"
    "path_node d1 (int h) = Some \<lparr>path_refs = 1, parent_dir = p, path_name = n\<rparr>"
  using assms by (simp_all add: opened_def settled_def idle_def path_node_def)

lemma opened_entry:
  assumes "idle d" and "opened F Is A d p n h d1" and "p \<in> A" and "dir_rep d p ess" and "ess \<noteq> []" and "good_name n" and "0 \<notin> set n"
  shows "at_entry d1 A (int h) p n ess"
  using opened_facts [OF assms(1,2)] same_files_dir [of A d d1 p ess] assms(3-7) by (simp add: at_entry_def)

text \<open>After the operation on the entry the path is closed, and no path is open again.\<close>

definition finished :: "ino set \<Rightarrow> 'x path_env_scheme \<Rightarrow> blockno set \<Rightarrow> ino list \<Rightarrow> ino set \<Rightarrow> 'x path_env_scheme \<Rightarrow> bool" where
  "finished B d F Is A d' \<longleftrightarrow> refs_inv d' F Is A \<and> refs_of d' = refs_of d \<and> same_files B d d' \<and> idle d'"

lemma done_path_close:
  fixes d :: "'x path_env_scheme"
  assumes idle: "idle d" and op: "opened F Is A d p n h d1" and d2: "refs_inv d2 F' Is' A'" "open_path_table d2 = open_path_table d1" "refs_of d2 = inc f p"
    and p: "linked d2 A' p" and e: "0 \<le> e \<and> res = 0 \<or> - 4096 \<le> e \<and> e < 0 \<and> res = e"
  shows "\<exists>d3. done_path d2 (int h) e = Some (res, d3) \<and> refs_inv d3 F' Is' A' \<and> refs_of d3 = f \<and> same_files A' d2 d3 \<and> idle d3"
proof -
  note fa = opened_facts [OF idle op]
  have h: "h < MAX_OPEN_PATHS" "length (open_path_table d) = MAX_OPEN_PATHS"
    using op idle by (simp_all add: opened_def idle_def)
  have "open_handle d2 (int h) \<lparr>path_refs = 1, parent_dir = p, path_name = n\<rparr>"
    using fa(5) d2(2) by (simp add: open_handle_def path_node_def split: if_splits)
  then obtain d3 where d3: "path_close d2 (int h) = Some (0, d3)"
      "settled F' Is' A' d2 f ((open_path_table d2)[h := \<lparr>path_refs = 0, parent_dir = p, path_name = n\<rparr>]) d3"
    using path_close_spec [OF d2(1), of "int h" "\<lparr>path_refs = 1, parent_dir = p, path_name = n\<rparr>" f] d2(3) p by auto
  have "idle d3"
    using d3(2) d2(2) fa(4) idle h by (auto simp: settled_def idle_def dest!: set_update_subset_insert [THEN subsetD])
  moreover have "done_path d2 (int h) e = Some (res, d3)"
  proof -
    have "int_of_long e = e" if "- 4096 \<le> e" "e < 0"
      using that by (simp add: int_of_long_def int_word_sint)
    then show ?thesis
      using d3(1) e by (auto simp: done_path_def close_path_def)
  qed
  ultimately show ?thesis
    using d3(2) by (auto simp: settled_def)
qed

lemma done_path_spec:
  fixes d :: "'x path_env_scheme"
  assumes idle: "idle d" and op: "opened F Is A d p n h d1" and step: "stepped B d1 F' Is' A' (refs_of d1) d2"
    and p: "linked d2 A' p" and B: "B \<subseteq> A" "B \<subseteq> A'" and e: "0 \<le> e \<and> res = 0 \<or> - 4096 \<le> e \<and> e < 0 \<and> res = e"
  shows "\<exists>d3. done_path d2 (int h) e = Some (res, d3) \<and> finished B d F' Is' A' d3 \<and> same_files A' d2 d3"
proof -
  note f = opened_facts [OF idle op]
  have inv2: "refs_inv d2 F' Is' A'" "open_path_table d2 = open_path_table d1" "refs_of d2 = inc (refs_of d) p" "same_files B d1 d2"
    using step f(2) by (simp_all add: stepped_def)
  obtain d3 where d3: "done_path d2 (int h) e = Some (res, d3)" "refs_inv d3 F' Is' A'" "refs_of d3 = refs_of d" "same_files A' d2 d3" "idle d3"
    using done_path_close [OF idle op inv2(1-3) p e] by blast
  have "same_files B d d3"
    using same_files_trans [OF same_files_trans [OF same_files_mono [OF f(3) B(1)] inv2(4)] same_files_mono [OF d3(4) B(2)]] .
  then show ?thesis
    using d3 by (auto simp: finished_def)
qed

lemma int_of_long_0: "int_of_long 0 = 0"
  by (simp add: int_of_long_def)

section \<open>Entries\<close>

text \<open>A caller at an entry that it may change.\<close>

definition caller_at :: "blockno set \<Rightarrow> ino list \<Rightarrow> ino set \<Rightarrow> 'x path_env_scheme \<Rightarrow> u32 \<Rightarrow> u32 \<Rightarrow> byte list list \<Rightarrow> ino \<Rightarrow> byte list \<Rightarrow>
    dirent list list \<Rightarrow> bool" where
  "caller_at F Is A d user grp ns p n ess \<longleftrightarrow> idle d \<and> resolvable F Is A d (caller user grp) ns p \<and>
     good_name n \<and> 0 \<notin> set n \<and> dir_rep d p ess \<and> ess \<noteq> [] \<and> may_write d user grp p"

lemma caller_opened:
  fixes d :: "'x path_env_scheme"
  assumes at: "caller_at F Is A d user grp ns p n ess" and target: "dir_map ess n = None \<or> (\<exists>t. dir_map ess n = Some t \<and> linked d A t)"
  shows "\<exists>h d1. opened F Is A d p n h d1 \<and> path_open d (entry_path ns n) False user grp (-1) = Some (int h, d1) \<and>
    (\<forall>f. with_path d (entry_path ns n) user grp f = f d1 (int h)) \<and> at_entry d1 A (int h) p n ess \<and> may_write d1 user grp p \<and> few_refs 3 (refs_of d1)"
proof -
  note at' = at [unfolded caller_at_def]
  have "target_ok d A (caller user grp) p n False"
    using target at' unfolding target_ok_def dir_entry_def by blast
  then obtain h d1 where h: "opened F Is A d p n h d1" "path_open d (entry_path ns n) False user grp (-1) = Some (int h, d1)"
      "\<forall>f. with_path d (entry_path ns n) user grp f = f d1 (int h)"
    using with_path_opened at' by blast
  have p: "p \<in> A"
    using at' resolvable_linked(2) unfolding linked_def by blast
  note f = opened_facts [OF _ h(1)]
  have "same_attr (inode_at d p) (inode_at d1 p)"
    using f(3) at' p by (simp add: same_files_def)
  then have "may_write d1 user grp p"
    using at' allowed_attr by (simp add: may_write_def)
  moreover have "few_refs (Suc 3) (refs_of d)"
    using at' by (simp add: resolvable_def numeral_eq_Suc)
  then have "few_refs 3 (refs_of d1)"
    using f(2) at' few_refs_inc by simp
  ultimately show ?thesis
    using h opened_entry [OF _ h(1) p] at' by blast
qed

theorem candy_unlink_spec:
  fixes d :: "'x path_env_scheme"
  assumes at: "caller_at F Is A d user grp ns p n ess" and entry: "dir_map ess n = Some t" "n \<noteq> [DOT]" "n \<noteq> [DOT, DOT]"
    and t: "linked d A t" "\<not> S_ISDIR (imode (inode_at d t))"
  shows "\<exists>d' F' Is' A' ess'. candy_unlink d (entry_path ns n) user grp = Some (0, d') \<and>
    A' = (if inlinks (inode_at d t) = 1 \<and> refs_of d t = 0 then A - {t} else A) \<and> finished (A - {p, t}) d F' Is' A' d' \<and>
    dir_rep d' p ess' \<and> dir_map ess' = (dir_map ess)(n := None) \<and>
    same_attr (inode_at d p) (inode_at d' p) \<and>
    (t \<in> A' \<longrightarrow> relinked (inode_at d t) (inlinks (inode_at d t) - 1) (inode_at d' t) \<and> content d' t = content d t)"
proof -
  obtain h d1 where h: "opened F Is A d p n h d1" "\<forall>f. with_path d (entry_path ns n) user grp f = f d1 (int h)"
      "at_entry d1 A (int h) p n ess" "may_write d1 user grp p" "few_refs 3 (refs_of d1)"
    using caller_opened [OF at] entry(1) t(1) by blast
  have idle: "idle d" and res: "resolvable F Is A d (caller user grp) ns p" and rep: "dir_rep d p ess"
    using at by (simp_all add: caller_at_def)
  note f = opened_facts [OF idle h(1)] and p = resolvable_linked(2) [OF res]
  have tp: "t \<in> A" "p \<in> A" "t \<noteq> p"
    using t p rep by (auto simp: linked_def dir_rep_def)
  have t1: "same_attr (inode_at d t) (inode_at d1 t)" "content d1 t = content d t"
    using f(3) tp(1) by (simp_all add: same_files_def)
  have p1: "linked d1 A p"
    by (rule linked_files [OF f(3) subset_refl p])
  have "\<not> S_ISDIR (imode (inode_at d1 t))" "few_refs 1 (refs_of d1)"
    using t(2) t1(1) few_refs_mono [OF h(5)] by (simp_all add: same_attr_def)
  from path_unlink_spec [OF f(1) h(3) entry tp(1) this(1) h(4) this(2)]
  obtain d2 F' Is' A' ess' where d2: "path_unlink d1 (int h) user grp = Some (0, d2)"
    "A' = (if inlinks (inode_at d1 t) = 1 \<and> refs_of d1 t = 0 then A - {t} else A)" "stepped (A - {p, t}) d1 F' Is' A' (refs_of d1) d2"
    "dir_rep d2 p ess'" "dir_map ess' = (dir_map ess)(n := None)"
    "t \<in> A' \<longrightarrow> relinked (inode_at d1 t) (inlinks (inode_at d1 t) - 1) (inode_at d2 t) \<and> content d2 t = content d1 t" "same_attr (inode_at d1 p) (inode_at d2 p)"
    by blast
  have A': "A' = (if inlinks (inode_at d t) = 1 \<and> refs_of d t = 0 then A - {t} else A)"
    using d2(2) t1(1) f(2) tp(3) by (simp add: inc_def same_attr_def)
  have pA: "p \<in> A'" "A - {p, t} \<subseteq> A" "A - {p, t} \<subseteq> A'"
    using A' tp by auto
  obtain d3 where d3: "done_path d2 (int h) 0 = Some (0, d3)" "finished (A - {p, t}) d F' Is' A' d3" "same_files A' d2 d3"
    using done_path_spec [OF idle h(1) d2(3) linked_same [OF d2(7) p1 pA(1)] pA(2,3), of 0 0] by auto
  have "candy_unlink d (entry_path ns n) user grp = Some (0, d3)"
    using h(2) d2(1) d3(1) by (simp add: candy_unlink_def)
  moreover have "dir_rep d3 p ess'"
    using same_files_dir [OF d3(3) pA(1) d2(4)] .
  moreover have "relinked (inode_at d t) (inlinks (inode_at d t) - 1) (inode_at d3 t) \<and> content d3 t = content d t" if "t \<in> A'"
    using that d2(6) d3(3) t1 by (simp add: same_files_def same_attr_def relinked_def)
  moreover have "same_attr (inode_at d p) (inode_at d3 p)"
    by (rule attr_chain [OF f(3) tp(2) d2(7) d3(3) pA(1)])
  ultimately show ?thesis
    using A' d3(2) d2(5) by (intro exI [of _ d3] exI [of _ F'] exI [of _ Is'] exI [of _ A'] exI [of _ ess']) simp
qed

lemma same_files_fsize:
  "same_files B d d' \<Longrightarrow> refs_inv d F Is A \<Longrightarrow> refs_inv d' F' Is' A' \<Longrightarrow> i \<in> B \<Longrightarrow> i \<in> A \<Longrightarrow> i \<in> A' \<Longrightarrow> fsize d' i = fsize d i"
  using content_fsize [of d' i d F Is A F' Is' A'] by (simp add: same_files_def)

text \<open>Blocks for a new directory and for one more block of its parent.\<close>

definition room_for_dir :: "'x disk_t_scheme \<Rightarrow> blockno set \<Rightarrow> ino \<Rightarrow> bool" where
  "room_for_dir d F p \<longleftrightarrow> 2 \<le> card F \<and> fsize d p + BLOCKSIZE \<le> MAX_FILESIZE \<and>
     slots_count (blockcount_of (fsize d p + BLOCKSIZE)) + 2 \<le> slots_count (fcount_blocks d p) + card F"

theorem candy_mkdir_spec:
  fixes d :: "'x path_env_scheme"
  assumes at: "caller_at F (i # Is) A d user grp ns p n ess" and absent: "dir_map ess n = None"
    and mode: "mode AND 0xFFF = mode" and user: "user \<noteq> -1" "grp \<noteq> -1" and room: "room_for_dir d F p"
  shows "\<exists>d' F' ess'. candy_mkdir d (entry_path ns n) mode user grp = Some (0, d') \<and> i \<notin> A \<and> finished (A - {p}) d F' Is (insert i A) d' \<and>
    dir_rep d' p ess' \<and> dir_map ess' = (dir_map ess)(n \<mapsto> i) \<and> dir_rep d' i (new_dir p i) \<and>
    inlinks (inode_at d' i) = 1 \<and> iowner (inode_at d' i) = user \<and> igroup (inode_at d' i) = grp \<and> imode (inode_at d' i) AND 0xFFF = mode \<and>
    same_attr (inode_at d p) (inode_at d' p)"
proof -
  obtain h d1 where h: "opened F (i # Is) A d p n h d1" "\<forall>f. with_path d (entry_path ns n) user grp f = f d1 (int h)"
      "at_entry d1 A (int h) p n ess" "may_write d1 user grp p"
    using caller_opened [OF at] absent by blast
  have idle: "idle d" and res: "resolvable F (i # Is) A d (caller user grp) ns p" and rep: "dir_rep d p ess"
    using at by (simp_all add: caller_at_def)
  note f = opened_facts [OF idle h(1)] and p = resolvable_linked(2) [OF res]
  have pA: "p \<in> A"
    using p by (simp add: linked_def)
  have p1: "linked d1 A p"
    by (rule linked_files [OF f(3) subset_refl p])
  have "refs_inv d F (i # Is) A"
    using res by (simp add: resolvable_def)
  then have size: "fsize d1 p = fsize d p"
    using same_files_fsize [OF f(3) _ f(1) pA pA pA] by simp
  have room1: "2 \<le> card F" "slots_count (blockcount_of (fsize d1 p + BLOCKSIZE)) + 2 \<le> slots_count (fcount_blocks d1 p) + card F"
      "fsize d1 p + BLOCKSIZE \<le> MAX_FILESIZE"
    using room size by (simp_all add: room_for_dir_def fcount_blocks_def)
  obtain d2 F' ess' where d2: "path_mkdir d1 (int h) mode user grp = Some (0, d2)" "i \<notin> A"
    "stepped (A - {p}) d1 F' Is (insert i A) (refs_of d1) d2" "dir_rep d2 p ess'" "dir_map ess' = (dir_map ess)(n \<mapsto> i)"
    "dir_rep d2 i (new_dir p i)" "inlinks (inode_at d2 i) = 1" "iowner (inode_at d2 i) = user" "igroup (inode_at d2 i) = grp"
    "imode (inode_at d2 i) AND 0xFFF = mode" "same_attr (inode_at d1 p) (inode_at d2 p)"
    using path_mkdir_spec [OF f(1) h(3) absent h(4) mode user room1] by blast
  have sub: "p \<in> insert i A" "A - {p} \<subseteq> A" "A - {p} \<subseteq> insert i A"
    using pA by auto
  obtain d3 where d3: "done_path d2 (int h) 0 = Some (0, d3)" "finished (A - {p}) d F' Is (insert i A) d3" "same_files (insert i A) d2 d3"
    using done_path_spec [OF idle h(1) d2(3) linked_same [OF d2(11) p1 sub(1)] sub(2,3), of 0 0] by auto
  have "candy_mkdir d (entry_path ns n) mode user grp = Some (0, d3)"
    using h(2) d2(1) d3(1) by (simp add: candy_mkdir_def)
  moreover have "dir_rep d3 p ess'" "dir_rep d3 i (new_dir p i)"
    using same_files_dir [OF d3(3)] sub(1) d2(4,6) by blast+
  moreover have "same_attr (inode_at d2 i) (inode_at d3 i)"
    using d3(3) by (simp add: same_files_def)
  moreover have "same_attr (inode_at d p) (inode_at d3 p)"
    by (rule attr_chain [OF f(3) pA d2(11) d3(3) sub(1)])
  ultimately show ?thesis
    using d2 d3(2) by (intro exI [of _ d3] exI [of _ F'] exI [of _ ess']) (simp add: same_attr_def)
qed

theorem candy_mkdir_exists:
  fixes d :: "'x path_env_scheme"
  assumes at: "caller_at F (i # Is) A d user grp ns p n ess" and taken: "dir_map ess n = Some t" "linked d A t"
    and mode: "mode AND 0xFFF = mode" and user: "user \<noteq> -1" "grp \<noteq> -1" and room: "2 \<le> card F"
  shows "\<exists>d' F' Is'. candy_mkdir d (entry_path ns n) mode user grp = Some (- EEXIST, d') \<and> finished A d F' Is' A d'"
proof -
  obtain h d1 where h: "opened F (i # Is) A d p n h d1" "\<forall>f. with_path d (entry_path ns n) user grp f = f d1 (int h)"
      "at_entry d1 A (int h) p n ess" "may_write d1 user grp p"
    using caller_opened [OF at] taken by blast
  have idle: "idle d" and res: "resolvable F (i # Is) A d (caller user grp) ns p"
    using at by (simp_all add: caller_at_def)
  note f = opened_facts [OF idle h(1)] and p = resolvable_linked(2) [OF res]
  have p1: "linked d1 A p"
    by (rule linked_files [OF f(3) subset_refl p])
  obtain d2 F' Is' where d2: "path_mkdir d1 (int h) mode user grp = Some (- EEXIST, d2)" "stepped A d1 F' Is' A (refs_of d1) d2"
    using path_mkdir_exists [OF f(1) h(3) _ h(4) mode user room] taken by auto
  have "linked d2 A p"
    by (rule linked_files [OF _ subset_refl p1]) (use d2(2) in \<open>simp add: stepped_def\<close>)
  then obtain d3 where "done_path d2 (int h) (- EEXIST) = Some (- EEXIST, d3)" "finished A d F' Is' A d3"
    using done_path_spec [OF idle h(1) d2(2) _ subset_refl subset_refl, of "- EEXIST" "- EEXIST"] by auto
  then show ?thesis
    using h(2) d2(1) by (auto simp: candy_mkdir_def)
qed

theorem candy_mkdir_full:
  fixes d :: "'x path_env_scheme"
  assumes at: "caller_at F Is A d user grp ns p n ess" and target: "dir_map ess n = None \<or> (\<exists>t. dir_map ess n = Some t \<and> linked d A t)"
    and full: "card F < 2 \<or> Is = []"
  shows "\<exists>d'. candy_mkdir d (entry_path ns n) mode user grp = Some (- ENOSPC, d') \<and> finished A d F Is A d'"
proof -
  obtain h d1 where h: "opened F Is A d p n h d1" "\<forall>f. with_path d (entry_path ns n) user grp f = f d1 (int h)"
      "at_entry d1 A (int h) p n ess" "may_write d1 user grp p"
    using caller_opened [OF at target] by blast
  have idle: "idle d" and res: "resolvable F Is A d (caller user grp) ns p"
    using at by (simp_all add: caller_at_def)
  note f = opened_facts [OF idle h(1)] and p = resolvable_linked(2) [OF res]
  obtain d2 where d2: "path_mkdir d1 (int h) mode user grp = Some (- ENOSPC, d2)" "stepped A d1 F Is A (refs_of d1) d2"
    using path_mkdir_full [OF f(1) h(3,4) full] by blast
  have "linked d2 A p"
    by (rule linked_files [OF _ subset_refl linked_files [OF f(3) subset_refl p]]) (use d2(2) in \<open>simp add: stepped_def\<close>)
  then obtain d3 where "done_path d2 (int h) (- ENOSPC) = Some (- ENOSPC, d3)" "finished A d F Is A d3"
    using done_path_spec [OF idle h(1) d2(2) _ subset_refl subset_refl, of "- ENOSPC" "- ENOSPC"] by auto
  then show ?thesis
    using h(2) d2(1) by (auto simp: candy_mkdir_def)
qed

theorem candy_rmdir_spec:
  fixes d :: "'x path_env_scheme"
  assumes at: "caller_at F Is A d user grp ns p n ess" and entry: "dir_map ess n = Some t" "n \<noteq> [DOT]" "n \<noteq> [DOT, DOT]"
    and t: "linked d A t" "t \<noteq> p" "dir_rep d t [es]" "length es \<le> 2"
  shows "\<exists>d' F' Is' A' ess'. candy_rmdir d (entry_path ns n) user grp = Some (0, d') \<and>
    A' = (if inlinks (inode_at d t) = 1 \<and> refs_of d t = 0 then A - {t} else A) \<and> finished (A - {p, t}) d F' Is' A' d' \<and>
    dir_rep d' p ess' \<and> dir_map ess' = (dir_map ess)(n := None) \<and> same_attr (inode_at d p) (inode_at d' p) \<and>
    (t \<in> A' \<longrightarrow> relinked (inode_at d t) (inlinks (inode_at d t) - 1) (inode_at d' t) \<and> dead_dir d' t)"
proof -
  obtain h d1 where h: "opened F Is A d p n h d1" "\<forall>f. with_path d (entry_path ns n) user grp f = f d1 (int h)"
      "at_entry d1 A (int h) p n ess" "may_write d1 user grp p" "few_refs 3 (refs_of d1)"
    using caller_opened [OF at] entry(1) t(1) by blast
  have idle: "idle d" and res: "resolvable F Is A d (caller user grp) ns p"
    using at by (simp_all add: caller_at_def)
  note f = opened_facts [OF idle h(1)] and p = resolvable_linked(2) [OF res]
  have tp: "t \<in> A" "p \<in> A"
    using t p by (auto simp: linked_def)
  have t1: "same_attr (inode_at d t) (inode_at d1 t)"
    using f(3) tp(1) by (simp add: same_files_def)
  have p1: "linked d1 A p"
    by (rule linked_files [OF f(3) subset_refl p])
  have "few_refs 1 (refs_of d1)"
    using few_refs_mono [OF h(5)] by simp
  from path_rmdir_spec [OF f(1) h(3) entry tp(1) t(2) same_files_dir [OF f(3) tp(1) t(3)] t(4) h(4) this]
  obtain d2 F' Is' A' ess' where d2: "path_rmdir d1 (int h) user grp = Some (0, d2)"
    "A' = (if inlinks (inode_at d1 t) = 1 \<and> refs_of d1 t = 0 then A - {t} else A)" "stepped (A - {p, t}) d1 F' Is' A' (refs_of d1) d2"
    "dir_rep d2 p ess'" "dir_map ess' = (dir_map ess)(n := None)" "same_attr (inode_at d1 p) (inode_at d2 p)"
    "t \<in> A' \<longrightarrow> relinked (inode_at d1 t) (inlinks (inode_at d1 t) - 1) (inode_at d2 t) \<and> dead_dir d2 t"
    by blast
  have A': "A' = (if inlinks (inode_at d t) = 1 \<and> refs_of d t = 0 then A - {t} else A)"
    using d2(2) t1 f(2) t(2) by (simp add: inc_def same_attr_def)
  have pA: "p \<in> A'" "A - {p, t} \<subseteq> A" "A - {p, t} \<subseteq> A'"
    using A' tp t(2) by auto
  obtain d3 where d3: "done_path d2 (int h) 0 = Some (0, d3)" "finished (A - {p, t}) d F' Is' A' d3" "same_files A' d2 d3"
    using done_path_spec [OF idle h(1) d2(3) linked_same [OF d2(6) p1 pA(1)] pA(2,3), of 0 0] by auto
  have "candy_rmdir d (entry_path ns n) user grp = Some (0, d3)"
    using h(2) d2(1) d3(1) by (simp add: candy_rmdir_def)
  moreover have "dir_rep d3 p ess'"
    using same_files_dir [OF d3(3) pA(1) d2(4)] .
  moreover have "same_attr (inode_at d p) (inode_at d3 p)"
    by (rule attr_chain [OF f(3) tp(2) d2(6) d3(3) pA(1)])
  moreover have "relinked (inode_at d t) (inlinks (inode_at d t) - 1) (inode_at d3 t) \<and> dead_dir d3 t" if "t \<in> A'"
  proof -
    have inv3: "refs_inv d3 F' Is' A'" and inv2: "refs_inv d2 F' Is' A'"
      using d3(2) d2(3) by (simp_all add: finished_def stepped_def)
    have attr: "same_attr (inode_at d2 t) (inode_at d3 t)"
      using d3(3) that by (simp add: same_files_def)
    have "fsize d3 t = fsize d2 t"
      using same_files_fsize [OF d3(3) inv2 inv3 that that that] .
    then show ?thesis
      using d2(7) that attr t1 by (auto simp: dead_dir_def same_attr_def relinked_def)
  qed
  ultimately show ?thesis
    using A' d3(2) d2(5) by (intro exI [of _ d3] exI [of _ F'] exI [of _ Is'] exI [of _ A'] exI [of _ ess']) simp
qed

theorem candy_rmdir_nonempty:
  fixes d :: "'x path_env_scheme"
  assumes at: "caller_at F Is A d user grp ns p n ess" and entry: "dir_map ess n = Some t"
    and t: "linked d A t" "dir_rep d t ess'" "1 < length ess' \<or> (\<exists>es. ess' = [es] \<and> 2 < length es)"
  shows "\<exists>d'. candy_rmdir d (entry_path ns n) user grp = Some (- ENOTEMPTY, d') \<and> finished A d F Is A d'"
proof -
  obtain h d1 where h: "opened F Is A d p n h d1" "\<forall>f. with_path d (entry_path ns n) user grp f = f d1 (int h)"
      "at_entry d1 A (int h) p n ess" "may_write d1 user grp p" "few_refs 3 (refs_of d1)"
    using caller_opened [OF at] entry t(1) by blast
  have idle: "idle d" and res: "resolvable F Is A d (caller user grp) ns p"
    using at by (simp_all add: caller_at_def)
  note f = opened_facts [OF idle h(1)] and p = resolvable_linked(2) [OF res]
  have tA: "t \<in> A"
    using t(1) by (simp add: linked_def)
  have few: "few_refs 1 (refs_of d1)"
    using few_refs_mono [OF h(5)] by simp
  obtain d2 where d2: "path_rmdir d1 (int h) user grp = Some (- ENOTEMPTY, d2)" "stepped A d1 F Is A (refs_of d1) d2"
    using path_rmdir_nonempty [OF f(1) h(3) entry tA linked_files [OF f(3) subset_refl t(1)] same_files_dir [OF f(3) tA t(2)] t(3) h(4) few] by blast
  have "linked d2 A p"
    by (rule linked_files [OF _ subset_refl linked_files [OF f(3) subset_refl p]]) (use d2(2) in \<open>simp add: stepped_def\<close>)
  then obtain d3 where "done_path d2 (int h) (- ENOTEMPTY) = Some (- ENOTEMPTY, d3)" "finished A d F Is A d3"
    using done_path_spec [OF idle h(1) d2(2) _ subset_refl subset_refl, of "- ENOTEMPTY" "- ENOTEMPTY"] by auto
  then show ?thesis
    using h(2) d2(1) by (auto simp: candy_rmdir_def)
qed

section \<open>Files by name\<close>

lemma quiet_finished:
  fixes d :: "'x path_env_scheme"
  assumes "quiet F Is A d (refs_of d) d'" and "idle d"
  shows "finished A d F Is A d'"
  using quiet_settled(1) [OF assms(1)] assms(2) by (simp add: finished_def settled_def idle_def)

lemma done_inode_spec:
  fixes d1 :: "'x path_env_scheme"
  assumes "refs_inv d1 F Is A" and "linked d1 A i" and "refs_of d1 = inc f i"
  shows "\<exists>d2. done_inode d1 i e = Some (if e < 0 then int_of_long e else 0, d2) \<and> quiet F Is A d1 f d2"
  using close_ok_spec [OF assms] by (auto simp: done_inode_def)

theorem candy_getattr_found:
  fixes d :: "'x path_env_scheme"
  assumes "idle d" and res: "resolvable F Is A d (caller user grp) ns p" and dir: "may_search d (caller user grp) p" "dir_entry d p n (Some t)"
    and name: "good_name n" and t: "linked d A t"
  shows "\<exists>st d'. candy_getattr d (entry_path ns n) user grp = Some (0, Some st, d') \<and> finished A d F Is A d' \<and>
    st_ino st = t \<and> st_mode st = imode (inode_at d t) \<and> st_nlink st = inlinks (inode_at d t) \<and>
    st_uid st = iowner (inode_at d t) \<and> st_gid st = igroup (inode_at d t) \<and>
    st_size st = int (length (content d t)) \<and> st_blocks st = blockcount_of (st_size st)"
proof -
  have tA: "t \<in> A"
    using t by (simp add: linked_def)
  obtain d1 where d1: "path_resolve d (entry_path ns n) False user grp = Some (t, d1)" "quiet F Is A d (inc (refs_of d) t) d1"
    using path_resolve_found [OF res dir name tA, of False] by (auto simp: entry_path_def)
  have q: "refs_inv d1 F Is A" "refs_of d1 = inc (refs_of d) t" "same_attr (inode_at d t) (inode_at d1 t)" "content d1 t = content d t"
    using d1(2) tA by (simp_all add: quiet_def same_files_def)
  note fs1 = refs_inv_fs(1) [OF q(1)]
  have "linked d1 A t"
    using quiet_linked [OF d1(2)] t by simp
  then obtain d2 where d2: "done_inode d1 t 0 = Some (0, d2)" "quiet F Is A d1 (refs_of d) d2"
    using done_inode_spec [OF q(1) _ q(2), of 0] by auto
  let ?st = "fill_stat t (inode_info.truncate (inode_at d1 t))"
  have run: "candy_getattr d (entry_path ns n) user grp = Some (0, Some ?st, d2)"
    using d1(1) d2(1) inode_getinfo_spec [OF fs1 tA] ino_nonneg [OF fs1 tA] by (simp add: candy_getattr_def with_inode_def)
  have size: "0 \<le> fsize d1 t" "int (length (content d t)) = fsize d1 t"
    using fs_inv_inode(7) [OF fs1 tA] length_content [of d1 t] q(4) by simp_all
  then have "st_size ?st = int (length (content d t))" "st_blocks ?st = blockcount_of (fsize d1 t)"
    by (simp_all add: fill_stat_def fsize_def inode_info.truncate_def blockcount_of_def offset2blockidx_def)
  then show ?thesis
    using run quiet_finished [OF quiet_trans [OF d1(2) d2(2)] assms(1)] q(3) size(2)
    by (intro exI [of _ ?st] exI [of _ d2]) (simp add: fill_stat_def inode_info.truncate_def same_attr_def)
qed

theorem candy_getattr_absent:
  fixes d :: "'x path_env_scheme"
  assumes "idle d" and "resolvable F Is A d (caller user grp) ns p" and "may_search d (caller user grp) p \<Longrightarrow> dir_entry d p n None" and "good_name n"
  shows "\<exists>d'. candy_getattr d (entry_path ns n) user grp = Some (- ENOENT, None, d') \<and> finished A d F Is A d'"
proof -
  obtain d' where d': "path_resolve d (entry_path ns n) False user grp = Some (of_int (- ENOENT), d')" "quiet F Is A d (refs_of d) d'"
    using path_resolve_absent [OF assms(2-4)] by (auto simp: entry_path_def)
  have "int_of_ino (of_int (- ENOENT)) = - ENOENT"
    by (simp add: int_of_ino_def)
  then show ?thesis
    using d'(1) quiet_finished [OF d'(2) assms(1)] by (simp add: candy_getattr_def with_inode_def)
qed

text \<open>A path through a directory that does not exist ends the program.\<close>

theorem candy_getattr_aborts:
  fixes d :: "'x path_env_scheme"
  assumes "resolvable F Is A d (caller user grp) ns p" and "may_search d (caller user grp) p \<Longrightarrow> dir_entry d p n None" and "good_name n"
  shows "candy_getattr d (entry_path ns (n @ SLASH # rest)) user grp = None"
  using path_resolve_aborts [OF assms] by (simp add: candy_getattr_def with_inode_def entry_path_def)

section \<open>Creating a file\<close>

lemma caller_at_files:
  assumes at: "caller_at F Is A d user grp ns p n ess" and step: "stepped A d F' Is' A' f d'" and sub: "A \<subseteq> A'" and few: "few_refs 4 f"
  shows "caller_at F' Is' A' d' user grp ns p n ess"
proof -
  have res: "resolvable F Is A d (caller user grp) ns p"
    using at by (simp add: caller_at_def)
  have s: "refs_inv d' F' Is' A'" "refs_of d' = f" "same_files A d d'" "open_path_table d' = open_path_table d"
    using step by (simp_all add: stepped_def)
  have p: "p \<in> A"
    using resolvable_linked(2) [OF res] by (simp add: linked_def)
  have "resolvable F' Is' A' d' (caller user grp) ns p"
    using res s few linked_files [OF s(3) sub] dir_path_files [OF _ s(3) sub] by (simp add: resolvable_def)
  moreover have "may_write d' user grp p = may_write d user grp p"
    using stepped_write [OF step p] .
  ultimately show ?thesis
    using at same_files_dir [OF s(3) p] same_files_entry(2) [OF s(3) p] s(4) by (simp add: caller_at_def idle_def)
qed

theorem candy_create_spec:
  fixes d :: "'x path_env_scheme"
  assumes at: "caller_at F (i # Is) A d user grp ns p n ess" and absent: "dir_map ess n = None" and few: "few_refs 5 (refs_of d)"
    and mode: "S_ISREG mode" and user: "user \<noteq> -1" "grp \<noteq> -1"
    and room: "slots_count (blockcount_of (fsize d p + BLOCKSIZE)) + 1 \<le> slots_count (fcount_blocks d p) + card F" "F \<noteq> {}"
      "fsize d p + BLOCKSIZE \<le> MAX_FILESIZE"
  shows "\<exists>d' F' ess'. candy_create d (entry_path ns n) mode user grp = Some (0, Some i, d') \<and> i \<notin> A \<and>
    refs_inv d' F' Is (insert i A) \<and> refs_of d' = inc (refs_of d) i \<and> same_files (A - {p}) d d' \<and> idle d' \<and>
    dir_rep d' p ess' \<and> dir_map ess' = (dir_map ess)(n \<mapsto> i) \<and> content d' i = [] \<and> S_ISREG (imode (inode_at d' i)) \<and>
    inlinks (inode_at d' i) = 1 \<and> iowner (inode_at d' i) = user \<and> igroup (inode_at d' i) = grp \<and>
    imode (inode_at d' i) AND 0xFFF = mode AND 0xFFF \<and> same_attr (inode_at d p) (inode_at d' p) \<and>
    length ess' \<le> Suc (length ess) \<and> card F + slots_count (fcount_blocks d p) = card F' + 1 + slots_count (fcount_blocks d' p)"
proof -
  have idle: "idle d" and res: "resolvable F (i # Is) A d (caller user grp) ns p" and rep: "dir_rep d p ess"
    using at by (simp_all add: caller_at_def)
  have inv: "refs_inv d F (i # Is) A"
    using res by (simp add: resolvable_def)
  note fs = refs_inv_fs(1) [OF inv]
  have p: "linked d A p" "p \<in> A"
    using resolvable_linked(2) [OF res] by (simp_all add: linked_def)
  obtain d1 b where d1: "file_create d = Some (i, d1)" "b \<in> F" "fs_result A i d d1 (F - {b}) Is (insert i A)" "i \<notin> A"
      "S_ISREG (imode (inode_at d1 i))" "inlinks (inode_at d1 i) = 0" "content d1 i = []"
    using file_create_spec [OF fs room(2)] by blast
  have m: "(mode AND 0xFFF) AND 0xFFF = mode AND 0xFFF"
    by (simp add: and.assoc)
  obtain d2 d3 d4 where c: "\<not> sint i < 0" "open_ok d1 i = Some d2" "perm_chown d2 i 0 user grp = Some (0, d3)"
      "perm_chmod d3 i (mode AND 0xFFF) user = Some (0, d4)" "stepped A d (F - {b}) Is (insert i A) (inc (refs_of d) i) d4" "refs_of d i = 0"
      "content d4 i = content d1 i" "inlinks (inode_at d4 i) = 0" "iowner (inode_at d4 i) = user" "igroup (inode_at d4 i) = grp"
      "imode (inode_at d4 i) AND 0xFFF = mode AND 0xFFF" "imode (inode_at d4 i) AND S_IFMT = imode (inode_at d1 i) AND S_IFMT"
    using fresh_owned [OF inv d1(3,4,6) m user] by blast
  have regular: "S_ISREG (imode (inode_at d4 i))"
    using d1(5) c(12) by (simp add: S_ISREG_def)
  have inv4: "refs_inv d4 (F - {b}) Is (insert i A)" "refs_of d4 = inc (refs_of d) i" "same_files A d d4"
    using c(5) by (simp_all add: stepped_def)
  have "few_refs (Suc 4) (refs_of d)"
    using few by (simp add: numeral_eq_Suc)
  then have at4: "caller_at (F - {b}) Is (insert i A) d4 user grp ns p n ess"
    using caller_at_files [OF at c(5) _ few_refs_inc] by blast
  then obtain h d5 where h: "opened (F - {b}) Is (insert i A) d4 p n h d5" "path_open d4 (entry_path ns n) False user grp (-1) = Some (int h, d5)"
      "at_entry d5 (insert i A) (int h) p n ess" "may_write d5 user grp p"
    using caller_opened [OF at4] absent by blast
  have idle4: "idle d4"
    using at4 by (simp add: caller_at_def)
  note f = opened_facts [OF idle4 h(1)]
  have pi: "p \<noteq> i"
    using p(2) d1(4) by blast
  have i5: "same_attr (inode_at d4 i) (inode_at d5 i)" "content d5 i = []"
    using f(3) c(7) d1(7) by (simp_all add: same_files_def)
  have i5': "\<not> S_ISDIR (imode (inode_at d5 i))" "0 < refs_of d5 i"
    using i5(1) regular mode_exclusive f(2) inv4(2) pi by (auto simp: same_attr_def inc_def)
  have size: "fsize d5 p = fsize d p"
    using same_files_fsize [OF same_files_trans [OF inv4(3) same_files_mono [OF f(3) subset_insertI]] inv f(1)] p(2) by blast
  have card: "card (F - {b}) + 1 = card F"
    using d1(2) fs_inv_store [OF fs] by (metis Suc_eq_plus1 card.remove finite)
  then have room5: "enough d5 (F - {b}) p (fsize d5 p + BLOCKSIZE)" "fsize d5 p + BLOCKSIZE \<le> MAX_FILESIZE"
    using room size card by (simp_all add: enough_def fcount_blocks_def)
  obtain d6 F' ess' where d6: "path_link d5 (int h) i user grp = Some (0, d6)" "stepped (insert i A - {p, i}) d5 F' Is (insert i A) (refs_of d5) d6"
      "dir_rep d6 p ess'" "dir_map ess' = (dir_map ess)(n \<mapsto> i)" "relinked (inode_at d5 i) (inlinks (inode_at d5 i) + 1) (inode_at d6 i)" "content d6 i = content d5 i"
      "same_attr (inode_at d5 p) (inode_at d6 p)" "length ess' \<le> Suc (length ess)"
      "card (F - {b}) + slots_count (fcount_blocks d5 p) = card F' + slots_count (fcount_blocks d6 p)"
    using path_link_spec [OF f(1) h(3) absent insertI1 i5'(2,1) h(4) room5] by blast
  have sub: "p \<in> insert i A" "insert i A - {p, i} \<subseteq> insert i A"
    using p(2) by auto
  have "linked d6 (insert i A) p"
    using linked_same [OF d6(7) linked_files [OF f(3) subset_refl linked_files [OF inv4(3) subset_insertI p(1)]] sub(1)] .
  then obtain d7 where d7: "done_path d6 (int h) 0 = Some (0, d7)" "finished (insert i A - {p, i}) d4 F' Is (insert i A) d7" "same_files (insert i A) d6 d7"
    using done_path_spec [OF idle4 h(1) d6(2) _ sub(2,2), of 0 0] by auto
  have mode': "mode AND S_IFMT = S_IFREG" "\<not> S_ISDIR mode"
    using mode mode_exclusive by (auto simp: S_ISREG_def)
  have "candy_create d (entry_path ns n) mode user grp = Some (0, Some i, d7)"
    using d1(1) c(1-4) h(2) d6(1) d7(1) mode by (simp add: candy_create_def)
  moreover have "same_files (A - {p}) d d7"
  proof -
    have "same_files (A - {p}) d4 d7"
      using d7(2) same_files_mono [of "insert i A - {p, i}" d4 d7 "A - {p}"] d1(4) by (auto simp: finished_def)
    then show ?thesis
      using same_files_trans [OF same_files_mono [OF inv4(3)]] by blast
  qed
  moreover have "relinked (inode_at d4 i) 1 (inode_at d7 i)" "content d7 i = []"
    using d6(5,6) d7(3) i5 c(8) by (simp_all add: same_files_def relinked_def same_attr_def)
  moreover have "dir_rep d7 p ess'"
    using same_files_dir [OF d7(3) sub(1) d6(3)] .
  moreover have "same_attr (inode_at d p) (inode_at d7 p)"
    using attr_chain [OF f(3) _ d6(7) d7(3) sub(1)] inv4(3) p(2) same_attr_trans sub(1) by (auto simp: same_files_def)
  moreover have "card F + slots_count (fcount_blocks d p) = card F' + 1 + slots_count (fcount_blocks d7 p)"
  proof -
    have "fsize d7 p = fsize d6 p"
      using same_files_fsize [OF d7(3)] d6(2) d7(2) sub(1) by (auto simp: stepped_def finished_def)
    then show ?thesis
      using d6(9) card size by (simp add: fcount_blocks_def)
  qed
  ultimately show ?thesis
    using d1(4) d7(2) d6(4,8) inv4(2) regular c(9-11) unfolding finished_def relinked_def same_attr_def
    by (intro exI [of _ d7] exI [of _ F'] exI [of _ ess']) simp
qed

end
