(* ===== verification/Fuse_Refine.thy ===== *)
theory Fuse_Refine
  imports Namespace_Tree Fuse_Spec
begin

text \<open>
  The disk and the tables represent a file system as its users see it, and the FUSE operations
  do to it what the operations on names do.
\<close>

section \<open>Representation\<close>

definition attr_of :: "inode_t \<Rightarrow> fattr" where
  "attr_of inode = \<lparr>a_perm = imode inode AND 0xFFF, a_owner = iowner inode, a_group = igroup inode, a_links = inlinks inode\<rparr>"

fun node_rep :: "'x disk_t_scheme \<Rightarrow> ino \<Rightarrow> node \<Rightarrow> bool" where
  "node_rep d i (Dir m) = (\<exists>ess. dir_rep d i ess \<and> ess \<noteq> [] \<and> dir_map ess = m)"
| "node_rep d i (File bs) = (S_ISREG (imode (inode_at d i)) \<and> content d i = bs)"
| "node_rep d i (Link bs) = (S_ISLNK (imode (inode_at d i)) \<and> content d i = bs)"
| "node_rep d i Gone = dead_dir d i"

definition represents :: "blockno set \<Rightarrow> ino list \<Rightarrow> 'x path_env_scheme \<Rightarrow> namespace \<Rightarrow> bool" where
  "represents F Is d G \<longleftrightarrow> refs_inv d F Is (dom G) \<and> idle d \<and>
     (\<forall>i a x. G i = Some (a, x) \<longrightarrow> a = attr_of (inode_at d i) \<and> node_rep d i x)"

lemma attr_of_same: "same_attr a b \<Longrightarrow> attr_of b = attr_of a"
  by (simp add: same_attr_def attr_of_def)

lemma attr_of_relinked: "relinked a k b \<Longrightarrow> attr_of b = (attr_of a)\<lparr>a_links := k\<rparr>"
  by (simp add: relinked_def same_attr_def attr_of_def)

lemma node_rep_same:
  assumes "refs_inv d F Is A" and "refs_inv d' F' Is' A'" and "i \<in> A" and "i \<in> A'"
    and "content d' i = content d i" and "imode (inode_at d' i) = imode (inode_at d i)"
  shows "node_rep d i x \<Longrightarrow> node_rep d' i x"
  using assms(5,6) content_fsize [OF assms(5,1-4)] by (cases x) (auto simp: dir_rep_def dead_dir_def)

text \<open>The same while paths are open.\<close>

definition holds :: "blockno set \<Rightarrow> ino list \<Rightarrow> 'x path_env_scheme \<Rightarrow> namespace \<Rightarrow> bool" where
  "holds F Is d G \<longleftrightarrow> refs_inv d F Is (dom G) \<and> (\<forall>i a x. G i = Some (a, x) \<longrightarrow> a = attr_of (inode_at d i) \<and> node_rep d i x)"

lemma represents_iff: "represents F Is d G \<longleftrightarrow> holds F Is d G \<and> idle d"
  by (auto simp: represents_def holds_def)

lemma holdsD:
  assumes "holds F Is d G"
  shows "refs_inv d F Is (dom G)" "G i = Some (a, x) \<Longrightarrow> a = attr_of (inode_at d i)" "G i = Some (a, x) \<Longrightarrow> node_rep d i x"
  using assms unfolding holds_def by blast+

lemma representsD:
  assumes "represents F Is d G"
  shows "refs_inv d F Is (dom G)" "idle d" "G i = Some (a, x) \<Longrightarrow> a = attr_of (inode_at d i)" "G i = Some (a, x) \<Longrightarrow> node_rep d i x"
  using assms unfolding represents_def by blast+

text \<open>What is untouched is represented as before.\<close>

lemma holds_step:
  assumes rep: "holds F Is d G" and inv: "refs_inv d' F' Is' (dom G')" and files: "same_files B d d'"
    and nodes: "\<And>i a x. G' i = Some (a, x) \<Longrightarrow> i \<in> B \<and> G i = Some (a, x) \<or> a = attr_of (inode_at d' i) \<and> node_rep d' i x"
  shows "holds F' Is' d' G'"
  unfolding holds_def
proof (intro conjI inv allI impI)
  fix i a x assume i: "G' i = Some (a, x)"
  have old: "a = attr_of (inode_at d' i) \<and> node_rep d' i x" if "i \<in> B" "G i = Some (a, x)"
  proof -
    have same: "content d' i = content d i" "same_attr (inode_at d i) (inode_at d' i)"
      using files that(1) by (simp_all add: same_files_def)
    have dom: "i \<in> dom G" "i \<in> dom G'" and mode: "imode (inode_at d' i) = imode (inode_at d i)"
      using that(2) i same(2) by (auto simp: same_attr_def)
    show ?thesis
      using node_rep_same [OF holdsD(1) [OF rep] inv dom same(1) mode holdsD(3) [OF rep that(2)]]
        holdsD(2) [OF rep that(2)] attr_of_same [OF same(2)] by simp
  qed
  then show "a = attr_of (inode_at d' i)" "node_rep d' i x"
    using nodes [OF i] by blast+
qed

lemma represents_step:
  assumes "represents F Is d G" and "refs_inv d' F' Is' (dom G')" and "idle d'" and "same_files B d d'"
    and "\<And>i a x. G' i = Some (a, x) \<Longrightarrow> i \<in> B \<and> G i = Some (a, x) \<or> a = attr_of (inode_at d' i) \<and> node_rep d' i x"
  shows "represents F' Is' d' G'"
  using assms(1,3) holds_step [of F Is d G, OF _ assms(2,4,5)] unfolding represents_iff by blast

lemma holds_files: "holds F Is d G \<Longrightarrow> refs_inv d' F' Is' (dom G) \<Longrightarrow> same_files (dom G) d d' \<Longrightarrow> holds F' Is' d' G"
  by (rule holds_step) auto

lemma bit_perm: "bit ((m :: u32) AND 0xFFF) k = (k < 12 \<and> bit m k)"
proof -
  have "(0xFFF :: u32) = mask 12"
    by (simp add: mask_eq_exp_minus_1)
  then have "bit (0xFFF :: u32) k = bit (mask 12 :: u32) k"
    by (rule arg_cong)
  then show ?thesis
    unfolding bit_and_iff bit_mask_iff by auto
qed

lemma may_allowed: "perms \<noteq> PERM_UTIME \<Longrightarrow> may (attr_of inode) perms user grp = allowed inode perms user grp"
  by (auto simp: may_def allowed_def granted_def class_shift_def attr_of_def bit_perm)

section \<open>Paths\<close>

text \<open>
  A caller who may change the entry \<open>n\<close> of directory \<open>p\<close>, to which the names lead.  The last
  directory need not be searchable: \<open>namei_rec\<close> reports that like a missing entry, and
  \<open>path_open\<close> and \<open>path_get\<close> do not look at permissions.
\<close>

definition ns_at :: "namespace \<Rightarrow> u32 \<Rightarrow> u32 \<Rightarrow> byte list list \<Rightarrow> ino \<Rightarrow> byte list \<Rightarrow> (byte list \<Rightarrow> ino option) \<Rightarrow> bool" where
  "ns_at G user grp ns p n m \<longleftrightarrow> walk G user grp 0 ns = Some p \<and> good_name n \<and> 0 \<notin> set n \<and>
     (\<exists>b. G p = Some (b, Dir m) \<and> may b PERM_WRITE user grp)"

lemma holds_linked:
  assumes "holds F Is d G" and "namespace_wf G" and "is_dir G p"
  shows "linked d (dom G) p"
proof -
  obtain a m where p: "G p = Some (a, Dir m)"
    using assms(3) by (auto simp: is_dir_def dir_of_eq)
  then have "links_of G p = 1"
    using wf_parts(3) [OF assms(2), of p m] by (simp add: dir_of_eq)
  then show ?thesis
    using p holdsD(2) [OF assms(1) p] by (auto simp: linked_def links_of_def attr_of_def)
qed

lemma ns_linked: "represents F Is d G \<Longrightarrow> namespace_wf G \<Longrightarrow> is_dir G p \<Longrightarrow> linked d (dom G) p"
  unfolding represents_iff using holds_linked by blast

lemma ns_entry_linked:
  assumes rep: "represents F Is d G" and "namespace_wf G" and "dir_of G p = Some m" and "m n = Some t"
  shows "linked d (dom G) t"
proof -
  have "t \<in> dom G" "0 < links_of G t"
    using entry_target [OF assms(2-4)] .
  then obtain a x where "G t = Some (a, x)" "a_links a \<noteq> 0"
    by (fastforce simp: links_of_def)
  then show ?thesis
    using representsD(3) [OF rep, of t a x] by (auto simp: linked_def attr_of_def)
qed

lemma is_dir_eq: "is_dir G p \<longleftrightarrow> (\<exists>a m. G p = Some (a, Dir m))"
  by (auto simp: is_dir_def dir_of_eq)

lemma walk_end: "walk G user grp p ns = Some q \<Longrightarrow> is_dir G p \<and> is_dir G q"
  by (induction ns arbitrary: p) (fastforce simp: is_dir_eq split: option.splits node.splits if_splits)+

lemma perm_not_utime: "PERM_EXEC \<noteq> PERM_UTIME" "PERM_WRITE \<noteq> PERM_UTIME" "PERM_READ \<noteq> PERM_UTIME"
  by (simp_all add: PERM_EXEC_def PERM_WRITE_def PERM_READ_def PERM_UTIME_def)

lemma walk_dir_path:
  assumes rep: "represents F Is d G" and wf: "namespace_wf G"
  shows "walk G user grp p ns = Some q \<Longrightarrow> dir_path d (dom G) (caller user grp) p ns q"
proof (induction ns arbitrary: p)
  case Nil
  then have "is_dir G p" "q = p"
    using walk_end [OF Nil] by (auto split: option.splits node.splits)
  then show ?case
    using ns_linked [OF rep wf] by (simp add: dir_path_simps)
next
  case (Cons n ns)
  obtain a m t where p: "G p = Some (a, Dir m)" "may a PERM_EXEC user grp" "good_name n" "m n = Some t" "walk G user grp t ns = Some q"
    using Cons.prems by (auto split: option.splits node.splits if_splits)
  have dir: "is_dir G p" "is_dir G t"
    using walk_end [OF Cons.prems] walk_end [OF p(5)] by simp_all
  obtain b k where t: "G t = Some (b, Dir k)"
    using dir(2) by (auto simp: is_dir_def dir_of_eq)
  have "S_ISDIR (imode (inode_at d t))"
    using representsD(4) [OF rep t] by (auto simp: dir_rep_def)
  moreover have "may_search d (caller user grp) p"
    using p(2) representsD(3) [OF rep p(1)] may_allowed perm_not_utime by (simp add: may_search_def)
  moreover have "dir_entry d p n (Some t)"
    using representsD(4) [OF rep p(1)] p(4) by (auto simp: dir_entry_def)
  ultimately show ?case
    using dir_path.down [OF ns_linked [OF rep wf dir(1)] p(3)] Cons.IH [OF p(5)] by blast
qed

lemma ns_caller:
  assumes rep: "represents F Is d G" and wf: "namespace_wf G" and few: "few_refs 4 (refs_of d)" and at: "ns_at G user grp ns p n m"
  shows "\<exists>ess. caller_at F Is (dom G) d user grp ns p n ess \<and> dir_map ess = m"
proof -
  obtain b where p: "G p = Some (b, Dir m)" "may b PERM_WRITE user grp"
    using at by (auto simp: ns_at_def)
  obtain ess where ess: "dir_rep d p ess" "ess \<noteq> []" "dir_map ess = m"
    using representsD(4) [OF rep p(1)] by auto
  have "resolvable F Is (dom G) d (caller user grp) ns p"
    using representsD(1) [OF rep] few ns_linked [OF rep wf, of 0] walk_dir_path [OF rep wf] walk_end at
    by (auto simp: resolvable_def ns_at_def)
  moreover have "may_write d user grp p"
    using p representsD(3) [OF rep p(1)] may_allowed perm_not_utime by (simp add: may_write_def)
  ultimately show ?thesis
    using ess representsD(2) [OF rep] at by (auto simp: caller_at_def ns_at_def)
qed

section \<open>Operations\<close>

text \<open>The state between two operations: what FUSE has open is counted by \<open>f\<close>.\<close>

definition serves :: "blockno set \<Rightarrow> ino list \<Rightarrow> 'x path_env_scheme \<Rightarrow> (ino \<Rightarrow> nat) \<Rightarrow> namespace \<Rightarrow> bool" where
  "serves F Is d f G \<longleftrightarrow> represents F Is d G \<and> ns_inv G \<and> refs_of d = f"

lemma finished_represents:
  assumes "represents F Is d G" and "finished B d F' Is' (dom G') d'"
    and "\<And>i a x. G' i = Some (a, x) \<Longrightarrow> i \<in> B \<and> G i = Some (a, x) \<or> a = attr_of (inode_at d' i) \<and> node_rep d' i x"
  shows "represents F' Is' d' G'"
  using represents_step [OF assms(1), of d' F' Is' G' B] assms(2,3) by (simp add: finished_def)

lemma no_name_not_dot: "namespace_wf G \<Longrightarrow> G p = Some (b, Dir m) \<Longrightarrow> m n = None \<Longrightarrow> n \<notin> dots"
  using wf_parts(3) [of G p m] by (auto simp: dots_def dir_of_eq)

lemma node_rep_dir: "dir_rep d i ess \<Longrightarrow> node_rep d i (Dir (dir_map ess))"
  by (auto simp: dir_rep_def dir_ok_def proper_def)

lemma new_dir_map: "dir_map (new_dir p i) = [[DOT, DOT] \<mapsto> p, [DOT] \<mapsto> i]"
  by (simp add: new_dir_def fun_eq_iff)

lemma represents_new:
  assumes rep: "represents F Is d G" and p: "G p = Some (b, Dir m)" and i: "G i = None" and inv: "refs_inv d' F' Is' (insert i (dom G))" and idle: "idle d'"
    and files: "same_files (dom G - {p}) d d'" and dir: "dir_rep d' p ess" "dir_map ess = m(n \<mapsto> i)" "same_attr (inode_at d p) (inode_at d' p)"
    and new: "attr_of (inode_at d' i) = a" "node_rep d' i x"
  shows "represents F' Is' d' (ns_new p n i a x G)"
proof (rule represents_step [OF rep _ idle files])
  have G': "ns_new p n i a x G = G(p \<mapsto> (b, Dir (m(n \<mapsto> i))), i \<mapsto> (a, x))"
    using p by (simp add: ns_new_def)
  have "dom (ns_new p n i a x G) = insert i (dom G)"
    using p by (auto simp: G')
  then show "refs_inv d' F' Is' (dom (ns_new p n i a x G))"
    using inv by simp
  fix j c y assume j: "ns_new p n i a x G j = Some (c, y)"
  have "attr_of (inode_at d' p) = b" "node_rep d' p (Dir (m(n \<mapsto> i)))"
    using representsD(3) [OF rep p] attr_of_same [OF dir(3)] node_rep_dir [OF dir(1)] dir(2) by simp_all
  then show "j \<in> dom G - {p} \<and> G j = Some (c, y) \<or> c = attr_of (inode_at d' j) \<and> node_rep d' j y"
    using j new p i unfolding G' by (cases "j = i"; cases "j = p") (auto simp del: node_rep.simps)
qed

theorem candy_mkdir_refines:
  fixes d :: "'x path_env_scheme"
  assumes s: "serves F (i # Is) d f G" and few: "few_refs 4 f" and at: "ns_at G user grp ns p n m" and absent: "m n = None"
    and mode: "mode AND 0xFFF = mode" and user: "user \<noteq> -1" "grp \<noteq> -1" and room: "room_for_dir d F p"
  shows "\<exists>d' F'. candy_mkdir d (entry_path ns n) mode user grp = Some (0, d') \<and> G i = None \<and>
    serves F' Is d' f (ns_mkdir p n i mode user grp G)"
proof -
  have rep: "represents F (i # Is) d G" and ns: "ns_inv G" and wf: "namespace_wf G" and f: "refs_of d = f"
    using s by (simp_all add: serves_def ns_inv_def)
  obtain b where p: "G p = Some (b, Dir m)"
    using at by (auto simp: ns_at_def)
  obtain ess where ess: "caller_at F (i # Is) (dom G) d user grp ns p n ess" "dir_map ess = m"
    using ns_caller [OF rep wf _ at] few f by blast
  obtain d' F' ess' where d': "candy_mkdir d (entry_path ns n) mode user grp = Some (0, d')" "i \<notin> dom G"
    "finished (dom G - {p}) d F' Is (insert i (dom G)) d'" "dir_rep d' p ess'" "dir_map ess' = m(n \<mapsto> i)" "dir_rep d' i (new_dir p i)"
    "inlinks (inode_at d' i) = 1" "iowner (inode_at d' i) = user" "igroup (inode_at d' i) = grp" "imode (inode_at d' i) AND 0xFFF = mode"
    "same_attr (inode_at d p) (inode_at d' p)"
    using candy_mkdir_spec [OF ess(1) _ mode user room] ess(2) absent by auto
  have i: "G i = None"
    using d'(2) by auto
  have fin: "refs_inv d' F' Is (insert i (dom G))" "idle d'" "same_files (dom G - {p}) d d'" "refs_of d' = f"
    using d'(3) f by (simp_all add: finished_def)
  have "attr_of (inode_at d' i) = fresh_attr_of mode user grp" "node_rep d' i (Dir [[DOT, DOT] \<mapsto> p, [DOT] \<mapsto> i])"
    using d'(7-10) node_rep_dir [OF d'(6)] new_dir_map by (simp_all add: attr_of_def fresh_attr_of_def)
  note new = represents_new [OF rep p i fin(1-3) d'(4,5,11) this]
  have "ns_inv (ns_mkdir p n i mode user grp G)"
    unfolding ns_mkdir_def by (rule ns_new_inv [OF ns p absent i]) (simp_all add: fresh_attr_of_def)
  then show ?thesis
    using d'(1) i new fin(4) by (auto simp: serves_def ns_mkdir_def)
qed

theorem candy_create_refines:
  fixes d :: "'x path_env_scheme"
  assumes s: "serves F (i # Is) d f G" and few: "few_refs 5 f" and at: "ns_at G user grp ns p n m" and absent: "m n = None"
    and mode: "S_ISREG mode" and user: "user \<noteq> -1" "grp \<noteq> -1" and room: "room_for_dir d F p"
  shows "\<exists>d' F'. candy_create d (entry_path ns n) mode user grp = Some (0, Some i, d') \<and> G i = None \<and>
    serves F' Is d' (inc f i) (ns_create p n i (mode AND 0xFFF) user grp G) \<and> fsize d' p \<le> fsize d p + BLOCKSIZE \<and>
    card F + slots_count (fcount_blocks d p) = card F' + 1 + slots_count (fcount_blocks d' p)"
proof -
  have rep: "represents F (i # Is) d G" and ns: "ns_inv G" and wf: "namespace_wf G" and f: "refs_of d = f"
    using s by (simp_all add: serves_def ns_inv_def)
  obtain b where p: "G p = Some (b, Dir m)"
    using at by (auto simp: ns_at_def)
  obtain ess where ess: "caller_at F (i # Is) (dom G) d user grp ns p n ess" "dir_map ess = m"
    using ns_caller [OF rep wf _ at] few_refs_mono [OF few] f by auto
  have room': "slots_count (blockcount_of (fsize d p + BLOCKSIZE)) + 1 \<le> slots_count (fcount_blocks d p) + card F" "F \<noteq> {}"
      "fsize d p + BLOCKSIZE \<le> MAX_FILESIZE"
    using room by (auto simp: room_for_dir_def)
  have "few_refs 5 (refs_of d)" "dir_map ess n = None"
    using few f ess(2) absent by simp_all
  from candy_create_spec [OF ess(1) this(2,1) mode user room']
  obtain d' F' ess' where d': "candy_create d (entry_path ns n) mode user grp = Some (0, Some i, d')" "i \<notin> dom G"
    "refs_inv d' F' Is (insert i (dom G))" "refs_of d' = inc (refs_of d) i" "same_files (dom G - {p}) d d'" "idle d'"
    "dir_rep d' p ess'" "dir_map ess' = m(n \<mapsto> i)" "content d' i = []" "S_ISREG (imode (inode_at d' i))"
    "inlinks (inode_at d' i) = 1" "iowner (inode_at d' i) = user" "igroup (inode_at d' i) = grp"
    "imode (inode_at d' i) AND 0xFFF = mode AND 0xFFF" "same_attr (inode_at d p) (inode_at d' p)" "length ess' \<le> Suc (length ess)"
    "card F + slots_count (fcount_blocks d p) = card F' + 1 + slots_count (fcount_blocks d' p)"
    unfolding ess(2) by blast
  have i: "G i = None"
    using d'(2) by auto
  have "attr_of (inode_at d' i) = fresh_attr_of (mode AND 0xFFF) user grp" "node_rep d' i (File [])"
    using d'(9-14) by (simp_all add: attr_of_def fresh_attr_of_def)
  note new = represents_new [OF rep p i d'(3,6,5,7,8,15) this]
  have ns_inv: "ns_inv (ns_create p n i (mode AND 0xFFF) user grp G)"
    unfolding ns_create_def by (rule ns_new_inv [OF ns p absent i]) (simp_all add: fresh_attr_of_def)
  have "dir_rep d p ess" "p \<in> dom G"
    using ess(1) p by (auto simp: caller_at_def)
  then have "fsize d' p = int (length ess' * BLOCKSIZE)" "fsize d p = int (length ess * BLOCKSIZE)"
    using dir_rep_size [OF refs_inv_fs(1) [OF d'(3)] _ d'(7)] dir_rep_size [OF refs_inv_fs(1) [OF representsD(1) [OF rep]]]
    by blast+
  then have "fsize d' p \<le> fsize d p + BLOCKSIZE"
    using d'(16) by simp
  then show ?thesis
    using d'(1,4,17) i new f ns_inv by (auto simp: serves_def ns_create_def)
qed

text \<open>Removing a name; \<open>g\<close> is what becomes of the node.\<close>

lemma holds_remove:
  assumes rep: "holds F Is d G" and p: "G p = Some (b, Dir m)" and n: "m n = Some t" and t: "G t = Some (a, x)" "t \<noteq> p"
    and A': "A' = (if inlinks (inode_at d t) = 1 \<and> f t = 0 then dom G - {t} else dom G)"
    and inv: "refs_inv d' F' Is' A'" and files: "same_files (dom G - {p, t}) d d'"
    and dir: "dir_rep d' p ess" "dir_map ess = m(n := None)" "same_attr (inode_at d p) (inode_at d' p)"
    and target: "t \<in> A' \<longrightarrow> relinked (inode_at d t) (inlinks (inode_at d t) - 1) (inode_at d' t) \<and> node_rep d' t (g x)"
  shows "holds F' Is' d' (ns_remove p n (f t \<noteq> 0) g G)"
proof -
  let ?G = "ns_remove p n (f t \<noteq> 0) g G"
  have a: "a = attr_of (inode_at d t)"
    by (rule holdsD(2) [OF rep t(1)])
  have G': "?G = G(p \<mapsto> (b, Dir (m(n := None))), t := (if a_links a = 1 \<and> f t = 0 then None else Some (relink (\<lambda>k. k - 1) a, g x)))"
    using p n t by (simp add: ns_remove_def)
  have dom: "dom ?G = A'"
    using p t a unfolding G' A' by (auto simp: attr_of_def)
  show ?thesis
  proof (rule holds_step [OF rep])
    show "refs_inv d' F' Is' (dom ?G)" "same_files (dom G - {p, t}) d d'"
      using inv files dom by simp_all
    fix j c y assume j: "?G j = Some (c, y)"
    have "attr_of (inode_at d' p) = b" "node_rep d' p (Dir (m(n := None)))"
      using holdsD(2) [OF rep p] attr_of_same [OF dir(3)] node_rep_dir [OF dir(1)] dir(2) by simp_all
    moreover have "c = attr_of (inode_at d' t) \<and> node_rep d' t y" if "j = t"
    proof -
      have "t \<in> A'" "(c, y) = (relink (\<lambda>k. k - 1) a, g x)"
        using j that dom unfolding G' by (auto split: if_splits)
      then show ?thesis
        using target attr_of_relinked [of "inode_at d t"] a by (auto simp: relink_def attr_of_def)
    qed
    ultimately show "j \<in> dom G - {p, t} \<and> G j = Some (c, y) \<or> c = attr_of (inode_at d' j) \<and> node_rep d' j y"
      using j t(2) unfolding G' by (cases "j = t"; cases "j = p") (auto simp del: node_rep.simps)
  qed
qed

lemma represents_remove:
  assumes "represents F Is d G" and "G p = Some (b, Dir m)" and "m n = Some t" and "G t = Some (a, x)" "t \<noteq> p"
    and "A' = (if inlinks (inode_at d t) = 1 \<and> refs_of d t = 0 then dom G - {t} else dom G)"
    and fin: "finished (dom G - {p, t}) d F' Is' A' d'"
    and "dir_rep d' p ess" "dir_map ess = m(n := None)" "same_attr (inode_at d p) (inode_at d' p)"
    and "t \<in> A' \<longrightarrow> relinked (inode_at d t) (inlinks (inode_at d t) - 1) (inode_at d' t) \<and> node_rep d' t (g x)"
  shows "represents F' Is' d' (ns_remove p n (refs_of d t \<noteq> 0) g G)"
  using holds_remove [where f = "refs_of d" and g = g, OF _ assms(2-6) _ _ assms(8-11)] assms(1) fin unfolding represents_iff finished_def by blast

lemma node_rep_mode: "node_rep d i x \<Longrightarrow> S_ISDIR (imode (inode_at d i)) \<longleftrightarrow> (\<exists>m. x = Dir m) \<or> x = Gone"
  using mode_exclusive [of "imode (inode_at d i)"] by (cases x) (auto simp: dir_rep_def dead_dir_def)

theorem candy_unlink_refines:
  fixes d :: "'x path_env_scheme"
  assumes s: "serves F Is d f G" and few: "few_refs 4 f" and at: "ns_at G user grp ns p n m" and entry: "m n = Some t" "n \<notin> dots"
    and t: "G t = Some (a, x)" "(\<exists>bs. x = File bs) \<or> (\<exists>bs. x = Link bs)"
  shows "\<exists>d' F' Is'. candy_unlink d (entry_path ns n) user grp = Some (0, d') \<and> serves F' Is' d' f (ns_unlink p n (f t \<noteq> 0) G)"
proof -
  have rep: "represents F Is d G" and ns: "ns_inv G" and wf: "namespace_wf G" and f: "refs_of d = f"
    using s by (simp_all add: serves_def ns_inv_def)
  obtain b where p: "G p = Some (b, Dir m)"
    using at by (auto simp: ns_at_def)
  obtain ess where ess: "caller_at F Is (dom G) d user grp ns p n ess" "dir_map ess = m"
    using ns_caller [OF rep wf _ at] few f by blast
  have lt: "linked d (dom G) t" and tp: "t \<noteq> p"
    using ns_entry_linked [OF rep wf, of p m n t] p entry t by (auto simp: dir_of_eq)
  have nd: "\<not> S_ISDIR (imode (inode_at d t))"
    using node_rep_mode [OF representsD(4) [OF rep t(1)]] t(2) by auto
  have "dir_map ess n = Some t" "n \<noteq> [DOT]" "n \<noteq> [DOT, DOT]"
    using entry ess(2) by (auto simp: dots_def)
  from candy_unlink_spec [OF ess(1) this lt nd]
  obtain d' F' Is' A' ess' where d': "candy_unlink d (entry_path ns n) user grp = Some (0, d')"
    "A' = (if inlinks (inode_at d t) = 1 \<and> refs_of d t = 0 then dom G - {t} else dom G)" "finished (dom G - {p, t}) d F' Is' A' d'"
    "dir_rep d' p ess'" "dir_map ess' = m(n := None)" "same_attr (inode_at d p) (inode_at d' p)"
    "t \<in> A' \<longrightarrow> relinked (inode_at d t) (inlinks (inode_at d t) - 1) (inode_at d' t) \<and> content d' t = content d t"
    unfolding ess(2) by blast
  have "node_rep d' t x" if "t \<in> A'"
  proof -
    have "imode (inode_at d' t) = imode (inode_at d t)"
      using d'(7) that by (simp add: relinked_def same_attr_def)
    then show ?thesis
      using d'(7) that t(2) representsD(4) [OF rep t(1)] by auto
  qed
  then have "represents F' Is' d' (ns_unlink p n (f t \<noteq> 0) G)"
    using represents_remove [OF rep p entry(1) t(1) tp d'(2-6), of "\<lambda>x. x"] d'(7) f by (simp add: ns_unlink_def)
  moreover have "ns_inv (ns_unlink p n (f t \<noteq> 0) G)"
    unfolding ns_unlink_def by (rule ns_remove_inv [OF ns p entry t(1)]) (use t in \<open>auto simp: dir_of_def\<close>)
  ultimately show ?thesis
    using d'(1,3) f by (auto simp: serves_def finished_def)
qed

theorem candy_rmdir_refines:
  fixes d :: "'x path_env_scheme"
  assumes s: "serves F Is d f G" and few: "few_refs 4 f" and at: "ns_at G user grp ns p n m" and entry: "m n = Some t" "n \<notin> dots"
    and t: "dir_of G t = Some mt" "dom mt \<subseteq> dots"
  shows "\<exists>d' F' Is'. candy_rmdir d (entry_path ns n) user grp = Some (0, d') \<and> serves F' Is' d' f (ns_rmdir p n (f t \<noteq> 0) G)"
proof -
  have rep: "represents F Is d G" and ns: "ns_inv G" and wf: "namespace_wf G" and f: "refs_of d = f"
    using s by (simp_all add: serves_def ns_inv_def)
  obtain b where p: "G p = Some (b, Dir m)"
    using at by (auto simp: ns_at_def)
  obtain a where ta: "G t = Some (a, Dir mt)"
    using t(1) by (auto simp: dir_of_eq)
  obtain ess where ess: "caller_at F Is (dom G) d user grp ns p n ess" "dir_map ess = m"
    using ns_caller [OF rep wf _ at] few f by blast
  have lt: "linked d (dom G) t" and tp: "t \<noteq> p"
    using ns_entry_linked [OF rep wf, of p m n t] p entry t by (fastforce simp: dir_of_eq)+
  obtain ess_t where et: "dir_rep d t ess_t" "dir_map ess_t = mt"
    using representsD(4) [OF rep ta] by auto
  obtain es where es: "ess_t = [es]" "length es \<le> 2"
    using empty_dir_block [of ess_t] et t(2) by (auto simp: dir_rep_def dots_def)
  have "dir_map ess n = Some t" "n \<noteq> [DOT]" "n \<noteq> [DOT, DOT]"
    using entry ess(2) by (auto simp: dots_def)
  from candy_rmdir_spec [OF ess(1) this lt tp et(1) [unfolded es(1)] es(2)]
  obtain d' F' Is' A' ess' where d': "candy_rmdir d (entry_path ns n) user grp = Some (0, d')"
    "A' = (if inlinks (inode_at d t) = 1 \<and> refs_of d t = 0 then dom G - {t} else dom G)" "finished (dom G - {p, t}) d F' Is' A' d'"
    "dir_rep d' p ess'" "dir_map ess' = m(n := None)" "same_attr (inode_at d p) (inode_at d' p)"
    "t \<in> A' \<longrightarrow> relinked (inode_at d t) (inlinks (inode_at d t) - 1) (inode_at d' t) \<and> dead_dir d' t"
    unfolding ess(2) by blast
  have "represents F' Is' d' (ns_rmdir p n (f t \<noteq> 0) G)"
    using represents_remove [OF rep p entry(1) ta tp d'(2-6), of "\<lambda>_. Gone"] d'(7) f by (simp add: ns_rmdir_def)
  moreover have "ns_inv (ns_rmdir p n (f t \<noteq> 0) G)"
    unfolding ns_rmdir_def by (rule ns_remove_inv [OF ns p entry ta]) (use t in auto)
  ultimately show ?thesis
    using d'(1,3) f by (auto simp: serves_def finished_def)
qed

lemma full_dir_block:
  assumes "dir_ok ess" and "\<not> dom (dir_map ess) \<subseteq> dots"
  shows "1 < length ess \<or> (\<exists>es. ess = [es] \<and> 2 < length es)"
proof (rule ccontr)
  assume small: "\<not> ?thesis"
  have ok: "proper ess"
    using assms(1) by (simp add: dir_ok_def)
  obtain up self es where hd: "ess ! 0 = ([DOT, DOT], up) # ([DOT], self) # es" "hd ess = ess ! 0"
    using proper_hd [OF ok] .
  obtain es' where "ess = [es']" "length es' \<le> 2"
    using small ok by (cases ess; cases "tl ess") (auto simp: proper_def)
  then have "dom (dir_map ess) \<subseteq> dots"
    using hd by (auto simp: dots_def split: if_splits)
  then show False
    using assms(2) by blast
qed

text \<open>Refusals leave the file system as it was.\<close>

lemma finished_serves:
  assumes "serves F Is d f G" and "finished (dom G) d F' Is' (dom G) d'"
  shows "serves F' Is' d' f G"
  using assms finished_represents [of F Is d G "dom G" F' Is' G d'] by (auto simp: serves_def finished_def)

theorem candy_rmdir_refuses:
  fixes d :: "'x path_env_scheme"
  assumes s: "serves F Is d f G" and few: "few_refs 4 f" and at: "ns_at G user grp ns p n m" and entry: "m n = Some t"
    and t: "dir_of G t = Some mt" "\<not> dom mt \<subseteq> dots"
  shows "\<exists>d'. candy_rmdir d (entry_path ns n) user grp = Some (- ENOTEMPTY, d') \<and> serves F Is d' f G"
proof -
  have rep: "represents F Is d G" and ns: "ns_inv G" and wf: "namespace_wf G" and f: "refs_of d = f"
    using s by (simp_all add: serves_def ns_inv_def)
  obtain b where p: "G p = Some (b, Dir m)"
    using at by (auto simp: ns_at_def)
  obtain a where ta: "G t = Some (a, Dir mt)"
    using t(1) by (auto simp: dir_of_eq)
  obtain ess where ess: "caller_at F Is (dom G) d user grp ns p n ess" "dir_map ess = m"
    using ns_caller [OF rep wf _ at] few f by blast
  have lt: "linked d (dom G) t"
    using ns_entry_linked [OF rep wf, of p m n t] p entry by (auto simp: dir_of_eq)
  obtain ess_t where et: "dir_rep d t ess_t" "dir_map ess_t = mt" "ess_t \<noteq> []"
    using representsD(4) [OF rep ta] by auto
  have "1 < length ess_t \<or> (\<exists>es. ess_t = [es] \<and> 2 < length es)"
    using full_dir_block [of ess_t] et t(2) by (auto simp: dir_rep_def dots_def)
  then show ?thesis
    using candy_rmdir_nonempty [OF ess(1) _ lt et(1)] entry ess(2) finished_serves [OF s] by auto
qed

section \<open>Reading a path\<close>

definition ns_see :: "namespace \<Rightarrow> u32 \<Rightarrow> u32 \<Rightarrow> byte list list \<Rightarrow> ino \<Rightarrow> byte list \<Rightarrow> (byte list \<Rightarrow> ino option) \<Rightarrow> bool" where
  "ns_see G user grp ns p n m \<longleftrightarrow> walk G user grp 0 ns = Some p \<and> good_name n \<and> (\<exists>b. G p = Some (b, Dir m) \<and> may b PERM_EXEC user grp)"

lemma servesD:
  assumes "serves F Is d f G"
  shows "represents F Is d G" "namespace_wf G" "refs_of d = f" "refs_inv d F Is (dom G)" "idle d" "ns_inv G" "ns_tree G"
  using assms representsD by (auto simp: serves_def ns_inv_def)

lemma ns_resolvable:
  assumes s: "serves F Is d f G" and few: "few_refs 4 f" and walk: "walk G user grp 0 ns = Some p"
  shows "resolvable F Is (dom G) d (caller user grp) ns p"
  using servesD [OF s] few ns_linked [OF servesD(1,2) [OF s], of 0] walk_dir_path [OF servesD(1,2) [OF s]] walk_end [OF walk] walk
  by (auto simp: resolvable_def)

lemma ns_dir_entry:
  assumes "represents F Is d G" and "G p = Some (b, Dir m)"
  shows "dir_entry d p n (m n)" "may_search d (caller user grp) p = may b PERM_EXEC user grp"
  using representsD(3,4) [OF assms] may_allowed perm_not_utime by (auto simp: dir_entry_def may_search_def)

lemma ns_seen:
  assumes s: "serves F Is d f G" and few: "few_refs 4 f" and see: "ns_see G user grp ns p n m"
  shows "resolvable F Is (dom G) d (caller user grp) ns p" "may_search d (caller user grp) p" "dir_entry d p n (m n)" "good_name n"
    "m n = Some t \<Longrightarrow> linked d (dom G) t"
proof -
  note sv = servesD [OF s]
  obtain b where p: "G p = Some (b, Dir m)" "may b PERM_EXEC user grp"
    using see by (auto simp: ns_see_def)
  show "resolvable F Is (dom G) d (caller user grp) ns p"
    using ns_resolvable [OF s few] see by (simp add: ns_see_def)
  show "may_search d (caller user grp) p" "dir_entry d p n (m n)"
    using ns_dir_entry [OF sv(1) p(1)] p(2) by simp_all
  show "good_name n"
    using see by (simp add: ns_see_def)
  show "linked d (dom G) t" if "m n = Some t"
    using ns_entry_linked [OF sv(1,2), of p m n t] p that by (simp add: dir_of_eq)
qed

lemma ns_at_linked:
  assumes s: "serves F Is d f G" and at: "ns_at G user grp ns p n m" and t: "m n = Some t"
  shows "linked d (dom G) t"
  using ns_entry_linked [OF servesD(1,2) [OF s], of p m n t] at t by (auto simp: ns_at_def dir_of_eq)

end
