(* ===== verification/Path_Move.thy ===== *)
theory Path_Move
  imports Path_Ops
begin

text \<open>
  \<open>rename_move\<close>: an entry moves to a name that is free.  A directory that moves gets its new parent
  as \<open>..\<close>.
\<close>

section \<open>Moving an entry\<close>

lemma reparent_step:
  fixes d :: "'x path_env_scheme"
  assumes inv: "refs_inv d F Is A" and t: "t \<in> A" "dir_rep d t ess" "dir_map ess [DOT] = Some t" and q: "q \<in> A"
  shows "\<exists>d' F' ess'. dir_reparent d t q = Some (0, d') \<and> stepped (A - {t}) d F' Is A (refs_of d) d' \<and>
    dir_rep d' t ess' \<and> dir_map ess' = (dir_map ess)([DOT, DOT] \<mapsto> q) \<and> same_attr (inode_at d t) (inode_at d' t)"
proof -
  have ok: "proper ess"
    using t(2) by (simp add: dir_rep_def dir_ok_def)
  obtain up self es where hd: "ess ! 0 = ([DOT, DOT], up) # ([DOT], self) # es" "hd ess = ess ! 0"
    using proper_hd [OF ok] .
  then obtain rest where ess: "ess = (([DOT, DOT], up) # ([DOT], self) # es) # rest"
    using ok by (cases ess) (simp_all add: proper_def)
  have self: "self = t"
    using t(3) by (simp add: ess)
  have "q \<noteq> EOF"
    using ino_nonneg [OF refs_inv_fs(1) [OF inv] q] by simp
  then obtain d' F' where d': "dir_reparent d t q = Some (0, d')" "fs_result A t d d' F' Is A"
      "dir_rep d' t ((([DOT, DOT], q) # ([DOT], t) # es) # rest)" "same_attr (inode_at d t) (inode_at d' t)"
    using dir_reparent_spec [OF refs_inv_fs(1) [OF inv] t(1) t(2) [unfolded ess self]] by blast
  moreover have "dir_map ((([DOT, DOT], q) # ([DOT], t) # es) # rest) = (dir_map ess)([DOT, DOT] \<mapsto> q)"
    by (simp add: ess self)
  ultimately show ?thesis
    using result_stepped [OF inv d'(2,4)] by blast
qed

text \<open>The inode after the move into directory \<open>q\<close>; \<open>est\<close> are its entries if it is a directory.\<close>

definition moved :: "'x disk_t_scheme \<Rightarrow> ino \<Rightarrow> dirent list list \<Rightarrow> ino \<Rightarrow> 'y disk_t_scheme \<Rightarrow> bool" where
  "moved d t est q d' \<longleftrightarrow> same_attr (inode_at d t) (inode_at d' t) \<and>
     (if S_ISDIR (imode (inode_at d t)) then \<exists>ess'. dir_rep d' t ess' \<and> dir_map ess' = (dir_map est)([DOT, DOT] \<mapsto> q)
      else content d' t = content d t)"

lemma moved_files:
  assumes "same_files B d d1" and "t \<in> B" and "moved d1 t est q d2" and "same_files A d2 d3" and "t \<in> A"
  shows "moved d t est q d3"
proof -
  have a: "same_attr (inode_at d t) (inode_at d1 t)" "content d1 t = content d t" "same_attr (inode_at d2 t) (inode_at d3 t)" "content d3 t = content d2 t"
    using assms(1,2,4,5) by (simp_all add: same_files_def)
  have "same_attr (inode_at d t) (inode_at d3 t)" "imode (inode_at d1 t) = imode (inode_at d t)"
    using a assms(3) by (auto simp: moved_def same_attr_def)
  then show ?thesis
    using assms(3) a same_files_dir [OF assms(4,5)] unfolding moved_def by (auto split: if_splits)
qed

text \<open>
  The entry \<open>n\<close> of directory \<open>p\<close>, whose names are \<open>mp\<close>, is the entry \<open>l\<close> of directory \<open>q\<close> now,
  whose names were \<open>mq\<close>.
\<close>

definition entry_moved :: "'x disk_t_scheme \<Rightarrow> ino \<Rightarrow> byte list \<Rightarrow> (byte list \<Rightarrow> ino option) \<Rightarrow> ino \<Rightarrow> byte list \<Rightarrow>
    (byte list \<Rightarrow> ino option) \<Rightarrow> ino \<Rightarrow> dirent list list \<Rightarrow> 'y disk_t_scheme \<Rightarrow> bool" where
  "entry_moved d p n mp q l mq t est d' \<longleftrightarrow>
     (\<exists>ess'. dir_rep d' p ess' \<and> dir_map ess' = (if q = p then mq(l \<mapsto> t) else mp)(n := None)) \<and>
     (q \<noteq> p \<longrightarrow> (\<exists>ess'. dir_rep d' q ess' \<and> dir_map ess' = mq(l \<mapsto> t))) \<and>
     same_attr (inode_at d p) (inode_at d' p) \<and> same_attr (inode_at d q) (inode_at d' q) \<and> moved d t est q d'"

lemma entry_moved_files:
  assumes "same_files B d d1" and "{p, q, t} \<subseteq> B" and "entry_moved d1 p n mp q l mq t est d2" and "same_files A d2 d3" and "{p, q, t} \<subseteq> A"
  shows "entry_moved d p n mp q l mq t est d3"
proof -
  have A: "p \<in> B" "q \<in> B" "t \<in> B" "p \<in> A" "q \<in> A" "t \<in> A"
    using assms(2,5) by auto
  have mv: "\<exists>ess'. dir_rep d2 p ess' \<and> dir_map ess' = (if q = p then mq(l \<mapsto> t) else mp)(n := None)"
    "q \<noteq> p \<longrightarrow> (\<exists>ess'. dir_rep d2 q ess' \<and> dir_map ess' = mq(l \<mapsto> t))"
    "same_attr (inode_at d1 p) (inode_at d2 p)" "same_attr (inode_at d1 q) (inode_at d2 q)" "moved d1 t est q d2"
    using assms(3) unfolding entry_moved_def by blast+
  show ?thesis
    unfolding entry_moved_def
  proof (intro conjI)
    show "\<exists>ess'. dir_rep d3 p ess' \<and> dir_map ess' = (if q = p then mq(l \<mapsto> t) else mp)(n := None)"
      "q \<noteq> p \<longrightarrow> (\<exists>ess'. dir_rep d3 q ess' \<and> dir_map ess' = mq(l \<mapsto> t))"
      using mv(1,2) same_files_dir [OF assms(4) A(4)] same_files_dir [OF assms(4) A(5)] by blast+
    show "same_attr (inode_at d p) (inode_at d3 p)" "same_attr (inode_at d q) (inode_at d3 q)"
      using attr_chain [OF assms(1) A(1) mv(3) assms(4) A(4)] attr_chain [OF assms(1) A(2) mv(4) assms(4) A(5)] by simp_all
    show "moved d t est q d3"
      by (rule moved_files [OF assms(1) A(3) mv(5) assms(4) A(6)])
  qed
qed

text \<open>Insert, remove, and correct the parent.\<close>

lemma move_entry:
  fixes d :: "'x path_env_scheme"
  assumes inv: "refs_inv d F Is A" and p: "p \<in> A" "dir_rep d p ess" and n: "dir_map ess n = Some t" "length n \<le> NAME_MAX" "n \<noteq> [DOT]" "n \<noteq> [DOT, DOT]"
    and q: "q \<in> A" "dir_rep d q esq" "q = p \<longrightarrow> esq = ess" and l: "dir_map esq l = None" "good_name l" "0 \<notin> set l"
    and t: "t \<in> A" "t \<noteq> p" "t \<noteq> q" and dir: "S_ISDIR (imode (inode_at d t)) \<longrightarrow> dir_rep d t est \<and> dir_map est [DOT] = Some t"
    and room: "enough d F q (fsize d q + BLOCKSIZE)" "fsize d q + BLOCKSIZE \<le> MAX_FILESIZE"
  shows "\<exists>d1 d2 d3 F'. dir_insert d q l t = Some (0, d1) \<and> dir_remove d1 p n = Some (t, d2) \<and>
    (if S_ISDIR (imode (inode_at d t)) then dir_reparent d2 t q = Some (0, d3) else d3 = d2) \<and>
    stepped (A - {p, q, t}) d F' Is A (refs_of d) d3 \<and> entry_moved d p n (dir_map ess) q l (dir_map esq) t est d3"
proof -
  let ?dir = "S_ISDIR (imode (inode_at d t))"
  obtain d1 F1 esq' where d1: "dir_insert d q l t = Some (0, d1)" "stepped (A - {q}) d F1 Is A (refs_of d) d1"
      "dir_rep d1 q esq'" "dir_map esq' = (dir_map esq)(l \<mapsto> t)" "same_attr (inode_at d q) (inode_at d1 q)"
    using insert_step [OF inv q(1,2) l t(1) room] by blast
  have s1: "refs_inv d1 F1 Is A" "refs_of d1 = refs_of d" "same_files (A - {q}) d d1"
    using d1(2) by (simp_all add: stepped_def)
  obtain esp where esp: "dir_rep d1 p esp" "dir_map esp = (if q = p then (dir_map esq)(l \<mapsto> t) else dir_map ess)" "same_attr (inode_at d p) (inode_at d1 p)"
  proof (cases "q = p")
    case False
    have "same_attr (inode_at d p) (inode_at d1 p)" "dir_rep d1 p ess"
      using s1(3) same_files_dir [OF s1(3) _ p(2)] p(1) False by (simp_all add: same_files_def)
    then show thesis
      using that False by simp
  qed (use d1(3-5) that in simp)
  have "n \<noteq> l \<or> q \<noteq> p"
    using n(1) l(1) q(3) by auto
  then have entry: "dir_map esp n = Some t"
    using esp(2) n(1) q(3) by auto
  obtain d2 F2 esp' where d2: "dir_remove d1 p n = Some (t, d2)" "stepped (A - {p}) d1 F2 Is A (refs_of d) d2"
      "dir_rep d2 p esp'" "dir_map esp' = (dir_map esp)(n := None)" "same_attr (inode_at d1 p) (inode_at d2 p)"
    using remove_step [OF s1(1) p(1) esp(1) entry n(2-4)] s1(2) by metis
  have s2: "refs_inv d2 F2 Is A" "refs_of d2 = refs_of d" "same_files (A - {p}) d1 d2"
    using d2(2) by (simp_all add: stepped_def)
  have s02: "stepped (A - {p, q}) d F2 Is A (refs_of d) d2"
    by (rule stepped_trans [OF stepped_mono [OF d1(2)] stepped_mono [OF d2(2)]]) auto
  have t2: "same_attr (inode_at d t) (inode_at d2 t)" "content d2 t = content d t"
    using s02 t by (simp_all add: stepped_def same_files_def)
  obtain d3 F3 where d3: "if ?dir then dir_reparent d2 t q = Some (0, d3) else d3 = d2" "stepped (A - {t}) d2 F3 Is A (refs_of d) d3" "moved d t est q d3"
  proof (cases ?dir)
    case True
    have "dir_rep d2 t est"
      using dir True t2 by (simp add: dir_rep_def same_attr_def)
    then show thesis
      using reparent_step [OF s2(1) t(1) _ _ q(1), of est] dir True s2(2) that same_attr_trans [OF t2(1)] by (auto simp: moved_def)
  next
    case False
    then show thesis
      using that [of d2 F2] s2 t2 by (simp add: moved_def stepped_def)
  qed
  have files: "same_files (A - {t}) d2 d3"
    using d3(2) by (simp add: stepped_def)
  have step: "stepped (A - {p, q, t}) d F3 Is A (refs_of d) d3"
    by (rule stepped_trans [OF stepped_mono [OF s02] stepped_mono [OF d3(2)]]) auto
  have pt: "p \<in> A - {t}"
    using p(1) t by auto
  then have p3: "dir_rep d3 p esp'" "same_attr (inode_at d p) (inode_at d3 p)"
    using same_files_dir [OF files _ d2(3)] files same_attr_trans [OF esp(3) same_attr_trans [OF d2(5)]] by (simp_all add: same_files_def)
  have q3: "dir_rep d3 q esq'" "same_attr (inode_at d q) (inode_at d3 q)" if "q \<noteq> p"
  proof -
    have all: "same_files (A - {p, t}) d1 d3"
      by (rule same_files_trans [OF same_files_mono [OF s2(3)] same_files_mono [OF files]]) auto
    have mem: "q \<in> A - {p, t}"
      using that q(1) t(3) by auto
    then show "dir_rep d3 q esq'" "same_attr (inode_at d q) (inode_at d3 q)"
      using same_files_dir [OF all mem d1(3)] same_attr_trans [OF d1(5)] all mem by (simp_all add: same_files_def)
  qed
  have "same_attr (inode_at d q) (inode_at d3 q)"
    using p3(2) q3(2) by (cases "q = p") simp_all
  moreover have "dir_map esp' = (if q = p then (dir_map esq)(l \<mapsto> t) else dir_map ess)(n := None)"
    using d2(4) esp(2) by simp
  moreover have "q \<noteq> p \<longrightarrow> (\<exists>esq'. dir_rep d3 q esq' \<and> dir_map esq' = (dir_map esq)(l \<mapsto> t))"
    using q3(1) d1(4) by blast
  ultimately have "entry_moved d p n (dir_map ess) q l (dir_map esq) t est d3"
    using d3(3) p3 unfolding entry_moved_def by blast
  then show ?thesis
    using d1(1) d2(1) d3(1) step by blast
qed

lemma rename_move_spec:
  fixes d :: "'x path_env_scheme"
  assumes inv: "refs_inv d F Is A" and refs: "refs_of d = inc f t"
    and p: "p \<in> A" "dir_rep d p ess" and n: "dir_map ess n = Some t" "length n \<le> NAME_MAX" "n \<noteq> [DOT]" "n \<noteq> [DOT, DOT]"
    and q: "q \<in> A" "dir_rep d q esq" "q = p \<longrightarrow> esq = ess" and l: "dir_map esq l = None" "good_name l" "0 \<notin> set l"
    and t: "linked d A t" "t \<noteq> p" "t \<noteq> q" and dir: "S_ISDIR (imode (inode_at d t)) \<longrightarrow> dir_rep d t est \<and> dir_map est [DOT] = Some t"
    and room: "enough d F q (fsize d q + BLOCKSIZE)" "fsize d q + BLOCKSIZE \<le> MAX_FILESIZE"
    and node: "parent_dir src = p" "path_name src = n" "parent_dir dst = q" "path_name dst = l"
  shows "\<exists>d' F'. rename_move d dst src t (S_ISDIR (imode (inode_at d t))) = Some (0, d') \<and>
    stepped (A - {p, q, t}) d F' Is A f d' \<and> entry_moved d p n (dir_map ess) q l (dir_map esq) t est d'"
proof -
  let ?dir = "S_ISDIR (imode (inode_at d t))"
  have tA: "t \<in> A"
    using t(1) by (simp add: linked_def)
  from move_entry [OF inv p n q l tA t(2,3) dir room]
  obtain d1 d2 d3 F' where d3: "dir_insert d q l t = Some (0, d1)" "dir_remove d1 p n = Some (t, d2)"
      "if ?dir then dir_reparent d2 t q = Some (0, d3) else d3 = d2" "stepped (A - {p, q, t}) d F' Is A (inc f t) d3"
      "entry_moved d p n (dir_map ess) q l (dir_map esq) t est d3"
    unfolding refs by blast
  have s3: "refs_inv d3 F' Is A" "refs_of d3 = inc f t"
    using d3(4) by (simp_all add: stepped_def)
  have "same_attr (inode_at d t) (inode_at d3 t)"
    using d3(5) by (simp add: entry_moved_def moved_def)
  then have "linked d3 A t"
    using linked_same [OF _ t(1) tA] by blast
  then obtain d4 where d4: "close_ok d3 t = Some d4" "quiet F' Is A d3 f d4"
    using close_ok_spec [OF s3(1) _ s3(2)] by blast
  have "rename_move d dst src t ?dir = Some (0, d4)"
    using d3(1-3) d4(1) node by (cases ?dir) (simp_all add: rename_move_def)
  moreover have "stepped (A - {p, q, t}) d F' Is A f d4"
    by (rule stepped_trans [OF d3(4) quiet_stepped [OF d4(2)]]) auto
  moreover have "{p, q, t} \<subseteq> A"
    using p(1) q(1) tA by simp
  then have "entry_moved d p n (dir_map ess) q l (dir_map esq) t est d4"
    using entry_moved_files [OF same_files_refl _ d3(5) quiet_files [OF d4(2)]] by blast
  ultimately show ?thesis
    by blast
qed

end
