(* ===== verification/Path_Rename.thy ===== *)
theory Path_Rename
  imports Path_Move
begin

text \<open>
  \<open>path_rename\<close>: an entry moves to another name, whose old inode is removed first, as \<open>path_unlink\<close>
  and \<open>path_rmdir\<close> do it, or refused.
\<close>

section \<open>The name that is replaced\<close>

text \<open>
  The entry \<open>l\<close> of directory \<open>q\<close>, the inode \<open>c\<close>, is gone as \<open>path_unlink\<close> and \<open>path_rmdir\<close> leave
  it: without other links and references the inode is free.
\<close>

definition cut_off :: "'x path_env_scheme \<Rightarrow> blockno set \<Rightarrow> ino set \<Rightarrow> ino \<Rightarrow> byte list \<Rightarrow> (byte list \<Rightarrow> ino option) \<Rightarrow> ino \<Rightarrow> (ino \<Rightarrow> nat) \<Rightarrow>
    'x path_env_scheme \<Rightarrow> blockno set \<Rightarrow> ino list \<Rightarrow> ino set \<Rightarrow> bool" where
  "cut_off d F A q l mq c f d' F' Is' A' \<longleftrightarrow>
     A' = (if inlinks (inode_at d c) = 1 \<and> f c = 0 then A - {c} else A) \<and> stepped (A - {q, c}) d F' Is' A' f d' \<and>
     (\<exists>ess'. dir_rep d' q ess' \<and> dir_map ess' = mq(l := None)) \<and> same_attr (inode_at d q) (inode_at d' q) \<and>
     (c \<in> A' \<longrightarrow> relinked (inode_at d c) (inlinks (inode_at d c) - 1) (inode_at d' c) \<and>
        (if S_ISDIR (imode (inode_at d c)) then dead_dir d' c else content d' c = content d c)) \<and> roomier d F q d' F'"

lemma rename_target_unlink:
  assumes "path_node d h = Some node" and "path_unlink d h user grp = Some (0, d')"
  shows "rename_target d h node i False = Some (Inr (), d')"
  using assms
  by (auto simp: path_unlink_def rename_target_def bind_eq_Some_conv split: if_splits prod.splits)

lemma rename_target_rmdir:
  assumes "path_node d h = Some node" and "path_rmdir d h user grp = Some (0, d')"
    and "path_get d h = Some (c, d1)" and "getinfo_ok d1 c = Some info" and "S_ISDIR (imode info)"
  shows "rename_target d h node i True = Some (Inr (), d')"
  using assms
  by (auto simp: path_rmdir_def rename_target_def bind_eq_Some_conv split: if_splits prod.splits)

theorem rename_target_spec:
  fixes d :: "'x path_env_scheme"
  assumes inv: "refs_inv d F Is A" and at: "at_entry d A h q l ess" "path_node d h = Some node" and entry: "dir_map ess l = Some c" "l \<noteq> [DOT]" "l \<noteq> [DOT, DOT]"
    and c: "c \<in> A" "c \<noteq> q" "S_ISDIR (imode (inode_at d c)) \<longrightarrow> (\<exists>es. dir_rep d c [es] \<and> length es \<le> 2)"
    and permit: "may_write d user grp q" and few: "few_refs 1 (refs_of d)"
  shows "\<exists>d' F' Is' A'. rename_target d h node i (S_ISDIR (imode (inode_at d c))) = Some (Inr (), d') \<and>
    cut_off d F A q l (dir_map ess) c (refs_of d) d' F' Is' A'"
proof (cases "S_ISDIR (imode (inode_at d c))")
  case False
  from path_unlink_spec [OF inv at(1) entry c(1) False permit few]
  obtain d' F' Is' A' ess' where d': "path_unlink d h user grp = Some (0, d')"
      "A' = (if inlinks (inode_at d c) = 1 \<and> refs_of d c = 0 then A - {c} else A)" "stepped (A - {q, c}) d F' Is' A' (refs_of d) d'"
      "dir_rep d' q ess'" "dir_map ess' = (dir_map ess)(l := None)"
      "c \<in> A' \<longrightarrow> relinked (inode_at d c) (inlinks (inode_at d c) - 1) (inode_at d' c) \<and> content d' c = content d c"
      "same_attr (inode_at d q) (inode_at d' q)" "roomier d F q d' F'"
    by blast
  then have "cut_off d F A q l (dir_map ess) c (refs_of d) d' F' Is' A'"
    using False unfolding cut_off_def by auto
  then show ?thesis
    using rename_target_unlink [OF at(2) d'(1)] False by auto
next
  case True
  then obtain es where es: "dir_rep d c [es]" "length es \<le> 2"
    using c(3) by blast
  from path_rmdir_spec [OF inv at(1) entry c(1,2) es permit few]
  obtain d' F' Is' A' ess' where d': "path_rmdir d h user grp = Some (0, d')"
      "A' = (if inlinks (inode_at d c) = 1 \<and> refs_of d c = 0 then A - {c} else A)" "stepped (A - {q, c}) d F' Is' A' (refs_of d) d'"
      "dir_rep d' q ess'" "dir_map ess' = (dir_map ess)(l := None)" "same_attr (inode_at d q) (inode_at d' q)"
      "c \<in> A' \<longrightarrow> relinked (inode_at d c) (inlinks (inode_at d c) - 1) (inode_at d' c) \<and> dead_dir d' c" "roomier d F q d' F'"
    by blast
  obtain d1 where d1: "path_get d h = Some (c, d1)" "stepped A d F Is A (inc (refs_of d) c) d1"
    using path_get_entry [OF inv at(1) entry(1) c(1) few] by blast
  then have inv1: "refs_inv d1 F Is A" "S_ISDIR (imode (inode_at d1 c))"
    using c(1) True by (simp_all add: stepped_def same_files_def same_attr_def)
  have "\<exists>info. getinfo_ok d1 c = Some info \<and> S_ISDIR (imode info)"
    using inode_getinfo_spec [OF refs_inv_fs(1) [OF inv1(1)] c(1)] inv1(2) by (simp add: getinfo_ok_def inode_info.truncate_def)
  then have "rename_target d h node i True = Some (Inr (), d')"
    using rename_target_rmdir [OF at(2) d'(1) d1(1)] by blast
  moreover have "cut_off d F A q l (dir_map ess) c (refs_of d) d' F' Is' A'"
    using d' True unfolding cut_off_def by auto
  ultimately show ?thesis
    using True by auto
qed

section \<open>The operation\<close>

lemma at_entry_stepped:
  assumes "stepped B d F Is A f d'" and "p \<in> B" and "at_entry d A h p n ess"
  shows "at_entry d' A h p n ess"
  using assms stepped_dir [OF assms(1,2)] by (auto simp: at_entry_def stepped_def path_node_def)

text \<open>Up to the removal of the old entry.\<close>

lemma path_rename_start:
  fixes d :: "'x path_env_scheme"
  assumes inv: "refs_inv d F Is A" and src: "at_entry d A hs p n ess" "dir_map ess n = Some t" and dst: "at_entry d A hq q l esq" and t: "t \<in> A"
    and permit: "may_write d user grp p" "may_write d user grp q" and few: "few_refs 1 (refs_of d)"
  obtains d1 sn dn where "stepped A d F Is A (inc (refs_of d) t) d1"
    "path_node d1 hq = Some dn" "parent_dir sn = p" "path_name sn = n" "parent_dir dn = q" "path_name dn = l"
    "\<And>d2. rename_target d1 hq dn t (S_ISDIR (imode (inode_at d t))) = Some (Inr (), d2) \<Longrightarrow>
       path_rename d hq hs user grp = rename_move d2 dn sn t (S_ISDIR (imode (inode_at d t)))"
    "\<And>e d2. rename_target d1 hq dn t (S_ISDIR (imode (inode_at d t))) = Some (Inl e, d2) \<Longrightarrow>
       path_rename d hq hs user grp = Some (e, d2)"
proof -
  obtain sn dn where node: "path_node d hs = Some sn" "parent_dir sn = p" "path_name sn = n"
      "path_node d hq = Some dn" "parent_dir dn = q" "path_name dn = l"
    using at_entry_parts [OF src(1)] at_entry_parts [OF dst] by metis
  have A: "p \<in> A" "q \<in> A"
    using src(1) dst by (auto simp: at_entry_def)
  obtain d1 where d1: "path_get d hs = Some (t, d1)" "stepped A d F Is A (inc (refs_of d) t) d1" "\<not> sint t < 0"
    using path_get_entry [OF inv src(1,2) t few] by blast
  have s1: "refs_inv d1 F Is A" "same_files A d d1" "path_node d1 = path_node d"
    using d1(2) by (auto simp: stepped_def path_node_def fun_eq_iff)
  have perm: "perm_check d1 q PERM_WRITE user grp = Some 0" "perm_check d1 p PERM_WRITE user grp = Some 0"
    using perm_check_write [OF s1(1)] A permit stepped_write [OF d1(2)] by simp_all
  have mode: "imode (inode_at d1 t) = imode (inode_at d t)"
    using s1(2) t by (simp add: same_files_def same_attr_def)
  have eq: "path_rename d hq hs user grp = Option.bind (rename_target d1 hq dn t (S_ISDIR (imode (inode_at d t))))
      (\<lambda>(r, d2). case r of Inl e \<Rightarrow> Some (e, d2) | Inr _ \<Rightarrow> rename_move d2 dn sn t (S_ISDIR (imode (inode_at d t))))"
    using node(1,2,4,5) d1(1,3) perm inode_getinfo_spec [OF refs_inv_fs(1) [OF s1(1)] t] mode
    by (simp add: path_rename_def getinfo_ok_def Let_def inode_info.truncate_def cong: sum.case_cong)
  show thesis
    by (rule that [OF d1(2), of dn sn]) (use node s1(3) in \<open>simp_all add: eq\<close>)
qed

theorem path_rename_spec:
  fixes d :: "'x path_env_scheme"
  assumes inv: "refs_inv d F Is A" and src: "at_entry d A hs p n ess" "dir_map ess n = Some t" "n \<noteq> [DOT]" "n \<noteq> [DOT, DOT]"
    and dst: "at_entry d A hq q l esq" "dir_map esq l = None" "q = p \<longrightarrow> esq = ess" and t: "linked d A t" "t \<noteq> p" "t \<noteq> q"
    and dir: "S_ISDIR (imode (inode_at d t)) \<longrightarrow> dir_rep d t est \<and> dir_map est [DOT] = Some t"
    and permit: "may_write d user grp p" "may_write d user grp q" and few: "few_refs 1 (refs_of d)"
    and room: "enough d F q (fsize d q + BLOCKSIZE)" "fsize d q + BLOCKSIZE \<le> MAX_FILESIZE"
  shows "\<exists>d' F'. path_rename d hq hs user grp = Some (0, d') \<and> stepped (A - {p, q, t}) d F' Is A (refs_of d) d' \<and>
    entry_moved d p n (dir_map ess) q l (dir_map esq) t est d'"
proof -
  have p: "p \<in> A" "dir_rep d p ess" "length n \<le> NAME_MAX" and q: "q \<in> A" "dir_rep d q esq" "good_name l" "0 \<notin> set l" "length l \<le> NAME_MAX"
    using src(1) dst(1) by (auto simp: at_entry_def good_name_def)
  have tA: "t \<in> A"
    using t(1) by (simp add: linked_def)
  obtain d1 sn dn where d1: "stepped A d F Is A (inc (refs_of d) t) d1"
    "path_node d1 hq = Some dn" "parent_dir sn = p" "path_name sn = n" "parent_dir dn = q" "path_name dn = l"
    "\<And>d2. rename_target d1 hq dn t (S_ISDIR (imode (inode_at d t))) = Some (Inr (), d2) \<Longrightarrow>
       path_rename d hq hs user grp = rename_move d2 dn sn t (S_ISDIR (imode (inode_at d t)))"
    using path_rename_start [OF inv src(1,2) dst(1) tA permit few] by blast
  have s1: "refs_inv d1 F Is A" "refs_of d1 = inc (refs_of d) t"
    using d1(1) by (simp_all add: stepped_def)
  obtain d2 where d2: "path_get d1 hq = Some (of_int (- ENOENT), d2)" "quiet F Is A d1 (refs_of d1) d2"
    using path_get_spec(2) [OF s1(1), of hq dn None] d1(2,5,6) q stepped_dir [OF d1(1) q(1,2)] dst(2) by (auto simp: dir_entry_def)
  have target: "rename_target d1 hq dn t isdir = Some (Inr (), d2)" for isdir
    using d2(1) by (simp add: rename_target_def)
  have s2: "refs_inv d2 F Is A" "refs_of d2 = inc (refs_of d) t" "stepped A d F Is A (inc (refs_of d) t) d2"
    using d2(2) s1(2) stepped_trans [OF d1(1) quiet_stepped [OF d2(2)]] by (simp_all add: quiet_def)
  have files2: "same_files A d d2"
    using s2(3) by (simp add: stepped_def)
  then have mode: "imode (inode_at d2 t) = imode (inode_at d t)"
    using tA by (simp add: same_files_def same_attr_def)
  then have dir2: "S_ISDIR (imode (inode_at d2 t)) \<longrightarrow> dir_rep d2 t est \<and> dir_map est [DOT] = Some t"
    using dir same_files_dir [OF files2 tA] by simp
  have "roomier d F q d2 F"
    using stepped_grown [OF s2(3) inv] q(1) by simp
  note room2 = roomier_enough [OF this room fs_inv_inode(7) [OF refs_inv_fs(1) [OF s2(1)] q(1)]]
  from rename_move_spec [OF s2(1,2) p(1) same_files_dir [OF files2 p(1,2)] src(2) p(3) src(3,4) q(1) same_files_dir [OF files2 q(1,2)]
      dst(3,2) q(3,4) linked_files [OF files2 subset_refl t(1)] t(2,3) dir2 room2(1,2) d1(3-6)]
  obtain d' F' where d': "rename_move d2 dn sn t (S_ISDIR (imode (inode_at d t))) = Some (0, d')" "stepped (A - {p, q, t}) d2 F' Is A (refs_of d) d'"
      "entry_moved d2 p n (dir_map ess) q l (dir_map esq) t est d'"
    unfolding mode by blast
  have "stepped (A - {p, q, t}) d F' Is A (refs_of d) d'"
    by (rule stepped_trans [OF stepped_mono [OF s2(3)] d'(2)]) auto
  moreover have "entry_moved d p n (dir_map ess) q l (dir_map esq) t est d'"
    using entry_moved_files [OF files2 _ d'(3) same_files_refl] p(1) q(1) tA by blast
  ultimately show ?thesis
    using d1(7) [OF target] d'(1) by auto
qed

lemma cut_off_before:
  fixes d :: "'x path_env_scheme"
  assumes "stepped A d F Is A g d1" and "refs_inv d F Is A" and "q \<in> A" and "c \<in> A" and "cut_off d1 F A q l mq c f d2 F2 Is2 A2"
  shows "cut_off d F A q l mq c f d2 F2 Is2 A2"
proof -
  have at: "same_attr (inode_at d c) (inode_at d1 c)" "content d1 c = content d c" "same_attr (inode_at d q) (inode_at d1 q)"
    using assms(1,3,4) by (simp_all add: stepped_def same_files_def)
  have "stepped (A - {q, c}) d F2 Is2 A2 f d2" "roomier d F q d2 F2"
    using assms(5) stepped_trans [OF stepped_mono [OF assms(1)], of "A - {q, c}"] roomier_trans [OF stepped_grown [OF assms(1,2)]] assms(3)
    by (auto simp: cut_off_def)
  moreover have "inlinks (inode_at d1 c) = inlinks (inode_at d c)" "imode (inode_at d1 c) = imode (inode_at d c)"
    using at(1) by (simp_all add: same_attr_def)
  ultimately show ?thesis
    using assms(5) at relinked_before [OF at(1)] same_attr_trans [OF at(3)] unfolding cut_off_def by auto
qed

text \<open>The new name is taken, by an inode of the same kind, which is removed first.\<close>

theorem path_rename_replaces:
  fixes d :: "'x path_env_scheme"
  assumes inv: "refs_inv d F Is A" and src: "at_entry d A hs p n ess" "dir_map ess n = Some t" "n \<noteq> [DOT]" "n \<noteq> [DOT, DOT]"
    and dst: "at_entry d A hq q l esq" "dir_map esq l = Some c" "l \<noteq> [DOT]" "l \<noteq> [DOT, DOT]" "q = p \<longrightarrow> esq = ess"
    and t: "linked d A t" "t \<noteq> p" "t \<noteq> q" and c: "c \<in> A" "c \<noteq> p" "c \<noteq> q"
    and other: "(p, n) \<noteq> (q, l)" "c = t \<longrightarrow> \<not> S_ISDIR (imode (inode_at d t)) \<and> inlinks (inode_at d t) \<noteq> 1"
    and dir: "S_ISDIR (imode (inode_at d t)) \<longrightarrow> dir_rep d t est \<and> dir_map est [DOT] = Some t"
    and kind: "S_ISDIR (imode (inode_at d c)) = S_ISDIR (imode (inode_at d t))" "S_ISDIR (imode (inode_at d c)) \<longrightarrow> (\<exists>es. dir_rep d c [es] \<and> length es \<le> 2)"
    and permit: "may_write d user grp p" "may_write d user grp q" and few: "few_refs 2 (refs_of d)"
    and room: "enough d F q (fsize d q + BLOCKSIZE)" "fsize d q + BLOCKSIZE \<le> MAX_FILESIZE"
  shows "\<exists>d1 F1 Is1 A1 d' F'. path_rename d hq hs user grp = Some (0, d') \<and> cut_off d F A q l (dir_map esq) c (inc (refs_of d) t) d1 F1 Is1 A1 \<and>
    stepped (A1 - {p, q, t}) d1 F' Is1 A1 (refs_of d) d' \<and> entry_moved d1 p n (dir_map ess) q l ((dir_map esq)(l := None)) t est d'"
proof -
  let ?dir = "S_ISDIR (imode (inode_at d t))"
  have p: "p \<in> A" "dir_rep d p ess" "length n \<le> NAME_MAX" and q: "q \<in> A" "dir_rep d q esq" "good_name l" "0 \<notin> set l" "length l \<le> NAME_MAX"
    using src(1) dst(1) by (auto simp: at_entry_def good_name_def)
  have tA: "t \<in> A"
    using t(1) by (simp add: linked_def)
  have few1: "few_refs 1 (refs_of d)" "few_refs 1 (inc (refs_of d) t)"
    using few few_refs_mono [OF few] few_refs_inc [of 1 "refs_of d"] by (simp_all add: numeral_eq_Suc)
  obtain d1 sn dn where d1: "stepped A d F Is A (inc (refs_of d) t) d1"
    "path_node d1 hq = Some dn" "parent_dir sn = p" "path_name sn = n" "parent_dir dn = q" "path_name dn = l"
    "\<And>d2. rename_target d1 hq dn t ?dir = Some (Inr (), d2) \<Longrightarrow> path_rename d hq hs user grp = rename_move d2 dn sn t ?dir"
    using path_rename_start [OF inv src(1,2) dst(1) tA permit few1(1)] by blast
  have s1: "refs_inv d1 F Is A" "refs_of d1 = inc (refs_of d) t" "same_files A d d1"
    using d1(1) by (simp_all add: stepped_def)
  have c1: "same_attr (inode_at d c) (inode_at d1 c)" "content d1 c = content d c"
    using s1(3) c(1) by (simp_all add: same_files_def)
  then have modec: "S_ISDIR (imode (inode_at d1 c)) = ?dir" "imode (inode_at d1 c) = imode (inode_at d c)"
    using kind(1) by (simp_all add: same_attr_def)
  have empty: "S_ISDIR (imode (inode_at d1 c)) \<longrightarrow> (\<exists>es. dir_rep d1 c [es] \<and> length es \<le> 2)"
    using kind(2) modec(2) stepped_dir [OF d1(1) c(1)] by auto
  have "may_write d1 user grp q"
    using stepped_write [OF d1(1) q(1)] permit(2) by simp
  from rename_target_spec [OF s1(1) at_entry_stepped [OF d1(1) q(1) dst(1)] d1(2) dst(2-4) c(1,3) empty this]
  obtain d2 F2 Is2 A2 where d2: "rename_target d1 hq dn t ?dir = Some (Inr (), d2)"
      "cut_off d1 F A q l (dir_map esq) c (inc (refs_of d) t) d2 F2 Is2 A2"
    using few1(2) s1(2) modec(1) by fastforce
  obtain esq' where cut: "A2 = (if inlinks (inode_at d1 c) = 1 \<and> inc (refs_of d) t c = 0 then A - {c} else A)"
      "stepped (A - {q, c}) d1 F2 Is2 A2 (inc (refs_of d) t) d2" "dir_rep d2 q esq'" "dir_map esq' = (dir_map esq)(l := None)"
      "same_attr (inode_at d1 q) (inode_at d2 q)" "roomier d1 F q d2 F2"
      "c \<in> A2 \<longrightarrow> relinked (inode_at d1 c) (inlinks (inode_at d1 c) - 1) (inode_at d2 c)"
    using d2(2) unfolding cut_off_def by blast
  have A2: "{p, q, t} \<subseteq> A2" "A2 \<subseteq> A"
    using p(1) q(1) tA c cut(1) by (auto simp: inc_def)
  have s2: "refs_inv d2 F2 Is2 A2" "refs_of d2 = inc (refs_of d) t"
    using cut(2) by (simp_all add: stepped_def)
  have s02: "stepped (A - {q, c}) d F2 Is2 A2 (inc (refs_of d) t) d2"
    by (rule stepped_trans [OF stepped_mono [OF d1(1)] cut(2)]) auto
  have at: "linked d2 A2 t" "imode (inode_at d2 t) = imode (inode_at d t)" "?dir \<longrightarrow> dir_rep d2 t est"
  proof -
    have "linked d2 A2 t \<and> imode (inode_at d2 t) = imode (inode_at d t) \<and> (?dir \<longrightarrow> dir_rep d2 t est)"
    proof (cases "c = t")
      case True
      then have "relinked (inode_at d1 t) (inlinks (inode_at d1 t) - 1) (inode_at d2 t)" "inlinks (inode_at d1 t) = inlinks (inode_at d t)"
        using cut(7) A2(1) c1(1) by (simp_all add: same_attr_def)
      then show ?thesis
        using A2(1) other(2) True modec(2) by (simp add: relinked_def same_attr_def linked_def)
    next
      case False
      then have t2: "t \<in> A - {q, c}"
        using tA t by auto
      then have "same_attr (inode_at d t) (inode_at d2 t)"
        using s02 by (simp add: stepped_def same_files_def)
      then show ?thesis
        using linked_same [of d t d2 A A2] t(1) A2(1) dir stepped_dir [OF s02 t2] by (auto simp: same_attr_def)
    qed
    then show "linked d2 A2 t" "imode (inode_at d2 t) = imode (inode_at d t)" "?dir \<longrightarrow> dir_rep d2 t est"
      by simp_all
  qed
  have dir2: "S_ISDIR (imode (inode_at d2 t)) \<longrightarrow> dir_rep d2 t est \<and> dir_map est [DOT] = Some t"
    using dir at(2,3) by simp
  obtain esp where esp: "dir_rep d2 p esp" "dir_map esp n = Some t" "q = p \<longrightarrow> esq' = esp" "q \<noteq> p \<longrightarrow> esp = ess"
  proof (cases "q = p")
    case True
    have "n \<noteq> l"
      using other(1) True by auto
    then show thesis
      using that [of esq'] cut(3,4) src(2) dst(5) True by simp
  next
    case False
    then show thesis
      using that [of ess] stepped_dir [OF s02 _ p(2)] p(1) c(2) src(2) by simp
  qed
  have qA: "q \<in> A2"
    using A2(1) by simp
  have "roomier d F q d2 F2"
    using roomier_trans [OF stepped_grown [OF d1(1) inv] cut(6)] q(1) by simp
  note room2 = roomier_enough [OF this room fs_inv_inode(7) [OF refs_inv_fs(1) [OF s2(1)] qA]]
  have "p \<in> A2" "dir_map esq' l = None"
    using A2(1) cut(4) by simp_all
  from rename_move_spec [OF s2 this(1) esp(1,2) p(3) src(3,4) qA cut(3) esp(3) this(2) q(3,4) at(1) t(2,3) dir2 room2 d1(3-6)]
  obtain d' F' where d': "rename_move d2 dn sn t ?dir = Some (0, d')" "stepped (A2 - {p, q, t}) d2 F' Is2 A2 (refs_of d) d'"
      "entry_moved d2 p n (dir_map esp) q l (dir_map esq') t est d'"
    using A2(1) unfolding at(2) by auto
  have "entry_moved d2 p n (dir_map ess) q l ((dir_map esq)(l := None)) t est d'"
    using d'(3) esp(4) unfolding entry_moved_def cut(4) by (cases "q = p") simp_all
  moreover have "cut_off d F A q l (dir_map esq) c (inc (refs_of d) t) d2 F2 Is2 A2"
    by (rule cut_off_before [OF d1(1) inv q(1) c(1) d2(2)])
  ultimately show ?thesis
    using d1(7) [OF d2(1)] d'(1,2) by metis
qed

text \<open>A target of another kind, and a directory that has entries, are refused.\<close>

definition rename_error :: "'x disk_t_scheme \<Rightarrow> ino \<Rightarrow> ino \<Rightarrow> int \<Rightarrow> bool" where
  "rename_error d t c e \<longleftrightarrow>
     (if \<not> S_ISDIR (imode (inode_at d c)) then S_ISDIR (imode (inode_at d t)) \<and> e = - ENOTDIR
      else if \<not> S_ISDIR (imode (inode_at d t)) then e = - EISDIR
      else (\<exists>ess. dir_rep d c ess \<and> (1 < length ess \<or> (\<exists>es. ess = [es] \<and> 2 < length es))) \<and> e = - ENOTEMPTY)"

lemma rename_error_files:
  assumes "same_files A d d'" and "t \<in> A" and "c \<in> A" and "rename_error d t c e"
  shows "rename_error d' t c e"
proof -
  have "imode (inode_at d' t) = imode (inode_at d t)" "imode (inode_at d' c) = imode (inode_at d c)"
    using assms(1-3) by (simp_all add: same_files_def same_attr_def)
  then show ?thesis
    using assms(4) same_files_dir [OF assms(1,3)] unfolding rename_error_def by metis
qed

lemma rename_target_refused:
  fixes d :: "'x path_env_scheme"
  assumes inv: "refs_inv d F Is A" and refs: "refs_of d = inc f t" and at: "at_entry d A h q l ess" "path_node d h = Some node" "dir_map ess l = Some c"
    and lc: "linked d A c" and lt: "linked d A t" and bad: "rename_error d t c e" and few: "few_refs 1 (refs_of d)"
  shows "\<exists>d'. rename_target d h node t (S_ISDIR (imode (inode_at d t))) = Some (Inl e, d') \<and> stepped A d F Is A f d'"
proof -
  have c: "c \<in> A" and t: "t \<in> A"
    using lc lt by (simp_all add: linked_def)
  obtain d1 where d1: "path_get d h = Some (c, d1)" "stepped A d F Is A (inc (refs_of d) c) d1" "\<not> sint c < 0"
    using path_get_entry [OF inv at(1,3) c few] by blast
  have inv1: "refs_inv d1 F Is A" "refs_of d1 = inc (inc f c) t" "same_files A d d1"
    using d1(2) refs by (simp_all add: stepped_def inc_commute)
  have bad1: "rename_error d1 t c e" "imode (inode_at d1 c) = imode (inode_at d c)"
    using rename_error_files [OF inv1(3) t c bad] inv1(3) c by (simp_all add: same_files_def same_attr_def)
  have info: "\<exists>info. getinfo_ok d1 c = Some info \<and> imode info = imode (inode_at d c)"
    using inode_getinfo_spec [OF refs_inv_fs(1) [OF inv1(1)] c] bad1(2) by (simp add: getinfo_ok_def inode_info.truncate_def)
  obtain d2 where d2: "(if S_ISDIR (imode (inode_at d c)) then if \<not> S_ISDIR (imode (inode_at d t)) then Some (- EISDIR, d1) else dir_destroy d1 c
      else if S_ISDIR (imode (inode_at d t)) then Some (- ENOTDIR, d1) else Some (0, d1)) = Some (e, d2)" "stepped A d1 F Is A (refs_of d1) d2" "e < 0"
  proof (cases "S_ISDIR (imode (inode_at d c)) \<and> S_ISDIR (imode (inode_at d t))")
    case True
    then obtain ess' where e: "dir_rep d c ess'" "1 < length ess' \<or> (\<exists>es. ess' = [es] \<and> 2 < length es)" "e = - ENOTEMPTY"
      using bad by (auto simp: rename_error_def)
    obtain d2 where d2: "dir_destroy d1 c = Some (- ENOTEMPTY, d2)" "only_read A c d1 d2 F Is"
      using dir_destroy_nonempty [OF refs_inv_fs(1) [OF inv1(1)] c stepped_dir [OF d1(2) c e(1)] e(2)] by blast
    have "fs_result A c d1 d2 F Is A" "same_attr (inode_at d1 c) (inode_at d2 c)"
      using d2(2) by (simp_all add: only_read_def)
    then have "stepped A d1 F Is A (refs_of d1) d2"
      using refs_inv_attr [OF inv1(1)] only_read_files [OF d2(2)] more_paths(1) [of d2 d1] by (simp add: stepped_def)
    then show thesis
      using that d2(1) e(3) True by simp
  next
    case False
    then have "stepped A d1 F Is A (refs_of d1) d1"
      using inv1(1) by (simp add: stepped_def)
    then show thesis
      using that [of d1] bad False by (auto simp: rename_error_def split: if_splits)
  qed
  have inv2: "refs_inv d2 F Is A" "refs_of d2 = inc (inc f c) t" "same_files A d d2"
    using d2(2) inv1(2) same_files_trans [OF inv1(3), of d2] by (auto simp: stepped_def)
  have l2: "linked d2 A t" "linked d2 A c"
    using linked_files [OF inv2(3) subset_refl] lt lc by blast+
  obtain d3 where d3: "close_ok d2 t = Some d3" "quiet F Is A d2 (inc f c) d3"
    using close_ok_spec [OF inv2(1) l2(1) inv2(2)] by blast
  have inv3: "refs_inv d3 F Is A" "refs_of d3 = inc f c"
    using d3(2) by (simp_all add: quiet_def)
  have "linked d3 A c"
    using linked_files [OF quiet_files [OF d3(2)] subset_refl l2(2)] .
  then obtain d4 where d4: "close_ok d3 c = Some d4" "quiet F Is A d3 f d4"
    using close_ok_spec [OF inv3(1) _ inv3(2)] by blast
  have "rename_target d h node t (S_ISDIR (imode (inode_at d t))) = Some (Inl e, d4)"
    using d1(1,3) info d2(1,3) d3(1) d4(1) by (auto simp: rename_target_def)
  moreover have "stepped A d F Is A f d4"
    using stepped_trans [OF d1(2) stepped_trans [OF d2(2) stepped_trans [OF quiet_stepped [OF d3(2)] quiet_stepped [OF d4(2)]]]] by simp
  ultimately show ?thesis
    by blast
qed

theorem path_rename_refused:
  fixes d :: "'x path_env_scheme"
  assumes inv: "refs_inv d F Is A" and src: "at_entry d A hs p n ess" "dir_map ess n = Some t" and dst: "at_entry d A hq q l esq" "dir_map esq l = Some c"
    and lc: "linked d A c" and lt: "linked d A t" and bad: "rename_error d t c e"
    and permit: "may_write d user grp p" "may_write d user grp q" and few: "few_refs 2 (refs_of d)"
  shows "\<exists>d'. path_rename d hq hs user grp = Some (e, d') \<and> stepped A d F Is A (refs_of d) d'"
proof -
  have A: "q \<in> A" "c \<in> A" "t \<in> A"
    using dst(1) lc lt by (auto simp: at_entry_def linked_def)
  have few1: "few_refs 1 (refs_of d)" "few_refs 1 (inc (refs_of d) t)"
    using few few_refs_mono [OF few] few_refs_inc [of 1 "refs_of d"] by (simp_all add: numeral_eq_Suc)
  obtain d1 sn dn where d1: "stepped A d F Is A (inc (refs_of d) t) d1" "path_node d1 hq = Some dn"
    "\<And>e d2. rename_target d1 hq dn t (S_ISDIR (imode (inode_at d t))) = Some (Inl e, d2) \<Longrightarrow> path_rename d hq hs user grp = Some (e, d2)"
    using path_rename_start [OF inv src dst(1) A(3) permit few1(1)] by blast
  have s1: "refs_inv d1 F Is A" "refs_of d1 = inc (refs_of d) t" "same_files A d d1"
    using d1(1) by (simp_all add: stepped_def)
  have few2: "few_refs 1 (refs_of d1)"
    using few1(2) s1(2) by simp
  have "imode (inode_at d1 t) = imode (inode_at d t)"
    using s1(3) A(3) by (simp add: same_files_def same_attr_def)
  then obtain d' where "rename_target d1 hq dn t (S_ISDIR (imode (inode_at d t))) = Some (Inl e, d')" "stepped A d1 F Is A (refs_of d) d'"
    using rename_target_refused [OF s1(1,2) at_entry_stepped [OF d1(1) A(1) dst(1)] d1(2) dst(2) linked_files [OF s1(3) subset_refl lc]
      linked_files [OF s1(3) subset_refl lt] rename_error_files [OF s1(3) A(3,2) bad] few2] by auto
  then show ?thesis
    using d1(1,3) stepped_trans by blast
qed

end
