(* ===== verification/Fuse_Links.thy ===== *)
theory Fuse_Links
  imports Fuse_Spec Path_Rename
begin

text \<open>
  The FUSE operations that give an inode one more name or another name: \<open>candy_link\<close>,
  \<open>candy_symlink\<close> and \<open>candy_rename\<close>.
\<close>

section \<open>Opening and closing within an operation\<close>

lemma done_path_closed: "done_path d h 0 = Some (0, d') \<Longrightarrow> close_path d h = Some d'"
  by (auto simp: done_path_def split: bind_splits)

lemma quiet_before:
  fixes d :: "'x path_env_scheme"
  assumes "finished B d1 F Is A d2" and "quiet F0 Is0 A0 d f d1" and "B \<subseteq> A0" and "quiet F Is A d2 (refs_of d) d3" and "B \<subseteq> A"
  shows "finished B d F Is A d3"
proof -
  have "idle d3"
    using assms(1) quiet_settled(1) [OF assms(4)] by (simp add: finished_def settled_def idle_def)
  moreover have "same_files B d d3"
    using same_files_trans [OF same_files_trans [OF same_files_mono [OF quiet_files [OF assms(2)] assms(3)]]]
      same_files_mono [OF quiet_files [OF assms(4)] assms(5)] assms(1) unfolding finished_def by blast
  ultimately show ?thesis
    using assms(4) by (simp add: finished_def quiet_def)
qed

section \<open>Hard links\<close>

theorem candy_link_spec:
  fixes d :: "'x path_env_scheme"
  assumes old: "resolvable F Is A d (caller user grp) ns p" "may_search d (caller user grp) p" "dir_entry d p n (Some t)" "good_name n"
    and t: "linked d A t" "\<not> S_ISDIR (imode (inode_at d t))" "inlinks (inode_at d t) \<noteq> -1"
    and at: "caller_at F Is A d user grp ns' q l ess" and absent: "dir_map ess l = None" and few: "few_refs 5 (refs_of d)"
    and room: "enough d F q (fsize d q + BLOCKSIZE)" "fsize d q + BLOCKSIZE \<le> MAX_FILESIZE"
  shows "\<exists>d' F' ess'. candy_link d (entry_path ns n) (entry_path ns' l) user grp = Some (0, d') \<and> finished (A - {q, t}) d F' Is A d' \<and>
    dir_rep d' q ess' \<and> dir_map ess' = (dir_map ess)(l \<mapsto> t) \<and> same_attr (inode_at d q) (inode_at d' q) \<and>
    relinked (inode_at d t) (inlinks (inode_at d t) + 1) (inode_at d' t) \<and> content d' t = content d t"
proof -
  have idle: "idle d" and rep: "dir_rep d q ess" and resq: "resolvable F Is A d (caller user grp) ns' q"
    using at by (simp_all add: caller_at_def)
  have inv: "refs_inv d F Is A"
    using old(1) by (simp add: resolvable_def)
  have tA: "t \<in> A" and q: "linked d A q" "q \<in> A" and tq: "t \<noteq> q"
    using t resolvable_linked(2) [OF resq] rep by (auto simp: linked_def dir_rep_def)
  obtain d1 where d1: "path_resolve d (entry_path ns n) False user grp = Some (t, d1)" "quiet F Is A d (inc (refs_of d) t) d1"
    using path_resolve_found [OF old(1-4) tA, of False] by (auto simp: entry_path_def)
  have q1: "refs_inv d1 F Is A" "refs_of d1 = inc (refs_of d) t" "same_files A d d1"
    using d1(2) quiet_files by (auto simp: quiet_def)
  have "few_refs (Suc 4) (refs_of d)"
    using few by (simp add: numeral_eq_Suc)
  then have at1: "caller_at F Is A d1 user grp ns' q l ess"
    by (rule caller_at_files [OF at quiet_stepped [OF d1(2) subset_refl] subset_refl few_refs_inc])
  then have idle1: "idle d1"
    by (simp add: caller_at_def)
  obtain h d2 where h: "opened F Is A d1 q l h d2" "path_open d1 (entry_path ns' l) False user grp (-1) = Some (int h, d2)"
      "at_entry d2 A (int h) q l ess" "may_write d2 user grp q"
    using caller_opened [OF at1] absent by blast
  note f = opened_facts [OF idle1 h(1)]
  have s2: "same_files A d d2"
    using same_files_trans [OF q1(3) f(3)] .
  have t2: "same_attr (inode_at d t) (inode_at d2 t)" "content d2 t = content d t"
    using s2 tA by (simp_all add: same_files_def)
  have size: "fsize d2 q = fsize d q"
    by (rule same_files_fsize [OF s2 inv f(1) q(2) q(2) q(2)])
  have "enough d2 F q (fsize d2 q + BLOCKSIZE)" "fsize d2 q + BLOCKSIZE \<le> MAX_FILESIZE"
    using room size by (simp_all add: enough_def fcount_blocks_def)
  moreover have "0 < refs_of d2 t" "\<not> S_ISDIR (imode (inode_at d2 t))"
    using f(2) q1(2) tq t(2) t2(1) by (simp_all add: inc_def same_attr_def)
  ultimately obtain d3 F' ess' where d3: "path_link d2 (int h) t user grp = Some (0, d3)" "stepped (A - {q, t}) d2 F' Is A (refs_of d2) d3"
      "dir_rep d3 q ess'" "dir_map ess' = (dir_map ess)(l \<mapsto> t)" "relinked (inode_at d2 t) (inlinks (inode_at d2 t) + 1) (inode_at d3 t)"
      "content d3 t = content d2 t" "same_attr (inode_at d2 q) (inode_at d3 q)"
    using path_link_spec [OF f(1) h(3) absent tA _ _ h(4)] by blast
  have "linked d3 A q"
    by (rule linked_same [OF d3(7) linked_files [OF s2 subset_refl q(1)] q(2)])
  then obtain d4 where d4: "done_path d3 (int h) 0 = Some (0, d4)" "finished (A - {q, t}) d1 F' Is A d4" "same_files A d3 d4"
    using done_path_spec [OF idle1 h(1) d3(2), of 0 0] by auto
  have fin4: "refs_inv d4 F' Is A" "refs_of d4 = inc (refs_of d) t"
    using d4(2) q1(2) by (simp_all add: finished_def)
  have r4: "relinked (inode_at d t) (inlinks (inode_at d t) + 1) (inode_at d4 t)" "content d4 t = content d t"
    using d3(5,6) d4(3) t2 tA by (simp_all add: same_files_def relinked_def same_attr_def)
  have "inlinks (inode_at d t) + 1 \<noteq> 0"
    using t(3) by (simp add: eq_neg_iff_add_eq_0)
  then have "linked d4 A t"
    using relinked_links [OF r4(1)] tA by (simp add: linked_def)
  then obtain d5 where d5: "done_inode d4 t 0 = Some (0, d5)" "quiet F' Is A d4 (refs_of d) d5"
    using done_inode_spec [OF fin4(1) _ fin4(2), of 0] by auto
  have files5: "same_files A d3 d5"
    by (rule same_files_trans [OF d4(3) quiet_files [OF d5(2)]])
  have "\<not> sint t < 0"
    using ino_nonneg [OF refs_inv_fs(1) [OF inv] tA] by simp
  then have "candy_link d (entry_path ns n) (entry_path ns' l) user grp = Some (0, d5)"
    using d1(1) h(2) d3(1) done_path_closed [OF d4(1)] d5(1) by (simp add: candy_link_def with_inode'_def)
  moreover have "finished (A - {q, t}) d F' Is A d5"
    by (rule quiet_before [OF d4(2) d1(2) _ d5(2)]) blast+
  moreover have "dir_rep d5 q ess'" "same_attr (inode_at d q) (inode_at d5 q)"
    using same_files_dir [OF files5 q(2) d3(3)] attr_chain [OF s2 q(2) d3(7) files5 q(2)] by simp_all
  moreover have "same_attr (inode_at d4 t) (inode_at d5 t)" "content d5 t = content d4 t"
    using quiet_files [OF d5(2)] tA by (simp_all add: same_files_def)
  ultimately show ?thesis
    using d3(4) r4 relinked_after [OF r4(1)] by (intro exI [of _ d5] exI [of _ F'] exI [of _ ess']) simp
qed


section \<open>Symbolic links\<close>

lemma link_under_spec:
  fixes d :: "'x path_env_scheme"
  assumes at: "caller_at F Is A d user grp ns q l ess" and absent: "dir_map ess l = None"
    and t: "t \<in> A" "\<not> S_ISDIR (imode (inode_at d t))" "inlinks (inode_at d t) \<noteq> -1" "refs_of d = inc f t"
    and room: "enough d F q (fsize d q + BLOCKSIZE)" "fsize d q + BLOCKSIZE \<le> MAX_FILESIZE"
  shows "\<exists>d' F' ess'. link_under d t (entry_path ns l) user grp = Some (0, d') \<and> refs_inv d' F' Is A \<and> refs_of d' = f \<and>
    same_files (A - {q, t}) d d' \<and> idle d' \<and> dir_rep d' q ess' \<and> dir_map ess' = (dir_map ess)(l \<mapsto> t) \<and> same_attr (inode_at d q) (inode_at d' q) \<and>
    relinked (inode_at d t) (inlinks (inode_at d t) + 1) (inode_at d' t) \<and> content d' t = content d t"
proof -
  have idle: "idle d" and rep: "dir_rep d q ess" and resq: "resolvable F Is A d (caller user grp) ns q"
    using at by (simp_all add: caller_at_def)
  have inv: "refs_inv d F Is A"
    using resq by (simp add: resolvable_def)
  have q: "linked d A q" "q \<in> A" and tq: "t \<noteq> q"
    using t(2) resolvable_linked(2) [OF resq] rep by (auto simp: linked_def dir_rep_def)
  obtain h d2 where h: "opened F Is A d q l h d2" "path_open d (entry_path ns l) False user grp (-1) = Some (int h, d2)"
      "at_entry d2 A (int h) q l ess" "may_write d2 user grp q"
    using caller_opened [OF at] absent by blast
  note fa = opened_facts [OF idle h(1)]
  have t2: "same_attr (inode_at d t) (inode_at d2 t)" "content d2 t = content d t"
    using fa(3) t(1) by (simp_all add: same_files_def)
  have size: "fsize d2 q = fsize d q"
    by (rule same_files_fsize [OF fa(3) inv fa(1) q(2) q(2) q(2)])
  have "enough d2 F q (fsize d2 q + BLOCKSIZE)" "fsize d2 q + BLOCKSIZE \<le> MAX_FILESIZE"
    using room size by (simp_all add: enough_def fcount_blocks_def)
  moreover have "0 < refs_of d2 t" "\<not> S_ISDIR (imode (inode_at d2 t))"
    using fa(2) t(2,4) tq t2(1) by (simp_all add: inc_def same_attr_def)
  ultimately obtain d3 F' ess' where d3: "path_link d2 (int h) t user grp = Some (0, d3)" "stepped (A - {q, t}) d2 F' Is A (refs_of d2) d3"
      "dir_rep d3 q ess'" "dir_map ess' = (dir_map ess)(l \<mapsto> t)" "relinked (inode_at d2 t) (inlinks (inode_at d2 t) + 1) (inode_at d3 t)"
      "content d3 t = content d2 t" "same_attr (inode_at d2 q) (inode_at d3 q)"
    using path_link_spec [OF fa(1) h(3) absent t(1) _ _ h(4)] by blast
  have s3: "refs_inv d3 F' Is A" "refs_of d3 = inc (inc f q) t" "open_path_table d3 = open_path_table d2" "same_files (A - {q, t}) d2 d3"
    using d3(2) fa(2) t(4) by (simp_all add: stepped_def inc_commute)
  have r3: "relinked (inode_at d t) (inlinks (inode_at d t) + 1) (inode_at d3 t)" "content d3 t = content d t"
    using d3(5,6) t2 by (simp_all add: relinked_def same_attr_def)
  have "inlinks (inode_at d t) + 1 \<noteq> 0"
    using t(3) by (simp add: eq_neg_iff_add_eq_0)
  then have "linked d3 A t"
    using relinked_links [OF r3(1)] t(1) by (simp add: linked_def)
  then obtain d4 where d4: "close_ok d3 t = Some d4" "quiet F' Is A d3 (inc f q) d4"
    using close_ok_spec [OF s3(1) _ s3(2)] by blast
  have s4: "refs_inv d4 F' Is A" "open_path_table d4 = open_path_table d2" "refs_of d4 = inc f q"
    using d4(2) s3(3) more_paths(1) [of d4 d3] by (auto simp: quiet_def)
  have "linked d4 A q"
    using quiet_linked [OF d4(2)] linked_same [OF d3(7) linked_files [OF fa(3) subset_refl q(1)] q(2)] by simp
  then obtain d5 where d5: "done_path d4 (int h) 0 = Some (0, d5)" "refs_inv d5 F' Is A" "refs_of d5 = f" "same_files A d4 d5" "idle d5"
    using done_path_close [OF idle h(1) s4, of 0 0] by auto
  have files5: "same_files A d3 d5"
    by (rule same_files_trans [OF quiet_files [OF d4(2)] d5(4)])
  have "link_under d t (entry_path ns l) user grp = Some (0, d5)"
    using h(2) d3(1) d4(1) d5(1) by (simp add: link_under_def)
  moreover have "same_files (A - {q, t}) d d5"
    using same_files_trans [OF same_files_trans [OF same_files_mono [OF fa(3)] s3(4)] same_files_mono [OF files5]] by blast
  moreover have "dir_rep d5 q ess'" "same_attr (inode_at d q) (inode_at d5 q)"
    using same_files_dir [OF files5 q(2) d3(3)] attr_chain [OF fa(3) q(2) d3(7) files5 q(2)] by simp_all
  moreover have "same_attr (inode_at d3 t) (inode_at d5 t)" "content d5 t = content d3 t"
    using files5 t(1) by (simp_all add: same_files_def)
  ultimately show ?thesis
    using d3(4) d5(2,3,5) r3 relinked_after [OF r3(1)] by (intro exI [of _ d5] exI [of _ F'] exI [of _ ess']) simp
qed

lemma symlink_create_free:
  assumes "fs_inv d F (i # Is) A" and "fs_result A i d d' F' Is (insert i A)" and "i \<notin> A" and "content d' i = target"
    and "target \<noteq> []" and "length target \<le> PATH_MAX - 1"
  shows "card F = card F' + 2"
proof (rule one_block_free [OF assms(1-3)])
  have "0 \<le> fsize d' i"
    using fs_inv_inode(7) [of d' F' Is "insert i A" i] assms(2) by (simp add: fs_result_def)
  then have "fsize d' i = int (length target)"
    using length_content [of d' i] assms(4) by simp
  moreover have "blockcount_of (int (length target)) = 1"
    by (rule link_blocks) (use assms(5,6) in simp_all)
  ultimately show "slots_count (fcount_blocks d' i) = 1"
    by (simp add: fcount_blocks_def slots_count_1)
qed

theorem candy_symlink_spec:
  fixes d :: "'x path_env_scheme"
  assumes at: "caller_at F (i # Is) A d user grp ns p n ess" and absent: "dir_map ess n = None" and few: "few_refs 5 (refs_of d)"
    and name: "target \<noteq> []" "length target \<le> PATH_MAX - 1" and user: "user \<noteq> -1" "grp \<noteq> -1" and room: "room_for_dir d F p"
  shows "\<exists>d' F' ess'. candy_symlink d target (entry_path ns n) user grp = Some (0, d') \<and> i \<notin> A \<and>
    finished (A - {p}) d F' Is (insert i A) d' \<and> dir_rep d' p ess' \<and> dir_map ess' = (dir_map ess)(n \<mapsto> i) \<and>
    same_attr (inode_at d p) (inode_at d' p) \<and> content d' i = target \<and> S_ISLNK (imode (inode_at d' i)) \<and>
    inlinks (inode_at d' i) = 1 \<and> iowner (inode_at d' i) = user \<and> igroup (inode_at d' i) = grp \<and> imode (inode_at d' i) AND 0xFFF = 0x1FF"
proof -
  have idle: "idle d" and res: "resolvable F (i # Is) A d (caller user grp) ns p"
    using at by (simp_all add: caller_at_def)
  have inv: "refs_inv d F (i # Is) A"
    using res by (simp add: resolvable_def)
  note fs = refs_inv_fs(1) [OF inv]
  have p: "p \<in> A"
    using resolvable_linked(2) [OF res] by (simp add: linked_def)
  obtain d1 F1 where d1: "symlink_create d target = Some (i, d1)" "fs_result A i d d1 F1 Is (insert i A)" "i \<notin> A"
      "inlinks (inode_at d1 i) = 0" "content d1 i = target" "imode (inode_at d1 i) = S_IFLNK OR 0x1FF"
    using symlink_create_spec [OF fs _ name] room by (auto simp: room_for_dir_def)
  have free: "card F = card F1 + 2"
    by (rule symlink_create_free [OF fs d1(2,3,5) name])
  obtain d2 d3 where c: "\<not> sint i < 0" "open_ok d1 i = Some d2" "perm_chown d2 i 0 user grp = Some (0, d3)"
      "stepped A d F1 Is (insert i A) (inc (refs_of d) i) d3" "content d3 i = content d1 i"
      "inlinks (inode_at d3 i) = 0" "iowner (inode_at d3 i) = user" "igroup (inode_at d3 i) = grp" "imode (inode_at d3 i) = imode (inode_at d1 i)"
    using fresh_chowned [OF inv d1(2-4) user] by blast
  have link: "S_ISLNK (imode (inode_at d3 i))" "\<not> S_ISDIR (imode (inode_at d3 i))" "imode (inode_at d3 i) AND 0xFFF = 0x1FF"
    using c(9) d1(6) by (simp_all add: mode_defs)
  have s3: "refs_inv d3 F1 Is (insert i A)" "refs_of d3 = inc (refs_of d) i" "same_files A d d3"
    using c(4) by (simp_all add: stepped_def)
  have "few_refs (Suc 4) (refs_of d)"
    using few by (simp add: numeral_eq_Suc)
  then have at3: "caller_at F1 Is (insert i A) d3 user grp ns p n ess"
    using caller_at_files [OF at c(4) _ few_refs_inc] by blast
  have "fsize d3 p = fsize d p"
    using same_files_fsize [OF s3(3) inv s3(1)] p by blast
  then have room3: "enough d3 F1 p (fsize d3 p + BLOCKSIZE)" "fsize d3 p + BLOCKSIZE \<le> MAX_FILESIZE"
    using room free by (simp_all add: enough_def fcount_blocks_def room_for_dir_def)
  have "inlinks (inode_at d3 i) \<noteq> -1"
    using c(6) by simp
  from link_under_spec [OF at3 absent insertI1 link(2) this s3(2) room3]
  obtain d4 F' ess' where d4: "link_under d3 i (entry_path ns n) user grp = Some (0, d4)" "refs_inv d4 F' Is (insert i A)" "refs_of d4 = refs_of d"
      "same_files (insert i A - {p, i}) d3 d4" "idle d4" "dir_rep d4 p ess'" "dir_map ess' = (dir_map ess)(n \<mapsto> i)"
      "same_attr (inode_at d3 p) (inode_at d4 p)" "relinked (inode_at d3 i) (inlinks (inode_at d3 i) + 1) (inode_at d4 i)" "content d4 i = content d3 i"
    by blast
  have "candy_symlink d target (entry_path ns n) user grp = Some (0, d4)"
    using d1(1) c(1-3) d4(1) by (simp add: candy_symlink_def)
  moreover have "finished (A - {p}) d F' Is (insert i A) d4"
  proof -
    have "A - {p} = insert i A - {p, i}"
      using d1(3) by auto
    then show ?thesis
      using d4(2,3,5) same_files_trans [OF same_files_mono [OF s3(3)] d4(4)] by (auto simp: finished_def)
  qed
  moreover have "same_attr (inode_at d p) (inode_at d4 p)"
    using s3(3) p same_attr_trans [OF _ d4(8)] by (simp add: same_files_def)
  ultimately show ?thesis
    using d1(3,5) d4(6,7,9,10) c(5-8) link unfolding relinked_def same_attr_def
    by (intro exI [of _ d4] exI [of _ F'] exI [of _ ess']) simp
qed

end
