(* ===== verification/Fuse_Refine_Links.thy ===== *)
theory Fuse_Refine_Links
  imports Fuse_Refine Fuse_Links
begin

text \<open>\<open>candy_link\<close> and \<open>candy_symlink\<close> on the file system as its users see it.\<close>

section \<open>Hard links\<close>

lemma represents_link:
  assumes rep: "represents F Is d G" and q: "G q = Some (b, Dir m)" and t: "G t = Some (a, x)" "t \<noteq> q" "\<forall>k. x \<noteq> Dir k" "x \<noteq> Gone"
    and fin: "finished (dom G - {q, t}) d F' Is' (dom G) d'" and dir: "dir_rep d' q ess" "dir_map ess = m(l \<mapsto> t)" "same_attr (inode_at d q) (inode_at d' q)"
    and target: "relinked (inode_at d t) (inlinks (inode_at d t) + 1) (inode_at d' t)" "content d' t = content d t"
  shows "represents F' Is' d' (ns_link q l t G)"
proof -
  let ?G = "ns_link q l t G"
  have G': "?G = G(q \<mapsto> (b, Dir (m(l \<mapsto> t))), t \<mapsto> (relink (\<lambda>k. k + 1) a, x))"
    using q t by (simp add: ns_link_def)
  have dom: "dom ?G = dom G"
    using q t by (auto simp: G')
  show ?thesis
  proof (rule finished_represents [OF rep])
    show "finished (dom G - {q, t}) d F' Is' (dom ?G) d'"
      using fin dom by simp
    fix j c y assume j: "?G j = Some (c, y)"
    have "attr_of (inode_at d' q) = b" "node_rep d' q (Dir (m(l \<mapsto> t)))"
      using representsD(3) [OF rep q] attr_of_same [OF dir(3)] node_rep_dir [OF dir(1)] dir(2) by simp_all
    moreover have "attr_of (inode_at d' t) = relink (\<lambda>k. k + 1) a"
      using representsD(3) [OF rep t(1)] attr_of_relinked [OF target(1)] by (simp add: relink_def attr_of_def)
    moreover have "imode (inode_at d' t) = imode (inode_at d t)"
      using target(1) by (simp add: relinked_def same_attr_def)
    then have "node_rep d' t x"
      using representsD(4) [OF rep t(1)] target(2) t(3,4) by (cases x) auto
    ultimately show "j \<in> dom G - {q, t} \<and> G j = Some (c, y) \<or> c = attr_of (inode_at d' j) \<and> node_rep d' j y"
      using j t(2) unfolding G' by (cases "j = t"; cases "j = q") (auto simp del: node_rep.simps)
  qed
qed

theorem candy_link_refines:
  fixes d :: "'x path_env_scheme"
  assumes s: "serves F Is d f G" and few: "few_refs 5 f" and old: "ns_see G user grp ns p n m" "m n = Some t"
    and t: "G t = Some (a, x)" "(\<exists>bs. x = File bs) \<or> (\<exists>bs. x = Link bs)" "a_links a \<noteq> -1"
    and new: "ns_at G user grp ns' q l k" "k l = None"
    and room: "enough d F q (fsize d q + BLOCKSIZE)" "fsize d q + BLOCKSIZE \<le> MAX_FILESIZE"
  shows "\<exists>d' F'. candy_link d (entry_path ns n) (entry_path ns' l) user grp = Some (0, d') \<and> serves F' Is d' f (ns_link q l t G)"
proof -
  note sv = servesD [OF s]
  have few4: "few_refs 4 f"
    using few_refs_mono [OF few] by simp
  note seen = ns_seen [OF s few4 old(1)]
  obtain b where q: "G q = Some (b, Dir k)"
    using new(1) by (auto simp: ns_at_def)
  obtain ess where ess: "caller_at F Is (dom G) d user grp ns' q l ess" "dir_map ess = k"
    using ns_caller [OF sv(1,2) _ new(1)] few4 sv(3) by blast
  have nd: "\<not> S_ISDIR (imode (inode_at d t))" "inlinks (inode_at d t) \<noteq> -1" and tq: "t \<noteq> q"
    using node_rep_mode [OF representsD(4) [OF sv(1) t(1)]] t representsD(3) [OF sv(1) t(1)] q by (auto simp: attr_of_def)
  have "dir_map ess l = None" "few_refs 5 (refs_of d)"
    using ess(2) new(2) few sv(3) by simp_all
  from candy_link_spec [OF seen(1,2) _ seen(4) seen(5) [OF old(2)] nd ess(1) this room]
  obtain d' F' ess' where d': "candy_link d (entry_path ns n) (entry_path ns' l) user grp = Some (0, d')" "finished (dom G - {q, t}) d F' Is (dom G) d'"
    "dir_rep d' q ess'" "dir_map ess' = k(l \<mapsto> t)" "same_attr (inode_at d q) (inode_at d' q)"
    "relinked (inode_at d t) (inlinks (inode_at d t) + 1) (inode_at d' t)" "content d' t = content d t"
    using seen(3) old(2) unfolding ess(2) by auto
  have "represents F' Is d' (ns_link q l t G)"
    by (rule represents_link [OF sv(1) q t(1) tq _ _ d'(2-7)]) (use t(2) in auto)
  moreover have "ns_inv (ns_link q l t G)"
    by (rule ns_link_inv [OF sv(6) q new(2) t(1) _ t(3)]) (use t in \<open>auto simp: dir_of_def\<close>)
  ultimately show ?thesis
    using d'(1,2) sv(3) by (auto simp: serves_def finished_def)
qed

section \<open>Symbolic links\<close>

definition ns_symlink :: "ino \<Rightarrow> byte list \<Rightarrow> ino \<Rightarrow> byte list \<Rightarrow> u32 \<Rightarrow> u32 \<Rightarrow> namespace \<Rightarrow> namespace" where
  "ns_symlink p n i target user grp = ns_new p n i (fresh_attr_of 0x1FF user grp) (Link target)"

theorem candy_symlink_refines:
  fixes d :: "'x path_env_scheme"
  assumes s: "serves F (i # Is) d f G" and few: "few_refs 5 f" and at: "ns_at G user grp ns p n m" and absent: "m n = None"
    and target: "target \<noteq> []" "length target \<le> PATH_MAX - 1" and user: "user \<noteq> -1" "grp \<noteq> -1" and room: "room_for_dir d F p"
  shows "\<exists>d' F'. candy_symlink d target (entry_path ns n) user grp = Some (0, d') \<and> G i = None \<and>
    serves F' Is d' f (ns_symlink p n i target user grp G)"
proof -
  note sv = servesD [OF s]
  obtain b where p: "G p = Some (b, Dir m)"
    using at by (auto simp: ns_at_def)
  obtain ess where ess: "caller_at F (i # Is) (dom G) d user grp ns p n ess" "dir_map ess = m"
    using ns_caller [OF sv(1,2) _ at] few_refs_mono [OF few] sv(3) by auto
  have "dir_map ess n = None" "few_refs 5 (refs_of d)"
    using ess(2) absent few sv(3) by simp_all
  from candy_symlink_spec [OF ess(1) this target user room]
  obtain d' F' ess' where d': "candy_symlink d target (entry_path ns n) user grp = Some (0, d')" "i \<notin> dom G"
    "finished (dom G - {p}) d F' Is (insert i (dom G)) d'" "dir_rep d' p ess'" "dir_map ess' = m(n \<mapsto> i)"
    "same_attr (inode_at d p) (inode_at d' p)" "content d' i = target" "S_ISLNK (imode (inode_at d' i))"
    "inlinks (inode_at d' i) = 1" "iowner (inode_at d' i) = user" "igroup (inode_at d' i) = grp" "imode (inode_at d' i) AND 0xFFF = 0x1FF"
    unfolding ess(2) by blast
  have i: "G i = None"
    using d'(2) by auto
  have fin: "refs_inv d' F' Is (insert i (dom G))" "idle d'" "same_files (dom G - {p}) d d'" "refs_of d' = f"
    using d'(3) sv(3) by (simp_all add: finished_def)
  have "attr_of (inode_at d' i) = fresh_attr_of 0x1FF user grp" "node_rep d' i (Link target)"
    using d'(7-12) by (simp_all add: attr_of_def fresh_attr_of_def)
  note new = represents_new [OF sv(1) p i fin(1-3) d'(4-6) this]
  have "ns_inv (ns_symlink p n i target user grp G)"
    unfolding ns_symlink_def by (rule ns_new_inv [OF sv(6) p absent i]) (simp_all add: fresh_attr_of_def)
  then show ?thesis
    using d'(1) i new fin(4) by (auto simp: serves_def ns_symlink_def)
qed

end
