(* ===== verification/Fuse_Files.thy ===== *)
theory Fuse_Files
  imports Fuse_Refine_Links
begin

text \<open>
  The FUSE operations on files, attributes and open files, on the file system as its users see it.
\<close>

section \<open>Steps of an operation\<close>

lemma idle_table: "idle d \<Longrightarrow> open_path_table d' = open_path_table d \<Longrightarrow> idle d'"
  by (simp add: idle_def)

lemma stepped_serves:
  fixes d :: "'x path_env_scheme"
  assumes s: "serves F Is d f G" and step: "stepped (dom G - {i}) d F' Is' (dom G) f' d'" and i: "G i = Some (a, x)"
    and new: "attr_of (inode_at d' i) = a'" "node_rep d' i x'" "ns_inv (G(i \<mapsto> (a', x')))"
  shows "serves F' Is' d' f' (G(i \<mapsto> (a', x')))"
proof -
  note sv = servesD [OF s]
  have st: "refs_inv d' F' Is' (dom G)" "refs_of d' = f'" "same_files (dom G - {i}) d d'" "open_path_table d' = open_path_table d"
    using step by (simp_all add: stepped_def)
  have dom: "dom (G(i \<mapsto> (a', x'))) = dom G"
    using i by auto
  have "represents F' Is' d' (G(i \<mapsto> (a', x')))"
    by (rule represents_step [OF sv(1) _ idle_table [OF sv(5) st(4)] st(3)])
      (use st(1) dom new(1,2) in \<open>auto simp del: node_rep.simps split: if_splits\<close>)
  then show ?thesis
    using st(2) new(3) by (simp add: serves_def)
qed

lemma quiet_serves:
  fixes d :: "'x path_env_scheme"
  assumes s: "serves F Is d f G" and q: "quiet F Is (dom G) d f' d'"
  shows "serves F Is d' f' G"
proof -
  note sv = servesD [OF s]
  have st: "refs_inv d' F Is (dom G)" "refs_of d' = f'" "open_path_table d' = open_path_table d"
    using q more_paths(1) [of d' d] by (auto simp: quiet_def)
  have "represents F Is d' G"
    by (rule represents_step [OF sv(1) st(1) idle_table [OF sv(5) st(3)] quiet_files [OF q]]) auto
  then show ?thesis
    using st(2) sv(6) by (simp add: serves_def)
qed

lemma resolve_serves:
  fixes d :: "'x path_env_scheme"
  assumes s: "serves F Is d f G" and few: "few_refs 4 f" and see: "ns_see G user grp ns p n m" "m n = Some t"
    and link: "deref \<longrightarrow> (\<forall>a bs. G t \<noteq> Some (a, Link bs))"
  shows "\<exists>d'. path_resolve d (entry_path ns n) deref user grp = Some (t, d') \<and> serves F Is d' (inc f t) G \<and> \<not> sint t < 0"
proof -
  note sv = servesD [OF s] and seen = ns_seen [OF s few see(1)]
  have t: "t \<in> dom G"
    using seen(5) [OF see(2)] by (simp add: linked_def)
  then obtain a x where x: "G t = Some (a, x)"
    by auto
  have "\<not> (deref \<and> S_ISLNK (imode (inode_at d t)))"
    using link x representsD(4) [OF sv(1) x] mode_exclusive by (cases x) (auto simp: dir_rep_def dead_dir_def)
  from path_resolve_found [OF seen(1,2) _ seen(4) t this]
  obtain d' where "path_resolve d (entry_path ns n) deref user grp = Some (t, d')" "quiet F Is (dom G) d (inc f t) d'"
    using seen(3) see(2) sv(3) by (auto simp: entry_path_def)
  then show ?thesis
    using quiet_serves [OF s] ino_nonneg [OF refs_inv_fs(1) [OF sv(4)] t] by auto
qed

lemma done_serves:
  fixes d :: "'x path_env_scheme"
  assumes s: "serves F Is d (inc f t) G" and t: "links_of G t \<noteq> 0"
  shows "\<exists>d'. done_inode d t e = Some (if e < 0 then int_of_long e else 0, d') \<and> serves F Is d' f G"
proof -
  note sv = servesD [OF s]
  obtain a x where x: "G t = Some (a, x)" "a_links a \<noteq> 0"
    using t by (auto simp: links_of_def unat_gt_0 split: option.splits)
  then have "linked d (dom G) t"
    using representsD(3) [OF sv(1) x(1)] by (auto simp: linked_def attr_of_def)
  then obtain d' where "done_inode d t e = Some (if e < 0 then int_of_long e else 0, d')" "quiet F Is (dom G) d f d'"
    using done_inode_spec [OF sv(4) _ sv(3)] by blast
  then show ?thesis
    using quiet_serves [OF s] by blast
qed

lemma see_links:
  assumes "serves F Is d f G" and "ns_see G user grp ns p n m" and "m n = Some t"
  shows "links_of G t \<noteq> 0" "t \<in> dom G"
  using entry_target [OF servesD(2) [OF assms(1)], of p m n t] assms(2,3) by (auto simp: ns_see_def dir_of_eq)

lemma inode_read:
  fixes d :: "'x path_env_scheme"
  assumes s: "serves F Is d f G" and i: "G i = Some (a, x)"
  shows "inode_getinfo d i = Some (Some (inode_info.truncate (inode_at d i)))" "attr_of (inode_at d i) = a" "node_rep d i x" "fs_inv d F Is (dom G)"
  using inode_getinfo_spec [OF refs_inv_fs(1) [OF servesD(4) [OF s]], of i] i representsD(3,4) [OF servesD(1) [OF s] i]
    refs_inv_fs(1) [OF servesD(4) [OF s]] by (auto simp del: node_rep.simps)

section \<open>The bytes of open files\<close>

lemma int_of_long_small: "- 2147483648 \<le> n \<Longrightarrow> n < 2147483648 \<Longrightarrow> int_of_long n = n"
  by (simp add: int_of_long_def int_word_sint)

lemma file_result_serves:
  fixes d :: "'x path_env_scheme"
  assumes s: "serves F Is d f G" and i: "G i = Some (a, File bs)" and res: "fs_result (dom G) i d d' F' Is (dom G)"
    and attr: "same_attr (inode_at d i) (inode_at d' i)" and bytes: "content d' i = g bs"
  shows "serves F' Is d' f (ns_file i g G)"
proof -
  note sv = servesD [OF s] and ii = inode_read [OF s i]
  have "attr_of (inode_at d' i) = a" "node_rep d' i (File (g bs))"
    using ii(2,3) attr_of_same [OF attr] attr bytes by (auto simp: same_attr_def)
  moreover have "ns_inv (ns_file i g G)"
    using sv(6) by (simp add: ns_file_inv)
  ultimately show ?thesis
    using stepped_serves [OF s result_stepped [OF sv(4) res attr subset_refl] i] i sv(3) by (simp add: ns_file_def)
qed

definition write_at :: "u32 \<Rightarrow> byte list \<Rightarrow> int \<Rightarrow> nat" where
  "write_at flags bs offset = (if flags AND O_APPEND = O_APPEND then length bs else nat offset)"

theorem candy_write_refines:
  fixes d :: "'x path_env_scheme"
  assumes s: "serves F Is d f G" and i: "G i = Some (a, File bs)" and off: "0 \<le> offset" and len: "length buf < 2 ^ 31"
    and room: "int (write_at flags bs offset + length buf) \<le> MAX_FILESIZE" "enough d F i (int (write_at flags bs offset + length buf))"
  shows "\<exists>d' F'. candy_write d i flags buf offset = Some (int (length buf), d') \<and>
    serves F' Is d' f (ns_file i (\<lambda>bs. write_bytes bs (write_at flags bs offset) buf) G)"
proof -
  note ii = inode_read [OF s i]
  have dom: "i \<in> dom G"
    using i by blast
  let ?pos = "if flags AND O_APPEND = O_APPEND then -1 else offset" and ?p = "write_at flags bs offset"
  have c: "content d i = bs" "S_ISREG (imode (inode_at d i))"
    using ii(3) by simp_all
  have p: "?p = (if ?pos = -1 then nat (fsize d i) else nat ?pos)" "?pos = -1 \<or> 0 \<le> ?pos"
    using off length_content [of d i] c(1) by (auto simp: write_at_def)
  have fits: "data_fits (Some buf) (int (length buf))" "data_bytes (Some buf) (length buf) = buf"
    by (simp_all add: data_fits_def data_bytes_def)
  have room': "int ?p + int (length buf) \<le> MAX_FILESIZE" "enough d F i (int ?p + int (length buf))"
    using room by simp_all
  obtain d' F' where d': "inode_write d i ?pos (Some buf) (int (length buf)) = Some (int (length buf), d')" "fs_result (dom G) i d d' F' Is (dom G)"
      "same_attr (inode_at d i) (inode_at d' i)" "content d' i = write_bytes bs ?p buf"
    using inode_write_spec [OF ii(4) dom p room'(1) fits(1) room'(2)] c(1) fits(2) by auto
  have "candy_write d i flags buf offset = Some (int (length buf), d')"
    using d'(1) file_ops_regular(2) [OF ii(4) dom c(2)] len by (simp add: candy_write_def Let_def int_of_long_small)
  then show ?thesis
    using file_result_serves [OF s i d'(2,3), of "\<lambda>bs. write_bytes bs (write_at flags bs offset) buf"] d'(4) by blast
qed

theorem candy_read_refines:
  fixes d :: "'x path_env_scheme"
  assumes s: "serves F Is d f G" and i: "G i = Some (a, File bs)" and off: "0 \<le> offset" and len: "length buf < 2 ^ 31"
  shows "\<exists>d'. candy_read d i buf offset = Some (int (length (slice (nat offset) (length buf) bs)),
      slice (nat offset) (length buf) bs @ drop (length (slice (nat offset) (length buf) bs)) buf, d') \<and> serves F Is d' f G"
proof -
  note ii = inode_read [OF s i]
  have dom: "i \<in> dom G"
    using i by blast
  let ?out = "slice (nat offset) (length buf) bs"
  have c: "content d i = bs" "S_ISREG (imode (inode_at d i))"
    using ii(3) by simp_all
  have count: "read_count d i (nat offset) (length buf) = length ?out"
    using length_content [of d i] c(1) by (simp add: read_count_def)
  obtain d' where d': "inode_read d i offset buf (int (length buf)) = Some (int (length ?out), ?out @ drop (length ?out) buf, d')"
      "fs_result (dom G) i d d' F Is (dom G)" "content d' i = bs" "same_attr (inode_at d i) (inode_at d' i)"
    using inode_read_spec [where buf = buf and p = "nat offset", OF ii(4) dom order_refl] off c(1) unfolding count by (auto simp: read_bytes_def)
  have "length ?out \<le> length buf"
    by simp
  then have "int (length ?out) < 2147483648"
    using len by simp
  then have "candy_read d i buf offset = Some (int (length ?out), ?out @ drop (length ?out) buf, d')"
    using d'(1) file_ops_regular(1) [OF ii(4) dom c(2)] by (simp add: candy_read_def int_of_long_small)
  moreover have "ns_file i (\<lambda>bs. bs) G = G"
    using i by (auto simp: ns_file_def)
  ultimately show ?thesis
    using file_result_serves [OF s i d'(2,4), of "\<lambda>bs. bs"] d'(3) by auto
qed

text \<open>No permission is asked for: any caller who can look the file up can cut it.\<close>

theorem candy_truncate_refines:
  fixes d :: "'x path_env_scheme"
  assumes s: "serves F Is d f G" and few: "few_refs 4 f" and see: "ns_see G user grp ns p n m" "m n = Some t"
    and t: "G t = Some (a, File bs)" and sz: "int sz \<le> MAX_FILESIZE" "enough d F t (int sz)"
  shows "\<exists>d' F'. candy_truncate d (entry_path ns n) (int sz) user grp = Some (0, d') \<and> serves F' Is d' f (ns_file t (\<lambda>bs. truncate_bytes bs sz) G)"
proof -
  obtain d1 where d1: "path_resolve d (entry_path ns n) True user grp = Some (t, d1)" "serves F Is d1 (inc f t) G" "\<not> sint t < 0"
    using resolve_serves [OF s few see, of True] t by auto
  note ii = inode_read [OF d1(2) t] and tdom = see_links(2) [OF s see]
  have c: "content d1 t = bs" "S_ISREG (imode (inode_at d1 t))"
    using ii(3) by simp_all
  have "fsize d1 t = fsize d t"
    using content_fsize [OF _ servesD(4) [OF s] servesD(4) [OF d1(2)] tdom tdom] c(1) inode_read(3) [OF s t] by simp
  then have room: "enough d1 F t (int sz)"
    using sz(2) by (simp add: enough_def fcount_blocks_def)
  then obtain d2 F' where d2: "inode_truncate d1 t (int sz) = Some (int sz, d2)" "fs_result (dom G) t d1 d2 F' Is (dom G)"
      "content d2 t = truncate_bytes bs sz" "same_attr (inode_at d1 t) (inode_at d2 t)"
    using inode_truncate_spec [OF ii(4) tdom _ sz(1) disjI1 [OF room]] c(1) by auto
  have s2: "serves F' Is d2 (inc f t) (ns_file t (\<lambda>bs. truncate_bytes bs sz) G)"
    by (rule file_result_serves [where g = "\<lambda>bs. truncate_bytes bs sz", OF d1(2) t d2(2,4,3)])
  have "links_of (ns_file t (\<lambda>bs. truncate_bytes bs sz) G) t \<noteq> 0"
    using see_links(1) [OF s see] t by (simp add: ns_file_def links_of_def)
  then show ?thesis
    using d1(1,3) d2(1) file_ops_regular(3) [OF ii(4) tdom c(2)] done_serves [OF s2, of 0]
    by (auto simp: candy_truncate_def with_inode'_def truncate_result_def)
qed

section \<open>Opening and closing\<close>

lemma open_resolved:
  fixes d :: "'x path_env_scheme"
  assumes d1: "path_resolve d path True user grp = Some (t, d1)" "serves F Is d1 (inc f t) G" "\<not> sint t < 0" and links: "links_of G t \<noteq> 0"
    and t: "G t = Some (a, File bs)" and flags: "access_mode_of flags = Some perms"
  shows "\<exists>d'. candy_open d path flags user grp =
      Some (if may a perms user grp then (0, Some t, d') else (- EACCES, None, d')) \<and>
    serves F Is d' (if may a perms user grp then inc f t else f) G"
proof -
  have tdom: "t \<in> dom G"
    using t by blast
  note ii = inode_read [OF d1(2) t]
  have c: "S_ISREG (imode (inode_at d1 t))" "\<not> S_ISDIR (imode (inode_at d1 t))"
    using ii(3) mode_exclusive by auto
  have perms: "perms AND 7 = perms" "perms \<noteq> PERM_UTIME"
    using flags by (auto simp: access_mode_of_def PERM_READ_def PERM_WRITE_def PERM_UTIME_def split: if_splits)
  then have check: "perm_check d1 t perms user grp = Some (if may a perms user grp then 0 else - EACCES)"
    using perm_check_spec [OF ii(4) tdom, of perms user grp] may_allowed [OF perms(2)] ii(2) by metis
  have run: "candy_open d path flags user grp =
      (if may a perms user grp then Some (0, Some t, d1) else do { (res, d) \<leftarrow> done_inode d1 t (- EACCES); Some (res, None, d) })"
    using d1(1,3) ii(1) c flags check
    by (simp add: candy_open_def open_with_def with_inode_def getinfo_ok_def inode_info.truncate_def)
  have e: "int_of_long (- EACCES) = - EACCES"
    by (simp add: int_of_long_def)
  show ?thesis
    using run d1(2) done_serves [OF d1(2) links, of "- EACCES"] e by (cases "may a perms user grp") auto
qed

theorem candy_open_refines:
  fixes d :: "'x path_env_scheme"
  assumes s: "serves F Is d f G" and few: "few_refs 4 f" and see: "ns_see G user grp ns p n m" "m n = Some t"
    and t: "G t = Some (a, File bs)" and flags: "access_mode_of flags = Some perms"
  shows "\<exists>d'. candy_open d (entry_path ns n) flags user grp =
      Some (if may a perms user grp then (0, Some t, d') else (- EACCES, None, d')) \<and>
    serves F Is d' (if may a perms user grp then inc f t else f) G"
proof -
  obtain d1 where d1: "path_resolve d (entry_path ns n) True user grp = Some (t, d1)" "serves F Is d1 (inc f t) G" "\<not> sint t < 0"
    using resolve_serves [OF s few see, of True] t by auto
  show ?thesis
    by (rule open_resolved [OF d1 see_links(1) [OF s see] t flags])
qed

theorem candy_release_refines:
  fixes d :: "'x path_env_scheme"
  assumes s: "serves F Is d (inc f t) G" and t: "t \<in> dom G"
  shows "\<exists>d' F' Is'. candy_release d t = Some (0, d') \<and> serves F' Is' d' f (if f t = 0 then ns_forget t G else G)"
proof -
  note sv = servesD [OF s]
  obtain a x where x: "G t = Some (a, x)"
    using t by auto
  have links: "inlinks (inode_at d t) = 0 \<longleftrightarrow> links_of G t = 0"
    using representsD(3) [OF sv(1) x] x by (simp add: attr_of_def links_of_def unat_eq_0)
  obtain d' F' Is' A' where d': "close_ok d t = Some d'" "A' = (if inlinks (inode_at d t) = 0 \<and> f t = 0 then dom G - {t} else dom G)"
    "stepped (dom G - {t}) d F' Is' A' f d'" "t \<in> A' \<longrightarrow> inode_at d' t = inode_at d t \<and> content d' t = content d t"
    using close_ok_any [OF sv(4,3) t] by blast
  let ?G = "if f t = 0 then ns_forget t G else G"
  have dom: "dom ?G = A'"
    using links d'(2) by (auto simp: ns_forget_def)
  have st: "refs_inv d' F' Is' A'" "refs_of d' = f" "same_files (dom G - {t}) d d'" "open_path_table d' = open_path_table d"
    using d'(3) by (simp_all add: stepped_def)
  have "represents F' Is' d' ?G"
  proof (rule represents_step [OF sv(1) _ idle_table [OF sv(5) st(4)] st(3)])
    show "refs_inv d' F' Is' (dom ?G)"
      using st(1) dom by simp
    fix j c y assume j: "?G j = Some (c, y)"
    then have old: "G j = Some (c, y)"
      by (auto simp: ns_forget_def split: if_splits)
    show "j \<in> dom G - {t} \<and> G j = Some (c, y) \<or> c = attr_of (inode_at d' j) \<and> node_rep d' j y"
    proof (cases "j = t")
      case True
      then have "t \<in> A'"
        using j dom by blast
      then show ?thesis
        using d'(4) True representsD(3,4) [OF sv(1) old]
          node_rep_same [OF sv(4) st(1) t, of y] by simp
    qed (use old in auto)
  qed
  moreover have "ns_inv ?G"
    using sv(6) ns_forget_inv by simp
  ultimately have "serves F' Is' d' f ?G"
    using st(2) by (simp add: serves_def)
  moreover have "candy_release d t = Some (0, d')"
    using d'(1) by (simp add: candy_release_def done_inode_def)
  ultimately show ?thesis
    by blast
qed

end
