(* ===== verification/Fuse_Attr.thy ===== *)
theory Fuse_Attr
  imports Fuse_Files
begin

text \<open>
  The FUSE operations on attributes and times, on the file system as its users see it.
\<close>

section \<open>Metadata\<close>

lemma meta_serves:
  fixes d :: "'x path_env_scheme"
  assumes s: "serves F Is d f G" and t: "G t = Some (a, x)" and meta: "meta_result (dom G) t d d' F Is inode"
    and inode: "inlinks inode = inlinks (inode_at d t)" "imode inode AND S_IFMT = imode (inode_at d t) AND S_IFMT" "attr_of inode = g a"
  shows "serves F Is d' f (ns_attr t g G)"
proof -
  note sv = servesD [OF s] and ii = inode_read [OF s t]
  note st = meta_step [OF sv(4) meta inode(1)]
  have tdom: "t \<in> dom G"
    using t by blast
  have inv': "refs_inv d' F Is (dom G)"
    using st(1) by (simp add: stepped_def)
  have size: "fsize d' t = fsize d t"
    by (rule content_fsize [OF st(3) sv(4) inv' tdom tdom])
  have mode: "S_ISDIR (imode (inode_at d' t)) = S_ISDIR (imode (inode_at d t))" "S_ISREG (imode (inode_at d' t)) = S_ISREG (imode (inode_at d t))"
    "S_ISLNK (imode (inode_at d' t)) = S_ISLNK (imode (inode_at d t))"
    using inode(2) st(2) by (simp_all add: S_ISDIR_def S_ISREG_def S_ISLNK_def)
  have rep: "node_rep d' t x"
    using ii(3) st(3) mode size by (cases x) (auto simp: dir_rep_def dead_dir_def)
  have "a_links (g a) = a_links a"
    using inode(1) ii(2) unfolding inode(3) [symmetric] by (auto simp: attr_of_def)
  then have "(g a)\<lparr>a_links := a_links a\<rparr> = g a"
    by simp
  then have "ns_inv (G(t \<mapsto> (g a, x)))"
    using ns_attr_inv [of "\<lambda>b. (g a)\<lparr>a_links := a_links b\<rparr>" t G] sv(6) t by (simp add: ns_attr_def)
  then have "serves F Is d' (refs_of d) (G(t \<mapsto> (g a, x)))"
    using stepped_serves [OF s st(1) t _ rep, of "g a"] st(2) inode(3) by blast
  then show ?thesis
    using t sv(3) by (simp add: ns_attr_def)
qed

text \<open>After the change the reference to the inode is given back.\<close>

lemma meta_done:
  fixes d :: "'x path_env_scheme"
  assumes s: "serves F Is d (inc f t) G" and t: "G t = Some (a, x)" and links: "links_of G t \<noteq> 0" and meta: "meta_result (dom G) t d d' F Is inode"
    and inode: "inlinks inode = inlinks (inode_at d t)" "imode inode AND S_IFMT = imode (inode_at d t) AND S_IFMT" "attr_of inode = g a"
  shows "\<exists>d''. done_inode d' t 0 = Some (0, d'') \<and> serves F Is d'' f (ns_attr t g G)"
proof -
  have "a_links (g a) = a_links a"
    using inode(1) inode_read(2) [OF s t] unfolding inode(3) [symmetric] by (auto simp: attr_of_def)
  then have "links_of (ns_attr t g G) t \<noteq> 0"
    using links t by (simp add: ns_attr_def links_of_def)
  then show ?thesis
    using done_serves [OF meta_serves [where g = g, OF s t meta inode], of 0] by auto
qed

lemma refuse_done:
  fixes d :: "'x path_env_scheme"
  assumes "serves F Is d (inc f t) G" and "links_of G t \<noteq> 0"
  shows "\<exists>d'. done_inode d t (- EACCES) = Some (- EACCES, d') \<and> serves F Is d' f G"
proof -
  have "int_of_long (- EACCES) = - EACCES"
    by (simp add: int_of_long_def)
  then show ?thesis
    using done_serves [OF assms, of "- EACCES"] by simp
qed

section \<open>The operations\<close>

theorem candy_chmod_refines:
  fixes d :: "'x path_env_scheme"
  assumes s: "serves F Is d f G" and few: "few_refs 4 f" and see: "ns_see G user grp ns p n m" "m n = Some t"
    and t: "G t = Some (a, x)" "\<forall>bs. x \<noteq> Link bs"
  shows "if user = 0 \<or> user = a_owner a
    then \<exists>d'. candy_chmod d (entry_path ns n) mode user grp = Some (0, d') \<and> serves F Is d' f (ns_chmod t (mode AND 0xFFF) G)
    else \<exists>d'. candy_chmod d (entry_path ns n) mode user grp = Some (- EACCES, d') \<and> serves F Is d' f G"
proof -
  obtain d1 where d1: "path_resolve d (entry_path ns n) True user grp = Some (t, d1)" "serves F Is d1 (inc f t) G" "\<not> sint t < 0"
    using resolve_serves [OF s few see, of True] t by auto
  note ii = inode_read [OF d1(2) t(1)] and tdom = see_links(2) [OF s see] and links = see_links(1) [OF s see]
  have m: "(mode AND 0xFFF) AND 0xFFF = mode AND 0xFFF"
    by (simp add: and.assoc)
  have owner: "iowner (inode_at d1 t) = a_owner a"
    using ii(2) by (auto simp: attr_of_def)
  note chmod = perm_chmod_spec [OF ii(4) tdom, of "mode AND 0xFFF" user, unfolded owner]
  show ?thesis
  proof (cases "user = 0 \<or> user = a_owner a")
    case False
    then have "perm_chmod d1 t (mode AND 0xFFF) user = Some (- EACCES, d1)"
      using chmod m by simp
    then show ?thesis
      using False d1 refuse_done [OF d1(2) links] by (auto simp: candy_chmod_def with_inode'_def)
  next
    case True
    then obtain d2 where d2: "perm_chmod d1 t (mode AND 0xFFF) user = Some (0, d2)"
        "meta_result (dom G) t d1 d2 F Is ((inode_at d1 t)\<lparr>imode := imode (inode_at d2 t), last_statchange := fst (now d1)\<rparr>)"
        "imode (inode_at d2 t) AND 0xFFF = mode AND 0xFFF" "imode (inode_at d2 t) AND S_IFMT = imode (inode_at d1 t) AND S_IFMT"
      using chmod m by auto
    have "attr_of ((inode_at d1 t)\<lparr>imode := imode (inode_at d2 t), last_statchange := fst (now d1)\<rparr>) = a\<lparr>a_perm := mode AND 0xFFF\<rparr>"
      using ii(2) d2(3) by (auto simp: attr_of_def)
    then show ?thesis
      using True d1(1,3) d2(1) meta_done [where g = "\<lambda>a. a\<lparr>a_perm := mode AND 0xFFF\<rparr>", OF d1(2) t(1) links d2(2)] d2(4)
      by (auto simp: candy_chmod_def with_inode'_def ns_chmod_def)
  qed
qed

text \<open>Only the superuser changes the owner; \<open>-1\<close> leaves the owner or the group as it is.\<close>

definition set_owner :: "u32 \<Rightarrow> u32 \<Rightarrow> fattr \<Rightarrow> fattr" where
  "set_owner owner grp a = a\<lparr>a_owner := if owner = -1 then a_owner a else owner, a_group := if grp = -1 then a_group a else grp\<rparr>"

theorem candy_chown_refines:
  fixes d :: "'x path_env_scheme"
  assumes s: "serves F Is d f G" and few: "few_refs 4 f" and see: "ns_see G user grp ns p n m" "m n = Some t"
    and t: "G t = Some (a, x)" "\<forall>bs. x \<noteq> Link bs"
  shows "\<exists>d'. candy_chown d (entry_path ns n) owner gid user grp = Some (if user = 0 then 0 else - EACCES, d') \<and>
    serves F Is d' f (if user = 0 then ns_attr t (set_owner owner gid) G else G)"
proof -
  obtain d1 where d1: "path_resolve d (entry_path ns n) True user grp = Some (t, d1)" "serves F Is d1 (inc f t) G" "\<not> sint t < 0"
    using resolve_serves [OF s few see, of True] t by auto
  note ii = inode_read [OF d1(2) t(1)] and tdom = see_links(2) [OF s see] and links = see_links(1) [OF s see]
  note chown = perm_chown_spec [OF ii(4) tdom, of user owner gid]
  show ?thesis
  proof (cases "user = 0")
    case False
    then have "perm_chown d1 t user owner gid = Some (- EACCES, d1)"
      using chown by auto
    then show ?thesis
      using False d1 refuse_done [OF d1(2) links] by (auto simp: candy_chown_def with_inode'_def)
  next
    case True
    let ?inode = "(inode_at d1 t)\<lparr>iowner := (if owner = -1 then iowner (inode_at d1 t) else owner),
       igroup := (if gid = -1 then igroup (inode_at d1 t) else gid), last_statchange := fst (now d1)\<rparr>"
    obtain d2 where d2: "perm_chown d1 t user owner gid = Some (0, d2)" "meta_result (dom G) t d1 d2 F Is ?inode"
      using chown True by auto
    have "attr_of ?inode = set_owner owner gid a"
      using ii(2) by (auto simp: attr_of_def set_owner_def)
    then show ?thesis
      using True d1(1,3) d2(1) meta_done [where g = "set_owner owner gid", OF d1(2) t(1) links d2(2)] by (auto simp: candy_chown_def with_inode'_def)
  qed
qed

text \<open>Times are not part of what is represented.\<close>

theorem candy_utimens_refines:
  fixes d :: "'x path_env_scheme"
  assumes s: "serves F Is d f G" and few: "few_refs 4 f" and see: "ns_see G user grp ns p n m" "m n = Some t" and t: "G t = Some (a, x)"
  shows "\<exists>d'. candy_utimens d (entry_path ns n) atime mtime user grp =
      Some (if user = 0 \<or> user = a_owner a \<or> may a PERM_WRITE user grp then 0 else - EACCES, d') \<and> serves F Is d' f G"
proof -
  let ?ok = "user = 0 \<or> user = a_owner a \<or> may a PERM_WRITE user grp"
  obtain d1 where d1: "path_resolve d (entry_path ns n) False user grp = Some (t, d1)" "serves F Is d1 (inc f t) G" "\<not> sint t < 0"
    using resolve_serves [OF s few see, of False] t by auto
  note ii = inode_read [OF d1(2) t(1)] and tdom = see_links(2) [OF s see] and links = see_links(1) [OF s see]
  have "allowed (inode_at d1 t) PERM_UTIME user grp = ?ok"
    using may_allowed [of PERM_WRITE "inode_at d1 t" user grp] perm_not_utime ii(2) by (auto simp: allowed_def attr_of_def)
  then have check: "perm_check d1 t PERM_UTIME user grp = Some (if ?ok then 0 else - EACCES)"
    using perm_check_spec [OF ii(4) tdom, of PERM_UTIME user grp] by simp
  show ?thesis
  proof (cases ?ok)
    case False
    then show ?thesis
      using d1 check refuse_done [OF d1(2) links] by (auto simp: candy_utimens_def with_inode'_def)
  next
    case True
    obtain d2 inode where d2: "inode_utime d1 t (Some atime) (Some mtime) = Some (0, d2)" "meta_result (dom G) t d1 d2 F Is inode"
        "inlinks inode = inlinks (inode_at d1 t)" "imode inode AND S_IFMT = imode (inode_at d1 t) AND S_IFMT" "attr_of inode = a"
      using inode_utime_spec [OF ii(4) tdom, of "Some atime" "Some mtime"] ii(2) by (force simp: attr_of_def)
    have "ns_attr t (\<lambda>a. a) G = G"
      using t by (auto simp: ns_attr_def)
    then show ?thesis
      using True d1(1,3) check d2(1) meta_done [where g = "\<lambda>a. a", OF d1(2) t(1) links d2(2-5)] by (auto simp: candy_utimens_def with_inode'_def)
  qed
qed

definition wanted :: "u32 \<Rightarrow> u32" where
  "wanted flags = (if flags AND 4 \<noteq> 0 then PERM_READ else 0) OR (if flags AND 2 \<noteq> 0 then PERM_WRITE else 0) OR (if flags AND 1 \<noteq> 0 then PERM_EXEC else 0)"

theorem candy_access_refines:
  fixes d :: "'x path_env_scheme"
  assumes s: "serves F Is d f G" and few: "few_refs 4 f" and see: "ns_see G user grp ns p n m" "m n = Some t"
    and t: "G t = Some (a, x)" "\<forall>bs. x \<noteq> Link bs"
  shows "\<exists>d'. candy_access d (entry_path ns n) flags user grp = Some (if may a (wanted flags) user grp then 0 else - EACCES, d') \<and> serves F Is d' f G"
proof -
  obtain d1 where d1: "path_resolve d (entry_path ns n) True user grp = Some (t, d1)" "serves F Is d1 (inc f t) G" "\<not> sint t < 0"
    using resolve_serves [OF s few see, of True] t by auto
  note ii = inode_read [OF d1(2) t(1)] and tdom = see_links(2) [OF s see] and links = see_links(1) [OF s see]
  have perms: "wanted flags AND 7 = wanted flags" "wanted flags \<noteq> PERM_UTIME"
    by (simp_all add: wanted_def PERM_READ_def PERM_WRITE_def PERM_EXEC_def PERM_UTIME_def)
  have check: "perm_check d1 t (wanted flags) user grp = Some (if may a (wanted flags) user grp then 0 else - EACCES)"
    using perm_check_spec [OF ii(4) tdom, of "wanted flags" user grp] may_allowed [OF perms(2)] ii(2) perms(1) by metis
  have zero: "may a (wanted 0) user grp"
    by (simp add: may_def wanted_def)
  show ?thesis
    using d1 check zero refuse_done [OF d1(2) links] done_serves [OF d1(2) links, of 0]
    by (cases "flags = 0"; cases "may a (wanted flags) user grp") (auto simp: candy_access_def with_inode'_def wanted_def [symmetric])
qed

section \<open>Open files\<close>

theorem candy_ftruncate_refines:
  fixes d :: "'x path_env_scheme"
  assumes s: "serves F Is d f G" and t: "G t = Some (a, File bs)" and sz: "int sz \<le> MAX_FILESIZE" "enough d F t (int sz)"
  shows "\<exists>d' F'. candy_ftruncate d t (int sz) = Some (0, d') \<and> serves F' Is d' f (ns_file t (\<lambda>bs. truncate_bytes bs sz) G)"
proof -
  note ii = inode_read [OF s t]
  have c: "content d t = bs" "S_ISREG (imode (inode_at d t))" and tdom: "t \<in> dom G"
    using ii(3) t by auto
  obtain d2 F' where d2: "inode_truncate d t (int sz) = Some (int sz, d2)" "fs_result (dom G) t d d2 F' Is (dom G)"
      "content d2 t = truncate_bytes bs sz" "same_attr (inode_at d t) (inode_at d2 t)"
    using inode_truncate_spec [OF ii(4) tdom _ sz(1) disjI1 [OF sz(2)]] c(1) sz(2) by auto
  have "serves F' Is d2 f (ns_file t (\<lambda>bs. truncate_bytes bs sz) G)"
    by (rule file_result_serves [where g = "\<lambda>bs. truncate_bytes bs sz", OF s t d2(2,4,3)])
  moreover have "int_of_long 0 = 0"
    by (simp add: int_of_long_def)
  ultimately show ?thesis
    using d2(1) file_ops_regular(3) [OF ii(4) tdom c(2)] by (auto simp: candy_ftruncate_def truncate_result_def)
qed

end
