(* ===== verification/Dir_List.thy ===== *)
theory Dir_List
  imports Dir_Spec
begin

text \<open>
  Listing a directory: \<open>dir_enumerate\<close> takes an offset to the next entry and the offset after it,
  so that following the offsets lists every entry once.
\<close>

section \<open>Offsets\<close>

text \<open>The entries that an offset has still before it.\<close>

definition rest_at :: "dirent list list \<Rightarrow> nat \<Rightarrow> dirent list" where
  "rest_at ess off = (if off div 128 < length ess then drop (off mod 128) (ess ! (off div 128)) @ concat (drop (Suc (off div 128)) ess) else [])"

lemma rest_at_parts: "j < 128 \<Longrightarrow> rest_at ess (128 * k + j) = (if k < length ess then drop j (ess ! k) @ concat (drop (Suc k) ess) else [])"
  by (simp add: rest_at_def)

lemma rest_at_0: "rest_at ess 0 = concat ess"
  by (cases ess) (simp_all add: rest_at_def)

lemma concat_drop: "k < length ess \<Longrightarrow> concat (drop k ess) = ess ! k @ concat (drop (Suc k) ess)"
  by (simp only: Cons_nth_drop_Suc [symmetric] concat.simps)

text \<open>The entry at an offset, and what is before the next.\<close>

lemma rest_at_next:
  assumes "k < length ess" and "j < length (ess ! k)" and "length (ess ! k) \<le> 128"
  shows "rest_at ess (128 * k + j) = ess ! k ! j # rest_at ess (128 * k + j + 1)"
proof -
  have at: "rest_at ess (128 * k + j) = ess ! k ! j # drop (Suc j) (ess ! k) @ concat (drop (Suc k) ess)"
    using assms rest_at_parts [of j ess k] Cons_nth_drop_Suc [of j "ess ! k"] by simp
  have "rest_at ess (128 * k + (j + 1)) = drop (Suc j) (ess ! k) @ concat (drop (Suc k) ess)"
  proof (cases "j + 1 < 128")
    case True
    then show ?thesis
      using assms(1) rest_at_parts [of "j + 1" ess k] by simp
  next
    case False
    then have j: "j + 1 = 128" "length (ess ! k) = Suc j"
      using assms(2,3) by simp_all
    then have "128 * k + (j + 1) = 128 * Suc k + 0"
      by simp
    then have "rest_at ess (128 * k + (j + 1)) = rest_at ess (128 * Suc k + 0)"
      by (rule arg_cong)
    also have "\<dots> = concat (drop (Suc k) ess)"
      using rest_at_parts [of 0 ess "Suc k"] concat_drop [of "Suc k" ess] by (cases "Suc k < length ess") simp_all
    finally show ?thesis
      using j(2) by simp
  qed
  then show ?thesis
    using at by simp
qed

section \<open>The loop over the blocks\<close>

text \<open>The first entry at or after position \<open>j\<close> of block \<open>k\<close>.\<close>

definition found_at :: "dirent list list \<Rightarrow> nat \<Rightarrow> nat \<Rightarrow> (dir_map_block \<times> int \<times> nat) option \<Rightarrow> bool" where
  "found_at ess k j found \<longleftrightarrow>
    (case found of
       None \<Rightarrow> rest_at ess (128 * k + j) = []
     | Some (block, pos, j') \<Rightarrow> \<exists>k'. block = block_of (ess ! k') \<and> pos = int (k' * BLOCKSIZE) \<and> k' < length ess \<and> j' < length (ess ! k') \<and>
         128 * k + j \<le> 128 * k' + j' \<and> rest_at ess (128 * k + j) = rest_at ess (128 * k' + j'))"

lemma dir_enumerate_loop_spec:
  assumes "fs_inv d F Is A" and "i \<in> A" and "dir_rep d i ess" and "length buf = BLOCKSIZE" and "j < 128" and "k \<le> length ess"
  shows "\<exists>found d'. only_read A i d d' F Is \<and> dir_enumerate_loop i (int (k * BLOCKSIZE)) j buf d = Some (found, d') \<and> found_at ess k j found"
  using assms
proof (induction "length ess - k" arbitrary: k j buf d)
  case 0
  then obtain d' where "only_read A i d d' F Is" "inode_read d i (int (k * BLOCKSIZE)) buf BLOCKSIZE = Some (0, buf, d')"
    using dir_read_step [of d F Is A i ess buf k] by auto
  moreover have "rest_at ess (128 * k + j) = []"
    using 0 rest_at_parts [of j ess k] by simp
  ultimately show ?case
    by (subst dir_enumerate_loop.simps) (simp add: found_at_def)
next
  case (Suc m)
  note prems = Suc.prems
  have k: "k < length ess"
    using Suc.hyps(2) by simp
  obtain d1 where d1: "only_read A i d d1 F Is"
    "inode_read d i (int (k * BLOCKSIZE)) buf BLOCKSIZE = Some (BLOCKSIZE, enc_dir (block_of (ess ! k)), d1)"
    using dir_read_step [OF prems(1-4), of k] k by auto
  note block = dir_find_dec(1,2) [OF prems(3) k]
  note num = numbers_block [OF block(2) prems(5)]
  show ?case
  proof (cases "j < length (ess ! k)")
    case True
    then have "numbers (block_of (ess ! k)) ! j \<noteq> EOF"
      using num entries_ok_parts(1) [OF block(2)] by (simp add: entry_ok_def)
    then show ?thesis
      using d1 block True k by (subst dir_enumerate_loop.simps) (auto simp: found_at_def)
  next
    case False
    note rep1 = dir_rep_read [OF d1(1) prems(3)] and inv1 = only_read_inv [OF d1(1)]
    have "m = length ess - Suc k" "length (enc_dir (block_of (ess ! k))) = BLOCKSIZE" "(0 :: nat) < 128" "Suc k \<le> length ess"
      using Suc.hyps(2) block(2) by simp_all
    from Suc.hyps(1) [OF this(1) inv1 prems(2) rep1 this(2,3,4)]
    obtain found d' where d': "only_read A i d1 d' F Is" "dir_enumerate_loop i (int (Suc k * BLOCKSIZE)) 0 (enc_dir (block_of (ess ! k))) d1 = Some (found, d')"
        "found_at ess (Suc k) 0 found"
      by blast
    have "rest_at ess (128 * k + j) = rest_at ess (128 * Suc k + 0)"
      using False k prems(5) rest_at_parts [of j ess k] rest_at_parts [of 0 ess "Suc k"] concat_drop [of "Suc k" ess]
      by (cases "Suc k < length ess") simp_all
    moreover have "128 * k + j \<le> 128 * Suc k + 0"
      using prems(5) by simp
    ultimately have "found_at ess k j found"
      using d'(3) by (simp only: found_at_def) (fastforce split: option.splits)
    then show ?thesis
      using d' only_read_trans [OF d1(1) d'(1)] d1(2) block num False
      by (subst dir_enumerate_loop.simps) (simp add: add.commute)
  qed
qed

section \<open>The names of a block\<close>

lemma skip_names_eq:
  assumes "drop off nms = name_bytes es @ pad" and "\<forall>e \<in> set es. entry_ok e" and "j \<le> length es"
  shows "skip_names nms j off = Some (off + name_space (take j es))"
  using assms
proof (induction j arbitrary: es off)
  case (Suc j)
  then obtain e es' where es: "es = e # es'"
    by (cases es) auto
  have off: "drop off nms = fst e @ 0 # (name_bytes es' @ pad)" and e: "0 \<notin> set (fst e)"
    using Suc.prems(1,2) es by (simp_all add: entry_ok_def)
  have rest: "drop (off + length (fst e) + 1) nms = name_bytes es' @ pad"
    using arg_cong [OF off, of "drop (length (fst e) + 1)"] by (simp add: add.commute add.left_commute)
  show ?case
    using Suc.IH [OF rest] Suc.prems(2,3) strlen_at(1) [OF off e] es by simp
qed simp

lemma block_name:
  assumes "entries_ok es" and "j < length es"
  shows "skip_names (names (block_of es)) j 0 = Some (name_space (take j es))"
    "strlen (names (block_of es)) (name_space (take j es)) = Some (length (fst (es ! j)))"
    "n \<le> length (fst (es ! j)) \<Longrightarrow> slice (name_space (take j es)) n (names (block_of es)) = take n (fst (es ! j))"
proof -
  note ok = entries_ok_parts [OF assms(1)]
  let ?nms = "names (block_of es)" and ?off = "name_space (take j es)"
  have nms: "?nms = name_bytes es @ replicate (3072 - name_space es) 0"
    by (simp add: block_of_def)
  show "skip_names ?nms j 0 = Some ?off"
    using skip_names_eq [of 0 ?nms es "replicate (3072 - name_space es) 0" j] nms ok assms(2) by simp
  have split: "es = take j es @ es ! j # drop (Suc j) es"
    using assms(2) by (simp add: id_take_nth_drop [symmetric])
  have "name_bytes es = name_bytes (take j es) @ fst (es ! j) @ 0 # name_bytes (drop (Suc j) es)"
    using arg_cong [OF split, of name_bytes] by simp
  then have at: "drop ?off ?nms = fst (es ! j) @ 0 # (name_bytes (drop (Suc j) es) @ replicate (3072 - name_space es) 0)"
    unfolding nms by simp
  have "0 \<notin> set (fst (es ! j))"
    using ok(1) assms(2) by (simp add: entry_ok_def)
  then show "strlen ?nms ?off = Some (length (fst (es ! j)))"
    by (rule strlen_at(1) [OF at])
  show "slice ?off n ?nms = take n (fst (es ! j))" if "n \<le> length (fst (es ! j))"
    using at that by (simp add: slice_def)
qed

section \<open>One entry after another\<close>

lemma offset_words:
  assumes "off \<le> 128 * n" and "int (n * BLOCKSIZE) \<le> MAX_FILESIZE"
  shows "sint ((of_int (int off) :: u64) div 128 * 4096) = int (off div 128 * BLOCKSIZE)" "unat ((of_int (int off) :: u64) mod 128) = off mod 128"
proof -
  have le: "off div 128 * 4096 \<le> n * 4096"
    using assms(1) by simp
  then have small: "off < 2 ^ 64" "off div 128 * 4096 < 2 ^ 64"
    using assms by (simp_all add: MAX_FILESIZE_def)
  have off: "unat (of_int (int off) :: u64) = off"
    using small(1) by (simp add: unat_of_nat)
  have "unat ((of_int (int off) :: u64) div 128) = off div 128"
    using off by (simp only: unat_div) simp
  then have "unat ((of_int (int off) :: u64) div 128 * 4096) = off div 128 * 4096"
    using small(2) by (simp add: unat_word_ariths(2) del: of_int_of_nat_eq)
  then have "(of_int (int off) :: u64) div 128 * 4096 = of_int (int (off div 128 * 4096))"
    by (metis of_int_of_nat_eq of_nat_unat ucast_id)
  then show "sint ((of_int (int off) :: u64) div 128 * 4096) = int (off div 128 * BLOCKSIZE)"
    using sint_size [of "int (off div 128 * 4096)"] le assms(2) by simp
  show "unat ((of_int (int off) :: u64) mod 128) = off mod 128"
    using off by (simp add: unat_mod)
qed

theorem dir_enumerate_spec:
  assumes inv: "fs_inv d F Is A" and i: "i \<in> A" and rep: "dir_rep d i ess" and off: "off \<le> 128 * length ess"
  shows "\<exists>d'. only_read A i d d' F Is \<and>
    (case rest_at ess off of
       [] \<Rightarrow> dir_enumerate d i (int off) (NAME_MAX + 1) = Some (0, None, d')
     | e # es \<Rightarrow> \<exists>off'. off < off' \<and> off' \<le> 128 * length ess \<and> rest_at ess off' = es \<and>
         dir_enumerate d i (int off) (NAME_MAX + 1) = Some (int off', Some (snd e, take NAME_MAX (fst e)), d'))"
proof -
  let ?k = "off div 128" and ?j = "off mod 128"
  have "int (length ess * BLOCKSIZE) \<le> MAX_FILESIZE"
    using dir_rep_size [OF inv i rep] fs_inv_inode(8) [OF inv i] by simp
  note w = offset_words [OF off this]
  have k: "?k \<le> length ess" "?j < 128" "128 * ?k + ?j = off"
    using off by simp_all
  obtain found d' where l: "only_read A i d d' F Is" "dir_enumerate_loop i (int (?k * BLOCKSIZE)) ?j (uninit d BLOCKSIZE) d = Some (found, d')"
      "found_at ess ?k ?j found"
    using dir_enumerate_loop_spec [OF inv i rep _ k(2,1), of "uninit d BLOCKSIZE"] by auto
  note check = dir_check_dir [OF inv i rep, of False]
  show ?thesis
  proof (cases found)
    case None
    then have "rest_at ess off = []"
      using l(3) k(3) by (simp add: found_at_def)
    moreover have "dir_enumerate d i (int off) (NAME_MAX + 1) = Some (0, None, d')"
      using l(2) w check None by (simp add: dir_enumerate_def Let_def)
    ultimately show ?thesis
      using l(1) by auto
  next
    case (Some r)
    then obtain k' j' where r: "r = (block_of (ess ! k'), int (k' * BLOCKSIZE), j')" "k' < length ess" "j' < length (ess ! k')"
        "rest_at ess off = rest_at ess (128 * k' + j')" "off \<le> 128 * k' + j'"
      using l(3) k(3) by (auto simp: found_at_def split: option.splits prod.splits)
    note block = dir_find_dec(1,2) [OF rep r(2)]
    have len: "length (ess ! k') \<le> 128"
      using entries_ok_parts(2) [OF block(2)] .
    let ?e = "ess ! k' ! j'" and ?off' = "128 * k' + j' + 1"
    have rest: "rest_at ess off = ?e # rest_at ess ?off'"
      using rest_at_next [OF r(2,3) len] r(4) by simp
    note name = block_name [OF block(2) r(3)]
    have num: "numbers (block_of (ess ! k')) ! j' = snd ?e"
      using numbers_block [OF block(2), of j'] r(3) len by simp
    have "dir_enumerate d i (int off) (NAME_MAX + 1) = Some (int ?off', Some (snd ?e, take NAME_MAX (fst ?e)), d')"
      using l(2) w check Some r(1) name(1,2) name(3) [of "min (length (fst ?e)) NAME_MAX"] num
      by (auto simp: dir_enumerate_def Let_def min_def)
    moreover have "off < ?off'"
      using r(5) by simp
    moreover have "?off' \<le> 128 * length ess"
      using r(2,3) len by simp
    ultimately have "\<exists>off'. off < off' \<and> off' \<le> 128 * length ess \<and> rest_at ess off' = rest_at ess ?off' \<and>
        dir_enumerate d i (int off) (NAME_MAX + 1) = Some (int off', Some (snd ?e, take NAME_MAX (fst ?e)), d')"
      by blast
    then show ?thesis
      using l(1) by (simp only: rest list.case) blast
  qed
qed

end
