(* ===== verification/Fuse_List.thy ===== *)
theory Fuse_List
  imports Dir_List Fuse_Files
begin

text \<open>
  Listing an open directory: \<open>readdir\<close> hands the entries to FUSE, each once and with the offset of
  the next, until FUSE's buffer is full.
\<close>

section \<open>What is handed over\<close>

text \<open>The entries from offset \<open>off\<close> on, and after each the offset where the listing goes on.\<close>

fun listing :: "dirent list list \<Rightarrow> nat \<Rightarrow> (byte list \<times> int) list \<Rightarrow> bool" where
  "listing ess off [] \<longleftrightarrow> True"
| "listing ess off ((n, o') # l) \<longleftrightarrow> (\<exists>e es off'. rest_at ess off = e # es \<and> n = take NAME_MAX (fst e) \<and>
     o' = int off' \<and> off' \<le> 128 * length ess \<and> rest_at ess off' = es \<and> listing ess off' l)"

lemma listing_length: "listing ess off l \<Longrightarrow> length l \<le> length (rest_at ess off)"
  by (induction ess off l rule: listing.induct) auto

lemma listing_names: "listing ess off l \<Longrightarrow> map fst l = map (take NAME_MAX \<circ> fst) (take (length l) (rest_at ess off))"
  by (induction ess off l rule: listing.induct) auto

lemma listing_next:
  assumes "listing ess off l" and "l \<noteq> []"
  shows "\<exists>off'. snd (last l) = int off' \<and> off' \<le> 128 * length ess \<and> rest_at ess off' = drop (length l) (rest_at ess off)"
  using assms
proof (induction ess off l rule: listing.induct)
  case (2 ess off n o' l)
  then obtain e off' where "rest_at ess off = e # rest_at ess off'" "o' = int off'" "off' \<le> 128 * length ess" "listing ess off' l"
    by auto
  then show ?case
    using 2(1) by (cases "l = []") auto
qed simp

theorem candy_readdir_spec:
  fixes d :: "'x path_env_scheme"
  assumes "fs_inv d F Is A" and "i \<in> A" and "dir_rep d i ess" and "off \<le> 128 * length ess"
  shows "\<exists>listed d'. candy_readdir d filler (int off) i out = Some (0, out @ listed, d') \<and> only_read A i d d' F Is \<and> listing ess off listed \<and>
    ((\<forall>l. filler l) \<longrightarrow> length listed = length (rest_at ess off))"
  using assms
proof (induction "128 * length ess - off" arbitrary: d off out rule: less_induct)
  case less
  note e = dir_enumerate_spec [OF less.prems]
  show ?case
  proof (cases "rest_at ess off")
    case Nil
    then obtain d' where d': "only_read A i d d' F Is" "dir_enumerate d i (int off) (NAME_MAX + 1) = Some (0, None, d')"
      using e by auto
    have "candy_readdir d filler (int off) i out = Some (0, out @ [], d')"
      by (subst candy_readdir.simps) (simp add: d'(2) [simplified])
    then show ?thesis
      using d'(1) Nil listing.simps(1) by fastforce
  next
    case (Cons x es)
    then obtain off' d1 where d1: "only_read A i d d1 F Is" "off < off'" "off' \<le> 128 * length ess" "rest_at ess off' = es"
        "dir_enumerate d i (int off) (NAME_MAX + 1) = Some (int off', Some (snd x, take NAME_MAX (fst x)), d1)"
      using e by auto
    let ?out = "out @ [(take NAME_MAX (fst x), int off')]"
    have "candy_readdir d filler (int off) i out = (if filler ?out then candy_readdir d1 filler (int off') i ?out else Some (0, ?out, d1))"
      using d1(2) by (subst candy_readdir.simps) (simp add: d1(5) [simplified])
    moreover have "128 * length ess - off' < 128 * length ess - off"
      using d1(2,3) by simp
    from less.hyps [OF this only_read_inv [OF d1(1)] less.prems(2) dir_rep_read [OF d1(1) less.prems(3)] d1(3), of ?out]
    obtain l d2 where l: "candy_readdir d1 filler (int off') i ?out = Some (0, ?out @ l, d2)" "only_read A i d1 d2 F Is" "listing ess off' l"
        "(\<forall>l. filler l) \<longrightarrow> length l = length (rest_at ess off')"
      by blast
    have one: "listing ess off ((take NAME_MAX (fst x), int off') # l')" if "listing ess off' l'" for l'
      using Cons d1(3,4) that by auto
    show ?thesis
    proof (cases "filler ?out")
      case True
      then have "candy_readdir d filler (int off) i out = Some (0, out @ (take NAME_MAX (fst x), int off') # l, d2)"
        using calculation l(1) by simp
      moreover have "length ((take NAME_MAX (fst x), int off') # l) = length (rest_at ess off)" if "\<forall>l. filler l"
        using that l(4) Cons d1(4) by simp
      ultimately show ?thesis
        using only_read_trans [OF d1(1) l(2)] one [OF l(3)] by blast
    next
      case False
      then have "candy_readdir d filler (int off) i out = Some (0, out @ [(take NAME_MAX (fst x), int off')], d1)"
        using calculation by simp
      then show ?thesis
        using d1(1) one [of "[]"] False by auto
    qed
  qed
qed

section \<open>Open directories\<close>

lemma only_read_serves:
  fixes d :: "'x path_env_scheme"
  assumes s: "serves F Is d f G" and i: "G i = Some (a, x)" and r: "only_read (dom G) i d d' F Is"
  shows "serves F Is d' f G"
proof -
  note sv = servesD [OF s] and ii = inode_read [OF s i]
  have r': "fs_result (dom G) i d d' F Is (dom G)" "content d' i = content d i" "fsize d' i = fsize d i" "same_attr (inode_at d i) (inode_at d' i)"
    using r by (simp_all add: only_read_def)
  have "attr_of (inode_at d' i) = a" "node_rep d' i x"
    using ii(2,3) attr_of_same [OF r'(4)] r' by (cases x; auto simp: same_attr_def dir_rep_def dead_dir_def)+
  moreover have "ns_inv (G(i \<mapsto> (a, x)))" "G(i \<mapsto> (a, x)) = G"
    using sv(6) i by (simp_all add: fun_upd_idem)
  ultimately show ?thesis
    using stepped_serves [OF s result_stepped [OF sv(4) r'(1,4) subset_refl] i, of a x] unfolding sv(3) by metis
qed

theorem candy_readdir_refines:
  fixes d :: "'x path_env_scheme"
  assumes s: "serves F Is d f G" and i: "dir_of G i = Some m" and short: "\<forall>n \<in> dom m. length n \<le> NAME_MAX"
  shows "\<exists>listed d'. candy_readdir d (\<lambda>_. True) 0 i [] = Some (0, listed, d') \<and> serves F Is d' f G \<and>
    distinct (map fst listed) \<and> set (map fst listed) = dom m"
proof -
  obtain a where g: "G i = Some (a, Dir m)"
    using i by (auto simp: dir_of_eq)
  note ii = inode_read [OF s g]
  obtain ess where ess: "dir_rep d i ess" "dir_map ess = m"
    using ii(3) by auto
  have "i \<in> dom G" "0 \<le> 128 * length ess"
    using g by auto
  from candy_readdir_spec [OF ii(4) this(1) ess(1) this(2), of "\<lambda>_. True" "[]"]
  obtain listed d' where l: "candy_readdir d (\<lambda>_. True) 0 i [] = Some (0, listed, d')" "only_read (dom G) i d d' F Is" "listing ess 0 listed"
      "length listed = length (concat ess)"
    by (auto simp: rest_at_0)
  have dom: "dom m = fst ` set (concat ess)"
    using ess(2) by (metis dom_map_of_conv_image_fst)
  then have "map (take NAME_MAX \<circ> fst) (concat ess) = map fst (concat ess)"
    using short by (intro map_cong) auto
  then have "map fst listed = map fst (concat ess)"
    using listing_names [OF l(3)] l(4) by (simp add: rest_at_0)
  moreover have "distinct (map fst (concat ess))"
    using ess(1) by (simp add: dir_rep_def dir_ok_def)
  ultimately have "distinct (map fst listed)" "set (map fst listed) = dom m"
    using dom by simp_all
  then show ?thesis
    using l(1) only_read_serves [OF s g l(2)] by blast
qed

theorem candy_opendir_refines:
  fixes d :: "'x path_env_scheme"
  assumes s: "serves F Is d f G" and few: "few_refs 4 f" and see: "ns_see G user grp ns p n m" "m n = Some t"
    and t: "G t = Some (a, Dir k)" and flags: "access_mode_of flags = Some perms"
  shows "\<exists>d'. candy_opendir d (entry_path ns n) flags user grp =
      Some (if may a perms user grp then (0, Some t, d') else (- EACCES, None, d')) \<and>
    serves F Is d' (if may a perms user grp then inc f t else f) G"
proof -
  obtain d1 where d1: "path_resolve d (entry_path ns n) True user grp = Some (t, d1)" "serves F Is d1 (inc f t) G" "\<not> sint t < 0"
    using resolve_serves [OF s few see, of True] t by auto
  note ii = inode_read [OF d1(2) t] and tdom = see_links(2) [OF s see]
  have c: "S_ISDIR (imode (inode_at d1 t))"
    using ii(3) by (auto simp: dir_rep_def)
  have perms: "perms AND 7 = perms" "perms \<noteq> PERM_UTIME"
    using flags by (auto simp: access_mode_of_def PERM_READ_def PERM_WRITE_def PERM_UTIME_def split: if_splits)
  then have check: "perm_check d1 t perms user grp = Some (if may a perms user grp then 0 else - EACCES)"
    using perm_check_spec [OF ii(4) tdom, of perms user grp] may_allowed [OF perms(2)] ii(2) by metis
  have run: "candy_opendir d (entry_path ns n) flags user grp =
      (if may a perms user grp then Some (0, Some t, d1) else do { (res, d) \<leftarrow> done_inode d1 t (- EACCES); Some (res, None, d) })"
    using d1(1,3) ii(1) c flags check
    by (simp add: candy_opendir_def open_with_def with_inode_def getinfo_ok_def inode_info.truncate_def)
  have e: "int_of_long (- EACCES) = - EACCES"
    by (simp add: int_of_long_def)
  show ?thesis
    using run d1(2) done_serves [OF d1(2) see_links(1) [OF s see], of "- EACCES"] e by (cases "may a perms user grp") auto
qed

section \<open>Symbolic links\<close>

theorem candy_readlink_refines:
  fixes d :: "'x path_env_scheme"
  assumes s: "serves F Is d f G" and few: "few_refs 4 f" and see: "ns_see G user grp ns p n m" "m n = Some t"
    and t: "G t = Some (a, node.Link bs)" and buf: "buf \<noteq> []" and small: "length buf < 2 ^ 31"
  shows "\<exists>out d'. candy_readlink d (entry_path ns n) buf user grp = Some (0, out, d') \<and> serves F Is d' f G \<and> length out = length buf \<and>
    (let k = min (length buf - 1) (length bs) in take (k + 1) out = take k bs @ [0])"
proof -
  obtain d1 where d1: "path_resolve d (entry_path ns n) False user grp = Some (t, d1)" "serves F Is d1 (inc f t) G" "\<not> sint t < 0"
    using resolve_serves [OF s few see, of False] by auto
  note ii = inode_read [OF d1(2) t] and tdom = see_links(2) [OF s see]
  let ?n = "length buf - 1" and ?k = "min (length buf - 1) (length bs)"
  obtain d2 where d2: "symlink_read d1 t buf (int ?n) = Some (of_nat ?k, read_bytes bs 0 ?n buf, d2)" "only_read (dom G) t d1 d2 F Is"
    using symlink_read_spec [OF ii(4) tdom, of ?n buf] ii(3) by auto
  have k: "sint (of_nat ?k :: ino) = int ?k" "unat (of_nat ?k :: ino) = ?k"
  proof -
    have "?k < 2 ^ 31"
      using small by simp
    then show "sint (of_nat ?k :: ino) = int ?k" "unat (of_nat ?k :: ino) = ?k"
      using sint_size [of "int ?k"] by (simp_all add: unat_of_nat)
  qed
  obtain d3 where d3: "done_inode d2 t 0 = Some (0, d3)" "serves F Is d3 f G"
    using done_serves [OF only_read_serves [OF d1(2) t d2(2)] see_links(1) [OF s see], of 0] by auto
  have n: "int (length buf) - 1 = int ?n" "?k < length buf" "\<not> length buf \<le> length buf - Suc 0"
    using buf by (cases buf; simp)+
  have out: "read_bytes bs 0 ?n buf = take ?k bs @ drop ?k buf"
    by (cases "?n \<le> length bs") (simp_all add: read_bytes_def slice_def)
  have "candy_readlink d (entry_path ns n) buf user grp = Some (0, (read_bytes bs 0 ?n buf)[?k := 0], d3)"
    using d1(1,3) d2(1) d3(1) k n unfolding candy_readlink_def with_inode_def n(1) out by simp
  moreover have "take (?k + 1) ((read_bytes bs 0 ?n buf)[?k := 0]) = take ?k bs @ [0]" "length ((read_bytes bs 0 ?n buf)[?k := 0]) = length buf"
    using n(2) unfolding out by (simp_all add: list_update_append drop_update_cancel take_Suc_conv_app_nth)
  ultimately show ?thesis
    using d3(2) by (simp add: Let_def)
qed

end
