(* ===== verification/Fuse_Errors.thy ===== *)
theory Fuse_Errors
  imports Fuse_Files
begin

text \<open>What the FUSE operations report, and what they leave behind when they refuse.\<close>

section \<open>Attributes\<close>

definition node_stat :: "node \<Rightarrow> stat \<Rightarrow> bool" where
  "node_stat x st = (case x of
      File bs \<Rightarrow> S_ISREG (st_mode st) \<and> st_size st = int (length bs)
    | Link bs \<Rightarrow> S_ISLNK (st_mode st) \<and> st_size st = int (length bs)
    | _ \<Rightarrow> S_ISDIR (st_mode st))"

theorem candy_getattr_refines:
  fixes d :: "'x path_env_scheme"
  assumes s: "serves F Is d f G" and few: "few_refs 4 f" and see: "ns_see G user grp ns p n m" "m n = Some t" and t: "G t = Some (a, x)"
  shows "\<exists>st d'. candy_getattr d (entry_path ns n) user grp = Some (0, Some st, d') \<and> serves F Is d' f G \<and>
    st_ino st = t \<and> st_mode st AND 0xFFF = a_perm a \<and> st_nlink st = a_links a \<and> st_uid st = a_owner a \<and> st_gid st = a_group a \<and>
    node_stat x st \<and> st_size st = int (length (content d t)) \<and> st_blocks st = blockcount_of (st_size st)"
proof -
  note sv = servesD [OF s] and seen = ns_seen [OF s few see(1)] and ii = inode_read [OF s t]
  obtain st d' where st: "candy_getattr d (entry_path ns n) user grp = Some (0, Some st, d')" "finished (dom G) d F Is (dom G) d'"
    "st_ino st = t" "st_mode st = imode (inode_at d t)" "st_nlink st = inlinks (inode_at d t)"
    "st_uid st = iowner (inode_at d t)" "st_gid st = igroup (inode_at d t)" "st_size st = int (length (content d t))" "st_blocks st = blockcount_of (st_size st)"
    using candy_getattr_found [OF sv(5) seen(1,2) _ seen(4) seen(5) [OF see(2)]] seen(3) see(2) by auto
  have "node_stat x st"
    using ii(3) st(4,8) by (cases x) (auto simp: node_stat_def dir_rep_def dead_dir_def)
  moreover have "a_perm a = st_mode st AND 0xFFF" "a_owner a = st_uid st" "a_group a = st_gid st" "a_links a = st_nlink st"
    using ii(2) st(4-7) by (auto simp: attr_of_def)
  ultimately show ?thesis
    using st(1,3,8,9) finished_serves [OF s st(2)] by auto
qed

text \<open>
  Nothing is found under a name that the last directory does not have, or if the caller may not
  search that directory: the result is \<open>-ENOENT\<close> in both cases.
\<close>

definition ns_hidden :: "namespace \<Rightarrow> u32 \<Rightarrow> u32 \<Rightarrow> byte list list \<Rightarrow> ino \<Rightarrow> byte list \<Rightarrow> bool" where
  "ns_hidden G user grp ns p n \<longleftrightarrow> walk G user grp 0 ns = Some p \<and> good_name n \<and>
     (\<exists>b m. G p = Some (b, Dir m) \<and> (may b PERM_EXEC user grp \<longrightarrow> m n = None))"

lemma ns_hidden_facts:
  assumes s: "serves F Is d f G" and few: "few_refs 4 f" and hidden: "ns_hidden G user grp ns p n"
  shows "resolvable F Is (dom G) d (caller user grp) ns p" "may_search d (caller user grp) p \<Longrightarrow> dir_entry d p n None" "good_name n"
proof -
  obtain b m where p: "walk G user grp 0 ns = Some p" "good_name n" "G p = Some (b, Dir m)" "may b PERM_EXEC user grp \<longrightarrow> m n = None"
    using hidden by (auto simp: ns_hidden_def)
  note entry = ns_dir_entry [OF servesD(1) [OF s] p(3)]
  show "resolvable F Is (dom G) d (caller user grp) ns p"
    by (rule ns_resolvable [OF s few p(1)])
  show "dir_entry d p n None" if "may_search d (caller user grp) p"
    using that entry(1) [of n] entry(2) [of user grp] p(4) by simp
  show "good_name n"
    by (rule p(2))
qed

theorem candy_getattr_missing:
  fixes d :: "'x path_env_scheme"
  assumes s: "serves F Is d f G" and few: "few_refs 4 f" and hidden: "ns_hidden G user grp ns p n"
  shows "\<exists>d'. candy_getattr d (entry_path ns n) user grp = Some (- ENOENT, None, d') \<and> serves F Is d' f G"
  using candy_getattr_absent [OF servesD(5) [OF s] ns_hidden_facts [OF assms]] finished_serves [OF s] by blast

text \<open>But if the name is not the last of the path, the program ends.\<close>

theorem candy_getattr_missing_dir:
  fixes d :: "'x path_env_scheme"
  assumes "serves F Is d f G" and "few_refs 4 f" and "ns_hidden G user grp ns p n"
  shows "candy_getattr d (entry_path ns (n @ SLASH # rest)) user grp = None"
  by (rule candy_getattr_aborts [OF ns_hidden_facts [OF assms]])

section \<open>Refusals\<close>

theorem candy_mkdir_refuses:
  fixes d :: "'x path_env_scheme"
  assumes s: "serves F (i # Is) d f G" and few: "few_refs 4 f" and at: "ns_at G user grp ns p n m" and taken: "m n = Some t"
    and mode: "mode AND 0xFFF = mode" and user: "user \<noteq> -1" "grp \<noteq> -1" and room: "2 \<le> card F"
  shows "\<exists>d' F' Is'. candy_mkdir d (entry_path ns n) mode user grp = Some (- EEXIST, d') \<and> serves F' Is' d' f G"
proof -
  note sv = servesD [OF s]
  obtain ess where ess: "caller_at F (i # Is) (dom G) d user grp ns p n ess" "dir_map ess = m"
    using ns_caller [OF sv(1,2) _ at] few sv(3) by blast
  have "dir_map ess n = Some t" "linked d (dom G) t"
    using taken ess(2) ns_at_linked [OF s at taken] by simp_all
  then show ?thesis
    using candy_mkdir_exists [OF ess(1) _ _ mode user room] finished_serves [OF s] by blast
qed

text \<open>\<open>unlink\<close> of a directory is refused, but the directory stays open for ever.\<close>

theorem candy_unlink_leaks:
  fixes d :: "'x path_env_scheme"
  assumes s: "serves F Is d f G" and few: "few_refs 4 f" and at: "ns_at G user grp ns p n m" and entry: "m n = Some t" "is_dir G t"
  shows "\<exists>d'. candy_unlink d (entry_path ns n) user grp = Some (- EPERM, d') \<and> serves F Is d' (inc f t) G"
proof -
  note sv = servesD [OF s]
  obtain ess where ess: "caller_at F Is (dom G) d user grp ns p n ess" "dir_map ess = m"
    using ns_caller [OF sv(1,2) _ at] few sv(3) by blast
  have lt: "linked d (dom G) t" and tA: "t \<in> dom G"
    using ns_at_linked [OF s at entry(1)] by (simp_all add: linked_def)
  obtain h d1 where h: "opened F Is (dom G) d p n h d1" "\<forall>f. with_path d (entry_path ns n) user grp f = f d1 (int h)"
      "at_entry d1 (dom G) (int h) p n ess" "few_refs 3 (refs_of d1)"
    using caller_opened [OF ess(1)] entry(1) ess(2) lt by blast
  note f = opened_facts [OF sv(5) h(1)]
  obtain a mt where t: "G t = Some (a, Dir mt)"
    using entry(2) by (auto simp: is_dir_eq)
  have "same_attr (inode_at d t) (inode_at d1 t)"
    using f(3) tA by (simp add: same_files_def)
  then have dir: "S_ISDIR (imode (inode_at d1 t))"
    using representsD(4) [OF sv(1) t] by (auto simp: dir_rep_def same_attr_def)
  have "few_refs 1 (refs_of d1)" "dir_map ess n = Some t"
    using few_refs_mono [OF h(4)] entry(1) ess(2) by simp_all
  then obtain d2 where d2: "path_unlink d1 (int h) user grp = Some (- EPERM, d2)" "stepped (dom G) d1 F Is (dom G) (inc (refs_of d1) t) d2"
    using path_unlink_leaks [OF f(1) h(3) _ tA dir] by blast
  have s2: "refs_inv d2 F Is (dom G)" "open_path_table d2 = open_path_table d1" "refs_of d2 = inc (inc f t) p" "same_files (dom G) d1 d2"
    using d2(2) f(2) sv(3) by (simp_all add: stepped_def inc_commute)
  have res: "resolvable F Is (dom G) d (caller user grp) ns p"
    using ess(1) by (simp add: caller_at_def)
  have "linked d2 (dom G) p"
    by (rule linked_files [OF s2(4) subset_refl linked_files [OF f(3) subset_refl resolvable_linked(2) [OF res]]])
  then obtain d3 where d3: "done_path d2 (int h) (- EPERM) = Some (- EPERM, d3)" "refs_inv d3 F Is (dom G)" "refs_of d3 = inc f t"
      "same_files (dom G) d2 d3" "idle d3"
    using done_path_close [OF sv(5) h(1) s2(1-3), of "- EPERM" "- EPERM"] by auto
  have "represents F Is d3 G"
    by (rule represents_step [OF sv(1) d3(2,5) same_files_trans [OF f(3) same_files_trans [OF s2(4) d3(4)]]]) auto
  then have "serves F Is d3 (inc f t) G"
    using d3(3) sv(6) by (simp add: serves_def)
  moreover have "candy_unlink d (entry_path ns n) user grp = Some (- EPERM, d3)"
    using h(2) d2(1) d3(1) by (simp add: candy_unlink_def)
  ultimately show ?thesis
    by blast
qed

end
