(* ===== verification/Fuse_Refused.thy ===== *)
theory Fuse_Refused
  imports Fuse_Attr Fuse_List Fuse_Errors
begin

text \<open>Operations that are refused: no space, a bad argument, or a name that is not there.\<close>

section \<open>No space\<close>

lemma untouched_serves:
  fixes d :: "'x path_env_scheme"
  assumes s: "serves F Is d f G" and step: "stepped (dom G) d F' Is' (dom G) f' d'"
  shows "serves F' Is' d' f' G"
proof -
  note sv = servesD [OF s]
  have st: "refs_inv d' F' Is' (dom G)" "refs_of d' = f'" "open_path_table d' = open_path_table d" "same_files (dom G) d d'"
    using step by (simp_all add: stepped_def)
  have "represents F' Is' d' G"
    by (rule represents_step [OF sv(1) st(1) idle_table [OF sv(5) st(3)] st(4)]) auto
  then show ?thesis
    using st(2) sv(6) by (simp add: serves_def)
qed

theorem candy_mkdir_no_space:
  fixes d :: "'x path_env_scheme"
  assumes s: "serves F Is d f G" and few: "few_refs 4 f" and at: "ns_at G user grp ns p n m" and full: "card F < 2 \<or> Is = []"
  shows "\<exists>d'. candy_mkdir d (entry_path ns n) mode user grp = Some (- ENOSPC, d') \<and> serves F Is d' f G"
proof -
  note sv = servesD [OF s]
  obtain ess where ess: "caller_at F Is (dom G) d user grp ns p n ess" "dir_map ess = m"
    using ns_caller [OF sv(1,2) _ at] few sv(3) by blast
  have "dir_map ess n = None \<or> (\<exists>t. dir_map ess n = Some t \<and> linked d (dom G) t)"
    using ess(2) ns_at_linked [OF s at] by (cases "m n") auto
  then show ?thesis
    using candy_mkdir_full [OF ess(1) _ full] finished_serves [OF s] by blast
qed

theorem candy_create_no_space:
  fixes d :: "'x path_env_scheme"
  assumes s: "serves F Is d f G" and mode: "S_ISREG mode" and full: "F = {} \<or> Is = []"
  shows "\<exists>d'. candy_create d path mode user grp = Some (- ENOSPC, None, d') \<and> serves F Is d' f G"
proof -
  note sv = servesD [OF s]
  obtain d1 where d1: "file_create d = Some (of_int (- ENOSPC), d1)" "stepped (dom G) d F Is (dom G) f d1"
    using file_create_full [OF refs_inv_fs(1) [OF sv(4)] full] unchanged_stepped [OF sv(4)] sv(3) by blast
  then show ?thesis
    using mode untouched_serves [OF s d1(2)] by (simp add: candy_create_def int_of_ino_def)
qed

theorem candy_symlink_no_space:
  fixes d :: "'x path_env_scheme"
  assumes s: "serves F Is d f G" and target: "target \<noteq> []" "length target \<le> PATH_MAX - 1" and full: "card F < 2 \<or> Is = []"
  shows "\<exists>d'. candy_symlink d target path user grp = Some (- ENOSPC, d') \<and> serves F Is d' f G"
proof -
  note sv = servesD [OF s]
  obtain d1 where d1: "symlink_create d target = Some (of_int (- ENOSPC), d1)" "stepped (dom G) d F Is (dom G) f d1"
    using symlink_create_full [OF refs_inv_fs(1) [OF sv(4)] full target] unchanged_stepped [OF sv(4)] sv(3) by blast
  then show ?thesis
    using untouched_serves [OF s d1(2)] by (simp add: candy_symlink_def int_of_ino_def)
qed

section \<open>Bad arguments\<close>

lemma candy_create_irregular: "\<not> S_ISREG mode \<Longrightarrow> candy_create d path mode user grp = Some (- EINVAL, None, d)"
  by (simp add: candy_create_def)

lemma candy_symlink_long: "target = [] \<or> PATH_MAX - 1 < length target \<Longrightarrow> candy_symlink d target path user grp = Some (- ENAMETOOLONG, d)"
  by (auto simp: candy_symlink_def symlink_create_def Let_def int_of_ino_def)

section \<open>Names that are not there\<close>

lemma resolve_missing:
  fixes d :: "'x path_env_scheme"
  assumes s: "serves F Is d f G" and few: "few_refs 4 f" and hidden: "ns_hidden G user grp ns p n"
  obtains d' where "path_resolve d (entry_path ns n) deref user grp = Some (of_int (- ENOENT), d')" "serves F Is d' f G"
proof -
  obtain d' where "path_resolve d (entry_path ns n) deref user grp = Some (of_int (- ENOENT), d')" "quiet F Is (dom G) d (refs_of d) d'"
    using path_resolve_absent [OF ns_hidden_facts [OF assms], of deref] by (auto simp: entry_path_def)
  then show thesis
    using that quiet_serves [OF s] servesD(3) [OF s] by blast
qed

lemma with_inode_missing:
  fixes d :: "'x path_env_scheme"
  assumes "serves F Is d f G" and "few_refs 4 f" and "ns_hidden G user grp ns p n"
  shows "\<exists>d'. (\<forall>h. with_inode' d (entry_path ns n) deref user grp h = Some (- ENOENT, d')) \<and>
    (\<forall>r0 h. with_inode d (entry_path ns n) deref user grp r0 h = Some (- ENOENT, r0, d')) \<and> serves F Is d' f G"
proof -
  obtain d' where d': "path_resolve d (entry_path ns n) deref user grp = Some (of_int (- ENOENT), d')" "serves F Is d' f G"
    using resolve_missing [OF assms] .
  then show ?thesis
    by (intro exI [of _ d']) (simp add: with_inode_def with_inode'_def int_of_ino_def)
qed

theorem candy_missing:
  fixes d :: "'x path_env_scheme"
  assumes s: "serves F Is d f G" and few: "few_refs 4 f" and hidden: "ns_hidden G user grp ns p n"
  shows "\<exists>d'. candy_chmod d (entry_path ns n) mode user grp = Some (- ENOENT, d') \<and> serves F Is d' f G"
    "\<exists>d'. candy_chown d (entry_path ns n) owner gid user grp = Some (- ENOENT, d') \<and> serves F Is d' f G"
    "\<exists>d'. candy_utimens d (entry_path ns n) atime mtime user grp = Some (- ENOENT, d') \<and> serves F Is d' f G"
    "\<exists>d'. candy_truncate d (entry_path ns n) sz user grp = Some (- ENOENT, d') \<and> serves F Is d' f G"
    "\<exists>d'. candy_access d (entry_path ns n) flags user grp = Some (- ENOENT, d') \<and> serves F Is d' f G"
    "\<exists>d'. candy_open d (entry_path ns n) flags user grp = Some (- ENOENT, None, d') \<and> serves F Is d' f G"
    "\<exists>d'. candy_opendir d (entry_path ns n) flags user grp = Some (- ENOENT, None, d') \<and> serves F Is d' f G"
    "\<exists>d'. candy_readlink d (entry_path ns n) buf user grp = Some (- ENOENT, buf, d') \<and> serves F Is d' f G"
    "\<exists>d'. candy_link d (entry_path ns n) path user grp = Some (- ENOENT, d') \<and> serves F Is d' f G"
proof -
  obtain d1 where d1: "\<forall>h. with_inode' d (entry_path ns n) True user grp h = Some (- ENOENT, d1)"
      "\<forall>r h. with_inode d (entry_path ns n) True user grp (r :: ino option) h = Some (- ENOENT, r, d1)" "serves F Is d1 f G"
    using with_inode_missing [OF assms, of True] by blast
  obtain d2 where d2: "\<forall>h. with_inode' d (entry_path ns n) False user grp h = Some (- ENOENT, d2)"
      "\<forall>r h. with_inode d (entry_path ns n) False user grp (r :: byte list) h = Some (- ENOENT, r, d2)" "serves F Is d2 f G"
    using with_inode_missing [OF assms, of False] by blast
  note defs = candy_chmod_def candy_chown_def candy_utimens_def candy_truncate_def candy_access_def candy_open_def candy_opendir_def
    open_with_def candy_readlink_def candy_link_def
  show "\<exists>d'. candy_chmod d (entry_path ns n) mode user grp = Some (- ENOENT, d') \<and> serves F Is d' f G"
    "\<exists>d'. candy_chown d (entry_path ns n) owner gid user grp = Some (- ENOENT, d') \<and> serves F Is d' f G"
    "\<exists>d'. candy_truncate d (entry_path ns n) sz user grp = Some (- ENOENT, d') \<and> serves F Is d' f G"
    "\<exists>d'. candy_access d (entry_path ns n) flags user grp = Some (- ENOENT, d') \<and> serves F Is d' f G"
    "\<exists>d'. candy_open d (entry_path ns n) flags user grp = Some (- ENOENT, None, d') \<and> serves F Is d' f G"
    "\<exists>d'. candy_opendir d (entry_path ns n) flags user grp = Some (- ENOENT, None, d') \<and> serves F Is d' f G"
    using d1 by (simp_all add: defs)
  show "\<exists>d'. candy_utimens d (entry_path ns n) atime mtime user grp = Some (- ENOENT, d') \<and> serves F Is d' f G"
    "\<exists>d'. candy_readlink d (entry_path ns n) buf user grp = Some (- ENOENT, buf, d') \<and> serves F Is d' f G"
    "\<exists>d'. candy_link d (entry_path ns n) path user grp = Some (- ENOENT, d') \<and> serves F Is d' f G"
    using d2 by (simp_all add: defs)
qed

lemma entry_missing:
  fixes d :: "'x path_env_scheme"
  assumes s: "serves F Is d f G" and few: "few_refs 4 f" and at: "ns_at G user grp ns p n m" and absent: "m n = None"
  obtains h d1 d2 d3 node where "\<forall>g. with_path d (entry_path ns n) user grp g = g d1 (int h)" "path_node d1 (int h) = Some node"
    "path_get d1 (int h) = Some (of_int (- ENOENT), d2)" "done_path d2 (int h) (- ENOENT) = Some (- ENOENT, d3)" "serves F Is d3 f G"
proof -
  note sv = servesD [OF s]
  obtain ess where ess: "caller_at F Is (dom G) d user grp ns p n ess" "dir_map ess = m"
    using ns_caller [OF sv(1,2) _ at] few sv(3) by blast
  obtain h d1 where h: "opened F Is (dom G) d p n h d1" "\<forall>f. with_path d (entry_path ns n) user grp f = f d1 (int h)"
      "at_entry d1 (dom G) (int h) p n ess"
    using caller_opened [OF ess(1)] absent ess(2) by blast
  note f = opened_facts [OF sv(5) h(1)]
  obtain node where node: "path_node d1 (int h) = Some node" "parent_dir node = p" "path_name node = n"
    using at_entry_parts [OF h(3)] .
  obtain d2 where d2: "path_get d1 (int h) = Some (of_int (- ENOENT), d2)" "quiet F Is (dom G) d1 (refs_of d1) d2"
    using path_get_spec(2) [OF f(1) node(1), of None] h(3) node(2,3) absent ess(2) by (auto simp: at_entry_def good_name_def dir_entry_def)
  have res: "resolvable F Is (dom G) d (caller user grp) ns p"
    using ess(1) by (simp add: caller_at_def)
  have "linked d2 (dom G) p"
    by (rule linked_files [OF quiet_files [OF d2(2)] subset_refl linked_files [OF f(3) subset_refl resolvable_linked(2) [OF res]]])
  then obtain d3 where d3: "done_path d2 (int h) (- ENOENT) = Some (- ENOENT, d3)" "finished (dom G) d F Is (dom G) d3"
    using done_path_spec [OF sv(5) h(1) quiet_stepped [OF d2(2) subset_refl] _ subset_refl subset_refl, of "- ENOENT" "- ENOENT"] by auto
  show thesis
    by (rule that [OF h(2) node(1) d2(1) d3(1) finished_serves [OF s d3(2)]])
qed

theorem candy_entry_missing:
  fixes d :: "'x path_env_scheme"
  assumes "serves F Is d f G" and "few_refs 4 f" and "ns_at G user grp ns p n m" and "m n = None"
  shows "\<exists>d'. candy_unlink d (entry_path ns n) user grp = Some (- ENOENT, d') \<and> serves F Is d' f G"
    "\<exists>d'. candy_rmdir d (entry_path ns n) user grp = Some (- ENOENT, d') \<and> serves F Is d' f G"
proof -
  obtain h d1 d2 d3 node where d: "\<forall>g. with_path d (entry_path ns n) user grp g = g d1 (int h)" "path_node d1 (int h) = Some node"
    "path_get d1 (int h) = Some (of_int (- ENOENT), d2)" "done_path d2 (int h) (- ENOENT) = Some (- ENOENT, d3)" "serves F Is d3 f G"
    by (rule entry_missing [OF assms])
  then show "\<exists>d'. candy_unlink d (entry_path ns n) user grp = Some (- ENOENT, d') \<and> serves F Is d' f G"
      "\<exists>d'. candy_rmdir d (entry_path ns n) user grp = Some (- ENOENT, d') \<and> serves F Is d' f G"
    by (simp_all add: candy_unlink_def candy_rmdir_def path_unlink_def path_rmdir_def)
qed

end
