(* ===== verification/Fuse_Rename.thy ===== *)
theory Fuse_Rename
  imports Fuse_Links
begin

text \<open>\<open>candy_rename\<close> holds two paths open at once.\<close>

section \<open>Two open paths\<close>

lemma settled_facts:
  assumes "settled F Is A d f nodes d'"
  shows "refs_inv d' F Is A" "refs_of d' = f" "same_files A d d'" "open_path_table d' = nodes"
  using assms by (simp_all add: settled_def)

lemma caller_at_entry:
  fixes d :: "'x path_env_scheme"
  assumes "caller_at F Is A d user grp ns p n ess" and "same_files A d d'" and "path_node d' h = Some \<lparr>path_refs = 1, parent_dir = p, path_name = n\<rparr>"
  shows "at_entry d' A h p n ess" "may_write d' user grp p"
proof -
  have res: "resolvable F Is A d (caller user grp) ns p"
    using assms(1) by (simp add: caller_at_def)
  have p: "p \<in> A"
    using resolvable_linked(2) [OF res] by (simp add: linked_def)
  then show "at_entry d' A h p n ess"
    using assms same_files_dir [OF assms(2) p] by (simp add: caller_at_def at_entry_def)
  have "same_attr (inode_at d p) (inode_at d' p)"
    using assms(2) p by (simp add: same_files_def)
  then show "may_write d' user grp p"
    using assms(1) allowed_attr by (simp add: caller_at_def may_write_def)
qed

text \<open>A second path while one is open.\<close>

lemma second_ready:
  fixes d :: "'x path_env_scheme"
  assumes idle: "idle d" and op: "opened F Is A d q l h d1" and at: "caller_at F Is A d user grp ns p n ess" and few: "few_refs 5 (refs_of d)"
    and target: "dir_map ess n = Some t" "linked d A t"
  shows "resolvable F Is A d1 (caller user grp) ns p" "target_ok d1 A (caller user grp) p n False" "good_name n"
proof -
  note f = opened_facts [OF idle op]
  have "few_refs (Suc 4) (refs_of d)"
    using few by (simp add: numeral_eq_Suc)
  then have few1: "few_refs 4 (refs_of d1)"
    using few_refs_inc f(2) by simp
  show res: "resolvable F Is A d1 (caller user grp) ns p"
    using at f few1 linked_files [OF f(3) subset_refl] dir_path_files [OF _ f(3) subset_refl] by (simp add: caller_at_def resolvable_def)
  show "good_name n"
    using at by (simp add: caller_at_def)
  have "p \<in> A" "dir_rep d p ess"
    using resolvable_linked(2) [OF res] at by (simp_all add: linked_def caller_at_def)
  then show "target_ok d1 A (caller user grp) p n False"
    using same_files_dir [OF f(3)] target linked_files [OF f(3) subset_refl] unfolding target_ok_def dir_entry_def by blast
qed

text \<open>A second path, to another entry.\<close>

lemma second_open:
  fixes d :: "'x path_env_scheme"
  assumes idle: "idle d" and op: "opened F Is A d q l h d1" and at: "caller_at F Is A d user grp ns p n ess" and few: "few_refs 5 (refs_of d)"
    and target: "dir_map ess n = Some t" "linked d A t" and other: "(p, n) \<noteq> (q, l)"
  shows "\<exists>hs d2. path_open d1 (entry_path ns n) False user grp (int h) = Some (int hs, d2) \<and> hs < MAX_OPEN_PATHS \<and> hs \<noteq> h \<and>
    settled F Is A d (inc (inc (refs_of d) q) p)
      ((open_path_table d)[h := \<lparr>path_refs = 1, parent_dir = q, path_name = l\<rparr>, hs := \<lparr>path_refs = 1, parent_dir = p, path_name = n\<rparr>]) d2"
proof -
  note f = opened_facts [OF idle op]
  have h: "h < length (open_path_table d)" "length (open_path_table d) = MAX_OPEN_PATHS"
    using op idle by (simp_all add: opened_def idle_def)
  note ready = second_ready [OF idle op at few target]
  have new: "\<forall>node \<in> set (open_path_table d1). \<not> names_entry node p n"
    using idle_free(1) [OF idle] other f(4) by (auto simp: names_entry_def dest!: set_update_subset_insert [THEN subsetD])
  let ?k = "if h = 0 then 1 else 0"
  have "path_refs (open_path_table d1 ! ?k) = 0" "?k < length (open_path_table d1)"
    using idle h f(4) by (auto simp: idle_def)
  then have "\<exists>node \<in> set (open_path_table d1). path_refs node = 0"
    using nth_mem by blast
  from path_open_spec [OF ready new this, of "int h"]
  obtain hs d2 where d2: "path_open d1 (entry_path ns n) False user grp (int h) = Some (int hs, d2)" "hs < length (open_path_table d1)"
      "path_refs (open_path_table d1 ! hs) = 0" "settled F Is A d1 (inc (refs_of d1) p) ((open_path_table d1)[hs := \<lparr>path_refs = 1, parent_dir = p, path_name = n\<rparr>]) d2"
    by blast
  have "hs \<noteq> h"
    using d2(3) f(4) h by auto
  moreover have "same_files A d d2"
    using same_files_trans [OF f(3) settled_facts(3) [OF d2(4)]] .
  ultimately show ?thesis
    using d2(1,2,4) f(2,4) h by (intro exI [of _ hs] exI [of _ d2]) (simp add: settled_def)
qed

section \<open>Renaming\<close>

text \<open>What is around \<open>path_rename\<close>: both paths open at \<open>d2\<close>, and any outcome \<open>d3\<close> of it settled.\<close>

lemma close_two:
  fixes d :: "'x path_env_scheme"
  assumes idle: "idle d" and inv: "refs_inv d3 F' Is' A'" and refs: "refs_of d3 = inc (inc f p) q"
    and tbl: "open_path_table d3 = (open_path_table d)[h := \<lparr>path_refs = 1, parent_dir = q, path_name = l\<rparr>, hs := \<lparr>path_refs = 1, parent_dir = p, path_name = n\<rparr>]"
    and h: "h < MAX_OPEN_PATHS" "hs < MAX_OPEN_PATHS" "hs \<noteq> h" and l3: "linked d3 A' p" "linked d3 A' q" and e: "- 4096 \<le> e" "e \<le> 0"
  shows "\<exists>d4 d5. close_path d3 (int h) = Some d4 \<and> done_path d4 (int hs) e = Some (e, d5) \<and>
    refs_inv d5 F' Is' A' \<and> refs_of d5 = f \<and> same_files A' d3 d5 \<and> idle d5"
proof -
  let ?nq = "\<lparr>path_refs = 1, parent_dir = q, path_name = l\<rparr>" and ?np = "\<lparr>path_refs = 1, parent_dir = p, path_name = n\<rparr>"
  have len: "length (open_path_table d) = MAX_OPEN_PATHS"
    using idle by (simp add: idle_def)
  have "open_handle d3 (int h) ?nq"
    using tbl h len by (simp add: open_handle_def path_node_def)
  from path_close_spec [OF inv this, of "inc f p"]
  obtain d4 where d4: "path_close d3 (int h) = Some (0, d4)" "settled F' Is' A' d3 (inc f p) ((open_path_table d3)[h := ?nq\<lparr>path_refs := 0\<rparr>]) d4"
    using refs l3(2) by auto
  note s4 = settled_facts [OF d4(2)]
  have "open_handle d4 (int hs) ?np"
    using s4(4) tbl h len by (simp add: open_handle_def path_node_def)
  from path_close_spec [OF s4(1) this, of f]
  obtain d5 where d5: "path_close d4 (int hs) = Some (0, d5)" "settled F' Is' A' d4 f ((open_path_table d4)[hs := ?np\<lparr>path_refs := 0\<rparr>]) d5"
    using s4(2) linked_files [OF s4(3) subset_refl l3(1)] by auto
  note s5 = settled_facts [OF d5(2)]
  have "open_path_table d5 = (open_path_table d)[h := ?nq\<lparr>path_refs := 0\<rparr>, hs := ?np\<lparr>path_refs := 0\<rparr>]"
    using s5(4) s4(4) tbl list_update_swap [OF h(3), of "(open_path_table d)[h := ?nq]"] by simp
  then have "idle d5"
    using idle by (auto simp: idle_def dest!: set_update_subset_insert [THEN subsetD])
  moreover have "int_of_long e = e"
    using e by (simp add: int_of_long_def int_word_sint)
  then have "close_path d3 (int h) = Some d4" "done_path d4 (int hs) e = Some (e, d5)"
    using d4(1) d5(1) e(2) by (simp_all add: close_path_def done_path_def)
  ultimately show ?thesis
    using s5(1,2) same_files_trans [OF s4(3) s5(3)] by blast
qed

lemma candy_rename_frame:
  fixes d :: "'x path_env_scheme"
  assumes src: "caller_at F Is A d user grp ns p n ess" "dir_map ess n = Some t" "linked d A t"
    and dst: "caller_at F Is A d user grp ns' q l esq" "dir_map esq l = None \<or> (\<exists>c. dir_map esq l = Some c \<and> linked d A c)"
    and few: "few_refs 5 (refs_of d)" and other: "(p, n) \<noteq> (q, l)"
  obtains hq hs and d2 :: "'x path_env_scheme" where "refs_inv d2 F Is A" "refs_of d2 = inc (inc (refs_of d) p) q" "same_files A d d2" "few_refs 3 (refs_of d2)"
    "at_entry d2 A hs p n ess" "at_entry d2 A hq q l esq" "may_write d2 user grp p" "may_write d2 user grp q"
    "\<forall>e B F' Is' A' d3. path_rename d2 hq hs user grp = Some (e, d3) \<and> stepped B d2 F' Is' A' (refs_of d2) d3 \<and>
       linked d3 A' p \<and> linked d3 A' q \<and> - 4096 \<le> e \<and> e \<le> 0 \<longrightarrow>
       (\<exists>d'. candy_rename d (entry_path ns n) (entry_path ns' l) user grp = Some (e, d') \<and> refs_inv d' F' Is' A' \<and> refs_of d' = refs_of d \<and>
          same_files A' d3 d' \<and> idle d')"
proof -
  have idle: "idle d"
    using src(1) by (simp add: caller_at_def)
  obtain h d1 where h: "opened F Is A d q l h d1" "\<forall>f. with_path d (entry_path ns' l) user grp f = f d1 (int h)"
    using caller_opened [OF dst] by blast
  have hM: "h < MAX_OPEN_PATHS" "length (open_path_table d) = MAX_OPEN_PATHS"
    using h(1) idle by (simp_all add: opened_def idle_def)
  from second_open [OF idle h(1) src(1) few src(2,3) other]
  obtain hs d2 where d2: "path_open d1 (entry_path ns n) False user grp (int h) = Some (int hs, d2)" "hs < MAX_OPEN_PATHS" "hs \<noteq> h"
      "settled F Is A d (inc (inc (refs_of d) q) p)
        ((open_path_table d)[h := \<lparr>path_refs = 1, parent_dir = q, path_name = l\<rparr>, hs := \<lparr>path_refs = 1, parent_dir = p, path_name = n\<rparr>]) d2"
    by blast
  note s2 = settled_facts [OF d2(4)]
  have nodes: "path_node d2 (int h) = Some \<lparr>path_refs = 1, parent_dir = q, path_name = l\<rparr>" "path_node d2 (int hs) = Some \<lparr>path_refs = 1, parent_dir = p, path_name = n\<rparr>"
    using s2(4) hM d2(2,3) by (simp_all add: path_node_def)
  note at = caller_at_entry [OF src(1) s2(3) nodes(2)] caller_at_entry [OF dst(1) s2(3) nodes(1)]
  have refs2: "refs_of d2 = inc (inc (refs_of d) p) q"
    using s2(2) by (simp add: inc_commute)
  have "few_refs 3 (refs_of d2)"
  proof -
    have "few_refs (Suc (Suc 3)) (refs_of d)"
      using few by (simp add: numeral_eq_Suc)
    then show ?thesis
      unfolding s2(2) by (intro few_refs_inc)
  qed
  moreover have "\<exists>d'. candy_rename d (entry_path ns n) (entry_path ns' l) user grp = Some (e, d') \<and> refs_inv d' F' Is' A' \<and> refs_of d' = refs_of d \<and>
      same_files A' d3 d' \<and> idle d'"
    if run: "path_rename d2 (int h) (int hs) user grp = Some (e, d3)" "stepped B d2 F' Is' A' (refs_of d2) d3"
      and l: "linked d3 A' p" "linked d3 A' q" and e: "- 4096 \<le> e" "e \<le> 0" for e B F' Is' A' d3
  proof -
    have s3: "refs_inv d3 F' Is' A'" "refs_of d3 = inc (inc (refs_of d) p) q"
      "open_path_table d3 = (open_path_table d)[h := \<lparr>path_refs = 1, parent_dir = q, path_name = l\<rparr>, hs := \<lparr>path_refs = 1, parent_dir = p, path_name = n\<rparr>]"
      using run(2) refs2 s2(4) by (simp_all add: stepped_def)
    from close_two [OF idle s3 hM(1) d2(2,3) l e] show ?thesis
      using h(2) d2(1) run(1) by (auto simp: candy_rename_def)
  qed
  ultimately show thesis
    using that [OF s2(1) refs2 s2(3) _ at(1,3,2,4)] by blast
qed

text \<open>Renaming an entry onto itself does nothing.\<close>

theorem candy_rename_same:
  fixes d :: "'x path_env_scheme"
  assumes src: "caller_at F Is A d user grp ns p n ess" "dir_map ess n = Some t" "linked d A t"
    and dst: "caller_at F Is A d user grp ns' p n ess" and few: "few_refs 5 (refs_of d)"
  shows "\<exists>d'. candy_rename d (entry_path ns n) (entry_path ns' n) user grp = Some (0, d') \<and> finished A d F Is A d'"
proof -
  have idle: "idle d" and res: "resolvable F Is A d (caller user grp) ns p"
    using src(1) by (simp_all add: caller_at_def)
  obtain h d1 where h: "opened F Is A d p n h d1" "\<forall>f. with_path d (entry_path ns' n) user grp f = f d1 (int h)"
    using caller_opened [OF dst] src(2,3) by blast
  note f = opened_facts [OF idle h(1)]
  have hM: "h < length (open_path_table d)"
    using h(1) idle by (simp add: opened_def idle_def)
  have "paths_exclusive (open_path_table d)"
    using idle by (auto simp: idle_def paths_exclusive_def)
  then have "paths_exclusive (open_path_table d1)"
    using paths_exclusive_open [OF _ idle_free(1) [OF idle] hM] f(4) by simp
  moreover have "h < length (open_path_table d1)" "names_entry (open_path_table d1 ! h) p n"
    using f(4) hM by (simp_all add: names_entry_def)
  ultimately obtain d2 where d2: "path_open d1 (entry_path ns n) False user grp (int h) = Some (- EWOULDBLOCK, d2)" "quiet F Is A d1 (refs_of d1) d2"
    using path_open_busy [OF second_ready [OF idle h(1) src(1) few src(2,3)], of h "int h"] by auto
  have p: "linked d2 A p"
    using linked_files [OF quiet_files [OF d2(2)] subset_refl linked_files [OF f(3) subset_refl resolvable_linked(2) [OF res]]] .
  from done_path_spec [OF idle h(1) quiet_stepped [OF d2(2) subset_refl] p, of 0 0]
  obtain d3 where "done_path d2 (int h) 0 = Some (0, d3)" "finished A d F Is A d3"
    by auto
  then show ?thesis
    using h(2) d2(1) by (auto simp: candy_rename_def)
qed

end
