(* ===== verification/Fuse_Refine_Rename.thy ===== *)
theory Fuse_Refine_Rename
  imports Fuse_Refine Fuse_Rename
begin

text \<open>\<open>candy_rename\<close> on the file system as its users see it.\<close>

section \<open>An entry that moves\<close>

lemma ns_rename_at:
  assumes p: "G p = Some (bp, Dir m)" "m n = Some t" and q: "G q = Some (bq, Dir k)" and t: "G t = Some (a, x)" "t \<noteq> p" "t \<noteq> q"
  shows "ns_rename p n q l G p = Some (bp, Dir ((if q = p then k(l \<mapsto> t) else m)(n := None)))"
    "q \<noteq> p \<Longrightarrow> ns_rename p n q l G q = Some (bq, Dir (k(l \<mapsto> t)))"
    "ns_rename p n q l G t = Some (a, case x of Dir mt \<Rightarrow> Dir (mt([DOT, DOT] \<mapsto> q)) | _ \<Rightarrow> x)"
    "j \<notin> {p, q, t} \<Longrightarrow> ns_rename p n q l G j = G j"
  using assms by (auto simp: ns_rename_def on_dir_def dir_of_def split: node.split option.split)

lemma dom_ns_rename [simp]: "dom (ns_rename p n q l G) = dom G"
  by (simp add: ns_rename_def on_dir_parts split: option.split)

lemma moved_node_rep:
  assumes rep: "node_rep d t x" and mv: "moved d t est q d'" and dir: "\<forall>mt. x = Dir mt \<longrightarrow> dir_map est = mt" and x: "x \<noteq> Gone"
  shows "node_rep d' t (case x of Dir mt \<Rightarrow> Dir (mt([DOT, DOT] \<mapsto> q)) | _ \<Rightarrow> x)"
proof (cases x)
  case (Dir mt)
  then obtain ess' where "dir_rep d' t ess'" "dir_map ess' = mt([DOT, DOT] \<mapsto> q)"
    using rep mv dir by (auto simp: moved_def dir_rep_def)
  then show ?thesis
    using node_rep_dir [of d' t ess'] Dir by (simp del: node_rep.simps)
next
  case (File bs)
  then show ?thesis
    using rep mv mode_exclusive by (auto simp: moved_def same_attr_def split: if_splits)
next
  case (Link bs)
  then show ?thesis
    using rep mv mode_exclusive by (auto simp: moved_def same_attr_def split: if_splits)
qed (use x in simp)

lemma holds_moved:
  assumes rep: "holds F Is d G" and p: "G p = Some (bp, Dir m)" "m n = Some t" and q: "G q = Some (bq, Dir k)"
    and t: "G t = Some (a, x)" "t \<noteq> p" "t \<noteq> q" and x: "\<forall>mt. x = Dir mt \<longrightarrow> dir_map est = mt" "x \<noteq> Gone"
    and step: "stepped (dom G - {p, q, t}) d F' Is' (dom G) f d'" and mv: "entry_moved d p n mp q l k t est d'" "q \<noteq> p \<longrightarrow> mp = m"
  shows "holds F' Is' d' (ns_rename p n q l G)"
proof (rule holds_step [OF rep])
  note at = ns_rename_at [where l = l, OF p q t]
  show "refs_inv d' F' Is' (dom (ns_rename p n q l G))" "same_files (dom G - {p, q, t}) d d'"
    using step by (simp_all add: stepped_def)
  fix j c y assume j: "ns_rename p n q l G j = Some (c, y)"
  have same: "same_attr (inode_at d p) (inode_at d' p)" "same_attr (inode_at d q) (inode_at d' q)" "moved d t est q d'"
    using mv(1) by (simp_all add: entry_moved_def)
  then have attr: "attr_of (inode_at d' p) = bp" "attr_of (inode_at d' q) = bq" "attr_of (inode_at d' t) = a"
    using holdsD(2) [OF rep] p q t(1) attr_of_same by (auto simp: moved_def)
  obtain esp where esp: "dir_rep d' p esp" "dir_map esp = (if q = p then k(l \<mapsto> t) else m)(n := None)"
    using mv unfolding entry_moved_def by auto
  show "j \<in> dom G - {p, q, t} \<and> G j = Some (c, y) \<or> c = attr_of (inode_at d' j) \<and> node_rep d' j y"
  proof (cases "j \<in> {p, q, t}")
    case True
    then consider "j = p" | "j = q" "q \<noteq> p" | "j = t"
      by blast
    then show ?thesis
    proof cases
      case 1
      then show ?thesis
        using j at(1) attr(1) node_rep_dir [OF esp(1)] esp(2) by (simp del: node_rep.simps)
    next
      case 2
      then obtain esq' where "dir_rep d' q esq'" "dir_map esq' = k(l \<mapsto> t)"
        using mv(1) unfolding entry_moved_def by blast
      then show ?thesis
        using 2 j at(2) attr(2) node_rep_dir [of d' q esq'] by (simp del: node_rep.simps)
    next
      case 3
      then show ?thesis
        using j at(3) attr(3) moved_node_rep [OF holdsD(3) [OF rep t(1)] same(3) x] by (simp del: node_rep.simps)
    qed
  next
    case False
    then show ?thesis
      using j at(4) [OF False] by auto
  qed
qed

section \<open>The name that is replaced\<close>

definition ns_clear :: "ino \<Rightarrow> byte list \<Rightarrow> bool \<Rightarrow> namespace \<Rightarrow> namespace" where
  "ns_clear q l held G = (case dir_of G q of
      None \<Rightarrow> G
    | Some k \<Rightarrow> (case k l of
        None \<Rightarrow> G
      | Some c \<Rightarrow> if is_dir G c then ns_rmdir q l held G else ns_unlink q l held G))"

text \<open>The error when \<open>t\<close> is renamed onto \<open>c\<close>, or 0: they must be of the same kind, and a directory must be empty.\<close>

definition ns_rename_error :: "namespace \<Rightarrow> ino \<Rightarrow> ino \<Rightarrow> int" where
  "ns_rename_error G t c = (case dir_of G c of
      None \<Rightarrow> if is_dir G t then - ENOTDIR else 0
    | Some k \<Rightarrow> if \<not> is_dir G t then - EISDIR else if dom k \<subseteq> dots then 0 else - ENOTEMPTY)"

lemma ns_clear_free: "dir_of G q = Some k \<Longrightarrow> k l = None \<Longrightarrow> ns_clear q l held G = G"
  by (simp add: ns_clear_def)

lemma ns_clear_remove:
  assumes "dir_of G q = Some k" and "k l = Some c"
  shows "ns_clear q l held G = ns_remove q l held (if is_dir G c then (\<lambda>_. Gone) else (\<lambda>x. x)) G"
  using assms by (simp add: ns_clear_def ns_rmdir_def ns_unlink_def)

lemma ns_clear_at:
  assumes q: "G q = Some (bq, Dir k)" "k l = Some c" and c: "G c = Some (b, y)" "c \<noteq> q"
  shows "ns_clear q l held G q = Some (bq, Dir (k(l := None)))" "j \<notin> {q, c} \<Longrightarrow> ns_clear q l held G j = G j"
  using assms ns_clear_remove [of G q k l c held] by (simp_all add: dir_of_eq ns_remove_def)

lemma ns_clear_inv:
  assumes inv: "ns_inv G" and q: "G q = Some (bq, Dir k)" "k l = Some c" "l \<notin> dots" and c: "G c = Some (b, y)" "ns_rename_error G t c = 0"
  shows "ns_inv (ns_clear q l held G)"
proof -
  have "dir_of G q = Some k"
    using q(1) by (simp add: dir_of_eq)
  moreover have "dir_of G c = None \<or> (\<exists>m. dir_of G c = Some m \<and> dom m \<subseteq> dots)"
    using c(2) by (auto simp: ns_rename_error_def split: option.splits if_splits)
  ultimately show ?thesis
    unfolding ns_clear_remove [OF \<open>dir_of G q = Some k\<close> q(2)] using ns_remove_inv [OF inv q c(1)] by (auto simp: is_dir_def)
qed

lemma ns_clear_inside:
  assumes q: "G q = Some (bq, Dir k)" "k l = Some c" "l \<notin> dots" and c: "G c = Some (b, y)" "c \<noteq> q"
    and inside: "inside (dir_of (ns_clear q l held G)) a x"
  shows "inside (dir_of G) a x"
proof (rule inside_keeps [OF inside])
  fix j m assume m: "dir_of (ns_clear q l held G) j = Some m"
  note at = ns_clear_at [where held = held, OF q(1,2) c]
  consider "j = q" | "j = c" | "j \<notin> {q, c}"
    by blast
  then show "\<exists>m'. dir_of G j = Some m' \<and> m' [DOT, DOT] = m [DOT, DOT]"
  proof cases
    case 1
    then show ?thesis
      using m at(1) q by (auto simp: dir_of_eq dots_def)
  next
    case 2
    then show ?thesis
      using m c q ns_clear_remove [of G q k l c held] by (auto simp: dir_of_eq ns_remove_def is_dir_def relink_def split: if_splits)
  next
    case 3
    then show ?thesis
      using m at(2) [OF 3] by (auto simp: dir_of_eq)
  qed
qed

lemma cut_off_holds:
  assumes rep: "holds F Is d G" and q: "G q = Some (bq, Dir k)" "k l = Some c" and c: "G c = Some (b, y)" "c \<noteq> q" "y \<noteq> Gone"
    and cut: "cut_off d F (dom G) q l k c f d' F' Is' A'"
  shows "holds F' Is' d' (ns_clear q l (f c \<noteq> 0) G)" "dom (ns_clear q l (f c \<noteq> 0) G) = A'"
proof -
  let ?g = "if is_dir G c then (\<lambda>_. Gone) else (\<lambda>x. x)"
  have Dq: "dir_of G q = Some k"
    using q(1) by (simp add: dir_of_eq)
  have A': "A' = (if inlinks (inode_at d c) = 1 \<and> f c = 0 then dom G - {c} else dom G)" and step: "refs_inv d' F' Is' A'" "same_files (dom G - {q, c}) d d'"
    and same: "same_attr (inode_at d q) (inode_at d' q)"
    and target: "c \<in> A' \<longrightarrow> relinked (inode_at d c) (inlinks (inode_at d c) - 1) (inode_at d' c) \<and>
      (if S_ISDIR (imode (inode_at d c)) then dead_dir d' c else content d' c = content d c)"
    using cut unfolding cut_off_def stepped_def by blast+
  obtain ess' where ess': "dir_rep d' q ess'" "dir_map ess' = k(l := None)"
    using cut by (auto simp: cut_off_def)
  have kind: "S_ISDIR (imode (inode_at d c)) = is_dir G c"
    using node_rep_mode [OF holdsD(3) [OF rep c(1)]] c by (auto simp: is_dir_def dir_of_eq)
  have "node_rep d' c (?g y)" if "c \<in> A'"
  proof -
    have "imode (inode_at d' c) = imode (inode_at d c)"
      using target that by (simp add: relinked_def same_attr_def)
    then show ?thesis
      using target that c holdsD(3) [OF rep c(1)] kind by (cases y) (auto simp: is_dir_def dir_of_eq)
  qed
  then have "c \<in> A' \<longrightarrow> relinked (inode_at d c) (inlinks (inode_at d c) - 1) (inode_at d' c) \<and> node_rep d' c (?g y)"
    using target by blast
  from holds_remove [where f = f and g = ?g, OF rep q c(1,2) A' step ess' same this]
  show holds: "holds F' Is' d' (ns_clear q l (f c \<noteq> 0) G)"
    unfolding ns_clear_remove [OF Dq q(2)] .
  have "b = attr_of (inode_at d c)"
    by (rule holdsD(2) [OF rep c(1)])
  then show "dom (ns_clear q l (f c \<noteq> 0) G) = A'"
    unfolding ns_clear_remove [OF Dq q(2)] A' using q c by (auto simp: ns_remove_def attr_of_def)
qed

text \<open>Only a file or a link has two names.\<close>

lemma two_names:
  assumes wf: "namespace_wf G" and D: "dir_of G p = Some m" "m n = Some t" "n \<notin> dots" "dir_of G q = Some k" "k l = Some t" "l \<notin> dots"
    and other: "(p, n) \<noteq> (q, l)"
  shows "2 \<le> links_of G t" "\<not> is_dir G t"
proof -
  note parts = wf_parts [OF wf]
  have names: "{(p, n), (q, l)} \<subseteq> names_in (dir_of G) t"
    using D by (auto simp: names_in_def)
  then have "card {(p, n), (q, l)} \<le> card (names_in (dir_of G) t)"
    by (rule card_mono [OF finite_names [OF parts(2)]])
  moreover have "t \<in> dom G"
    using parts(4) [of p n t] names by simp
  ultimately show "2 \<le> links_of G t"
    using parts(5) [of t] other by simp
  then show "\<not> is_dir G t"
    using parts(3) [of t] by (cases "dir_of G t") (auto simp: is_dir_def)
qed

lemma ns_clear_held:
  assumes q: "G q = Some (bq, Dir k)" "k l = Some c" and c: "G c = Some (b, y)" "a_links b \<noteq> 1"
  shows "ns_clear q l held G = ns_clear q l held' G"
  using assms ns_clear_remove [of G q k l c] by (simp add: dir_of_eq ns_remove_def)

lemma ns_clear_shared:
  assumes q: "G q = Some (bq, Dir k)" "k l = Some c" and c: "G c = Some (b, y)" "a_links b \<noteq> 1" "c \<noteq> q" "\<not> is_dir G c"
  shows "ns_clear q l held G c = Some (relink (\<lambda>n. n - 1) b, y)"
  using assms ns_clear_remove [of G q k l c held] by (simp add: dir_of_eq ns_remove_def)

section \<open>The state at the operation\<close>

text \<open>
  Both paths are open at \<open>d2\<close>, where \<open>path_rename\<close> runs: the entry \<open>n\<close> of \<open>p\<close>, the inode \<open>t\<close>
  with node \<open>x\<close>, is to be the entry \<open>l\<close> of \<open>q\<close>.
\<close>

definition rename_state where
  "rename_state user grp F Is d f G p n m t x q l k hs hq ess esq est d2 \<longleftrightarrow>
     holds F Is d2 G \<and>
     refs_of d2 = inc (inc f p) q \<and>
     few_refs 3 (refs_of d2) \<and>
     at_entry d2 (dom G) hs p n ess \<and>
     dir_map ess = m \<and>
     at_entry d2 (dom G) hq q l esq \<and>
     dir_map esq = k \<and>
     (q = p \<longrightarrow> esq = ess) \<and>
     linked d2 (dom G) t \<and>
     t \<noteq> p \<and>
     t \<noteq> q \<and>
     (S_ISDIR (imode (inode_at d2 t)) \<longrightarrow> dir_rep d2 t est \<and> dir_map est [DOT] = Some t) \<and>
     (\<forall>mt. x = Dir mt \<longrightarrow> dir_map est = mt) \<and>
     may_write d2 user grp p \<and>
     may_write d2 user grp q \<and>
     fsize d2 q = fsize d q"

lemma rename_stateD:
  assumes "rename_state user grp F Is d f G p n m t x q l k hs hq ess esq est d2"
  shows "holds F Is d2 G" "refs_of d2 = inc (inc f p) q" "few_refs 3 (refs_of d2)"
    "at_entry d2 (dom G) hs p n ess" "dir_map ess = m" "at_entry d2 (dom G) hq q l esq" "dir_map esq = k" "q = p \<longrightarrow> esq = ess"
    "linked d2 (dom G) t" "t \<noteq> p" "t \<noteq> q" "S_ISDIR (imode (inode_at d2 t)) \<longrightarrow> dir_rep d2 t est \<and> dir_map est [DOT] = Some t"
    "\<forall>mt. x = Dir mt \<longrightarrow> dir_map est = mt" "may_write d2 user grp p" "may_write d2 user grp q" "fsize d2 q = fsize d q"
  using assms unfolding rename_state_def by blast+

text \<open>The outcome of \<open>path_rename\<close> is the outcome of the operation.\<close>

lemma rename_opened:
  fixes d :: "'x path_env_scheme"
  assumes s: "serves F Is d f G" and few: "few_refs 5 f" and src: "ns_at G user grp ns p n m" "m n = Some t" "n \<notin> dots"
    and dst: "ns_at G user grp ns' q l k" and t: "\<not> inside (dir_of G) t q" "G t = Some (a, x)" "x \<noteq> Gone" and other: "(p, n) \<noteq> (q, l)"
  obtains hq hs ess esq est and d2 :: "'x path_env_scheme" where "rename_state user grp F Is d f G p n m t x q l k hs hq ess esq est d2"
    "\<forall>e F' Is' G' d3. path_rename d2 hq hs user grp = Some (e, d3) \<and> holds F' Is' d3 G' \<and> refs_of d3 = refs_of d2 \<and>
       open_path_table d3 = open_path_table d2 \<and> ns_inv G' \<and> is_dir G' p \<and> is_dir G' q \<and> - 4096 \<le> e \<and> e \<le> 0 \<longrightarrow>
       (\<exists>d'. candy_rename d (entry_path ns n) (entry_path ns' l) user grp = Some (e, d') \<and> serves F' Is' d' f G')"
proof -
  note sv = servesD [OF s]
  have few4: "few_refs 4 (refs_of d)" "few_refs 5 (refs_of d)"
    using few few_refs_mono [OF few] sv(3) by simp_all
  obtain bp bq where p: "G p = Some (bp, Dir m)" and q: "G q = Some (bq, Dir k)"
    using src(1) dst(1) by (auto simp: ns_at_def)
  have Dp: "dir_of G p = Some m" and Dq: "dir_of G q = Some k"
    using p q by (auto simp: dir_of_eq)
  obtain ess where ess: "caller_at F Is (dom G) d user grp ns p n ess" "dir_map ess = m"
    using ns_caller [OF sv(1,2) few4(1) src(1)] by blast
  obtain esq0 where "caller_at F Is (dom G) d user grp ns' q l esq0" "dir_map esq0 = k"
    using ns_caller [OF sv(1,2) few4(1) dst] by blast
  then obtain esq where esq: "caller_at F Is (dom G) d user grp ns' q l esq" "dir_map esq = k" "q = p \<longrightarrow> esq = ess"
    using ess p q that(1) by (cases "q = p") (auto simp: caller_at_def)
  have lt: "linked d (dom G) t"
    by (rule ns_entry_linked [OF sv(1,2) Dp src(2)])
  have tpq: "t \<noteq> p" "t \<noteq> q"
    using not_own_child [OF sv(2,7) Dp src(2,3)] t(1) inside.here by blast+
  have free: "dir_map esq l = None \<or> (\<exists>c. dir_map esq l = Some c \<and> linked d (dom G) c)"
    using ns_entry_linked [OF sv(1,2) Dq, of l] esq(2) by (cases "k l") auto
  have names: "dir_map ess n = Some t"
    using ess(2) src(2) by simp
  obtain hq hs and d2 :: "'x path_env_scheme" where d2: "refs_inv d2 F Is (dom G)" "refs_of d2 = inc (inc (refs_of d) p) q" "same_files (dom G) d d2" "few_refs 3 (refs_of d2)"
    "at_entry d2 (dom G) hs p n ess" "at_entry d2 (dom G) hq q l esq" "may_write d2 user grp p" "may_write d2 user grp q"
    and close: "\<forall>e B F' Is' A' d3. path_rename d2 hq hs user grp = Some (e, d3) \<and> stepped B d2 F' Is' A' (refs_of d2) d3 \<and>
       linked d3 A' p \<and> linked d3 A' q \<and> - 4096 \<le> e \<and> e \<le> 0 \<longrightarrow>
       (\<exists>d'. candy_rename d (entry_path ns n) (entry_path ns' l) user grp = Some (e, d') \<and> refs_inv d' F' Is' A' \<and> refs_of d' = refs_of d \<and>
          same_files A' d3 d' \<and> idle d')"
    by (rule candy_rename_frame [OF ess(1) names lt esq(1) free few4(2) other]) (rule that; assumption)
  have holds: "holds F Is d2 G"
    using holds_files [OF _ d2(1,3)] sv(1) unfolding represents_iff by blast
  obtain est where est: "S_ISDIR (imode (inode_at d2 t)) \<longrightarrow> dir_rep d2 t est \<and> dir_map est [DOT] = Some t" "\<forall>mt. x = Dir mt \<longrightarrow> dir_map est = mt"
  proof (cases x)
    case (Dir mt)
    then have "dir_of G t = Some mt"
      using t(2) by (simp add: dir_of_eq)
    moreover obtain est where "dir_rep d2 t est" "dir_map est = mt"
      using holdsD(3) [OF holds t(2)] Dir by auto
    ultimately show thesis
      using that [of est] wf_parts(3) [OF sv(2)] Dir by auto
  qed (use that t(3) node_rep_mode [OF holdsD(3) [OF holds t(2)]] in auto)
  have qA: "q \<in> dom G"
    using q by blast
  have size: "fsize d2 q = fsize d q"
    by (rule same_files_fsize [OF d2(3) sv(4) d2(1) qA qA qA])
  have "\<exists>d'. candy_rename d (entry_path ns n) (entry_path ns' l) user grp = Some (e, d') \<and> serves F' Is' d' f G'"
    if run: "path_rename d2 hq hs user grp = Some (e, d3)" and h3: "holds F' Is' d3 G'" and more: "refs_of d3 = refs_of d2" "open_path_table d3 = open_path_table d2"
      and ns: "ns_inv G'" "is_dir G' p" "is_dir G' q" and e: "- 4096 \<le> e" "e \<le> 0" for e F' Is' G' and d3 :: "'x path_env_scheme"
  proof -
    have "stepped {} d2 F' Is' (dom G') (refs_of d2) d3"
      using holdsD(1) [OF h3] more by (simp add: stepped_def same_files_def)
    moreover have "linked d3 (dom G') p" "linked d3 (dom G') q"
      using holds_linked [OF h3] ns by (auto simp: ns_inv_def)
    ultimately obtain d' where d': "candy_rename d (entry_path ns n) (entry_path ns' l) user grp = Some (e, d')" "refs_inv d' F' Is' (dom G')" "refs_of d' = refs_of d"
        "same_files (dom G') d3 d'" "idle d'"
      using close run e by blast
    then show ?thesis
      using holds_files [OF h3 d'(2,4)] ns(1) sv(3) by (auto simp: serves_def represents_iff)
  qed
  moreover have "rename_state user grp F Is d f G p n m t x q l k hs hq ess esq est d2"
    unfolding rename_state_def
    using holds d2(2,4-8) sv(3) ess(2) esq(2,3) linked_files [OF d2(3) subset_refl lt] tpq est size by simp
  ultimately show thesis
    using that by blast
qed

section \<open>Renaming\<close>

theorem candy_rename_refines:
  fixes d :: "'x path_env_scheme"
  assumes s: "serves F Is d f G" and few: "few_refs 5 f" and src: "ns_at G user grp ns p n m" "m n = Some t" "n \<notin> dots"
    and dst: "ns_at G user grp ns' q l k" "k l = None" and t: "\<not> inside (dir_of G) t q" "\<forall>a. G t \<noteq> Some (a, Gone)"
    and room: "enough d F q (fsize d q + BLOCKSIZE)" "fsize d q + BLOCKSIZE \<le> MAX_FILESIZE"
  shows "\<exists>d' F'. candy_rename d (entry_path ns n) (entry_path ns' l) user grp = Some (0, d') \<and> serves F' Is d' f (ns_rename p n q l G)"
proof -
  note sv = servesD [OF s]
  obtain bp bq where p: "G p = Some (bp, Dir m)" and q: "G q = Some (bq, Dir k)"
    using src(1) dst(1) by (auto simp: ns_at_def)
  have D: "dir_of G p = Some m" "dir_of G q = Some k" "t \<in> dom G"
    using p q entry_target(1) [OF sv(2), of p m n t] src(2) by (auto simp: dir_of_eq)
  then obtain a x where tx: "G t = Some (a, x)" "x \<noteq> Gone"
    using t(2) by fastforce
  have "(p, n) \<noteq> (q, l)"
    using p q src(2) dst(2) by auto
  from rename_opened [OF s few src dst(1) t(1) tx this]
  obtain hq hs ess esq est and d2 :: "'x path_env_scheme" where st: "rename_state user grp F Is d f G p n m t x q l k hs hq ess esq est d2"
    "\<forall>e F' Is' G' d3. path_rename d2 hq hs user grp = Some (e, d3) \<and> holds F' Is' d3 G' \<and> refs_of d3 = refs_of d2 \<and>
       open_path_table d3 = open_path_table d2 \<and> ns_inv G' \<and> is_dir G' p \<and> is_dir G' q \<and> - 4096 \<le> e \<and> e \<le> 0 \<longrightarrow>
       (\<exists>d'. candy_rename d (entry_path ns n) (entry_path ns' l) user grp = Some (e, d') \<and> serves F' Is' d' f G')" .
  note o = rename_stateD [OF st(1)]
  have names: "dir_map ess n = Some t" "n \<noteq> [DOT]" "n \<noteq> [DOT, DOT]" "dir_map esq l = None"
    using o(5,7) src(2,3) dst(2) by (auto simp: dots_def)
  have room2: "enough d2 F q (fsize d2 q + BLOCKSIZE)" "fsize d2 q + BLOCKSIZE \<le> MAX_FILESIZE"
    using room o(16) by (simp_all add: enough_def fcount_blocks_def)
  from path_rename_spec [OF holdsD(1) [OF o(1)] o(4) names(1-3) o(6) names(4) o(8-12,14,15) few_refs_mono [OF o(3)] room2]
  obtain d3 F' where d3: "path_rename d2 hq hs user grp = Some (0, d3)" "stepped (dom G - {p, q, t}) d2 F' Is (dom G) (refs_of d2) d3"
      "entry_moved d2 p n m q l k t est d3"
    unfolding o(5,7) by auto
  have "holds F' Is d3 (ns_rename p n q l G)"
    by (rule holds_moved [OF o(1) p src(2) q tx(1) o(10,11,13) tx(2) d3(2,3)]) simp
  moreover have "ns_inv (ns_rename p n q l G)"
    by (rule ns_rename_inv [OF sv(6) D(1) src(2,3) D(2) dst(2) t(1)])
  moreover have "is_dir (ns_rename p n q l G) p" "is_dir (ns_rename p n q l G) q"
    using D by (auto simp: is_dir_def ns_rename_def on_dir_parts split: option.splits)
  ultimately show ?thesis
    using st(2) d3(1,2) unfolding stepped_def by fastforce
qed

theorem candy_rename_replaces:
  fixes d :: "'x path_env_scheme"
  assumes s: "serves F Is d f G" and few: "few_refs 5 f" and src: "ns_at G user grp ns p n m" "m n = Some t" "n \<notin> dots"
    and dst: "ns_at G user grp ns' q l k" "k l = Some c" "l \<notin> dots" and t: "\<not> inside (dir_of G) t q" "G t = Some (a, x)" "x \<noteq> Gone"
    and c: "(p, n) \<noteq> (q, l)" "G c = Some (b, y)" "y \<noteq> Gone" "ns_rename_error G t c = 0"
    and room: "enough d F q (fsize d q + BLOCKSIZE)" "fsize d q + BLOCKSIZE \<le> MAX_FILESIZE"
  shows "\<exists>d' F' Is'. candy_rename d (entry_path ns n) (entry_path ns' l) user grp = Some (0, d') \<and>
    serves F' Is' d' f (ns_rename p n q l (ns_clear q l (f c \<noteq> 0) G))"
proof -
  note sv = servesD [OF s]
  obtain bp bq where p: "G p = Some (bp, Dir m)" and q: "G q = Some (bq, Dir k)"
    using src(1) dst(1) by (auto simp: ns_at_def)
  have D: "dir_of G p = Some m" "dir_of G q = Some k"
    using p q by (auto simp: dir_of_eq)
  from rename_opened [OF s few src dst(1) t c(1)]
  obtain hq hs ess esq est and d2 :: "'x path_env_scheme" where st: "rename_state user grp F Is d f G p n m t x q l k hs hq ess esq est d2"
    "\<forall>e F' Is' G' d3. path_rename d2 hq hs user grp = Some (e, d3) \<and> holds F' Is' d3 G' \<and> refs_of d3 = refs_of d2 \<and>
       open_path_table d3 = open_path_table d2 \<and> ns_inv G' \<and> is_dir G' p \<and> is_dir G' q \<and> - 4096 \<le> e \<and> e \<le> 0 \<longrightarrow>
       (\<exists>d'. candy_rename d (entry_path ns n) (entry_path ns' l) user grp = Some (e, d') \<and> serves F' Is' d' f G')" .
  note o = rename_stateD [OF st(1)]
  have cq: "c \<noteq> q"
    by (rule not_own_child [OF sv(2,7) D(2) dst(2,3)])
  have cp: "c \<noteq> p"
  proof
    assume "c = p"
    then have "dom m \<subseteq> dots"
      using c(4) D(1) by (auto simp: ns_rename_error_def split: if_splits)
    then show False
      using src(2,3) by blast
  qed
  have isdir: "S_ISDIR (imode (inode_at d2 j)) = is_dir G j" if "G j = Some (b', z)" "z \<noteq> Gone" for j b' z
    using node_rep_mode [OF holdsD(3) [OF o(1) that(1)]] that by (auto simp: is_dir_def dir_of_eq)
  have "is_dir G c = is_dir G t"
    using c(4) by (auto simp: ns_rename_error_def is_dir_def split: option.splits if_splits)
  then have kind: "S_ISDIR (imode (inode_at d2 c)) = S_ISDIR (imode (inode_at d2 t))"
    using isdir [OF c(2,3)] isdir [OF t(2,3)] by simp
  have empty: "S_ISDIR (imode (inode_at d2 c)) \<longrightarrow> (\<exists>es. dir_rep d2 c [es] \<and> length es \<le> 2)"
  proof
    assume "S_ISDIR (imode (inode_at d2 c))"
    then obtain mc where mc: "dir_of G c = Some mc" "dom mc \<subseteq> dots"
      using isdir [OF c(2,3)] c(4) by (auto simp: is_dir_def ns_rename_error_def split: option.splits if_splits)
    then obtain ess_c where ec: "dir_rep d2 c ess_c" "dir_map ess_c = mc"
      using holdsD(3) [OF o(1), of c] by (auto simp: dir_of_eq)
    obtain es where "ess_c = [es]" "length es \<le> 2"
      using empty_dir_block [of ess_c] ec mc(2) by (auto simp: dir_rep_def dots_def)
    then show "\<exists>es. dir_rep d2 c [es] \<and> length es \<le> 2"
      using ec(1) by blast
  qed
  have names: "dir_map ess n = Some t" "n \<noteq> [DOT]" "n \<noteq> [DOT, DOT]" "dir_map esq l = Some c" "l \<noteq> [DOT]" "l \<noteq> [DOT, DOT]" "c \<in> dom G"
    using o(5,7) src(2,3) dst(2,3) c(2) by (auto simp: dots_def)
  have room2: "enough d2 F q (fsize d2 q + BLOCKSIZE)" "fsize d2 q + BLOCKSIZE \<le> MAX_FILESIZE"
    using room o(16) by (simp_all add: enough_def fcount_blocks_def)
  have few2: "few_refs 2 (refs_of d2)"
    using few_refs_mono [OF o(3)] by simp
  have shared: "links_of G t \<noteq> 1" "\<not> is_dir G t" if "c = t"
    using two_names [OF sv(2) D(1) src(2,3) D(2) _ dst(3) c(1)] dst(2) that by fastforce+
  have second: "c = t \<longrightarrow> \<not> S_ISDIR (imode (inode_at d2 t)) \<and> inlinks (inode_at d2 t) \<noteq> 1"
    using shared isdir [OF t(2,3)] holdsD(2) [OF o(1) t(2)] t(2) by (auto simp: links_of_def attr_of_def)
  from path_rename_replaces [OF holdsD(1) [OF o(1)] o(4) names(1-3) o(6) names(4-6) o(8-11) names(7) cp cq c(1) second o(12) kind empty o(14,15) few2 room2]
  obtain d1 F1 Is1 A1 d3 F' where d3: "path_rename d2 hq hs user grp = Some (0, d3)"
      "cut_off d2 F (dom G) q l k c (inc (refs_of d2) t) d1 F1 Is1 A1" "stepped (A1 - {p, q, t}) d1 F' Is1 A1 (refs_of d2) d3"
      "entry_moved d1 p n m q l (k(l := None)) t est d3"
    unfolding o(5,7) by blast
  let ?G = "ns_clear q l (f c \<noteq> 0) G"
  have held: "ns_clear q l (inc (refs_of d2) t c \<noteq> 0) G = ?G"
  proof (cases "c = t")
    case True
    then have "a_links b \<noteq> 1"
      using shared(1) c(2) by (auto simp: links_of_def)
    then show ?thesis
      by (rule ns_clear_held [OF q dst(2) c(2)])
  next
    case False
    then show ?thesis
      using o(2) cp cq by (simp add: inc_def)
  qed
  have h1: "holds F1 Is1 d1 ?G" "dom ?G = A1"
    using cut_off_holds [OF o(1) q dst(2) c(2) cq c(3) d3(2)] unfolding held by simp_all
  note at = ns_clear_at [where held = "f c \<noteq> 0", OF q dst(2) c(2) cq]
  have Gp: "?G p = Some (if p = q then bq else bp, Dir (if p = q then k(l := None) else m))" "(if p = q then k(l := None) else m) n = Some t"
    using at p q cp src(2) c(1) by auto
  obtain a' where Gt: "?G t = Some (a', x)"
  proof (cases "c = t")
    case True
    then have "a_links b \<noteq> 1" "\<not> is_dir G c"
      using shared c(2) by (auto simp: links_of_def)
    from ns_clear_shared [OF q dst(2) c(2) this(1) cq this(2)] show thesis
      using that True c(2) t(2) by simp
  qed (use that at(2) [of t] o(11) t(2) in simp)
  have "holds F' Is1 d3 (ns_rename p n q l ?G)"
    by (rule holds_moved [OF h1(1) Gp at(1) Gt o(10,11,13) t(3) d3(3) [folded h1(2)] d3(4)]) auto
  moreover have D1: "dir_of ?G p = Some (if p = q then k(l := None) else m)" "dir_of ?G q = Some (k(l := None))"
    using Gp(1) at(1) unfolding dir_of_eq by blast+
  have "\<not> inside (dir_of ?G) t q"
    using ns_clear_inside [OF q dst(2,3) c(2) cq] t(1) by blast
  from ns_rename_inv [OF ns_clear_inv [OF sv(6) q dst(2,3) c(2,4)] D1(1) Gp(2) src(3) D1(2) _ this]
  have "ns_inv (ns_rename p n q l ?G)"
    by simp
  moreover have "is_dir (ns_rename p n q l ?G) p" "is_dir (ns_rename p n q l ?G) q"
    using D1 by (auto simp: is_dir_def ns_rename_def on_dir_parts split: option.splits)
  moreover have "refs_of d3 = refs_of d2" "open_path_table d3 = open_path_table d2"
    using d3(2,3) by (simp_all add: stepped_def cut_off_def)
  ultimately show ?thesis
    using st(2) d3(1) by fastforce
qed

theorem candy_rename_refuses:
  fixes d :: "'x path_env_scheme"
  assumes s: "serves F Is d f G" and few: "few_refs 5 f" and src: "ns_at G user grp ns p n m" "m n = Some t" "n \<notin> dots"
    and dst: "ns_at G user grp ns' q l k" "k l = Some c" and t: "\<not> inside (dir_of G) t q" "G t = Some (a, x)" "x \<noteq> Gone"
    and c: "c \<noteq> t" "G c = Some (b, y)" "y \<noteq> Gone" "ns_rename_error G t c \<noteq> 0"
  shows "\<exists>d'. candy_rename d (entry_path ns n) (entry_path ns' l) user grp = Some (ns_rename_error G t c, d') \<and> serves F Is d' f G"
proof -
  note sv = servesD [OF s]
  have D: "dir_of G p = Some m" "dir_of G q = Some k"
    using src(1) dst(1) by (auto simp: ns_at_def dir_of_eq)
  have "(p, n) \<noteq> (q, l)"
    using D src(2) dst(2) c(1) by auto
  from rename_opened [OF s few src dst(1) t this]
  obtain hq hs ess esq est and d2 :: "'x path_env_scheme" where st: "rename_state user grp F Is d f G p n m t x q l k hs hq ess esq est d2"
    "\<forall>e F' Is' G' d3. path_rename d2 hq hs user grp = Some (e, d3) \<and> holds F' Is' d3 G' \<and> refs_of d3 = refs_of d2 \<and>
       open_path_table d3 = open_path_table d2 \<and> ns_inv G' \<and> is_dir G' p \<and> is_dir G' q \<and> - 4096 \<le> e \<and> e \<le> 0 \<longrightarrow>
       (\<exists>d'. candy_rename d (entry_path ns n) (entry_path ns' l) user grp = Some (e, d') \<and> serves F' Is' d' f G')" .
  note o = rename_stateD [OF st(1)]
  have isdir: "S_ISDIR (imode (inode_at d2 j)) = is_dir G j" if "G j = Some (b', z)" "z \<noteq> Gone" for j b' z
    using node_rep_mode [OF holdsD(3) [OF o(1) that(1)]] that by (auto simp: is_dir_def dir_of_eq)
  have full: "\<exists>ess. dir_rep d2 c ess \<and> (1 < length ess \<or> (\<exists>es. ess = [es] \<and> 2 < length es))" if mc: "dir_of G c = Some mc" "\<not> dom mc \<subseteq> dots" for mc
  proof -
    obtain ess_c where "dir_rep d2 c ess_c" "dir_map ess_c = mc"
      using holdsD(3) [OF o(1), of c] mc(1) by (auto simp: dir_of_eq)
    then show ?thesis
      using full_dir_block [of ess_c] mc(2) unfolding dir_rep_def by blast
  qed
  have bad: "rename_error d2 t c (ns_rename_error G t c)"
    using c(4) isdir [OF c(2,3)] isdir [OF t(2,3)] full
    by (auto simp: rename_error_def ns_rename_error_def is_dir_def split: option.splits if_splits)
  have lc: "linked d2 (dom G) c"
  proof -
    have "0 < links_of G c"
      using entry_target(2) [OF sv(2) D(2) dst(2)] .
    then show ?thesis
      using c(2) holdsD(2) [OF o(1) c(2)] by (auto simp: linked_def links_of_def attr_of_def)
  qed
  have names: "dir_map ess n = Some t" "dir_map esq l = Some c"
    using o(5,7) src(2) dst(2) by simp_all
  have few2: "few_refs 2 (refs_of d2)"
    using few_refs_mono [OF o(3)] by simp
  from path_rename_refused [OF holdsD(1) [OF o(1)] o(4) names(1) o(6) names(2) lc o(9) bad o(14,15) few2]
  obtain d3 where d3: "path_rename d2 hq hs user grp = Some (ns_rename_error G t c, d3)" "stepped (dom G) d2 F Is (dom G) (refs_of d2) d3"
    by blast
  have "holds F Is d3 G"
    using holds_files [OF o(1)] d3(2) unfolding stepped_def by blast
  moreover have "is_dir G p" "is_dir G q"
    using D by (simp_all add: is_dir_def)
  moreover have "- 4096 \<le> ns_rename_error G t c" "ns_rename_error G t c \<le> 0"
    by (simp_all add: ns_rename_error_def split: option.split)
  ultimately show ?thesis
    using st(2) d3 sv(6) unfolding stepped_def by blast
qed

theorem candy_rename_itself:
  fixes d :: "'x path_env_scheme"
  assumes s: "serves F Is d f G" and few: "few_refs 5 f" and src: "ns_at G user grp ns p n m" "m n = Some t" and dst: "ns_at G user grp ns' p n m"
  shows "\<exists>d'. candy_rename d (entry_path ns n) (entry_path ns' n) user grp = Some (0, d') \<and> serves F Is d' f G"
proof -
  note sv = servesD [OF s]
  have few4: "few_refs 4 (refs_of d)" "few_refs 5 (refs_of d)"
    using few few_refs_mono [OF few] sv(3) by simp_all
  obtain ess where ess: "caller_at F Is (dom G) d user grp ns p n ess" "dir_map ess = m"
    using ns_caller [OF sv(1,2) few4(1) src(1)] by blast
  obtain ess' where "caller_at F Is (dom G) d user grp ns' p n ess'"
    using ns_caller [OF sv(1,2) few4(1) dst] by blast
  then have "caller_at F Is (dom G) d user grp ns' p n ess"
    using ess(1) by (simp add: caller_at_def)
  then show ?thesis
    using candy_rename_same [OF ess(1) _ ns_at_linked [OF s src]] few4(2) ess(2) src(2) finished_serves [OF s] by blast
qed

end
