(* ===== verification/Fuse_Run.thy ===== *)
theory Fuse_Run
  imports Fuse_Refused Fuse_Refine_Rename Inode_Steps
begin

text \<open>
  Histories of the mounted file system: a sequence of FUSE operations that their guard allows,
  started on a freshly formatted disk, does to the file system as its users see it what the same
  sequence of operations on names does and returns the codes that they have, and operations
  that are refused change nothing that its users see.
\<close>

section \<open>Operations\<close>

datatype fuse_op =
    Op_mkdir "byte list list" "byte list" u32
  | Op_create "byte list list" "byte list" u32
  | Op_symlink "byte list" "byte list list" "byte list"
  | Op_link "byte list list" "byte list" "byte list list" "byte list"
  | Op_unlink "byte list list" "byte list"
  | Op_rmdir "byte list list" "byte list"
  | Op_rename "byte list list" "byte list" "byte list list" "byte list"
  | Op_chmod "byte list list" "byte list" u32
  | Op_truncate "byte list list" "byte list" nat
  | Op_open "byte list list" "byte list" u32
  | Op_read ino "byte list" int
  | Op_write ino u32 "byte list" int
  | Op_release ino
  | Op_chown "byte list list" "byte list" u32 u32
  | Op_utimens "byte list list" "byte list" timespec timespec
  | Op_access "byte list list" "byte list" u32
  | Op_ftruncate ino nat
  | Op_getattr "byte list list" "byte list"
  | Op_fgetattr ino
  | Op_readlink "byte list list" "byte list" "byte list"
  | Op_opendir "byte list list" "byte list" u32
  | Op_readdir ino "(byte list \<times> int) list \<Rightarrow> bool" nat
  | Op_releasedir ino
  | Op_statfs

text \<open>The entry of \<open>operations\<close> that FUSE calls, with the result that it returns.\<close>

fun fuse_exec :: "fuse_op \<Rightarrow> u32 \<Rightarrow> u32 \<Rightarrow> 'x path_env_scheme \<Rightarrow> (int \<times> 'x path_env_scheme) option" where
  "fuse_exec (Op_mkdir ns n mode) user grp d = candy_mkdir d (entry_path ns n) mode user grp"
| "fuse_exec (Op_create ns n mode) user grp d = map_option (\<lambda>(r, _, d). (r, d)) (candy_create d (entry_path ns n) mode user grp)"
| "fuse_exec (Op_symlink tgt ns n) user grp d = candy_symlink d tgt (entry_path ns n) user grp"
| "fuse_exec (Op_link ns n ns' l) user grp d = candy_link d (entry_path ns n) (entry_path ns' l) user grp"
| "fuse_exec (Op_unlink ns n) user grp d = candy_unlink d (entry_path ns n) user grp"
| "fuse_exec (Op_rmdir ns n) user grp d = candy_rmdir d (entry_path ns n) user grp"
| "fuse_exec (Op_rename ns n ns' l) user grp d = candy_rename d (entry_path ns n) (entry_path ns' l) user grp"
| "fuse_exec (Op_chmod ns n mode) user grp d = candy_chmod d (entry_path ns n) mode user grp"
| "fuse_exec (Op_truncate ns n sz) user grp d = candy_truncate d (entry_path ns n) (int sz) user grp"
| "fuse_exec (Op_open ns n flags) user grp d = map_option (\<lambda>(r, _, d). (r, d)) (candy_open d (entry_path ns n) flags user grp)"
| "fuse_exec (Op_read i buf offset) user grp d = map_option (\<lambda>(r, _, d). (r, d)) (candy_read d i buf offset)"
| "fuse_exec (Op_write i flags buf offset) user grp d = candy_write d i flags buf offset"
| "fuse_exec (Op_release i) user grp d = candy_release d i"
| "fuse_exec (Op_chown ns n owner gid) user grp d = candy_chown d (entry_path ns n) owner gid user grp"
| "fuse_exec (Op_utimens ns n atime mtime) user grp d = candy_utimens d (entry_path ns n) atime mtime user grp"
| "fuse_exec (Op_access ns n flags) user grp d = candy_access d (entry_path ns n) flags user grp"
| "fuse_exec (Op_ftruncate i sz) user grp d = candy_ftruncate d i (int sz)"
| "fuse_exec (Op_getattr ns n) user grp d = map_option (\<lambda>(r, _, d). (r, d)) (candy_getattr d (entry_path ns n) user grp)"
| "fuse_exec (Op_fgetattr i) user grp d = map_option (\<lambda>(r, _). (r, d)) (candy_fgetattr d i)"
| "fuse_exec (Op_readlink ns n buf) user grp d = map_option (\<lambda>(r, _, d). (r, d)) (candy_readlink d (entry_path ns n) buf user grp)"
| "fuse_exec (Op_opendir ns n flags) user grp d = map_option (\<lambda>(r, _, d). (r, d)) (candy_opendir d (entry_path ns n) flags user grp)"
| "fuse_exec (Op_readdir i filler off) user grp d = map_option (\<lambda>(r, _, d). (r, d)) (candy_readdir d filler (int off) i [])"
| "fuse_exec (Op_releasedir i) user grp d = candy_releasedir d i"
| "fuse_exec Op_statfs user grp d = map_option (\<lambda>_. (0, d)) (candy_statfs d)"

section \<open>What they do\<close>

text \<open>The directory and the inode that a path leads to.\<close>

definition entry_of :: "namespace \<Rightarrow> u32 \<Rightarrow> u32 \<Rightarrow> byte list list \<Rightarrow> byte list \<Rightarrow> (ino \<times> ino option) option" where
  "entry_of G user grp ns n = (case walk G user grp 0 ns of
      None \<Rightarrow> None
    | Some p \<Rightarrow> (case dir_of G p of None \<Rightarrow> None | Some m \<Rightarrow> Some (p, m n)))"

lemma entry_of_see: "ns_see G user grp ns p n m \<Longrightarrow> entry_of G user grp ns n = Some (p, m n)"
  by (auto simp: ns_see_def entry_of_def dir_of_def)

lemma entry_of_at: "ns_at G user grp ns p n m \<Longrightarrow> entry_of G user grp ns n = Some (p, m n)"
  by (auto simp: ns_at_def entry_of_def dir_of_def)

definition dec :: "(ino \<Rightarrow> nat) \<Rightarrow> ino \<Rightarrow> ino \<Rightarrow> nat" where
  "dec f i = f(i := f i - 1)"

lemma dec_inc [simp]: "dec (inc f i) i = f"
  by (simp add: dec_def inc_def fun_eq_iff)

text \<open>\<open>f\<close> counts the open files and \<open>i\<close> is the inode number that a new file gets.\<close>

fun ns_exec :: "fuse_op \<Rightarrow> u32 \<Rightarrow> u32 \<Rightarrow> ino \<Rightarrow> (ino \<Rightarrow> nat) \<times> namespace \<Rightarrow> (ino \<Rightarrow> nat) \<times> namespace" where
  "ns_exec (Op_mkdir ns n mode) user grp i (f, G) = (case entry_of G user grp ns n of
     Some (p, _) \<Rightarrow> (f, ns_mkdir p n i mode user grp G) | _ \<Rightarrow> (f, G))"
| "ns_exec (Op_create ns n mode) user grp i (f, G) = (case entry_of G user grp ns n of
     Some (p, _) \<Rightarrow> (inc f i, ns_create p n i (mode AND 0xFFF) user grp G) | _ \<Rightarrow> (f, G))"
| "ns_exec (Op_symlink tgt ns n) user grp i (f, G) = (case entry_of G user grp ns n of
     Some (p, _) \<Rightarrow> (f, ns_symlink p n i tgt user grp G) | _ \<Rightarrow> (f, G))"
| "ns_exec (Op_link ns n ns' l) user grp i (f, G) = (case (entry_of G user grp ns n, entry_of G user grp ns' l) of
     (Some (_, Some t), Some (q, _)) \<Rightarrow> (f, ns_link q l t G) | _ \<Rightarrow> (f, G))"
| "ns_exec (Op_unlink ns n) user grp i (f, G) = (case entry_of G user grp ns n of
     Some (p, Some t) \<Rightarrow> (f, ns_unlink p n (f t \<noteq> 0) G) | _ \<Rightarrow> (f, G))"
| "ns_exec (Op_rmdir ns n) user grp i (f, G) = (case entry_of G user grp ns n of
     Some (p, Some t) \<Rightarrow> (f, ns_rmdir p n (f t \<noteq> 0) G) | _ \<Rightarrow> (f, G))"
| "ns_exec (Op_rename ns n ns' l) user grp i (f, G) = (case (entry_of G user grp ns n, entry_of G user grp ns' l) of
     (Some (p, Some t), Some (q, Some c)) \<Rightarrow>
       (f, if (p, n) = (q, l) \<or> ns_rename_error G t c \<noteq> 0 then G else ns_rename p n q l (ns_clear q l (f c \<noteq> 0) G))
   | (Some (p, _), Some (q, _)) \<Rightarrow> (f, ns_rename p n q l G)
   | _ \<Rightarrow> (f, G))"
| "ns_exec (Op_chmod ns n mode) user grp i (f, G) = (case entry_of G user grp ns n of
     Some (_, Some t) \<Rightarrow>
       (case G t of
          Some (a, _) \<Rightarrow> (f, if user = 0 \<or> user = a_owner a then ns_chmod t (mode AND 0xFFF) G else G)
        | None \<Rightarrow> (f, G))
   | _ \<Rightarrow> (f, G))"
| "ns_exec (Op_truncate ns n sz) user grp i (f, G) = (case entry_of G user grp ns n of
     Some (_, Some t) \<Rightarrow> (f, ns_file t (\<lambda>bs. truncate_bytes bs sz) G) | _ \<Rightarrow> (f, G))"
| "ns_exec (Op_open ns n flags) user grp i (f, G) = (case entry_of G user grp ns n of
     Some (_, Some t) \<Rightarrow>
       (case (G t, access_mode_of flags) of
          (Some (a, _), Some perms) \<Rightarrow> (if may a perms user grp then inc f t else f, G)
        | _ \<Rightarrow> (f, G))
   | _ \<Rightarrow> (f, G))"
| "ns_exec (Op_read j buf offset) user grp i (f, G) = (f, G)"
| "ns_exec (Op_write j flags buf offset) user grp i (f, G) = (f, ns_file j (\<lambda>bs. write_bytes bs (write_at flags bs offset) buf) G)"
| "ns_exec (Op_release j) user grp i (f, G) = (dec f j, if f j = 1 then ns_forget j G else G)"
| "ns_exec (Op_chown ns n owner gid) user grp i (f, G) = (case entry_of G user grp ns n of
     Some (_, Some t) \<Rightarrow> (f, if user = 0 then ns_attr t (set_owner owner gid) G else G) | _ \<Rightarrow> (f, G))"
| "ns_exec (Op_ftruncate j sz) user grp i (f, G) = (f, ns_file j (\<lambda>bs. truncate_bytes bs sz) G)"
| "ns_exec (Op_opendir ns n flags) user grp i (f, G) = (case entry_of G user grp ns n of
     Some (_, Some t) \<Rightarrow>
       (case (G t, access_mode_of flags) of
          (Some (a, _), Some perms) \<Rightarrow> (if may a perms user grp then inc f t else f, G)
        | _ \<Rightarrow> (f, G))
   | _ \<Rightarrow> (f, G))"
| "ns_exec (Op_releasedir j) user grp i (f, G) = (dec f j, if f j = 1 then ns_forget j G else G)"
| "ns_exec (Op_utimens _ _ _ _) user grp i (f, G) = (f, G)"
| "ns_exec (Op_access _ _ _) user grp i (f, G) = (f, G)"
| "ns_exec (Op_getattr _ _) user grp i (f, G) = (f, G)"
| "ns_exec (Op_fgetattr _) user grp i (f, G) = (f, G)"
| "ns_exec (Op_readlink _ _ _) user grp i (f, G) = (f, G)"
| "ns_exec (Op_readdir _ _ _) user grp i (f, G) = (f, G)"
| "ns_exec Op_statfs user grp i (f, G) = (f, G)"

text \<open>The result.\<close>

definition attr_at :: "namespace \<Rightarrow> u32 \<Rightarrow> u32 \<Rightarrow> byte list list \<Rightarrow> byte list \<Rightarrow> fattr option" where
  "attr_at G user grp ns n = (case entry_of G user grp ns n of Some (_, Some t) \<Rightarrow> map_option fst (G t) | _ \<Rightarrow> None)"

definition allowed_if :: "(fattr \<Rightarrow> bool) \<Rightarrow> fattr option \<Rightarrow> int" where
  "allowed_if ok a = (case a of None \<Rightarrow> - ENOENT | Some a \<Rightarrow> if ok a then 0 else - EACCES)"

fun ns_result :: "fuse_op \<Rightarrow> u32 \<Rightarrow> u32 \<Rightarrow> namespace \<Rightarrow> int" where
  "ns_result (Op_rename ns n ns' l) user grp G = (case (entry_of G user grp ns n, entry_of G user grp ns' l) of
     (Some (p, Some t), Some (q, Some c)) \<Rightarrow> if (p, n) = (q, l) then 0 else ns_rename_error G t c
   | _ \<Rightarrow> 0)"
| "ns_result (Op_chmod ns n mode) user grp G = allowed_if (\<lambda>a. user = 0 \<or> user = a_owner a) (attr_at G user grp ns n)"
| "ns_result (Op_chown ns n owner gid) user grp G = allowed_if (\<lambda>_. user = 0) (attr_at G user grp ns n)"
| "ns_result (Op_utimens ns n atime mtime) user grp G =
     allowed_if (\<lambda>a. user = 0 \<or> user = a_owner a \<or> may a PERM_WRITE user grp) (attr_at G user grp ns n)"
| "ns_result (Op_access ns n flags) user grp G = allowed_if (\<lambda>a. may a (wanted flags) user grp) (attr_at G user grp ns n)"
| "ns_result (Op_open ns n flags) user grp G = allowed_if (\<lambda>a. may a (the (access_mode_of flags)) user grp) (attr_at G user grp ns n)"
| "ns_result (Op_opendir ns n flags) user grp G = allowed_if (\<lambda>a. may a (the (access_mode_of flags)) user grp) (attr_at G user grp ns n)"
| "ns_result (Op_getattr ns n) user grp G = allowed_if (\<lambda>_. True) (attr_at G user grp ns n)"
| "ns_result (Op_read j buf offset) user grp G = (case G j of
     Some (_, File bs) \<Rightarrow> int (length (slice (nat offset) (length buf) bs)) | _ \<Rightarrow> 0)"
| "ns_result (Op_write j flags buf offset) user grp G = int (length buf)"
| "ns_result _ user grp G = 0"

section \<open>When they succeed\<close>

definition next_ino :: "'x inode_env_scheme \<Rightarrow> ino" where
  "next_ino d = (case inode_allocate d of Some (i, _) \<Rightarrow> i | None \<Rightarrow> -1)"

definition room_for_entry :: "'x disk_t_scheme \<Rightarrow> ino set \<Rightarrow> ino \<Rightarrow> bool" where
  "room_for_entry d A p \<longleftrightarrow> enough d (free_set d A) p (fsize d p + BLOCKSIZE) \<and> fsize d p + BLOCKSIZE \<le> MAX_FILESIZE"

text \<open>A new inode can be made, and its entry put into directory \<open>p\<close>.\<close>

definition room_for_new :: "'x path_env_scheme \<Rightarrow> ino set \<Rightarrow> ino \<Rightarrow> bool" where
  "room_for_new d A p \<longleftrightarrow> next_ino d \<noteq> -1 \<and> room_for_dir d (free_set d A) p"

text \<open>
  The caller may do the operation and there is room for it.  A directory is not moved into
  itself, which the kernel checks before it calls FUSE.
\<close>

fun fuse_ok :: "fuse_op \<Rightarrow> u32 \<Rightarrow> u32 \<Rightarrow> 'x path_env_scheme \<Rightarrow> (ino \<Rightarrow> nat) \<Rightarrow> namespace \<Rightarrow> bool" where
  "fuse_ok (Op_mkdir ns n mode) user grp d f G = (few_refs 5 f \<and> user \<noteq> -1 \<and> grp \<noteq> -1 \<and> mode AND 0xFFF = mode \<and>
     (\<exists>p m. ns_at G user grp ns p n m \<and> m n = None \<and> room_for_new d (dom G) p))"
| "fuse_ok (Op_create ns n mode) user grp d f G = (few_refs 5 f \<and> user \<noteq> -1 \<and> grp \<noteq> -1 \<and> S_ISREG mode \<and>
     (\<exists>p m. ns_at G user grp ns p n m \<and> m n = None \<and> room_for_new d (dom G) p))"
| "fuse_ok (Op_symlink tgt ns n) user grp d f G = (few_refs 5 f \<and> user \<noteq> -1 \<and> grp \<noteq> -1 \<and> tgt \<noteq> [] \<and> length tgt \<le> PATH_MAX - 1 \<and>
     (\<exists>p m. ns_at G user grp ns p n m \<and> m n = None \<and> room_for_new d (dom G) p))"
| "fuse_ok (Op_link ns n ns' l) user grp d f G = (few_refs 5 f \<and>
     (\<exists>p m q k t a x. ns_see G user grp ns p n m \<and> m n = Some t \<and> G t = Some (a, x) \<and> ((\<exists>bs. x = File bs) \<or> (\<exists>bs. x = node.Link bs)) \<and>
        a_links a \<noteq> -1 \<and> ns_at G user grp ns' q l k \<and> k l = None \<and> room_for_entry d (dom G) q))"
| "fuse_ok (Op_unlink ns n) user grp d f G = (few_refs 5 f \<and>
     (\<exists>p m t a x. ns_at G user grp ns p n m \<and> m n = Some t \<and> n \<notin> dots \<and> G t = Some (a, x) \<and> ((\<exists>bs. x = File bs) \<or> (\<exists>bs. x = node.Link bs))))"
| "fuse_ok (Op_rmdir ns n) user grp d f G = (few_refs 5 f \<and>
     (\<exists>p m t mt. ns_at G user grp ns p n m \<and> m n = Some t \<and> n \<notin> dots \<and> dir_of G t = Some mt \<and> dom mt \<subseteq> dots))"
| "fuse_ok (Op_rename ns n ns' l) user grp d f G = (few_refs 5 f \<and>
     (\<exists>p m q k t. ns_at G user grp ns p n m \<and> m n = Some t \<and> n \<notin> dots \<and> ns_at G user grp ns' q l k \<and>
        \<not> inside (dir_of G) t q \<and> (\<forall>a. G t \<noteq> Some (a, Gone)) \<and> room_for_entry d (dom G) q \<and>
        (k l = None \<or> (p, n) = (q, l) \<or> (\<exists>c b y. k l = Some c \<and> l \<notin> dots \<and> G c = Some (b, y) \<and> y \<noteq> Gone))))"
| "fuse_ok (Op_chmod ns n mode) user grp d f G = (few_refs 5 f \<and>
     (\<exists>p m t a x. ns_see G user grp ns p n m \<and> m n = Some t \<and> G t = Some (a, x) \<and> (\<forall>bs. x \<noteq> node.Link bs)))"
| "fuse_ok (Op_truncate ns n sz) user grp d f G = (few_refs 5 f \<and>
     (\<exists>p m t a bs. ns_see G user grp ns p n m \<and> m n = Some t \<and> G t = Some (a, File bs) \<and> int sz \<le> MAX_FILESIZE \<and>
        enough d (free_set d (dom G)) t (int sz)))"
| "fuse_ok (Op_open ns n flags) user grp d f G = (few_refs 5 f \<and> access_mode_of flags \<noteq> None \<and>
     (\<exists>p m t a bs. ns_see G user grp ns p n m \<and> m n = Some t \<and> G t = Some (a, File bs)))"
| "fuse_ok (Op_read j buf offset) user grp d f G = (0 \<le> offset \<and> length buf < 2 ^ 31 \<and> (\<exists>a bs. G j = Some (a, File bs)))"
| "fuse_ok (Op_write j flags buf offset) user grp d f G = (0 \<le> offset \<and> length buf < 2 ^ 31 \<and>
     (\<exists>a bs. G j = Some (a, File bs) \<and> int (write_at flags bs offset + length buf) \<le> MAX_FILESIZE \<and>
        enough d (free_set d (dom G)) j (int (write_at flags bs offset + length buf))))"
| "fuse_ok (Op_release j) user grp d f G = (0 < f j \<and> j \<in> dom G)"
| "fuse_ok (Op_chown ns n owner gid) user grp d f G = (few_refs 5 f \<and>
     (\<exists>p m t a x. ns_see G user grp ns p n m \<and> m n = Some t \<and> G t = Some (a, x) \<and> (\<forall>bs. x \<noteq> node.Link bs)))"
| "fuse_ok (Op_utimens ns n atime mtime) user grp d f G = (few_refs 5 f \<and>
     (\<exists>p m t. ns_see G user grp ns p n m \<and> m n = Some t))"
| "fuse_ok (Op_access ns n flags) user grp d f G = (few_refs 5 f \<and>
     (\<exists>p m t a x. ns_see G user grp ns p n m \<and> m n = Some t \<and> G t = Some (a, x) \<and> (\<forall>bs. x \<noteq> node.Link bs)))"
| "fuse_ok (Op_ftruncate j sz) user grp d f G = ((\<exists>a bs. G j = Some (a, File bs)) \<and> int sz \<le> MAX_FILESIZE \<and>
     enough d (free_set d (dom G)) j (int sz))"
| "fuse_ok (Op_getattr ns n) user grp d f G = (few_refs 5 f \<and> (\<exists>p m. ns_see G user grp ns p n m))"
| "fuse_ok (Op_fgetattr j) user grp d f G = (j \<in> dom G)"
| "fuse_ok (Op_readlink ns n buf) user grp d f G = (few_refs 5 f \<and> buf \<noteq> [] \<and> length buf < 2 ^ 31 \<and>
     (\<exists>p m t a bs. ns_see G user grp ns p n m \<and> m n = Some t \<and> G t = Some (a, node.Link bs)))"
| "fuse_ok (Op_opendir ns n flags) user grp d f G = (few_refs 5 f \<and> access_mode_of flags \<noteq> None \<and>
     (\<exists>p m t a k. ns_see G user grp ns p n m \<and> m n = Some t \<and> G t = Some (a, Dir k)))"
| "fuse_ok (Op_readdir j filler off) user grp d f G = (is_dir G j \<and> 32 * int off \<le> fsize d j)"
| "fuse_ok (Op_releasedir j) user grp d f G = (0 < f j \<and> j \<in> dom G)"
| "fuse_ok Op_statfs user grp d f G = True"

section \<open>When they are refused\<close>

text \<open>Not even a new inode with one block of content can be made.\<close>

definition no_space :: "'x path_env_scheme \<Rightarrow> ino set \<Rightarrow> bool" where
  "no_space d A \<longleftrightarrow> next_ino d = -1 \<or> card (free_set d A) < 2"

definition missing_name :: "(ino \<Rightarrow> nat) \<Rightarrow> namespace \<Rightarrow> u32 \<Rightarrow> u32 \<Rightarrow> byte list list \<Rightarrow> byte list \<Rightarrow> int \<Rightarrow> (ino \<Rightarrow> nat) \<Rightarrow> bool" where
  "missing_name f G user grp ns n e f' \<longleftrightarrow> few_refs 5 f \<and> (\<exists>p. ns_hidden G user grp ns p n) \<and> e = - ENOENT \<and> f' = f"

text \<open>
  The operation returns the error \<open>e\<close> and changes no name and no file; \<open>f'\<close> counts the open
  files afterwards.
\<close>

fun fuse_refused :: "fuse_op \<Rightarrow> u32 \<Rightarrow> u32 \<Rightarrow> 'x path_env_scheme \<Rightarrow> (ino \<Rightarrow> nat) \<Rightarrow> namespace \<Rightarrow> int \<Rightarrow> (ino \<Rightarrow> nat) \<Rightarrow> bool" where
  "fuse_refused (Op_mkdir ns n mode) user grp d f G e f' = (few_refs 5 f \<and> f' = f \<and> (\<exists>p m. ns_at G user grp ns p n m \<and>
     (if no_space d (dom G) then e = - ENOSPC
      else e = - EEXIST \<and> m n \<noteq> None \<and> user \<noteq> -1 \<and> grp \<noteq> -1 \<and> mode AND 0xFFF = mode)))"
| "fuse_refused (Op_create ns n mode) user grp d f G e f' = (f' = f \<and>
     (if S_ISREG mode then next_ino d = -1 \<and> e = - ENOSPC else e = - EINVAL))"
| "fuse_refused (Op_symlink tgt ns n) user grp d f G e f' = (f' = f \<and>
     (if tgt = [] \<or> PATH_MAX - 1 < length tgt then e = - ENAMETOOLONG else no_space d (dom G) \<and> e = - ENOSPC))"
| "fuse_refused (Op_unlink ns n) user grp d f G e f' = (few_refs 5 f \<and> (\<exists>p m. ns_at G user grp ns p n m \<and>
     (case m n of None \<Rightarrow> e = - ENOENT \<and> f' = f | Some t \<Rightarrow> is_dir G t \<and> e = - EPERM \<and> f' = inc f t)))"
| "fuse_refused (Op_rmdir ns n) user grp d f G e f' = (few_refs 5 f \<and> f' = f \<and> (\<exists>p m. ns_at G user grp ns p n m \<and>
     (case m n of None \<Rightarrow> e = - ENOENT | Some t \<Rightarrow> (\<exists>mt. dir_of G t = Some mt \<and> \<not> dom mt \<subseteq> dots) \<and> e = - ENOTEMPTY)))"
| "fuse_refused (Op_link ns n ns' l) user grp d f G e f' = missing_name f G user grp ns n e f'"
| "fuse_refused (Op_chmod ns n mode) user grp d f G e f' = missing_name f G user grp ns n e f'"
| "fuse_refused (Op_chown ns n owner gid) user grp d f G e f' = missing_name f G user grp ns n e f'"
| "fuse_refused (Op_utimens ns n atime mtime) user grp d f G e f' = missing_name f G user grp ns n e f'"
| "fuse_refused (Op_access ns n flags) user grp d f G e f' = missing_name f G user grp ns n e f'"
| "fuse_refused (Op_truncate ns n sz) user grp d f G e f' = missing_name f G user grp ns n e f'"
| "fuse_refused (Op_open ns n flags) user grp d f G e f' = missing_name f G user grp ns n e f'"
| "fuse_refused (Op_opendir ns n flags) user grp d f G e f' = missing_name f G user grp ns n e f'"
| "fuse_refused (Op_getattr ns n) user grp d f G e f' = missing_name f G user grp ns n e f'"
| "fuse_refused (Op_readlink ns n buf) user grp d f G e f' = missing_name f G user grp ns n e f'"
| "fuse_refused _ user grp d f G e f' = False"

section \<open>The simulation\<close>

lemma next_ino_head:
  fixes d :: "'x path_env_scheme"
  assumes inv: "fs_inv d F Is A" and new: "next_ino d \<noteq> -1"
  obtains Is' where "Is = next_ino d # Is'"
proof (cases "F = {} \<or> Is = []")
  case True
  then show thesis
    using inode_allocate_full [OF inv] new by (auto simp: next_ino_def)
next
  case False
  then obtain i Is' where Is: "Is = i # Is'"
    by (cases Is) auto
  then show thesis
    using inode_allocate_spec [OF inv [unfolded Is]] False that by (auto simp: next_ino_def)
qed

lemma serves_free: "serves F Is d f G \<Longrightarrow> F = free_set d (dom G)"
  by (rule fs_inv_free_set [OF refs_inv_fs(1) [OF servesD(4)]])

lemma serves_new:
  fixes d :: "'x path_env_scheme"
  assumes s: "serves F Is d f G" and room: "room_for_new d (dom G) p"
  obtains Is' where "serves F (next_ino d # Is') d f G" "room_for_dir d F p"
proof -
  obtain Is' where "Is = next_ino d # Is'"
    using next_ino_head [OF refs_inv_fs(1) [OF servesD(4) [OF s]]] room by (auto simp: room_for_new_def)
  then show thesis
    using that s room serves_free [OF s] by (auto simp: room_for_new_def)
qed

lemma release_simulates:
  fixes d :: "'x path_env_scheme"
  assumes s: "serves F Is d f G" and j: "0 < f j \<and> j \<in> dom G"
  shows "\<exists>d' F' Is'. candy_release d j = Some (0, d') \<and> serves F' Is' d' (dec f j) (if f j = 1 then ns_forget j G else G)"
proof -
  have o: "0 < f j" "j \<in> dom G"
    using j by auto
  then have f: "inc (dec f j) j = f" "dec f j j = f j - 1"
    by (auto simp: inc_def dec_def fun_eq_iff)
  have "serves F Is d (inc (dec f j) j) G"
    using s f(1) by simp
  then show ?thesis
    using candy_release_refines [OF _ o(2), of F Is d "dec f j"] f(2) o(1) by (cases "f j = 1") fastforce+
qed

lemma releasedir_release: "candy_releasedir = candy_release"
  by (simp add: fun_eq_iff candy_release_def candy_releasedir_def)

lemma getattr_simulates:
  fixes d :: "'x path_env_scheme"
  assumes s: "serves F Is d f G" and few: "few_refs 4 f" and see: "ns_see G user grp ns p n m"
  shows "\<exists>st d'. candy_getattr d (entry_path ns n) user grp = Some (ns_result (Op_getattr ns n) user grp G, st, d') \<and> serves F Is d' f G"
proof (cases "m n")
  case None
  then have "ns_hidden G user grp ns p n"
    using see by (auto simp: ns_see_def ns_hidden_def)
  then show ?thesis
    using candy_getattr_missing [OF s few, of user grp ns p n] None entry_of_see [OF see] by (auto simp: attr_at_def allowed_if_def)
next
  case (Some t)
  then obtain a x where "G t = Some (a, x)"
    using see_links(2) [OF s see] by auto
  then show ?thesis
    using candy_getattr_refines [OF s few see Some] Some entry_of_see [OF see] by (fastforce simp: attr_at_def allowed_if_def)
qed

lemma readdir_simulates:
  fixes d :: "'x path_env_scheme"
  assumes s: "serves F Is d f G" and j: "is_dir G j" "32 * int off \<le> fsize d j"
  shows "\<exists>l d'. candy_readdir d filler (int off) j [] = Some (0, l, d') \<and> serves F Is d' f G"
proof -
  obtain a m where g: "G j = Some (a, Dir m)"
    using j(1) by (auto simp: is_dir_eq)
  note ii = inode_read [OF s g]
  obtain ess where ess: "dir_rep d j ess"
    using ii(3) by auto
  have dom: "j \<in> dom G"
    using g by blast
  have "off \<le> 128 * length ess"
    using j(2) dir_rep_size [OF ii(4) dom ess] by simp
  from candy_readdir_spec [OF ii(4) dom ess this] show ?thesis
    using only_read_serves [OF s g] by blast
qed

text \<open>Every operation that can succeed does, and what it does is what its counterpart on names does.\<close>

lemma rename_simulates:
  fixes d :: "'x path_env_scheme"
  assumes s: "serves F Is d f G" and ok: "fuse_ok (Op_rename ns n ns' l) user grp d f G"
  shows "\<exists>d' F' Is'. candy_rename d (entry_path ns n) (entry_path ns' l) user grp = Some (ns_result (Op_rename ns n ns' l) user grp G, d') \<and>
    serves F' Is' d' (fst (ns_exec (Op_rename ns n ns' l) user grp i (f, G))) (snd (ns_exec (Op_rename ns n ns' l) user grp i (f, G)))"
proof -
  obtain p m q k t where o: "ns_at G user grp ns p n m" "m n = Some t" "n \<notin> dots" "ns_at G user grp ns' q l k"
      "\<not> inside (dir_of G) t q" "\<forall>a. G t \<noteq> Some (a, Gone)" "room_for_entry d (dom G) q" "few_refs 5 f"
      "k l = None \<or> (p, n) = (q, l) \<or> (\<exists>c b y. k l = Some c \<and> l \<notin> dots \<and> G c = Some (b, y) \<and> y \<noteq> Gone)"
    using ok unfolding fuse_ok.simps by blast
  have room: "enough d F q (fsize d q + BLOCKSIZE)" "fsize d q + BLOCKSIZE \<le> MAX_FILESIZE"
    using o(7) serves_free [OF s] by (simp_all add: room_for_entry_def)
  have entries: "entry_of G user grp ns n = Some (p, Some t)" "entry_of G user grp ns' l = Some (q, k l)"
    using entry_of_at [OF o(1)] entry_of_at [OF o(4)] o(2) by simp_all
  consider "k l = None" | "(p, n) = (q, l)" | c b y where "(p, n) \<noteq> (q, l)" "k l = Some c" "l \<notin> dots" "G c = Some (b, y)" "y \<noteq> Gone"
    using o(9) by metis
  then show ?thesis
  proof cases
    case 1
    then show ?thesis
      using candy_rename_refines [OF s o(8,1-4) 1 o(5,6) room] entries by auto
  next
    case 2
    then have "k = m"
      using o(1,4) by (auto simp: ns_at_def)
    then show ?thesis
      using candy_rename_itself [OF s o(8,1,2), of ns'] o(2,4) 2 entries by fastforce
  next
    case 3
    have "t \<in> dom G"
      using entry_target(1) [OF servesD(2) [OF s], of p m n t] o(1,2) by (auto simp: ns_at_def dir_of_eq)
    then obtain a x where tx: "G t = Some (a, x)" "x \<noteq> Gone"
      using o(6) by fastforce
    show ?thesis
    proof (cases "ns_rename_error G t c = 0")
      case True
      then show ?thesis
        using candy_rename_replaces [OF s o(8,1-4) 3(2,3) o(5) tx 3(1,4,5) True room] entries 3(1,2) by auto
    next
      case False
      have "c \<noteq> t"
      proof
        assume "c = t"
        have D: "dir_of G p = Some m" "dir_of G q = Some k" "k l = Some t"
          using o(1,4) 3(2) \<open>c = t\<close> by (auto simp: ns_at_def dir_of_eq)
        have "\<not> is_dir G t"
          by (rule two_names(2) [OF servesD(2) [OF s] D(1) o(2,3) D(2,3) 3(3,1)])
        then show False
          using False \<open>c = t\<close> by (simp add: ns_rename_error_def is_dir_def)
      qed
      then show ?thesis
        using candy_rename_refuses [OF s o(8,1-4) 3(2) o(5) tx _ 3(4,5) False] False entries 3(1,2) by auto
    qed
  qed
qed

theorem fuse_simulates:
  fixes d :: "'x path_env_scheme"
  assumes s: "serves F Is d f G" and ok: "fuse_ok op user grp d f G"
  shows "\<exists>d' F' Is'. fuse_exec op user grp d = Some (ns_result op user grp G, d') \<and>
    serves F' Is' d' (fst (ns_exec op user grp (next_ino d) (f, G))) (snd (ns_exec op user grp (next_ino d) (f, G)))"
proof -
  have few4: "few_refs 5 f \<Longrightarrow> few_refs 4 f"
    using few_refs_mono by fastforce
  note free = serves_free [OF s]
  show ?thesis
  proof (cases op)
    case (Op_mkdir ns n mode)
    then obtain p m where o: "ns_at G user grp ns p n m" "m n = None" "room_for_new d (dom G) p" "few_refs 5 f" "user \<noteq> -1" "grp \<noteq> -1" "mode AND 0xFFF = mode"
      using ok by auto
    obtain Is' where "serves F (next_ino d # Is') d f G" "room_for_dir d F p"
      using serves_new [OF s o(3)] .
    then show ?thesis
      using candy_mkdir_refines [of F "next_ino d" Is' d f G user grp ns p n m mode] o few4 entry_of_at [OF o(1)] Op_mkdir by fastforce
  next
    case (Op_create ns n mode)
    then obtain p m where o: "ns_at G user grp ns p n m" "m n = None" "room_for_new d (dom G) p" "few_refs 5 f" "user \<noteq> -1" "grp \<noteq> -1" "S_ISREG mode"
      using ok by auto
    obtain Is' where "serves F (next_ino d # Is') d f G" "room_for_dir d F p"
      using serves_new [OF s o(3)] .
    then show ?thesis
      using candy_create_refines [of F "next_ino d" Is' d f G user grp ns p n m mode] o entry_of_at [OF o(1)] Op_create by fastforce
  next
    case (Op_symlink tgt ns n)
    then obtain p m where o: "ns_at G user grp ns p n m" "m n = None" "room_for_new d (dom G) p" "few_refs 5 f" "user \<noteq> -1" "grp \<noteq> -1"
        "tgt \<noteq> []" "length tgt \<le> PATH_MAX - 1"
      using ok by auto
    obtain Is' where "serves F (next_ino d # Is') d f G" "room_for_dir d F p"
      using serves_new [OF s o(3)] .
    then show ?thesis
      using candy_symlink_refines [of F "next_ino d" Is' d f G user grp ns p n m tgt] o entry_of_at [OF o(1)] Op_symlink by fastforce
  next
    case (Op_link ns n ns' l)
    then obtain p m q k t a x where o: "ns_see G user grp ns p n m" "m n = Some t" "G t = Some (a, x)" "(\<exists>bs. x = File bs) \<or> (\<exists>bs. x = node.Link bs)"
        "a_links a \<noteq> -1" "ns_at G user grp ns' q l k" "k l = None" "room_for_entry d (dom G) q" "few_refs 5 f"
      using ok by auto
    have "enough d F q (fsize d q + BLOCKSIZE)" "fsize d q + BLOCKSIZE \<le> MAX_FILESIZE"
      using o(8) free by (simp_all add: room_for_entry_def)
    then show ?thesis
      using candy_link_refines [OF s o(9,1-7)] entry_of_see [OF o(1)] entry_of_at [OF o(6)] o(2,7) Op_link by fastforce
  next
    case (Op_unlink ns n)
    then obtain p m t a x where o: "ns_at G user grp ns p n m" "m n = Some t" "n \<notin> dots" "G t = Some (a, x)"
        "(\<exists>bs. x = File bs) \<or> (\<exists>bs. x = node.Link bs)" "few_refs 5 f"
      using ok by auto
    show ?thesis
      using candy_unlink_refines [OF s few4 [OF o(6)] o(1-5)] entry_of_at [OF o(1)] o(2) Op_unlink by fastforce
  next
    case (Op_rmdir ns n)
    then obtain p m t mt where o: "ns_at G user grp ns p n m" "m n = Some t" "n \<notin> dots" "dir_of G t = Some mt" "dom mt \<subseteq> dots" "few_refs 5 f"
      using ok by auto
    show ?thesis
      using candy_rmdir_refines [OF s few4 [OF o(6)] o(1-5)] entry_of_at [OF o(1)] o(2) Op_rmdir by fastforce
  next
    case (Op_rename ns n ns' l)
    then show ?thesis
      using rename_simulates [where ns = ns and n = n and ns' = ns' and l = l, OF s] ok by simp
  next
    case (Op_chmod ns n mode)
    then obtain p m t a x where o: "ns_see G user grp ns p n m" "m n = Some t" "G t = Some (a, x)" "\<forall>bs. x \<noteq> node.Link bs" "few_refs 5 f"
      using ok by auto
    show ?thesis
      using candy_chmod_refines [OF s few4 [OF o(5)] o(1-4), of mode] entry_of_see [OF o(1)] o(2,3) Op_chmod by (cases "user = 0 \<or> user = a_owner a") (simp_all add: attr_at_def allowed_if_def, blast+)
  next
    case (Op_truncate ns n sz)
    then obtain p m t a bs where o: "ns_see G user grp ns p n m" "m n = Some t" "G t = Some (a, File bs)" "int sz \<le> MAX_FILESIZE"
        "enough d F t (int sz)" "few_refs 5 f"
      using ok free by auto
    show ?thesis
      using candy_truncate_refines [OF s few4 [OF o(6)] o(1-5)] entry_of_see [OF o(1)] o(2) Op_truncate by fastforce
  next
    case (Op_open ns n flags)
    then obtain p m t a bs perms where o: "ns_see G user grp ns p n m" "m n = Some t" "G t = Some (a, File bs)" "access_mode_of flags = Some perms" "few_refs 5 f"
      using ok by auto
    show ?thesis
      using candy_open_refines [OF s few4 [OF o(5)] o(1-4)] entry_of_see [OF o(1)] o(2-4) Op_open by (cases "may a perms user grp") (fastforce simp: attr_at_def allowed_if_def)+
  next
    case (Op_read j buf offset)
    then obtain a bs where o: "G j = Some (a, File bs)" "0 \<le> offset" "length buf < 2 ^ 31"
      using ok by auto
    show ?thesis
      using candy_read_refines [OF s o] o(1) Op_read by fastforce
  next
    case (Op_write j flags buf offset)
    then obtain a bs where o: "G j = Some (a, File bs)" "0 \<le> offset" "length buf < 2 ^ 31"
        "int (write_at flags bs offset + length buf) \<le> MAX_FILESIZE" "enough d F j (int (write_at flags bs offset + length buf))"
      using ok free by auto
    then show ?thesis
      using candy_write_refines [OF s o] Op_write by fastforce
  next
    case (Op_release j)
    then show ?thesis
      using release_simulates [OF s] ok by simp
  next
    case (Op_releasedir j)
    then show ?thesis
      using release_simulates [OF s] ok by (simp add: releasedir_release)
  next
    case (Op_chown ns n owner gid)
    then obtain p m t a x where o: "ns_see G user grp ns p n m" "m n = Some t" "G t = Some (a, x)" "\<forall>bs. x \<noteq> node.Link bs" "few_refs 5 f"
      using ok by auto
    show ?thesis
      using candy_chown_refines [OF s few4 [OF o(5)] o(1-4), of owner gid] entry_of_see [OF o(1)] o(2,3) Op_chown by (fastforce simp: attr_at_def allowed_if_def)
  next
    case (Op_utimens ns n atime mtime)
    then obtain p m t where o: "ns_see G user grp ns p n m" "m n = Some t" "few_refs 5 f"
      using ok by auto
    obtain a x where t: "G t = Some (a, x)"
      using see_links(2) [OF s o(1,2)] by auto
    show ?thesis
      using candy_utimens_refines [OF s few4 [OF o(3)] o(1,2) t, of atime mtime] entry_of_see [OF o(1)] o(2) t Op_utimens by (fastforce simp: attr_at_def allowed_if_def)
  next
    case (Op_access ns n flags)
    then obtain p m t a x where o: "ns_see G user grp ns p n m" "m n = Some t" "G t = Some (a, x)" "\<forall>bs. x \<noteq> node.Link bs" "few_refs 5 f"
      using ok by auto
    show ?thesis
      using candy_access_refines [OF s few4 [OF o(5)] o(1-4), of flags] entry_of_see [OF o(1)] o(2,3) Op_access by (fastforce simp: attr_at_def allowed_if_def)
  next
    case (Op_ftruncate j sz)
    then obtain a bs where o: "G j = Some (a, File bs)" "int sz \<le> MAX_FILESIZE" "enough d F j (int sz)"
      using ok free by auto
    show ?thesis
      using candy_ftruncate_refines [OF s o] Op_ftruncate by fastforce
  next
    case (Op_getattr ns n)
    then obtain p m where o: "ns_see G user grp ns p n m" "few_refs 5 f"
      using ok by auto
    show ?thesis
      using getattr_simulates [OF s few4 [OF o(2)] o(1)] Op_getattr by (auto simp del: ns_result.simps) 
  next
    case (Op_fgetattr j)
    then obtain a x where "G j = Some (a, x)"
      using ok by auto
    then show ?thesis
      using inode_read(1) [OF s, of j] s Op_fgetattr by (fastforce simp: candy_fgetattr_def)
  next
    case (Op_readlink ns n buf)
    then obtain p m t a bs where o: "ns_see G user grp ns p n m" "m n = Some t" "G t = Some (a, node.Link bs)" "buf \<noteq> []" "length buf < 2 ^ 31" "few_refs 5 f"
      using ok by auto
    obtain out d' where "candy_readlink d (entry_path ns n) buf user grp = Some (0, out, d')" "serves F Is d' f G"
      using candy_readlink_refines [OF s few4 [OF o(6)] o(1-5)] by blast
    then show ?thesis
      using Op_readlink by auto
  next
    case (Op_opendir ns n flags)
    then obtain p m t a k perms where o: "ns_see G user grp ns p n m" "m n = Some t" "G t = Some (a, Dir k)" "access_mode_of flags = Some perms" "few_refs 5 f"
      using ok by auto
    show ?thesis
      using candy_opendir_refines [OF s few4 [OF o(5)] o(1-4)] entry_of_see [OF o(1)] o(2-4) Op_opendir by (cases "may a perms user grp") (fastforce simp: attr_at_def allowed_if_def)+
  next
    case (Op_readdir j filler off)
    then have o: "is_dir G j" "32 * int off \<le> fsize d j"
      using ok by auto
    show ?thesis
      using readdir_simulates [OF s o, of filler] Op_readdir by auto
  next
    case Op_statfs
    then show ?thesis
      using block_stat_spec [OF refs_inv_fs(1) [OF servesD(4) [OF s]]] s by (fastforce simp: candy_statfs_def)
  qed
qed

text \<open>A refused operation changes no name and no file.\<close>

lemma next_ino_full:
  fixes d :: "'x path_env_scheme"
  assumes inv: "fs_inv d F Is A" and full: "next_ino d = -1"
  shows "F = {} \<or> Is = []"
proof (rule ccontr)
  assume "\<not> (F = {} \<or> Is = [])"
  then obtain i Is' where Is: "Is = i # Is'" "F \<noteq> {}"
    by (cases Is) auto
  then obtain d' b where d': "inode_allocate d = Some (i, d')" "fs_result A i d d' (F - {b}) Is' (insert i A)"
    using inode_allocate_spec [of d F i Is' A] inv by blast
  then have "fs_inv d' (F - {b}) Is' (insert i A)"
    by (simp add: fs_result_def)
  from ino_nonneg [OF this, of i] have "\<not> sint i < 0"
    by simp
  then show False
    using full d'(1) by (simp add: next_ino_def)
qed

lemma no_space_full: "serves F Is d f G \<Longrightarrow> no_space d (dom G) \<Longrightarrow> card F < 2 \<or> Is = []"
  using next_ino_full [OF refs_inv_fs(1) [OF servesD(4)]] serves_free by (fastforce simp: no_space_def)

lemma missing_simulates:
  fixes d :: "'x path_env_scheme"
  assumes s: "serves F Is d f G" and op: "missing_name f G user grp ns n e f'"
    and run: "\<And>p. few_refs 4 f \<Longrightarrow> ns_hidden G user grp ns p n \<Longrightarrow> \<exists>d'. run = Some (- ENOENT, d') \<and> serves F Is d' f G"
  shows "\<exists>d' F' Is'. run = Some (e, d') \<and> serves F' Is' d' f' G"
  using op run few_refs_mono [of 5 f 4] unfolding missing_name_def by fastforce

theorem fuse_refuses:
  fixes d :: "'x path_env_scheme"
  assumes s: "serves F Is d f G" and no: "fuse_refused op user grp d f G e f'"
  shows "\<exists>d' F' Is'. fuse_exec op user grp d = Some (e, d') \<and> serves F' Is' d' f' G"
proof -
  have few4: "few_refs 5 f \<Longrightarrow> few_refs 4 f"
    using few_refs_mono by fastforce
  note missing = missing_simulates [OF s]
  show ?thesis
  proof (cases op)
    case (Op_mkdir ns n mode)
    then obtain p m where o: "ns_at G user grp ns p n m" "few_refs 5 f" "f' = f"
        "if no_space d (dom G) then e = - ENOSPC else e = - EEXIST \<and> m n \<noteq> None \<and> user \<noteq> -1 \<and> grp \<noteq> -1 \<and> mode AND 0xFFF = mode"
      using no by auto
    show ?thesis
    proof (cases "no_space d (dom G)")
      case True
      then show ?thesis
        using candy_mkdir_no_space [OF s few4 [OF o(2)] o(1) no_space_full [OF s True], of mode] o(3,4) Op_mkdir by auto
    next
      case False
      then have free: "next_ino d \<noteq> -1" "2 \<le> card F"
        using serves_free [OF s] by (simp_all add: no_space_def)
      obtain Is' where Is: "Is = next_ino d # Is'"
        using next_ino_head [OF refs_inv_fs(1) [OF servesD(4) [OF s]] free(1)] .
      obtain t where "m n = Some t"
        using o(4) False by auto
      from candy_mkdir_refuses [OF s [unfolded Is] few4 [OF o(2)] o(1) this _ _ _ free(2)]
      show ?thesis
        using o(3,4) False Op_mkdir by auto
    qed
  next
    case (Op_create ns n mode)
    show ?thesis
    proof (cases "S_ISREG mode")
      case True
      then have "F = {} \<or> Is = []"
        using next_ino_full [OF refs_inv_fs(1) [OF servesD(4) [OF s]]] no Op_create by auto
      from candy_create_no_space [OF s True this] show ?thesis
        using no True Op_create by fastforce
    next
      case False
      then show ?thesis
        using no Op_create candy_create_irregular [OF False, of d "entry_path ns n" user grp] s by auto
    qed
  next
    case (Op_symlink tgt ns n)
    show ?thesis
    proof (cases "tgt = [] \<or> PATH_MAX - 1 < length tgt")
      case True
      then show ?thesis
        using no Op_symlink candy_symlink_long [OF True, of d "entry_path ns n" user grp] s by auto
    next
      case False
      then have "tgt \<noteq> []" "length tgt \<le> PATH_MAX - 1" "no_space d (dom G)"
        using no Op_symlink by auto
      from candy_symlink_no_space [OF s this(1,2) no_space_full [OF s this(3)]] show ?thesis
        using no False Op_symlink by fastforce
    qed
  next
    case (Op_unlink ns n)
    then obtain p m where o: "ns_at G user grp ns p n m" "few_refs 5 f"
        "case m n of None \<Rightarrow> e = - ENOENT \<and> f' = f | Some t \<Rightarrow> is_dir G t \<and> e = - EPERM \<and> f' = inc f t"
      using no by auto
    show ?thesis
    proof (cases "m n")
      case None
      then show ?thesis
        using candy_entry_missing(1) [OF s few4 [OF o(2)] o(1) None] o(3) Op_unlink by auto
    next
      case (Some t)
      then show ?thesis
        using candy_unlink_leaks [OF s few4 [OF o(2)] o(1) Some] o(3) Op_unlink by auto
    qed
  next
    case (Op_rmdir ns n)
    then obtain p m where o: "ns_at G user grp ns p n m" "few_refs 5 f" "f' = f"
        "case m n of None \<Rightarrow> e = - ENOENT | Some t \<Rightarrow> (\<exists>mt. dir_of G t = Some mt \<and> \<not> dom mt \<subseteq> dots) \<and> e = - ENOTEMPTY"
      using no by auto
    show ?thesis
    proof (cases "m n")
      case None
      then show ?thesis
        using candy_entry_missing(2) [OF s few4 [OF o(2)] o(1) None] o(3,4) Op_rmdir by auto
    next
      case (Some t)
      then show ?thesis
        using candy_rmdir_refuses [OF s few4 [OF o(2)] o(1) Some] o(3,4) Op_rmdir by auto
    qed
  next
    case (Op_link ns n ns' l)
    then show ?thesis
      using missing [OF _ candy_missing(9) [OF s]] no by simp
  next
    case (Op_chmod ns n mode)
    then show ?thesis
      using missing [OF _ candy_missing(1) [OF s]] no by simp
  next
    case (Op_chown ns n owner gid)
    then show ?thesis
      using missing [OF _ candy_missing(2) [OF s]] no by simp
  next
    case (Op_utimens ns n atime mtime)
    then show ?thesis
      using missing [OF _ candy_missing(3) [OF s]] no by simp
  next
    case (Op_access ns n flags)
    then show ?thesis
      using missing [OF _ candy_missing(5) [OF s]] no by simp
  next
    case (Op_truncate ns n sz)
    then show ?thesis
      using missing [OF _ candy_missing(4) [OF s]] no by simp
  next
    case (Op_open ns n flags)
    then have "missing_name f G user grp ns n e f'"
      using no by simp
    from missing [OF this, of "fuse_exec op user grp d"] show ?thesis
      using candy_missing(6) [OF s] Op_open by fastforce
  next
    case (Op_opendir ns n flags)
    then have "missing_name f G user grp ns n e f'"
      using no by simp
    from missing [OF this, of "fuse_exec op user grp d"] show ?thesis
      using candy_missing(7) [OF s] Op_opendir by fastforce
  next
    case (Op_getattr ns n)
    then have "missing_name f G user grp ns n e f'"
      using no by simp
    from missing [OF this, of "fuse_exec op user grp d"] show ?thesis
      using candy_getattr_missing [OF s] Op_getattr by fastforce
  next
    case (Op_readlink ns n buf)
    then have "missing_name f G user grp ns n e f'"
      using no by simp
    from missing [OF this, of "fuse_exec op user grp d"] show ?thesis
      using candy_missing(8) [OF s] Op_readlink by fastforce
  qed (use no in simp_all)
qed

section \<open>Reachable states\<close>

definition root_attr :: "u32 \<Rightarrow> u32 \<Rightarrow> fattr" where
  "root_attr owner grp = fresh_attr_of 0x1ED owner (if grp = -1 then 0 else grp)"

lemma format_serves:
  fixes d :: "'x path_env_scheme"
  assumes "wf_disk d" and "unat isz + 2 < unat (nblocks d)" and "0 < isz" and "open_file_table d = replicate HASHMAP_SIZE []" and "idle d" and "owner \<noteq> -1"
  shows "\<exists>d' F. format_disk d isz owner grp = Some d' \<and> serves F (tl (mkfs_inos isz)) d' (\<lambda>_. 0) (ns_root (root_attr owner grp)) \<and>
    card (mkfs_data_blocks d isz) = card F + 2"
proof -
  obtain d' F where d': "format_disk d isz owner grp = Some d'" "refs_inv d' F (tl (mkfs_inos isz)) {0}" "refs_of d' = (\<lambda>_. 0)"
      "root_ok d' owner grp" "refs_env.more d' = refs_env.more d" "card (mkfs_data_blocks d isz) = card F + 2"
    using format_disk_spec [OF assms(1-4,6), of grp] by blast
  have "idle d'"
    using idle_table [OF assms(5) more_paths(1) [OF d'(5)]] .
  moreover have "attr_of (inode_at d' 0) = root_attr owner grp"
    using d'(4) assms(6) by (simp add: root_ok_def attr_of_def root_attr_def fresh_attr_of_def S_IFDIR_def)
  moreover have "node_rep d' 0 (Dir [[DOT, DOT] \<mapsto> 0, [DOT] \<mapsto> 0])"
    using node_rep_dir [of d' 0 "new_dir 0 0"] d'(4) new_dir_map by (simp add: root_ok_def del: node_rep.simps)
  ultimately have "represents F (tl (mkfs_inos isz)) d' (ns_root (root_attr owner grp))"
    using d'(2) by (auto simp: represents_def ns_root_def simp del: node_rep.simps)
  moreover have "ns_inv (ns_root (root_attr owner grp))"
    by (rule ns_root_inv) (simp add: root_attr_def fresh_attr_of_def)
  ultimately show ?thesis
    using d'(1,3,6) by (auto simp: serves_def)
qed

inductive fuse_reach :: "'x path_env_scheme \<Rightarrow> (ino \<Rightarrow> nat) \<Rightarrow> namespace \<Rightarrow> bool" where
  format: "wf_disk d \<Longrightarrow> unat isz + 2 < unat (nblocks d) \<Longrightarrow> 0 < isz \<Longrightarrow> open_file_table d = replicate HASHMAP_SIZE [] \<Longrightarrow> idle d \<Longrightarrow>
    owner \<noteq> -1 \<Longrightarrow> format_disk d isz owner grp = Some d' \<Longrightarrow> fuse_reach d' (\<lambda>_. 0) (ns_root (root_attr owner grp))"
| step: "fuse_reach d f G \<Longrightarrow> fuse_ok op user grp d f G \<Longrightarrow> fuse_exec op user grp d = Some (r, d') \<Longrightarrow>
    ns_exec op user grp (next_ino d) (f, G) = (f', G') \<Longrightarrow> fuse_reach d' f' G'"
| refused: "fuse_reach d f G \<Longrightarrow> fuse_refused op user grp d f G e f' \<Longrightarrow> fuse_exec op user grp d = Some (e, d') \<Longrightarrow> fuse_reach d' f' G"

theorem fuse_reach_serves: "fuse_reach d f G \<Longrightarrow> \<exists>F Is. serves F Is d f G"
proof (induction rule: fuse_reach.induct)
  case (format d isz owner grp d')
  then show ?case
    using format_serves [of d isz owner grp] by auto
next
  case (step d f G op user grp r d' f' G')
  then show ?case
    using fuse_simulates [of _ _ d f G op user grp] by fastforce
next
  case (refused d f G op user grp e f' d')
  then show ?case
    using fuse_refuses [of _ _ d f G op user grp e f'] by fastforce
qed

lemma boot_idle: "idle (boot disk clk jnk)" "open_file_table (boot disk clk jnk) = replicate HASHMAP_SIZE []"
  by (simp_all add: boot_def idle_def)

text \<open>\<open>mount.candyfs\<close> with a mount point only: a file system in memory.\<close>

theorem mount_memory:
  assumes "malloc (16 + 1024 * 1024 * 4096) = Some mem" and "uid \<noteq> -1"
  shows "\<exists>d. mount_main malloc ok devices uid gid clk jnk [mountpoint] = Some (Inr d) \<and>
    fuse_reach d (\<lambda>_. 0) (ns_root (root_attr uid gid))"
proof -
  let ?disk = "\<lparr>nblocks = 1024 * 1024, blocksize = BLOCKSIZE, fd = -1, disk_data = mem, io_ok = (\<lambda>_. True)\<rparr> :: disk_t"
  let ?d = "boot ?disk clk jnk"
  have create: "disk_create malloc (1024 * 1024) BLOCKSIZE = Some ?disk"
    using assms(1) by (simp add: disk_create_def)
  have d: "wf_disk ?d" "unat (1024 :: u64) + 2 < unat (nblocks ?d)"
    by (simp_all add: wf_disk_def boot_def)
  have isz: "(0 :: u64) < 1024"
    by simp
  obtain d' where d': "format_disk ?d 1024 uid gid = Some d'"
    using format_serves [OF d isz boot_idle(2,1) assms(2)] by blast
  have "fuse_reach d' (\<lambda>_. 0) (ns_root (root_attr uid gid))"
    by (rule fuse_reach.format [OF d isz boot_idle(2,1) assms(2) d'])
  then show ?thesis
    using create d' by (simp add: mount_main_def)
qed

end
