(* ===== verification/Fuse_Names.thy ===== *)
theory Fuse_Names
  imports Fuse_Run
begin

text \<open>
  No directory of a reachable state has a name longer than \<open>NAME_MAX\<close>, so that \<open>readdir\<close> never
  cuts a name short.
\<close>

section \<open>Names of reachable states\<close>

definition short_dir :: "node \<Rightarrow> bool" where
  "short_dir x \<longleftrightarrow> (\<forall>m. x = Dir m \<longrightarrow> (\<forall>n \<in> dom m. length n \<le> NAME_MAX))"

definition short_names :: "namespace \<Rightarrow> bool" where
  "short_names G \<longleftrightarrow> (\<forall>i a x. G i = Some (a, x) \<longrightarrow> short_dir x)"

lemma short_upd: "short_names G \<Longrightarrow> short_dir x \<Longrightarrow> short_names (G(i \<mapsto> (a, x)))" "short_names G \<Longrightarrow> short_names (G(i := None))"
  by (auto simp: short_names_def)

lemma short_at: "short_names G \<Longrightarrow> G i = Some (a, x) \<Longrightarrow> short_dir x"
  by (auto simp: short_names_def)

lemma short_dir_upd: "short_dir (Dir m) \<Longrightarrow> length n \<le> NAME_MAX \<Longrightarrow> short_dir (Dir (m(n := x)))"
  by (auto simp: short_dir_def)

lemma short_leaf [simp]: "short_dir (File bs)" "short_dir (node.Link bs)" "short_dir Gone"
  "short_dir (Dir [[DOT, DOT] \<mapsto> p, [DOT] \<mapsto> i])"
  by (simp_all add: short_dir_def)

lemma short_new: "short_names G \<Longrightarrow> good_name n \<Longrightarrow> short_dir x \<Longrightarrow> short_names (ns_new p n i a x G)"
  by (auto simp: ns_new_def good_name_def intro!: short_upd short_dir_upd dest: short_at split: option.split node.split)

lemma short_link: "short_names G \<Longrightarrow> good_name n \<Longrightarrow> short_names (ns_link p n t G)"
  by (auto simp: ns_link_def good_name_def intro!: short_upd short_dir_upd dest: short_at split: option.split node.split)

lemma short_dir_del: "short_dir (Dir m) \<Longrightarrow> short_dir (Dir (m(n := None)))"
  by (auto simp: short_dir_def split: if_splits)

lemma short_remove:
  assumes "short_names G" and "\<And>x. short_dir x \<Longrightarrow> short_dir (g x)"
  shows "short_names (ns_remove p n held g G)"
  using assms(1) unfolding ns_remove_def
  by (auto intro!: short_upd short_dir_del assms(2) dest: short_at split: option.split node.split)

lemma short_on_dir: "short_names G \<Longrightarrow> (\<And>m. short_dir (Dir m) \<Longrightarrow> short_dir (Dir (g m))) \<Longrightarrow> short_names (on_dir p g G)"
  by (auto simp: on_dir_def intro!: short_upd dest: short_at split: option.split node.split)

lemma short_rename: "short_names G \<Longrightarrow> good_name l \<Longrightarrow> short_names (ns_rename p n q l G)"
  by (auto simp: ns_rename_def good_name_def short_dir_def intro!: short_on_dir split: option.split)

lemma short_clear: "short_names G \<Longrightarrow> short_names (ns_clear q l held G)"
  by (auto simp: ns_clear_def ns_rmdir_def ns_unlink_def intro!: short_remove split: option.split)

lemma short_attr: "short_names G \<Longrightarrow> short_names (ns_attr t g G)"
  by (auto simp: ns_attr_def intro!: short_upd dest: short_at split: option.split)

lemma short_file: "short_names G \<Longrightarrow> short_names (ns_file t g G)"
  by (auto simp: ns_file_def intro!: short_upd dest: short_at split: option.split node.split)

lemma short_forget: "short_names G \<Longrightarrow> short_names (ns_forget t G)"
  by (auto simp: ns_forget_def intro!: short_upd)

lemmas short_ops = short_new short_link short_remove short_rename short_clear short_attr short_file short_forget

lemma ns_at_good: "ns_at G user grp ns p n m \<Longrightarrow> good_name n"
  by (simp add: ns_at_def)

lemma ns_exec_short:
  assumes "short_names G" and "fuse_ok op user grp d f G" and "ns_exec op user grp i (f, G) = (f', G')"
  shows "short_names G'"
proof (cases "\<exists>ns n ns' l. op = Op_rename ns n ns' l")
  case True
  then obtain ns n ns' l where op: "op = Op_rename ns n ns' l"
    by blast
  then have "good_name l"
    using assms(2) ns_at_good by auto
  then show ?thesis
    using assms(1,3) short_rename short_clear op by (auto split: option.splits if_splits)
next
  case False
  then show ?thesis
    using assms
    by (cases op) (auto simp: ns_mkdir_def ns_create_def ns_symlink_def ns_unlink_def ns_rmdir_def ns_chmod_def
        intro!: short_ops dest: ns_at_good split: option.splits if_splits)
qed

theorem fuse_reach_short: "fuse_reach d f G \<Longrightarrow> short_names G"
proof (induction rule: fuse_reach.induct)
  case (format d isz owner grp d')
  then show ?case
    by (auto simp: short_names_def ns_root_def split: if_splits)
next
  case step
  then show ?case
    using ns_exec_short by blast
next
  case refused
  then show ?case
    by simp
qed

text \<open>So a listing of a directory has each of its names once.\<close>

theorem fuse_reach_readdir:
  fixes d :: "'x path_env_scheme"
  assumes "fuse_reach d f G" and "dir_of G i = Some m"
  shows "\<exists>listed d'. candy_readdir d (\<lambda>_. True) 0 i [] = Some (0, listed, d') \<and> distinct (map fst listed) \<and> set (map fst listed) = dom m"
proof -
  obtain F Is where s: "serves F Is d f G"
    using fuse_reach_serves [OF assms(1)] by blast
  have "\<forall>n \<in> dom m. length n \<le> NAME_MAX"
    using fuse_reach_short [OF assms(1)] assms(2) unfolding dir_of_eq short_names_def short_dir_def by metis
  then show ?thesis
    using candy_readdir_refines [OF s assms(2)] by blast
qed

end
