(* ===== verification/Path_Follow.thy ===== *)
theory Path_Follow
  imports Path_Table File_Spec
begin

text \<open>
  Paths whose last component is a symbolic link: the link is read and its target resolved from the
  directory that holds the link, or from the root, at the next level.
\<close>

section \<open>Reading the link\<close>

lemma c_string_padded:
  assumes "0 \<notin> set lk" and "length lk < PATH_MAX"
  shows "c_string (read_bytes lk 0 PATH_MAX (replicate PATH_MAX 0)) = Some lk"
proof -
  have buf: "read_bytes lk 0 PATH_MAX (replicate PATH_MAX 0) = lk @ 0 # replicate (4095 - length lk) 0"
    using assms(2) by (simp add: read_bytes_def slice_def Suc_diff_le flip: replicate_Suc)
  have "strlen (lk @ 0 # replicate (4095 - length lk) 0) 0 = Some (length lk)"
    by (rule strlen_at(1)) (simp_all add: assms(1))
  then show ?thesis
    unfolding buf by (simp add: c_string_def)
qed

lemma link_read:
  fixes d :: "'x refs_env_scheme"
  assumes inv: "refs_inv d F Is A" and u: "u \<in> A" "S_ISLNK (imode (inode_at d u))" "content d u = lk" and lk: "0 \<notin> set lk" "length lk < PATH_MAX"
  shows "\<exists>n buf d'. symlink_read d u (replicate PATH_MAX 0) PATH_MAX = Some (n, buf, d') \<and> c_string buf = Some lk \<and>
    quiet F Is A d (refs_of d) d'"
proof -
  obtain n d' where d': "symlink_read d u (replicate PATH_MAX 0) PATH_MAX = Some (n, read_bytes lk 0 PATH_MAX (replicate PATH_MAX 0), d')"
      "only_read A u d d' F Is"
    using symlink_read_spec [OF refs_inv_fs(1) [OF inv] u(1,2), of PATH_MAX "replicate PATH_MAX 0"] u(3) by auto
  have "fs_result A u d d' F Is A" "same_attr (inode_at d u) (inode_at d' u)"
    using d'(2) by (simp_all add: only_read_def)
  then have "quiet F Is A d (refs_of d) d'"
    using refs_inv_attr [OF inv] only_read_files [OF d'(2)] by (simp add: quiet_def)
  then show ?thesis
    using d'(1) c_string_padded [OF lk] by blast
qed

lemma single_link:
  fixes d :: "'x refs_env_scheme"
  assumes inv: "refs_inv d F Is A" and dir: "i \<in> A" "may_search d c i" "dir_entry d i name (Some u)" and name: "good_name name"
    and u: "linked d A u" "refs_of d u < 2 ^ 32 - 1" "S_ISLNK (imode (inode_at d u))" "content d u = lk" and lk: "0 \<notin> set lk" "length lk < PATH_MAX"
  shows "\<exists>d1 info. quiet F Is A d (refs_of d) d1 \<and> namei_internal_single rec c name i True level d =
    do { (current, curdir, d) \<leftarrow> rec lk i (level + 1) d1;
         found \<leftarrow> inode_getinfo d current;
         case found of
           None \<Rightarrow> Some (of_int (- ENOENT), Some info, curdir, level + 1, d)
         | Some j \<Rightarrow> Some (current, Some j, curdir, level + 1, d) }"
proof -
  have uA: "u \<in> A"
    using u(1) by (simp add: linked_def)
  obtain ess where ess: "dir_rep d i ess" "dir_map ess name = Some u"
    using dir(3) by (auto simp: dir_entry_def)
  obtain d1 where d1: "refs_dir_lookup_open d i name = Some (u, d1)" "quiet F Is A d (inc (refs_of d) u) d1"
    using refs_dir_lookup_open_spec [OF inv dir(1) ess(1) _ ess(2) uA u(2)] name by (auto simp: quiet_def inc_def good_name_def)
  have s1: "refs_inv d1 F Is A" "refs_of d1 = inc (refs_of d) u" "S_ISLNK (imode (inode_at d1 u))" "content d1 u = lk"
    using d1(2) u(3,4) uA by (simp_all add: quiet_def same_files_def same_attr_def)
  obtain n buf d2 where d2: "symlink_read d1 u (replicate PATH_MAX 0) PATH_MAX = Some (n, buf, d2)" "c_string buf = Some lk"
      "quiet F Is A d1 (refs_of d1) d2"
    using link_read [OF s1(1) uA s1(3,4) lk] by blast
  note q2 = quiet_trans [OF d1(2) d2(3)]
  obtain d3 where d3: "close_ok d2 u = Some d3" "quiet F Is A d2 (refs_of d) d3"
    using close_ok_spec [of d2 F Is A u "refs_of d"] d2(3) s1(2) u(1) quiet_linked [OF q2] by (auto simp: quiet_def)
  note fs1 = refs_inv_fs(1) [OF s1(1)]
  have "quiet F Is A d (refs_of d) d3"
    by (rule quiet_trans [OF q2 d3(2)])
  moreover obtain info where "inode_getinfo d1 u = Some (Some info)" "S_ISLNK (imode info)"
    using inode_getinfo_spec [OF fs1 uA] s1(3) by (simp add: inode_info.truncate_def)
  ultimately show ?thesis
    using perm_check_search [OF refs_inv_fs(1) [OF inv] dir(1), of c] dir(2) d1(1) ino_nonneg [OF fs1 uA] d2(1,2) d3(1)
    by (intro exI [of _ d3] exI [of _ info]) (simp add: namei_internal_single_def cong: option.case_cong)
qed

section \<open>The start of a level\<close>

text \<open>
  Read at directory \<open>cur\<close>, the path names the entry \<open>n\<close> of directory \<open>p\<close>, which may be searched.
\<close>

definition leads :: "'x disk_t_scheme \<Rightarrow> ino set \<Rightarrow> cred \<Rightarrow> ino \<Rightarrow> byte list \<Rightarrow> ino \<Rightarrow> byte list \<Rightarrow> bool" where
  "leads d A c cur path p n \<longleftrightarrow> linked d A cur \<and> good_name n \<and> may_search d c p \<and>
     (\<exists>ns. dir_path d A c (cr_root c) ns p \<and> path = SLASH # dirs_string ns @ n \<or> dir_path d A c cur ns p \<and> path = dirs_string ns @ n)"

lemma leads_linked: "leads d A c cur path p n \<Longrightarrow> linked d A p"
  using dir_path_linked unfolding leads_def by blast

lemma leads_files:
  assumes "leads d A c cur path p n" and files: "same_files A d d'"
  shows "leads d' A c cur path p n"
proof -
  have "p \<in> A"
    using leads_linked [OF assms(1)] by (simp add: linked_def)
  then show ?thesis
    using assms(1) linked_files [OF files subset_refl] dir_path_files [OF _ files subset_refl] same_files_entry(2) [OF files]
    unfolding leads_def by blast
qed

lemma relative_start: "good_name n \<Longrightarrow> dir_path d A c cur ns p \<Longrightarrow> dirs_string ns @ n \<noteq> [] \<and> hd (dirs_string ns @ n) \<noteq> SLASH"
  by (cases ns) (auto simp: dir_path_simps good_name_def hd_append, (metis hd_in_set)+)

lemma level_start:
  fixes d :: "'x refs_env_scheme"
  assumes inv: "refs_inv d F Is A" and refs: "refs_of d = inc base cur" and few: "few_refs 3 base" and leads: "leads d A c cur path p n" and level: "level \<le> 8"
  shows "\<exists>d1 curdir. at_dir F Is A base p curdir d1 \<and> quiet F Is A d (inc (inc base p) curdir) d1 \<and>
    namei_rec (Suc fuel) c deref path cur level d = namei_walk (namei_rec fuel c True) c deref n p curdir level d1"
proof -
  have cur: "linked d A cur" "cur \<in> A" and name: "good_name n"
    using leads by (simp_all add: leads_def linked_def)
  have few': "few_refs 2 (inc base x)" "few_refs 1 (inc (inc base x) y)" for x y
    using few by (simp_all add: few_refs_inc numeral_eq_Suc)
  obtain d1 where d1: "refs_open d cur = Some (0, d1)" "quiet F Is A d (inc (inc base cur) cur) d1"
    using open_ok_spec [OF inv cur(2)] few_refs_less [OF few'(1)] refs by (auto simp: open_ok_def split: bind_splits if_splits)
  have s1: "refs_inv d1 F Is A" "refs_of d1 = inc (inc base cur) cur" "linked d1 A cur"
    using d1(2) quiet_linked [OF d1(2)] cur(1) by (simp_all add: quiet_def)
  obtain ns where ns: "dir_path d A c (cr_root c) ns p \<and> path = SLASH # dirs_string ns @ n \<or> dir_path d A c cur ns p \<and> path = dirs_string ns @ n"
    using leads unfolding leads_def by blast
  have walk: "\<exists>d' curdir. at_dir F Is A base p curdir d' \<and> quiet F Is A d (inc (inc base p) curdir) d' \<and>
      namei_walk (namei_rec fuel c True) c deref (dirs_string ns @ n) x x level d2 = namei_walk (namei_rec fuel c True) c deref n p curdir level d'"
    if q2: "quiet F Is A d (inc (inc base x) x) d2" and path: "dir_path d A c x ns p" for x and d2 :: "'x refs_env_scheme"
  proof -
    have s2: "refs_inv d2 F Is A" "refs_of d2 = inc (inc base x) x" "linked d2 A x"
      using q2 quiet_linked [OF q2] dir_path_linked [OF path] by (simp_all add: quiet_def)
    obtain d' curdir where d': "namei_walk (namei_rec fuel c True) c deref (dirs_string ns @ n) x x level d2 =
          namei_walk (namei_rec fuel c True) c deref n p curdir level d'" "quiet F Is A d2 (inc (inc base p) curdir) d'" "linked d2 A curdir"
      using namei_walk_dirs [OF dir_path_quiet [OF path q2] s2 few] by blast
    have "at_dir F Is A base p curdir d'"
      using d'(2,3) quiet_linked [OF quiet_trans [OF q2 d'(2)]] quiet_linked [OF d'(2)] dir_path_linked [OF path] few
      by (simp add: at_dir_def quiet_def)
    then show ?thesis
      using d'(1) quiet_trans [OF q2 d'(2)] by blast
  qed
  show ?thesis
  proof (cases "dir_path d A c (cr_root c) ns p \<and> path = SLASH # dirs_string ns @ n")
    case True
    let ?r = "cr_root c"
    have r: "linked d A ?r" "?r \<in> A"
      using True dir_path_linked unfolding linked_def by blast+
    obtain d2 where d2: "close_ok d1 cur = Some d2" "quiet F Is A d1 (inc base cur) d2"
      using close_ok_spec [OF s1(1,3,2)] by blast
    note q2 = quiet_trans [OF d1(2) d2(2)]
    obtain d3 where d3: "close_ok d2 cur = Some d3" "quiet F Is A d2 base d3"
      using close_ok_spec [of d2 F Is A cur base] q2 quiet_linked [OF q2] cur(1) by (auto simp: quiet_def)
    note q3 = quiet_trans [OF q2 d3(2)]
    obtain d4 where d4: "open_ok d3 ?r = Some d4" "quiet F Is A d3 (inc base ?r) d4"
      using open_ok_spec [of d3 F Is A ?r] q3 r(2) few_refs_less [of 2 base ?r] few_refs_mono [OF few, of 2] by (auto simp: quiet_def)
    note q4 = quiet_trans [OF q3 d4(2)]
    obtain d5 where d5: "open_ok d4 ?r = Some d5" "quiet F Is A d4 (inc (inc base ?r) ?r) d5"
      using open_ok_spec [of d4 F Is A ?r] q4 r(2) few_refs_less [OF few'(1)] by (auto simp: quiet_def)
    note q5 = quiet_trans [OF q4 d5(2)]
    have "namei_rec (Suc fuel) c deref path cur level d = namei_walk (namei_rec fuel c True) c deref (dirs_string ns @ n) ?r ?r level d5"
      using d1(1) d2(1) d3(1) d4(1) d5(1) level True by simp
    then show ?thesis
      using walk [OF q5] True by metis
  next
    case False
    then have path: "dir_path d A c cur ns p" "path = dirs_string ns @ n"
      using ns by blast+
    then have "path \<noteq> [] \<and> hd path \<noteq> SLASH"
      using relative_start [OF name] by blast
    then have "namei_rec (Suc fuel) c deref path cur level d = namei_walk (namei_rec fuel c True) c deref (dirs_string ns @ n) cur cur level d1"
      using d1(1) level path(2) by simp
    then show ?thesis
      using walk [OF d1(2) path(1)] by metis
  qed
qed

text \<open>What is left to do at a level once the link at its end has been resolved.\<close>

definition link_end :: "(ino \<times> ino \<times> 'x disk_t_scheme) option \<Rightarrow> (ino \<times> ino \<times> 'x disk_t_scheme) option" where
  "link_end res =
    do { (current, curdir, d) \<leftarrow> res;
         found \<leftarrow> inode_getinfo d current;
         case found of
           None \<Rightarrow> Some (EOF, curdir, d)
         | Some j \<Rightarrow> if sint current < 0 then Some (EOF, curdir, d) else Some (current, curdir, d) }"

lemma level_link:
  fixes e :: "'x refs_env_scheme"
  assumes inv: "refs_inv e F Is A" and refs: "refs_of e = inc base cur" and few: "few_refs 3 base"
    and leads: "leads e A c cur path p n" and level: "level \<le> 8" and entry: "dir_entry e p n (Some u)"
    and u: "linked e A u" "S_ISLNK (imode (inode_at e u))" "content e u = lk" and lk: "0 \<notin> set lk" "length lk < PATH_MAX"
  shows "\<exists>d1. quiet F Is A e (inc base p) d1 \<and> namei_rec (Suc fuel) c True path cur level e = link_end (namei_rec fuel c True lk p (Suc level) d1)"
proof -
  obtain e1 curdir where e1: "at_dir F Is A base p curdir e1" "quiet F Is A e (inc (inc base p) curdir) e1"
      "namei_rec (Suc fuel) c True path cur level e = namei_walk (namei_rec fuel c True) c True n p curdir level e1"
    using level_start [OF inv refs few leads level] by blast
  have p: "p \<in> A" and uA: "u \<in> A" and name: "good_name n" "n \<noteq> []" "SLASH \<notin> set n" and search: "may_search e c p"
    using leads_linked [OF leads] leads u(1) by (simp_all add: linked_def leads_def good_name_def)
  obtain e2 where e2: "namei_walk (namei_rec fuel c True) c True n p curdir level e1 =
      do { (next, info, curdir, level, d) \<leftarrow> namei_internal_single (namei_rec fuel c True) c n p True level e2;
           if sint next < 0 then Some (EOF, curdir, d) else Some (next, curdir, d) }" "quiet F Is A e1 (inc base p) e2"
    using last_step [OF e1(1) name(2,3)] by blast
  note q2 = quiet_trans [OF e1(2) e2(2)]
  note files2 = quiet_files [OF q2]
  note at2 = same_files_entry [OF files2 p]
  have s2: "refs_inv e2 F Is A" "refs_of e2 = inc base p" "S_ISLNK (imode (inode_at e2 u))" "content e2 u = lk"
    using q2 u(2,3) same_files_entry(3) [OF files2 uA] files2 uA by (simp_all add: quiet_def same_files_def)
  have "refs_of e2 u < 2 ^ 32 - 1" "may_search e2 c p"
    using few_refs_less [OF few_refs_inc [of 2 base p], of u] few at2(2) search s2(2) by (simp_all add: numeral_3_eq_3 numeral_2_eq_2)
  from single_link [where rec = "namei_rec fuel c True" and level = level, OF s2(1) p this(2) at2(1) [OF entry] name(1)
      linked_files [OF files2 subset_refl u(1)] this(1) s2(3,4) lk]
  obtain e3 info where e3: "quiet F Is A e2 (inc base p) e3" "namei_internal_single (namei_rec fuel c True) c n p True level e2 =
      do { (current, curdir, d) \<leftarrow> namei_rec fuel c True lk p (level + 1) e3;
           found \<leftarrow> inode_getinfo d current;
           case found of
             None \<Rightarrow> Some (of_int (- ENOENT), Some info, curdir, level + 1, d)
           | Some j \<Rightarrow> Some (current, Some j, curdir, level + 1, d) }"
    unfolding s2(2) by blast
  have "sint (of_int (- ENOENT) :: ino) < 0"
    by simp
  then show ?thesis
    using quiet_trans [OF q2 e3(1)] unfolding e1(3) e2(1) e3(2)
    by (intro exI [of _ e3]) (simp add: link_end_def split: option.split prod.split bind_split)
qed

section \<open>Following links\<close>

lemma link_files:
  assumes files: "same_files A d e" and "leads d A c cur path p n" and entry: "dir_entry d p n (Some u)" and u: "linked d A u" "S_ISLNK (imode (inode_at d u))"
  shows "leads e A c cur path p n" "dir_entry e p n (Some u)" "linked e A u" "S_ISLNK (imode (inode_at e u))" "content e u = content d u"
proof -
  have p: "p \<in> A" and uA: "u \<in> A"
    using leads_linked [OF assms(2)] u(1) by (simp_all add: linked_def)
  show "leads e A c cur path p n" "linked e A u"
    by (rule leads_files [OF assms(2) files], rule linked_files [OF files subset_refl u(1)])
  show "dir_entry e p n (Some u)"
    by (rule same_files_entry(1) [OF files p entry])
  show "S_ISLNK (imode (inode_at e u))" "content e u = content d u"
    using same_files_entry(3) [OF files uA] u(2) files uA by (simp_all add: same_files_def)
qed

text \<open>
  \<open>follows d A c level cur path t q\<close>: the path leads to the inode \<open>t\<close>, which is no link and has
  its entry in directory \<open>q\<close>, through a chain of links that stays below level 9.
\<close>

inductive follows :: "'x disk_t_scheme \<Rightarrow> ino set \<Rightarrow> cred \<Rightarrow> nat \<Rightarrow> ino \<Rightarrow> byte list \<Rightarrow> ino \<Rightarrow> ino \<Rightarrow> bool" for d A c where
  found: "level \<le> 8 \<Longrightarrow> leads d A c cur path p n \<Longrightarrow> dir_entry d p n (Some t) \<Longrightarrow> t \<in> A \<Longrightarrow> \<not> S_ISLNK (imode (inode_at d t)) \<Longrightarrow>
    follows d A c level cur path t p"
| link: "leads d A c cur path p n \<Longrightarrow> dir_entry d p n (Some u) \<Longrightarrow> linked d A u \<Longrightarrow> S_ISLNK (imode (inode_at d u)) \<Longrightarrow>
    0 \<notin> set (content d u) \<Longrightarrow> length (content d u) < PATH_MAX \<Longrightarrow> follows d A c (Suc level) p (content d u) t q \<Longrightarrow>
    follows d A c level cur path t q"

lemma follows_facts: "follows d A c level cur path t q \<Longrightarrow> level \<le> 8 \<and> t \<in> A \<and> linked d A q"
  by (induction rule: follows.induct) (simp_all add: leads_linked)

theorem namei_rec_follows:
  fixes d :: "'x refs_env_scheme"
  assumes "follows d A c level cur path t q" and "few_refs 3 base"
    and "8 \<le> fuel + level" and "refs_inv e F Is A" and "same_files A d e" and "refs_of e = inc base cur"
  shows "\<exists>e'. namei_rec (Suc fuel) c True path cur level e = Some (t, q, e') \<and> quiet F Is A e (inc (inc base t) q) e'"
  using assms(1,3-)
proof (induction arbitrary: fuel e rule: follows.induct)
  case (found level cur path p n t)
  obtain e1 curdir where e1: "at_dir F Is A base p curdir e1" "quiet F Is A e (inc (inc base p) curdir) e1"
      "namei_rec (Suc fuel) c True path cur level e = namei_walk (namei_rec fuel c True) c True n p curdir level e1"
    using level_start [OF found.prems(2,4) assms(2) leads_files [OF found.hyps(2) found.prems(3)] found.hyps(1)] by blast
  note files = same_files_trans [OF found.prems(3) quiet_files [OF e1(2)]]
  have p: "p \<in> A"
    using leads_linked [OF found.hyps(2)] by (simp add: linked_def)
  have dir: "may_search e1 c p" "good_name n" "\<not> (True \<and> S_ISLNK (imode (inode_at e1 t)))"
    using found.hyps(2,5) same_files_entry(2) [OF files p] same_files_entry(3) [OF files found.hyps(4)] by (simp_all add: leads_def)
  show ?case
    using walk_last_found [OF e1(1) dir(1) same_files_entry(1) [OF files p found.hyps(3)] dir(2) found.hyps(4) dir(3)] e1(3) quiet_trans [OF e1(2)] by metis
next
  case (link cur path p n u level t q)
  have level: "level \<le> 8" "Suc level \<le> 8" "t \<in> A" "linked d A q"
    using follows_facts [OF link.hyps(7)] by simp_all
  then obtain fuel' where fuel: "fuel = Suc fuel'" "8 \<le> fuel' + Suc level"
    using link.prems(1) by (cases fuel) auto
  note here = link_files [OF link.prems(3) link.hyps(1-4)]
  obtain e1 where e1: "quiet F Is A e (inc base p) e1" "namei_rec (Suc fuel) c True path cur level e = link_end (namei_rec fuel c True (content d u) p (Suc level) e1)"
    using level_link [OF link.prems(2,4) assms(2) here(1) level(1) here(2-5) link.hyps(5,6)] by blast
  have s1: "refs_inv e1 F Is A" "same_files A d e1" "refs_of e1 = inc base p"
    using e1(1) same_files_trans [OF link.prems(3) quiet_files [OF e1(1)]] by (simp_all add: quiet_def)
  obtain e2 where e2: "namei_rec fuel c True (content d u) p (Suc level) e1 = Some (t, q, e2)" "quiet F Is A e1 (inc (inc base t) q) e2"
    using link.IH [OF fuel(2) s1] fuel(1) by auto
  have "refs_inv e2 F Is A"
    using e2(2) by (simp add: quiet_def)
  note fs2 = refs_inv_fs(1) [OF this]
  have "namei_rec (Suc fuel) c True path cur level e = Some (t, q, e2)"
    using e1(2) e2(1) inode_getinfo_spec [OF fs2 level(3)] ino_nonneg [OF fs2 level(3)] by (simp add: link_end_def)
  then show ?case
    using quiet_trans [OF e1(1) e2(2)] by blast
qed

theorem path_resolve_follows:
  fixes d :: "'x path_env_scheme"
  assumes inv: "refs_inv d F Is A" and few: "few_refs 4 (refs_of d)" and root: "linked d A 0" and path: "follows d A (caller user grp) 0 0 path t q"
  shows "\<exists>d'. path_resolve d path True user grp = Some (t, d') \<and> quiet F Is A d (inc (refs_of d) t) d'"
proof -
  let ?f = "refs_of d"
  have A: "0 \<in> A" and t: "t \<in> A" "linked d A q"
    using root follows_facts [OF path] by (simp_all add: linked_def)
  have few': "few_refs 3 (inc ?f 0)"
    using few few_refs_inc [of 3 ?f] by (simp add: numeral_eq_Suc)
  obtain d1 where d1: "open_ok d 0 = Some d1" "quiet F Is A d (inc ?f 0) d1"
    using open_ok_spec [OF inv A few_refs_less [OF few]] by auto
  obtain d2 where d2: "open_ok d1 0 = Some d2" "quiet F Is A d1 (inc (inc ?f 0) 0) d2"
    using open_ok_spec [of d1 F Is A 0] A few_refs_less [OF few', of 0] d1(2) by (auto simp: quiet_def)
  note q2 = quiet_trans [OF d1(2) d2(2)]
  have "refs_inv d2 F Is A" "same_files A d d2" "refs_of d2 = inc (inc ?f 0) 0"
    using q2 by (simp_all add: quiet_def)
  from namei_rec_follows [where fuel = 9, OF path few' _ this]
  obtain d3 where d3: "namei_rec 10 (caller user grp) True path 0 0 d2 = Some (t, q, d3)" "quiet F Is A d2 (inc (inc (inc ?f 0) t) q) d3"
    by (auto simp del: namei_rec.simps)
  have "quiet F Is A d (inc (inc (inc ?f t) q) 0) d3"
    using quiet_trans [OF q2 d3(2)] by (metis inc_commute)
  then obtain d4 where d4: "close_ok d3 0 = Some d4" "quiet F Is A d (inc (inc ?f t) q) d4"
    using close_root root by blast
  obtain d5 where d5: "close_ok d4 q = Some d5" "quiet F Is A d4 (inc ?f t) d5"
    using close_ok_spec [of d4 F Is A q "inc ?f t"] d4(2) t(2) quiet_linked [OF d4(2)] by (auto simp: quiet_def)
  have "t \<noteq> EOF"
    using ino_nonneg [OF refs_inv_fs(1) [OF inv] t(1)] by simp
  then have "path_resolve d path True user grp = Some (t, d5)"
    using d1(1) d2(1) d3(1) d4(1) d5(1) by (simp add: path_resolve_def namei_def Let_def)
  then show ?thesis
    using quiet_trans [OF d4(2) d5(2)] by blast
qed

section \<open>Links that lead nowhere\<close>

text \<open>
  An error code is no inode: its entry of the inode list would be beyond the end of the disk, where
  a read fills nothing, and \<open>inode_getinfo\<close> works on whatever its buffer held before.
\<close>

lemma state_wf: "refs_inv d F Is A \<Longrightarrow> wf_disk d"
  using fs_inv_store [OF refs_inv_fs(1)] by (auto simp: store_inv_def store_geometry_def)

lemma getinfo_of_error:
  assumes wf: "wf_disk d" and i: "sint i < 0"
  shows "inode_getinfo d i = None"
proof -
  have "2 ^ 63 \<le> unat i" "unat i < 2 ^ 64"
    using i unsigned_less [of i] by (simp_all add: sint_neg_iff)
  then have "unat (1 + i div INUMS_PER_ILIST_BLOCK) = 1 + unat i div 512" "2 ^ 54 \<le> unat i div 512"
    by (simp_all add: unat_word_ariths unat_div)
  then have "nblocks d \<le> 1 + i div INUMS_PER_ILIST_BLOCK"
    using wf by (simp add: wf_disk_def word_le_nat_alt)
  then have "read_block d (1 + i div INUMS_PER_ILIST_BLOCK) = None"
    using read_block_wf [OF wf] by (simp add: not_less)
  then show ?thesis
    by (simp add: inode_getinfo_def load_inode_def ino_get_def)
qed

lemma link_end_error: "(\<And>r q e. res = Some (r, q, e) \<Longrightarrow> sint r < 0 \<and> wf_disk e) \<Longrightarrow> link_end res = None"
  by (cases res) (auto simp: link_end_def getinfo_of_error)

text \<open>The path is read beyond level 8, or its last entry is missing, or it is a link to such a path.\<close>

inductive nowhere :: "'x disk_t_scheme \<Rightarrow> ino set \<Rightarrow> cred \<Rightarrow> nat \<Rightarrow> ino \<Rightarrow> byte list \<Rightarrow> bool" for d A c where
  deep: "8 < level \<Longrightarrow> nowhere d A c level cur path"
| missing: "level \<le> 8 \<Longrightarrow> leads d A c cur path p n \<Longrightarrow> dir_entry d p n None \<Longrightarrow> nowhere d A c level cur path"
| link: "level \<le> 8 \<Longrightarrow> leads d A c cur path p n \<Longrightarrow> dir_entry d p n (Some u) \<Longrightarrow> linked d A u \<Longrightarrow> S_ISLNK (imode (inode_at d u)) \<Longrightarrow>
    0 \<notin> set (content d u) \<Longrightarrow> length (content d u) < PATH_MAX \<Longrightarrow> nowhere d A c (Suc level) p (content d u) \<Longrightarrow>
    nowhere d A c level cur path"


theorem namei_rec_nowhere:
  fixes d :: "'x refs_env_scheme"
  assumes "nowhere d A c level cur path" and "few_refs 3 base" and "level \<le> 9"
    and "10 \<le> fuel + level" and "refs_inv e F Is A" and "same_files A d e" and "refs_of e = inc base cur"
    and "namei_rec fuel c True path cur level e = Some (r, q, e')"
  shows "sint r < 0 \<and> wf_disk e'"
  using assms(1,3-)
proof (induction arbitrary: fuel e r q e' rule: nowhere.induct)
  case (deep level cur path)
  then obtain fuel' where "fuel = Suc fuel'"
    by (cases fuel) auto
  then show ?case
    using deep state_wf [OF deep.prems(3)] by auto
next
  case (missing level cur path p n)
  then obtain fuel' where fuel: "fuel = Suc fuel'"
    by (cases fuel) auto
  obtain e1 curdir where e1: "at_dir F Is A base p curdir e1" "quiet F Is A e (inc (inc base p) curdir) e1"
      "namei_rec (Suc fuel') c True path cur level e = namei_walk (namei_rec fuel' c True) c True n p curdir level e1"
    using level_start [OF missing.prems(3,5) assms(2) leads_files [OF missing.hyps(2) missing.prems(4)] missing.hyps(1)] by blast
  note files = same_files_trans [OF missing.prems(4) quiet_files [OF e1(2)]]
  have p: "p \<in> A" "good_name n"
    using leads_linked [OF missing.hyps(2)] missing.hyps(2) by (simp_all add: linked_def leads_def)
  obtain e2 where e2: "namei_walk (namei_rec fuel' c True) c True n p curdir level e1 = Some (EOF, p, e2)" "quiet F Is A e1 (inc base p) e2"
    using walk_last_absent [OF e1(1) same_files_entry(1) [OF files p(1) missing.hyps(3)] p(2)] by blast
  have "refs_inv e2 F Is A"
    using e2(2) by (simp add: quiet_def)
  then show ?case
    using missing.prems(6) fuel e1(3) e2(1) state_wf by auto
next
  case (link level cur path p n u)
  then obtain fuel' where fuel: "fuel = Suc fuel'" "10 \<le> fuel' + Suc level" "Suc level \<le> 9"
    by (cases fuel) auto
  note here = link_files [OF link.prems(4) link.hyps(2-5)]
  obtain e1 where e1: "quiet F Is A e (inc base p) e1" "namei_rec (Suc fuel') c True path cur level e = link_end (namei_rec fuel' c True (content d u) p (Suc level) e1)"
    using level_link [OF link.prems(3,5) assms(2) here(1) link.hyps(1) here(2-5) link.hyps(6,7)] by blast
  have s1: "refs_inv e1 F Is A" "same_files A d e1" "refs_of e1 = inc base p"
    using e1(1) same_files_trans [OF link.prems(4) quiet_files [OF e1(1)]] by (simp_all add: quiet_def)
  have "namei_rec (Suc fuel') c True path cur level e = None"
    using link.IH [OF fuel(3,2) s1] link_end_error unfolding e1(2) by blast
  then show ?case
    using link.prems(6) fuel(1) by simp
qed

text \<open>So a link to such a path is the end of the program: what it does next is undefined.\<close>

theorem path_resolve_nowhere:
  fixes d :: "'x path_env_scheme"
  assumes inv: "refs_inv d F Is A" and few: "few_refs 4 (refs_of d)" and root: "linked d A 0"
    and leads: "leads d A (caller user grp) 0 path p n" "dir_entry d p n (Some u)"
    and u: "linked d A u" "S_ISLNK (imode (inode_at d u))" "0 \<notin> set (content d u)" "length (content d u) < PATH_MAX"
    and nowhere: "nowhere d A (caller user grp) 1 p (content d u)"
  shows "path_resolve d path True user grp = None"
proof -
  let ?f = "refs_of d"
  have A: "0 \<in> A"
    using root by (simp add: linked_def)
  have few': "few_refs 3 (inc ?f 0)"
    using few few_refs_inc [of 3 ?f] by (simp add: numeral_eq_Suc)
  obtain d1 where d1: "open_ok d 0 = Some d1" "quiet F Is A d (inc ?f 0) d1"
    using open_ok_spec [OF inv A few_refs_less [OF few]] by auto
  obtain d2 where d2: "open_ok d1 0 = Some d2" "quiet F Is A d1 (inc (inc ?f 0) 0) d2"
    using open_ok_spec [of d1 F Is A 0] A few_refs_less [OF few', of 0] d1(2) by (auto simp: quiet_def)
  note q2 = quiet_trans [OF d1(2) d2(2)]
  have s2: "refs_inv d2 F Is A" "same_files A d d2" "refs_of d2 = inc (inc ?f 0) 0"
    using q2 by (simp_all add: quiet_def)
  note here = link_files [OF s2(2) leads u(1,2)]
  obtain d3 where d3: "quiet F Is A d2 (inc (inc ?f 0) p) d3" "namei_rec (Suc 9) (caller user grp) True path 0 0 d2 = link_end (namei_rec 9 (caller user grp) True (content d u) p (Suc 0) d3)"
    using level_link [OF s2(1,3) few' here(1) le0 here(2-5) u(3,4)] by blast
  have s3: "refs_inv d3 F Is A" "same_files A d d3" "refs_of d3 = inc (inc ?f 0) p"
    using d3(1) same_files_trans [OF s2(2) quiet_files [OF d3(1)]] by (simp_all add: quiet_def)
  have "namei_rec 10 (caller user grp) True path 0 0 d2 = None"
    using link_end_error [OF namei_rec_nowhere [OF nowhere few' _ _ s3, where fuel = 9]] d3(2) by (simp del: namei_rec.simps)
  then show ?thesis
    using d1(1) d2(1) by (simp add: path_resolve_def namei_def Let_def del: namei_rec.simps)
qed

end
