(* ===== verification/Fuse_Follow.thy ===== *)
theory Fuse_Follow
  imports Fuse_Files Path_Follow
begin

text \<open>Paths that end in symbolic links, on the file system as its users see it.\<close>

section \<open>Following links\<close>

text \<open>Read at directory \<open>cur\<close>, the path names the entry \<open>n\<close> of directory \<open>p\<close> with the names \<open>m\<close>.\<close>

definition ns_leads :: "namespace \<Rightarrow> u32 \<Rightarrow> u32 \<Rightarrow> ino \<Rightarrow> byte list \<Rightarrow> ino \<Rightarrow> byte list \<Rightarrow> (byte list \<Rightarrow> ino option) \<Rightarrow> bool" where
  "ns_leads G user grp cur path p n m \<longleftrightarrow> is_dir G cur \<and> good_name n \<and> (\<exists>b. G p = Some (b, Dir m) \<and> may b PERM_EXEC user grp) \<and>
     (\<exists>ns. walk G user grp 0 ns = Some p \<and> path = SLASH # dirs_string ns @ n \<or> walk G user grp cur ns = Some p \<and> path = dirs_string ns @ n)"

text \<open>
  The path leads to the inode \<open>t\<close> through a chain of at most eight links, relative ones being read
  at the directory in which the link is.
\<close>

inductive ns_follows :: "namespace \<Rightarrow> u32 \<Rightarrow> u32 \<Rightarrow> nat \<Rightarrow> ino \<Rightarrow> byte list \<Rightarrow> ino \<Rightarrow> bool" for G user grp where
  found: "level \<le> 8 \<Longrightarrow> ns_leads G user grp cur path p n m \<Longrightarrow> m n = Some t \<Longrightarrow> G t = Some (a, x) \<Longrightarrow> \<forall>bs. x \<noteq> Link bs \<Longrightarrow>
    ns_follows G user grp level cur path t"
| link: "ns_leads G user grp cur path p n m \<Longrightarrow> m n = Some u \<Longrightarrow> G u = Some (a, Link bs) \<Longrightarrow> 0 \<notin> set bs \<Longrightarrow> length bs < PATH_MAX \<Longrightarrow>
    ns_follows G user grp (Suc level) p bs t \<Longrightarrow> ns_follows G user grp level cur path t"

lemma ns_leads_leads:
  assumes s: "serves F Is d f G" and leads: "ns_leads G user grp cur path p n m"
  shows "leads d (dom G) (caller user grp) cur path p n" "dir_entry d p n (m n)" "m n = Some t \<Longrightarrow> linked d (dom G) t"
proof -
  note sv = servesD [OF s]
  obtain b where p: "G p = Some (b, Dir m)" "may b PERM_EXEC user grp"
    using leads by (auto simp: ns_leads_def)
  have "may_search d (caller user grp) p"
    using ns_dir_entry(2) [OF sv(1) p(1)] p(2) by simp
  then show "leads d (dom G) (caller user grp) cur path p n"
    using leads ns_linked [OF sv(1,2), of cur] walk_dir_path [OF sv(1,2)] unfolding ns_leads_def leads_def by (simp, metis)
  show "dir_entry d p n (m n)"
    by (rule ns_dir_entry(1) [OF sv(1) p(1)])
  show "linked d (dom G) t" if "m n = Some t"
    using ns_entry_linked [OF sv(1,2), of p m n t] p(1) that by (simp add: dir_of_eq)
qed

lemma ns_link_facts:
  assumes s: "serves F Is d f G" and leads: "ns_leads G user grp cur path p n m" and u: "m n = Some u" "G u = Some (a, Link bs)"
  shows "dir_entry d p n (Some u)" "linked d (dom G) u" "S_ISLNK (imode (inode_at d u))" "content d u = bs"
  using ns_leads_leads(2,3) [OF s leads] u(1) representsD(4) [OF servesD(1) [OF s] u(2)] by simp_all

lemma ns_follows_follows:
  assumes s: "serves F Is d f G" and "ns_follows G user grp level cur path t"
  shows "(\<exists>q. follows d (dom G) (caller user grp) level cur path t q) \<and> links_of G t \<noteq> 0"
  using assms(2)
proof (induction rule: ns_follows.induct)
  case (found level cur path p n m t a x)
  note sv = servesD [OF s] and lead = ns_leads_leads [OF s found.hyps(2)]
  have t: "t \<in> dom G" "inlinks (inode_at d t) \<noteq> 0"
    using lead(3) [OF found.hyps(3)] by (simp_all add: linked_def)
  have "\<not> S_ISLNK (imode (inode_at d t))"
    using found.hyps(5) representsD(4) [OF sv(1) found.hyps(4)] mode_exclusive by (cases x) (auto simp: dir_rep_def dead_dir_def)
  moreover have "links_of G t \<noteq> 0"
    using t(2) found.hyps(4) representsD(3) [OF sv(1) found.hyps(4)] by (simp add: links_of_def attr_of_def unat_eq_0)
  ultimately show ?case
    using follows.found [OF found.hyps(1) lead(1) _ t(1)] lead(2) found.hyps(3) by auto
next
  case (link cur path p n m u a bs level t)
  note u = ns_link_facts [OF s link.hyps(1-3)]
  show ?case
    using follows.link [OF ns_leads_leads(1) [OF s link.hyps(1)] u(1-3)] u(4) link.hyps(4,5) link.IH by auto
qed

theorem path_resolve_refines:
  fixes d :: "'x path_env_scheme"
  assumes s: "serves F Is d f G" and few: "few_refs 4 f" and path: "ns_follows G user grp 0 0 path t"
  shows "\<exists>d'. path_resolve d path True user grp = Some (t, d') \<and> serves F Is d' (inc f t) G \<and> \<not> sint t < 0"
proof -
  note sv = servesD [OF s]
  obtain q where q: "follows d (dom G) (caller user grp) 0 0 path t q"
    using ns_follows_follows [OF s path] by blast
  have "linked d (dom G) 0"
    using ns_linked [OF sv(1,2)] wf_parts(1) [OF sv(2)] by (auto simp: is_dir_def)
  then obtain d' where "path_resolve d path True user grp = Some (t, d')" "quiet F Is (dom G) d (inc f t) d'"
    using path_resolve_follows [OF sv(4) _ _ q] few sv(3) by auto
  moreover have "t \<in> dom G"
    using follows_facts [OF q] by blast
  then have "\<not> sint t < 0"
    using ino_nonneg [OF refs_inv_fs(1) [OF sv(4)]] by force
  ultimately show ?thesis
    using quiet_serves [OF s] by blast
qed

text \<open>So \<open>open\<close> opens the file at the end of the links.\<close>

theorem candy_open_follows:
  fixes d :: "'x path_env_scheme"
  assumes s: "serves F Is d f G" and few: "few_refs 4 f" and path: "ns_follows G user grp 0 0 path t"
    and t: "G t = Some (a, File bs)" and flags: "access_mode_of flags = Some perms"
  shows "\<exists>d'. candy_open d path flags user grp =
      Some (if may a perms user grp then (0, Some t, d') else (- EACCES, None, d')) \<and>
    serves F Is d' (if may a perms user grp then inc f t else f) G"
proof -
  obtain d1 where "path_resolve d path True user grp = Some (t, d1)" "serves F Is d1 (inc f t) G" "\<not> sint t < 0"
    using path_resolve_refines [OF s few path] by blast
  from open_resolved [OF this _ t flags] show ?thesis
    using ns_follows_follows [OF s path] by blast
qed

section \<open>Links that lead nowhere\<close>

text \<open>The path has passed eight links, or its last entry is missing, or it is a link to such a path.\<close>

inductive ns_nowhere :: "namespace \<Rightarrow> u32 \<Rightarrow> u32 \<Rightarrow> nat \<Rightarrow> ino \<Rightarrow> byte list \<Rightarrow> bool" for G user grp where
  deep: "8 < level \<Longrightarrow> ns_nowhere G user grp level cur path"
| missing: "level \<le> 8 \<Longrightarrow> ns_leads G user grp cur path p n m \<Longrightarrow> m n = None \<Longrightarrow> ns_nowhere G user grp level cur path"
| link: "level \<le> 8 \<Longrightarrow> ns_leads G user grp cur path p n m \<Longrightarrow> m n = Some u \<Longrightarrow> G u = Some (a, Link bs) \<Longrightarrow>
    0 \<notin> set bs \<Longrightarrow> length bs < PATH_MAX \<Longrightarrow> ns_nowhere G user grp (Suc level) p bs \<Longrightarrow> ns_nowhere G user grp level cur path"

lemma ns_nowhere_nowhere:
  assumes s: "serves F Is d f G" and "ns_nowhere G user grp level cur path"
  shows "nowhere d (dom G) (caller user grp) level cur path"
  using assms(2)
proof (induction rule: ns_nowhere.induct)
  case (deep level cur path)
  then show ?case
    by (rule nowhere.deep)
next
  case (missing level cur path p n m)
  then show ?case
    using nowhere.missing [OF missing.hyps(1)] ns_leads_leads(1,2) [OF s missing.hyps(2)] by metis
next
  case (link level cur path p n m u a bs)
  note u = ns_link_facts [OF s link.hyps(2-4)]
  show ?case
    using nowhere.link [OF link.hyps(1) ns_leads_leads(1) [OF s link.hyps(2)] u(1-3)] u(4) link.hyps(5,6) link.IH by simp
qed

theorem path_resolve_broken:
  fixes d :: "'x path_env_scheme"
  assumes s: "serves F Is d f G" and few: "few_refs 4 f" and leads: "ns_leads G user grp 0 path p n m" and u: "m n = Some u" "G u = Some (a, Link bs)"
    and bs: "0 \<notin> set bs" "length bs < PATH_MAX" and nowhere: "ns_nowhere G user grp 1 p bs"
  shows "path_resolve d path True user grp = None"
proof -
  note sv = servesD [OF s] and at = ns_link_facts [OF s leads u]
  have "linked d (dom G) 0"
    using ns_linked [OF sv(1,2)] wf_parts(1) [OF sv(2)] by (auto simp: is_dir_def)
  then show ?thesis
    using path_resolve_nowhere [OF sv(4) _ _ ns_leads_leads(1) [OF s leads] at(1-3)] few sv(3) at(4) bs ns_nowhere_nowhere [OF s nowhere] by simp
qed

end
