(* ===== verification/Demo_Fuse.thy ===== *)
theory Demo_Fuse
  imports Demo Fuse_Names Fuse_Follow
begin

text \<open>
  Concrete states of the mounted file system: the disk of eight blocks freshly formatted, with a
  file \<open>/a\<close> that is still open, with a directory \<open>/a\<close>, and with a symbolic link \<open>/a\<close>.
\<close>

section \<open>The empty file system\<close>

definition demo_ns :: namespace where
  "demo_ns = ns_root (root_attr 0 0)"

abbreviation root_map :: "byte list \<Rightarrow> ino option" where
  "root_map \<equiv> [[DOT, DOT] \<mapsto> 0, [DOT] \<mapsto> 0]"

lemma demo_boot_ok: "wf_disk demo_boot" "unat (1 :: u64) + 2 < unat (nblocks demo_boot)" "(0 :: u64) < 1"
    "open_file_table demo_boot = replicate HASHMAP_SIZE []" "idle demo_boot" "(0 :: u32) \<noteq> -1"
  using demo_wf boot_idle(1) by (simp_all add: demo_boot_def)

definition demo_rest :: "ino list" where
  "demo_rest = tl demo_inos"

lemma demo_inos_1: "demo_inos = 1 # demo_rest"
proof -
  have "[1..<512] = 1 # [Suc 1..<512]"
    by (rule upt_conv_Cons) simp
  then show ?thesis
    by (simp only: demo_rest_def demo_inos_def list.map list.sel) simp
qed

lemma demo_root_serves: "\<exists>F. serves F (1 # demo_rest) demo_root (\<lambda>_. 0) demo_ns \<and> card F = 4"
  using format_serves [OF demo_boot_ok, of 0] demo_root_facts(1) by (auto simp: demo_blocks card_demo_free demo_mkfs_inos demo_inos_1 demo_ns_def)

lemma demo_root_reach: "fuse_reach demo_root (\<lambda>_. 0) demo_ns"
  unfolding demo_ns_def by (rule fuse_reach.format [OF demo_boot_ok demo_root_facts(1)])

lemma demo_ns_0: "demo_ns 0 = Some (root_attr 0 0, Dir root_map)" "dom demo_ns = {0}"
  by (auto simp: demo_ns_def ns_root_def)

lemma good_letter [simp]: "good_name demo_name" "good_name [98]"
  by (simp_all add: good_name_def demo_name_def SLASH_def)

lemma demo_at: "ns_at demo_ns 0 0 [] 0 demo_name root_map" "root_map demo_name = None"
  by (simp_all add: ns_at_def demo_ns_0 may_def)

lemma demo_few: "n \<le> 5 \<Longrightarrow> few_refs n (\<lambda>_. 0)" "n \<le> 5 \<Longrightarrow> few_refs n (inc (\<lambda>_. 0) i)"
  by (simp_all add: few_refs_def inc_def)

lemma demo_room: "room_for_new demo_root (dom demo_ns) 0" "next_ino demo_root = 1" "fsize demo_root 0 = BLOCKSIZE"
proof -
  obtain F where F: "serves F (1 # demo_rest) demo_root (\<lambda>_. 0) demo_ns" "card F = 4"
    using demo_root_serves by blast
  note inv = refs_inv_fs(1) [OF servesD(4) [OF F(1)]]
  have "dir_rep demo_root 0 (new_dir 0 0)"
    using demo_root_facts(4) by (simp add: root_ok_def)
  then show size: "fsize demo_root 0 = BLOCKSIZE"
    using dir_rep_size [OF inv] demo_ns_0(2) by (simp add: new_dir_def)
  have "F \<noteq> {}"
    using F(2) by auto
  then show "next_ino demo_root = 1"
    using inode_allocate_spec [OF inv] by (auto simp: next_ino_def)
  then show "room_for_new demo_root (dom demo_ns) 0"
    using F(2) size serves_free [OF F(1)]
    by (simp add: room_for_new_def room_for_dir_def fcount_blocks_def blockcount_nonneg slots_direct MAX_FILESIZE_def)
qed

section \<open>With a file\<close>

definition demo_a :: path_env where
  "demo_a = snd (snd (the (candy_create demo_root (entry_path [] demo_name) 0x81A4 0 0)))"

definition demo_a_ns :: namespace where
  "demo_a_ns = ns_create 0 demo_name 1 0x1A4 0 0 demo_ns"

abbreviation demo_a_refs :: "ino \<Rightarrow> nat" where
  "demo_a_refs \<equiv> inc (\<lambda>_. 0) 1"

lemma demo_create_ok: "fuse_ok (Op_create [] demo_name 0x81A4) 0 0 demo_root (\<lambda>_. 0) demo_ns"
proof -
  have "few_refs 5 (\<lambda>_. 0)" "(0 :: u32) \<noteq> -1" "S_ISREG 0x81A4"
    using demo_few(1) by (simp_all add: mode_defs)
  then show ?thesis
    using demo_at demo_room(1) by (simp only: fuse_ok.simps) blast
qed

lemma demo_a_facts:
  "candy_create demo_root (entry_path [] demo_name) 0x81A4 0 0 = Some (0, Some 1, demo_a)"
  "\<exists>F. serves F demo_rest demo_a demo_a_refs demo_a_ns \<and> card F + slots_count (fcount_blocks demo_a 0) = 4" "fsize demo_a 0 \<le> 2 * BLOCKSIZE"
proof -
  obtain F where F: "serves F (1 # demo_rest) demo_root (\<lambda>_. 0) demo_ns" "card F = 4"
    using demo_root_serves by blast
  have "S_ISREG 0x81A4" "(0x81A4 :: u32) AND 0xFFF = 0x1A4" "room_for_dir demo_root F 0"
    using demo_room(1) serves_free [OF F(1)] by (simp_all add: mode_defs room_for_new_def)
  with candy_create_refines [where mode = "0x81A4", OF F(1) demo_few(1) [of 5] demo_at(1,2)]
  obtain d' F' where d': "candy_create demo_root (entry_path [] demo_name) 0x81A4 0 0 = Some (0, Some 1, d')"
      "serves F' demo_rest d' demo_a_refs demo_a_ns" "fsize d' 0 \<le> fsize demo_root 0 + BLOCKSIZE"
      "card F + slots_count (fcount_blocks demo_root 0) = card F' + 1 + slots_count (fcount_blocks d' 0)"
    by (auto simp: demo_a_ns_def)
  moreover have "slots_count (fcount_blocks demo_root 0) = 1"
    by (simp add: fcount_blocks_def demo_room(3) blockcount_nonneg slots_direct)
  moreover have "d' = demo_a"
    using d'(1) by (simp add: demo_a_def)
  ultimately show "candy_create demo_root (entry_path [] demo_name) 0x81A4 0 0 = Some (0, Some 1, demo_a)"
    "\<exists>F. serves F demo_rest demo_a demo_a_refs demo_a_ns \<and> card F + slots_count (fcount_blocks demo_a 0) = 4" "fsize demo_a 0 \<le> 2 * BLOCKSIZE"
    using F(2) demo_room(3) by auto
qed

lemma demo_a_reach: "fuse_reach demo_a demo_a_refs demo_a_ns"
proof (rule fuse_reach.step [OF demo_root_reach demo_create_ok])
  show "fuse_exec (Op_create [] demo_name 0x81A4) 0 0 demo_root = Some (0, demo_a)"
    by (simp add: demo_a_facts)
  show "ns_exec (Op_create [] demo_name 0x81A4) 0 0 (next_ino demo_root) (\<lambda>_. 0, demo_ns) = (demo_a_refs, demo_a_ns)"
    using entry_of_at [OF demo_at(1)] by (simp add: demo_room(2) demo_a_ns_def)
qed

definition a_attr :: fattr where
  "a_attr = fresh_attr_of 0x1A4 0 0"

lemma demo_a_ns_at: "demo_a_ns 0 = Some (root_attr 0 0, Dir (root_map(demo_name \<mapsto> 1)))" "demo_a_ns 1 = Some (a_attr, File [])"
    "dom demo_a_ns = {0, 1}"
  by (auto simp: demo_a_ns_def ns_create_def ns_new_def demo_ns_def ns_root_def a_attr_def)

lemma demo_a_at: "ns_at demo_a_ns u g [] 0 n (root_map(demo_name \<mapsto> 1)) \<longleftrightarrow> good_name n \<and> 0 \<notin> set n \<and> may (root_attr 0 0) PERM_WRITE u g"
  "ns_see demo_a_ns u g [] 0 n (root_map(demo_name \<mapsto> 1)) \<longleftrightarrow> good_name n \<and> may (root_attr 0 0) PERM_EXEC u g"
  by (auto simp: ns_at_def ns_see_def demo_a_ns_at)

lemma may_superuser [simp]: "may a p 0 g"
  by (simp add: may_def)

lemma may_root_attr: "may (root_attr 0 0) PERM_EXEC u g" "may (root_attr 0 0) PERM_READ u g"
  by (auto simp: may_def root_attr_def fresh_attr_of_def PERM_EXEC_def PERM_READ_def less_Suc_eq numeral_eq_Suc)

lemma demo_a_room:
  assumes s: "serves F Is demo_a demo_a_refs demo_a_ns"
  shows "enough demo_a F 1 BLOCKSIZE" "enough demo_a F 0 (fsize demo_a 0 + BLOCKSIZE)" "fsize demo_a 0 + BLOCKSIZE \<le> MAX_FILESIZE"
proof -
  note inv = refs_inv_fs(1) [OF servesD(4) [OF s]]
  have rep: "\<exists>ess. dir_rep demo_a 0 ess" "content demo_a 1 = []"
    using representsD(4) [OF servesD(1) [OF s] demo_a_ns_at(1)] representsD(4) [OF servesD(1) [OF s] demo_a_ns_at(2)] by auto
  then obtain ess where ess: "dir_rep demo_a 0 ess"
    by blast
  have "fsize demo_a 0 = int (length ess * BLOCKSIZE)"
    using dir_rep_size [OF inv _ ess] demo_a_ns_at(3) by simp
  then have size0: "fsize demo_a 0 = BLOCKSIZE * int (length ess)" "length ess \<le> 2"
    using demo_a_facts(3) by simp_all
  have "nat (fsize demo_a 1) = 0" "0 \<le> fsize demo_a 1"
    using rep(2) length_content [of demo_a 1] fs_inv_inode(7) [OF inv, of 1] demo_a_ns_at(3) by simp_all
  then have size1: "fsize demo_a 1 = 0"
    by simp
  obtain F' where F': "serves F' demo_rest demo_a demo_a_refs demo_a_ns" "card F' + slots_count (fcount_blocks demo_a 0) = 4"
    using demo_a_facts(2) by blast
  have "F' = F"
    using serves_free [OF F'(1)] serves_free [OF s] by simp
  then have card: "card F + length ess = 4"
    using F'(2) size0 by (simp add: fcount_blocks_def blockcount_nonneg slots_direct)
  show "enough demo_a F 1 BLOCKSIZE"
    using enough_direct(1) [of demo_a 1 BLOCKSIZE F] size1 card size0(2) by (simp add: fcount_blocks_def blockcount_nonneg)
  show "enough demo_a F 0 (fsize demo_a 0 + BLOCKSIZE)"
    using enough_direct(1) [of demo_a 0 "fsize demo_a 0 + BLOCKSIZE" F] size0 card by (simp add: fcount_blocks_def blockcount_nonneg)
  show "fsize demo_a 0 + BLOCKSIZE \<le> MAX_FILESIZE"
    using size0 by (simp add: MAX_FILESIZE_def)
qed

section \<open>With a directory\<close>

definition demo_d :: path_env where
  "demo_d = snd (the (candy_mkdir demo_root (entry_path [] demo_name) 0x1ED 0 0))"

definition demo_d_ns :: namespace where
  "demo_d_ns = ns_mkdir 0 demo_name 1 0x1ED 0 0 demo_ns"

lemma demo_mkdir_ok: "fuse_ok (Op_mkdir [] demo_name 0x1ED) 0 0 demo_root (\<lambda>_. 0) demo_ns"
proof -
  have "few_refs 5 (\<lambda>_. 0)" "(0 :: u32) \<noteq> -1" "(0x1ED :: u32) AND 0xFFF = 0x1ED"
    using demo_few(1) by simp_all
  then show ?thesis
    using demo_at demo_room(1) by (simp only: fuse_ok.simps) blast
qed

lemma demo_mkdir_ns: "ns_exec (Op_mkdir [] demo_name 0x1ED) 0 0 (next_ino demo_root) (\<lambda>_. 0, demo_ns) = (\<lambda>_. 0, demo_d_ns)"
  using entry_of_at [OF demo_at(1)] by (simp add: demo_room(2) demo_d_ns_def)

lemma demo_d_reach: "fuse_reach demo_d (\<lambda>_. 0) demo_d_ns"
proof -
  obtain F where "serves F (1 # demo_rest) demo_root (\<lambda>_. 0) demo_ns"
    using demo_root_serves by blast
  from fuse_simulates [OF this demo_mkdir_ok]
  obtain r where r: "fuse_exec (Op_mkdir [] demo_name 0x1ED) 0 0 demo_root = Some (r, demo_d)"
    by (auto simp: demo_d_def)
  show ?thesis
    by (rule fuse_reach.step [OF demo_root_reach demo_mkdir_ok r demo_mkdir_ns])
qed

lemma demo_d_serves: "\<exists>F Is. serves F Is demo_d (\<lambda>_. 0) demo_d_ns"
  by (rule fuse_reach_serves [OF demo_d_reach])

lemma demo_d_ns_at: "demo_d_ns 0 = Some (root_attr 0 0, Dir (root_map(demo_name \<mapsto> 1)))"
    "demo_d_ns 1 = Some (fresh_attr_of 0x1ED 0 0, Dir [[DOT, DOT] \<mapsto> 0, [DOT] \<mapsto> 1])"
  by (auto simp: demo_d_ns_def ns_mkdir_def ns_new_def demo_ns_def ns_root_def)

lemma demo_d_at: "ns_at demo_d_ns 0 0 [] 0 demo_name (root_map(demo_name \<mapsto> 1))" "ns_see demo_d_ns 0 0 [] 0 demo_name (root_map(demo_name \<mapsto> 1))"
  by (simp_all add: ns_at_def ns_see_def demo_d_ns_at)

lemma demo_a_outside: "\<not> inside (dir_of demo_a_ns) 1 0"
proof
  assume "inside (dir_of demo_a_ns) 1 0"
  then show False
    by (induction "0 :: ino") (auto simp: dir_of_def demo_a_ns_at DOT_def demo_name_def)
qed

section \<open>With a symbolic link\<close>

definition demo_l :: "byte list \<Rightarrow> path_env" where
  "demo_l target = snd (the (candy_symlink demo_root target (entry_path [] demo_name) 0 0))"

definition demo_l_ns :: "byte list \<Rightarrow> namespace" where
  "demo_l_ns target = ns_symlink 0 demo_name 1 target 0 0 demo_ns"

lemma demo_l_reach:
  assumes target: "target \<noteq> []" "length target \<le> PATH_MAX - 1"
  shows "fuse_reach (demo_l target) (\<lambda>_. 0) (demo_l_ns target)"
proof -
  let ?op = "Op_symlink target [] demo_name"
  have "few_refs 5 (\<lambda>_. 0)" "(0 :: u32) \<noteq> -1"
    using demo_few(1) by simp_all
  then have ok: "fuse_ok ?op 0 0 demo_root (\<lambda>_. 0) demo_ns"
    using demo_at demo_room(1) target by (simp only: fuse_ok.simps) blast
  have ns: "ns_exec ?op 0 0 (next_ino demo_root) (\<lambda>_. 0, demo_ns) = (\<lambda>_. 0, demo_l_ns target)"
    using entry_of_at [OF demo_at(1)] by (simp add: demo_room(2) demo_l_ns_def)
  obtain F where "serves F (1 # demo_rest) demo_root (\<lambda>_. 0) demo_ns"
    using demo_root_serves by blast
  from fuse_simulates [OF this ok]
  obtain r where r: "fuse_exec ?op 0 0 demo_root = Some (r, demo_l target)"
    by (auto simp: demo_l_def)
  show ?thesis
    by (rule fuse_reach.step [OF demo_root_reach ok r ns])
qed

lemma demo_l_ns_at: "demo_l_ns target 0 = Some (root_attr 0 0, Dir (root_map(demo_name \<mapsto> 1)))"
    "\<exists>a. demo_l_ns target 1 = Some (a, node.Link target)"
  by (auto simp: demo_l_ns_def ns_symlink_def ns_new_def demo_ns_def ns_root_def)

lemma demo_l_leads: "good_name n \<Longrightarrow> ns_leads (demo_l_ns target) 0 0 0 (entry_path [] n) 0 n (root_map(demo_name \<mapsto> 1))"
    "good_name n \<Longrightarrow> ns_leads (demo_l_ns target) 0 0 0 n 0 n (root_map(demo_name \<mapsto> 1))"
  by (auto simp: ns_leads_def demo_l_ns_at is_dir_def dir_of_eq entry_path_def intro!: exI [of _ "[]"])

section \<open>A file with two bytes, on a disk with four free blocks\<close>

definition demo_two :: path_env where
  "demo_two = snd (the (inode_write demo_file 0 0 (Some [7, 8]) 2))"

lemma demo_two_facts:
  "\<exists>F. fs_inv demo_two F demo_inos {0} \<and> card F = 4" "content demo_two 0 = [7, 8]" "fsize demo_two 0 = 2"
proof -
  have bytes: "data_fits (Some [7, 8]) (int 2)" "data_bytes (Some [7, 8]) 2 = [7, 8]"
    by (simp_all add: data_fits_def data_bytes_def)
  then obtain d' F' where d': "inode_write demo_file 0 0 (Some [7, 8]) 2 = Some (2, d')" "fs_result {0} 0 demo_file d' F' demo_inos {0}"
      "content d' 0 = write_bytes [] 0 [7, 8]"
    using inode_write_spec [OF demo_file_fs, of 0 0 0 2 "Some [7, 8]"] demo_file_enough(1) [of 2] demo_file_facts(5)
    by (auto simp: MAX_FILESIZE_def)
  then have two: "d' = demo_two" "content demo_two 0 = [7, 8]"
    by (simp_all add: demo_two_def write_bytes_def)
  have inv: "fs_inv demo_two F' demo_inos {0}" "changed UNIV demo_file demo_two"
    using d'(2) two(1) by (simp_all add: fs_result_def changed_def)
  have "nat (fsize demo_two 0) = 2"
    using length_content [of demo_two 0] two(2) by simp
  then have size: "fsize demo_two 0 = 2"
    by simp
  have "data_blocks demo_file = 6"
    using block_accounting [OF demo_file_fs] demo_file_facts(6) demo_file_size by (simp add: fcount_blocks_def blockcount_nonneg slots_direct)
  then have "data_blocks demo_two = 6"
    using inv(2) by (simp add: data_blocks_def changed_def)
  then have "card F' = 4"
    using block_accounting [OF inv(1)] size by (simp add: fcount_blocks_def blockcount_nonneg slots_direct)
  then show "\<exists>F. fs_inv demo_two F demo_inos {0} \<and> card F = 4" "content demo_two 0 = [7, 8]" "fsize demo_two 0 = 2"
    using inv two(2) size by (auto simp: changed_def)
qed

end
