(* ===== verification/Spec2Isabelle.thy ===== *)
theory Spec2Isabelle
  imports Demo_Fuse
begin

text \<open>
  candyfs is a Unix filesystem for FUSE, in memory or on a block device.  This development models
  the whole of its implementation (the C files under \<open>src/\<close> other than the test driver) and proves
  that the mounted filesystem does to files, directories and links what the same operations do to
  a file system of names, that it keeps its structures consistent while it does so, and what goes
  wrong where it does not.

  The program and the theories.  Every layer calls only the ones before it; its state is a record
  that extends theirs, and every operation is a function from the state to a result and the new
  state.  \<open>None\<close> is a failed \<open>assert\<close>, \<open>abort\<close> or a trap; errors that the code returns are values.

  \<^item> \<open>Prelude\<close>, \<open>Layout\<close>: C integer types as words (\<open>ino\<close> and \<open>u64\<close> are 64 bits, \<open>u32\<close> and \<open>byte\<close>
    32 and 8), \<open>memcpy\<close> on lists of bytes, and the structures of \<open>block.c\<close>, \<open>inode.c\<close> and \<open>dir.c\<close>
    as bytes of a block, with the locale \<open>block_codec\<close> for what a stored structure is read back as.
  \<^item> \<open>Disk\<close>, \<open>Block\<close> (\<open>disk.c\<close>, \<open>block.c\<close>): the array of blocks; the superblock, the table of inodes and the two
    free lists.  \<open>Allocator\<close> is the locale of what both lists promise; \<open>Storage\<close>, \<open>Store_Blocks\<close>,
    \<open>Store_Inodes\<close> and \<open>Store_Mkfs\<close> interpret it and show that \<open>store_inv\<close> is kept.
  \<^item> \<open>Inode_Index\<close>, \<open>Inode_Tree\<close>, \<open>Inode\<close> (\<open>inode.c\<close>): the 499 block slots of an inode, direct to triply
    indirect, the three recursive routines over them and the exported operations.  \<open>Tree_*\<close> prove
    the contracts of the three routines (\<open>tree_ok\<close>, \<open>tset\<close> is the set of blocks of a tree), \<open>Inode_Slots\<close>
    to \<open>Inode_Life\<close> those of the operations on the content of a file as a list of bytes
    (\<open>content\<close>), \<open>Files\<close> has the invariant \<open>fs_inv d F Is A\<close> (\<open>F\<close> the free blocks, \<open>Is\<close> the free
    inode numbers, \<open>A\<close> the inodes in use), \<open>Inode_Steps\<close> histories of operations, \<open>Space\<close> the block accounting.
  \<^item> \<open>File\<close>, \<open>Perm\<close>, \<open>Dir\<close> (\<open>file.c\<close>, \<open>symlink.c\<close>, \<open>perm.c\<close>, \<open>dir.c\<close>): \<open>File_Spec\<close> and \<open>Perm_Spec\<close> hold their
    properties; \<open>Dir_Block\<close> reads a block of a directory as a list of entries, \<open>Dir_Spec\<close>,
    \<open>Dir_Update\<close>, \<open>Dir_Life\<close> show that the operations are those of a map (\<open>dir_rep\<close>, \<open>dir_map\<close>) and
    \<open>Dir_List\<close> that following the offsets of \<open>dir_enumerate\<close> lists every entry once.
  \<^item> \<open>Refs\<close> (\<open>refs.c\<close>): the hash table of open inodes.  \<open>Refs_Table\<close> states its contract as the locale
    \<open>node_table\<close>, interprets it and has the invariant \<open>refs_inv\<close>, with the counts as \<open>refs_of\<close>.
  \<^item> \<open>Path\<close> (\<open>path.c\<close>): name resolution, the table of open paths and the operations on entries.
    \<open>Path_Walk\<close> follows a path of directories, \<open>Path_Table\<close> opens and closes handles, \<open>Path_Step\<close> has the
    steps and \<open>Path_Ops\<close>, \<open>Path_Move\<close> and \<open>Path_Rename\<close> the operations; \<open>Path_Follow\<close> resolves paths that
    end in symbolic links.
  \<^item> \<open>Candyfs\<close> (\<open>candyfs.c\<close>, \<open>mkfs.c\<close>): the FUSE operations and the two programs.  \<open>Fuse_Spec\<close>, \<open>Fuse_Links\<close>
    and \<open>Fuse_Rename\<close> follow them from end to end: between two operations no path is open (\<open>idle\<close>).
  \<^item> \<open>Namespace\<close>, \<open>Namespace_Ops\<close>, \<open>Namespace_Tree\<close>: the abstract specification, in which an inode
    is a directory, a file, a link or a removed directory that is still open, and its invariant: the numbers of links
    are the numbers of names, and the directories form a tree.
  \<^item> \<open>Fuse_Refine\<close>, \<open>Fuse_Refine_Links\<close>, \<open>Fuse_Refine_Rename\<close>, \<open>Fuse_Files\<close>, \<open>Fuse_Attr\<close>, \<open>Fuse_Errors\<close>,
    \<open>Fuse_Refused\<close>, \<open>Fuse_List\<close>: one lemma per operation from the disk to the specification (\<open>represents\<close>, \<open>serves\<close>).  \<open>Fuse_Run\<close> puts them
    together: \<open>fuse_exec\<close> runs an entry of \<open>operations\<close>, \<open>ns_exec\<close> is its counterpart on names, \<open>ns_result\<close> the
    code it returns, \<open>fuse_ok\<close> its guard, \<open>fuse_refused\<close> the refusals and their errors, and \<open>fuse_reach\<close> the states that histories of
    operations, allowed or refused, reach from a formatted disk;
    \<open>Fuse_Names\<close> shows that the names in them are short, \<open>Fuse_Follow\<close> where chains of links lead.
  \<^item> \<open>Demo\<close>, \<open>Demo_Fuse\<close>: concrete states for the witnesses, on a disk of eight blocks.

  Bounds and fuel.  Name resolution nests through symbolic links and has fuel 10 in \<open>namei\<close>: the code
  cuts it off at level 9, so that more fuel changes nothing (C40).  The loops over directories
  and lists of blocks are \<open>partial_function\<close>s and proved to end.  \<open>few_refs k f\<close> says that
  no count of the table is within \<open>k\<close> of wrapping around at 32 bits; an operation takes at most
  five references at a time.  \<open>enough\<close> and \<open>room_for_dir\<close> count the free blocks an operation needs:
  what happens on a full disk is C38 and C39, the refusals of C3 and the lemmas on \<open>dir_create\<close> and on files.
  The histories \<open>fuse_reach\<close> take only guarded steps: an operation whose names are
  found and that has room, or one of the refusals that \<open>fuse_refused\<close> lists; those of C10 (\<open>fs_reach\<close>) have the
  guard \<open>op_ok\<close>.  They exclude the growth of a
  file or directory past the room on the disk, where C39 shows that a block in use is freed.

  What is a parameter.  \<open>malloc\<close>, the devices, the results of \<open>clock_gettime\<close> and the contents of
  uninitialised buffers are arguments or fields of the state, so that every theorem holds for
  all of them.  The kernel's part of FUSE is not modelled; that it does not move a directory into
  itself is the guard of \<open>rename\<close>.

  Not modelled: \<open>test.c\<close>, a manual test program; \<open>disk_close\<close>'s return of memory; printing and \<open>usage\<close>; \<open>fuse_main\<close>
  itself, which is library code that calls the operations.  Modelled, but without a theorem
  from end to end: paths with a symbolic link before the last name (the kernel resolves links before it
  calls; C21 and C32 are on links in the last name).
\<close>

section \<open>The properties\<close>

text \<open>C1. The mounted file system refines a file system of names: from every state that a guarded history
  of FUSE operations reaches (\<open>fuse_reach\<close>, see C2), an operation that its caller may do, and for which there is room,
  returns, and leaves a disk that represents what the operation on names \<open>ns_exec\<close> makes of
  the directories, files and links, and a table of open inodes with the counts that it has.\<close>

theorem fuse_refines_names:
  fixes d :: "'x path_env_scheme"
  assumes "fuse_reach d f G" and "fuse_ok op user grp d f G" and "ns_exec op user grp (next_ino d) (f, G) = (f', G')"
  shows "\<exists>r d' F Is. fuse_exec op user grp d = Some (r, d') \<and> represents F Is d' G' \<and> refs_of d' = f'"
proof -
  obtain F Is where "serves F Is d f G"
    using fuse_reach_serves [OF assms(1)] by blast
  from fuse_simulates [OF this assms(2)] show ?thesis
    using assms(3) by (auto simp: serves_def)
qed

theorem fuse_refines_names_witness:
  "\<exists>r d' F Is. fuse_exec (Op_mkdir [] demo_name 0x1ED) 0 0 demo_root = Some (r, d') \<and> represents F Is d' demo_d_ns \<and> refs_of d' = (\<lambda>_. 0)"
  by (rule fuse_refines_names [OF demo_root_reach demo_mkdir_ok demo_mkdir_ns])

text \<open>C2. Every state that a guarded history reaches (\<open>fuse_reach\<close>) is consistent: each data block is
  free or in one inode, each inode number is free or in use, the table of open inodes has the
  inodes in use with their number of links, and no handle of a path is left open.  A step of such
  a history is an operation that its guard \<open>fuse_ok\<close> allows, where every name is found, the caller may change
  the directory that changes and the disk has room for what the operation writes, or one that is refused in a way that \<open>fuse_refused\<close> lists: \<open>mkdir\<close>,
  \<open>create\<close> and \<open>symlink\<close> without space for the new inode, \<open>mkdir\<close> of a name that is taken, bad arguments
  of \<open>create\<close> and \<open>symlink\<close>, missing names, \<open>unlink\<close> of a directory and \<open>rmdir\<close> of one with entries.
  A file or a directory that would grow past the room on the disk is in no such history: there the
  claim fails, see C39.\<close>

theorem fuse_state_consistent:
  assumes "fuse_reach d f G"
  shows "\<exists>F Is. refs_inv d F Is (dom G) \<and> refs_of d = f \<and> idle d"
proof -
  obtain F Is where "serves F Is d f G"
    using fuse_reach_serves [OF assms] by blast
  from servesD(3-5) [OF this] show ?thesis
    by blast
qed

theorem fuse_state_consistent_witness:
  "\<exists>F Is. refs_inv demo_a F Is (dom demo_a_ns) \<and> refs_of demo_a = demo_a_refs \<and> idle demo_a"
  by (rule fuse_state_consistent [OF demo_a_reach])

text \<open>C3. What each FUSE operation returns, from every state of a guarded history.  An operation
  that its guard allows returns exactly \<open>ns_result\<close>: 0, the number of bytes read or written, \<open>-EACCES\<close>
  where the caller's class has not the bits asked for, \<open>-ENOENT\<close> for \<open>getattr\<close> of a missing name or the
  error of a \<open>rename\<close>.  An operation that is refused returns exactly its error (\<open>-ENOSPC\<close>,
  \<open>-EEXIST\<close>, \<open>-EINVAL\<close>, \<open>-ENAMETOOLONG\<close>, \<open>-ENOENT\<close>, \<open>-EPERM\<close> or \<open>-ENOTEMPTY\<close>, as \<open>fuse_refused\<close> lists), the directories,
  files and links are as they were, no inode and no block that it took on the way is lost, and the open files are as they
  were, but for the reference that \<open>unlink\<close> of a directory leaks.\<close>

theorem fuse_operations_return:
  fixes d :: "'x path_env_scheme"
  assumes "fuse_reach d f G"
  shows "(fuse_ok op user grp d f G \<longrightarrow> (\<exists>d'. fuse_exec op user grp d = Some (ns_result op user grp G, d'))) \<and>
    (fuse_refused op user grp d f G e f' \<longrightarrow>
      (\<exists>d' F Is. fuse_exec op user grp d = Some (e, d') \<and> represents F Is d' G \<and> refs_of d' = f'))"
proof -
  obtain F Is where s: "serves F Is d f G"
    using fuse_reach_serves [OF assms] by blast
  have "\<exists>d'. fuse_exec op user grp d = Some (ns_result op user grp G, d')" if "fuse_ok op user grp d f G"
    using fuse_simulates [OF s that] by blast
  moreover have "\<exists>d' F Is. fuse_exec op user grp d = Some (e, d') \<and> represents F Is d' G \<and> refs_of d' = f'"
    if "fuse_refused op user grp d f G e f'"
    using fuse_refuses [OF s that] by (auto simp: serves_def)
  ultimately show ?thesis
    by blast
qed

theorem fuse_operations_return_witness:
  "(\<exists>d'. fuse_exec (Op_create [] demo_name 0x81A4) 0 0 demo_root = Some (0, d')) \<and>
   (\<exists>d' F Is. fuse_exec (Op_unlink [] demo_name) 0 0 demo_root = Some (- ENOENT, d') \<and> represents F Is d' demo_ns \<and> refs_of d' = (\<lambda>_. 0))"
proof -
  have "fuse_refused (Op_unlink [] demo_name) 0 0 demo_root (\<lambda>_. 0) demo_ns (- ENOENT) (\<lambda>_. 0)"
    using demo_few(1) demo_at by (simp, intro exI, auto)
  then show ?thesis
    using fuse_operations_return [OF demo_root_reach] demo_create_ok by fastforce
qed

text \<open>C4. In every state of a guarded history (\<open>fuse_reach\<close>, see C2) the inodes in use are well typed: each has exactly the type of
  file that its node has, the bytes of a directory decode to blocks of entries with distinct
  names that are its map, and the bytes of a file or of a symbolic link are its content.\<close>

theorem inodes_well_typed:
  assumes "fuse_reach d f G" and "G i = Some (a, x)"
  shows "case x of
      Dir m \<Rightarrow> S_ISDIR (imode (inode_at d i)) \<and> (\<exists>ess. dir_ok ess \<and> content d i = dir_bytes ess \<and> dir_map ess = m)
    | File bs \<Rightarrow> S_ISREG (imode (inode_at d i)) \<and> content d i = bs
    | node.Link bs \<Rightarrow> S_ISLNK (imode (inode_at d i)) \<and> content d i = bs
    | Gone \<Rightarrow> S_ISDIR (imode (inode_at d i)) \<and> fsize d i = BLOCKSIZE - 1"
proof -
  obtain F Is where "serves F Is d f G"
    using fuse_reach_serves [OF assms(1)] by blast
  from inode_read(3) [OF this assms(2)] show ?thesis
    by (cases x) (auto simp: dir_rep_def dead_dir_def)
qed

theorem inodes_well_typed_witness:
  "S_ISREG (imode (inode_at demo_a 1)) \<and> content demo_a 1 = []"
  using inodes_well_typed [OF demo_a_reach demo_a_ns_at(2)] by simp

text \<open>C5. In every state of a guarded history (\<open>fuse_reach\<close>, see C2) the number of links that an inode has on the disk is the number
  of directory entries that name it, apart from \<open>.\<close> and \<open>..\<close>, and one more for the root; and
  every directory lies below the root.\<close>

theorem links_count_names:
  assumes "fuse_reach d f G"
  shows "(\<forall>i \<in> dom G. unat (inlinks (inode_at d i)) = card (names_in (dir_of G) i) + (if i = 0 then 1 else 0)) \<and>
    (\<forall>p. is_dir G p \<longrightarrow> inside (dir_of G) 0 p)"
proof -
  obtain F Is where s: "serves F Is d f G"
    using fuse_reach_serves [OF assms] by blast
  have "unat (inlinks (inode_at d i)) = links_of G i" if "i \<in> dom G" for i
    using that inode_read(2) [OF s, of i] by (auto simp: links_of_def attr_of_def)
  then show ?thesis
    using servesD(2,7) [OF s] by (auto simp: namespace_wf_def links_wf_def ns_tree_def)
qed

theorem links_count_names_witness:
  "unat (inlinks (inode_at demo_a 1)) = card (names_in (dir_of demo_a_ns) 1)"
  using links_count_names [OF demo_a_reach] by (simp add: demo_a_ns_at)

text \<open>C6. No file is orphaned: in every state of a guarded history (\<open>fuse_reach\<close>, see C2) an inode that is in
  use, other than the root, and whose count in the table of open inodes is 0 still has a name in some
  directory.  A reference that \<open>unlink\<close> of a directory leaked (C33) counts as open.\<close>

theorem no_orphans:
  assumes "fuse_reach d f G" and "i \<in> dom G" and "i \<noteq> 0" and "f i = 0"
  shows "\<exists>p n m. dir_of G p = Some m \<and> m n = Some i \<and> n \<notin> dots"
proof -
  obtain F Is where s: "serves F Is d f G"
    using fuse_reach_serves [OF assms(1)] by blast
  then have "inlinks (inode_at d i) \<noteq> 0"
    using servesD(3,4) [OF s] assms(2,4) by (fastforce simp: refs_inv_def refs_of_def unat_eq_0 split: option.splits)
  then have "links_of G i \<noteq> 0"
    using assms(2) inode_read(2) [OF s, of i] by (auto simp: links_of_def attr_of_def unat_gt_0)
  then have "names_in (dir_of G) i \<noteq> {}"
    using servesD(2) [OF s] assms(2,3) by (auto simp: namespace_wf_def links_wf_def)
  then show ?thesis
    by (auto simp: names_in_def)
qed

theorem no_orphans_witness:
  "\<exists>p n m. dir_of demo_d_ns p = Some m \<and> m n = Some (1 :: ino) \<and> n \<notin> dots"
  by (rule no_orphans [OF demo_d_reach]) (simp_all add: dom_def demo_d_ns_at)

text \<open>C7. A file that is unlinked while it is open stays: a read through the open file still gets
  its bytes, and only the last \<open>release\<close> frees the inode, after which it is no longer in use.\<close>

theorem unlink_while_open:
  fixes d :: "'x path_env_scheme"
  assumes "fuse_reach d f G" and "few_refs 4 f" and "ns_at G user grp ns p n m" and "m n = Some t" and "n \<notin> dots"
    and "G t = Some (a, File bs)" and "a_links a = 1" and "f t = 1" and "length buf < 2 ^ 31"
  shows "\<exists>d1 d2 d3 out F Is. candy_unlink d (entry_path ns n) user grp = Some (0, d1) \<and>
    candy_read d1 t buf 0 = Some (int (length out), out @ drop (length out) buf, d2) \<and> out = take (length buf) bs \<and>
    candy_release d2 t = Some (0, d3) \<and> refs_inv d3 F Is (dom G - {t})"
proof -
  obtain F Is where s: "serves F Is d f G"
    using fuse_reach_serves [OF assms(1)] by blast
  obtain b where b: "G p = Some (b, Dir m)"
    using assms(3) by (auto simp: ns_at_def)
  then have p: "G p = Some (b, Dir m)" "t \<noteq> p"
    using assms(6) by auto
  let ?G = "ns_unlink p n True G"
  have G: "?G t = Some (relink (\<lambda>k. k - 1) a, File bs)" "dom ?G = dom G" "links_of ?G t = 0"
    using p assms(4,6,7) by (auto simp: ns_unlink_def ns_remove_def links_of_def relink_def)
  have f: "inc (dec f t) t = f" "dec f t t = 0"
    using assms(8) by (auto simp: inc_def dec_def fun_eq_iff)
  obtain d1 F1 Is1 where d1: "candy_unlink d (entry_path ns n) user grp = Some (0, d1)" "serves F1 Is1 d1 f ?G"
    using candy_unlink_refines [OF s assms(2-6)] assms(8) by auto
  obtain d2 where d2: "candy_read d1 t buf 0 = Some (int (length (take (length buf) bs)), take (length buf) bs @ drop (length (take (length buf) bs)) buf, d2)"
      "serves F1 Is1 d2 f ?G"
    using candy_read_refines [OF d1(2) G(1) _ assms(9), of 0] by (auto simp: slice_def)
  have "serves F1 Is1 d2 (inc (dec f t) t) ?G" "t \<in> dom ?G"
    using d2(2) f(1) G(1) by auto
  from candy_release_refines [OF this]
  obtain d3 F3 Is3 where d3: "candy_release d2 t = Some (0, d3)" "serves F3 Is3 d3 (dec f t) (ns_forget t ?G)"
    using f(2) by auto
  have "dom (ns_forget t ?G) = dom G - {t}"
    using G(2,3) p by (auto simp: ns_forget_def)
  then show ?thesis
    using d1(1) d2(1) d3(1) servesD(4) [OF d3(2)] by metis
qed

theorem unlink_while_open_witness:
  "\<exists>d1 d2 d3 F Is. candy_unlink demo_a (entry_path [] demo_name) 0 0 = Some (0, d1) \<and> candy_read d1 1 [7] 0 = Some (0, [7], d2) \<and>
    candy_release d2 1 = Some (0, d3) \<and> refs_inv d3 F Is {0}"
proof -
  have at: "ns_at demo_a_ns 0 0 [] 0 demo_name (root_map(demo_name \<mapsto> 1))"
    by (simp add: demo_a_at)
  have facts: "(root_map(demo_name \<mapsto> 1)) demo_name = Some 1" "demo_name \<notin> dots" "a_links a_attr = 1" "demo_a_refs 1 = 1" "length [7 :: byte] < 2 ^ 31"
    by (simp_all add: dots_def a_attr_def fresh_attr_of_def inc_def)
  have "dom demo_a_ns - {1} = {0}"
    by (auto simp: demo_a_ns_at(3))
  then show ?thesis
    using unlink_while_open [OF demo_a_reach demo_few(2) [of 4] at facts(1,2) demo_a_ns_at(2) facts(3,4,5)] by auto
qed

text \<open>C8. What is written to an open file is what a read at the same place returns, whether the
  write was at an offset or, with \<open>O_APPEND\<close>, at the end of the file.\<close>

theorem write_reads_back:
  fixes d :: "'x path_env_scheme"
  assumes "fuse_reach d f G" and "G t = Some (a, File bs)" and "0 \<le> offset" and "length buf < 2 ^ 31" and "length out = length buf"
    and "int (write_at flags bs offset + length buf) \<le> MAX_FILESIZE"
    and "enough d (free_set d (dom G)) t (int (write_at flags bs offset + length buf))"
  shows "\<exists>d1 d2. candy_write d t flags buf offset = Some (int (length buf), d1) \<and>
    candy_read d1 t out (int (write_at flags bs offset)) = Some (int (length buf), buf, d2)"
proof -
  obtain F Is where s: "serves F Is d f G"
    using fuse_reach_serves [OF assms(1)] by blast
  let ?p = "write_at flags bs offset"
  let ?G = "ns_file t (\<lambda>bs. write_bytes bs (write_at flags bs offset) buf) G"
  have room: "enough d F t (int (?p + length buf))"
    using assms(7) serves_free [OF s] by simp
  obtain d1 F1 where d1: "candy_write d t flags buf offset = Some (int (length buf), d1)" "serves F1 Is d1 f ?G"
    using candy_write_refines [OF s assms(2-4,6) room] by auto
  have "?G t = Some (a, File (write_bytes bs ?p buf))" "length out < 2 ^ 31"
    using assms(2,4,5) by (simp_all add: ns_file_def)
  moreover have "slice ?p (length out) (write_bytes bs ?p buf) = buf"
    using assms(5) by (cases "?p \<le> length bs") (simp_all add: slice_def write_bytes_def)
  ultimately show ?thesis
    using candy_read_refines [OF d1(2), of t a "write_bytes bs ?p buf" "int ?p" out] d1(1) assms(5) by auto
qed

theorem write_reads_back_witness:
  "\<exists>d1 d2. candy_write demo_a 1 O_APPEND [104, 105] 9 = Some (2, d1) \<and> candy_read d1 1 [0, 0] 0 = Some (2, [104, 105], d2)"
proof -
  obtain F where s: "serves F demo_rest demo_a demo_a_refs demo_a_ns"
    using demo_a_facts(2) by blast
  have at: "write_at O_APPEND [] 9 = 0" "write_at 0x400 [] 9 = 0"
    by (simp_all add: write_at_def O_APPEND_def)
  have "blockcount_of 2 = 1" "blockcount_of BLOCKSIZE = 1"
    by (simp_all add: blockcount_nonneg)
  then have room: "enough demo_a (free_set demo_a (dom demo_a_ns)) 1 2"
    using demo_a_room(1) [OF s] unfolding serves_free [OF s, symmetric] by (simp add: enough_def)
  show ?thesis
    using write_reads_back [OF demo_a_reach demo_a_ns_at(2), of 9 "[104, 105]" "[0, 0]" O_APPEND] room at by (simp add: MAX_FILESIZE_def)
qed

text \<open>C9. \<open>rename\<close> takes the entry from its directory to the other, a file or a directory, and changes
  \<open>..\<close> of a moved directory to its new parent.  What had the new name before, an inode of the same
  kind, loses that name as if it had been removed with \<open>unlink\<close> or \<open>rmdir\<close>, also when it is
  another name of the same file, which is left with one name less.\<close>

theorem rename_moves_entry:
  fixes d :: "'x path_env_scheme"
  assumes "fuse_reach d f G" and "few_refs 5 f" and "ns_at G user grp ns p n m" and "m n = Some t" and "n \<notin> dots"
    and "ns_at G user grp ns' q l k" and "\<not> inside (dir_of G) t q" and "\<forall>a. G t \<noteq> Some (a, Gone)" and "room_for_entry d (dom G) q"
    and "k l = None \<or> (\<exists>c b y. k l = Some c \<and> l \<notin> dots \<and> (p, n) \<noteq> (q, l) \<and> G c = Some (b, y) \<and> y \<noteq> Gone \<and> ns_rename_error G t c = 0)"
  shows "\<exists>d' F Is. candy_rename d (entry_path ns n) (entry_path ns' l) user grp = Some (0, d') \<and> refs_of d' = f \<and>
    represents F Is d' (ns_rename p n q l (case k l of None \<Rightarrow> G | Some c \<Rightarrow> ns_clear q l (f c \<noteq> 0) G))"
proof -
  obtain F Is where s: "serves F Is d f G"
    using fuse_reach_serves [OF assms(1)] by blast
  have room: "enough d F q (fsize d q + BLOCKSIZE)" "fsize d q + BLOCKSIZE \<le> MAX_FILESIZE"
    using assms(9) serves_free [OF s] by (simp_all add: room_for_entry_def)
  have "t \<in> dom G"
    using entry_target(1) [OF servesD(2) [OF s], of p m n t] assms(3,4) by (auto simp: ns_at_def dir_of_eq)
  then obtain a x where tx: "G t = Some (a, x)" "x \<noteq> Gone"
    using assms(8) by fastforce
  show ?thesis
  proof (cases "k l")
    case None
    then show ?thesis
      using candy_rename_refines [OF s assms(2-6) _ assms(7,8) room] by (auto simp: serves_def)
  next
    case (Some c)
    then obtain b y where c: "l \<notin> dots" "(p, n) \<noteq> (q, l)" "G c = Some (b, y)" "y \<noteq> Gone" "ns_rename_error G t c = 0"
      using assms(10) by auto
    then show ?thesis
      using candy_rename_replaces [OF s assms(2-6) Some c(1) assms(7) tx c(2-5) room] Some by (auto simp: serves_def)
  qed
qed

theorem rename_moves_entry_witness:
  "\<exists>d' F Is. candy_rename demo_a (entry_path [] demo_name) (entry_path [] [98]) 0 0 = Some (0, d') \<and> refs_of d' = demo_a_refs \<and>
    represents F Is d' (ns_rename 0 demo_name 0 [98] demo_a_ns)"
proof -
  obtain F where s: "serves F demo_rest demo_a demo_a_refs demo_a_ns"
    using demo_a_facts(2) by blast
  have names: "(root_map(demo_name \<mapsto> 1)) demo_name = Some 1" "demo_name \<notin> dots" "(root_map(demo_name \<mapsto> 1)) [98] = None"
    by (simp_all add: dots_def demo_name_def DOT_def)
  have at: "ns_at demo_a_ns 0 0 [] 0 demo_name (root_map(demo_name \<mapsto> 1))" "ns_at demo_a_ns 0 0 [] 0 [98] (root_map(demo_name \<mapsto> 1))"
    by (simp_all add: demo_a_at)
  note demo_a_outside
  moreover have "room_for_entry demo_a (dom demo_a_ns) 0"
    using demo_a_room(2,3) [OF s] serves_free [OF s] by (simp add: room_for_entry_def)
  ultimately show ?thesis
    using rename_moves_entry [OF demo_a_reach demo_few(2) [of 5] at(1) names(1,2) at(2)] names(3) by (simp add: demo_a_ns_at)
qed

text \<open>C10. Whatever sequence of guarded inode operations is run on a freshly formatted disk, the
  filesystem stays consistent: every data block is free or belongs to exactly one inode, every
  inode number is free or in use, and every index of blocks is well formed.  The guard \<open>op_ok\<close> asks
  that the inode is in use and the size in range, and of a write or a truncation that the disk has room for
  it (\<open>enough\<close>) or that the file has no partly filled doubly or triply indirect slot
  (\<open>slots_safe\<close>): on a full disk the growth of a file that has one breaks the free list, see C39.\<close>

theorem reachable_consistent:
  assumes "fs_reach A d"
  shows "\<exists>F Is. fs_inv d F Is A"
  by (rule fs_reach_inv [OF assms])

theorem reachable_consistent_witness:
  "\<exists>A d. exec_op Allocate {} demo_fs = Some (A, d) \<and> (\<exists>F Is. fs_inv d F Is A)"
proof -
  have start: "fs_reach {} demo_fs"
    by (rule fs_reach.format [OF demo_wf(1,3,4) demo_fs_inv(3)])
  obtain A d where run: "exec_op Allocate {} demo_fs = Some (A, d)"
    using exec_op_spec [OF demo_fs_fs, of Allocate] by auto
  then show ?thesis
    using reachable_consistent [OF fs_reach.step [OF start _ run]] by auto
qed

text \<open>C11. \<open>inode_write\<close> with room on the disk writes every byte: the content of the file is the
  old one with the data at the position (the end for \<open>-1\<close>), zeros between the old end and the
  position, and no other file changes.\<close>

theorem inode_write_content:
  assumes "fs_inv d F Is A" and "i \<in> A" and "-1 \<le> pos" and "p = nat (write_start d i pos)"
    and "int p + int (length bs) \<le> MAX_FILESIZE" and "enough d F i (int p + int (length bs))"
  shows "\<exists>d' F'. inode_write d i pos (Some bs) (int (length bs)) = Some (int (length bs), d') \<and> fs_inv d' F' Is A \<and>
    content d' i = write_bytes (content d i) p bs \<and> same_attr (inode_at d i) (inode_at d' i) \<and> (\<forall>j \<in> A - {i}. same_file d d' j)"
proof -
  have pos: "p = (if pos = -1 then nat (fsize d i) else nat pos)" "pos = -1 \<or> 0 \<le> pos"
    using assms(3,4) by (auto simp: write_start_def)
  have "data_fits (Some bs) (int (length bs))" "data_bytes (Some bs) (length bs) = bs"
    by (simp_all add: data_fits_def data_bytes_def)
  then show ?thesis
    using inode_write_spec [OF assms(1,2) pos assms(5) _ assms(6), of "Some bs"] by (auto simp: fs_result_def)
qed

theorem inode_write_content_witness:
  "\<exists>d' F'. inode_write demo_file 0 3 (Some [7, 8]) (int (length [7, 8 :: byte])) = Some (int (length [7, 8 :: byte]), d') \<and>
    fs_inv d' F' demo_inos {0} \<and> content d' 0 = write_bytes (content demo_file 0) 3 [7, 8] \<and>
    same_attr (inode_at demo_file 0) (inode_at d' 0) \<and> (\<forall>j \<in> {0} - {0}. same_file demo_file d' j)"
  by (rule inode_write_content [OF demo_file_fs]) (simp_all add: write_start_def MAX_FILESIZE_def demo_file_enough)

text \<open>C12. \<open>inode_read\<close> returns the bytes of the file from the position on, at most as many as
  the file has there, and leaves the rest of the buffer as it was.  Of the inode it changes the access
  time alone, which is set to the clock if a byte was read; the content, the other files and the
  free blocks and inodes are as they were.\<close>

theorem inode_read_content:
  assumes "fs_inv d F Is A" and "i \<in> A" and "n \<le> length buf"
  shows "\<exists>d'. inode_read d i (int p) buf (int n) =
      Some (int (length (slice p n (content d i))), slice p n (content d i) @ drop (length (slice p n (content d i))) buf, d') \<and>
    fs_inv d' F Is A \<and> content d' i = content d i \<and> same_attr (inode_at d i) (inode_at d' i) \<and> (\<forall>j \<in> A - {i}. same_file d d' j) \<and>
    inode_at d' i = (if slice p n (content d i) = [] then inode_at d i else (inode_at d i)\<lparr>last_access := fst (now d)\<rparr>)"
proof -
  have count: "read_count d i p n = length (slice p n (content d i))"
    by (simp add: read_count_def slice_def length_content min.commute)
  then have "read_count d i p n = 0 \<longleftrightarrow> slice p n (content d i) = []"
    by (simp only: length_0_conv)
  then show ?thesis
    using inode_read_spec [OF assms, of p] unfolding count by (auto simp: read_bytes_def fs_result_def)
qed

theorem inode_read_content_witness:
  "\<exists>d' F. inode_read demo_two 0 (int 1) [5, 5, 5] (int 3) = Some (1, [8, 5, 5], d') \<and> fs_inv d' F demo_inos {0} \<and>
    content d' 0 = [7, 8] \<and> inode_at d' 0 = (inode_at demo_two 0)\<lparr>last_access := fst (now demo_two)\<rparr>"
proof -
  obtain F where F: "fs_inv demo_two F demo_inos {0}"
    using demo_two_facts(1) by blast
  from inode_read_content [OF F, of 0 3 "[5, 5, 5]" 1] show ?thesis
    by (auto simp: demo_two_facts(2) slice_def)
qed

text \<open>C13. \<open>inode_truncate\<close> with room on the disk gives the file the size asked for: its first
  bytes stay, and a longer file ends in zeros.\<close>

theorem inode_truncate_content:
  assumes "fs_inv d F Is A" and "i \<in> A" and "n \<le> nat MAX_FILESIZE" and "enough d F i (int n)"
  shows "\<exists>d' F'. inode_truncate d i (int n) = Some (int n, d') \<and> fs_inv d' F' Is A \<and>
    content d' i = take n (content d i) @ replicate (n - length (content d i)) 0 \<and> same_attr (inode_at d i) (inode_at d' i) \<and>
    (\<forall>j \<in> A - {i}. same_file d d' j)"
proof -
  have "int n \<le> MAX_FILESIZE"
    using assms(3) by (simp add: MAX_FILESIZE_def)
  then show ?thesis
    using inode_truncate_spec [OF assms(1,2) _ _ disjI1 [OF assms(4)]] assms(4) by (auto simp: truncate_bytes_def fs_result_def)
qed

theorem inode_truncate_content_witness:
  "\<exists>d' F'. inode_truncate demo_file 0 (int 6000) = Some (int 6000, d') \<and> fs_inv d' F' demo_inos {0} \<and>
    content d' 0 = take 6000 (content demo_file 0) @ replicate (6000 - length (content demo_file 0)) 0 \<and>
    same_attr (inode_at demo_file 0) (inode_at d' 0) \<and> (\<forall>j \<in> {0} - {0}. same_file demo_file d' j)"
  by (rule inode_truncate_content [OF demo_file_fs]) (simp_all add: MAX_FILESIZE_def demo_file_enough)

text \<open>C14. \<open>dir_insert\<close> of a new name into a live directory adds it to the map, wherever the
  entry is put.\<close>

theorem dir_insert_map:
  assumes "fs_inv d F Is A" and "i \<in> A" and "dir_rep d i ess" and "ess \<noteq> []"
    and "length name \<le> NAME_MAX" and "0 \<notin> set name" and "dir_map ess name = None" and "target \<noteq> EOF"
    and "enough d F i (fsize d i + BLOCKSIZE)" and "fsize d i + BLOCKSIZE \<le> MAX_FILESIZE"
  shows "\<exists>d' F' ess'. dir_insert d i name target = Some (0, d') \<and> fs_result A i d d' F' Is A \<and> dir_rep d' i ess' \<and>
    dir_map ess' = (dir_map ess)(name \<mapsto> target)"
  using dir_insert_spec [OF assms] by blast

theorem dir_insert_map_witness:
  "\<exists>d' F' ess'. dir_insert demo_dir 0 demo_name 5 = Some (0, d') \<and> fs_result {0} 0 demo_dir d' F' demo_inos {0} \<and>
    dir_rep d' 0 ess' \<and> dir_map ess' = (dir_map (new_dir 0 0))(demo_name \<mapsto> 5)"
proof (rule dir_insert_map [OF demo_dir_facts(2) _ demo_dir_facts(4)])
  show "enough demo_dir demo_dir_free 0 (fsize demo_dir 0 + BLOCKSIZE)" "fsize demo_dir 0 + BLOCKSIZE \<le> MAX_FILESIZE"
    using demo_dir_enough demo_dir_facts(5) by (simp_all add: MAX_FILESIZE_def)
qed (simp_all add: zero_not_EOF new_dir_def [of 0 0, THEN arg_cong, of "\<lambda>x. x = []"])

text \<open>C15. \<open>dir_remove\<close> of a name in the map returns its inode and takes the name out of the
  map, also when it cuts off the blocks that end up empty.\<close>

theorem dir_remove_map:
  assumes "fs_inv d F Is A" and "i \<in> A" and "dir_rep d i ess" and "dir_map ess name = Some t"
    and "length name \<le> NAME_MAX" and "name \<noteq> [DOT]" and "name \<noteq> [DOT, DOT]"
  shows "\<exists>d' F' ess'. dir_remove d i name = Some (t, d') \<and> fs_result A i d d' F' Is A \<and> dir_rep d' i ess' \<and>
    dir_map ess' = (dir_map ess)(name := None)"
proof -
  have "ess \<noteq> []"
    using assms(4) by auto
  then show ?thesis
    using dir_remove_spec [OF assms(1-3) _ assms(5-7)] assms(4) by (auto simp: remove_outcome_def remove_result_def)
qed

theorem dir_remove_map_witness:
  "\<exists>F ess. fs_inv demo_entry F demo_inos {0} \<and> dir_rep demo_entry 0 ess \<and>
    (\<exists>d' F' ess'. dir_remove demo_entry 0 demo_name = Some (5, d') \<and> fs_result {0} 0 demo_entry d' F' demo_inos {0} \<and>
      dir_rep d' 0 ess' \<and> dir_map ess' = (dir_map ess)(demo_name := None))"
proof -
  obtain F ess where e: "fs_inv demo_entry F demo_inos {0}" "dir_rep demo_entry 0 ess"
      "dir_map ess = (dir_map (new_dir 0 0))(demo_name \<mapsto> 5)"
    using demo_entry_facts(2) by blast
  then have "dir_map ess demo_name = Some 5"
    by simp
  from dir_remove_map [OF e(1) _ e(2) this] show ?thesis
    using e(1,2) by (intro exI [of _ F] exI [of _ ess]) simp
qed

text \<open>C16. A directory is a map from names to inodes: \<open>dir_lookup\<close> returns what the map has
  for a name, \<open>-ENOENT\<close> if it has nothing, and only reads.\<close>

theorem dir_lookup_map:
  assumes "fs_inv d F Is A" and "i \<in> A" and "dir_rep d i ess" and "length name \<le> NAME_MAX"
  shows "\<exists>d'. dir_lookup d i name = Some (case dir_map ess name of None \<Rightarrow> of_int (- ENOENT) | Some t \<Rightarrow> t, d') \<and>
    only_read A i d d' F Is \<and> dir_rep d' i ess"
  using dir_lookup_spec [OF assms] dir_rep_read [OF _ assms(3)] by blast

theorem dir_lookup_map_witness:
  "\<exists>d'. dir_lookup demo_dir 0 demo_name =
      Some (case dir_map (new_dir 0 0) demo_name of None \<Rightarrow> of_int (- ENOENT) | Some t \<Rightarrow> t, d') \<and>
    only_read {0} 0 demo_dir d' demo_dir_free demo_inos \<and> dir_rep d' 0 (new_dir 0 0)"
  by (rule dir_lookup_map [OF demo_dir_facts(2) _ demo_dir_facts(4)]) simp_all

text \<open>C17. A listing of a directory from its start, into a buffer that takes every entry, hands over
  each name of the directory exactly once.\<close>

theorem readdir_lists_all:
  fixes d :: "'x path_env_scheme"
  assumes "fuse_reach d f G" and "dir_of G i = Some m"
  shows "\<exists>listed d'. candy_readdir d (\<lambda>_. True) 0 i [] = Some (0, listed, d') \<and> distinct (map fst listed) \<and> set (map fst listed) = dom m"
  by (rule fuse_reach_readdir [OF assms])

theorem readdir_lists_all_witness:
  "\<exists>listed d'. candy_readdir demo_a (\<lambda>_. True) 0 0 [] = Some (0, listed, d') \<and> distinct (map fst listed) \<and>
    set (map fst listed) = {[DOT], [DOT, DOT], demo_name}"
proof -
  have "dir_of demo_a_ns 0 = Some (root_map(demo_name \<mapsto> 1))"
    by (simp add: dir_of_def demo_a_ns_at)
  from readdir_lists_all [OF demo_a_reach this] show ?thesis
    by (simp add: insert_commute)
qed

text \<open>C18. A listing that FUSE cuts short because its buffer is full has handed over the first of the
  entries that were left, in their order, and the offset it was given with the last of them is
  where the rest begins: no entry is skipped and none comes twice.\<close>

theorem readdir_continues:
  fixes d :: "'x path_env_scheme"
  assumes "fs_inv d F Is A" and "i \<in> A" and "dir_rep d i ess" and "off \<le> 128 * length ess"
  shows "\<exists>listed d'. candy_readdir d filler (int off) i [] = Some (0, listed, d') \<and>
    map fst listed = map (take NAME_MAX \<circ> fst) (take (length listed) (rest_at ess off)) \<and> length listed \<le> length (rest_at ess off) \<and>
    (listed \<noteq> [] \<longrightarrow> (\<exists>off'. snd (last listed) = int off' \<and> off' \<le> 128 * length ess \<and> rest_at ess off' = drop (length listed) (rest_at ess off)))"
proof -
  obtain listed d' where l: "candy_readdir d filler (int off) i [] = Some (0, listed, d')" "listing ess off listed"
    using candy_readdir_spec [OF assms, of filler "[]"] by auto
  show ?thesis
    using l(1) listing_names [OF l(2)] listing_length [OF l(2)] listing_next [OF l(2)] by blast
qed

theorem readdir_continues_witness:
  "\<exists>listed d'. candy_readdir demo_dir (\<lambda>out. length out < 1) 0 0 [] = Some (0, listed, d') \<and>
    map fst listed = map (take NAME_MAX \<circ> fst) (take (length listed) (rest_at (new_dir 0 0) 0))"
  using readdir_continues [OF demo_dir_facts(2) _ demo_dir_facts(4), of 0 "\<lambda>out. length out < 1"] by auto

text \<open>C19. \<open>getattr\<close> of an existing path reports what the inode is: its number, type, permissions,
  links, owner, group, size and number of blocks, and keeps no reference to it.  The size of a file or
  of a link is the length of its content, that of a directory 4096 for each block of entries
  that it has on the disk, and the number of blocks is that of the size.\<close>

theorem getattr_exact:
  fixes d :: "'x path_env_scheme"
  assumes "fuse_reach d f G" and "few_refs 4 f" and "ns_see G user grp ns p n m" and "m n = Some t" and "G t = Some (a, x)"
  shows "\<exists>st d'. candy_getattr d (entry_path ns n) user grp = Some (0, Some st, d') \<and> refs_of d' = f \<and>
    st_ino st = t \<and> st_mode st AND 0xFFF = a_perm a \<and> st_nlink st = a_links a \<and> st_uid st = a_owner a \<and> st_gid st = a_group a \<and>
    node_stat x st \<and> st_size st = int (length (content d t)) \<and> st_blocks st = blockcount_of (st_size st) \<and>
    (\<forall>m'. x = Dir m' \<longrightarrow> (\<exists>ess. dir_rep d t ess \<and> dir_map ess = m' \<and> st_size st = BLOCKSIZE * int (length ess)))"
proof -
  obtain F Is where s: "serves F Is d f G"
    using fuse_reach_serves [OF assms(1)] by blast
  note ii = inode_read(3,4) [OF s assms(5)]
  have t: "t \<in> dom G"
    using assms(5) by blast
  have "int (length (content d t)) = fsize d t"
    using fs_inv_inode(7) [OF ii(2) t] by simp
  then have dir: "\<exists>ess. dir_rep d t ess \<and> dir_map ess = m' \<and> int (length (content d t)) = BLOCKSIZE * int (length ess)" if "x = Dir m'" for m'
    using ii(1) dir_rep_size [OF ii(2) t] that by auto
  from candy_getattr_refines [OF s assms(2-5)] obtain st d' where
    "candy_getattr d (entry_path ns n) user grp = Some (0, Some st, d')" "serves F Is d' f G"
    "st_ino st = t" "st_mode st AND 0xFFF = a_perm a" "st_nlink st = a_links a" "st_uid st = a_owner a" "st_gid st = a_group a"
    "node_stat x st" "st_size st = int (length (content d t))" "st_blocks st = blockcount_of (st_size st)"
    by blast
  then show ?thesis
    using dir servesD(3) by metis
qed

theorem getattr_exact_witness:
  "(\<exists>st d'. candy_getattr demo_a (entry_path [] demo_name) 5 5 = Some (0, Some st, d') \<and> st_ino st = 1 \<and> st_mode st AND 0xFFF = 0x1A4 \<and> st_size st = 0) \<and>
   (\<exists>st d'. candy_getattr demo_d (entry_path [] demo_name) 0 0 = Some (0, Some st, d') \<and> S_ISDIR (st_mode st) \<and> 4096 \<le> st_size st)"
proof
  have "ns_see demo_a_ns 5 5 [] 0 demo_name (root_map(demo_name \<mapsto> 1))" "(root_map(demo_name \<mapsto> 1)) demo_name = Some 1"
    by (simp_all add: demo_a_at may_root_attr)
  from getattr_exact [OF demo_a_reach demo_few(2) [of 4] this demo_a_ns_at(2)]
  show "\<exists>st d'. candy_getattr demo_a (entry_path [] demo_name) 5 5 = Some (0, Some st, d') \<and> st_ino st = 1 \<and> st_mode st AND 0xFFF = 0x1A4 \<and> st_size st = 0"
    by (fastforce simp: node_stat_def a_attr_def fresh_attr_of_def)
next
  have name: "(root_map(demo_name \<mapsto> 1)) demo_name = Some 1"
    by simp
  show "\<exists>st d'. candy_getattr demo_d (entry_path [] demo_name) 0 0 = Some (0, Some st, d') \<and> S_ISDIR (st_mode st) \<and> 4096 \<le> st_size st"
  proof -
    obtain st d' ess where st: "candy_getattr demo_d (entry_path [] demo_name) 0 0 = Some (0, Some st, d')" "node_stat (Dir [[DOT, DOT] \<mapsto> 0, [DOT] \<mapsto> 1]) st"
        "dir_map ess = [[DOT, DOT] \<mapsto> 0, [DOT] \<mapsto> 1]" "st_size st = 4096 * int (length ess)"
      using getattr_exact [OF demo_d_reach demo_few(1) [of 4] demo_d_at(2) name demo_d_ns_at(2)] by auto
    have "ess \<noteq> []"
      using fun_cong [OF st(3), of "[DOT]"] by auto
    then show ?thesis
      using st by (auto simp: node_stat_def Suc_le_eq)
  qed
qed

text \<open>C20. \<open>open\<close> of a regular file gives a reference exactly to a caller whose class has the bits
  that the flags ask for; anybody else gets \<open>-EACCES\<close> and no reference is kept.\<close>

theorem open_checks_permission:
  fixes d :: "'x path_env_scheme"
  assumes "fuse_reach d f G" and "few_refs 4 f" and "ns_see G user grp ns p n m" and "m n = Some t" and "G t = Some (a, File bs)"
    and "access_mode_of flags = Some perms"
  shows "\<exists>d'. candy_open d (entry_path ns n) flags user grp = Some (if may a perms user grp then (0, Some t, d') else (- EACCES, None, d')) \<and>
    refs_of d' = (if may a perms user grp then inc f t else f)"
proof -
  obtain F Is where "serves F Is d f G"
    using fuse_reach_serves [OF assms(1)] by blast
  from candy_open_refines [OF this assms(2-6)] servesD(3) show ?thesis
    by blast
qed

theorem open_checks_permission_witness:
  "\<exists>d'. candy_open demo_a (entry_path [] demo_name) O_WRONLY 5 5 = Some (- EACCES, None, d') \<and> refs_of d' = demo_a_refs"
proof -
  have "ns_see demo_a_ns 5 5 [] 0 demo_name (root_map(demo_name \<mapsto> 1))" "(root_map(demo_name \<mapsto> 1)) demo_name = Some 1"
    "access_mode_of O_WRONLY = Some PERM_WRITE"
    by (simp_all add: demo_a_at may_root_attr access_mode_of_def O_ACCMODE_def O_RDONLY_def O_WRONLY_def)
  note opened = open_checks_permission [OF demo_a_reach demo_few(2) [of 4] this(1,2) demo_a_ns_at(2) this(3)]
  have "bit PERM_WRITE 1" "\<not> bit (a_perm a_attr) 1" "a_owner a_attr \<noteq> 5" "a_group a_attr \<noteq> 5"
    by (simp_all add: PERM_WRITE_def a_attr_def fresh_attr_of_def bit_numeral_rec)
  then have "\<not> may a_attr PERM_WRITE 5 5"
    by (auto simp: may_def intro!: exI [of _ 1])
  then show ?thesis
    using opened by simp
qed

text \<open>C21. A path whose last component is a symbolic link leads to the end of the chain of links, up
  to eight of them, absolute ones from the root and relative ones from the directory that holds them;
  the caller gets one reference, to the inode at the end, and none of those taken on the way is kept.\<close>

theorem links_followed:
  fixes d :: "'x path_env_scheme"
  assumes "fuse_reach d f G" and "few_refs 4 f" and "ns_follows G user grp 0 0 path t"
  shows "\<exists>d' F Is. path_resolve d path True user grp = Some (t, d') \<and> represents F Is d' G \<and> refs_of d' = inc f t"
proof -
  obtain F Is where "serves F Is d f G"
    using fuse_reach_serves [OF assms(1)] by blast
  from path_resolve_refines [OF this assms(2,3)] show ?thesis
    by (auto simp: serves_def)
qed

theorem links_followed_witness:
  "\<exists>d' F Is. path_resolve (demo_l [DOT]) (entry_path [] demo_name) True 0 0 = Some (0, d') \<and>
    represents F Is d' (demo_l_ns [DOT]) \<and> refs_of d' = inc (\<lambda>_. 0) 0"
proof -
  obtain a where a: "demo_l_ns [DOT] 1 = Some (a, node.Link [DOT])"
    using demo_l_ns_at(2) by blast
  have "good_name [DOT]" "(root_map(demo_name \<mapsto> 1)) [DOT] = Some 0"
    by (simp_all add: good_name_def DOT_def SLASH_def demo_name_def)
  then have "ns_follows (demo_l_ns [DOT]) 0 0 (Suc 0) 0 [DOT] 0"
    using ns_follows.found [of "Suc 0", OF _ demo_l_leads(2) _ demo_l_ns_at(1)] by simp
  then have "ns_follows (demo_l_ns [DOT]) 0 0 0 0 (entry_path [] demo_name) 0"
    using ns_follows.link [OF demo_l_leads(1) _ a] by (simp add: DOT_def)
  from links_followed [OF demo_l_reach demo_few(1) this] show ?thesis
    by simp
qed

text \<open>C22. \<open>mkfs_storage\<close> on any disk with room for the inode table and a data block
  succeeds and leaves a consistent store: every block past the table is on the free list
  exactly once, every inode number is free, in ascending order, and the counters of the
  superblock agree with the lists.\<close>

theorem mkfs_consistent:
  assumes "wf_disk d" and "unat isz + 1 < unat (nblocks d)" and "0 < isz"
  shows "\<exists>d'. mkfs_storage d isz = Some d' \<and> same_dev d d' \<and>
    store_inv d' {b. isz < b \<and> b < nblocks d} (map of_nat [0..<unat isz * 512])"
  using mkfs_storage_spec [OF assms] by (auto simp: mkfs_data_blocks_def mkfs_inos_def)

theorem mkfs_consistent_witness:
  "\<exists>d'. mkfs_storage demo_boot 1 = Some d' \<and> same_dev demo_boot d' \<and>
    store_inv d' {b. 1 < b \<and> b < nblocks demo_boot} (map of_nat [0..<unat (1 :: u64) * 512])"
  by (rule mkfs_consistent [OF demo_wf(1,3,4)])

text \<open>C23. Formatting a disk for a user leaves the root directory at inode 0: it has the entries
  \<open>..\<close> and \<open>.\<close>, both itself, one link, mode \<open>0755\<close> and the owner asked for, it is not open, and
  the filesystem is consistent.\<close>

theorem format_root:
  fixes d :: "'x path_env_scheme"
  assumes "wf_disk d" and "unat isz + 2 < unat (nblocks d)" and "0 < isz" and "open_file_table d = replicate HASHMAP_SIZE []" and "owner \<noteq> -1"
  shows "\<exists>d' F. format_disk d isz owner grp = Some d' \<and> refs_inv d' F (tl (mkfs_inos isz)) {0} \<and> refs_of d' = (\<lambda>_. 0) \<and>
    dir_rep d' 0 [[([DOT, DOT], 0), ([DOT], 0)]] \<and> inlinks (inode_at d' 0) = 1 \<and> imode (inode_at d' 0) = S_IFDIR OR 0x1ED \<and>
    iowner (inode_at d' 0) = owner \<and> igroup (inode_at d' 0) = (if grp = -1 then 0 else grp)"
  using format_disk_spec [OF assms, of grp] assms(5) by (auto simp: root_ok_def new_dir_def)

theorem format_root_witness:
  "\<exists>d' F. format_disk demo_boot 1 1000 1000 = Some d' \<and> refs_inv d' F (tl (mkfs_inos 1)) {0} \<and> refs_of d' = (\<lambda>_. 0) \<and>
    dir_rep d' 0 [[([DOT, DOT], 0), ([DOT], 0)]] \<and> inlinks (inode_at d' 0) = 1 \<and> imode (inode_at d' 0) = S_IFDIR OR 0x1ED \<and>
    iowner (inode_at d' 0) = 1000 \<and> igroup (inode_at d' 0) = (if (1000 :: u32) = -1 then 0 else 1000)"
  by (rule format_root [OF demo_wf(1) _ demo_wf(4,5)]) (simp_all add: demo_wf(2))

text \<open>C24. \<open>mount.candyfs\<close> with a mount point only allocates the disk in memory, formats it for the
  user that calls it, and serves the empty file system: the root directory and nothing else.\<close>

theorem mount_in_memory:
  assumes "malloc (16 + 1024 * 1024 * 4096) = Some mem" and "uid \<noteq> -1"
  shows "\<exists>d. mount_main malloc ok devices uid gid clk jnk [mountpoint] = Some (Inr d) \<and>
    fuse_reach d (\<lambda>_. 0) (ns_root (root_attr uid gid))"
  using mount_memory assms by blast

theorem mount_in_memory_witness:
  "\<exists>d. mount_main (\<lambda>_. Some (\<lambda>_. 0)) True
      (\<lambda>_. \<lparr>dev_open = -1, dev_BLKBSZGET = None, dev_BLKGETSIZE64 = None, dev_data = (\<lambda>_. 0), dev_io_ok = (\<lambda>_. True)\<rparr>) 7 7 (\<lambda>_. None) (\<lambda>_. []) [''mnt''] = Some (Inr d) \<and>
    fuse_reach d (\<lambda>_. 0) (ns_root (root_attr 7 7))"
  by (rule mount_in_memory) simp_all

text \<open>C25. Closing the last reference to an inode without links frees it with all its blocks;
  no other inode is touched.\<close>

theorem refs_close_last_frees:
  assumes "refs_inv d F Is A" and "refs_of d i = 1" and "inlinks (inode_at d i) = 0"
  shows "\<exists>d'. refs_close d i = Some (0, d') \<and> refs_inv d' (F \<union> own d i) (i # Is) (A - {i}) \<and>
    refs_of d' = (refs_of d)(i := 0) \<and> (\<forall>j \<in> A - {i}. same_file d d' j)"
  using refs_close_last [OF assms] by blast

theorem refs_close_last_frees_witness:
  "\<exists>d'. refs_close demo_open 0 = Some (0, d') \<and>
    refs_inv d' (demo_file_free \<union> own demo_open 0) (0 # demo_inos) ({0} - {0}) \<and>
    refs_of d' = (refs_of demo_open)(0 := 0) \<and> (\<forall>j \<in> {0} - {0}. same_file demo_open d' j)"
  by (rule refs_close_last_frees [OF demo_open_facts(3-5)])

text \<open>C26. \<open>statfs\<close> is exact: the free blocks it reports and the blocks the files occupy, counted
  from their sizes alone, add up to the data blocks of the disk, and likewise for the inodes.\<close>

theorem block_accounting_holds:
  assumes "fs_inv d F Is A"
  shows "\<exists>st. block_stat d = Some st \<and>
    unat (f_bfree st) + (\<Sum>i \<in> A. Suc (slots_count (fcount_blocks d i))) = data_blocks d \<and>
    unat (f_ffree st) + card A = unat (ilist_size (super d)) * INUMS_PER_ILIST_BLOCK"
  using block_stat_spec [OF assms] by force

theorem block_accounting_holds_witness:
  "\<exists>st. block_stat demo_file = Some st \<and>
    unat (f_bfree st) + (\<Sum>i \<in> {0}. Suc (slots_count (fcount_blocks demo_file i))) = data_blocks demo_file \<and>
    unat (f_ffree st) + card {0 :: ino} = unat (ilist_size (super demo_file)) * INUMS_PER_ILIST_BLOCK"
  by (rule block_accounting_holds [OF demo_file_fs])

text \<open>C27. \<open>rmdir\<close> of a directory that has entries besides \<open>.\<close> and \<open>..\<close> returns \<open>-ENOTEMPTY\<close>; the
  files, the directories and the open files are as they were.\<close>

theorem rmdir_refuses_entries:
  fixes d :: "'x path_env_scheme"
  assumes "fuse_reach d f G" and "few_refs 4 f" and "ns_at G user grp ns p n m" and "m n = Some t" and "dir_of G t = Some mt" and "\<not> dom mt \<subseteq> dots"
  shows "\<exists>d' F Is. candy_rmdir d (entry_path ns n) user grp = Some (- ENOTEMPTY, d') \<and> represents F Is d' G \<and> refs_of d' = f"
proof -
  obtain F Is where "serves F Is d f G"
    using fuse_reach_serves [OF assms(1)] by blast
  from candy_rmdir_refuses [OF this assms(2-6)] show ?thesis
    by (auto simp: serves_def)
qed

theorem rmdir_refuses_entries_witness:
  "\<exists>d' F Is. candy_rmdir demo_a (entry_path [] [DOT]) 0 0 = Some (- ENOTEMPTY, d') \<and> represents F Is d' demo_a_ns \<and> refs_of d' = demo_a_refs"
proof -
  have "good_name [DOT]" "0 \<notin> set [DOT]"
    by (simp_all add: good_name_def DOT_def SLASH_def)
  then have at: "ns_at demo_a_ns 0 0 [] 0 [DOT] (root_map(demo_name \<mapsto> 1))"
    by (simp only: demo_a_at) simp
  have dot: "(root_map(demo_name \<mapsto> 1)) [DOT] = Some 0" "\<not> dom (root_map(demo_name \<mapsto> 1)) \<subseteq> dots"
    by (simp_all add: dots_def DOT_def demo_name_def)
  have root: "dir_of demo_a_ns 0 = Some (root_map(demo_name \<mapsto> 1))"
    by (simp add: dir_of_def demo_a_ns_at)
  have "few_refs 4 demo_a_refs"
    using demo_few(2) by simp
  then show ?thesis
    by (rule rmdir_refuses_entries [OF demo_a_reach _ at dot(1) root dot(2)])
qed

text \<open>C28. \<open>rename\<close> onto a name of an inode of another kind is refused with \<open>-EISDIR\<close> or
  \<open>-ENOTDIR\<close>, and onto a directory that has entries with \<open>-ENOTEMPTY\<close>; the files, the directories
  and the open files are as they were.\<close>

theorem rename_refuses:
  fixes d :: "'x path_env_scheme"
  assumes "fuse_reach d f G" and "few_refs 5 f" and "ns_at G user grp ns p n m" and "m n = Some t" and "n \<notin> dots"
    and "ns_at G user grp ns' q l k" and "k l = Some c" and "\<not> inside (dir_of G) t q" and "G t = Some (a, x)" and "x \<noteq> Gone"
    and "c \<noteq> t" and "G c = Some (b, y)" and "y \<noteq> Gone"
    and "e = (if \<not> is_dir G c then - ENOTDIR else if \<not> is_dir G t then - EISDIR else - ENOTEMPTY)"
    and "is_dir G c \<longrightarrow> is_dir G t \<longrightarrow> \<not> dom (the (dir_of G c)) \<subseteq> dots" and "\<not> is_dir G c \<longrightarrow> is_dir G t"
  shows "\<exists>d' F Is. candy_rename d (entry_path ns n) (entry_path ns' l) user grp = Some (e, d') \<and> represents F Is d' G \<and> refs_of d' = f"
proof -
  obtain F Is where s: "serves F Is d f G"
    using fuse_reach_serves [OF assms(1)] by blast
  have "ns_rename_error G t c = e" "e \<noteq> 0"
    using assms(14-16) by (auto simp: ns_rename_error_def is_dir_def split: option.splits)
  then show ?thesis
    using candy_rename_refuses [OF s assms(2-13)] by (auto simp: serves_def)
qed

theorem rename_refuses_witness:
  "\<exists>d' F Is. candy_rename demo_a (entry_path [] demo_name) (entry_path [] [DOT]) 0 0 = Some (- EISDIR, d') \<and> represents F Is d' demo_a_ns \<and>
    refs_of d' = demo_a_refs"
proof -
  have names: "(root_map(demo_name \<mapsto> 1)) demo_name = Some 1" "demo_name \<notin> dots" "(root_map(demo_name \<mapsto> 1)) [DOT] = Some 0"
    by (simp_all add: dots_def demo_name_def DOT_def)
  have "good_name [DOT]" "0 \<notin> set [DOT]"
    by (simp_all add: good_name_def DOT_def SLASH_def)
  then have at: "ns_at demo_a_ns 0 0 [] 0 demo_name (root_map(demo_name \<mapsto> 1))" "ns_at demo_a_ns 0 0 [] 0 [DOT] (root_map(demo_name \<mapsto> 1))"
    by (simp_all only: demo_a_at) (simp_all add: demo_a_at)
  have "is_dir demo_a_ns 0" "\<not> is_dir demo_a_ns 1"
    by (simp_all add: is_dir_def dir_of_def demo_a_ns_at)
  then show ?thesis
    using rename_refuses [OF demo_a_reach demo_few(2) [of 5] at(1) names(1,2) at(2) names(3) demo_a_outside demo_a_ns_at(2) _ _ demo_a_ns_at(1)] by simp
qed

text \<open>C29. \<open>mkdir\<close> of a name that exists returns \<open>-EEXIST\<close>; the inode that was made for it is given
  back, and the files, directories and open files are as they were.\<close>

theorem mkdir_existing_refused:
  fixes d :: "'x path_env_scheme"
  assumes "serves F (i # Is) d f G" and "few_refs 4 f" and "ns_at G user grp ns p n m" and "m n = Some t"
    and "mode AND 0xFFF = mode" and "user \<noteq> -1" and "grp \<noteq> -1" and "2 \<le> card F"
  shows "\<exists>d' F' Is'. candy_mkdir d (entry_path ns n) mode user grp = Some (- EEXIST, d') \<and> represents F' Is' d' G \<and> refs_of d' = f"
  using candy_mkdir_refuses [OF assms] by (auto simp: serves_def)

theorem mkdir_existing_refused_witness:
  "\<exists>d' F Is. candy_mkdir demo_root (entry_path [] [DOT]) 0x1ED 0 0 = Some (- EEXIST, d') \<and> represents F Is d' demo_ns \<and> refs_of d' = (\<lambda>_. 0)"
proof -
  obtain F where F: "serves F (1 # demo_rest) demo_root (\<lambda>_. 0) demo_ns" "card F = 4"
    using demo_root_serves by blast
  have "ns_at demo_ns 0 0 [] 0 [DOT] root_map" "root_map [DOT] = Some 0"
    by (simp_all add: ns_at_def demo_ns_0 good_name_def DOT_def SLASH_def)
  from mkdir_existing_refused [OF F(1) demo_few(1) [of 4] this, of "0x1ED"] F(2) show ?thesis
    by simp
qed

text \<open>C30. \<open>truncate\<close> asks for no permission on the file: any user who can look the name up cuts the
  file to any size, whoever owns it and whatever its mode is.  The program does not ask the kernel
  to check permissions either.\<close>

theorem truncate_asks_no_permission:
  fixes d :: "'x path_env_scheme"
  assumes "fuse_reach d f G" and "few_refs 4 f" and "ns_see G user grp ns p n m" and "m n = Some t" and "G t = Some (a, File bs)"
    and "int sz \<le> MAX_FILESIZE" and "enough d (free_set d (dom G)) t (int sz)"
  shows "\<exists>d' F Is. candy_truncate d (entry_path ns n) (int sz) user grp = Some (0, d') \<and>
    represents F Is d' (ns_file t (\<lambda>bs. truncate_bytes bs sz) G) \<and> refs_of d' = f"
proof -
  obtain F Is where s: "serves F Is d f G"
    using fuse_reach_serves [OF assms(1)] by blast
  then have "enough d F t (int sz)"
    using assms(7) serves_free [OF s] by simp
  from candy_truncate_refines [OF s assms(2-6) this] show ?thesis
    by (auto simp: serves_def)
qed

theorem truncate_asks_no_permission_witness:
  "\<not> may a_attr PERM_WRITE 5 5 \<and> (\<exists>d' F Is. candy_truncate demo_a (entry_path [] demo_name) 4096 5 5 = Some (0, d') \<and>
    represents F Is d' (ns_file 1 (\<lambda>bs. truncate_bytes bs 4096) demo_a_ns) \<and> refs_of d' = demo_a_refs)"
proof -
  obtain F where s: "serves F demo_rest demo_a demo_a_refs demo_a_ns"
    using demo_a_facts(2) by blast
  have see: "ns_see demo_a_ns 5 5 [] 0 demo_name (root_map(demo_name \<mapsto> 1))" "(root_map(demo_name \<mapsto> 1)) demo_name = Some 1"
    by (simp_all add: demo_a_at may_root_attr)
  have "enough demo_a (free_set demo_a (dom demo_a_ns)) 1 (int 4096)"
    using demo_a_room(1) [OF s] unfolding serves_free [OF s, symmetric] by simp
  moreover have "bit PERM_WRITE 1" "\<not> bit (a_perm a_attr) 1" "a_owner a_attr \<noteq> 5" "a_group a_attr \<noteq> 5"
    by (simp_all add: PERM_WRITE_def a_attr_def fresh_attr_of_def bit_numeral_rec)
  then have "\<not> may a_attr PERM_WRITE 5 5"
    by (auto simp: may_def intro!: exI [of _ 1])
  ultimately show ?thesis
    using truncate_asks_no_permission [OF demo_a_reach demo_few(2) [of 4] see demo_a_ns_at(2), of 4096] by (simp add: MAX_FILESIZE_def)
qed

text \<open>C31. A path through a name that does not exist, or that lies in a directory which the caller
  may not search, ends the program: after such a lookup \<open>namei\<close> asserts that a directory is
  released which \<open>namei_rec\<close> has already released.\<close>

theorem lookup_in_missing_dir_aborts:
  fixes d :: "'x path_env_scheme"
  assumes "fuse_reach d f G" and "few_refs 4 f" and "ns_hidden G user grp ns p n"
  shows "candy_getattr d (entry_path ns (n @ SLASH # rest)) user grp = None"
proof -
  obtain F Is where "serves F Is d f G"
    using fuse_reach_serves [OF assms(1)] by blast
  then show ?thesis
    by (rule candy_getattr_missing_dir [OF _ assms(2,3)])
qed

theorem lookup_in_missing_dir_aborts_witness:
  "candy_getattr demo_root [SLASH, 97, SLASH, 98] 0 0 = None"
proof -
  have path: "entry_path [] (demo_name @ SLASH # [98]) = [SLASH, 97, SLASH, 98]"
    by (simp add: entry_path_def demo_name_def)
  have hidden: "ns_hidden demo_ns 0 0 [] 0 demo_name"
    using demo_at by (auto simp: ns_hidden_def ns_at_def)
  have "few_refs 4 (\<lambda>_. 0)"
    using demo_few(1) by simp
  then show ?thesis
    using lookup_in_missing_dir_aborts [OF demo_root_reach _ hidden, of "[98]"] path by simp
qed

text \<open>C32. A symbolic link whose target is missing, or that leads past eight links, is no error: \<open>namei\<close>
  uses the error number as an inode number, whose entry in the table of inodes is beyond the end of
  the disk, and goes on with an uninitialised buffer.  \<open>open\<close> on such a path has no defined result.\<close>

theorem broken_link_undefined:
  fixes d :: "'x path_env_scheme"
  assumes "fuse_reach d f G" and "few_refs 4 f" and "ns_leads G user grp 0 path p n m" and "m n = Some u" and "G u = Some (a, node.Link bs)"
    and "0 \<notin> set bs" and "length bs < PATH_MAX" and "ns_nowhere G user grp 1 p bs"
  shows "path_resolve d path True user grp = None \<and> candy_open d path flags user grp = None"
proof -
  obtain F Is where s: "serves F Is d f G"
    using fuse_reach_serves [OF assms(1)] by blast
  have "path_resolve d path True user grp = None"
    by (rule path_resolve_broken [OF s assms(2-)])
  then show ?thesis
    by (simp add: candy_open_def open_with_def with_inode_def)
qed

theorem broken_link_undefined_witness:
  "path_resolve (demo_l [98]) (entry_path [] demo_name) True 0 0 = None \<and> candy_open (demo_l [98]) (entry_path [] demo_name) O_RDONLY 0 0 = None"
proof -
  obtain a where a: "demo_l_ns [98] 1 = Some (a, node.Link [98])"
    using demo_l_ns_at(2) by blast
  have "(root_map(demo_name \<mapsto> 1)) [98] = None"
    by (simp add: DOT_def demo_name_def)
  then have "ns_nowhere (demo_l_ns [98]) 0 0 1 0 [98]"
    using ns_nowhere.missing [of 1, OF _ demo_l_leads(2)] by simp
  from broken_link_undefined [OF demo_l_reach demo_few(1) demo_l_leads(1) _ a _ _ this] show ?thesis
    by simp
qed

text \<open>C33. \<open>unlink\<close> of a directory is refused with \<open>-EPERM\<close>, as it should be, but the reference it
  took is not given back: the directory counts as open for ever.\<close>

theorem unlink_directory_leaks:
  fixes d :: "'x path_env_scheme"
  assumes "fuse_reach d f G" and "few_refs 4 f" and "ns_at G user grp ns p n m" and "m n = Some t" and "is_dir G t"
  shows "\<exists>d' F Is. candy_unlink d (entry_path ns n) user grp = Some (- EPERM, d') \<and> represents F Is d' G \<and> refs_of d' = f(t := Suc (f t))"
proof -
  obtain F Is where "serves F Is d f G"
    using fuse_reach_serves [OF assms(1)] by blast
  from candy_unlink_leaks [OF this assms(2-5)] show ?thesis
    by (auto simp: serves_def inc_def)
qed

theorem unlink_directory_leaks_witness:
  "\<exists>d'. candy_unlink demo_d (entry_path [] demo_name) 0 0 = Some (- EPERM, d') \<and> refs_of d' 1 = 1"
proof -
  have "is_dir demo_d_ns 1" "(root_map(demo_name \<mapsto> 1)) demo_name = Some 1"
    by (simp_all add: is_dir_eq demo_d_ns_at)
  from unlink_directory_leaks [OF demo_d_reach demo_few(1) [of 4] demo_d_at(1) this(2,1)] show ?thesis
    by auto
qed

text \<open>C34. The name given to \<open>symlink_create\<close> is the string that name resolution reads back
  from the link.\<close>

theorem symlink_round_trip:
  assumes "fs_inv d F (i # Is) A" and "2 \<le> card F" and "name \<noteq> []" and "length name \<le> PATH_MAX - 1" and "0 \<notin> set name"
  shows "\<exists>d' buf d''. symlink_create d name = Some (i, d') \<and>
    symlink_read d' i (replicate PATH_MAX 0) PATH_MAX = Some (of_nat (length name), buf, d'') \<and> c_string buf = Some name"
proof -
  obtain d' F' where d': "symlink_create d name = Some (i, d')" "fs_inv d' F' Is (insert i A)" "S_ISLNK (imode (inode_at d' i))" "content d' i = name"
    using symlink_create_spec [OF assms(1-4)] by (auto simp: fs_result_def)
  then obtain d'' where "symlink_read d' i (replicate PATH_MAX 0) PATH_MAX =
      Some (of_nat (length name), read_bytes name 0 PATH_MAX (replicate PATH_MAX 0), d'')"
    using symlink_read_spec [OF d'(2) _ d'(3), of PATH_MAX "replicate PATH_MAX 0"] assms(4) by (auto simp: min_def)
  moreover have "c_string (read_bytes name 0 PATH_MAX (replicate PATH_MAX 0)) = Some name"
    using link_string [OF assms(5,4)] .
  ultimately show ?thesis
    using d'(1) by blast
qed

theorem symlink_round_trip_witness:
  "\<exists>d' buf d''. symlink_create demo_fs demo_name = Some (0, d') \<and>
    symlink_read d' 0 (replicate PATH_MAX 0) PATH_MAX = Some (of_nat (length demo_name), buf, d'') \<and> c_string buf = Some demo_name"
  by (rule symlink_round_trip [OF demo_fs_fs]) (simp_all add: card_demo_free demo_name_def)

text \<open>C35. \<open>perm_check\<close> grants what the bits of the caller's class grant: root may do anything,
  otherwise each bit asked for has to be set for the owner, the group or the others, and the times
  may be set by the owner or by who may write.\<close>

theorem perm_check_bits:
  assumes "fs_inv d F Is A" and "i \<in> A" and "perms AND 7 = perms \<or> perms = PERM_UTIME"
  shows "perm_check d i perms user grp = Some (if allowed (inode_at d i) perms user grp then 0 else - EACCES)"
  by (rule perm_check_spec [OF assms])

theorem perm_check_bits_witness:
  "perm_check demo_file 0 PERM_WRITE 7 8 = Some (if allowed (inode_at demo_file 0) PERM_WRITE 7 8 then 0 else - EACCES)"
  by (rule perm_check_bits [OF demo_file_fs]) (simp_all add: PERM_WRITE_def)

text \<open>C36. \<open>inode_indirect_grow\<close> extends a tree of blocks from \<open>n\<close> to \<open>n'\<close> data blocks, with
  every indirect block that takes, if the disk has enough free blocks; the blocks already in the tree
  keep their places, and only the superblock, free blocks and indirect blocks of the tree are
  written.  If the disk fills up it leaves a well-formed tree of fewer blocks and loses none,
  provided that the tree at the start is \<open>safe\<close>: a tree of level 2 or 3 must not end within its first
  subtree, where the code frees a block in use (C39), nor may the subtree that it ends in.\<close>

theorem indirect_grow_refines:
  assumes "l \<le> 3" and "n = clampn l cur old" and "n' = clampn l cur new" and "n < n'"
    and "store_inv d F Is" and "tree_ok l d p n" and "tset l d p n \<inter> F = {}"
    and "tcount l n' \<le> tcount l n + card F \<or> safe l n"
  shows "\<exists>p' a d' F'. inode_indirect_grow l d p cur old new = Some (tcount l n' \<le> tcount l n + card F, p', int a, d') \<and>
    (if tcount l n' \<le> tcount l n + card F then a = n' - n else a < n' - n) \<and>
    store_inv d' F' Is \<and> F' \<subseteq> F \<and> tree_ok l d' p' (n + a) \<and> tset l d' p' (n + a) = tset l d p n \<union> (F - F') \<and>
    tmeta l d' p' (n + a) \<subseteq> tmeta l d p n \<union> F \<and> (\<forall>k < n. tget l d' p' k = tget l d p k) \<and> framed (insert 0 (F \<union> tmeta l d p n)) d d'"
proof -
  have "grow_pre l Is F d p (clampn l cur old) (clampn l cur new)"
    using assms clampn_le [of l cur new] by (auto simp: grow_pre_def)
  from inode_indirect_grow_spec [OF assms(1) this] show ?thesis
    unfolding assms(2,3) [symmetric] grow_post_def by blast
qed

theorem indirect_grow_refines_witness:
  "\<exists>ok p' a d' F'. inode_indirect_grow 2 demo_fs EOF 0 0 3 = Some (ok, p', int a, d') \<and>
    store_inv d' F' (0 # demo_inos) \<and> F' \<subseteq> demo_free \<and> tree_ok 2 d' p' a \<and> tset 2 d' p' a = demo_free - F'"
proof -
  have "0 = clampn 2 0 0" "3 = clampn 2 0 3"
    by (simp_all add: clampn_def)
  from indirect_grow_refines [OF _ this _ demo_fs_store, of EOF] show ?thesis
    by (simp (no_asm_use)) blast
qed

text \<open>C37. \<open>inode_indirect_shrink\<close> cuts a tree to its first \<open>n'\<close> data blocks, which keep their places,
  and returns every other block of the tree to the free list, indirect blocks included.\<close>

theorem indirect_shrink_refines:
  assumes "l \<le> 3" and "shrink_pre Is l F d p (clampn l cur old) (clampn l cur new)"
  shows "shrink_post Is l F d p (clampn l cur old) (clampn l cur new) (inode_indirect_shrink l d p cur old new)"
  by (rule inode_indirect_shrink_spec [OF assms])

theorem indirect_shrink_refines_witness:
  "\<exists>p. shrink_post (0 # demo_inos) 2 {} demo_full p (clampn 2 0 1) (clampn 2 0 0) (inode_indirect_shrink 2 demo_full p 0 1 0)"
proof -
  obtain p where p: "store_inv demo_full {} (0 # demo_inos)" "tree_ok 2 demo_full p 1"
    using demo_full_facts by blast
  then have "shrink_pre (0 # demo_inos) 2 {} demo_full p (clampn 2 0 1) (clampn 2 0 0)"
    by (simp add: shrink_pre_def clampn_def)
  from indirect_shrink_refines [OF _ this] show ?thesis
    by auto
qed

text \<open>C38. A write that the disk has no room for returns 0, and yet overwrites the existing bytes
  from the position on with zeros: the code means to complete as much of the write as possible.  The file
  has no partly filled doubly or triply indirect slot (\<open>slots_safe\<close>; C39 is about those).\<close>

theorem full_disk_write_loses_data:
  assumes "fs_inv d F Is A" and "i \<in> A" and "0 \<le> pos" and "pos \<le> fsize d i" and "pos + int n \<le> MAX_FILESIZE"
    and "\<not> enough d F i (pos + int n)" and "slots_safe (fcount_blocks d i)"
  shows "\<exists>newsize d' F'. inode_write d i pos data (int n) = Some (0, d') \<and> fs_inv d' F' Is A \<and>
    fsize d i \<le> newsize \<and> content d' i = take (nat pos) (content d i) @ replicate (nat (newsize - pos)) 0"
  using inode_write_full [OF assms(1-3) _ assms(5,6,7,4), of data] by (auto simp: fs_result_def)

theorem full_disk_write_loses_data_witness:
  "content demo_two 0 = [7, 8] \<and> (\<exists>newsize d'. inode_write demo_two 0 1 (Some (replicate 24576 9)) (int 24576) = Some (0, d') \<and>
    2 \<le> newsize \<and> content d' 0 = 7 # replicate (nat (newsize - 1)) 0)"
proof -
  obtain F where F: "fs_inv demo_two F demo_inos {0}" "card F = 4"
    using demo_two_facts(1) by blast
  have "\<not> enough demo_two F 0 24577" "slots_safe (fcount_blocks demo_two 0)"
    using enough_direct(1) [of demo_two 0 24577 F] enough_direct(2) [of demo_two 0 24577] F(2) demo_two_facts(3) by (simp_all add: fcount_blocks_def blockcount_nonneg)
  then have "\<exists>newsize d' F'. inode_write demo_two 0 1 (Some (replicate 24576 9)) (int 24576) = Some (0, d') \<and> fs_inv d' F' demo_inos {0} \<and>
      fsize demo_two 0 \<le> newsize \<and> content d' 0 = take (nat 1) (content demo_two 0) @ replicate (nat (newsize - 1)) 0"
    by (intro full_disk_write_loses_data [OF F(1)]) (simp_all add: demo_two_facts(3) MAX_FILESIZE_def)
  then show ?thesis
    by (simp add: demo_two_facts(2,3)) blast
qed

text \<open>C39. The exception that the contract of \<open>inode_indirect_grow\<close> excludes: on a full disk, growing
  a doubly or triply indirect slot that already holds data frees the indirect block at its root
  although the file still uses it.\<close>

theorem grow_frees_used_block:
  assumes "store_inv d {} Is" and "tree_ok (Suc (Suc l)) d p n" and "Suc (Suc l) \<le> 3"
    and "n = clampn (Suc (Suc l)) cur old" and "0 < n" and "n < 512 ^ Suc l" and "n < clampn (Suc (Suc l)) cur new" and "safe (Suc l) n"
  shows "\<exists>d'. inode_indirect_grow (Suc (Suc l)) d p cur old new = Some (False, EOF, 0, d') \<and> store_inv d' {p} Is"
  by (rule grow_frees_block_in_use [OF assms])

theorem grow_frees_used_block_witness:
  "\<exists>p. tree_ok (Suc (Suc 0)) demo_full p 1 \<and>
    (\<exists>d'. inode_indirect_grow (Suc (Suc 0)) demo_full p 0 1 2 = Some (False, EOF, 0, d') \<and> store_inv d' {p} (0 # demo_inos))"
proof -
  obtain p where p: "store_inv demo_full {} (0 # demo_inos)" "tree_ok (Suc (Suc 0)) demo_full p 1"
    using demo_full_facts by (auto simp: numeral_2_eq_2)
  then show ?thesis
    using grow_frees_used_block [OF p(1,2), of 0 1 2] by (auto simp: clampn_def)
qed

text \<open>C40. Name resolution ends whatever cycle of symbolic links it meets: the nested calls are cut
  off at level 9, so more fuel than the ten calls that \<open>namei\<close> allows changes nothing.\<close>

theorem name_resolution_ends:
  fixes d :: "'x refs_env_scheme"
  assumes "10 \<le> fuel"
  shows "namei_rec fuel c deref path curdir 0 d = namei_rec 10 c deref path curdir 0 d"
  by (rule namei_rec_fuel) (use assms in simp_all)

theorem name_resolution_ends_witness:
  "namei_rec 1000 \<lparr>cr_user = 0, cr_group = 0, cr_root = 0\<rparr> True [SLASH] 0 0 demo_root =
    namei_rec 10 \<lparr>cr_user = 0, cr_group = 0, cr_root = 0\<rparr> True [SLASH] 0 0 demo_root"
  by (rule name_resolution_ends) simp

section \<open>Further facts about the parts\<close>

text \<open>No operation of such a history ends in a failed assertion or in undefined behaviour:
  from every reachable state each operation whose guard holds returns.\<close>

theorem operations_return:
  assumes "fs_reach A d" and "op_ok op A d"
  shows "\<exists>A' d'. exec_op op A d = Some (A', d')"
  using fs_reach_inv [OF assms(1)] exec_op_spec [OF _ assms(2)] by blast

theorem operations_return_witness:
  "\<exists>A' d'. exec_op Allocate {} demo_fs = Some (A', d')"
  by (rule operations_return [OF fs_reach.format [OF demo_wf(1,3,4) demo_fs_inv(3)]]) simp

text \<open>A read of a regular file after a write at the same position gets exactly the bytes
  written.\<close>

theorem write_then_read:
  assumes "fs_inv d F Is A" and "i \<in> A" and "S_ISREG (imode (inode_at d i))" and "int p + int (length bs) \<le> MAX_FILESIZE"
    and "enough d F i (int p + int (length bs))" and "length buf = length bs"
  shows "\<exists>d' d''. file_write d i (int p) bs (int (length bs)) = Some (int (length bs), d') \<and>
    file_read d' i (int p) buf (int (length bs)) = Some (int (length bs), bs, d'')"
  by (rule file_write_read [OF assms])

theorem write_then_read_witness:
  "\<exists>d' d''. file_write demo_file 0 (int 5000) [7, 8] (int (length [7, 8 :: byte])) = Some (int (length [7, 8 :: byte]), d') \<and>
    file_read d' 0 (int 5000) [0, 0] (int (length [7, 8 :: byte])) = Some (int (length [7, 8 :: byte]), [7, 8], d'')"
  by (rule write_then_read [OF demo_file_fs _ demo_file_facts(3)]) (simp_all add: MAX_FILESIZE_def demo_file_enough)

text \<open>\<open>inode_allocate\<close> takes the first free inode number and one free block, and the new
  inode is empty and has no links.\<close>

theorem inode_allocate_fresh:
  assumes "fs_inv d F (i # Is) A" and "F \<noteq> {}"
  shows "\<exists>d' b. inode_allocate d = Some (i, d') \<and> b \<in> F \<and> fs_inv d' (F - {b}) Is (insert i A) \<and> i \<notin> A \<and>
    content d' i = [] \<and> inlinks (inode_at d' i) = 0 \<and> (\<forall>j \<in> A. same_file d d' j)"
  using inode_allocate_spec [OF assms] by (force simp: fs_result_def new_inode_def)

theorem inode_allocate_fresh_witness:
  "\<exists>d' b. inode_allocate demo_fs = Some (0, d') \<and> b \<in> demo_free \<and> fs_inv d' (demo_free - {b}) demo_inos (insert 0 {}) \<and>
    0 \<notin> ({} :: ino set) \<and> content d' 0 = [] \<and> inlinks (inode_at d' 0) = 0 \<and> (\<forall>j \<in> {}. same_file demo_fs d' j)"
  by (rule inode_allocate_fresh [OF demo_fs_fs card_demo_free(2)])

text \<open>\<open>inode_free\<close> of an inode without links returns its number and every one of its
  blocks, data and indirect, and touches no other file.\<close>

theorem inode_free_returns_blocks:
  assumes "fs_inv d F Is A" and "i \<in> A" and "inlinks (inode_at d i) = 0"
  shows "\<exists>d'. inode_free d i = Some (0, d') \<and> fs_inv d' (F \<union> own d i) (i # Is) (A - {i}) \<and> (\<forall>j \<in> A - {i}. same_file d d' j)"
  using inode_free_spec [OF assms] by (auto simp: fs_result_def)

theorem inode_free_returns_blocks_witness:
  "\<exists>d'. inode_free demo_file 0 = Some (0, d') \<and> fs_inv d' (demo_file_free \<union> own demo_file 0) (0 # demo_inos) ({0} - {0}) \<and>
    (\<forall>j \<in> {0} - {0}. same_file demo_file d' j)"
  by (rule inode_free_returns_blocks [OF demo_file_fs _ demo_file_facts(4)]) simp

text \<open>No data block is lost and none is handed out twice: from a consistent store with
  free blocks \<open>F\<close>, that many calls of \<open>block_allocate\<close> return every block of \<open>F\<close>
  exactly once, and the next call reports a full disk with \<open>BLOCKNO_EOF\<close>.\<close>

theorem block_allocate_exhausts:
  assumes "store_inv d F Is"
  shows "\<exists>bs d'. alloc_many block_allocate (card F) d = Some (bs, d') \<and> distinct bs \<and> set bs = F \<and>
    block_allocate d' = Some (EOF, d')"
  by (rule blocks.alloc_all_then_eof [OF assms])

theorem block_allocate_exhausts_witness:
  "\<exists>bs d'. alloc_many block_allocate (card demo_free) demo_fs = Some (bs, d') \<and> distinct bs \<and>
    set bs = demo_free \<and> block_allocate d' = Some (EOF, d')"
  by (rule block_allocate_exhausts [OF demo_fs_store])

text \<open>Blocks that are allocated and then freed again are all free again, whatever their number.\<close>

theorem blocks_returned:
  assumes "store_inv d F Is" and "n \<le> card F"
  shows "\<exists>bs d' d''. alloc_many block_allocate n d = Some (bs, d') \<and> length bs = n \<and>
    release_many block_free bs d' = Some d'' \<and> store_inv d'' F Is"
  by (rule blocks.alloc_release_restores [OF assms])

theorem blocks_returned_witness:
  "\<exists>bs d' d''. alloc_many block_allocate 3 demo_fs = Some (bs, d') \<and> length bs = 3 \<and>
    release_many block_free bs d' = Some d'' \<and> store_inv d'' demo_free (0 # demo_inos)"
  by (rule blocks_returned [OF demo_fs_store]) (simp add: card_demo_free)

text \<open>The same for inode numbers: every free number is handed out exactly once, then
  \<open>INO_EOF\<close> is reported.\<close>

theorem ino_allocate_exhausts:
  assumes "ino_store F d N"
  shows "\<exists>is d'. alloc_many ino_allocate (card N) d = Some (is, d') \<and> distinct is \<and> set is = N \<and>
    ino_allocate d' = Some (EOF, d')"
  by (rule inos.alloc_all_then_eof [OF assms])

theorem ino_allocate_exhausts_witness:
  "\<exists>is d'. alloc_many ino_allocate (card (set (0 # demo_inos))) demo_fs = Some (is, d') \<and> distinct is \<and>
    set is = set (0 # demo_inos) \<and> ino_allocate d' = Some (EOF, d')"
proof (rule ino_allocate_exhausts)
  show "ino_store demo_free demo_fs (set (0 # demo_inos))"
    using demo_fs_store unfolding ino_store_def by (intro exI [of _ "0 # demo_inos"]) simp
qed

text \<open>The table of open inodes is a map from inodes to reference counts: \<open>refs_open\<close> of an
  inode in use adds one to its count and changes nothing on the disk.\<close>

theorem refs_open_counts:
  assumes "refs_inv d F Is A" and "i \<in> A" and "refs_of d i < 2 ^ 32 - 1"
  shows "\<exists>d'. refs_open d i = Some (0, d') \<and> same_disk d d' \<and> refs_inv d' F Is A \<and> refs_of d' = (refs_of d)(i := Suc (refs_of d i))"
  using refs_open_spec [OF assms] by blast

theorem refs_open_counts_witness:
  "\<exists>d'. refs_open demo_open 0 = Some (0, d') \<and> same_disk demo_open d' \<and> refs_inv d' demo_file_free demo_inos {0} \<and>
    refs_of d' = (refs_of demo_open)(0 := Suc (refs_of demo_open 0))"
  by (rule refs_open_counts [OF demo_open_facts(3)]) (simp_all add: demo_open_facts(4))

text \<open>Closing any other reference only takes one from the count: the inode, open elsewhere or
  still linked, keeps its blocks and its content.\<close>

theorem refs_close_keeps:
  assumes "refs_inv d F Is A" and "0 < refs_of d i" and "1 < refs_of d i \<or> inlinks (inode_at d i) \<noteq> 0"
  shows "\<exists>d'. refs_close d i = Some (0, d') \<and> same_disk d d' \<and> refs_inv d' F Is A \<and> refs_of d' = (refs_of d)(i := refs_of d i - 1)"
  using refs_close_spec [OF assms] by blast

theorem refs_close_keeps_witness:
  "\<exists>d2. refs_open demo_open 0 = Some (0, d2) \<and> (\<exists>d'. refs_close d2 0 = Some (0, d') \<and> same_disk d2 d' \<and>
    refs_inv d' demo_file_free demo_inos {0} \<and> refs_of d' = (refs_of d2)(0 := refs_of d2 0 - 1))"
proof -
  obtain d2 where d2: "refs_open demo_open 0 = Some (0, d2)" "refs_inv d2 demo_file_free demo_inos {0}" "refs_of d2 0 = 2"
    using refs_open_spec [OF demo_open_facts(3), of 0] demo_open_facts(4) by auto
  then show ?thesis
    using refs_close_keeps [OF d2(2), of 0] by simp
qed

text \<open>\<open>refs_unlink\<close> of an open inode takes one from its links, on the disk and in the
  table alike, so that the last close knows whether to free it; the content stays.\<close>

theorem refs_unlink_counts:
  assumes "refs_inv d F Is A" and "0 < refs_of d i"
  shows "\<exists>d'. refs_unlink d i = Some (0, d') \<and> refs_inv d' F Is A \<and> refs_of d' = refs_of d \<and>
    inlinks (inode_at d' i) = inlinks (inode_at d i) - 1 \<and> content d' i = content d i"
  using refs_unlink_spec [OF assms] by auto

theorem refs_unlink_counts_witness:
  "\<exists>d'. refs_unlink demo_open 0 = Some (0, d') \<and> refs_inv d' demo_file_free demo_inos {0} \<and> refs_of d' = refs_of demo_open \<and>
    inlinks (inode_at d' 0) = inlinks (inode_at demo_open 0) - 1 \<and> content d' 0 = content demo_open 0"
  by (rule refs_unlink_counts [OF demo_open_facts(3)]) (simp add: demo_open_facts(4))

text \<open>\<open>dir_create\<close> makes a directory whose map has exactly \<open>..\<close>, the parent, and \<open>.\<close>,
  itself.\<close>

theorem dir_create_new:
  assumes "fs_inv d F (i # Is) A" and "2 \<le> card F" and "parent \<noteq> EOF"
  shows "\<exists>d' F'. dir_create d parent = Some (i, d') \<and> fs_inv d' F' Is (insert i A) \<and> i \<notin> A \<and>
    dir_rep d' i [[([DOT, DOT], parent), ([DOT], i)]] \<and> (\<forall>j \<in> A. same_file d d' j)"
  using dir_create_spec [OF assms] by (force simp: fs_result_def new_dir_def)

theorem dir_create_new_witness:
  "\<exists>d' F'. dir_create demo_fs 3 = Some (0, d') \<and> fs_inv d' F' demo_inos (insert 0 {}) \<and> 0 \<notin> ({} :: ino set) \<and>
    dir_rep d' 0 [[([DOT, DOT], 3), ([DOT], 0)]] \<and> (\<forall>j \<in> {}. same_file demo_fs d' j)"
  by (rule dir_create_new [OF demo_fs_fs]) (simp_all add: card_demo_free EOF_def)

text \<open>A disk too full for a new directory is left as it was: \<open>dir_create\<close> returns
  \<open>-ENOSPC\<close>, the inode it may have taken is free again and no block is lost.\<close>

theorem dir_create_rolls_back:
  assumes "fs_inv d F Is A" and "card F < 2 \<or> Is = []"
  shows "\<exists>d'. dir_create d parent = Some (of_int (- ENOSPC), d') \<and> fs_inv d' F Is A \<and> (\<forall>j \<in> A. same_file d d' j)"
  using dir_create_full [OF assms] by blast

theorem dir_create_rolls_back_witness:
  "\<exists>F. fs_inv demo_tiny F (0 # demo_inos) {} \<and> card F = 1 \<and>
    (\<exists>d'. dir_create demo_tiny 0 = Some (of_int (- ENOSPC), d') \<and> fs_inv d' F (0 # demo_inos) {} \<and> (\<forall>j \<in> {}. same_file demo_tiny d' j))"
proof -
  obtain F where F: "fs_inv demo_tiny F (0 # demo_inos) {}" "card F = 1"
    using demo_tiny_facts by blast
  then show ?thesis
    using dir_create_rolls_back [OF F(1), of 0] by auto
qed

text \<open>\<open>dir_destroy\<close> of a directory with no entry but its first two marks it destroyed, by
  its size of one byte less than a block.\<close>

theorem dir_destroy_empty:
  assumes "fs_inv d F Is A" and "i \<in> A" and "dir_rep d i [es]" and "length es \<le> 2"
  shows "\<exists>d' F'. dir_destroy d i = Some (0, d') \<and> fs_inv d' F' Is A \<and> S_ISDIR (imode (inode_at d' i)) \<and> fsize d' i = BLOCKSIZE - 1 \<and>
    (\<forall>j \<in> A - {i}. same_file d d' j)"
  using dir_destroy_spec [OF assms] by (auto simp: fs_result_def dead_dir_def)

theorem dir_destroy_empty_witness:
  "\<exists>d' F'. dir_destroy demo_dir 0 = Some (0, d') \<and> fs_inv d' F' demo_inos {0} \<and> S_ISDIR (imode (inode_at d' 0)) \<and>
    fsize d' 0 = BLOCKSIZE - 1 \<and> (\<forall>j \<in> {0} - {0}. same_file demo_dir d' j)"
  by (rule dir_destroy_empty [OF demo_dir_facts(2) _ demo_dir_facts(4) [unfolded new_dir_def]]) simp_all

text \<open>A directory with more entries is not destroyed: \<open>dir_destroy\<close> returns \<open>-ENOTEMPTY\<close>
  and keeps its map.\<close>

theorem dir_destroy_refuses:
  assumes "fs_inv d F Is A" and "i \<in> A" and "dir_rep d i ess" and "2 < length (concat ess)"
  shows "\<exists>d'. dir_destroy d i = Some (- ENOTEMPTY, d') \<and> only_read A i d d' F Is \<and> dir_rep d' i ess"
proof -
  have "1 < length ess \<or> (\<exists>es. ess = [es] \<and> 2 < length es)"
    using assms(4) by (cases ess; cases "tl ess") auto
  then show ?thesis
    using dir_destroy_nonempty [OF assms(1-3)] dir_rep_read [OF _ assms(3)] by blast
qed

theorem dir_destroy_refuses_witness:
  "\<exists>F ess. fs_inv demo_entry F demo_inos {0} \<and> dir_rep demo_entry 0 ess \<and>
    (\<exists>d'. dir_destroy demo_entry 0 = Some (- ENOTEMPTY, d') \<and> only_read {0} 0 demo_entry d' F demo_inos \<and> dir_rep d' 0 ess)"
proof -
  obtain F ess where e: "fs_inv demo_entry F demo_inos {0}" "dir_rep demo_entry 0 ess"
      "dir_map ess = (dir_map (new_dir 0 0))(demo_name \<mapsto> 5)"
    using demo_entry_facts(2) by blast
  have "dom (dir_map ess) = {[DOT, DOT], [DOT], demo_name}"
    unfolding e(3) by (auto simp: new_dir_def)
  then have "card (dom (dir_map ess)) = 3"
    by (simp add: demo_name_def DOT_def)
  then have "2 < length (concat ess)"
    using card_length [of "map fst (concat ess)"] by (simp add: dom_map_of_conv_image_fst)
  then show ?thesis
    using dir_destroy_refuses [OF e(1) _ e(2)] e(1,2) by auto
qed

text \<open>A destroyed directory takes no entry, loses none, is not destroyed again and not moved:
  all four operations return \<open>-ENOENT\<close> and leave the state as it is.\<close>

theorem destroyed_dir_refuses:
  assumes "fs_inv d F Is A" and "i \<in> A" and "S_ISDIR (imode (inode_at d i))" and "fsize d i = BLOCKSIZE - 1"
  shows "dir_insert d i name target = Some (- ENOENT, d) \<and> dir_remove d i name = Some (of_int (- ENOENT), d) \<and>
    dir_destroy d i = Some (- ENOENT, d) \<and> dir_reparent d i parent = Some (- ENOENT, d)"
  using dead_dir_refuses [OF assms(1,2)] assms(3,4) by (simp add: dead_dir_def)

theorem destroyed_dir_refuses_witness:
  "dir_insert demo_dead 0 demo_name 5 = Some (- ENOENT, demo_dead) \<and> dir_remove demo_dead 0 demo_name = Some (of_int (- ENOENT), demo_dead) \<and>
    dir_destroy demo_dead 0 = Some (- ENOENT, demo_dead) \<and> dir_reparent demo_dead 0 5 = Some (- ENOENT, demo_dead)"
proof -
  obtain F where "fs_inv demo_dead F demo_inos {0}"
    using demo_dead_facts(2) by blast
  then show ?thesis
    using demo_dead_facts(3) unfolding dead_dir_def by (intro destroyed_dir_refuses) auto
qed

text \<open>\<open>dir_reparent\<close> changes the directory's first entry, \<open>..\<close>, to the new parent and
  keeps every other entry.\<close>

theorem dir_reparent_entry:
  assumes "fs_inv d F Is A" and "i \<in> A" and "dir_rep d i (((up, p) # ([DOT], i) # es) # ess)" and "parent \<noteq> EOF"
  shows "\<exists>d' F'. dir_reparent d i parent = Some (0, d') \<and> fs_inv d' F' Is A \<and> dir_rep d' i (((up, parent) # ([DOT], i) # es) # ess)"
  using dir_reparent_spec [OF assms] by (auto simp: fs_result_def)

theorem dir_reparent_entry_witness:
  "\<exists>d' F'. dir_reparent demo_dir 0 5 = Some (0, d') \<and> fs_inv d' F' demo_inos {0} \<and> dir_rep d' 0 ((([DOT, DOT], 5) # ([DOT], 0) # []) # [])"
  by (rule dir_reparent_entry [OF demo_dir_facts(2) _ demo_dir_facts(4) [unfolded new_dir_def] zero_not_EOF(2)]) simp

text \<open>File operations on an inode that is no regular file return \<open>-EISDIR\<close> for a directory
  and \<open>-EINVAL\<close> otherwise, and leave the state and the buffer as they are.\<close>

theorem file_types_checked:
  assumes "fs_inv d F Is A" and "i \<in> A" and "\<not> S_ISREG (imode (inode_at d i))"
  shows "let e = (if S_ISDIR (imode (inode_at d i)) then - EISDIR else - EINVAL) in
    file_read d i pos buf n = Some (e, buf, d) \<and> file_write d i pos data n = Some (e, d) \<and> file_truncate d i sz = Some (e, d)"
  using file_ops_wrong_type [OF assms] by (simp add: type_error_def Let_def)

theorem file_types_checked_witness:
  "let e = (if S_ISDIR (imode (inode_at demo_dir 0)) then - EISDIR else - EINVAL) in
    file_read demo_dir 0 0 [1] 1 = Some (e, [1], demo_dir) \<and> file_write demo_dir 0 0 [1] 1 = Some (e, demo_dir) \<and>
    file_truncate demo_dir 0 0 = Some (e, demo_dir)"
  by (rule file_types_checked [OF demo_dir_facts(2)]) (use demo_dir_facts(4) mode_exclusive in \<open>auto simp: dir_rep_def\<close>)

text \<open>\<open>perm_chmod\<close> by root or the owner sets exactly the twelve permission bits and never
  changes the type of the file; anybody else gets \<open>-EACCES\<close> and a mode with other bits
  \<open>-EINVAL\<close>, without an effect.\<close>

theorem perm_chmod_keeps_type:
  assumes "fs_inv d F Is A" and "i \<in> A"
  shows "\<exists>e d'. perm_chmod d i mode user = Some (e, d') \<and>
    (if mode AND 0xFFF \<noteq> mode then e = - EINVAL \<and> d' = d
     else if user \<noteq> 0 \<and> user \<noteq> iowner (inode_at d i) then e = - EACCES \<and> d' = d
     else e = 0 \<and> fs_inv d' F Is A \<and> content d' i = content d i \<and>
       imode (inode_at d' i) AND 0xFFF = mode \<and> imode (inode_at d' i) AND S_IFMT = imode (inode_at d i) AND S_IFMT)"
proof -
  obtain e d' where "perm_chmod d i mode user = Some (e, d')" and
    "if mode AND 0xFFF \<noteq> mode then e = - EINVAL \<and> d' = d
     else if user \<noteq> 0 \<and> user \<noteq> iowner (inode_at d i) then e = - EACCES \<and> d' = d
     else e = 0 \<and> meta_result A i d d' F Is ((inode_at d i)\<lparr>imode := imode (inode_at d' i), last_statchange := fst (now d)\<rparr>) \<and>
       imode (inode_at d' i) AND 0xFFF = mode \<and> imode (inode_at d' i) AND S_IFMT = imode (inode_at d i) AND S_IFMT"
    using perm_chmod_spec [OF assms, of mode user] by blast
  then show ?thesis
    unfolding meta_result_def fs_result_def by (intro exI [of _ e] exI [of _ d']) argo
qed

theorem perm_chmod_keeps_type_witness:
  "\<exists>e d'. perm_chmod demo_file 0 0x1A4 0 = Some (e, d') \<and>
    (if (0x1A4 :: u32) AND 0xFFF \<noteq> 0x1A4 then e = - EINVAL \<and> d' = demo_file
     else if (0 :: u32) \<noteq> 0 \<and> 0 \<noteq> iowner (inode_at demo_file 0) then e = - EACCES \<and> d' = demo_file
     else e = 0 \<and> fs_inv d' demo_file_free demo_inos {0} \<and> content d' 0 = content demo_file 0 \<and>
       imode (inode_at d' 0) AND 0xFFF = 0x1A4 \<and> imode (inode_at d' 0) AND S_IFMT = imode (inode_at demo_file 0) AND S_IFMT)"
  by (rule perm_chmod_keeps_type [OF demo_file_fs]) simp

text \<open>The slots of an inode partition its block indexes: every index that a file can have lies in
  exactly one slot, at the level and between the bounds that the index functions of \<open>inode.c\<close>
  compute.\<close>

theorem block_slots_partition:
  assumes "0 \<le> b" and "b < FIRST_UNREACHABLE_BLOCK"
  shows "let s = blockidx2blockslot b; l = nat (blockslot_indirection_level s) in
    0 \<le> s \<and> s < FIRST_UNREACHABLE_SLOT \<and> indirection_level b = int l \<and> l \<le> 3 \<and>
    blockslot2firstblockidx s \<le> b \<and> b < blockslot2firstblockidx s + indirect_count (int l) \<and>
    (\<forall>t. 0 \<le> t \<and> t < FIRST_UNREACHABLE_SLOT \<and> blockslot2firstblockidx t \<le> b \<and>
       b < blockslot2firstblockidx t + indirect_count (blockslot_indirection_level t) \<longrightarrow> t = s)"
  by (rule slot_partition [OF assms])

theorem block_slots_partition_witness:
  "let s = blockidx2blockslot 1000; l = nat (blockslot_indirection_level s) in
    0 \<le> s \<and> s < FIRST_UNREACHABLE_SLOT \<and> indirection_level 1000 = int l \<and> l \<le> 3 \<and>
    blockslot2firstblockidx s \<le> 1000 \<and> 1000 < blockslot2firstblockidx s + indirect_count (int l) \<and>
    (\<forall>t. 0 \<le> t \<and> t < FIRST_UNREACHABLE_SLOT \<and> blockslot2firstblockidx t \<le> 1000 \<and>
       1000 < blockslot2firstblockidx t + indirect_count (blockslot_indirection_level t) \<longrightarrow> t = s)"
  by (rule block_slots_partition) simp_all

text \<open>An inode written to a block of the disk and read back is the same inode: the encoding
  fills the block and decoding inverts it.\<close>

theorem inode_layout_round_trip:
  assumes "wf_disk d" and "n < nblocks d" and "inode_ok inode"
  shows "\<exists>d'. disk_write d n (enc_inode inode) = Some d' \<and> map_option dec_inode (read_block d' n) = Some inode \<and>
    (\<forall>m. m \<noteq> n \<longrightarrow> read_block d' m = read_block d m)"
proof -
  have len: "length (enc_inode inode) = BLOCKSIZE"
    by (rule inode_codec.length_enc [OF assms(3)])
  have run: "disk_write d n (enc_inode inode) = Some (upd_blk d n (enc_inode inode))"
    using assms(1,2) len by (simp add: disk_write_wf)
  show ?thesis
    using run inode_codec.read_back [OF assms(1,2,3) run] assms(1) len by (auto simp: read_block_wf)
qed

theorem inode_layout_round_trip_witness:
  "\<exists>d'. disk_write demo_boot 3 (enc_inode (new_inode demo_ts)) = Some d' \<and>
    map_option dec_inode (read_block d' 3) = Some (new_inode demo_ts) \<and> (\<forall>m. m \<noteq> 3 \<longrightarrow> read_block d' m = read_block demo_boot m)"
  by (rule inode_layout_round_trip [OF demo_wf(1)]) (simp_all add: demo_wf(2) inode_ok_def new_inode_def)

text \<open>The entry that an operation on a path works on is the path's last component, whatever
  slashes follow it, and \<open>.\<close> for a path of slashes.\<close>

theorem last_component:
  assumes "token \<noteq> []" and "SLASH \<notin> set token" and "prefix = [] \<or> last prefix = SLASH"
  shows "last_token (prefix @ token @ replicate n SLASH) = token \<and> last_token (replicate n SLASH) = [DOT]"
  using last_token_spec [OF assms, of n] by simp

theorem last_component_witness:
  "last_token ([SLASH] @ [97, 98] @ replicate 2 SLASH) = [97, 98] \<and> last_token (replicate 2 SLASH) = [DOT]"
  by (rule last_component) (simp_all add: SLASH_def)

end
